(* ===== verification/Zi_Prelude.thy ===== *)
theory Zi_Prelude
  imports Main "HOL-Library.Word" "HOL-Library.Multiset" "HOL-Library.Monad_Syntax"
begin

text \<open>
  Shared vocabulary of the development: the result type of operations that throw, the
  collections that drive the automation, and generic facts on lists that are updated by
  index (the C arrays and vectors of the library).

  Conventions used by every theory:
  \<^item> an operation whose C++ counterpart can fail an assertion, read outside an array or
    loop for ever returns an \<open>option\<close>; \<open>None\<close> is "does not return normally";
  \<^item> an operation that throws \<open>zi::exception\<close> returns a sum, \<open>Inl\<close> being the exception;
  \<^item> \<open>std::size_t\<close> indices and sizes are \<open>nat\<close> where they are bounded by the memory that
    holds the array; integers that may wrap are kept as words.
\<close>

datatype zi_exception = Zi_Exception string

type_synonym 'a throws = "zi_exception + 'a"

type_synonym u8 = "8 word"
type_synonym u16 = "16 word"
type_synonym u32 = "32 word"
type_synonym u64 = "64 word"

named_theorems zi_inv "invariants kept by the operations"
named_theorems zi_abs "what an operation does to the abstract value of its state"

lemma unat_u8_less: "unat (x :: u8) < 256"
  using unsigned_less [of x] by simp

text \<open>The value of an \<open>int64_t\<close> expression: two's complement wrap-around at 64 bits.\<close>

definition s64 :: "int \<Rightarrow> int" where
  "s64 x = signed_take_bit 63 x"

lemma s64_eq [simp]: "- (2 ^ 63) \<le> x \<Longrightarrow> x < 2 ^ 63 \<Longrightarrow> s64 x = x"
  unfolding s64_def by (rule signed_take_bit_int_eq_self) simp_all

section \<open>Arrays as lists\<close>

definition swap_nth :: "'a list \<Rightarrow> nat \<Rightarrow> nat \<Rightarrow> 'a list" where
  "swap_nth xs i j = xs[i := xs ! j, j := xs ! i]"

lemma length_swap_nth [simp]: "length (swap_nth xs i j) = length xs"
  by (simp add: swap_nth_def)

lemma nth_swap_nth:
  assumes "i < length xs" "j < length xs"
  shows "swap_nth xs i j ! k = (if k = j then xs ! i else if k = i then xs ! j else xs ! k)"
  using assms by (auto simp: swap_nth_def nth_list_update)

lemma swap_nth_same [simp]: "swap_nth xs i i = xs"
  by (simp add: swap_nth_def)

lemma mset_swap_nth [simp]:
  assumes "i < length xs" "j < length xs"
  shows "mset (swap_nth xs i j) = mset xs"
  using assms by (simp add: swap_nth_def mset_swap)

lemma set_swap_nth [simp]:
  assumes "i < length xs" "j < length xs"
  shows "set (swap_nth xs i j) = set xs"
  using mset_swap_nth [OF assms] by (metis set_mset_mset)

lemma distinct_swap_nth [simp]:
  assumes "i < length xs" "j < length xs"
  shows "distinct (swap_nth xs i j) = distinct xs"
  using assms by (simp add: swap_nth_def)

text \<open>A loop whose body is itself a loop over a few items is one loop over all items.\<close>

lemma fold_concat_map:
  "(\<And>v r. v \<in> set vs \<Longrightarrow> f v r = fold g (h v) r) \<Longrightarrow> fold f vs r = fold g (concat (map h vs)) r"
  by (induction vs arbitrary: r) auto

text \<open>A loop that adds up.\<close>

lemma fold_sum_upt:
  "fold (\<lambda>i r. r + f i) [a..<b] (z :: 'a :: comm_monoid_add) = z + (\<Sum>i = a..<b. f i)"
  by (induction b) (auto simp: algebra_simps)

end
