(* ===== verification/Zi_Disjoint_Sets.thy ===== *)
theory Zi_Disjoint_Sets
  imports Zi_Prelude
begin

text \<open>
  \<^verbatim>\<open>zi/disjoint_sets/disjoint_sets.hpp\<close>: the union-find structure that the watershed code
  merges its regions with. \<open>T\<close> is taken to be \<open>uint32_t\<close>: the parents are indices below
  \<open>size_\<close> (so they are kept as \<open>nat\<close>), the set counter \<open>sets_\<close> and the byte-sized ranks
  \<open>r_\<close> keep their widths, because \<open>--sets_\<close> and \<open>++r_[ x ]\<close> could wrap.
  \<open>None\<close> is a failed \<open>ZI_ASSERT\<close>, an access outside the arrays or a loop that never ends.
\<close>

section \<open>State and operations\<close>

record dsets =
  ds_p :: "nat list"
  ds_r :: "u8 list"
  ds_size :: nat
  ds_sets :: u32

definition ds_init :: "nat \<Rightarrow> dsets" where
  "ds_init s = \<lparr>ds_p = [0..<s], ds_r = replicate s 0, ds_size = s, ds_sets = of_nat s\<rparr>"

definition ds_new :: "nat \<Rightarrow> dsets" where
  "ds_new s =
     (if s > 0 then ds_init s
      else \<lparr>ds_p = [], ds_r = [], ds_size = 0, ds_sets = 0\<rparr>)"

text \<open>The first loop of \<open>find_set\<close>: follow the parents up to a root.\<close>

partial_function (option) ds_root :: "nat list \<Rightarrow> nat \<Rightarrow> nat option" where
  "ds_root p n =
     (if n < length p
      then (if n \<noteq> p ! n then ds_root p (p ! n) else Some n)
      else None)"

text \<open>The second loop. The code writes \<open>p_[ id ]\<close> in every round, not \<open>p_[ i ]\<close>.\<close>

partial_function (option) ds_compress :: "nat list \<Rightarrow> nat \<Rightarrow> nat \<Rightarrow> nat \<Rightarrow> nat list option" where
  "ds_compress p id0 n i =
     (if n \<noteq> i then (let x = p ! id0 in ds_compress (p[id0 := n]) id0 n x) else Some p)"

declare ds_root.simps [code] ds_compress.simps [code]

definition ds_find_set :: "dsets \<Rightarrow> nat \<Rightarrow> (nat \<times> dsets) option" where
  "ds_find_set d id0 =
     (if id0 < ds_size d
      then do {
        n \<leftarrow> ds_root (ds_p d) id0;
        p \<leftarrow> ds_compress (ds_p d) id0 n id0;
        Some (n, d\<lparr>ds_p := p\<rparr>)
      }
      else None)"

definition ds_join :: "dsets \<Rightarrow> nat \<Rightarrow> nat \<Rightarrow> (nat \<times> dsets) option" where
  "ds_join d x y =
     (if x < ds_size d \<and> y < ds_size d
      then
        (if x = y then Some (x, d)
         else
           let d = d\<lparr>ds_sets := ds_sets d - 1\<rparr>;
               r = ds_r d
           in if r ! x \<ge> r ! y
              then Some (x, d\<lparr>ds_p := (ds_p d)[y := x],
                              ds_r := (if r ! x = r ! y then r[x := r ! x + 1] else r)\<rparr>)
              else Some (y, d\<lparr>ds_p := (ds_p d)[x := y]\<rparr>))
      else None)"

definition ds_clear :: "dsets \<Rightarrow> dsets" where
  "ds_clear d =
     d\<lparr>ds_p := [0..<ds_size d], ds_r := replicate (ds_size d) 0,
       ds_sets := of_nat (ds_size d)\<rparr>"

definition ds_resize :: "dsets \<Rightarrow> nat \<Rightarrow> dsets" where
  "ds_resize d s = (if s \<noteq> ds_size d then ds_init s else ds_clear d)"

definition ds_set_count :: "dsets \<Rightarrow> u32" where
  "ds_set_count d = ds_sets d"

section \<open>Representatives\<close>

definition ds_rep :: "nat list \<Rightarrow> nat \<Rightarrow> nat" where
  "ds_rep p i = the (ds_root p i)"

text \<open>Ranks grow strictly along parent links: this is what makes the root loop end.\<close>

definition ds_forest :: "nat list \<Rightarrow> u8 list \<Rightarrow> bool" where
  "ds_forest p r \<longleftrightarrow> length r = length p \<and>
     (\<forall>i < length p. p ! i < length p \<and> (p ! i \<noteq> i \<longrightarrow> r ! i < r ! (p ! i)))"

lemma ds_forestD:
  assumes "ds_forest p r" "i < length p"
  shows "p ! i < length p" "p ! i \<noteq> i \<Longrightarrow> r ! i < r ! (p ! i)"
  using assms by (auto simp: ds_forest_def)

lemma ds_forest_induct [consumes 2, case_names root link]:
  assumes F: "ds_forest p r" and i: "i < length p"
    and root: "\<And>i. i < length p \<Longrightarrow> p ! i = i \<Longrightarrow> P i"
    and link: "\<And>i. i < length p \<Longrightarrow> p ! i \<noteq> i \<Longrightarrow> P (p ! i) \<Longrightarrow> P i"
  shows "P i"
  using i
proof (induction "256 - unat (r ! i)" arbitrary: i rule: less_induct)
  case less
  show ?case
  proof (cases "p ! i = i")
    case True
    with less.prems show ?thesis by (rule root)
  next
    case False
    from ds_forestD [OF F less.prems] False
    have "p ! i < length p" "unat (r ! i) < unat (r ! (p ! i))"
      by (auto simp: word_less_nat_alt)
    moreover have "unat (r ! (p ! i)) < 256"
      by (rule unat_u8_less)
    ultimately have "P (p ! i)" by (intro less.hyps) auto
    with less.prems False show ?thesis by (rule link)
  qed
qed

lemma ds_root_root: "i < length p \<Longrightarrow> p ! i = i \<Longrightarrow> ds_root p i = Some i"
  by (subst ds_root.simps) simp

lemma ds_root_link: "i < length p \<Longrightarrow> p ! i \<noteq> i \<Longrightarrow> ds_root p i = ds_root p (p ! i)"
  by (subst ds_root.simps) simp

lemma ds_rep_root: "i < length p \<Longrightarrow> p ! i = i \<Longrightarrow> ds_rep p i = i"
  by (simp add: ds_rep_def ds_root_root)

lemma ds_rep_link: "i < length p \<Longrightarrow> p ! i \<noteq> i \<Longrightarrow> ds_rep p i = ds_rep p (p ! i)"
  by (simp add: ds_rep_def ds_root_link)

lemma ds_root_rep:
  assumes "ds_forest p r" "i < length p"
  shows "ds_root p i = Some (ds_rep p i) \<and> ds_rep p i < length p \<and>
         p ! ds_rep p i = ds_rep p i \<and> (p ! i \<noteq> i \<longrightarrow> r ! i < r ! ds_rep p i)"
  using assms
proof (induction rule: ds_forest_induct)
  case (root i)
  then show ?case by (simp add: ds_rep_root ds_root_root)
next
  case (link i)
  then have "p ! i < length p" and lt: "r ! i < r ! (p ! i)"
    using ds_forestD [OF assms(1)] by blast+
  with link have "r ! i < r ! ds_rep p (p ! i)"
    by (cases "p ! (p ! i) = p ! i") (auto simp: ds_rep_root)
  with link show ?case by (simp add: ds_rep_link [of i] ds_root_link [of i])
qed

lemmas ds_rep_facts = ds_root_rep [THEN conjunct1] ds_root_rep [THEN conjunct2, THEN conjunct1]
  ds_root_rep [THEN conjunct2, THEN conjunct2, THEN conjunct1]
  ds_root_rep [THEN conjunct2, THEN conjunct2, THEN conjunct2]

lemma ds_rep_idem: "ds_forest p r \<Longrightarrow> i < length p \<Longrightarrow> ds_rep p (ds_rep p i) = ds_rep p i"
  by (metis ds_rep_root ds_rep_facts(2,3))

text \<open>Relinking one node to its representative, or one root below another, keeps the forest.\<close>

lemma ds_forest_compress:
  assumes F: "ds_forest p r" and i: "i < length p"
  shows "ds_forest (p[i := ds_rep p i]) r"
proof -
  have "ds_rep p i \<noteq> i \<Longrightarrow> r ! i < r ! ds_rep p i"
    using ds_rep_facts(4) [OF F i] ds_rep_root [OF i] by blast
  with F i ds_rep_facts(2) [OF F i] show ?thesis
    unfolding ds_forest_def by (auto simp: nth_list_update)
qed

lemma ds_rep_compress:
  assumes F: "ds_forest p r" and i: "i < length p" and j: "j < length p"
  shows "ds_rep (p[i := ds_rep p i]) j = ds_rep p j"
proof -
  let ?q = "p[i := ds_rep p i]"
  have "ds_forest ?q r" using F i by (rule ds_forest_compress)
  moreover have "j < length ?q" using j by simp
  ultimately show ?thesis
  proof (induction rule: ds_forest_induct)
    case (root j)
    then show ?case
      by (cases "j = i") (auto simp: ds_rep_root)
  next
    case (link j)
    from link(1,2) have "ds_rep ?q j = ds_rep ?q (?q ! j)" by (rule ds_rep_link)
    with link show ?case
      by (cases "j = i") (auto simp: ds_rep_link [of j p] ds_rep_idem [OF F])
  qed
qed

lemma ds_rep_union:
  assumes F: "ds_forest (p[y := x]) r'" and xy: "x < length p" "y < length p" "x \<noteq> y"
    and roots: "p ! x = x" "p ! y = y" and G: "ds_forest p r" and j: "j < length p"
  shows "ds_rep (p[y := x]) j = (if ds_rep p j = y then x else ds_rep p j)"
proof -
  let ?q = "p[y := x]"
  have "j < length ?q" using j by simp
  with F show ?thesis
  proof (induction rule: ds_forest_induct)
    case (root j)
    then have "j \<noteq> y" using xy by (auto simp: nth_list_update)
    with root show ?case by (simp add: ds_rep_root)
  next
    case (link j)
    show ?case
    proof (cases "j = y")
      case True
      with link xy roots show ?thesis by (auto simp: ds_rep_link [of y ?q] ds_rep_root)
    next
      case False
      with link xy show ?thesis
        by (simp add: ds_rep_link [of j ?q] ds_rep_link [of j p])
    qed
  qed
qed


section \<open>The invariant and what the operations do to the partition\<close>

definition ds_roots :: "nat list \<Rightarrow> nat set" where
  "ds_roots p = {i. i < length p \<and> p ! i = i}"

definition ds_class :: "nat list \<Rightarrow> nat \<Rightarrow> nat set" where
  "ds_class p x = {i. i < length p \<and> ds_rep p i = x}"

definition ds_inv :: "dsets \<Rightarrow> bool" where
  "ds_inv d \<longleftrightarrow> length (ds_p d) = ds_size d \<and> ds_size d < 2 ^ 32 \<and>
     ds_forest (ds_p d) (ds_r d) \<and>
     (\<forall>x \<in> ds_roots (ds_p d). 2 ^ unat (ds_r d ! x) \<le> card (ds_class (ds_p d) x)) \<and>
     ds_sets d = of_nat (card (ds_roots (ds_p d)))"

lemma ds_roots_finite [simp]: "finite (ds_roots p)"
  by (simp add: ds_roots_def)

lemma ds_class_finite [simp]: "finite (ds_class p x)"
  by (simp add: ds_class_def)

lemma ds_invD:
  assumes "ds_inv d"
  shows "length (ds_p d) = ds_size d" "ds_size d < 2 ^ 32" "ds_forest (ds_p d) (ds_r d)"
    "x \<in> ds_roots (ds_p d) \<Longrightarrow> 2 ^ unat (ds_r d ! x) \<le> card (ds_class (ds_p d) x)"
    "ds_sets d = of_nat (card (ds_roots (ds_p d)))" "length (ds_r d) = ds_size d"
  using assms by (auto simp: ds_inv_def ds_forest_def)

lemma ds_class_card_le: "card (ds_class p x) \<le> length p"
proof -
  have "ds_class p x \<subseteq> {..<length p}" by (auto simp: ds_class_def)
  then show ?thesis by (metis card_lessThan card_mono finite_lessThan)
qed

lemma ds_fresh_inv [zi_inv]:
  "n < 2 ^ 32 \<Longrightarrow>
   ds_inv \<lparr>ds_p = [0..<n], ds_r = replicate n 0, ds_size = n, ds_sets = of_nat n\<rparr>"
proof -
  have "ds_roots [0..<n] = {..<n}" by (auto simp: ds_roots_def)
  moreover have "x \<in> ds_class [0..<n] x" if "x < n" for x
    using that by (simp add: ds_class_def ds_rep_root)
  then have "1 \<le> card (ds_class [0..<n] x)" if "x < n" for x
    using that by (metis One_nat_def Suc_leI card_gt_0_iff ds_class_finite empty_iff)
  moreover assume "n < 2 ^ 32"
  ultimately show ?thesis by (auto simp: ds_inv_def ds_forest_def)
qed

lemma ds_inv_new [zi_inv]: "n < 2 ^ 32 \<Longrightarrow> ds_inv (ds_new n)"
  using ds_fresh_inv [of n] by (cases n) (auto simp: ds_new_def ds_init_def)

lemma ds_inv_clear [zi_inv]: "ds_inv d \<Longrightarrow> ds_inv (ds_clear d)"
  using ds_fresh_inv [of "ds_size d"] by (simp add: ds_clear_def ds_invD(2) ds_inv_def)

lemma ds_inv_resize [zi_inv]: "ds_inv d \<Longrightarrow> n < 2 ^ 32 \<Longrightarrow> ds_inv (ds_resize d n)"
  using ds_fresh_inv [of n] by (auto simp: ds_resize_def ds_init_def intro: zi_inv)

text \<open>\<open>find_set\<close>: the second loop stops after at most two rounds.\<close>

lemma ds_compress_eq:
  assumes "i < length p"
  shows "ds_compress p i n i = Some (p[i := n]) \<or> n = i \<and> ds_compress p i n i = Some p"
  using assms by (auto simp: ds_compress.simps [of p i n i] ds_compress.simps [of _ i n "p ! i"]
      ds_compress.simps [of _ i n n] Let_def)

lemma ds_find_set_eq:
  assumes "ds_inv d" "i < ds_size d"
  shows "ds_find_set d i =
    Some (ds_rep (ds_p d) i, d\<lparr>ds_p := (ds_p d)[i := ds_rep (ds_p d) i]\<rparr>)"
proof -
  let ?p = "ds_p d"
  from assms have F: "ds_forest ?p (ds_r d)" and i: "i < length ?p"
    by (auto simp: ds_invD)
  have "ds_compress ?p i (ds_rep ?p i) i = Some (?p[i := ds_rep ?p i])"
    using ds_compress_eq [OF i] ds_rep_facts(3) [OF F i] by (metis list_update_id)
  with assms show ?thesis
    by (simp add: ds_find_set_def ds_rep_facts(1) [OF F i] del: fun_upd_apply)
qed

lemma ds_roots_compress:
  assumes F: "ds_forest p r" and i: "i < length p"
  shows "ds_roots (p[i := ds_rep p i]) = ds_roots p"
  using ds_rep_facts(3,4) [OF F i] ds_rep_root [OF i] i
  by (auto simp: ds_roots_def nth_list_update split: if_splits)

lemma ds_class_compress:
  assumes F: "ds_forest p r" and i: "i < length p"
  shows "ds_class (p[i := ds_rep p i]) x = ds_class p x"
  using ds_rep_compress [OF F i] by (auto simp: ds_class_def)

lemma ds_inv_find [zi_inv]:
  assumes "ds_inv d" "i < ds_size d"
  shows "ds_inv (d\<lparr>ds_p := (ds_p d)[i := ds_rep (ds_p d) i]\<rparr>)"
proof -
  have F: "ds_forest (ds_p d) (ds_r d)" and i: "i < length (ds_p d)"
    using assms by (auto simp: ds_invD)
  show ?thesis
    using assms ds_forest_compress [OF F i] ds_roots_compress [OF F i] ds_class_compress [OF F i]
    by (simp add: ds_inv_def)
qed


text \<open>\<open>join\<close> of two different roots: one of them goes below the other.\<close>

lemma ds_rank_bound:
  assumes "ds_inv d" "x \<in> ds_roots (ds_p d)"
  shows "unat (ds_r d ! x) < 32"
proof -
  have "2 ^ unat (ds_r d ! x) \<le> card (ds_class (ds_p d) x)"
    using assms by (rule ds_invD)
  also have "\<dots> < 2 ^ 32"
    using ds_class_card_le [of "ds_p d" x] ds_invD(1,2) [OF assms(1)] by simp
  finally show ?thesis by (rule power_less_imp_less_exp [rotated]) simp
qed

lemma ds_inv_link:
  assumes I: "ds_inv d" and w: "w \<in> ds_roots (ds_p d)" and l: "l \<in> ds_roots (ds_p d)"
    and ne: "w \<noteq> l" and F': "ds_forest ((ds_p d)[l := w]) r'"
    and same: "\<And>x. x \<noteq> w \<Longrightarrow> r' ! x = ds_r d ! x"
    and size: "2 ^ unat (r' ! w) \<le> card (ds_class (ds_p d) w) + card (ds_class (ds_p d) l)"
  shows "ds_inv (d\<lparr>ds_p := (ds_p d)[l := w], ds_r := r', ds_sets := ds_sets d - 1\<rparr>)" (is ?inv)
    and "\<And>j. j < ds_size d \<Longrightarrow>
      ds_rep ((ds_p d)[l := w]) j = (if ds_rep (ds_p d) j = l then w else ds_rep (ds_p d) j)"
      (is "\<And>j. _ \<Longrightarrow> ?rep j")
proof -
  let ?p = "ds_p d" and ?q = "(ds_p d)[l := w]"
  note F = ds_invD(3) [OF I]
  have wl: "w < length ?p" "l < length ?p" "?p ! w = w" "?p ! l = l"
    using w l by (auto simp: ds_roots_def)
  have rep: "ds_rep ?q j = (if ds_rep ?p j = l then w else ds_rep ?p j)" if "j < length ?p" for j
    using ds_rep_union [OF F' wl(1,2) ne wl(3,4) F that] .
  then show "?rep j" if "j < ds_size d" for j using that ds_invD(1) [OF I] by simp
  have roots: "ds_roots ?q = ds_roots ?p - {l}"
    using wl ne by (auto simp: ds_roots_def nth_list_update split: if_splits)
  have cl: "ds_class ?q x = (if x = w then ds_class ?p w \<union> ds_class ?p l else ds_class ?p x)"
    if "x \<noteq> l" for x
    using rep that ne by (auto simp: ds_class_def split: if_splits)
  have disj: "ds_class ?p w \<inter> ds_class ?p l = {}" using ne by (auto simp: ds_class_def)
  have "2 ^ unat (r' ! x) \<le> card (ds_class ?q x)" if "x \<in> ds_roots ?q" for x
  proof (cases "x = w")
    case True
    with cl [of w] ne size show ?thesis by (simp add: card_Un_disjoint [OF _ _ disj])
  next
    case False
    with that roots have "x \<in> ds_roots ?p" "x \<noteq> l" by auto
    with False show ?thesis using ds_invD(4) [OF I] by (simp add: cl same)
  qed
  moreover have "ds_sets d - 1 = of_nat (card (ds_roots ?q))"
  proof -
    have "1 \<le> card (ds_roots ?p)" using l by (metis One_nat_def Suc_leI card_gt_0_iff
        ds_roots_finite empty_iff)
    then show ?thesis using l by (simp add: ds_invD(5) [OF I] roots)
  qed
  ultimately show ?inv
    using I F' by (auto simp: ds_inv_def)
qed

lemma ds_join_ok:
  assumes I: "ds_inv d" and x: "x \<in> ds_roots (ds_p d)" and y: "y \<in> ds_roots (ds_p d)"
    and ne: "x \<noteq> y"
  obtains w d' where "ds_join d x y = Some (w, d')" "w \<in> {x, y}" "ds_inv d'"
    "ds_size d' = ds_size d" "ds_sets d' = ds_sets d - 1"
    "\<And>j. j < ds_size d \<Longrightarrow> ds_rep (ds_p d') j =
       (if ds_rep (ds_p d) j \<in> {x, y} then w else ds_rep (ds_p d) j)"
proof -
  let ?p = "ds_p d" and ?r = "ds_r d"
  have xy: "x < ds_size d" "y < ds_size d" "?p ! x = x" "?p ! y = y"
    "length ?p = ds_size d" "length ?r = ds_size d"
    using I x y by (auto simp: ds_roots_def ds_invD)
  note F = ds_invD(3) [OF I]
  note cx = ds_invD(4) [OF I x] and cy = ds_invD(4) [OF I y]
  show thesis
  proof (cases "?r ! x \<ge> ?r ! y")
    case True
    let ?r' = "if ?r ! x = ?r ! y then ?r[x := ?r ! x + 1] else ?r"
    have up: "unat (?r ! x + 1) = unat (?r ! x) + 1"
      using ds_rank_bound [OF I x] by (simp add: unat_word_ariths)
    have up': "unat (?r ! y + 1) = unat (?r ! y) + 1"
      using ds_rank_bound [OF I y] by (simp add: unat_word_ariths)
    from up have lt: "?r ! x < ?r ! x + 1" by (simp add: word_less_nat_alt)
    have yx: "?r ! y < ?r' ! x"
      using True xy lt by (auto simp: order.not_eq_order_implies_strict)
    have F': "ds_forest (?p[y := x]) ?r'"
      unfolding ds_forest_def
    proof (intro conjI allI impI)
      fix i assume i: "i < length (?p[y := x])"
      show "?p[y := x] ! i < length (?p[y := x])"
        using i xy ds_forestD(1) [OF F] by (auto simp: nth_list_update)
      assume "?p[y := x] ! i \<noteq> i"
      with i xy ne yx ds_forestD(2) [OF F, of i] lt
      show "?r' ! i < ?r' ! (?p[y := x] ! i)"
        by (cases "i = y") (auto simp: nth_list_update intro: order.strict_trans)
    qed (simp add: xy)
    have "2 ^ unat (?r' ! x) \<le> card (ds_class ?p x) + card (ds_class ?p y)"
      using cx cy xy by (auto simp: up up')
    note link = ds_inv_link [OF I x y ne F' _ this]
    have "ds_join d x y = Some (x, d\<lparr>ds_p := ?p[y := x], ds_r := ?r', ds_sets := ds_sets d - 1\<rparr>)"
      using True xy ne by (simp add: ds_join_def Let_def)
    then show thesis
      by (rule that) (use link(1) link(2) in \<open>auto simp: nth_list_update\<close>)
  next
    case False
    then have xy': "?r ! x < ?r ! y" by simp
    have F': "ds_forest (?p[x := y]) ?r"
      using F xy xy' by (auto simp: ds_forest_def nth_list_update)
    have "2 ^ unat (?r ! y) \<le> card (ds_class ?p y) + card (ds_class ?p x)"
      using cy by simp
    note link = ds_inv_link [OF I y x ne [symmetric] F' refl this]
    have "ds_join d x y = Some (y, d\<lparr>ds_p := ?p[x := y], ds_r := ?r, ds_sets := ds_sets d - 1\<rparr>)"
      using False xy ne by (simp add: ds_join_def Let_def)
    then show thesis
      by (rule that) (use link(1) link(2) in auto)
  qed
qed


section \<open>The interface the clients use\<close>

text \<open>
  What the region merging of the watershed relies on: \<open>find\<close> returns the representative and
  changes no representative, \<open>join\<close> of two different representatives unites their sets.
  Nothing is promised for a \<open>join\<close> of elements that are not representatives.
\<close>

locale partition_structure =
  fixes valid :: "'s \<Rightarrow> bool"
    and size_of :: "'s \<Rightarrow> nat"
    and rep :: "'s \<Rightarrow> nat \<Rightarrow> nat"
    and find_op :: "'s \<Rightarrow> nat \<Rightarrow> (nat \<times> 's) option"
    and join_op :: "'s \<Rightarrow> nat \<Rightarrow> nat \<Rightarrow> (nat \<times> 's) option"
  assumes rep_less: "valid s \<Longrightarrow> i < size_of s \<Longrightarrow> rep s i < size_of s"
    and rep_rep: "valid s \<Longrightarrow> i < size_of s \<Longrightarrow> rep s (rep s i) = rep s i"
    and find_ok: "valid s \<Longrightarrow> i < size_of s \<Longrightarrow>
      \<exists>s'. find_op s i = Some (rep s i, s') \<and> valid s' \<and> size_of s' = size_of s \<and>
        (\<forall>j < size_of s. rep s' j = rep s j)"
    and join_ok: "valid s \<Longrightarrow> x < size_of s \<Longrightarrow> y < size_of s \<Longrightarrow> rep s x = x \<Longrightarrow>
      rep s y = y \<Longrightarrow> x \<noteq> y \<Longrightarrow>
      \<exists>w s'. join_op s x y = Some (w, s') \<and> w \<in> {x, y} \<and> valid s' \<and> size_of s' = size_of s \<and>
        (\<forall>j < size_of s. rep s' j = (if rep s j \<in> {x, y} then w else rep s j))"

text \<open>
  The client's loop body, as in \<^verbatim>\<open>run_dendrogram\<close> and \<^verbatim>\<open>apply_dendrogram\<close> of
  \<^verbatim>\<open>zi/watershed/basic_watershed.hpp\<close>: two \<open>find_set\<close> calls and a guarded \<open>join\<close>.
\<close>

definition merge_edge ::
  "('s \<Rightarrow> nat \<Rightarrow> (nat \<times> 's) option) \<Rightarrow> ('s \<Rightarrow> nat \<Rightarrow> nat \<Rightarrow> (nat \<times> 's) option) \<Rightarrow>
   's \<Rightarrow> nat \<times> nat \<Rightarrow> 's option" where
  "merge_edge find_op join_op s e =
     do {
       (v1, s1) \<leftarrow> find_op s (fst e);
       (v2, s2) \<leftarrow> find_op s1 (snd e);
       if v1 \<noteq> v2 then map_option snd (join_op s2 v1 v2) else Some s2
     }"

fun merge_edges ::
  "('s \<Rightarrow> nat \<Rightarrow> (nat \<times> 's) option) \<Rightarrow> ('s \<Rightarrow> nat \<Rightarrow> nat \<Rightarrow> (nat \<times> 's) option) \<Rightarrow>
   's \<Rightarrow> (nat \<times> nat) list \<Rightarrow> 's option" where
  "merge_edges find_op join_op s [] = Some s"
| "merge_edges find_op join_op s (e # es) =
     do { s' \<leftarrow> merge_edge find_op join_op s e; merge_edges find_op join_op s' es }"

context partition_structure
begin

definition ker :: "'s \<Rightarrow> (nat \<times> nat) set" where
  "ker s = {(i, j). i < size_of s \<and> j < size_of s \<and> rep s i = rep s j}"

lemma merge_edge_ok:
  assumes V: "valid s" and e: "a < size_of s" "b < size_of s"
  shows "\<exists>s'. merge_edge find_op join_op s (a, b) = Some s' \<and> valid s' \<and> size_of s' = size_of s \<and>
    (\<exists>w \<in> {rep s a, rep s b}. \<forall>j < size_of s.
       rep s' j = (if rep s j \<in> {rep s a, rep s b} then w else rep s j))"
proof -
  obtain s1 where 1: "find_op s a = Some (rep s a, s1)" "valid s1" "size_of s1 = size_of s"
    "\<forall>j < size_of s. rep s1 j = rep s j" using find_ok [OF V e(1)] by blast
  obtain s2 where 2: "find_op s1 b = Some (rep s b, s2)" "valid s2" "size_of s2 = size_of s"
    "\<forall>j < size_of s. rep s2 j = rep s j" using find_ok [OF 1(2), of b] 1(3,4) e by fastforce
  show ?thesis
  proof (cases "rep s a = rep s b")
    case True
    with 1 2 show ?thesis by (auto simp: merge_edge_def)
  next
    case False
    have r: "rep s2 (rep s a) = rep s a" "rep s2 (rep s b) = rep s b"
      "rep s a < size_of s2" "rep s b < size_of s2"
      using V e 2 by (auto simp: rep_rep rep_less)
    obtain w s3 where "join_op s2 (rep s a) (rep s b) = Some (w, s3)" "w \<in> {rep s a, rep s b}"
      "valid s3" "size_of s3 = size_of s"
      "\<forall>j < size_of s. rep s3 j = (if rep s2 j \<in> {rep s a, rep s b} then w else rep s2 j)"
      using join_ok [OF 2(2) r(3,4,1,2) False] 2(3) by metis
    with 1 2 False show ?thesis by (auto simp: merge_edge_def)
  qed
qed

lemma merge_edge_ker:
  assumes V: "valid s" and e: "a < size_of s" "b < size_of s"
    and m: "merge_edge find_op join_op s (a, b) = Some s'"
  shows "(ker s' \<union> R)\<^sup>* = (ker s \<union> {(a, b), (b, a)} \<union> R)\<^sup>*"
proof -
  let ?n = "size_of s" and ?E = "ker s \<union> {(a, b), (b, a)} \<union> R"
  obtain w where n: "size_of s' = ?n" and w: "w \<in> {rep s a, rep s b}"
    and rep': "\<And>j. j < ?n \<Longrightarrow> rep s' j = (if rep s j \<in> {rep s a, rep s b} then w else rep s j)"
    using merge_edge_ok [OF V e] m by auto
  have k: "(i, j) \<in> ?E\<^sup>*" if "i < ?n" "j < ?n" "rep s i = rep s j" for i j
    using that by (intro r_into_rtrancl) (auto simp: ker_def)
  have ab: "(a, b) \<in> ?E\<^sup>*" "(b, a) \<in> ?E\<^sup>*" by auto
  have "(i, j) \<in> ?E\<^sup>*" if "(i, j) \<in> ker s'" for i j
  proof -
    have ij: "i < ?n" "j < ?n" "rep s' i = rep s' j" using that n by (auto simp: ker_def)
    consider "rep s i = rep s j" | "rep s i = rep s a" "rep s j = rep s b"
      | "rep s i = rep s b" "rep s j = rep s a"
      using ij(3) rep' [OF ij(1)] rep' [OF ij(2)] w by (auto split: if_splits)
    then show ?thesis
    proof cases
      case 1
      with ij k show ?thesis by blast
    next
      case 2
      with ij e k ab show ?thesis by (metis rtrancl_trans)
    next
      case 3
      with ij e k ab show ?thesis by (metis rtrancl_trans)
    qed
  qed
  then have "ker s' \<union> R \<subseteq> ?E\<^sup>*" by auto
  moreover have "?E \<subseteq> ker s' \<union> R"
    using e n by (auto simp: ker_def rep')
  ultimately show ?thesis by (metis rtrancl_subset)
qed

lemma ker_rtrancl:
  assumes "(i, j) \<in> (ker s)\<^sup>*" "i < size_of s"
  shows "j < size_of s \<and> rep s i = rep s j"
  using assms by (induction rule: rtrancl_induct) (auto simp: ker_def)

text \<open>
  Merging a list of edges always succeeds, and two elements end in one set exactly when a
  path of edges (and of pairs that were together before) joins them.
\<close>

lemma merge_edges_ok:
  assumes "valid s" "\<forall>(a, b) \<in> set es. a < size_of s \<and> b < size_of s"
  shows "\<exists>s'. merge_edges find_op join_op s es = Some s' \<and> valid s' \<and> size_of s' = size_of s \<and>
    (\<forall>i < size_of s. \<forall>j < size_of s.
       rep s' i = rep s' j \<longleftrightarrow> (i, j) \<in> (ker s \<union> set es \<union> (set es)\<inverse>)\<^sup>*)"
  using assms
proof (induction es arbitrary: s)
  case Nil
  have "rep s i = rep s j \<longleftrightarrow> (i, j) \<in> (ker s)\<^sup>*" if "i < size_of s" "j < size_of s" for i j
    using that ker_rtrancl [of i j s] by (auto simp: ker_def intro: r_into_rtrancl)
  with Nil show ?case by simp
next
  case (Cons e es)
  obtain a b where e: "e = (a, b)" by (cases e)
  with Cons.prems have ab: "a < size_of s" "b < size_of s" by auto
  from merge_edge_ok [OF Cons.prems(1) ab] e obtain s1 where s1:
    "merge_edge find_op join_op s e = Some s1" "valid s1" "size_of s1 = size_of s" by auto
  have E: "ker s \<union> set (e # es) \<union> (set (e # es))\<inverse> =
      ker s \<union> {(a, b), (b, a)} \<union> (set es \<union> (set es)\<inverse>)" using e by auto
  have K: "(ker s1 \<union> set es \<union> (set es)\<inverse>)\<^sup>* = (ker s \<union> set (e # es) \<union> (set (e # es))\<inverse>)\<^sup>*"
    unfolding E
    using merge_edge_ker [OF Cons.prems(1) ab s1(1) [unfolded e], of "set es \<union> (set es)\<inverse>"]
    by (simp add: Un_assoc)
  have "\<forall>(a, b) \<in> set es. a < size_of s1 \<and> b < size_of s1"
    using Cons.prems(2) s1(3) by auto
  from Cons.IH [OF s1(2) this] K s1 show ?case by simp
qed

end

interpretation ds: partition_structure ds_inv ds_size "\<lambda>d. ds_rep (ds_p d)" ds_find_set ds_join
proof
  fix d :: dsets and i assume I: "ds_inv d" and i: "i < ds_size d"
  then have F: "ds_forest (ds_p d) (ds_r d)" and i': "i < length (ds_p d)" by (auto simp: ds_invD)
  show "ds_rep (ds_p d) i < ds_size d"
    using ds_rep_facts(2) [OF F i'] ds_invD(1) [OF I] by simp
  show "ds_rep (ds_p d) (ds_rep (ds_p d) i) = ds_rep (ds_p d) i"
    using F i' by (rule ds_rep_idem)
  show "\<exists>s'. ds_find_set d i = Some (ds_rep (ds_p d) i, s') \<and> ds_inv s' \<and>
      ds_size s' = ds_size d \<and> (\<forall>j < ds_size d. ds_rep (ds_p s') j = ds_rep (ds_p d) j)"
    using ds_find_set_eq [OF I i] ds_inv_find [OF I i] ds_rep_compress [OF F i'] ds_invD(1) [OF I]
    by auto
next
  fix d :: dsets and x y
  assume I: "ds_inv d" and xy: "x < ds_size d" "y < ds_size d" "ds_rep (ds_p d) x = x"
    "ds_rep (ds_p d) y = y" "x \<noteq> y"
  then have "x \<in> ds_roots (ds_p d)" "y \<in> ds_roots (ds_p d)"
    using ds_rep_facts(3) [OF ds_invD(3) [OF I]] ds_invD(1) [OF I] by (auto simp: ds_roots_def) metis+
  from ds_join_ok [OF I this xy(5)]
  show "\<exists>w s'. ds_join d x y = Some (w, s') \<and> w \<in> {x, y} \<and> ds_inv s' \<and> ds_size s' = ds_size d \<and>
      (\<forall>j < ds_size d. ds_rep (ds_p s') j =
         (if ds_rep (ds_p d) j \<in> {x, y} then w else ds_rep (ds_p d) j))"
    by metis
qed

lemma ds_ker_new: "ds.ker (ds_new n) = Id_on {..<n}"
  by (auto simp: ds.ker_def ds_new_def ds_init_def ds_rep_root)

lemma ds_size_new [simp]: "ds_size (ds_new n) = n"
  by (simp add: ds_new_def ds_init_def)


lemma ds_roots_rep: "ds_forest p r \<Longrightarrow> ds_roots p = ds_rep p ` {..<length p}"
proof (intro equalityI subsetI)
  fix x assume F: "ds_forest p r"
  show "x \<in> ds_rep p ` {..<length p}" if "x \<in> ds_roots p"
    using that ds_rep_root [of x p] by (force simp: ds_roots_def)
  show "x \<in> ds_roots p" if "x \<in> ds_rep p ` {..<length p}"
    using that ds_rep_facts(2,3) [OF F] by (auto simp: ds_roots_def)
qed

lemma ds_set_count_eq:
  "ds_inv d \<Longrightarrow> ds_set_count d = of_nat (card (ds_rep (ds_p d) ` {..<ds_size d}))"
  by (simp add: ds_set_count_def ds_invD(5) ds_roots_rep [OF ds_invD(3)] ds_invD(1))

section \<open>Properties\<close>

text \<open>C24: \<open>find_set\<close> always returns on a well-formed structure: it yields a root of the element's
  set, compresses the element's path to it, keeps the structure well formed and changes neither
  the partition nor the number of sets.\<close>

theorem ds_find_set_correct:
  assumes "ds_inv d" "i < ds_size d"
  shows "\<exists>r d'. ds_find_set d i = Some (r, d') \<and> r < ds_size d \<and> ds_p d ! r = r \<and>
    ds_p d' ! i = r \<and> ds_inv d' \<and> ds_set_count d' = ds_set_count d \<and>
    (\<forall>j < ds_size d. ds_rep (ds_p d') j = ds_rep (ds_p d) j)"
proof -
  note F = ds_invD(3) [OF assms(1)] and n = ds_invD(1) [OF assms(1)]
  have i: "i < length (ds_p d)" using assms n by simp
  show ?thesis
    using ds_find_set_eq [OF assms] ds_inv_find [OF assms] ds_rep_facts(2,3) [OF F i]
      ds_rep_compress [OF F i] n i by (auto simp: ds_set_count_def)
qed

theorem ds_find_set_correct_witness:
  "\<exists>r d'. ds_find_set (ds_new 4) 2 = Some (r, d') \<and> r < 4 \<and> ds_inv d'"
  using ds_find_set_correct [OF ds_inv_new, of 4 2] by (auto simp: ds_size_new)

text \<open>a \<open>join\<close> of two different representatives succeeds, returns one of them, unites
  exactly their two sets and takes one off the set count, whichever of the ranks is larger.\<close>

theorem ds_join_correct:
  assumes "ds_inv d" "x < ds_size d" "y < ds_size d" "ds_p d ! x = x" "ds_p d ! y = y" "x \<noteq> y"
  shows "\<exists>w d'. ds_join d x y = Some (w, d') \<and> w \<in> {x, y} \<and> ds_inv d' \<and>
    ds_size d' = ds_size d \<and> ds_set_count d' = ds_set_count d - 1 \<and>
    (\<forall>j < ds_size d. ds_rep (ds_p d') j =
       (if ds_rep (ds_p d) j \<in> {x, y} then w else ds_rep (ds_p d) j))"
proof -
  have "x \<in> ds_roots (ds_p d)" "y \<in> ds_roots (ds_p d)"
    using assms by (auto simp: ds_roots_def ds_invD)
  from ds_join_ok [OF assms(1) this assms(6)] show ?thesis by (metis ds_set_count_def)
qed

theorem ds_join_correct_witness:
  "\<exists>w d'. ds_join (ds_new 4) 1 2 = Some (w, d') \<and> w \<in> {1, 2} \<and> ds_inv d' \<and> ds_set_count d' = 3"
proof -
  have "ds_p (ds_new 4) ! 1 = 1" "ds_p (ds_new 4) ! 2 = 2" "ds_set_count (ds_new 4) = 4"
    by (simp_all add: ds_new_def ds_init_def ds_set_count_def)
  with ds_join_correct [OF ds_inv_new, of 4 1 2] show ?thesis by (auto simp: ds_size_new)
qed

text \<open>C1: merging a list of edges from a fresh structure never fails; two elements get the same
  representative exactly when a path of edges joins them, and \<open>set_count\<close> is the number of
  connected components.\<close>

theorem ds_connected_components:
  assumes "n < 2 ^ 32" "\<forall>(a, b) \<in> set es. a < n \<and> b < n"
  shows "\<exists>d. merge_edges ds_find_set ds_join (ds_new n) es = Some d \<and> ds_inv d \<and>
    (\<forall>i < n. \<forall>j < n. ds_rep (ds_p d) i = ds_rep (ds_p d) j \<longleftrightarrow>
       (i, j) \<in> (set es \<union> (set es)\<inverse>)\<^sup>*) \<and>
    ds_set_count d = of_nat (card (ds_rep (ds_p d) ` {..<n}))"
proof -
  have "(Id_on {..<n} \<union> set es \<union> (set es)\<inverse>)\<^sup>* = (set es \<union> (set es)\<inverse>)\<^sup>*"
    by (rule rtrancl_subset) (auto simp: Id_on_def)
  then show ?thesis
    using ds.merge_edges_ok [OF ds_inv_new [OF assms(1)], of es] assms(2)
    by (auto simp: ds_ker_new ds_size_new ds_set_count_eq)
qed

theorem ds_connected_components_witness:
  "\<exists>d. merge_edges ds_find_set ds_join (ds_new 3) [(0, 2)] = Some d \<and>
     ds_rep (ds_p d) 0 = ds_rep (ds_p d) 2"
  using ds_connected_components [of 3 "[(0, 2)]"] by (auto intro!: r_into_rtrancl)

text \<open>Union by rank: a rank is at most the logarithm of the size.\<close>

lemma ds_rank_le:
  assumes "ds_inv d" "i < ds_size d"
  shows "unat (ds_r d ! i) < 32 \<and> 2 ^ unat (ds_r d ! i) \<le> ds_size d"
proof -
  note F = ds_invD(3) [OF assms(1)] and n = ds_invD(1) [OF assms(1)]
  let ?R = "ds_rep (ds_p d) i"
  have i: "i < length (ds_p d)" using assms n by simp
  have R: "?R \<in> ds_roots (ds_p d)" using ds_rep_facts(2,3) [OF F i] by (simp add: ds_roots_def)
  have le: "unat (ds_r d ! i) \<le> unat (ds_r d ! ?R)"
    using ds_rep_facts(4) [OF F i] ds_rep_root [OF i]
    by (cases "ds_p d ! i = i") (auto simp: word_less_nat_alt)
  have "2 ^ unat (ds_r d ! ?R) \<le> ds_size d"
    using ds_invD(4) [OF assms(1) R] ds_class_card_le [of "ds_p d" ?R] n by simp
  moreover have "(2::nat) ^ unat (ds_r d ! i) \<le> 2 ^ unat (ds_r d ! ?R)"
    using le by (intro power_increasing) auto
  moreover have "unat (ds_r d ! i) < 32" using le ds_rank_bound [OF assms(1) R] by simp
  ultimately have "2 ^ unat (ds_r d ! i) \<le> ds_size d \<and> unat (ds_r d ! i) < 32"
    by (metis order.trans)
  then show ?thesis by blast
qed

lemma ds_join_rank:
  assumes I: "ds_inv d" and xy: "x < ds_size d" "y < ds_size d" "x \<noteq> y"
  shows "\<exists>z d'. ds_join d x y = Some (z, d') \<and> unat (ds_r d' ! z) =
    (if ds_r d ! x = ds_r d ! y then unat (ds_r d ! x) + 1 else max (unat (ds_r d ! x)) (unat (ds_r d ! y)))"
proof (cases "ds_r d ! x = ds_r d ! y")
  case True
  moreover have "unat (ds_r d ! y + 1) = unat (ds_r d ! y) + 1"
    using ds_rank_le [OF I xy(2)] by (simp add: unat_word_ariths)
  ultimately show ?thesis using xy ds_invD(6) [OF I] by (simp add: ds_join_def Let_def)
next
  case False
  then show ?thesis using xy by (auto simp: ds_join_def Let_def max_def word_le_nat_alt)
qed

text \<open>C25: ranks never wrap. In every structure that merging a list of edges makes of a fresh one with
  \<open>n < 2 ^ 32\<close> elements, the byte-sized rank of every element is below 32 and at most the logarithm of \<open>n\<close>;
  and a further \<open>join\<close> of two different representatives returns one whose rank, as a number, is one more than
  their common rank or the larger of the two: \<open>++r_[ x ]\<close> does not wrap around to 0.\<close>

theorem ds_rank_never_wraps:
  assumes "n < 2 ^ 32" "\<forall>(a, b) \<in> set es. a < n \<and> b < n"
    and d: "merge_edges ds_find_set ds_join (ds_new n) es = Some d" and x: "x < n"
  shows "unat (ds_r d ! x) < 32 \<and> 2 ^ unat (ds_r d ! x) \<le> n \<and>
    (\<forall>y < n. ds_p d ! x = x \<and> ds_p d ! y = y \<and> x \<noteq> y \<longrightarrow>
       (\<exists>z d'. ds_join d x y = Some (z, d') \<and> unat (ds_r d' ! z) =
          (if ds_r d ! x = ds_r d ! y then unat (ds_r d ! x) + 1
           else max (unat (ds_r d ! x)) (unat (ds_r d ! y)))))"
proof -
  have "ds_inv d \<and> ds_size d = n"
    using ds.merge_edges_ok [OF ds_inv_new [OF assms(1)], of es] assms(2) d by auto
  then show ?thesis using ds_rank_le [of d x] ds_join_rank [of d x] x by auto
qed

theorem ds_rank_never_wraps_witness:
  "\<exists>d. merge_edges ds_find_set ds_join (ds_new 5) [(0, 1), (2, 1)] = Some d \<and> unat (ds_r d ! 0) \<le> 2"
proof -
  obtain d where d: "merge_edges ds_find_set ds_join (ds_new 5) [(0, 1), (2, 1)] = Some d"
    using ds.merge_edges_ok [OF ds_inv_new, of 5 "[(0, 1), (2, 1)]"] by auto
  have "2 ^ unat (ds_r d ! 0) \<le> (5 :: nat)" using ds_rank_never_wraps [OF _ _ d, of 0] by simp
  moreover have "2 ^ 3 \<le> (2 :: nat) ^ unat (ds_r d ! 0)" if "\<not> unat (ds_r d ! 0) \<le> 2"
    using that by (intro power_increasing) simp_all
  ultimately have "unat (ds_r d ! 0) \<le> 2" by fastforce
  with d show ?thesis by blast
qed

lemma ds_root_cycle: "ds_root [1, 0, 1] 0 = None"
proof (rule ccontr)
  assume "ds_root [1, 0, 1] 0 \<noteq> None"
  then obtain y where y: "ds_root [1, 0, 1] 0 = Some y" by blast
  have "[1, 0, 1] = [1, 0, 1 :: nat] \<longrightarrow> (0::nat) \<notin> {0, 1}"
  proof (rule ds_root.raw_induct [where P = "\<lambda>p n y. p = [1, 0, 1] \<longrightarrow> n \<notin> {0, 1}", OF _ y])
    fix f n y and p :: "nat list"
    assume IH: "\<And>p n y. f p n = Some y \<Longrightarrow> p = [1, 0, 1] \<longrightarrow> n \<notin> {0, 1}"
      and eq: "(if n < length p then if n \<noteq> p ! n then f p (p ! n) else Some n else None) = Some y"
    show "p = [1, 0, 1] \<longrightarrow> n \<notin> {0, 1}"
    proof (intro impI notI)
      assume p: "p = [1, 0, 1]" and "n \<in> {0, 1}"
      then consider "n = 0" | "n = 1" by blast
      then show False
        using eq IH [of p 0] IH [of p 1] p
        by cases auto
    qed
  qed
  then show False by simp
qed

text \<open>\<open>join\<close> checks only that its arguments are in range. Called on elements that are not
  representatives it can tie a cycle: after three calls that all return normally,
  \<open>find_set\<close> never returns.\<close>

theorem ds_join_nonroot_cycle:
  "(do {
      (_, d1) \<leftarrow> ds_join (ds_new 3) 0 1;
      (_, d2) \<leftarrow> ds_join d1 1 2;
      (_, d3) \<leftarrow> ds_join d2 1 0;
      Some (ds_p d3)
    }) = Some [1, 0, 1] \<and>
   ds_find_set \<lparr>ds_p = [1, 0, 1], ds_r = [1, 2, 0], ds_size = 3, ds_sets = 0\<rparr> 0 = None"
proof
  show "(do {
      (_, d1) \<leftarrow> ds_join (ds_new 3) 0 1;
      (_, d2) \<leftarrow> ds_join d1 1 2;
      (_, d3) \<leftarrow> ds_join d2 1 0;
      Some (ds_p d3)
    }) = Some [1, 0, 1]"
    by (simp add: ds_join_def ds_new_def ds_init_def Let_def upt_rec numeral_eq_Suc)
  show "ds_find_set \<lparr>ds_p = [1, 0, 1], ds_r = [1, 2, 0], ds_size = 3, ds_sets = 0\<rparr> 0 = None"
    by (simp add: ds_find_set_def ds_root_cycle [simplified])
qed

end
