(* ===== verification/Zi_Dendrogram.thy ===== *)
theory Zi_Dendrogram
  imports Zi_Disjoint_Sets
begin

text \<open>
  \<^verbatim>\<open>apply_dendrogram\<close> and \<^verbatim>\<open>run_dendrogram\<close> of \<^verbatim>\<open>zi/watershed/basic_watershed.hpp\<close>: the
  client of the disjoint sets that cuts a watershed dendrogram at a threshold. \<open>R\<close> is
  \<open>uint32_t\<close>: region ids are indices (\<open>nat\<close>), region sizes are 32-bit words. \<open>None\<close> stands for an
  access outside a vector and for the \<^verbatim>\<open>ERROR!!!\<close> exit. The progress output is left out.
\<close>

section \<open>The loops\<close>

type_synonym 'w dendr = "('w \<times> nat \<times> nat) list"

text \<open>First loop of \<open>apply_dendrogram\<close>: merge while the weight reaches the threshold.\<close>

fun ap_merge :: "'w::linorder \<Rightarrow> 'w dendr \<Rightarrow> dsets \<Rightarrow> u32 list \<Rightarrow>
    (dsets \<times> u32 list \<times> 'w dendr) option" where
  "ap_merge th [] d sz = Some (d, sz, [])"
| "ap_merge th ((w, a, b) # es) d sz =
     (if w < th then Some (d, sz, (w, a, b) # es)
      else do {
        (v1, d1) \<leftarrow> ds_find_set d a;
        (v2, d2) \<leftarrow> ds_find_set d1 b;
        if v1 \<noteq> v2
        then do {
          (vr, d3) \<leftarrow> ds_join d2 v1 v2;
          ap_merge th es d3 (swap_nth (sz[v1 := sz ! v1 + sz ! v2, v2 := 0]) vr v1)
        }
        else ap_merge th es d2 sz
      })"

text \<open>Second loop: regions with a non-zero size get consecutive new ids, sizes move down.\<close>

definition compact_step :: "nat \<Rightarrow> u32 list \<times> nat list \<times> nat \<Rightarrow> u32 list \<times> nat list \<times> nat" where
  "compact_step i = (\<lambda>(sz, ids, idx).
     if sz ! i \<noteq> 0 then (sz[idx := sz ! i], ids[i := idx], Suc idx) else (sz, ids, idx))"

text \<open>Third loop: \<open>new_ids[ i ] = new_ids[ trees.find_set( i ) ]\<close>.\<close>

fun relabel :: "nat list \<Rightarrow> dsets \<Rightarrow> nat list \<Rightarrow> (dsets \<times> nat list) option" where
  "relabel [] d ids = Some (d, ids)"
| "relabel (i # ks) d ids =
     do { (r, d') \<leftarrow> ds_find_set d i; relabel ks d' (ids[i := ids ! r]) }"

text \<open>The voxels of the volume are renamed through \<open>new_ids\<close>.\<close>

definition remap_result :: "nat list \<Rightarrow> nat list \<Rightarrow> nat list option" where
  "remap_result ids res = those (map (\<lambda>v. if v < length ids then Some (ids ! v) else None) res)"

text \<open>Last loop: the rest of the dendrogram, over the new ids; an edge inside a region exits.\<close>

fun rest_dendr :: "nat list \<Rightarrow> 'w dendr \<Rightarrow> dsets \<Rightarrow> ('w dendr \<times> dsets) option" where
  "rest_dendr ids [] d = Some ([], d)"
| "rest_dendr ids ((w, a, b) # es) d =
     do {
       (v1, d1) \<leftarrow> ds_find_set d a;
       (v2, d2) \<leftarrow> ds_find_set d1 b;
       if v1 \<noteq> v2
       then do {
         (es', d3) \<leftarrow> rest_dendr ids es d2;
         Some ((w, ids ! v1, ids ! v2) # es', d3)
       }
       else None
     }"

definition apply_dendrogram :: "'w::linorder dendr \<Rightarrow> 'w \<Rightarrow> u32 list \<Rightarrow> nat list \<Rightarrow>
    ('w dendr \<times> u32 list \<times> nat list) option" where
  "apply_dendrogram dendr th sizes result =
     do {
       (d, sz, rest) \<leftarrow> ap_merge th dendr (ds_new (length sizes)) sizes;
       let (sz', ids, idx) =
         fold compact_step [1..<length sz] (sz, replicate (length sz) 0, 1);
       (d', ids') \<leftarrow> relabel [1..<idx] d ids;
       result' \<leftarrow> remap_result ids' result;
       (dendr', _) \<leftarrow> rest_dendr ids' rest d';
       Some (dendr', take idx sz', result')
     }"

text \<open>\<open>run_dendrogram\<close>: the same cut without sizes. \<open>number_roots\<close> is its second loop.\<close>

fun rd_merge :: "'w::linorder \<Rightarrow> 'w dendr \<Rightarrow> dsets \<Rightarrow> nat \<Rightarrow> (dsets \<times> nat) option" where
  "rd_merge th [] d dend_i = Some (d, dend_i)"
| "rd_merge th ((w, a, b) # es) d dend_i =
     (if w < th then Some (d, dend_i)
      else do {
        (v1, d1) \<leftarrow> ds_find_set d a;
        (v2, d2) \<leftarrow> ds_find_set d1 b;
        d3 \<leftarrow> (if v1 \<noteq> v2 then map_option snd (ds_join d2 v1 v2) else Some d2);
        rd_merge th es d3 (Suc dend_i)
      })"

fun number_roots :: "nat list \<Rightarrow> dsets \<Rightarrow> nat list \<Rightarrow> nat \<Rightarrow> (dsets \<times> nat list \<times> nat) option" where
  "number_roots [] d ids idx = Some (d, ids, idx)"
| "number_roots (i # ks) d ids idx =
     do {
       (r, d') \<leftarrow> ds_find_set d i;
       if r = i then number_roots ks d' (ids[i := idx]) (Suc idx)
       else number_roots ks d' ids idx
     }"

definition run_dendrogram :: "'w::linorder dendr \<Rightarrow> nat \<Rightarrow> 'w \<Rightarrow> nat list \<Rightarrow>
    ('w dendr \<times> 'w dendr \<times> nat list \<times> nat) option" where
  "run_dendrogram dendr sz th new_ids =
     do {
       (d, dend_i) \<leftarrow> rd_merge th dendr (ds_new sz) 0;
       let ids = take sz new_ids @ replicate (sz - length new_ids) 0;
       (d', ids', idx) \<leftarrow> number_roots [1..<sz] d ids 1;
       (d'', ids'') \<leftarrow> relabel [1..<idx] d' ids';
       (new_dendr, _) \<leftarrow> rest_dendr ids'' (drop dend_i dendr) d'';
       Some (new_dendr, take dend_i dendr, ids'', idx)
     }"

section \<open>The merging loop\<close>

text \<open>The edges of the dendrogram that reach the threshold, up to the first that does not.\<close>

abbreviation above :: "'w::linorder \<Rightarrow> 'w dendr \<Rightarrow> 'w dendr" where
  "above th dendr \<equiv> takeWhile (\<lambda>e. \<not> fst e < th) dendr"

abbreviation below :: "'w::linorder \<Rightarrow> 'w dendr \<Rightarrow> 'w dendr" where
  "below th dendr \<equiv> dropWhile (\<lambda>e. \<not> fst e < th) dendr"

definition in_range :: "nat \<Rightarrow> 'w dendr \<Rightarrow> bool" where
  "in_range n dendr \<longleftrightarrow> (\<forall>(w, a, b) \<in> set dendr. a < n \<and> b < n)"

definition class_sum :: "u32 list \<Rightarrow> dsets \<Rightarrow> nat \<Rightarrow> u32" where
  "class_sum sz d i = (\<Sum>j | j < ds_size d \<and> ds_rep (ds_p d) j = i. sz ! j)"

lemma class_sum_code [code]:
  "class_sum sz d i = sum_list (map ((!) sz) (filter (\<lambda>j. ds_rep (ds_p d) j = i) [0..<ds_size d]))"
proof -
  have "{j. j < ds_size d \<and> ds_rep (ds_p d) j = i} =
      set (filter (\<lambda>j. ds_rep (ds_p d) j = i) [0..<ds_size d])" by auto
  then show ?thesis unfolding class_sum_def by (simp only: sum.distinct_set_conv_list distinct_filter distinct_upt)
qed

lemma ds_rep_new: "j < n \<Longrightarrow> ds_rep (ds_p (ds_new n)) j = j"
  by (auto simp: ds_new_def ds_init_def intro: ds_rep_root)

lemma class_sum_new:
  assumes "i < length sz"
  shows "class_sum sz (ds_new (length sz)) i = sz ! i"
proof -
  have "{j. j < ds_size (ds_new (length sz)) \<and> ds_rep (ds_p (ds_new (length sz))) j = i} = {i}"
    using assms by (auto simp: ds_rep_new)
  then show ?thesis by (simp add: class_sum_def)
qed

lemma class_sum_cong:
  "ds_size d' = ds_size d \<Longrightarrow> (\<And>j. j < ds_size d \<Longrightarrow> ds_rep (ds_p d') j = ds_rep (ds_p d) j) \<Longrightarrow>
   class_sum sz d' i = class_sum sz d i"
  unfolding class_sum_def by (rule sum.cong) auto

text \<open>Two different regions become one: its size is the sum, the loser's becomes zero.\<close>

lemma class_sum_merge:
  assumes n: "ds_size d' = ds_size d" and ne: "v1 \<noteq> v2" and vr: "vr \<in> {v1, v2}"
    and rep: "\<And>j. j < ds_size d \<Longrightarrow> ds_rep (ds_p d') j =
      (if ds_rep (ds_p d) j \<in> {v1, v2} then vr else ds_rep (ds_p d) j)"
  shows "class_sum sz d' i =
    (if i = vr then class_sum sz d v1 + class_sum sz d v2
     else if i \<in> {v1, v2} then 0 else class_sum sz d i)"
proof -
  let ?C = "\<lambda>d i. {j. j < ds_size d \<and> ds_rep (ds_p d) j = i}"
  have mem: "j \<in> ?C d' i \<longleftrightarrow> j < ds_size d \<and>
      (if ds_rep (ds_p d) j \<in> {v1, v2} then i = vr else ds_rep (ds_p d) j = i)" for i j
    using rep [of j] n by (cases "j < ds_size d") auto
  have "?C d' vr = ?C d v1 \<union> ?C d v2"
    by (rule set_eqI) (use vr in \<open>simp only: mem, auto\<close>)
  moreover have "?C d v1 \<inter> ?C d v2 = {}" using ne by auto
  ultimately have 1: "class_sum sz d' vr = class_sum sz d v1 + class_sum sz d v2"
    by (simp add: class_sum_def sum.union_disjoint)
  have 2: "class_sum sz d' i = 0" if "i \<in> {v1, v2}" "i \<noteq> vr"
  proof -
    have "?C d' i = {}" by (rule set_eqI) (use that in \<open>simp only: mem, auto\<close>)
    then show ?thesis unfolding class_sum_def by (simp only: sum.empty)
  qed
  have "?C d' i = ?C d i" if "i \<notin> {v1, v2}"
    by (rule set_eqI) (use that vr in \<open>simp only: mem, auto\<close>)
  then have "class_sum sz d' i = class_sum sz d i" if "i \<notin> {v1, v2}"
    using that by (simp add: class_sum_def)
  with 1 2 vr show ?thesis by auto
qed

lemma ap_merge_ok:
  assumes "ds_inv d" "in_range (ds_size d) dendr" "length sz = ds_size d"
    "\<forall>i < ds_size d. sz ! i = class_sum sz0 d i"
  shows "\<exists>d' sz'. ap_merge th dendr d sz = Some (d', sz', below th dendr) \<and>
    merge_edges ds_find_set ds_join d (map snd (above th dendr)) = Some d' \<and>
    ds_inv d' \<and> ds_size d' = ds_size d \<and> length sz' = ds_size d \<and>
    (\<forall>i < ds_size d. sz' ! i = class_sum sz0 d' i)"
  using assms
proof (induction th dendr d sz rule: ap_merge.induct)
  case (1 th d sz)
  then show ?case by simp
next
  case (2 th w a b es d sz)
  show ?case
  proof (cases "w < th")
    case True
    with 2 show ?thesis by simp
  next
    case False
    from "2.prems" have ab: "a < ds_size d" "b < ds_size d" and es: "in_range (ds_size d) es"
      by (auto simp: in_range_def)
    let ?v1 = "ds_rep (ds_p d) a" and ?v2 = "ds_rep (ds_p d) b"
    obtain d1 where d1: "ds_find_set d a = Some (?v1, d1)" "ds_inv d1" "ds_size d1 = ds_size d"
      "\<forall>j < ds_size d. ds_rep (ds_p d1) j = ds_rep (ds_p d) j"
      using ds.find_ok [OF "2.prems"(1) ab(1)] by blast
    then obtain d2 where d2: "ds_find_set d1 b = Some (?v2, d2)" "ds_inv d2" "ds_size d2 = ds_size d"
      "\<forall>j < ds_size d. ds_rep (ds_p d2) j = ds_rep (ds_p d) j"
      using ds.find_ok [OF d1(2), of b] ab by fastforce
    show ?thesis
    proof (cases "?v1 = ?v2")
      case True
      have "\<forall>i < ds_size d2. sz ! i = class_sum sz0 d2 i"
        using "2.prems"(4) d2(3,4) class_sum_cong [of d2 d] by simp
      with "2.IH"(2) [OF \<open>\<not> w < th\<close> d1(1) refl d2(1) refl] True d2 es "2.prems"(3)
      obtain d' sz' where "ap_merge th es d2 sz = Some (d', sz', below th es)"
        "merge_edges ds_find_set ds_join d2 (map snd (above th es)) = Some d'" "ds_inv d'"
        "ds_size d' = ds_size d" "length sz' = ds_size d"
        "\<forall>i < ds_size d. sz' ! i = class_sum sz0 d' i" by auto
      with True False d1(1) d2(1) show ?thesis by (simp add: merge_edge_def)
    next
      case ne: False
      have r: "?v1 < ds_size d" "?v2 < ds_size d" "ds_rep (ds_p d2) ?v1 = ?v1"
        "ds_rep (ds_p d2) ?v2 = ?v2"
        using "2.prems"(1) ab d2(4) by (auto simp: ds.rep_less ds.rep_rep)
      obtain vr d3 where d3: "ds_join d2 ?v1 ?v2 = Some (vr, d3)" "vr \<in> {?v1, ?v2}" "ds_inv d3"
        "ds_size d3 = ds_size d"
        "\<forall>j < ds_size d. ds_rep (ds_p d3) j =
          (if ds_rep (ds_p d2) j \<in> {?v1, ?v2} then vr else ds_rep (ds_p d2) j)"
        using ds.join_ok [OF d2(2), of ?v1 ?v2] r ne d2(3) by metis
      let ?sz = "swap_nth (sz[?v1 := sz ! ?v1 + sz ! ?v2, ?v2 := 0]) vr ?v1"
      have "class_sum sz0 d3 i = (if i = vr then class_sum sz0 d ?v1 + class_sum sz0 d ?v2
          else if i \<in> {?v1, ?v2} then 0 else class_sum sz0 d i)" for i
        using d3(2,4,5) d2(4) ne by (intro class_sum_merge) auto
      moreover have "?sz ! i = (if i = vr then sz ! ?v1 + sz ! ?v2
          else if i \<in> {?v1, ?v2} then 0 else sz ! i)" if "i < ds_size d" for i
        using that r "2.prems"(3) d3(2) ne by (auto simp: nth_swap_nth nth_list_update)
      ultimately have "\<forall>i < ds_size d3. ?sz ! i = class_sum sz0 d3 i"
        using "2.prems"(4) r d3(4) by simp
      with "2.IH"(1) [OF \<open>\<not> w < th\<close> d1(1) refl d2(1) refl ne d3(1) refl] d3 es "2.prems"(3)
      obtain d' sz' where "ap_merge th es d3 ?sz = Some (d', sz', below th es)"
        "merge_edges ds_find_set ds_join d3 (map snd (above th es)) = Some d'" "ds_inv d'"
        "ds_size d' = ds_size d" "length sz' = ds_size d"
        "\<forall>i < ds_size d. sz' ! i = class_sum sz0 d' i" by auto
      with ne False d1(1) d2(1) d3(1) show ?thesis by (simp add: merge_edge_def)
    qed
  qed
qed


lemma ap_merge_new:
  assumes "length sz < 2 ^ 32" "in_range (length sz) dendr"
  shows "\<exists>d sz'. ap_merge th dendr (ds_new (length sz)) sz = Some (d, sz', below th dendr) \<and>
    merge_edges ds_find_set ds_join (ds_new (length sz)) (map snd (above th dendr)) = Some d \<and>
    ds_inv d \<and> ds_size d = length sz \<and> sz' = map (class_sum sz d) [0..<length sz]"
  using ap_merge_ok [OF ds_inv_new [OF assms(1)], of dendr sz sz th] assms(2)
  by (auto simp: ds_size_new class_sum_new intro!: nth_equalityI)

section \<open>New ids\<close>

text \<open>The new id the second loop gives to region \<open>q\<close>: its place among the non-empty regions.\<close>

definition place :: "u32 list \<Rightarrow> nat \<Rightarrow> nat" where
  "place sz q = (if 1 \<le> q \<and> sz ! q \<noteq> 0
     then Suc (length (filter (\<lambda>i. sz ! i \<noteq> 0) [1..<q])) else 0)"

lemma filter_upt_le: "length (filter P [1..<m]) < m \<or> m = 0"
  using length_filter_le [of P "[1..<m]"] by (auto simp del: length_filter_le)

lemma compact_step_simp: "compact_step i (sz, ids, idx) =
    (if sz ! i \<noteq> 0 then (sz[idx := sz ! i], ids[i := idx], Suc idx) else (sz, ids, idx))"
  by (simp add: compact_step_def)

lemma compact_loop:
  assumes "1 \<le> m" "m \<le> length sz0"
  shows "\<exists>sz ids. fold compact_step [1..<m] (sz0, replicate (length sz0) 0, 1) =
      (sz, ids, Suc (length (filter (\<lambda>i. sz0 ! i \<noteq> 0) [1..<m]))) \<and>
    length sz = length sz0 \<and> length ids = length sz0 \<and>
    (\<forall>k < length sz0. ids ! k = (if k < m then place sz0 k else 0)) \<and>
    (\<forall>k < length sz0. m \<le> k \<longrightarrow> sz ! k = sz0 ! k) \<and>
    take (Suc (length (filter (\<lambda>i. sz0 ! i \<noteq> 0) [1..<m]))) sz =
      sz0 ! 0 # map ((!) sz0) (filter (\<lambda>i. sz0 ! i \<noteq> 0) [1..<m])"
  using assms
proof (induction m rule: dec_induct)
  case base
  then show ?case by (cases sz0) (auto simp: place_def)
next
  case (step m)
  let ?f = "filter (\<lambda>i. sz0 ! i \<noteq> 0)" and ?idx = "Suc (length (filter (\<lambda>i. sz0 ! i \<noteq> 0) [1..<m]))"
  from step obtain sz ids where IH:
    "fold compact_step [1..<m] (sz0, replicate (length sz0) 0, 1) = (sz, ids, ?idx)"
    "length sz = length sz0" "length ids = length sz0"
    "\<forall>k < length sz0. ids ! k = (if k < m then place sz0 k else 0)"
    "\<forall>k < length sz0. m \<le> k \<longrightarrow> sz ! k = sz0 ! k"
    "take ?idx sz = sz0 ! 0 # map ((!) sz0) (?f [1..<m])" by auto
  have le: "?idx \<le> m" using filter_upt_le [of "\<lambda>i. sz0 ! i \<noteq> 0" m] step(1) by auto
  have upt: "[Suc 0..<Suc m] = [Suc 0..<m] @ [m]" using step(1) by simp
  have m: "m < length sz0" "sz ! m = sz0 ! m" using step.prems IH(5) by auto
  show ?case
  proof (cases "sz0 ! m = 0")
    case True
    with IH m step(1) show ?thesis
      by (auto simp: upt compact_step_simp less_Suc_eq place_def simp del: upt_Suc)
  next
    case False
    have "take (Suc ?idx) (sz[?idx := sz0 ! m]) = take ?idx sz @ [sz0 ! m]"
      using le m(1) IH(2) by (simp add: take_Suc_conv_app_nth)
    with IH m step(1) False le show ?thesis
      by (auto simp: upt compact_step_simp less_Suc_eq place_def nth_list_update simp del: upt_Suc)
  qed
qed

lemma relabel_ok:
  assumes "ds_inv d" "\<forall>i \<in> set ks. i < ds_size d" "length ids = ds_size d"
  shows "\<exists>d' ids'. relabel ks d ids = Some (d', ids') \<and> ds_inv d' \<and> ds_size d' = ds_size d \<and>
    length ids' = length ids \<and> (\<forall>j < ds_size d. ds_rep (ds_p d') j = ds_rep (ds_p d) j) \<and>
    (\<forall>j < ds_size d. ids' ! j = (if j \<in> set ks then ids ! ds_rep (ds_p d) j else ids ! j))"
  using assms
proof (induction ks arbitrary: d ids)
  case Nil
  then show ?case by simp
next
  case (Cons i ks)
  let ?r = "ds_rep (ds_p d)"
  from Cons.prems have i: "i < ds_size d" by simp
  obtain d1 where d1: "ds_find_set d i = Some (?r i, d1)" "ds_inv d1" "ds_size d1 = ds_size d"
    "\<forall>j < ds_size d. ds_rep (ds_p d1) j = ?r j"
    using ds.find_ok [OF Cons.prems(1) i] by blast
  let ?ids = "ids[i := ids ! ?r i]"
  have "\<forall>k \<in> set ks. k < ds_size d1" "length ?ids = ds_size d1"
    using Cons.prems d1(3) by auto
  from Cons.IH [OF d1(2) this] obtain d' ids' where
    "relabel ks d1 ?ids = Some (d', ids')" "ds_inv d'" "ds_size d' = ds_size d"
    "length ids' = length ids" "\<forall>j < ds_size d. ds_rep (ds_p d') j = ?r j"
    "\<forall>j < ds_size d. ids' ! j = (if j \<in> set ks then ?ids ! ?r j else ?ids ! j)"
    using d1(3,4) by auto
  moreover have "?ids ! ?r j = ids ! ?r j" if "j < ds_size d" for j
    using i Cons.prems(3) ds.rep_rep [OF Cons.prems(1) that] by (cases "?r j = i") auto
  ultimately show ?case
    using d1(1) Cons.prems i by (auto simp: nth_list_update)
qed

lemma rest_dendr_ok:
  assumes "ds_inv d" "in_range (ds_size d) es"
    "\<forall>(w, a, b) \<in> set es. ds_rep (ds_p d) a \<noteq> ds_rep (ds_p d) b"
  shows "\<exists>d'. rest_dendr ids es d =
    Some (map (\<lambda>(w, a, b). (w, ids ! ds_rep (ds_p d) a, ids ! ds_rep (ds_p d) b)) es, d')"
  using assms
proof (induction es arbitrary: d)
  case Nil
  then show ?case by simp
next
  case (Cons e es)
  obtain w a b where e: "e = (w, a, b)" by (cases e)
  let ?r = "ds_rep (ds_p d)"
  from Cons.prems e have ab: "a < ds_size d" "b < ds_size d" by (auto simp: in_range_def)
  obtain d1 where d1: "ds_find_set d a = Some (?r a, d1)" "ds_inv d1" "ds_size d1 = ds_size d"
    "\<forall>j < ds_size d. ds_rep (ds_p d1) j = ?r j"
    using ds.find_ok [OF Cons.prems(1) ab(1)] by blast
  then obtain d2 where d2: "ds_find_set d1 b = Some (?r b, d2)" "ds_inv d2" "ds_size d2 = ds_size d"
    "\<forall>j < ds_size d. ds_rep (ds_p d2) j = ?r j"
    using ds.find_ok [OF d1(2), of b] ab by fastforce
  have es: "in_range (ds_size d2) es"
    using Cons.prems(2) d2(3) by (auto simp: in_range_def)
  have "map (\<lambda>(w, a, b). (w, ids ! ds_rep (ds_p d2) a, ids ! ds_rep (ds_p d2) b)) es =
      map (\<lambda>(w, a, b). (w, ids ! ?r a, ids ! ?r b)) es"
    using es d2(3,4) by (auto simp: in_range_def)
  moreover have "\<forall>(w, a, b) \<in> set es. ds_rep (ds_p d2) a \<noteq> ds_rep (ds_p d2) b"
    using Cons.prems(2,3) d2(4) by (fastforce simp: in_range_def)
  ultimately show ?case
    using Cons.IH [OF d2(2) es] Cons.prems(3) d1(1) d2(1) e by auto
qed


lemma remap_result_ok:
  "set res \<subseteq> {..<length ids} \<Longrightarrow> remap_result ids res = Some (map ((!) ids) res)"
  by (induction res) (auto simp: remap_result_def)

lemma rd_merge_eq:
  "rd_merge th es d k = map_option (\<lambda>d'. (d', k + length (above th es)))
     (merge_edges ds_find_set ds_join d (map snd (above th es)))"
  by (induction th es d k rule: rd_merge.induct)
    (auto simp: merge_edge_def bind_eq_None_conv split: Option.bind_split prod.splits)

lemma number_roots_ok:
  assumes "ds_inv d" "\<forall>i \<in> set ks. i < ds_size d" "length ids = ds_size d" "distinct ks"
  shows "\<exists>d' ids'. number_roots ks d ids idx =
      Some (d', ids', idx + length (filter (\<lambda>i. ds_rep (ds_p d) i = i) ks)) \<and>
    ds_inv d' \<and> ds_size d' = ds_size d \<and> length ids' = length ids \<and>
    (\<forall>j < ds_size d. ds_rep (ds_p d') j = ds_rep (ds_p d) j) \<and>
    (\<forall>j < ds_size d. ids' ! j = (if j \<in> set ks \<and> ds_rep (ds_p d) j = j
       then idx + length (filter (\<lambda>i. ds_rep (ds_p d) i = i) (takeWhile (\<lambda>i. i \<noteq> j) ks))
       else ids ! j))"
  using assms
proof (induction ks arbitrary: d ids idx)
  case Nil
  then show ?case by simp
next
  case (Cons i ks)
  let ?r = "ds_rep (ds_p d)"
  from Cons.prems have i: "i < ds_size d" and ks: "\<forall>k \<in> set ks. k < ds_size d" by simp_all
  obtain d1 where d1: "ds_find_set d i = Some (?r i, d1)" "ds_inv d1" "ds_size d1 = ds_size d"
    "\<forall>j < ds_size d. ds_rep (ds_p d1) j = ?r j"
    using ds.find_ok [OF Cons.prems(1) i] by blast
  have flt: "filter (\<lambda>i. ds_rep (ds_p d1) i = i) xs = filter (\<lambda>i. ?r i = i) xs"
    if "set xs \<subseteq> set ks" for xs
    using that ks d1(4) by (intro filter_cong) auto
  have tw: "set (takeWhile P ks) \<subseteq> set ks" for P by (auto dest: set_takeWhileD)
  have hyps: "\<forall>k \<in> set ks. k < ds_size d1" "distinct ks" "length ids = ds_size d1"
    "length (ids[i := idx]) = ds_size d1" using Cons.prems d1(3) by auto
  show ?case
  proof (cases "?r i = i")
    case True
    with Cons.IH [OF d1(2) hyps(1,4,2), of "Suc idx"] d1 i Cons.prems(3,4) show ?thesis
      by (auto simp: flt tw nth_list_update)
  next
    case False
    with Cons.IH [OF d1(2) hyps(1,3,2), of idx] d1 i Cons.prems(3,4) show ?thesis
      by (auto simp: flt tw)
  qed
qed

section \<open>Properties\<close>

text \<open>The id a region carries after the cut, as the code computes it.\<close>

definition cut_id :: "u32 list \<Rightarrow> dsets \<Rightarrow> nat \<Rightarrow> nat \<Rightarrow> nat" where
  "cut_id sz d idx v = (if 1 \<le> v \<and> v < idx then place sz (ds_rep (ds_p d) v) else place sz v)"

text \<open>C12: \<open>apply_dendrogram\<close> returns on every dendrogram whose remaining edges join different
  regions: region sizes are the sums over the merged regions, the non-empty ones moved down in
  order, and voxels and remaining edges carry the new ids.\<close>

theorem apply_dendrogram_correct:
  assumes n: "length sizes < 2 ^ 32" "0 < length sizes"
    and r: "in_range (length sizes) dendr" "set result \<subseteq> {..<length sizes}"
    and m: "merge_edges ds_find_set ds_join (ds_new (length sizes)) (map snd (above th dendr)) = Some d"
    and ne: "\<forall>(w, a, b) \<in> set (below th dendr). ds_rep (ds_p d) a \<noteq> ds_rep (ds_p d) b"
    and sz: "sz = map (class_sum sizes d) [0..<length sizes]"
    and idx: "idx = Suc (length (filter (\<lambda>i. sz ! i \<noteq> 0) [1..<length sizes]))"
  shows "apply_dendrogram dendr th sizes result =
    Some (map (\<lambda>(w, a, b). (w, cut_id sz d idx (ds_rep (ds_p d) a),
                               cut_id sz d idx (ds_rep (ds_p d) b))) (below th dendr),
          sz ! 0 # map ((!) sz) (filter (\<lambda>i. sz ! i \<noteq> 0) [1..<length sizes]),
          map (cut_id sz d idx) result)"
proof -
  let ?n = "length sizes"
  have d: "ap_merge th dendr (ds_new ?n) sizes = Some (d, sz, below th dendr)" "ds_inv d"
    "ds_size d = ?n" using ap_merge_new [OF n(1) r(1), of th] m sz by auto
  have lsz: "length sz = ?n" using sz by simp
  obtain sz' ids where c: "fold compact_step [1..<length sz] (sz, replicate (length sz) 0, 1) =
      (sz', ids, idx)" "length ids = ?n" "\<forall>k < ?n. ids ! k = place sz k"
    "take idx sz' = sz ! 0 # map ((!) sz) (filter (\<lambda>i. sz ! i \<noteq> 0) [1..<?n])"
    using compact_loop [of "length sz" sz] n(2) lsz idx by auto
  have idx_le: "idx \<le> ?n" using filter_upt_le [of "\<lambda>i. sz ! i \<noteq> 0" ?n] n(2) idx by auto
  obtain d' ids' where l: "relabel [1..<idx] d ids = Some (d', ids')" "ds_inv d'" "ds_size d' = ?n"
    "length ids' = ?n" "\<forall>j < ?n. ds_rep (ds_p d') j = ds_rep (ds_p d) j"
    "\<forall>j < ?n. ids' ! j = (if j \<in> set [1..<idx] then ids ! ds_rep (ds_p d) j else ids ! j)"
    using relabel_ok [OF d(2), of "[1..<idx]" ids] d(3) c(2) idx_le by auto
  have cut: "ids' ! v = cut_id sz d idx v" if "v < ?n" for v
    using that l(6) c(3) ds.rep_less [OF d(2)] d(3) by (auto simp: cut_id_def)
  have below: "in_range ?n (below th dendr)"
    using r(1) by (auto simp: in_range_def dest: set_dropWhileD)
  then have ne': "\<forall>(w, a, b) \<in> set (below th dendr). ds_rep (ds_p d') a \<noteq> ds_rep (ds_p d') b"
    using ne l(5) by (fastforce simp: in_range_def)
  have rest: "map (\<lambda>(w, a, b). (w, ids' ! ds_rep (ds_p d') a, ids' ! ds_rep (ds_p d') b))
      (below th dendr) = map (\<lambda>(w, a, b). (w, cut_id sz d idx (ds_rep (ds_p d) a),
        cut_id sz d idx (ds_rep (ds_p d) b))) (below th dendr)"
    using below l(5) cut ds.rep_less [OF d(2)] d(3) by (auto simp: in_range_def)
  have "remap_result ids' result = Some (map (cut_id sz d idx) result)"
    using r(2) l(4) cut by (simp add: remap_result_ok subset_iff)
  with d(1) c l(1) rest_dendr_ok [OF l(2) below [folded l(3)] ne', of ids'] show ?thesis
    by (auto simp: apply_dendrogram_def rest)
qed

theorem apply_dendrogram_correct_witness:
  "apply_dendrogram [(9::nat, 1, 2)] 5 [0, 5, 6] [1, 2] = Some ([], [0, 11], [1, 0])"
proof -
  let ?d = "\<lparr>ds_p = [0, 1, 1], ds_r = [0, 1, 0], ds_size = 3, ds_sets = 2\<rparr>"
  let ?sz = "[0, 5, 6 :: u32]" and ?es = "[(9::nat, 1::nat, 2::nat)]"
  have hyps: "length ?sz < 2 ^ 32" "0 < length ?sz" "in_range (length ?sz) ?es"
    "set [1, 2] \<subseteq> {..<length ?sz}" by (auto simp: in_range_def)
  have m: "merge_edges ds_find_set ds_join (ds_new (length ?sz)) (map snd (above 5 ?es)) = Some ?d"
    by code_simp
  have ne: "\<forall>(w, a, b) \<in> set (below 5 ?es). ds_rep (ds_p ?d) a \<noteq> ds_rep (ds_p ?d) b"
    by code_simp
  have sz: "[0, 11, 0] = map (class_sum ?sz ?d) [0..<length ?sz]"
    and idx: "2 = Suc (length (filter (\<lambda>i. [0, 11, 0 :: u32] ! i \<noteq> 0) [1..<length ?sz]))"
    by code_simp+
  show ?thesis
    unfolding apply_dendrogram_correct [OF hyps m ne sz idx] by code_simp
qed

text \<open>merging regions loses no voxel: the total of the sizes that \<open>apply_dendrogram\<close> leaves
  is the total it was given, modulo the 32 bits of the counters.\<close>

theorem apply_dendrogram_total:
  assumes "length sizes < 2 ^ 32" "in_range (length sizes) dendr"
    and "ap_merge th dendr (ds_new (length sizes)) sizes = Some (d, sz, rest)"
  shows "sum_list sz = sum_list sizes"
proof -
  let ?n = "length sizes"
  have d: "ds_inv d" "ds_size d = ?n" and sz: "sz = map (class_sum sizes d) [0..<?n]"
    using ap_merge_new [OF assms(1,2), of th] assms(3) by auto
  have "sum_list sz = (\<Sum>i < ?n. \<Sum>j | j \<in> {..<?n} \<and> ds_rep (ds_p d) j = i. sizes ! j)"
    by (simp add: sz sum_list_sum_nth class_sum_def d(2) atLeast0LessThan)
  also have "\<dots> = (\<Sum>j < ?n. sizes ! j)"
    using ds.rep_less [OF d(1)] d(2) by (intro sum.group) auto
  finally show ?thesis by (simp add: sum_list_sum_nth atLeast0LessThan)
qed

theorem apply_dendrogram_total_witness:
  "\<exists>d sz rest. ap_merge (5::nat) [(9, 1, 2)] (ds_new 3) [0, 5, 6] = Some (d, sz, rest) \<and>
     sum_list sz = 11"
proof -
  let ?sz = "[0, 5, 6 :: u32]"
  have r: "in_range (length ?sz) [(9::nat, 1, 2)]" by (simp add: in_range_def)
  obtain d sz rest where a: "ap_merge (5::nat) [(9, 1, 2)] (ds_new (length ?sz)) ?sz = Some (d, sz, rest)"
    using ap_merge_new [OF _ r, of 5] by auto
  then have "sum_list sz = 11" using apply_dendrogram_total [OF _ r a] by simp
  with a show ?thesis by (auto simp: numeral_3_eq_3 simp del: ap_merge.simps)
qed

text \<open>the third loop of \<open>apply_dendrogram\<close> stops at the number of new ids instead of the
  number of regions, so a region that was merged away and has a larger id keeps the new id 0:
  here region 3 is merged into region 1, and its voxels become background.\<close>

theorem apply_dendrogram_drops_region:
  "apply_dendrogram [(9::nat, 1, 3)] 5 [0, 5, 6, 7] [1, 2, 3] = Some ([], [0, 12, 6], [1, 2, 0])"
  by code_simp

text \<open>C26: \<open>run_dendrogram\<close> returns under the same condition, numbers the representatives
  consecutively from 1 and splits the dendrogram at the threshold.\<close>

theorem run_dendrogram_correct:
  assumes n: "n < 2 ^ 32" and r: "in_range n dendr"
    and m: "merge_edges ds_find_set ds_join (ds_new n) (map snd (above th dendr)) = Some d"
    and ne: "\<forall>(w, a, b) \<in> set (below th dendr). ds_rep (ds_p d) a \<noteq> ds_rep (ds_p d) b"
    and root: "root = (\<lambda>i. ds_rep (ds_p d) i = i)"
  shows "\<exists>new_dendr ids. run_dendrogram dendr n th [] =
      Some (new_dendr, above th dendr, ids, Suc (length (filter root [1..<n]))) \<and>
    map fst new_dendr = map fst (below th dendr) \<and> length ids = n \<and>
    (\<forall>q < n. 1 \<le> q \<and> root q \<longrightarrow> ids ! q = Suc (length (filter root [1..<q])))"
proof -
  have rng: "\<forall>(a, b) \<in> set (map snd (above th dendr)). a < ds_size (ds_new n) \<and> b < ds_size (ds_new n)"
    using r by (auto simp: in_range_def dest!: set_takeWhileD)
  have d: "ds_inv d" "ds_size d = n"
    using ds.merge_edges_ok [OF ds_inv_new [OF n] rng] m by auto
  have rd: "rd_merge th dendr (ds_new n) 0 = Some (d, length (above th dendr))"
    by (simp add: rd_merge_eq m)
  let ?k = "length (filter root [1..<n])"
  have ks: "\<forall>i \<in> set [1..<n]. i < ds_size d" "length (replicate n 0) = ds_size d"
    using d(2) by auto
  obtain d' ids where nr0: "number_roots [1..<n] d (replicate n 0) 1 =
      Some (d', ids, 1 + length (filter (\<lambda>i. ds_rep (ds_p d) i = i) [1..<n]))"
    "ds_inv d'" "ds_size d' = ds_size d" "length ids = length (replicate n (0::nat))"
    "\<forall>j < ds_size d. ds_rep (ds_p d') j = ds_rep (ds_p d) j"
    "\<forall>j < ds_size d. ids ! j = (if j \<in> set [1..<n] \<and> ds_rep (ds_p d) j = j
       then 1 + length (filter (\<lambda>i. ds_rep (ds_p d) i = i) (takeWhile (\<lambda>i. i \<noteq> j) [1..<n]))
       else replicate n 0 ! j)"
    using number_roots_ok [OF d(1) ks distinct_upt, of 1] by blast
  have nr: "number_roots [1..<n] d (replicate n 0) 1 = Some (d', ids, Suc ?k)"
    "ds_inv d'" "ds_size d' = n" "length ids = n"
    "\<forall>j < n. ds_rep (ds_p d') j = ds_rep (ds_p d) j"
    "\<forall>j < n. 1 \<le> j \<and> root j \<longrightarrow>
       ids ! j = Suc (length (filter root (takeWhile (\<lambda>i. i \<noteq> j) [1..<n])))"
    using nr0 d(2) by (simp_all add: root)
  have idx_le: "?k < n \<or> n = 0" using filter_upt_le by blast
  have ks2: "\<forall>i \<in> set [1..<Suc ?k]. i < ds_size d'" "length ids = ds_size d'"
    using idx_le nr(3,4) by auto
  obtain d2 ids2 where l0: "relabel [1..<Suc ?k] d' ids = Some (d2, ids2)" "ds_inv d2"
    "ds_size d2 = ds_size d'" "length ids2 = length ids"
    "\<forall>j < ds_size d'. ds_rep (ds_p d2) j = ds_rep (ds_p d') j"
    "\<forall>j < ds_size d'. ids2 ! j =
      (if j \<in> set [1..<Suc ?k] then ids ! ds_rep (ds_p d') j else ids ! j)"
    using relabel_ok [OF nr(2) ks2] by blast
  have l: "relabel [1..<Suc ?k] d' ids = Some (d2, ids2)" "ds_inv d2" "ds_size d2 = n"
    "length ids2 = n" "\<forall>j < n. ds_rep (ds_p d2) j = ds_rep (ds_p d) j"
    "\<forall>j < n. root j \<longrightarrow> ids2 ! j = ids ! j"
    using l0 nr(3,4,5) by (simp_all add: root)
  have below: "in_range n (below th dendr)"
    using r by (auto simp: in_range_def dest: set_dropWhileD)
  then have ne': "\<forall>(w, a, b) \<in> set (below th dendr). ds_rep (ds_p d2) a \<noteq> ds_rep (ds_p d2) b"
    using ne l(5) by (fastforce simp: in_range_def)
  obtain d3 where rest: "rest_dendr ids2 (below th dendr) d2 = Some (map (\<lambda>(w, a, b).
      (w, ids2 ! ds_rep (ds_p d2) a, ids2 ! ds_rep (ds_p d2) b)) (below th dendr), d3)"
    using rest_dendr_ok [OF l(2) below [folded l(3)] ne'] by blast
  have "takeWhile (\<lambda>i. i \<noteq> q) [1..<n] = [1..<q]" if "1 \<le> q" "q < n" for q
  proof -
    have "[1..<n] = [1..<q] @ q # [Suc q..<n]"
      using that by (metis le_add_diff_inverse less_imp_le upt_add_eq_append upt_conv_Cons)
    then show ?thesis by (simp add: takeWhile_append)
  qed
  then have "ids2 ! q = Suc (length (filter root [1..<q]))" if "q < n" "1 \<le> q" "root q" for q
    using that l(6) nr(6) by simp
  moreover have "map fst (map (\<lambda>(w, a, b). (w, ids2 ! ds_rep (ds_p d2) a, ids2 ! ds_rep (ds_p d2) b))
      (below th dendr)) = map fst (below th dendr)" by auto
  ultimately show ?thesis
    using rd nr(1) l(1,4) rest
    by (simp add: run_dendrogram_def takeWhile_eq_take [symmetric] dropWhile_eq_drop [symmetric])
qed

theorem run_dendrogram_correct_witness:
  "\<exists>new_dendr ids. run_dendrogram [(9::nat, 1, 2)] 3 5 [] = Some (new_dendr, [(9, 1, 2)], ids, 2)"
proof -
  let ?d = "\<lparr>ds_p = [0, 1, 1], ds_r = [0, 1, 0], ds_size = 3, ds_sets = 2\<rparr>"
  have m: "merge_edges ds_find_set ds_join (ds_new 3) (map snd (above (5::nat) [(9, 1, 2)])) = Some ?d"
    by code_simp
  have "ds_rep (ds_p ?d) 1 = 1" "ds_rep (ds_p ?d) 2 = 1" by code_simp+
  then have f: "filter (\<lambda>i. ds_rep (ds_p ?d) i = i) [1..<3] = [1]"
    by (simp add: upt_rec numeral_eq_Suc)
  have "in_range 3 [(9::nat, 1, 2)]" by (simp add: in_range_def)
  from run_dendrogram_correct [OF _ this m _ refl] f show ?thesis by auto
qed

end
