(* ===== verification/Zi_Heap_Order.thy ===== *)
theory Zi_Heap_Order
  imports Zi_Prelude
begin

text \<open>
  What the two heaps of \<^verbatim>\<open>zi/heap\<close> share: the strict weak order their \<open>Compare\<close> has to be,
  the heap order on an array of elements, the two sifting loops on that array, and the
  interface of a priority queue with distinct keys, with its client (draining the queue).
  The loops here work on the plain list of elements; the heaps' own loops, which also keep an
  index up to date, are shown to do the same to their elements.
\<close>

section \<open>Strict weak orders\<close>

locale strict_weak_order =
  fixes lt :: "'a \<Rightarrow> 'a \<Rightarrow> bool"
  assumes asym: "lt a b \<Longrightarrow> \<not> lt b a"
    and neg_trans: "\<not> lt a b \<Longrightarrow> \<not> lt b c \<Longrightarrow> \<not> lt a c"

text \<open>The default \<open>std::less\<close>, and a comparison of extracted values.\<close>

lemma swo_less: "strict_weak_order ((<) :: 'a::linorder \<Rightarrow> 'a \<Rightarrow> bool)"
  by unfold_locales auto

lemma swo_vimage: "strict_weak_order lt \<Longrightarrow> strict_weak_order (\<lambda>a b. lt (f a) (f b))"
  unfolding strict_weak_order_def by blast

lemmas swo_asym = strict_weak_order.asym
lemmas swo_neg_trans = strict_weak_order.neg_trans

lemma swo_irrefl: "strict_weak_order lt \<Longrightarrow> \<not> lt a a"
  using swo_asym by metis

section \<open>The sifting loops\<close>

definition parent :: "nat \<Rightarrow> nat" where
  "parent i = (i - 1) div 2"

lemma parent_less [simp]: "0 < i \<Longrightarrow> parent i < i"
  by (simp add: parent_def)

lemma parent_le [simp]: "parent i \<le> i"
  by (simp add: parent_def)

lemma parent_neq [simp]: "0 < i \<Longrightarrow> parent i \<noteq> i" "0 < i \<Longrightarrow> parent (parent i) \<noteq> i"
  "0 < i \<Longrightarrow> i \<noteq> parent i"
  using parent_less [of i] parent_le [of "parent i"] by linarith+

lemma parent_iff: "0 < j \<Longrightarrow> parent j = i \<longleftrightarrow> j = 2 * i + 1 \<or> j = 2 * i + 2"
  by (auto simp: parent_def)

fun sift_up :: "('a \<Rightarrow> 'a \<Rightarrow> bool) \<Rightarrow> nat \<Rightarrow> 'a list \<Rightarrow> nat \<times> 'a list" where
  "sift_up lt i xs =
     (if 0 < i \<and> lt (xs ! i) (xs ! parent i) then sift_up lt (parent i) (swap_nth xs i (parent i))
      else (i, xs))"

definition least_child :: "('a \<Rightarrow> 'a \<Rightarrow> bool) \<Rightarrow> nat \<Rightarrow> 'a list \<Rightarrow> nat" where
  "least_child lt i xs =
     (let c = 2 * i + 1
      in if c + 1 < length xs \<and> lt (xs ! (c + 1)) (xs ! c) then c + 1 else c)"

function sift_down :: "('a \<Rightarrow> 'a \<Rightarrow> bool) \<Rightarrow> nat \<Rightarrow> 'a list \<Rightarrow> 'a list" where
  "sift_down lt i xs =
     (if 2 * i + 1 < length xs \<and> \<not> lt (xs ! i) (xs ! least_child lt i xs)
      then sift_down lt (least_child lt i xs) (swap_nth xs i (least_child lt i xs))
      else xs)"
  by pat_completeness auto
termination
  by (relation "measure (\<lambda>(lt, i, xs). length xs - i)") (auto simp: least_child_def Let_def)

declare sift_up.simps [simp del] sift_down.simps [simp del]

lemma least_child_bounds:
  "2 * i + 1 < length xs \<Longrightarrow>
   i < least_child lt i xs \<and> least_child lt i xs < length xs \<and> parent (least_child lt i xs) = i"
  by (auto simp: least_child_def Let_def parent_def)

lemma sift_up_step:
  "0 < i \<Longrightarrow> lt (xs ! i) (xs ! parent i) \<Longrightarrow>
   sift_up lt i xs = sift_up lt (parent i) (swap_nth xs i (parent i))"
  by (subst sift_up.simps) simp

lemma sift_up_stop: "\<not> (0 < i \<and> lt (xs ! i) (xs ! parent i)) \<Longrightarrow> sift_up lt i xs = (i, xs)"
  by (subst sift_up.simps) auto

lemma sift_down_step:
  "2 * i + 1 < length xs \<Longrightarrow> \<not> lt (xs ! i) (xs ! least_child lt i xs) \<Longrightarrow>
   sift_down lt i xs = sift_down lt (least_child lt i xs) (swap_nth xs i (least_child lt i xs))"
  by (subst sift_down.simps) simp

lemma sift_down_stop:
  "\<not> (2 * i + 1 < length xs \<and> \<not> lt (xs ! i) (xs ! least_child lt i xs)) \<Longrightarrow>
   sift_down lt i xs = xs"
  by (subst sift_down.simps) auto

lemma sift_up_perm:
  "i < length xs \<Longrightarrow> mset (snd (sift_up lt i xs)) = mset xs \<and>
   length (snd (sift_up lt i xs)) = length xs \<and> fst (sift_up lt i xs) \<le> i"
proof (induction lt i xs rule: sift_up.induct)
  case (1 lt i xs)
  show ?case
  proof (cases "0 < i \<and> lt (xs ! i) (xs ! parent i)")
    case True
    have p: "parent i < length xs" using parent_le 1(2) by (rule le_less_trans)
    with True 1(1) [OF True] 1(2) show ?thesis
      by (auto simp: sift_up_step intro: order.trans [OF _ parent_le])
  next
    case False
    then show ?thesis by (simp add: sift_up_stop)
  qed
qed

lemma sift_down_perm:
  "mset (sift_down lt i xs) = mset xs \<and> length (sift_down lt i xs) = length xs"
proof (induction lt i xs rule: sift_down.induct)
  case (1 lt i xs)
  let ?c = "least_child lt i xs"
  show ?case
  proof (cases "2 * i + 1 < length xs \<and> \<not> lt (xs ! i) (xs ! ?c)")
    case True
    with 1 least_child_bounds [of i xs lt] show ?thesis by (simp add: sift_down_step)
  next
    case False
    then show ?thesis by (simp add: sift_down_stop)
  qed
qed

section \<open>Heap order\<close>

definition heap_order :: "('a \<Rightarrow> 'a \<Rightarrow> bool) \<Rightarrow> 'a list \<Rightarrow> bool" where
  "heap_order lt xs \<longleftrightarrow> (\<forall>j < length xs. 0 < j \<longrightarrow> \<not> lt (xs ! j) (xs ! parent j))"

text \<open>Heap order everywhere but around \<open>i\<close>; the parent of \<open>i\<close> still bounds the children of \<open>i\<close>.\<close>

definition heap_but :: "('a \<Rightarrow> 'a \<Rightarrow> bool) \<Rightarrow> nat \<Rightarrow> 'a list \<Rightarrow> bool" where
  "heap_but lt i xs \<longleftrightarrow>
     (\<forall>j < length xs. 0 < j \<and> j \<noteq> i \<and> parent j \<noteq> i \<longrightarrow> \<not> lt (xs ! j) (xs ! parent j)) \<and>
     (\<forall>j < length xs. 0 < i \<and> 0 < j \<and> parent j = i \<longrightarrow> \<not> lt (xs ! j) (xs ! parent i))"

definition above_ok :: "('a \<Rightarrow> 'a \<Rightarrow> bool) \<Rightarrow> nat \<Rightarrow> 'a list \<Rightarrow> bool" where
  "above_ok lt i xs \<longleftrightarrow> (0 < i \<longrightarrow> \<not> lt (xs ! i) (xs ! parent i))"

definition below_ok :: "('a \<Rightarrow> 'a \<Rightarrow> bool) \<Rightarrow> nat \<Rightarrow> 'a list \<Rightarrow> bool" where
  "below_ok lt i xs \<longleftrightarrow> (\<forall>j < length xs. 0 < j \<and> parent j = i \<longrightarrow> \<not> lt (xs ! j) (xs ! i))"

lemmas heap_defs = heap_order_def heap_but_def above_ok_def below_ok_def

lemma heap_but_heap:
  "heap_but lt i xs \<Longrightarrow> above_ok lt i xs \<Longrightarrow> below_ok lt i xs \<Longrightarrow> heap_order lt xs"
  unfolding heap_defs by metis

lemma heap_but_swap_up:
  assumes W: "strict_weak_order lt" and H: "heap_but lt i xs" and i: "0 < i" "i < length xs"
    and lt: "lt (xs ! i) (xs ! parent i)"
  shows "heap_but lt (parent i) (swap_nth xs i (parent i)) \<and>
    below_ok lt (parent i) (swap_nth xs i (parent i))"
proof -
  let ?p = "parent i" and ?ys = "swap_nth xs i (parent i)"
  have p: "?p < i" "?p < length xs" using parent_less [OF i(1)] i(2) by (simp, linarith)
  have H1: "\<And>j. j < length xs \<Longrightarrow> 0 < j \<Longrightarrow> j \<noteq> i \<Longrightarrow> parent j \<noteq> i \<Longrightarrow> \<not> lt (xs ! j) (xs ! parent j)"
    and H2: "\<And>j. j < length xs \<Longrightarrow> 0 < j \<Longrightarrow> parent j = i \<Longrightarrow> \<not> lt (xs ! j) (xs ! ?p)"
    using H i(1) by (auto simp: heap_but_def)
  have ys: "?ys ! k = (if k = ?p then xs ! i else if k = i then xs ! ?p else xs ! k)" for k
    using i(2) p(2) by (rule nth_swap_nth)
  have ip: "\<not> lt (xs ! ?p) (xs ! i)" using swo_asym [OF W lt] .
  have "\<not> lt (?ys ! j) (?ys ! parent j)"
    if "j < length xs" "0 < j" "j \<noteq> ?p" "parent j \<noteq> ?p" for j
    using that H1 [of j] H2 [of j] by (cases "parent j = i") (auto simp: ys)
  moreover have "\<not> lt (?ys ! j) (?ys ! parent ?p)"
    if j: "j < length xs" "0 < ?p" "0 < j" "parent j = ?p" for j
  proof -
    have "parent ?p < ?p" using j(2) by simp
    then have pp: "\<not> lt (xs ! ?p) (xs ! parent ?p)" using H1 [of ?p] p j(2) by auto
    show ?thesis
    proof (cases "j = i")
      case True
      with pp \<open>parent ?p < ?p\<close> p(1) show ?thesis by (simp add: ys)
    next
      case False
      then have "\<not> lt (xs ! j) (xs ! ?p)" using H1 [of j] j p by auto
      with pp have "\<not> lt (xs ! j) (xs ! parent ?p)" using swo_neg_trans [OF W] by blast
      with \<open>parent ?p < ?p\<close> p(1) False j show ?thesis by (auto simp: ys)
    qed
  qed
  moreover have "\<not> lt (?ys ! j) (?ys ! ?p)" if j: "j < length xs" "0 < j" "parent j = ?p" for j
  proof (cases "j = i")
    case True
    with ip p show ?thesis by (simp add: ys)
  next
    case False
    then have "\<not> lt (xs ! j) (xs ! ?p)" using H1 [of j] j p by auto
    with ip have "\<not> lt (xs ! j) (xs ! i)" using swo_neg_trans [OF W] by blast
    moreover have "j \<noteq> ?p" using j p by auto
    ultimately show ?thesis using False by (simp add: ys)
  qed
  ultimately show ?thesis by (auto simp: heap_but_def below_ok_def)
qed

lemma sift_up_heap:
  assumes "strict_weak_order lt" "heap_but lt i xs" "i < length xs"
  shows "heap_but lt (fst (sift_up lt i xs)) (snd (sift_up lt i xs)) \<and>
    above_ok lt (fst (sift_up lt i xs)) (snd (sift_up lt i xs)) \<and>
    (below_ok lt i xs \<longrightarrow> below_ok lt (fst (sift_up lt i xs)) (snd (sift_up lt i xs)))"
  using assms
proof (induction lt i xs rule: sift_up.induct)
  case (1 lt i xs)
  show ?case
  proof (cases "0 < i \<and> lt (xs ! i) (xs ! parent i)")
    case True
    have "heap_but lt (parent i) (swap_nth xs i (parent i)) \<and>
        below_ok lt (parent i) (swap_nth xs i (parent i))"
      using heap_but_swap_up [OF "1.prems"(1,2)] True "1.prems"(3) by blast
    moreover have "parent i < length (swap_nth xs i (parent i))"
      using le_less_trans [OF parent_le "1.prems"(3)] by simp
    ultimately show ?thesis
      using "1.IH" [OF True "1.prems"(1)] True by (simp add: sift_up_step)
  next
    case False
    then show ?thesis
      using "1.prems" by (auto simp: sift_up_stop above_ok_def)
  qed
qed

lemma heap_but_swap_down:
  assumes W: "strict_weak_order lt" and H: "heap_but lt i xs" and A: "above_ok lt i xs"
    and c: "2 * i + 1 < length xs" and ge: "\<not> lt (xs ! i) (xs ! least_child lt i xs)"
  shows "heap_but lt (least_child lt i xs) (swap_nth xs i (least_child lt i xs)) \<and>
    above_ok lt (least_child lt i xs) (swap_nth xs i (least_child lt i xs))"
proof -
  let ?c = "least_child lt i xs"
  let ?ys = "swap_nth xs i ?c"
  note b = least_child_bounds [OF c, of lt]
  have i: "i < length xs" using c by simp
  have H1: "\<And>j. j < length xs \<Longrightarrow> 0 < j \<Longrightarrow> j \<noteq> i \<Longrightarrow> parent j \<noteq> i \<Longrightarrow> \<not> lt (xs ! j) (xs ! parent j)"
    and H2: "\<And>j. j < length xs \<Longrightarrow> 0 < i \<Longrightarrow> 0 < j \<Longrightarrow> parent j = i \<Longrightarrow> \<not> lt (xs ! j) (xs ! parent i)"
    using H by (auto simp: heap_but_def)
  have ys: "?ys ! k = (if k = ?c then xs ! i else if k = i then xs ! ?c else xs ! k)" for k
    using i b by (intro nth_swap_nth) auto
  have least: "\<not> lt (xs ! j) (xs ! ?c)" if "j < length xs" "0 < j" "parent j = i" for j
  proof -
    have "j = 2 * i + 1 \<or> j = 2 * i + 2" using that(2,3) by (simp add: parent_iff)
    then show ?thesis
      using that(1) swo_asym [OF W] swo_irrefl [OF W] by (auto simp: least_child_def Let_def)
  qed
  have "\<not> lt (?ys ! j) (?ys ! parent j)"
    if j: "j < length xs" "0 < j" "j \<noteq> ?c" "parent j \<noteq> ?c" for j
  proof -
    consider "j = i" | "j \<noteq> i" "parent j = i" | "j \<noteq> i" "parent j \<noteq> i" by blast
    then show ?thesis
    proof cases
      case 1
      then show ?thesis using H2 [of ?c] b j by (auto simp: ys)
    next
      case 2
      then show ?thesis using least [of j] j b by (auto simp: ys)
    next
      case 3
      then show ?thesis using H1 [of j] j by (auto simp: ys)
    qed
  qed
  moreover have "\<not> lt (?ys ! j) (?ys ! parent ?c)" if j: "j < length xs" "0 < j" "parent j = ?c" for j
  proof -
    have "j \<noteq> i" "j \<noteq> ?c"
      using j b parent_le [of "?c"] parent_less [of j] by (auto dest: less_le_trans)
    then show ?thesis using H1 [of j] j b by (auto simp: ys)
  qed
  moreover have "\<not> lt (?ys ! ?c) (?ys ! parent ?c)" using ge b by (simp add: ys)
  ultimately show ?thesis by (auto simp: heap_but_def above_ok_def)
qed

lemma sift_down_heap:
  assumes "strict_weak_order lt" "heap_but lt i xs" "above_ok lt i xs"
  shows "heap_order lt (sift_down lt i xs)"
  using assms
proof (induction lt i xs rule: sift_down.induct)
  case (1 lt i xs)
  let ?c = "least_child lt i xs"
  show ?case
  proof (cases "2 * i + 1 < length xs \<and> \<not> lt (xs ! i) (xs ! ?c)")
    case True
    then show ?thesis
      using "1.IH" [OF True "1.prems"(1)] heap_but_swap_down [OF "1.prems"]
      by (simp add: sift_down_step)
  next
    case False
    have "below_ok lt i xs"
      unfolding below_ok_def
    proof (intro allI impI)
      fix j assume j: "j < length xs" "0 < j \<and> parent j = i"
      then have ji: "j = 2 * i + 1 \<or> j = 2 * i + 2" using parent_iff by blast
      with j(1) False have "lt (xs ! i) (xs ! ?c)" by auto
      moreover have "\<not> lt (xs ! j) (xs ! ?c)"
        using ji j(1) swo_asym [OF "1.prems"(1)] swo_irrefl [OF "1.prems"(1)]
        by (auto simp: least_child_def Let_def)
      ultimately show "\<not> lt (xs ! j) (xs ! i)"
        using swo_asym [OF "1.prems"(1)] swo_neg_trans [OF "1.prems"(1)] by metis
    qed
    with "1.prems" False show ?thesis
      by (simp add: sift_down_stop heap_but_heap)
  qed
qed

lemma heap_order_least:
  assumes W: "strict_weak_order lt" and H: "heap_order lt xs" and i: "i < length xs"
  shows "\<not> lt (xs ! i) (xs ! 0)"
  using i
proof (induction i rule: less_induct)
  case (less i)
  show ?case
  proof (cases "i = 0")
    case True
    then show ?thesis using swo_irrefl [OF W] by simp
  next
    case False
    then have "parent i < i" by simp
    moreover from this have "parent i < length xs" using less.prems by (rule less_trans)
    moreover have "\<not> lt (xs ! i) (xs ! parent i)"
      using H False less.prems by (auto simp: heap_order_def)
    ultimately show ?thesis using less.IH swo_neg_trans [OF W] by blast
  qed
qed

text \<open>Inserting at the end and sifting up; replacing one element by the last one and sifting.\<close>

lemma heap_order_insert:
  assumes W: "strict_weak_order lt" and H: "heap_order lt xs"
  shows "heap_order lt (snd (sift_up lt (length xs) (xs @ [v])))"
proof -
  have "heap_but lt (length xs) (xs @ [v])" "below_ok lt (length xs) (xs @ [v])"
  proof -
    have "parent j < length xs" if "j < length xs" for j
      using parent_le that by (rule le_less_trans)
    moreover have "parent j \<noteq> length xs" if "0 < j" "j < Suc (length xs)" for j
      using parent_less [OF that(1)] that(2) by simp
    ultimately show "heap_but lt (length xs) (xs @ [v])" "below_ok lt (length xs) (xs @ [v])"
      using H by (auto simp: heap_defs nth_append less_Suc_eq)
  qed
  with sift_up_heap [OF W, of "length xs" "xs @ [v]"] show ?thesis
    by (auto intro: heap_but_heap)
qed

lemma heap_but_replace:
  assumes W: "strict_weak_order lt" and H: "heap_order lt xs" and i: "i < length xs - 1"
  shows "heap_but lt i ((butlast xs)[i := last xs])"
proof -
  let ?ys = "(butlast xs)[i := last xs]"
  have H': "\<And>j. j < length xs \<Longrightarrow> 0 < j \<Longrightarrow> \<not> lt (xs ! j) (xs ! parent j)"
    using H by (auto simp: heap_order_def)
  have "\<not> lt (xs ! j) (xs ! parent i)" if "j < length xs - 1" "0 < i" "0 < j" "parent j = i" for j
    using H' [of j] H' [of i] that swo_neg_trans [OF W, of "xs ! j" "xs ! i" "xs ! parent i"] i
    by auto
  moreover have "parent j \<noteq> i \<and> j \<noteq> i" if "parent j = i" "0 < i" "j = i" for j
    using that by auto
  ultimately show ?thesis
    using H' i le_less_trans [OF parent_le]
    by (auto simp: heap_but_def nth_list_update nth_butlast)
qed

lemma heap_order_replace:
  assumes W: "strict_weak_order lt" and H: "heap_order lt xs" and i: "i < length xs - 1"
  shows "heap_order lt (case_prod (sift_down lt) (sift_up lt i ((butlast xs)[i := last xs])))"
proof -
  let ?ys = "(butlast xs)[i := last xs]"
  obtain i' zs where z: "sift_up lt i ?ys = (i', zs)" by fastforce
  have "i < length ?ys" using i by simp
  from sift_up_heap [OF W heap_but_replace [OF assms] this] z
  show ?thesis by (auto intro: sift_down_heap [OF W])
qed


section \<open>The interface of a heap\<close>

text \<open>
  What the heaps promise: \<open>insert\<close> adds an element unless one with its key is there, \<open>top\<close>
  throws on an empty heap and otherwise shows an element that no other precedes, \<open>pop\<close>
  removes the element \<open>top\<close> shows. The clients fill a heap and drain it.
\<close>

locale prio_queue = strict_weak_order lt
  for lt :: "'a \<Rightarrow> 'a \<Rightarrow> bool" +
  fixes key :: "'a \<Rightarrow> 'k"
    and inv :: "'h \<Rightarrow> bool"
    and elems :: "'h \<Rightarrow> 'a multiset"
    and empty_op :: 'h
    and insert_op :: "'a \<Rightarrow> 'h \<Rightarrow> 'h option"
    and top_op :: "'h \<Rightarrow> 'a throws"
    and pop_op :: "'h \<Rightarrow> 'h option"
  assumes empty_ok: "inv empty_op \<and> elems empty_op = {#}"
    and insert_ok: "inv h \<Longrightarrow> \<exists>h'. insert_op v h = Some h' \<and> inv h' \<and>
      elems h' = (if key v \<in> key ` set_mset (elems h) then elems h else add_mset v (elems h))"
    and top_empty: "inv h \<Longrightarrow> elems h = {#} \<Longrightarrow> \<exists>e. top_op h = Inl e"
    and top_ok: "inv h \<Longrightarrow> elems h \<noteq> {#} \<Longrightarrow>
      \<exists>a. top_op h = Inr a \<and> a \<in># elems h \<and> (\<forall>b \<in># elems h. \<not> lt b a)"
    and pop_ok: "inv h \<Longrightarrow> top_op h = Inr a \<Longrightarrow>
      \<exists>h'. pop_op h = Some h' \<and> inv h' \<and> elems h' = elems h - {#a#}"

locale erasable_queue = prio_queue lt key inv elems empty_op insert_op top_op pop_op
  for lt :: "'a \<Rightarrow> 'a \<Rightarrow> bool" and key :: "'a \<Rightarrow> 'k" and inv :: "'h \<Rightarrow> bool"
    and elems empty_op insert_op top_op pop_op +
  fixes erase_op :: "'k \<Rightarrow> 'h \<Rightarrow> (nat \<times> 'h) option"
  assumes erase_ok: "inv h \<Longrightarrow> \<exists>h'. erase_op k h =
      Some ((if k \<in> key ` set_mset (elems h) then 1 else 0), h') \<and> inv h' \<and>
      elems h' = filter_mset (\<lambda>a. key a \<noteq> k) (elems h)"

fun fill_queue :: "('a \<Rightarrow> 'h \<Rightarrow> 'h option) \<Rightarrow> 'a list \<Rightarrow> 'h \<Rightarrow> 'h option" where
  "fill_queue ins [] h = Some h"
| "fill_queue ins (v # vs) h = do { h' \<leftarrow> ins v h; fill_queue ins vs h' }"

fun drain_queue :: "('h \<Rightarrow> 'a throws) \<Rightarrow> ('h \<Rightarrow> 'h option) \<Rightarrow> nat \<Rightarrow> 'h \<Rightarrow> 'a list option" where
  "drain_queue tp pp 0 h = Some []"
| "drain_queue tp pp (Suc n) h =
     (case tp h of
        Inl e \<Rightarrow> None
      | Inr a \<Rightarrow> do { h' \<leftarrow> pp h; as \<leftarrow> drain_queue tp pp n h'; Some (a # as) })"

definition replace_key ::
  "('a \<Rightarrow> 'k) \<Rightarrow> ('k \<Rightarrow> 'h \<Rightarrow> (nat \<times> 'h) option) \<Rightarrow> ('a \<Rightarrow> 'h \<Rightarrow> 'h option) \<Rightarrow> 'a \<Rightarrow> 'h \<Rightarrow> 'h option" where
  "replace_key key erase ins v h = do { (_, h') \<leftarrow> erase (key v) h; ins v h' }"

context prio_queue
begin

lemma fill_ok:
  assumes "inv h" "distinct (map key vs)" "\<forall>v \<in> set vs. key v \<notin> key ` set_mset (elems h)"
  shows "\<exists>h'. fill_queue insert_op vs h = Some h' \<and> inv h' \<and> elems h' = mset vs + elems h"
  using assms
proof (induction vs arbitrary: h)
  case Nil
  then show ?case by simp
next
  case (Cons v vs)
  from insert_ok [OF Cons.prems(1), of v] Cons.prems(3) obtain h1 where
    h1: "insert_op v h = Some h1" "inv h1" "elems h1 = add_mset v (elems h)" by auto
  have "key u \<notin> key ` set_mset (elems h1)" if "u \<in> set vs" for u
  proof -
    have "key u \<noteq> key v" using Cons.prems(2) that by (auto simp: rev_image_eqI)
    then show ?thesis using Cons.prems(3) that by (simp add: h1(3))
  qed
  moreover have "distinct (map key vs)" using Cons.prems(2) by simp
  ultimately obtain h' where "fill_queue insert_op vs h1 = Some h'" "inv h'"
    "elems h' = mset vs + elems h1" using Cons.IH [OF h1(2)] by blast
  with h1 show ?case by simp
qed

lemma drain_ok:
  "inv h \<Longrightarrow> \<exists>xs. drain_queue top_op pop_op (size (elems h)) h = Some xs \<and>
    mset xs = elems h \<and> sorted_wrt (\<lambda>a b. \<not> lt b a) xs"
proof (induction "size (elems h)" arbitrary: h)
  case 0
  then show ?case by simp
next
  case (Suc n)
  then have ne: "elems h \<noteq> {#}" by auto
  obtain a where a: "top_op h = Inr a" "a \<in># elems h" "\<forall>b \<in># elems h. \<not> lt b a"
    using top_ok [OF Suc.prems ne] by blast
  obtain h' where h': "pop_op h = Some h'" "inv h'" "elems h' = elems h - {#a#}"
    using pop_ok [OF Suc.prems a(1)] by blast
  have n: "n = size (elems h')" using Suc(2) a(2) h'(3) by (simp add: size_Diff_singleton)
  obtain xs where xs: "drain_queue top_op pop_op n h' = Some xs" "mset xs = elems h'"
    "sorted_wrt (\<lambda>a b. \<not> lt b a) xs"
    using Suc.hyps(1) [OF n h'(2)] n by auto
  have "set xs \<subseteq> set_mset (elems h)"
    using xs(2) h'(3) by (metis diff_subset_eq_self set_mset_mono set_mset_mset)
  then have "sorted_wrt (\<lambda>a b. \<not> lt b a) (a # xs)" using xs(3) a(3) by auto
  moreover have "mset (a # xs) = elems h" using xs(2) h'(3) a(2) by simp
  moreover have "drain_queue top_op pop_op (size (elems h)) h = Some (a # xs)"
    using a(1) h'(1) xs(1) by (simp add: Suc(2) [symmetric])
  ultimately show ?case by blast
qed

text \<open>Filling an empty queue and draining it sorts.\<close>

lemma sort_ok:
  assumes "distinct (map key vs)"
  shows "\<exists>h xs. fill_queue insert_op vs empty_op = Some h \<and>
    drain_queue top_op pop_op (length vs) h = Some xs \<and> mset xs = mset vs \<and>
    sorted_wrt (\<lambda>a b. \<not> lt b a) xs"
proof -
  have "inv empty_op" "\<forall>v \<in> set vs. key v \<notin> key ` set_mset (elems empty_op)"
    using empty_ok by auto
  from fill_ok [OF this(1) assms this(2)] obtain h where
    h: "fill_queue insert_op vs empty_op = Some h" "inv h" "elems h = mset vs" using empty_ok by auto
  with drain_ok [OF h(2)] show ?thesis by auto
qed

end

context erasable_queue
begin

text \<open>Changing the priority of a key, by erasing it and inserting the new element.\<close>

lemma replace_ok:
  assumes "inv h"
  shows "\<exists>h'. replace_key key erase_op insert_op v h = Some h' \<and> inv h' \<and>
    elems h' = add_mset v (filter_mset (\<lambda>a. key a \<noteq> key v) (elems h))"
proof -
  obtain c h1 where 1: "erase_op (key v) h = Some (c, h1)" "inv h1"
    "elems h1 = filter_mset (\<lambda>a. key a \<noteq> key v) (elems h)"
    using erase_ok [OF assms, of "key v"] by blast
  have "key v \<notin> key ` set_mset (elems h1)" using 1(3) by auto
  with insert_ok [OF 1(2), of v] 1 show ?thesis by (auto simp: replace_key_def)
qed

end

end
