(* ===== verification/Zi_Simple_Heap.thy ===== *)
theory Zi_Simple_Heap
  imports Zi_Heap_Order
begin

text \<open>
  \<^verbatim>\<open>zi/heap/simple_binary_heap.hpp\<close>: a vector in heap order with a hash map from each element
  to its position. \<open>lt\<close> is the \<open>Compare\<close> argument of the template; \<open>Hash\<close>, \<open>Pred\<close> and the
  allocator do not influence the results (\<open>Pred\<close> is equality).
\<close>

section \<open>State and operations\<close>

record 'a sheap =
  sh_map :: "'a \<rightharpoonup> nat"
  sh_store :: "'a list"

definition sh_new :: "'a sheap" where
  "sh_new = \<lparr>sh_map = Map.empty, sh_store = []\<rparr>"

definition sh_size :: "'a sheap \<Rightarrow> nat" where
  "sh_size h = length (sh_store h)"

definition sh_top :: "'a sheap \<Rightarrow> 'a throws" where
  "sh_top h = (if length (sh_store h) = 0 then Inl (Zi_Exception ''called pop on an empty heap'')
               else Inr (sh_store h ! 0))"

definition sh_count :: "'a sheap \<Rightarrow> 'a \<Rightarrow> nat" where
  "sh_count h v = (if sh_map h v = None then 0 else 1)"

definition sh_empty :: "'a sheap \<Rightarrow> bool" where
  "sh_empty h = (sh_store h = [])"

definition sh_swap_elements :: "nat \<Rightarrow> nat \<Rightarrow> 'a sheap \<Rightarrow> 'a sheap" where
  "sh_swap_elements x y h =
     (let st = swap_nth (sh_store h) x y
      in \<lparr>sh_map = (sh_map h)(st ! x \<mapsto> x, st ! y \<mapsto> y), sh_store = st\<rparr>)"

fun sh_heap_up :: "('a \<Rightarrow> 'a \<Rightarrow> bool) \<Rightarrow> nat \<Rightarrow> 'a sheap \<Rightarrow> 'a sheap" where
  "sh_heap_up lt index h =
     (if 0 < index \<and> lt (sh_store h ! index) (sh_store h ! ((index - 1) div 2))
      then sh_heap_up lt ((index - 1) div 2) (sh_swap_elements index ((index - 1) div 2) h)
      else h)"

function sh_heap_down :: "('a \<Rightarrow> 'a \<Rightarrow> bool) \<Rightarrow> nat \<Rightarrow> 'a sheap \<Rightarrow> 'a sheap" where
  "sh_heap_down lt index h =
     (let st = sh_store h; child = index * 2 + 1
      in if child < length st
         then
           let child = (if child + 1 < length st \<and> lt (st ! (child + 1)) (st ! child)
                        then child + 1 else child)
           in if lt (st ! index) (st ! child) then h
              else sh_heap_down lt child (sh_swap_elements index child h)
         else h)"
  by pat_completeness auto
termination
  by (relation "measure (\<lambda>(lt, i, h). length (sh_store h) - i)")
    (auto simp: sh_swap_elements_def Let_def)

declare sh_heap_up.simps [simp del] sh_heap_down.simps [simp del]

text \<open>\<open>hash_map_.insert\<close> does not overwrite an entry; \<open>insert\<close> only calls this when there is none.\<close>

definition sh_do_insert :: "('a \<Rightarrow> 'a \<Rightarrow> bool) \<Rightarrow> 'a \<Rightarrow> 'a sheap \<Rightarrow> 'a sheap" where
  "sh_do_insert lt v h =
     (let m = (if sh_map h v = None then (sh_map h)(v \<mapsto> length (sh_store h)) else sh_map h);
          st = sh_store h @ [v]
      in sh_heap_up lt (length st - 1) \<lparr>sh_map = m, sh_store = st\<rparr>)"

text \<open>\<open>hash_map_[ v ]\<close> would create an entry for a missing \<open>v\<close>.\<close>

definition sh_do_erase :: "('a \<Rightarrow> 'a \<Rightarrow> bool) \<Rightarrow> 'a \<Rightarrow> 'a sheap \<Rightarrow> 'a sheap" where
  "sh_do_erase lt v h =
     (let pos = (case sh_map h v of Some p \<Rightarrow> p | None \<Rightarrow> 0);
          h = h\<lparr>sh_map := (sh_map h)(v \<mapsto> pos)\<rparr>
      in if pos + 1 = length (sh_store h)
         then \<lparr>sh_map = (sh_map h)(v := None), sh_store = butlast (sh_store h)\<rparr>
         else
           let h = sh_swap_elements pos (length (sh_store h) - 1) h
           in sh_heap_down lt pos
                \<lparr>sh_map = (sh_map h)(last (sh_store h) := None), sh_store = butlast (sh_store h)\<rparr>)"

definition sh_insert :: "('a \<Rightarrow> 'a \<Rightarrow> bool) \<Rightarrow> 'a \<Rightarrow> 'a sheap \<Rightarrow> 'a sheap" where
  "sh_insert lt v h = (if sh_count h v = 0 then sh_do_insert lt v h else h)"

definition sh_erase :: "('a \<Rightarrow> 'a \<Rightarrow> bool) \<Rightarrow> 'a \<Rightarrow> 'a sheap \<Rightarrow> nat \<times> 'a sheap" where
  "sh_erase lt v h = (if sh_count h v \<noteq> 0 then (1, sh_do_erase lt v h) else (0, h))"

definition sh_pop :: "('a \<Rightarrow> 'a \<Rightarrow> bool) \<Rightarrow> 'a sheap \<Rightarrow> 'a sheap" where
  "sh_pop lt h = (if length (sh_store h) > 0 then sh_do_erase lt (sh_store h ! 0) h else h)"

section \<open>The index\<close>

text \<open>The hash map holds exactly the elements, each with its position.\<close>

definition sh_wf :: "'a sheap \<Rightarrow> bool" where
  "sh_wf h \<longleftrightarrow> (\<forall>v i. sh_map h v = Some i \<longleftrightarrow> i < length (sh_store h) \<and> sh_store h ! i = v)"

definition sh_inv :: "('a \<Rightarrow> 'a \<Rightarrow> bool) \<Rightarrow> 'a sheap \<Rightarrow> bool" where
  "sh_inv lt h \<longleftrightarrow> sh_wf h \<and> heap_order lt (sh_store h)"

lemma sh_wf_map: "sh_wf h \<Longrightarrow> sh_map h v = Some i \<longleftrightarrow> i < length (sh_store h) \<and> sh_store h ! i = v"
  by (simp add: sh_wf_def)

lemma sh_wf_nth: "sh_wf h \<Longrightarrow> i < length (sh_store h) \<Longrightarrow> sh_map h (sh_store h ! i) = Some i"
  by (simp add: sh_wf_map)

lemma sh_wf_None: "sh_wf h \<Longrightarrow> sh_map h v = None \<longleftrightarrow> v \<notin> set (sh_store h)"
  by (metis in_set_conv_nth not_None_eq sh_wf_map)

lemma sh_wf_distinct: "sh_wf h \<Longrightarrow> distinct (sh_store h)"
  by (metis distinct_conv_nth option.inject sh_wf_nth)

lemma sh_wfI:
  assumes "distinct st" "\<And>i. i < length st \<Longrightarrow> m (st ! i) = Some i"
    "\<And>v. v \<notin> set st \<Longrightarrow> m v = None"
  shows "sh_wf \<lparr>sh_map = m, sh_store = st\<rparr>"
  unfolding sh_wf_def
proof (intro allI)
  fix v i
  show "sh_map \<lparr>sh_map = m, sh_store = st\<rparr> v = Some i \<longleftrightarrow>
      i < length (sh_store \<lparr>sh_map = m, sh_store = st\<rparr>) \<and> sh_store \<lparr>sh_map = m, sh_store = st\<rparr> ! i = v"
  proof (cases "v \<in> set st")
    case True
    then obtain j where "j < length st" "st ! j = v" by (auto simp: in_set_conv_nth)
    with assms(2) [of j] nth_eq_iff_index_eq [OF assms(1), of _ j] show ?thesis by auto
  next
    case False
    with assms(3) [of v] show ?thesis by auto
  qed
qed

lemma sh_swap_store [simp]:
  "sh_store (sh_swap_elements x y h) = swap_nth (sh_store h) x y"
  by (simp add: sh_swap_elements_def Let_def)

lemma sh_swap_wf [zi_inv]:
  assumes W: "sh_wf h" and xy: "x < length (sh_store h)" "y < length (sh_store h)"
  shows "sh_wf (sh_swap_elements x y h)"
proof -
  let ?st = "swap_nth (sh_store h) x y"
  have d: "distinct ?st" using sh_wf_distinct [OF W] xy by simp
  have ne: "?st ! i \<noteq> ?st ! k" if "i < length ?st" "k < length ?st" "i \<noteq> k" for i k
    using nth_eq_iff_index_eq [OF d] that by simp
  have "((sh_map h)(?st ! x \<mapsto> x, ?st ! y \<mapsto> y)) (?st ! i) = Some i" if i: "i < length ?st" for i
  proof -
    have "sh_map h (?st ! i) = Some i" if "i \<noteq> x" "i \<noteq> y"
      using sh_wf_nth [OF W] i that xy by (simp add: nth_swap_nth)
    moreover have "?st ! i \<noteq> ?st ! x" if "i \<noteq> x" using ne [OF i _ that] xy by simp
    moreover have "?st ! i \<noteq> ?st ! y" if "i \<noteq> y" using ne [OF i _ that] xy by simp
    ultimately show ?thesis by (cases "i = x"; cases "i = y") auto
  qed
  moreover have "((sh_map h)(?st ! x \<mapsto> x, ?st ! y \<mapsto> y)) v = None" if "v \<notin> set ?st" for v
  proof -
    have "v \<notin> set (sh_store h)" using that xy by simp
    moreover have "?st ! x \<noteq> v" "?st ! y \<noteq> v" 
      using that nth_mem [of x ?st] nth_mem [of y ?st] xy by auto
    ultimately show ?thesis using sh_wf_None [OF W] by auto
  qed
  ultimately show ?thesis
    unfolding sh_swap_elements_def Let_def using d by (intro sh_wfI) auto
qed

text \<open>The loops of the heap do to its vector what the loops on lists do.\<close>

lemma sh_heap_up_sift:
  "sh_wf h \<Longrightarrow> i < length (sh_store h) \<Longrightarrow>
   sh_wf (sh_heap_up lt i h) \<and> sh_store (sh_heap_up lt i h) = snd (sift_up lt i (sh_store h))"
proof (induction lt i h rule: sh_heap_up.induct)
  case (1 lt i h)
  show ?case
  proof (cases "0 < i \<and> lt (sh_store h ! i) (sh_store h ! parent i)")
    case True
    have p: "parent i < length (sh_store h)" using parent_le 1(3) by (rule le_less_trans)
    have "sh_heap_up lt i h = sh_heap_up lt (parent i) (sh_swap_elements i (parent i) h)"
      using True by (simp add: sh_heap_up.simps [of lt i h] parent_def)
    with 1(1) [folded parent_def, OF True] sh_swap_wf [OF 1(2,3) p] True p show ?thesis
      by (simp add: sift_up_step)
  next
    case False
    then have "sh_heap_up lt i h = h"
      by (auto simp: sh_heap_up.simps [of lt i h] parent_def)
    with False 1(2) show ?thesis by (simp add: sift_up_stop)
  qed
qed

lemma sh_heap_down_eq:
  "sh_heap_down lt i h =
     (if 2 * i + 1 < length (sh_store h) \<and>
         \<not> lt (sh_store h ! i) (sh_store h ! least_child lt i (sh_store h))
      then sh_heap_down lt (least_child lt i (sh_store h))
             (sh_swap_elements i (least_child lt i (sh_store h)) h)
      else h)"
  by (subst sh_heap_down.simps) (simp add: least_child_def Let_def mult.commute)

lemma sh_heap_down_sift:
  "sh_wf h \<Longrightarrow>
   sh_wf (sh_heap_down lt i h) \<and> sh_store (sh_heap_down lt i h) = sift_down lt i (sh_store h)"
proof (induction "length (sh_store h) - i" arbitrary: i h rule: less_induct)
  case less
  let ?c = "least_child lt i (sh_store h)"
  show ?case
  proof (cases "2 * i + 1 < length (sh_store h) \<and> \<not> lt (sh_store h ! i) (sh_store h ! ?c)")
    case True
    note b = least_child_bounds [of i "sh_store h" lt]
    have "sh_wf (sh_swap_elements i ?c h)" using True b less.prems by (intro zi_inv) auto
    with less.hyps [of "sh_swap_elements i ?c h" ?c] True b show ?thesis
      by (auto simp: sh_heap_down_eq [of lt i h] sift_down_step)
  next
    case False
    have "sh_heap_down lt i h = h" using False by (subst sh_heap_down_eq) (simp only: if_False)
    with False less.prems show ?thesis by (simp add: sift_down_stop)
  qed
qed


section \<open>What the operations do\<close>

lemma sh_insert_ok:
  assumes W: "strict_weak_order lt" and I: "sh_inv lt h"
  shows "sh_inv lt (sh_insert lt v h) \<and>
    mset (sh_store (sh_insert lt v h)) =
      (if v \<in> set (sh_store h) then mset (sh_store h) else add_mset v (mset (sh_store h)))"
proof (cases "v \<in> set (sh_store h)")
  case True
  with I show ?thesis by (simp add: sh_insert_def sh_count_def sh_inv_def sh_wf_None)
next
  case False
  let ?st = "sh_store h @ [v]"
  let ?h = "\<lparr>sh_map = (sh_map h)(v \<mapsto> length (sh_store h)), sh_store = ?st\<rparr>"
  have wf: "sh_wf h" using I by (simp add: sh_inv_def)
  have "sh_wf ?h"
    using False sh_wf_distinct [OF wf] sh_wf_None [OF wf]
    by (intro sh_wfI) (auto simp: nth_append sh_wf_nth [OF wf] less_Suc_eq)
  then have up: "sh_wf (sh_heap_up lt (length (sh_store h)) ?h)"
    "sh_store (sh_heap_up lt (length (sh_store h)) ?h) = snd (sift_up lt (length (sh_store h)) ?st)"
    using sh_heap_up_sift [of ?h "length (sh_store h)" lt] by simp_all
  have "sh_insert lt v h = sh_heap_up lt (length (sh_store h)) ?h"
    using False sh_wf_None [OF wf]
    by (simp add: sh_insert_def sh_count_def sh_do_insert_def Let_def)
  with up False I sift_up_perm [of "length (sh_store h)" ?st lt] heap_order_insert [OF W]
  show ?thesis by (simp add: sh_inv_def)
qed

lemma sh_wf_drop:
  assumes g: "sh_wf g" "sh_store g \<noteq> []"
  shows "sh_wf \<lparr>sh_map = (sh_map g)(last (sh_store g) := None), sh_store = butlast (sh_store g)\<rparr>"
proof -
  obtain st a where st: "sh_store g = st @ [a]" using g(2) by (metis append_butlast_last_id)
  have "distinct (st @ [a])" using sh_wf_distinct [OF g(1)] st by simp
  moreover have "sh_map g (st ! i) = Some i" if "i < length st" for i
    using sh_wf_nth [OF g(1), of i] that by (simp add: st nth_append)
  moreover have "sh_map g v = None" if "v \<notin> set st" "v \<noteq> a" for v
    using sh_wf_None [OF g(1)] that by (simp add: st)
  ultimately have "sh_wf \<lparr>sh_map = (sh_map g)(a := None), sh_store = st\<rparr>"
    by (intro sh_wfI) (auto dest: nth_mem)
  then show ?thesis by (simp add: st)
qed

text \<open>
  Erasing keeps the index right; the elements that remain are those of the vector with the
  erased position filled from the end, sifted down only.
\<close>

lemma sh_do_erase_ok:
  assumes wf: "sh_wf h" and i: "i < length (sh_store h)"
  shows "sh_wf (sh_do_erase lt (sh_store h ! i) h)"
    "sh_store (sh_do_erase lt (sh_store h ! i) h) =
       (if i + 1 = length (sh_store h) then butlast (sh_store h)
        else sift_down lt i ((butlast (sh_store h))[i := last (sh_store h)]))"
proof -
  let ?st = "sh_store h" and ?m = "sh_map h"
  let ?v = "?st ! i" and ?n = "length ?st - 1"
  have pos: "?m ?v = Some i" using sh_wf_nth [OF wf i] .
  then have m: "?m(?v \<mapsto> i) = ?m" by auto
  have d: "distinct ?st" using sh_wf_distinct [OF wf] .
  have "sh_wf (sh_do_erase lt ?v h) \<and> sh_store (sh_do_erase lt ?v h) =
    (if i + 1 = length ?st then butlast ?st else sift_down lt i ((butlast ?st)[i := last ?st]))"
  proof (cases "i + 1 = length ?st")
    case True
    then have "last ?st = ?v" using i by (metis add_diff_cancel_right' last_conv_nth list.size(3) not_less0)
    with True sh_wf_drop [OF wf] i pos m show ?thesis
      by (force simp: sh_do_erase_def Let_def)
  next
    case False
    let ?g = "sh_swap_elements i ?n h"
    have n: "?n < length ?st" "i < ?n" using i False by auto
    have g: "sh_wf ?g" using wf i n(1) by (rule sh_swap_wf)
    have "?st \<noteq> []" using i by auto
    then have "?st ! ?n = last ?st" by (simp add: last_conv_nth)
    then have st: "butlast (sh_store ?g) = (butlast ?st)[i := last ?st]"
      using i n by (intro nth_equalityI)
        (auto simp: nth_butlast nth_swap_nth nth_list_update)
    have "sh_store ?g \<noteq> []" using i by (metis length_0_conv length_swap_nth not_less0 sh_swap_store)
    from sh_heap_down_sift [OF sh_wf_drop [OF g this], of lt i] False pos m st show ?thesis
      by (simp add: sh_do_erase_def Let_def)
  qed
  then show "sh_wf (sh_do_erase lt ?v h)" "sh_store (sh_do_erase lt ?v h) =
    (if i + 1 = length ?st then butlast ?st else sift_down lt i ((butlast ?st)[i := last ?st]))"
    by blast+
qed

lemma sh_pop_ok:
  assumes W: "strict_weak_order lt" and I: "sh_inv lt h" and ne: "sh_store h \<noteq> []"
  shows "sh_inv lt (sh_pop lt h) \<and>
    mset (sh_store (sh_pop lt h)) = mset (sh_store h) - {#sh_store h ! 0#}"
proof -
  let ?st = "sh_store h"
  have wf: "sh_wf h" and H: "heap_order lt ?st" using I by (auto simp: sh_inv_def)
  have pop: "sh_pop lt h = sh_do_erase lt (?st ! 0) h" using ne by (simp add: sh_pop_def)
  note e = sh_do_erase_ok [OF wf, of 0 lt]
  show ?thesis
  proof (cases "length ?st = 1")
    case True
    then obtain a where "?st = [a]" by (auto simp: length_Suc_conv)
    with e pop show ?thesis by (simp add: sh_inv_def heap_order_def)
  next
    case False
    then have n: "0 < length ?st - 1" using ne by (cases ?st; cases "tl ?st") auto
    have "above_ok lt 0 ((butlast ?st)[0 := last ?st])" by (simp add: above_ok_def)
    with sift_down_heap [OF W heap_but_replace [OF W H n]]
    have "heap_order lt (sift_down lt 0 ((butlast ?st)[0 := last ?st]))" .
    moreover have "mset ((butlast ?st)[0 := last ?st]) = mset ?st - {#?st ! 0#}"
      using n by (cases ?st) (auto simp: mset_update ac_simps, metis append_butlast_last_id
          list.distinct(1) mset.simps(2) union_code union_mset_add_mset_right mset_append add.right_neutral mset.simps(1))
    ultimately show ?thesis
      using e pop False n ne sift_down_perm [of lt 0] by (simp add: sh_inv_def)
  qed
qed


lemma sh_prio_queue:
  assumes W: "strict_weak_order lt"
  shows "prio_queue lt id (sh_inv lt) (\<lambda>h. mset (sh_store h)) sh_new
    (\<lambda>v h. Some (sh_insert lt v h)) sh_top (\<lambda>h. Some (sh_pop lt h))"
proof (intro prio_queue.intro prio_queue_axioms.intro W)
  show "sh_inv lt sh_new \<and> mset (sh_store (sh_new :: 'a sheap)) = {#}"
    by (simp add: sh_inv_def sh_wf_def sh_new_def heap_order_def)
next
  fix h :: "'a sheap" and v assume "sh_inv lt h"
  from sh_insert_ok [OF W this, of v]
  show "\<exists>h'. Some (sh_insert lt v h) = Some h' \<and> sh_inv lt h' \<and> mset (sh_store h') =
      (if id v \<in> id ` set_mset (mset (sh_store h)) then mset (sh_store h)
       else add_mset v (mset (sh_store h)))" by simp
next
  fix h :: "'a sheap" assume "sh_inv lt h" "mset (sh_store h) = {#}"
  then show "\<exists>e. sh_top h = Inl e" by (simp add: sh_top_def)
next
  fix h :: "'a sheap" assume I: "sh_inv lt h" and ne: "mset (sh_store h) \<noteq> {#}"
  then have "\<forall>b \<in> set (sh_store h). \<not> lt b (sh_store h ! 0)"
    using heap_order_least [OF W] by (auto simp: sh_inv_def in_set_conv_nth)
  with ne show "\<exists>a. sh_top h = Inr a \<and> a \<in># mset (sh_store h) \<and>
      (\<forall>b \<in># mset (sh_store h). \<not> lt b a)" by (simp add: sh_top_def)
next
  fix h :: "'a sheap" and a assume I: "sh_inv lt h" and a: "sh_top h = Inr a"
  then have "sh_store h \<noteq> []" "a = sh_store h ! 0" by (auto simp: sh_top_def split: if_splits)
  with sh_pop_ok [OF W I] show "\<exists>h'. Some (sh_pop lt h) = Some h' \<and> sh_inv lt h' \<and>
      mset (sh_store h') = mset (sh_store h) - {#a#}" by simp
qed

interpretation simple_heap: prio_queue "(<)" id "sh_inv ((<) :: int \<Rightarrow> int \<Rightarrow> bool)"
  "\<lambda>h. mset (sh_store h)" sh_new "\<lambda>v h. Some (sh_insert (<) v h)" sh_top "\<lambda>h. Some (sh_pop (<) h)"
  by (rule sh_prio_queue [OF swo_less])

section \<open>Properties\<close>

text \<open>C35: with any strict weak order as \<open>Compare\<close>, filling a \<open>simple_binary_heap\<close> with distinct
  elements and popping them all returns exactly these elements in sorted order, and every
  \<open>top\<close> on the way succeeds.\<close>

theorem simple_heap_sorts:
  assumes "strict_weak_order lt" "distinct vs"
  shows "\<exists>h xs. fill_queue (\<lambda>v h. Some (sh_insert lt v h)) vs sh_new = Some h \<and>
    drain_queue sh_top (\<lambda>h. Some (sh_pop lt h)) (length vs) h = Some xs \<and>
    mset xs = mset vs \<and> sorted_wrt (\<lambda>a b. \<not> lt b a) xs"
  using prio_queue.sort_ok [OF sh_prio_queue [OF assms(1)], of vs] assms(2) by simp

theorem simple_heap_sorts_witness:
  "\<exists>h xs. fill_queue (\<lambda>v h. Some (sh_insert (<) v h)) [3, 1, 2 :: int] sh_new = Some h \<and>
    drain_queue sh_top (\<lambda>h. Some (sh_pop (<) h)) 3 h = Some xs \<and> sorted xs"
  using simple_heap_sorts [OF swo_less, of "[3, 1, 2 :: int]"]
  by (auto simp: not_less numeral_3_eq_3 simp del: fill_queue.simps drain_queue.simps)

text \<open>\<open>erase\<close> removes exactly the given element, returns whether it was there and keeps the
  hash map equal to the positions in the vector, whatever the order of the elements.\<close>

theorem simple_heap_erase_index:
  assumes "sh_wf h"
  shows "fst (sh_erase lt v h) = (if v \<in> set (sh_store h) then 1 else 0) \<and>
    sh_wf (snd (sh_erase lt v h)) \<and>
    mset (sh_store (snd (sh_erase lt v h))) = mset (sh_store h) - {#v#}"
proof (cases "v \<in> set (sh_store h)")
  case False
  with assms sh_wf_None [OF assms, of v] show ?thesis
    by (simp add: sh_erase_def sh_count_def diff_single_trivial)
next
  case True
  let ?st = "sh_store h"
  obtain i where i: "i < length ?st" "?st ! i = v" using True by (auto simp: in_set_conv_nth)
  have ne: "?st \<noteq> []" using i by auto
  have b: "mset ?st = add_mset (last ?st) (mset (butlast ?st))"
    using ne by (metis append_butlast_last_id mset.simps(1,2) union_mset_add_mset_right
        add.right_neutral mset_append)
  have "mset (if i + 1 = length ?st then butlast ?st else sift_down lt i ((butlast ?st)[i := last ?st]))
      = mset ?st - {#v#}"
  proof (cases "i + 1 = length ?st")
    case last: True
    then have "length ?st - 1 = i" by simp
    then have "last ?st = v" using i ne by (simp add: last_conv_nth)
    with last b show ?thesis by simp
  next
    case False
    then have "i < length (butlast ?st)" "butlast ?st ! i = v" using i by (auto simp: nth_butlast)
    with b False show ?thesis by (auto simp: sift_down_perm mset_update nth_mem)
  qed
  with sh_do_erase_ok [OF assms i(1), of lt] i True sh_wf_None [OF assms, of v] show ?thesis
    by (auto simp: sh_erase_def sh_count_def)
qed

theorem simple_heap_erase_index_witness:
  "\<exists>h. sh_store h = [4, 5 :: int] \<and> fst (sh_erase (<) 5 h) = 1 \<and>
     sh_wf (snd (sh_erase (<) 5 h)) \<and> mset (sh_store (snd (sh_erase (<) 5 h))) = {#4#}"
proof -
  let ?h = "sh_insert (<) 4 (sh_insert (<) 5 sh_new) :: int sheap"
  have "sh_inv (<) (sh_new :: int sheap)" using simple_heap.empty_ok by blast
  then have "sh_inv (<) ?h" using sh_insert_ok [OF swo_less] by blast
  then have "sh_wf ?h" by (simp add: sh_inv_def)
  moreover have "sh_store ?h = [4, 5]" by code_simp
  ultimately show ?thesis using simple_heap_erase_index [of ?h "(<)" 5] by auto
qed

text \<open>\<open>erase\<close> of an element in the middle breaks the heap: the element moved into its place
  is only sifted down, never up. After inserting 3, 6, 2, 4, 5, 0, 1 and erasing 6, popping
  everything yields 3 before 2.\<close>

theorem simple_heap_erase_breaks_order:
  "map_option (\<lambda>h. drain_queue sh_top (\<lambda>h. Some (sh_pop (<) h)) 6 (snd (sh_erase (<) 6 h)))
     (fill_queue (\<lambda>v h. Some (sh_insert (<) v h)) [3, 6, 2, 4, 5, 0, 1 :: int] sh_new) =
   Some (Some [0, 1, 3, 2, 4, 5])"
  by code_simp

end
