(* ===== verification/Zi_Binary_Heap.thy ===== *)
theory Zi_Binary_Heap
  imports Zi_Heap_Order
begin

text \<open>
  \<^verbatim>\<open>zi/heap/detail/binary_heap_impl.hpp\<close> (the whole of \<^verbatim>\<open>zi::binary_heap\<close>): a heap whose
  elements stay in the slots of \<open>store_\<close> while the permutation \<open>heap_\<close> (position to slot) and
  its inverse \<open>map_\<close> (slot to position) move, with \<open>keymap_\<close> from keys to slots. \<open>key\<close>, \<open>val\<close>
  and \<open>cmp\<close> are the template's \<open>KeyExtractor\<close>, \<open>ValueExtractor\<close> and \<open>ValueCompare\<close>. A slot of
  raw memory is \<open>None\<close>; \<open>construct\<close> fills it, \<open>destroy\<close> empties it. \<open>None\<close> as the result of an
  operation is a failed assertion or an access outside an array.
\<close>

section \<open>State\<close>

record ('a, 'k) bheap =
  bh_size :: nat
  bh_reserved :: nat
  bh_keymap :: "'k \<rightharpoonup> nat"
  bh_heap :: "nat list"
  bh_map :: "nat list"
  bh_store :: "'a option list"

text \<open>\<open>store_[ heap_[ i ] ]\<close>\<close>

definition bh_at :: "('a, 'k) bheap \<Rightarrow> nat \<Rightarrow> 'a" where
  "bh_at h i = the (bh_store h ! (bh_heap h ! i))"

definition bh_new :: "nat \<Rightarrow> ('a, 'k) bheap" where
  "bh_new init_reserved =
     (let r = (if init_reserved < 16 then 16 else init_reserved)
      in \<lparr>bh_size = 0, bh_reserved = r, bh_keymap = Map.empty,
          bh_heap = [0..<r], bh_map = [0..<r], bh_store = replicate r None\<rparr>)"

section \<open>Growing and shrinking\<close>

definition copy_store :: "nat list \<Rightarrow> 'a option list \<Rightarrow> nat \<Rightarrow> 'a option list \<Rightarrow> 'a option list" where
  "copy_store hp old n new = fold (\<lambda>i ns. ns[hp ! i := old ! (hp ! i)]) [0..<n] new"

definition bh_try_grow :: "('a, 'k) bheap \<Rightarrow> ('a, 'k) bheap option" where
  "bh_try_grow h =
     (let h' =
        (if bh_size h = bh_reserved h
         then
           let s = 2 * bh_reserved h
           in h\<lparr>bh_store := copy_store (bh_heap h) (bh_store h) (bh_size h) (replicate s None),
                bh_heap := bh_heap h @ [bh_reserved h..<s],
                bh_map := bh_map h @ [bh_reserved h..<s],
                bh_reserved := s\<rparr>
         else h)
      in if bh_size h' < bh_reserved h' then Some h' else None)"

text \<open>\<open>while ( map_[ si ] < s ) ++si\<close>\<close>

function skip_used :: "nat list \<Rightarrow> nat \<Rightarrow> nat \<Rightarrow> nat option" where
  "skip_used mp s si =
     (if si < length mp then (if mp ! si < s then skip_used mp s (Suc si) else Some si) else None)"
  by pat_completeness auto
termination by (relation "measure (\<lambda>(mp, s, si). length mp - si)") auto

declare skip_used.simps [simp del]

text \<open>The two relocation loops of \<open>try_shrink\<close>, over the used and the unused positions.\<close>

fun shrink_used :: "('a \<Rightarrow> 'k) \<Rightarrow> nat \<Rightarrow> 'a option list \<Rightarrow> nat list \<Rightarrow>
    nat list \<times> nat list \<times> ('k \<rightharpoonup> nat) \<times> 'a option list \<times> nat \<Rightarrow>
    (nat list \<times> nat list \<times> ('k \<rightharpoonup> nat) \<times> 'a option list \<times> nat) option" where
  "shrink_used key s old [] st = Some st"
| "shrink_used key s old (i # ks) (hp, mp, km, st, si) =
     (if s \<le> hp ! i
      then do {
        si \<leftarrow> skip_used mp s si;
        shrink_used key s old ks
          (hp[i := si], mp[si := i], km(key (the (old ! (hp ! i))) \<mapsto> si), st[si := old ! (hp ! i)], si)
      }
      else shrink_used key s old ks (hp, mp, km, st[hp ! i := old ! (hp ! i)], si))"

fun shrink_rest :: "nat \<Rightarrow> nat list \<Rightarrow> nat list \<times> nat list \<times> nat \<Rightarrow>
    (nat list \<times> nat list \<times> nat) option" where
  "shrink_rest s [] st = Some st"
| "shrink_rest s (i # ks) (hp, mp, si) =
     (if s \<le> hp ! i
      then do { si \<leftarrow> skip_used mp s si; shrink_rest s ks (hp[i := si], mp[si := i], si) }
      else shrink_rest s ks (hp, mp, si))"

definition bh_try_shrink :: "('a \<Rightarrow> 'k) \<Rightarrow> ('a, 'k) bheap \<Rightarrow> ('a, 'k) bheap option" where
  "bh_try_shrink key h =
     do {
       h' \<leftarrow>
         (if 4 * bh_size h < bh_reserved h \<and> bh_reserved h > 4096
          then
            if bh_size h = card (dom (bh_keymap h))
            then
              let s = bh_reserved h div 2
              in do {
                (hp, mp, km, st, si) \<leftarrow>
                  shrink_used key s (bh_store h) [0..<bh_size h]
                    (bh_heap h, bh_map h, bh_keymap h, replicate s None, 0);
                (hp, mp, si) \<leftarrow> shrink_rest s [bh_size h..<s] (hp, mp, si);
                Some (h\<lparr>bh_store := st, bh_keymap := km, bh_heap := take s hp, bh_map := take s mp,
                        bh_reserved := s\<rparr>)
              }
            else None
          else Some h);
       if bh_size h' < bh_reserved h' then Some h' else None
     }"

section \<open>Operations\<close>

definition bh_empty :: "('a, 'k) bheap \<Rightarrow> bool" where
  "bh_empty h = (bh_size h = 0)"

definition bh_key_count :: "('a, 'k) bheap \<Rightarrow> 'k \<Rightarrow> nat" where
  "bh_key_count h k = (if bh_keymap h k = None then 0 else 1)"

definition bh_count :: "('a \<Rightarrow> 'k) \<Rightarrow> ('a, 'k) bheap \<Rightarrow> 'a \<Rightarrow> nat" where
  "bh_count key h v = bh_key_count h (key v)"

definition bh_top :: "('a, 'k) bheap \<Rightarrow> 'a throws" where
  "bh_top h = (if bh_size h = 0 then Inl (Zi_Exception ''called pop on an empty heap'')
               else Inr (bh_at h 0))"

definition bh_swap_elements :: "nat \<Rightarrow> nat \<Rightarrow> ('a, 'k) bheap \<Rightarrow> ('a, 'k) bheap" where
  "bh_swap_elements x y h =
     (let hp = swap_nth (bh_heap h) x y
      in h\<lparr>bh_heap := hp, bh_map := (bh_map h)[hp ! x := x, hp ! y := y]\<rparr>)"

fun bh_heap_up :: "('v \<Rightarrow> 'v \<Rightarrow> bool) \<Rightarrow> ('a \<Rightarrow> 'v) \<Rightarrow> nat \<Rightarrow> ('a, 'k) bheap \<Rightarrow> nat \<times> ('a, 'k) bheap" where
  "bh_heap_up cmp val index h =
     (if 0 < index \<and> cmp (val (bh_at h index)) (val (bh_at h ((index - 1) div 2)))
      then bh_heap_up cmp val ((index - 1) div 2) (bh_swap_elements index ((index - 1) div 2) h)
      else (index, h))"

function bh_heap_down :: "('v \<Rightarrow> 'v \<Rightarrow> bool) \<Rightarrow> ('a \<Rightarrow> 'v) \<Rightarrow> nat \<Rightarrow> ('a, 'k) bheap \<Rightarrow> ('a, 'k) bheap" where
  "bh_heap_down cmp val index h =
     (let child = index * 2 + 1
      in if child < bh_size h
         then
           let child = (if child + 1 < bh_size h \<and>
                           cmp (val (bh_at h (child + 1))) (val (bh_at h child))
                        then child + 1 else child)
           in if cmp (val (bh_at h index)) (val (bh_at h child)) then h
              else bh_heap_down cmp val child (bh_swap_elements index child h)
         else h)"
  by pat_completeness auto
termination
  by (relation "measure (\<lambda>(cmp, val, i, h). bh_size h - i)")
    (auto simp: bh_swap_elements_def Let_def)

declare bh_heap_up.simps [simp del] bh_heap_down.simps [simp del]

text \<open>\<open>keymap_.insert\<close> keeps an entry that is there already.\<close>

definition bh_do_insert :: "('v \<Rightarrow> 'v \<Rightarrow> bool) \<Rightarrow> ('a \<Rightarrow> 'v) \<Rightarrow> ('a \<Rightarrow> 'k) \<Rightarrow> 'a \<Rightarrow>
    ('a, 'k) bheap \<Rightarrow> ('a, 'k) bheap option" where
  "bh_do_insert cmp val key v h =
     (let n = bh_size h; slot = bh_heap h ! n
      in if slot < bh_reserved h
         then
           let h = h\<lparr>bh_store := (bh_store h)[slot := Some v],
                     bh_keymap := (if bh_keymap h (key v) = None then (bh_keymap h)(key v \<mapsto> slot)
                                   else bh_keymap h)\<rparr>
           in if bh_map h ! slot = n
              then
                let h = snd (bh_heap_up cmp val n h)
                in bh_try_grow (h\<lparr>bh_size := n + 1\<rparr>)
              else None
         else None)"

definition bh_clear :: "('a, 'k) bheap \<Rightarrow> ('a, 'k) bheap" where
  "bh_clear h =
     (let h = h\<lparr>bh_store := fold (\<lambda>i st. st[bh_heap h ! i := None]) [0..<bh_size h] (bh_store h)\<rparr>;
          h = (if bh_reserved h > 16
               then h\<lparr>bh_heap := [0..<16], bh_map := [0..<16], bh_reserved := 16,
                      bh_store := replicate 16 None\<rparr>
               else h)
      in h\<lparr>bh_size := 0, bh_keymap := Map.empty\<rparr>)"

definition bh_erase_at :: "('v \<Rightarrow> 'v \<Rightarrow> bool) \<Rightarrow> ('a \<Rightarrow> 'v) \<Rightarrow> ('a \<Rightarrow> 'k) \<Rightarrow> nat \<Rightarrow>
    ('a, 'k) bheap \<Rightarrow> ('a, 'k) bheap option" where
  "bh_erase_at cmp val key pos h =
     (let k = key (the (bh_store h ! pos))
      in if bh_keymap h k = None then None
         else
           let h = h\<lparr>bh_keymap := (bh_keymap h)(k := None), bh_store := (bh_store h)[pos := None],
                     bh_size := bh_size h - 1\<rparr>;
               h = (if bh_map h ! pos < bh_size h
                    then
                      let hp = bh_map h ! pos;
                          h = bh_swap_elements (bh_map h ! pos) (bh_size h) h;
                          (hp, h) = bh_heap_up cmp val hp h
                      in bh_heap_down cmp val hp h
                    else h)
           in bh_try_shrink key h)"

text \<open>\<open>keymap_[ k ]\<close> creates the entry 0 for a missing key.\<close>

definition bh_do_erase_key :: "('v \<Rightarrow> 'v \<Rightarrow> bool) \<Rightarrow> ('a \<Rightarrow> 'v) \<Rightarrow> ('a \<Rightarrow> 'k) \<Rightarrow> 'k \<Rightarrow>
    ('a, 'k) bheap \<Rightarrow> ('a, 'k) bheap option" where
  "bh_do_erase_key cmp val key k h =
     (let pos = (case bh_keymap h k of Some p \<Rightarrow> p | None \<Rightarrow> 0)
      in bh_erase_at cmp val key pos (h\<lparr>bh_keymap := (bh_keymap h)(k \<mapsto> pos)\<rparr>))"

definition bh_do_erase :: "('v \<Rightarrow> 'v \<Rightarrow> bool) \<Rightarrow> ('a \<Rightarrow> 'v) \<Rightarrow> ('a \<Rightarrow> 'k) \<Rightarrow> 'a \<Rightarrow>
    ('a, 'k) bheap \<Rightarrow> ('a, 'k) bheap option" where
  "bh_do_erase cmp val key v h = bh_do_erase_key cmp val key (key v) h"

definition bh_insert :: "('v \<Rightarrow> 'v \<Rightarrow> bool) \<Rightarrow> ('a \<Rightarrow> 'v) \<Rightarrow> ('a \<Rightarrow> 'k) \<Rightarrow> 'a \<Rightarrow>
    ('a, 'k) bheap \<Rightarrow> ('a, 'k) bheap option" where
  "bh_insert cmp val key v h =
     (if bh_count key h v = 0 then bh_do_insert cmp val key v h else Some h)"

definition bh_erase_key :: "('v \<Rightarrow> 'v \<Rightarrow> bool) \<Rightarrow> ('a \<Rightarrow> 'v) \<Rightarrow> ('a \<Rightarrow> 'k) \<Rightarrow> 'k \<Rightarrow>
    ('a, 'k) bheap \<Rightarrow> (nat \<times> ('a, 'k) bheap) option" where
  "bh_erase_key cmp val key k h =
     (if bh_key_count h k \<noteq> 0 then map_option (Pair 1) (bh_do_erase_key cmp val key k h)
      else Some (0, h))"

definition bh_erase :: "('v \<Rightarrow> 'v \<Rightarrow> bool) \<Rightarrow> ('a \<Rightarrow> 'v) \<Rightarrow> ('a \<Rightarrow> 'k) \<Rightarrow> 'a \<Rightarrow>
    ('a, 'k) bheap \<Rightarrow> (nat \<times> ('a, 'k) bheap) option" where
  "bh_erase cmp val key v h =
     (if bh_count key h v \<noteq> 0 then map_option (Pair 1) (bh_do_erase cmp val key v h)
      else Some (0, h))"

definition bh_pop :: "('v \<Rightarrow> 'v \<Rightarrow> bool) \<Rightarrow> ('a \<Rightarrow> 'v) \<Rightarrow> ('a \<Rightarrow> 'k) \<Rightarrow>
    ('a, 'k) bheap \<Rightarrow> ('a, 'k) bheap option" where
  "bh_pop cmp val key h =
     (if bh_size h > 0 then bh_do_erase cmp val key (bh_at h 0) h else Some h)"

end
