(* ===== verification/Zi_Binary_Heap_Correct.thy ===== *)
theory Zi_Binary_Heap_Correct
  imports Zi_Binary_Heap
begin

text \<open>
  The binary heap keeps \<open>heap_\<close> and \<open>map_\<close> inverse to each other, constructs and destroys every
  slot exactly once, and implements the heap interface: refinement of its loops to the loops
  on the list of its elements, preservation of the invariant by every operation including the
  reallocations, and the properties.
\<close>

section \<open>The permutation\<close>

definition perm_pair :: "nat \<Rightarrow> nat list \<Rightarrow> nat list \<Rightarrow> bool" where
  "perm_pair N hp mp \<longleftrightarrow> length hp = N \<and> length mp = N \<and> (\<forall>i < N. hp ! i < N \<and> mp ! (hp ! i) = i)"

lemma perm_pairD:
  assumes "perm_pair N hp mp"
  shows "length hp = N" "length mp = N" "i < N \<Longrightarrow> hp ! i < N" "i < N \<Longrightarrow> mp ! (hp ! i) = i"
  using assms by (auto simp: perm_pair_def)

lemma perm_pair_inj:
  "perm_pair N hp mp \<Longrightarrow> i < N \<Longrightarrow> k < N \<Longrightarrow> hp ! i = hp ! k \<longleftrightarrow> i = k"
  using perm_pairD(4) by metis

lemma perm_pair_conv:
  assumes P: "perm_pair N hp mp" and j: "j < N"
  shows "mp ! j < N" "hp ! (mp ! j) = j"
proof -
  have "inj_on ((!) hp) {..<N}" using perm_pair_inj [OF P] by (auto simp: inj_on_def)
  moreover have "(!) hp ` {..<N} \<subseteq> {..<N}" using P by (auto simp: perm_pair_def)
  ultimately have "(!) hp ` {..<N} = {..<N}" by (intro endo_inj_surj) auto
  with j obtain i where "i < N" "j = hp ! i" by (metis imageE lessThan_iff)
  with perm_pairD(4) [OF P] show "mp ! j < N" "hp ! (mp ! j) = j" by auto
qed

lemma perm_pair_id: "perm_pair n [0..<n] [0..<n]"
  by (simp add: perm_pair_def)

lemma perm_pair_swap:
  assumes P: "perm_pair N hp mp" and xy: "x < N" "y < N"
  shows "perm_pair N (swap_nth hp x y)
    (mp[swap_nth hp x y ! x := x, swap_nth hp x y ! y := y])"
proof -
  let ?hp = "swap_nth hp x y"
  have nth: "?hp ! k = (if k = y then hp ! x else if k = x then hp ! y else hp ! k)" for k
    using xy perm_pairD(1) [OF P] by (intro nth_swap_nth) auto
  show ?thesis
    unfolding perm_pair_def
    using xy perm_pairD [OF P] perm_pair_inj [OF P]
    by (auto simp: nth nth_list_update)
qed

lemma perm_pair_swap_map:
  assumes P: "perm_pair N hp mp" and xy: "x < N" "y < N" and j: "j < N"
  shows "mp[swap_nth hp x y ! x := x, swap_nth hp x y ! y := y] ! j =
    (if mp ! j = x then y else if mp ! j = y then x else mp ! j)"
proof -
  have nth: "swap_nth hp x y ! k = (if k = y then hp ! x else if k = x then hp ! y else hp ! k)" for k
    using xy perm_pairD(1) [OF P] by (intro nth_swap_nth) auto
  have "mp ! j = x \<longleftrightarrow> j = hp ! x" "mp ! j = y \<longleftrightarrow> j = hp ! y"
    using perm_pair_conv [OF P j] perm_pairD(4) [OF P] xy by auto
  then show ?thesis using xy j perm_pairD(2,3) [OF P] by (auto simp: nth nth_list_update)
qed

section \<open>Well-formed heaps and their elements\<close>

text \<open>\<open>n\<close> positions are in use: their slots are constructed and indexed by \<open>keymap_\<close>.\<close>

definition bh_wf :: "('a \<Rightarrow> 'k) \<Rightarrow> nat \<Rightarrow> ('a, 'k) bheap \<Rightarrow> bool" where
  "bh_wf key n h \<longleftrightarrow> n \<le> bh_reserved h \<and>
     perm_pair (bh_reserved h) (bh_heap h) (bh_map h) \<and> length (bh_store h) = bh_reserved h \<and>
     (\<forall>j < bh_reserved h. bh_store h ! j \<noteq> None \<longleftrightarrow> bh_map h ! j < n) \<and>
     (\<forall>k j. bh_keymap h k = Some j \<longleftrightarrow>
        j < bh_reserved h \<and> bh_map h ! j < n \<and> key (the (bh_store h ! j)) = k)"

definition bh_els :: "nat \<Rightarrow> ('a, 'k) bheap \<Rightarrow> 'a list" where
  "bh_els n h = map (bh_at h) [0..<n]"

lemma length_bh_els [simp]: "length (bh_els n h) = n"
  by (simp add: bh_els_def)

lemma nth_bh_els [simp]: "i < n \<Longrightarrow> bh_els n h ! i = bh_at h i"
  by (simp add: bh_els_def)

lemma bh_els_Suc: "bh_els (Suc n) h = bh_els n h @ [bh_at h n]"
  by (simp add: bh_els_def)

lemma bh_wfD:
  assumes "bh_wf key n h"
  shows "n \<le> bh_reserved h" "perm_pair (bh_reserved h) (bh_heap h) (bh_map h)"
    "length (bh_store h) = bh_reserved h"
    "j < bh_reserved h \<Longrightarrow> bh_store h ! j \<noteq> None \<longleftrightarrow> bh_map h ! j < n"
    "bh_keymap h k = Some j \<longleftrightarrow>
       j < bh_reserved h \<and> bh_map h ! j < n \<and> key (the (bh_store h ! j)) = k"
  using assms unfolding bh_wf_def by blast+

lemma bh_wf_keymap_at:
  assumes W: "bh_wf key n h" and i: "i < n"
  shows "bh_keymap h (key (bh_at h i)) = Some (bh_heap h ! i)"
proof -
  have "i < bh_reserved h" using i bh_wfD(1) [OF W] by simp
  from perm_pairD(3,4) [OF bh_wfD(2) [OF W] this] i show ?thesis
    by (simp add: bh_wfD(5) [OF W] bh_at_def)
qed

lemma bh_wf_keymap_Some:
  assumes W: "bh_wf key n h" and k: "bh_keymap h k = Some j"
  obtains i where "i < n" "bh_heap h ! i = j" "bh_map h ! j = i" "key (bh_at h i) = k"
    "j < bh_reserved h"
proof -
  have j: "j < bh_reserved h" "bh_map h ! j < n" "key (the (bh_store h ! j)) = k"
    using bh_wfD(5) [OF W] k by blast+
  have hj: "bh_heap h ! (bh_map h ! j) = j" by (rule perm_pair_conv(2) [OF bh_wfD(2) [OF W] j(1)])
  show thesis
    by (rule that [of "bh_map h ! j"]) (simp_all add: bh_at_def hj j)
qed

lemma bh_wf_keymap_None:
  assumes W: "bh_wf key n h"
  shows "bh_keymap h k = None \<longleftrightarrow> k \<notin> key ` set (bh_els n h)"
proof
  assume "bh_keymap h k = None"
  then show "k \<notin> key ` set (bh_els n h)"
    using bh_wf_keymap_at [OF W] by (auto simp: bh_els_def)
next
  assume k: "k \<notin> key ` set (bh_els n h)"
  show "bh_keymap h k = None"
  proof (rule ccontr)
    assume "bh_keymap h k \<noteq> None"
    then obtain j where "bh_keymap h k = Some j" by auto
    from W this obtain i where i: "i < n" "key (bh_at h i) = k" by (rule bh_wf_keymap_Some)
    have "bh_at h i \<in> set (bh_els n h)" using i(1) by (simp add: bh_els_def)
    with i(2) k show False by blast
  qed
qed

lemma bh_wf_distinct_keys:
  assumes W: "bh_wf key n h"
  shows "distinct (map key (bh_els n h))"
proof -
  have "i = k" if "i < n" "k < n" "key (bh_at h i) = key (bh_at h k)" for i k
  proof -
    have "bh_heap h ! i = bh_heap h ! k"
      using bh_wf_keymap_at [OF W that(1)] bh_wf_keymap_at [OF W that(2)] that(3) by simp
    moreover have "i < bh_reserved h" "k < bh_reserved h" using that bh_wfD(1) [OF W] by simp_all
    ultimately show ?thesis using perm_pair_inj [OF bh_wfD(2) [OF W]] by simp
  qed
  then show ?thesis by (auto simp: distinct_conv_nth)
qed

text \<open>Well-formedness, from the elements at the positions in use.\<close>

lemma bh_wfI:
  assumes P: "perm_pair (bh_reserved h) (bh_heap h) (bh_map h)" and n: "n \<le> bh_reserved h"
    and len: "length (bh_store h) = bh_reserved h"
    and el: "\<And>x. x < n \<Longrightarrow> bh_store h ! (bh_heap h ! x) = Some (el x)"
    and free: "\<And>j. j < bh_reserved h \<Longrightarrow> bh_store h ! j \<noteq> None \<Longrightarrow> bh_map h ! j < n"
    and km: "\<And>x. x < n \<Longrightarrow> bh_keymap h (key (el x)) = Some (bh_heap h ! x)"
    and dom: "dom (bh_keymap h) \<subseteq> (\<lambda>x. key (el x)) ` {..<n}"
  shows "bh_wf key n h" "bh_els n h = map el [0..<n]"
proof -
  have used: "\<exists>x < n. bh_heap h ! x = j \<and> bh_map h ! j = x"
    if "j < bh_reserved h" "bh_map h ! j < n" for j
    using perm_pair_conv(2) [OF P that(1)] that(2) by blast
  show "bh_wf key n h"
    unfolding bh_wf_def
  proof (intro conjI allI impI P n len)
    fix j assume j: "j < bh_reserved h"
    show "bh_store h ! j \<noteq> None \<longleftrightarrow> bh_map h ! j < n"
      using free [OF j] used [OF j] el by fastforce
  next
    fix k j
    show "bh_keymap h k = Some j \<longleftrightarrow>
        j < bh_reserved h \<and> bh_map h ! j < n \<and> key (the (bh_store h ! j)) = k"
    proof
      assume kj: "bh_keymap h k = Some j"
      then obtain x where x: "x < n" "k = key (el x)" using dom by auto
      have "x < bh_reserved h" using x(1) n by simp
      from perm_pairD(3,4) [OF P this] km [OF x(1)] el [OF x(1)] kj x
      show "j < bh_reserved h \<and> bh_map h ! j < n \<and> key (the (bh_store h ! j)) = k" by simp
    next
      assume j: "j < bh_reserved h \<and> bh_map h ! j < n \<and> key (the (bh_store h ! j)) = k"
      then obtain x where "x < n" "bh_heap h ! x = j" using used by blast
      with km [of x] el [of x] j show "bh_keymap h k = Some j" by simp
    qed
  qed
  show "bh_els n h = map el [0..<n]" by (simp add: bh_els_def bh_at_def el)
qed

lemma bh_wf_store:
  assumes W: "bh_wf key n h" and x: "x < n"
  shows "bh_store h ! (bh_heap h ! x) = Some (bh_at h x)"
proof -
  have "x < bh_reserved h" using x bh_wfD(1) [OF W] by simp
  from perm_pairD(3,4) [OF bh_wfD(2) [OF W] this] bh_wfD(4) [OF W] x
  show ?thesis by (auto simp: bh_at_def)
qed

lemma bh_wf_dom:
  assumes W: "bh_wf key n h"
  shows "dom (bh_keymap h) = (\<lambda>x. key (bh_at h x)) ` {..<n}"
proof -
  have "dom (bh_keymap h) = {k. \<not> bh_keymap h k = None}" by auto
  also have "\<dots> = key ` set (bh_els n h)" by (simp add: bh_wf_keymap_None [OF W])
  also have "\<dots> = (\<lambda>x. key (bh_at h x)) ` {..<n}" by (auto simp: bh_els_def)
  finally show ?thesis .
qed

lemma bh_wf_inj:
  assumes W: "bh_wf key n h"
  shows "inj_on (\<lambda>x. key (bh_at h x)) {..<n}"
  using bh_wf_distinct_keys [OF W] by (auto simp: bh_els_def distinct_map inj_on_def)

section \<open>Swapping and sifting\<close>

lemma bh_swap_simps [simp]:
  "bh_size (bh_swap_elements x y h) = bh_size h"
  "bh_reserved (bh_swap_elements x y h) = bh_reserved h"
  "bh_keymap (bh_swap_elements x y h) = bh_keymap h"
  "bh_store (bh_swap_elements x y h) = bh_store h"
  "bh_heap (bh_swap_elements x y h) = swap_nth (bh_heap h) x y"
  by (simp_all add: bh_swap_elements_def Let_def)

lemma bh_swap_wf:
  assumes W: "bh_wf key n h" and xy: "x < n" "y < n"
  shows "bh_wf key n (bh_swap_elements x y h)"
    and "bh_els n (bh_swap_elements x y h) = swap_nth (bh_els n h) x y"
proof -
  let ?N = "bh_reserved h"
  note P = bh_wfD(2) [OF W]
  have N: "x < ?N" "y < ?N" using xy bh_wfD(1) [OF W] by auto
  have mp: "bh_map (bh_swap_elements x y h) =
      (bh_map h)[swap_nth (bh_heap h) x y ! x := x, swap_nth (bh_heap h) x y ! y := y]"
    by (simp add: bh_swap_elements_def Let_def)
  have lt: "bh_map (bh_swap_elements x y h) ! j < n \<longleftrightarrow> bh_map h ! j < n" if "j < ?N" for j
    using perm_pair_swap_map [OF P N that] xy by (auto simp: mp)
  show "bh_wf key n (bh_swap_elements x y h)"
    unfolding bh_wf_def
    using bh_wfD [OF W] perm_pair_swap [OF P N] lt by (auto simp: mp)
  show "bh_els n (bh_swap_elements x y h) = swap_nth (bh_els n h) x y"
    using xy N perm_pairD(1) [OF P]
    by (intro nth_equalityI) (auto simp: bh_at_def nth_swap_nth)
qed

lemma bh_heap_up_sift:
  "bh_wf key n h \<Longrightarrow> i < n \<Longrightarrow>
   bh_wf key n (snd (bh_heap_up cmp val i h)) \<and>
   bh_size (snd (bh_heap_up cmp val i h)) = bh_size h \<and>
   bh_reserved (snd (bh_heap_up cmp val i h)) = bh_reserved h \<and>
   (fst (bh_heap_up cmp val i h), bh_els n (snd (bh_heap_up cmp val i h))) =
     sift_up (\<lambda>a b. cmp (val a) (val b)) i (bh_els n h)"
proof (induction cmp val i h rule: bh_heap_up.induct)
  case (1 cmp val i h)
  let ?lt = "\<lambda>a b. cmp (val a) (val b)"
  have p: "parent i < n" using parent_le 1(3) by (rule le_less_trans)
  show ?case
  proof (cases "0 < i \<and> cmp (val (bh_at h i)) (val (bh_at h (parent i)))")
    case True
    have "bh_heap_up cmp val i h = bh_heap_up cmp val (parent i) (bh_swap_elements i (parent i) h)"
      using True by (simp add: bh_heap_up.simps [of cmp val i h] parent_def)
    moreover have "sift_up ?lt i (bh_els n h) =
        sift_up ?lt (parent i) (bh_els n (bh_swap_elements i (parent i) h))"
      using True 1(3) p by (simp add: sift_up_step bh_swap_wf(2) [OF 1(2)])
    ultimately show ?thesis
      using 1(1) [folded parent_def, OF True] bh_swap_wf(1) [OF 1(2,3) p] p by simp
  next
    case False
    then have "bh_heap_up cmp val i h = (i, h)"
      by (auto simp: bh_heap_up.simps [of cmp val i h] parent_def)
    moreover have "sift_up ?lt i (bh_els n h) = (i, bh_els n h)"
      using False 1(3) p by (intro sift_up_stop) auto
    ultimately show ?thesis using 1(2) by simp
  qed
qed

lemma bh_heap_down_eq:
  assumes "n = bh_size h"
  shows "bh_heap_down cmp val i h =
     (let c = least_child (\<lambda>a b. cmp (val a) (val b)) i (bh_els n h)
      in if 2 * i + 1 < n \<and> \<not> cmp (val (bh_at h i)) (val (bh_at h c))
         then bh_heap_down cmp val c (bh_swap_elements i c h) else h)"
  using assms
  by (subst bh_heap_down.simps) (auto simp: least_child_def Let_def mult.commute)

lemma bh_heap_down_sift:
  "bh_wf key n h \<Longrightarrow> n = bh_size h \<Longrightarrow>
   bh_wf key n (bh_heap_down cmp val i h) \<and> bh_size (bh_heap_down cmp val i h) = bh_size h \<and>
   bh_reserved (bh_heap_down cmp val i h) = bh_reserved h \<and>
   bh_els n (bh_heap_down cmp val i h) = sift_down (\<lambda>a b. cmp (val a) (val b)) i (bh_els n h)"
proof (induction "n - i" arbitrary: i h rule: less_induct)
  case less
  let ?lt = "\<lambda>a b. cmp (val a) (val b)"
  let ?c = "least_child ?lt i (bh_els n h)"
  show ?case
  proof (cases "2 * i + 1 < n \<and> \<not> cmp (val (bh_at h i)) (val (bh_at h ?c))")
    case True
    have b: "i < ?c" "?c < n" using least_child_bounds [of i "bh_els n h" ?lt] True by auto
    have i: "i < n" using True by simp
    have down: "bh_heap_down cmp val i h = bh_heap_down cmp val ?c (bh_swap_elements i ?c h)"
      using True by (subst bh_heap_down_eq [OF less.prems(2)]) (simp add: Let_def)
    have "sift_down ?lt i (bh_els n h) = sift_down ?lt ?c (bh_els n (bh_swap_elements i ?c h))"
      using True i b by (simp add: sift_down_step bh_swap_wf(2) [OF less.prems(1)])
    with less.hyps [of ?c "bh_swap_elements i ?c h"] bh_swap_wf(1) [OF less.prems(1) i b(2)] b i
      less.prems(2) down show ?thesis by simp
  next
    case False
    then have "bh_heap_down cmp val i h = h"
      by (subst bh_heap_down_eq [OF less.prems(2)]) (auto simp: Let_def)
    moreover have "sift_down ?lt i (bh_els n h) = bh_els n h"
      using False least_child_bounds [of i "bh_els n h" ?lt] by (intro sift_down_stop) auto
    ultimately show ?thesis using less.prems by simp
  qed
qed

section \<open>Growing\<close>

lemma copy_store_simps [simp]:
  "copy_store hp old 0 new = new"
  "copy_store hp old (Suc n) new = (copy_store hp old n new)[hp ! n := old ! (hp ! n)]"
  by (simp_all add: copy_store_def)

lemma length_copy_store [simp]: "length (copy_store hp old n new) = length new"
  by (induction n) auto

lemma copy_store_nth:
  "j < length new \<Longrightarrow>
   copy_store hp old n new ! j = (if \<exists>i < n. hp ! i = j then old ! j else new ! j)"
proof (induction n)
  case 0
  then show ?case by simp
next
  case (Suc n)
  show ?case
  proof (cases "hp ! n = j")
    case True
    then show ?thesis using Suc.prems by auto
  next
    case False
    then have "(\<exists>i < Suc n. hp ! i = j) = (\<exists>i < n. hp ! i = j)" by (auto simp: less_Suc_eq)
    with False Suc show ?thesis by simp
  qed
qed

lemma perm_pair_extend:
  assumes P: "perm_pair N hp mp" and N: "N \<le> s"
  shows "perm_pair s (hp @ [N..<s]) (mp @ [N..<s])"
  unfolding perm_pair_def
proof (intro conjI allI impI)
  note D = perm_pairD [OF P]
  show "length (hp @ [N..<s]) = s" "length (mp @ [N..<s]) = s" using D N by auto
  fix i assume i: "i < s"
  consider "i < N" | "N \<le> i" by linarith
  then have "(hp @ [N..<s]) ! i < s \<and> (mp @ [N..<s]) ! ((hp @ [N..<s]) ! i) = i"
  proof cases
    case 1
    then show ?thesis using D(3) [OF 1] D(4) [OF 1] D(1,2) N by (simp add: nth_append)
  next
    case 2
    then have "(hp @ [N..<s]) ! i = i" using D(1) i by (simp add: nth_append)
    with 2 i D(2) show ?thesis by (simp add: nth_append)
  qed
  then show "(hp @ [N..<s]) ! i < s" "(mp @ [N..<s]) ! ((hp @ [N..<s]) ! i) = i" by simp_all
qed

lemma bh_try_grow_ok:
  assumes W: "bh_wf key n h" and n: "n = bh_size h" "0 < bh_reserved h"
  shows "\<exists>h'. bh_try_grow h = Some h' \<and> bh_wf key n h' \<and> bh_els n h' = bh_els n h \<and>
    bh_size h' = n \<and> n < bh_reserved h' \<and> bh_reserved h \<le> bh_reserved h'"
proof (cases "n = bh_reserved h")
  case False
  then show ?thesis using W n bh_wfD(1) [OF W] by (auto simp: bh_try_grow_def)
next
  case True
  let ?N = "bh_reserved h" and ?s = "2 * bh_reserved h"
  let ?st = "copy_store (bh_heap h) (bh_store h) n (replicate ?s None)"
  let ?g = "h\<lparr>bh_store := ?st, bh_heap := bh_heap h @ [?N..<?s], bh_map := bh_map h @ [?N..<?s],
    bh_reserved := ?s\<rparr>"
  note P = bh_wfD(2) [OF W]
  have g: "bh_try_grow h = Some ?g" using True n by (simp add: bh_try_grow_def Let_def)
  have hp: "(bh_heap h @ [?N..<?s]) ! i = bh_heap h ! i" "(bh_map h @ [?N..<?s]) ! i = bh_map h ! i"
    if "i < ?N" for i
    using that perm_pairD(1,2) [OF P] by (simp_all add: nth_append)
  have mp: "(bh_map h @ [?N..<?s]) ! j < n \<longleftrightarrow> j < ?N" if "j < ?s" for j
    using that perm_pair_conv(1) [OF P, of j] perm_pairD(1,2) [OF P] True by (simp add: nth_append)
  have st: "?st ! j = (if j < ?N then bh_store h ! j else None)" if "j < ?s" for j
  proof -
    have "(\<exists>i < n. bh_heap h ! i = j) \<longleftrightarrow> j < ?N"
      using perm_pairD(3) [OF P] perm_pair_conv [OF P, of j] True by metis
    with that show ?thesis by (simp add: copy_store_nth)
  qed
  have in_use: "bh_map h ! j < n" "bh_store h ! j \<noteq> None" if "j < ?N" for j
    using perm_pair_conv(1) [OF P that] bh_wfD(4) [OF W that] True by auto
  have "bh_wf key n ?g"
    unfolding bh_wf_def
  proof (intro conjI allI impI)
    fix k j
    show "bh_keymap ?g k = Some j \<longleftrightarrow>
        j < bh_reserved ?g \<and> bh_map ?g ! j < n \<and> key (the (bh_store ?g ! j)) = k"
      using bh_wfD(5) [OF W, of k j] st [of j] mp [of j] in_use(1) [of j] by auto
  next
    fix j assume "j < bh_reserved ?g"
    then show "bh_store ?g ! j \<noteq> None \<longleftrightarrow> bh_map ?g ! j < n"
      using st [of j] mp [of j] in_use(2) [of j] by auto
  qed (use perm_pair_extend [OF P, of ?s] True in auto)
  moreover have "bh_at ?g i = bh_at h i" if "i < n" for i
    using st [of "bh_heap h ! i"] perm_pairD(3) [OF P, of i] that True hp [of i]
    by (simp add: bh_at_def)
  then have "bh_els n ?g = bh_els n h" by (simp add: bh_els_def)
  ultimately show ?thesis using g n True by auto
qed

section \<open>Shrinking\<close>

text \<open>
  \<open>try_shrink\<close> moves every position below the new size to a slot below it. While it runs,
  \<open>heap_\<close> and \<open>map_\<close> are inverse on what lies below \<open>s\<close>, the positions already visited lie
  there, and no slot below \<open>si\<close> is free; a free slot always remains, by counting.
\<close>

lemma skip_used_finds:
  assumes "si \<le> j" "j < length mp" "s \<le> mp ! j"
  shows "\<exists>k. skip_used mp s si = Some k \<and> si \<le> k \<and> k \<le> j \<and> s \<le> mp ! k \<and>
    (\<forall>i. si \<le> i \<and> i < k \<longrightarrow> mp ! i < s)"
  using assms
proof (induction mp s si rule: skip_used.induct)
  case (1 mp s si)
  show ?case
  proof (cases "mp ! si < s")
    case True
    then have "Suc si \<le> j" using 1(2-4) by (cases "si = j") auto
    with 1 True obtain k where "skip_used mp s (Suc si) = Some k" "Suc si \<le> k" "k \<le> j" "s \<le> mp ! k"
      "\<forall>i. Suc si \<le> i \<and> i < k \<longrightarrow> mp ! i < s" by auto
    moreover from this True have "\<forall>i. si \<le> i \<and> i < k \<longrightarrow> mp ! i < s"
      by (metis Suc_leI le_neq_implies_less)
    ultimately show ?thesis
      using True 1(2,3) by (subst skip_used.simps) (auto intro: Suc_leD)
  next
    case False
    then show ?thesis using 1(2,3) by (subst skip_used.simps) auto
  qed
qed

definition shrink_perm :: "nat \<Rightarrow> nat \<Rightarrow> nat \<Rightarrow> nat list \<Rightarrow> nat list \<Rightarrow> nat \<Rightarrow> bool" where
  "shrink_perm s N i hp mp si \<longleftrightarrow> length hp = N \<and> length mp = N \<and> s \<le> N \<and> si \<le> s \<and>
     (\<forall>k < i. hp ! k < s) \<and> (\<forall>k < s. hp ! k < s \<longrightarrow> mp ! (hp ! k) = k) \<and>
     (\<forall>j < s. mp ! j < s \<longrightarrow> hp ! (mp ! j) = j) \<and> (\<forall>j < si. mp ! j < s)"

lemma shrink_permD:
  assumes "shrink_perm s N i hp mp si"
  shows "length hp = N" "length mp = N" "s \<le> N" "si \<le> s" "k < i \<Longrightarrow> hp ! k < s"
    "k < s \<Longrightarrow> hp ! k < s \<Longrightarrow> mp ! (hp ! k) = k" "j < s \<Longrightarrow> mp ! j < s \<Longrightarrow> hp ! (mp ! j) = j"
    "j < si \<Longrightarrow> mp ! j < s"
  using assms unfolding shrink_perm_def by blast+

lemma shrink_perm_start:
  "perm_pair N hp mp \<Longrightarrow> s \<le> N \<Longrightarrow> shrink_perm s N 0 hp mp 0"
  unfolding shrink_perm_def
  using perm_pairD [of N hp mp] perm_pair_conv(2) [of N hp mp] by auto

lemma shrink_perm_free:
  assumes S: "shrink_perm s N i hp mp si" and i: "i < s" "s \<le> hp ! i"
  shows "\<exists>j. si \<le> j \<and> j < s \<and> s \<le> mp ! j"
proof (rule ccontr)
  note D = shrink_permD [OF S]
  assume "\<not> ?thesis"
  then have all: "mp ! j < s" if "j < s" for j using D(8) [of j] that by force
  have "inj_on ((!) mp) {..<s}"
  proof (rule inj_onI)
    fix x y assume "x \<in> {..<s}" "y \<in> {..<s}" and eq: "mp ! x = mp ! y"
    then have "x < s" "y < s" by simp_all
    then have "hp ! (mp ! x) = x" "hp ! (mp ! y) = y" by (auto intro!: D(7) all)
    with eq show "x = y" by metis
  qed
  moreover have "(!) mp ` {..<s} \<subseteq> {..<s}" using all by auto
  ultimately have "(!) mp ` {..<s} = {..<s}" by (intro endo_inj_surj) auto
  then obtain j where "j < s" "i = mp ! j" using i(1) by (metis imageE lessThan_iff)
  then have "hp ! i = j" using D(7) [of j] i(1) by simp
  with \<open>j < s\<close> i(2) show False by simp
qed

lemma shrink_perm_keep:
  "shrink_perm s N i hp mp si \<Longrightarrow> hp ! i < s \<Longrightarrow> shrink_perm s N (Suc i) hp mp si"
  unfolding shrink_perm_def by (auto simp: less_Suc_eq)

lemma shrink_perm_move:
  assumes S: "shrink_perm s N i hp mp si" and i: "i < s" "s \<le> hp ! i"
  obtains k where "skip_used mp s si = Some k" "k < s" "s \<le> mp ! k"
    "shrink_perm s N (Suc i) (hp[i := k]) (mp[k := i]) k"
proof -
  note D = shrink_permD [OF S]
  obtain j where j: "si \<le> j" "j < s" "s \<le> mp ! j" using shrink_perm_free [OF assms] by blast
  then have "j < length mp" using D(2,3) by simp
  from skip_used_finds [OF j(1) this j(3)] obtain k where
    k: "skip_used mp s si = Some k" "si \<le> k" "k \<le> j" "s \<le> mp ! k"
    "\<forall>i. si \<le> i \<and> i < k \<longrightarrow> mp ! i < s" by blast
  have ks: "k < s" using k(3) j(2) by simp
  have iN: "i < length hp" "k < length mp" using i(1) ks D(1-3) by auto
  have full: "mp ! x < s" if "x < k" for x
    using D(8) [of x] k(5) that by (cases "x < si") auto
  have ne: "hp ! x \<noteq> k" if "x < s" "hp ! x < s" for x
    using D(6) [OF that] that(1) k(4) by auto
  have ne': "mp ! x \<noteq> i" if "x < s" "mp ! x < s" for x
    using D(7) [OF that] that(1) i(2) by auto
  have "hp[i := k] ! x < s" if "x < Suc i" for x
    using D(5) [of x] that iN ks by (auto simp: nth_list_update less_Suc_eq)
  moreover have "mp[k := i] ! (hp[i := k] ! x) = x" if "x < s" "hp[i := k] ! x < s" for x
    using D(6) [of x] ne [of x] that iN by (cases "x = i") auto
  moreover have "hp[i := k] ! (mp[k := i] ! x) = x" if "x < s" "mp[k := i] ! x < s" for x
    using D(7) [of x] ne' [of x] that iN by (cases "x = k") auto
  moreover have "mp[k := i] ! x < s" if "x < k" for x using full that by simp
  ultimately have "shrink_perm s N (Suc i) (hp[i := k]) (mp[k := i]) k"
    unfolding shrink_perm_def using D(1-3) ks by auto
  with that k(1,4) ks show thesis by blast
qed

lemma shrink_rest_ok:
  "shrink_perm s N i hp mp si \<Longrightarrow> i \<le> s \<Longrightarrow>
   \<exists>hp' mp' si'. shrink_rest s [i..<s] (hp, mp, si) = Some (hp', mp', si') \<and>
     shrink_perm s N s hp' mp' si' \<and> (\<forall>k < i. hp' ! k = hp ! k)"
proof (induction "s - i" arbitrary: i hp mp si)
  case 0
  then show ?case by simp
next
  case (Suc d)
  then have i: "i < s" "d = s - Suc i" "Suc i \<le> s" by simp_all
  have up: "[i..<s] = i # [Suc i..<s]" using i(1) by (rule upt_conv_Cons)
  show ?case
  proof (cases "s \<le> hp ! i")
    case False
    then have "shrink_perm s N (Suc i) hp mp si" using Suc.prems(1) by (intro shrink_perm_keep) auto
    from Suc.hyps(1) [OF i(2) this i(3)] False show ?thesis by (fastforce simp: up)
  next
    case True
    from shrink_perm_move [OF Suc.prems(1) i(1) True] obtain k where
      k: "skip_used mp s si = Some k" "shrink_perm s N (Suc i) (hp[i := k]) (mp[k := i]) k" by blast
    from Suc.hyps(1) [OF i(2) k(2) i(3)] obtain hp' mp' si' where
      "shrink_rest s [Suc i..<s] (hp[i := k], mp[k := i], k) = Some (hp', mp', si')"
      "shrink_perm s N s hp' mp' si'" "\<forall>x < Suc i. hp' ! x = hp[i := k] ! x" by blast
    with k(1) True show ?thesis by (auto simp: up)
  qed
qed

text \<open>The elements already moved, their keys and their slots.\<close>

definition shrink_els :: "('a \<Rightarrow> 'k) \<Rightarrow> nat \<Rightarrow> nat \<Rightarrow> nat \<Rightarrow> (nat \<Rightarrow> 'a) \<Rightarrow> nat list \<Rightarrow> nat list \<Rightarrow>
    nat list \<Rightarrow> ('k \<rightharpoonup> nat) \<Rightarrow> 'a option list \<Rightarrow> bool" where
  "shrink_els key s n i el hp0 hp mp km st \<longleftrightarrow>
     (\<forall>k. i \<le> k \<longrightarrow> hp ! k = hp0 ! k) \<and> length st = s \<and>
     (\<forall>j < s. st ! j \<noteq> None \<longrightarrow> mp ! j < i) \<and> (\<forall>k < i. st ! (hp ! k) = Some (el k)) \<and>
     (\<forall>k < n. km (key (el k)) = Some (hp ! k)) \<and> dom km \<subseteq> (\<lambda>k. key (el k)) ` {..<n}"

lemma shrink_elsD:
  assumes "shrink_els key s n i el hp0 hp mp km st"
  shows "i \<le> k \<Longrightarrow> hp ! k = hp0 ! k" "length st = s" "j < s \<Longrightarrow> st ! j \<noteq> None \<Longrightarrow> mp ! j < i"
    "k < i \<Longrightarrow> st ! (hp ! k) = Some (el k)" "k < n \<Longrightarrow> km (key (el k)) = Some (hp ! k)"
    "dom km \<subseteq> (\<lambda>k. key (el k)) ` {..<n}"
  using assms by (simp_all add: shrink_els_def)

lemma shrink_els_keep:
  assumes S: "shrink_perm s N i hp mp si" and E: "shrink_els key s n i el hp0 hp mp km st"
    and i: "i < n" "n \<le> s" "hp ! i < s"
  shows "shrink_els key s n (Suc i) el hp0 hp mp km (st[hp ! i := Some (el i)])"
proof -
  note D = shrink_permD [OF S] and F = shrink_elsD [OF E]
  have mpi: "mp ! (hp ! i) = i" using D(6) [of i] i by simp
  have ne: "hp ! x \<noteq> hp ! i" if x: "x < i" for x
  proof
    assume eq: "hp ! x = hp ! i"
    have "x < s" using x i by simp
    from D(6) [OF this D(5) [OF x]] eq mpi x show False by simp
  qed
  show ?thesis
    unfolding shrink_els_def
  proof (intro conjI allI impI)
    fix x assume "Suc i \<le> x"
    then show "hp ! x = hp0 ! x" using F(1) [of x] by simp
  next
    fix j assume "j < s" "st[hp ! i := Some (el i)] ! j \<noteq> None"
    then show "mp ! j < Suc i" using F(3) [of j] mpi by (cases "j = hp ! i") auto
  next
    fix x assume "x < Suc i"
    then show "st[hp ! i := Some (el i)] ! (hp ! x) = Some (el x)"
      using F(2) F(4) [of x] ne [of x] i(3) by (cases "x = i") auto
  qed (use F(2,5,6) in simp_all)
qed

lemma shrink_els_move:
  assumes S: "shrink_perm s N i hp mp si" and E: "shrink_els key s n i el hp0 hp mp km st"
    and i: "i < n" "n \<le> s" "s \<le> hp ! i" and k: "k < s" "s \<le> mp ! k"
    and inj: "inj_on (\<lambda>k. key (el k)) {..<n}"
  shows "shrink_els key s n (Suc i) el hp0 (hp[i := k]) (mp[k := i]) (km(key (el i) \<mapsto> k))
    (st[k := Some (el i)])"
proof -
  note D = shrink_permD [OF S] and F = shrink_elsD [OF E]
  have ne: "hp ! x \<noteq> k" if "x < i" for x
    using D(5) [OF that] D(6) [of x] that i k by auto
  have key: "key (el x) \<noteq> key (el i)" if "x < n" "x \<noteq> i" for x
    using inj that i(1) by (auto dest: inj_onD)
  have len: "i < length hp" "k < length mp" using i k(1) D(1-3) by auto
  show ?thesis
    unfolding shrink_els_def
  proof (intro conjI allI impI)
    fix x assume "Suc i \<le> x"
    then show "hp[i := k] ! x = hp0 ! x" using F(1) [of x] by simp
  next
    fix j assume "j < s" "st[k := Some (el i)] ! j \<noteq> None"
    then show "mp[k := i] ! j < Suc i" using F(3) [of j] len by (cases "j = k") auto
  next
    fix x assume "x < Suc i"
    then show "st[k := Some (el i)] ! (hp[i := k] ! x) = Some (el x)"
      using F(2) F(4) [of x] ne [of x] len k(1) by (cases "x = i") auto
  next
    fix x assume "x < n"
    then show "(km(key (el i) \<mapsto> k)) (key (el x)) = Some (hp[i := k] ! x)"
      using F(5) [of x] key [of x] len by (cases "x = i") auto
  next
    show "dom (km(key (el i) \<mapsto> k)) \<subseteq> (\<lambda>k. key (el k)) ` {..<n}" using F(6) i(1) by auto
  qed (use F(2) in simp)
qed

lemma shrink_used_ok:
  "shrink_perm s N i hp mp si \<Longrightarrow> shrink_els key s n i el hp0 hp mp km st \<Longrightarrow> i \<le> n \<Longrightarrow> n \<le> s \<Longrightarrow>
   inj_on (\<lambda>k. key (el k)) {..<n} \<Longrightarrow> (\<forall>k < n. old ! (hp0 ! k) = Some (el k)) \<Longrightarrow>
   \<exists>hp' mp' km' st' si'. shrink_used key s old [i..<n] (hp, mp, km, st, si) =
       Some (hp', mp', km', st', si') \<and>
     shrink_perm s N n hp' mp' si' \<and> shrink_els key s n n el hp0 hp' mp' km' st'"
proof (induction "n - i" arbitrary: i hp mp km st si)
  case 0
  then show ?case by simp
next
  case (Suc d)
  then have i: "i < n" "d = n - Suc i" "Suc i \<le> n" "i < s" by simp_all
  have up: "[i..<n] = i # [Suc i..<n]" using i(1) by (rule upt_conv_Cons)
  have old: "old ! (hp ! i) = Some (el i)"
    using shrink_elsD(1) [OF Suc.prems(2), of i] Suc.prems(6) i(1) by simp
  show ?case
  proof (cases "s \<le> hp ! i")
    case False
    then have "shrink_perm s N (Suc i) hp mp si" using Suc.prems(1) by (intro shrink_perm_keep) auto
    moreover have "shrink_els key s n (Suc i) el hp0 hp mp km (st[hp ! i := Some (el i)])"
      using shrink_els_keep [OF Suc.prems(1,2) i(1) Suc.prems(4)] False by simp
    ultimately show ?thesis
      using Suc.hyps(1) [OF i(2) _ _ i(3) Suc.prems(4-6)] False by (simp add: up old)
  next
    case True
    from shrink_perm_move [OF Suc.prems(1) i(4) True] obtain k where
      k: "skip_used mp s si = Some k" "k < s" "s \<le> mp ! k"
        "shrink_perm s N (Suc i) (hp[i := k]) (mp[k := i]) k" by blast
    from shrink_els_move [OF Suc.prems(1,2) i(1) Suc.prems(4) True k(2,3) Suc.prems(5)]
    have "shrink_els key s n (Suc i) el hp0 (hp[i := k]) (mp[k := i]) (km(key (el i) \<mapsto> k))
      (st[k := Some (el i)])" .
    from Suc.hyps(1) [OF i(2) k(4) this i(3) Suc.prems(4-6)] True k(1) show ?thesis
      by (simp add: up old)
  qed
qed

lemma bh_try_shrink_ok:
  assumes W: "bh_wf key n h" and n: "n = bh_size h" "n < bh_reserved h"
  shows "\<exists>h'. bh_try_shrink key h = Some h' \<and> bh_wf key n h' \<and> bh_els n h' = bh_els n h \<and>
    bh_size h' = n \<and> n < bh_reserved h'"
proof (cases "4 * n < bh_reserved h \<and> 4096 < bh_reserved h")
  case False
  then have "bh_try_shrink key h = Some h" using n by (auto simp: bh_try_shrink_def)
  with W n show ?thesis by simp
next
  case True
  let ?N = "bh_reserved h" and ?s = "bh_reserved h div 2"
  let ?el = "\<lambda>x. bh_at h x"
  have s: "n < ?s" "?s \<le> ?N" using True by linarith+
  have "card (dom (bh_keymap h)) = n"
    using bh_wf_inj [OF W] by (simp add: bh_wf_dom [OF W] card_image)
  then have size: "bh_size h = card (dom (bh_keymap h))" using n by simp
  have "shrink_els key ?s n 0 ?el (bh_heap h) (bh_heap h) (bh_map h) (bh_keymap h) (replicate ?s None)"
    using bh_wf_keymap_at [OF W] by (auto simp: shrink_els_def bh_wf_dom [OF W])
  from shrink_used_ok [OF shrink_perm_start [OF bh_wfD(2) [OF W] s(2)] this, of "bh_store h"]
    bh_wf_inj [OF W] bh_wf_store [OF W] s
  obtain hp mp km st si where u:
    "shrink_used key ?s (bh_store h) [0..<n] (bh_heap h, bh_map h, bh_keymap h, replicate ?s None, 0)
       = Some (hp, mp, km, st, si)"
    "shrink_perm ?s ?N n hp mp si" "shrink_els key ?s n n ?el (bh_heap h) hp mp km st" by auto
  from shrink_rest_ok [OF u(2)] s obtain hp' mp' si' where r:
    "shrink_rest ?s [n..<?s] (hp, mp, si) = Some (hp', mp', si')"
    "shrink_perm ?s ?N ?s hp' mp' si'" "\<forall>k < n. hp' ! k = hp ! k" by auto
  let ?g = "h\<lparr>bh_store := st, bh_keymap := km, bh_heap := take ?s hp', bh_map := take ?s mp',
    bh_reserved := ?s\<rparr>"
  have sh: "bh_try_shrink key h = Some ?g"
    using True s(1) u(1) r(1) size n by (simp add: bh_try_shrink_def Let_def)
  note D = shrink_permD [OF r(2)] and D1 = shrink_permD [OF u(2)] and F = shrink_elsD [OF u(3)]
  have P: "perm_pair ?s (take ?s hp') (take ?s mp')"
    unfolding perm_pair_def using D(1-3,5,6) by simp
  have used: "mp' ! j < n" if j: "j < ?s" "st ! j \<noteq> None" for j
  proof -
    have 1: "mp ! j < n" using F(3) [OF j] .
    have "hp' ! (mp ! j) = j" using D1(7) [OF j(1)] 1 r(3) s(1) by simp
    then have "mp' ! j = mp ! j" using D(6) [of "mp ! j"] 1 s(1) j(1) by simp
    with 1 show ?thesis by simp
  qed
  have "bh_wf key n ?g \<and> bh_els n ?g = map ?el [0..<n]"
    using bh_wfI [of ?g n ?el key] P F(2,4-6) s r(3) used by simp
  with sh n(1) s(1) show ?thesis by (simp add: bh_els_def)
qed

end
