(* ===== verification/Zi_Binary_Heap_Props.thy ===== *)
theory Zi_Binary_Heap_Props
  imports Zi_Binary_Heap_Correct
begin

text \<open>
  The operations of \<^verbatim>\<open>zi::binary_heap\<close> on well-formed heaps in heap order, the heap as an
  instance of the erasable queue interface, and the properties.
\<close>

section \<open>The invariant\<close>

definition bh_inv :: "('v \<Rightarrow> 'v \<Rightarrow> bool) \<Rightarrow> ('a \<Rightarrow> 'v) \<Rightarrow> ('a \<Rightarrow> 'k) \<Rightarrow> ('a, 'k) bheap \<Rightarrow> bool" where
  "bh_inv cmp val key h \<longleftrightarrow> bh_wf key (bh_size h) h \<and> bh_size h < bh_reserved h \<and>
     heap_order (\<lambda>a b. cmp (val a) (val b)) (bh_els (bh_size h) h)"

definition bh_elems :: "('a, 'k) bheap \<Rightarrow> 'a multiset" where
  "bh_elems h = mset (bh_els (bh_size h) h)"

lemma bh_wf_size [simp]: "bh_wf key n (h\<lparr>bh_size := m\<rparr>) = bh_wf key n h"
  by (simp add: bh_wf_def)

lemma bh_els_size [simp]: "bh_els n (h\<lparr>bh_size := m\<rparr>) = bh_els n h"
  by (simp add: bh_els_def bh_at_def)

lemma bh_at_in_els: "x < n \<Longrightarrow> bh_at h x \<in> set (bh_els n h)"
  by (simp add: bh_els_def)

lemma bh_elems_empty [simp]: "bh_elems h = {#} \<longleftrightarrow> bh_size h = 0"
proof -
  have "bh_elems h = {#} \<longleftrightarrow> length (bh_els (bh_size h) h) = 0"
    unfolding bh_elems_def by (metis length_0_conv mset_zero_iff)
  then show ?thesis by simp
qed

lemma bh_new_simps [simp]: "bh_size (bh_new r) = 0" "0 < bh_reserved (bh_new r)"
  by (auto simp: bh_new_def Let_def)

lemma bh_wf_new: "bh_wf key 0 (bh_new r)"
  by (rule bh_wfI(1) [where el = undefined])
    (auto simp: bh_new_def Let_def perm_pair_id)

lemma bh_do_insert_wf:
  assumes W: "bh_wf key n h" and n: "n < bh_reserved h"
    and v: "key v \<notin> key ` set (bh_els n h)" and slot: "slot = bh_heap h ! n"
    and g: "g = h\<lparr>bh_store := (bh_store h)[slot := Some v], bh_keymap := (bh_keymap h)(key v \<mapsto> slot)\<rparr>"
  shows "bh_wf key (Suc n) g" "bh_els (Suc n) g = bh_els n h @ [v]"
proof -
  let ?el = "\<lambda>x. if x < n then bh_at h x else v"
  note P = bh_wfD(2) [OF W]
  have s: "slot < bh_reserved h" "bh_map h ! slot = n" using perm_pairD(3,4) [OF P n] slot by simp_all
  have ne: "bh_heap h ! x \<noteq> slot" if "x < n" for x
    using perm_pairD(4) [OF P, of x] s that n by auto
  have key: "key (bh_at h x) \<noteq> key v" if "x < n" for x
    using v bh_at_in_els [OF that, of h] by (metis imageI)
  have st: "bh_store g ! (bh_heap g ! x) = Some (?el x)" if "x < Suc n" for x
    using bh_wf_store [OF W, of x] ne [of x] that s(1) bh_wfD(3) [OF W] slot
    by (cases "x = n") (auto simp: g)
  show "bh_wf key (Suc n) g"
  proof (rule bh_wfI(1) [of g "Suc n" ?el, OF _ _ _ st])
    fix x assume x: "x < Suc n"
    show "bh_keymap g (key (?el x)) = Some (bh_heap g ! x)"
      using bh_wf_keymap_at [OF W, of x] key [of x] x slot by (cases "x = n") (auto simp: g)
  next
    fix j assume "j < bh_reserved g" "bh_store g ! j \<noteq> None"
    then show "bh_map g ! j < Suc n"
      using bh_wfD(4) [OF W, of j] s by (cases "j = slot") (auto simp: g)
  next
    show "dom (bh_keymap g) \<subseteq> (\<lambda>x. key (?el x)) ` {..<Suc n}"
      using bh_wf_dom [OF W] by (force simp: g)
  qed (use P n bh_wfD(3) [OF W] in \<open>simp_all add: g\<close>)
  have "bh_at g x = ?el x" if "x < Suc n" for x using st [OF that] by (simp add: bh_at_def)
  then show "bh_els (Suc n) g = bh_els n h @ [v]" by (simp add: bh_els_def)
qed

lemma bh_insert_ok:
  assumes W: "strict_weak_order (\<lambda>a b. cmp (val a) (val b))" and I: "bh_inv cmp val key h"
  shows "\<exists>h'. bh_insert cmp val key v h = Some h' \<and> bh_inv cmp val key h' \<and>
    bh_elems h' = (if key v \<in> key ` set_mset (bh_elems h) then bh_elems h
                   else add_mset v (bh_elems h))"
proof (cases "key v \<in> key ` set (bh_els (bh_size h) h)")
  case True
  have "bh_wf key (bh_size h) h" using I by (simp add: bh_inv_def)
  from bh_wf_keymap_None [OF this, of "key v"] True I show ?thesis
    by (auto simp: bh_insert_def bh_count_def bh_key_count_def bh_elems_def)
next
  case False
  let ?lt = "\<lambda>a b. cmp (val a) (val b)" and ?n = "bh_size h" and ?slot = "bh_heap h ! bh_size h"
  let ?g = "h\<lparr>bh_store := (bh_store h)[?slot := Some v],
    bh_keymap := (bh_keymap h)(key v \<mapsto> ?slot)\<rparr>"
  let ?h = "snd (bh_heap_up cmp val ?n ?g)"
  have wf: "bh_wf key ?n h" and n: "?n < bh_reserved h" and H: "heap_order ?lt (bh_els ?n h)"
    using I by (simp_all add: bh_inv_def)
  note g = bh_do_insert_wf [OF wf n False refl refl]
  from bh_heap_up_sift [OF g(1), of ?n cmp val]
  have up: "bh_wf key (Suc ?n) ?h" "bh_reserved ?h = bh_reserved h"
    "bh_els (Suc ?n) ?h = snd (sift_up ?lt ?n (bh_els ?n h @ [v]))"
    using g(2) by (auto dest: sym [of "(_, _)"] simp: prod_eq_iff)
  have "bh_wf key (Suc ?n) (?h\<lparr>bh_size := ?n + 1\<rparr>)" "0 < bh_reserved (?h\<lparr>bh_size := ?n + 1\<rparr>)"
    using up n by simp_all
  from bh_try_grow_ok [OF this(1) _ this(2)] obtain h' where
    h': "bh_try_grow (?h\<lparr>bh_size := ?n + 1\<rparr>) = Some h'" "bh_wf key (Suc ?n) h'"
      "bh_els (Suc ?n) h' = bh_els (Suc ?n) ?h" "bh_size h' = Suc ?n" "Suc ?n < bh_reserved h'" by auto
  have slot: "?slot < bh_reserved h" "bh_map h ! ?slot = ?n"
    using perm_pairD(3,4) [OF bh_wfD(2) [OF wf] n] by simp_all
  have "bh_insert cmp val key v h = Some h'"
    using bh_wf_keymap_None [OF wf, of "key v"] False slot h'(1)
    by (simp add: bh_insert_def bh_count_def bh_key_count_def bh_do_insert_def Let_def)
  moreover have "mset (bh_els (Suc ?n) ?h) = add_mset v (bh_elems h)"
    using sift_up_perm [of ?n "bh_els ?n h @ [v]" ?lt] by (simp add: up(3) bh_elems_def)
  moreover have "heap_order ?lt (bh_els (Suc ?n) ?h)"
    using heap_order_insert [OF W H, of v] by (simp add: up(3))
  ultimately show ?thesis
    using h' False by (auto simp: bh_inv_def bh_elems_def)
qed

lemma butlast_fill_last:
  "x < length xs - 1 \<Longrightarrow>
   (butlast xs)[i := last xs] ! x = (if x = i then xs ! (length xs - 1) else xs ! x)"
  by (cases "xs = []") (auto simp: nth_list_update nth_butlast last_conv_nth)

text \<open>Dropping the last position, and filling position \<open>i\<close> from it.\<close>

lemma bh_wf_drop_last:
  assumes W: "bh_wf key (Suc m) h" and pos: "pos = bh_heap h ! m"
    and g: "g = h\<lparr>bh_keymap := (bh_keymap h)(key (bh_at h m) := None),
                   bh_store := (bh_store h)[pos := None], bh_size := m\<rparr>"
  shows "bh_wf key m g" "bh_els m g = butlast (bh_els (Suc m) h)"
proof -
  note P = bh_wfD(2) [OF W]
  have m: "m < bh_reserved h" using bh_wfD(1) [OF W] by simp
  have s: "pos < bh_reserved h" "bh_map h ! pos = m" using perm_pairD(3,4) [OF P m] pos by simp_all
  have ne: "bh_heap h ! x \<noteq> pos" if "x < m" for x
    using perm_pairD(4) [OF P, of x] s that m by auto
  have key: "key (bh_at h x) \<noteq> key (bh_at h m)" if "x < m" for x
    using bh_wf_inj [OF W] that by (force dest: inj_onD)
  have st: "bh_store g ! (bh_heap g ! x) = Some (bh_at h x)" if "x < m" for x
    using bh_wf_store [OF W, of x] ne [of x] that by (simp add: g)
  show "bh_wf key m g"
  proof (rule bh_wfI(1) [of g m "bh_at h", OF _ _ _ st])
    fix x assume x: "x < m"
    show "bh_keymap g (key (bh_at h x)) = Some (bh_heap g ! x)"
      using bh_wf_keymap_at [OF W, of x] key [of x] x by (simp add: g)
  next
    fix j assume j: "j < bh_reserved g" "bh_store g ! j \<noteq> None"
    then have "j \<noteq> pos" using s(1) bh_wfD(3) [OF W] by (auto simp: g)
    with j bh_wfD(4) [OF W, of j] perm_pair_conv(2) [OF P, of j] pos
    show "bh_map g ! j < m" by (auto simp: g less_Suc_eq)
  next
    show "dom (bh_keymap g) \<subseteq> (\<lambda>x. key (bh_at h x)) ` {..<m}"
      using bh_wf_dom [OF W] by (auto simp: g less_Suc_eq)
  qed (use P m bh_wfD(3) [OF W] in \<open>simp_all add: g\<close>)
  have "bh_at g x = bh_at h x" if "x < m" for x using st [OF that] by (simp add: bh_at_def)
  then have "bh_els m g = bh_els m h" by (simp add: bh_els_def)
  then show "bh_els m g = butlast (bh_els (Suc m) h)" by (simp add: bh_els_Suc)
qed

text \<open>\<open>erase_at_\<close> empties the slot and unbinds the key before it swaps; the order is irrelevant.\<close>

lemma bh_erase_swap:
  assumes W: "bh_wf key (Suc m) h" and i: "i < m" and pos: "pos = bh_heap h ! i"
    and g: "g = bh_swap_elements i m (h\<lparr>bh_keymap := (bh_keymap h)(key (bh_at h i) := None),
                   bh_store := (bh_store h)[pos := None], bh_size := m\<rparr>)"
  shows "bh_wf key m g" "bh_els m g = (butlast (bh_els (Suc m) h))[i := last (bh_els (Suc m) h)]"
    "bh_size g = m"
proof -
  let ?h = "bh_swap_elements i m h"
  note sw = bh_swap_wf [OF W, of i m]
  have m: "i < Suc m" "m < Suc m" "m < bh_reserved h" "i < length (bh_heap h)" "m < length (bh_heap h)"
    using i bh_wfD(1) [OF W] perm_pairD(1) [OF bh_wfD(2) [OF W]] by auto
  have hm: "bh_heap ?h ! m = pos" using m pos by (simp add: nth_swap_nth)
  then have at: "bh_at ?h m = bh_at h i" using pos by (simp add: bh_at_def)
  have g': "g = ?h\<lparr>bh_keymap := (bh_keymap ?h)(key (bh_at ?h m) := None),
      bh_store := (bh_store ?h)[pos := None], bh_size := m\<rparr>"
    unfolding g at by (simp add: bh_swap_elements_def Let_def)
  have e: "bh_els (Suc m) ?h = swap_nth (bh_els (Suc m) h) i m" using sw(2) m by simp
  show "bh_wf key m g" using bh_wf_drop_last(1) [OF sw(1) hm [symmetric] g'] m by simp
  have "bh_els m g = butlast (swap_nth (bh_els (Suc m) h) i m)"
    using bh_wf_drop_last(2) [OF sw(1) hm [symmetric] g'] m e by simp
  also have "\<dots> = (butlast (bh_els (Suc m) h))[i := last (bh_els (Suc m) h)]"
    using m i by (intro nth_equalityI) (auto simp: nth_butlast nth_swap_nth butlast_fill_last)
  finally show "bh_els m g = (butlast (bh_els (Suc m) h))[i := last (bh_els (Suc m) h)]" .
  show "bh_size g = m" by (simp add: g)
qed

lemma bh_erase_at_ok:
  assumes W: "strict_weak_order (\<lambda>a b. cmp (val a) (val b))" and I: "bh_inv cmp val key h"
    and i: "i < bh_size h"
  shows "\<exists>h'. bh_erase_at cmp val key (bh_heap h ! i) h = Some h' \<and> bh_inv cmp val key h' \<and>
    bh_elems h' = bh_elems h - {#bh_at h i#}"
proof -
  let ?lt = "\<lambda>a b. cmp (val a) (val b)" and ?pos = "bh_heap h ! i" and ?n = "bh_size h"
  obtain m where m: "?n = Suc m" using i by (cases "?n") auto
  let ?k = "key (bh_at h i)"
  let ?h1 = "h\<lparr>bh_keymap := (bh_keymap h)(?k := None), bh_store := (bh_store h)[?pos := None],
    bh_size := m\<rparr>"
  let ?xs = "bh_els (Suc m) h"
  have wf: "bh_wf key (Suc m) h" and n: "Suc m < bh_reserved h" and H: "heap_order ?lt ?xs"
    using I m by (simp_all add: bh_inv_def)
  have im: "i < Suc m" "i < bh_reserved h" using i m n by simp_all
  have mp: "bh_map h ! ?pos = i" using perm_pairD(4) [OF bh_wfD(2) [OF wf] im(2)] .
  have k: "key (the (bh_store h ! ?pos)) = ?k" by (simp add: bh_at_def)
  have some: "bh_keymap h ?k \<noteq> None" using bh_wf_keymap_at [OF wf im(1)] by simp
  have last: "mset ?xs = add_mset (bh_at h m) (mset (bh_els m h))" by (simp add: bh_els_Suc)
  obtain g where g: "bh_erase_at cmp val key ?pos h = bh_try_shrink key g" "bh_wf key m g"
    "bh_size g = m" "bh_reserved g = bh_reserved h" "heap_order ?lt (bh_els m g)"
    "mset (bh_els m g) = mset ?xs - {#bh_at h i#}"
  proof (cases "i < m")
    case False
    then have i: "i = m" using im by simp
    have "bh_erase_at cmp val key ?pos h = bh_try_shrink key ?h1"
      using some k mp i m by (auto simp: bh_erase_at_def Let_def)
    moreover have d: "bh_wf key m ?h1" "bh_els m ?h1 = butlast ?xs"
      using bh_wf_drop_last [OF wf refl, of ?h1] i by simp_all
    moreover have "heap_order ?lt (butlast ?xs)"
      using H le_less_trans [OF parent_le] by (auto simp: heap_order_def nth_butlast)
    ultimately show thesis using that [of ?h1] last i by (simp add: bh_els_Suc)
  next
    case True
    let ?g = "bh_swap_elements i m ?h1"
    let ?u = "bh_heap_up cmp val i ?g"
    let ?d = "bh_heap_down cmp val (fst ?u) (snd ?u)"
    note s = bh_erase_swap [OF wf True refl refl]
    have "bh_erase_at cmp val key ?pos h = bh_try_shrink key ?d"
      using some k mp True m by (auto simp: bh_erase_at_def Let_def split_beta)
    moreover note u = bh_heap_up_sift [OF s(1) True, of cmp val]
    moreover note d = bh_heap_down_sift [of key m "snd ?u" cmp val "fst ?u"]
    ultimately have "bh_wf key m ?d" "bh_size ?d = m" "bh_reserved ?d = bh_reserved h"
      using s(3) by simp_all
    have e: "bh_els m ?d = sift_down ?lt (fst ?u) (bh_els m (snd ?u))" using u d s(3) by simp
    have up: "(fst ?u, bh_els m (snd ?u)) = sift_up ?lt i ((butlast ?xs)[i := last ?xs])"
      using u s(2) by simp
    have "heap_order ?lt (bh_els m ?d)"
      using heap_order_replace [OF W H, of i] True by (simp add: e up [symmetric])
    moreover have "mset (bh_els m ?d) = mset ((butlast ?xs)[i := last ?xs])"
      using sift_up_perm [of i "(butlast ?xs)[i := last ?xs]" ?lt] True
      by (simp add: e sift_down_perm up [symmetric])
    moreover have "\<dots> = mset ?xs - {#bh_at h i#}"
      using True bh_at_in_els [OF True, of h] by (simp add: bh_els_Suc mset_update)
    ultimately show thesis
      using that [of ?d] \<open>bh_erase_at cmp val key ?pos h = bh_try_shrink key ?d\<close> \<open>bh_wf key m ?d\<close>
        \<open>bh_size ?d = m\<close> \<open>bh_reserved ?d = bh_reserved h\<close> by simp
  qed
  from bh_try_shrink_ok [OF g(2) g(3) [symmetric]] n g(4) obtain h' where
    "bh_try_shrink key g = Some h'" "bh_wf key m h'" "bh_els m h' = bh_els m g" "bh_size h' = m"
    "m < bh_reserved h'" by auto
  with g m show ?thesis by (simp add: bh_inv_def bh_elems_def)
qed

lemma bh_top_ok:
  assumes W: "strict_weak_order (\<lambda>a b. cmp (val a) (val b))" and I: "bh_inv cmp val key h"
    and ne: "bh_elems h \<noteq> {#}"
  shows "bh_top h = Inr (bh_at h 0) \<and> 0 < bh_size h \<and> bh_at h 0 \<in># bh_elems h \<and>
    (\<forall>b \<in># bh_elems h. \<not> cmp (val b) (val (bh_at h 0)))"
proof -
  have n: "0 < bh_size h" using ne by (cases "bh_size h") (auto simp: bh_elems_def bh_els_def)
  have H: "heap_order (\<lambda>a b. cmp (val a) (val b)) (bh_els (bh_size h) h)"
    using I by (simp add: bh_inv_def)
  have "\<not> cmp (val b) (val (bh_at h 0))" if "b \<in> set (bh_els (bh_size h) h)" for b
    using heap_order_least [OF W H] that n by (auto simp: in_set_conv_nth)
  with n show ?thesis by (auto simp: bh_top_def bh_elems_def intro: bh_at_in_els)
qed

lemma bh_do_erase_key_ok:
  assumes W: "strict_weak_order (\<lambda>a b. cmp (val a) (val b))" and I: "bh_inv cmp val key h"
    and i: "i < bh_size h"
  shows "\<exists>h'. bh_do_erase_key cmp val key (key (bh_at h i)) h = Some h' \<and> bh_inv cmp val key h' \<and>
    bh_elems h' = bh_elems h - {#bh_at h i#}"
proof -
  have "bh_wf key (bh_size h) h" using I by (simp add: bh_inv_def)
  from bh_wf_keymap_at [OF this i] have k: "bh_keymap h (key (bh_at h i)) = Some (bh_heap h ! i)" .
  have "(bh_keymap h)(key (bh_at h i) \<mapsto> bh_heap h ! i) = bh_keymap h" using k by auto
  with k bh_erase_at_ok [OF assms] show ?thesis by (simp add: bh_do_erase_key_def)
qed

lemma bh_pop_ok:
  assumes W: "strict_weak_order (\<lambda>a b. cmp (val a) (val b))" and I: "bh_inv cmp val key h"
    and n: "0 < bh_size h"
  shows "\<exists>h'. bh_pop cmp val key h = Some h' \<and> bh_inv cmp val key h' \<and>
    bh_elems h' = bh_elems h - {#bh_at h 0#}"
  using bh_do_erase_key_ok [OF W I n] n by (simp add: bh_pop_def bh_do_erase_def)

lemma bh_elems_remove:
  assumes I: "bh_inv cmp val key h" and i: "i < bh_size h"
  shows "filter_mset (\<lambda>a. key a \<noteq> key (bh_at h i)) (bh_elems h) = bh_elems h - {#bh_at h i#}"
proof -
  let ?xs = "bh_els (bh_size h) h" and ?v = "bh_at h i"
  have "bh_wf key (bh_size h) h" using I by (simp add: bh_inv_def)
  then have d: "distinct (map key ?xs)" by (rule bh_wf_distinct_keys)
  have v: "?v \<in> set ?xs" using i by (rule bh_at_in_els)
  have "filter (\<lambda>a. key a \<noteq> key ?v) ?xs = filter (\<lambda>a. a \<noteq> ?v) ?xs"
    using d v by (intro filter_cong) (auto simp: distinct_map dest: inj_onD)
  also have "\<dots> = remove1 ?v ?xs"
    using d by (simp add: distinct_map distinct_remove1_removeAll removeAll_filter_not_eq) metis
  finally show ?thesis by (simp add: bh_elems_def flip: mset_filter)
qed

lemma bh_erase_key_ok:
  assumes W: "strict_weak_order (\<lambda>a b. cmp (val a) (val b))" and I: "bh_inv cmp val key h"
  shows "\<exists>h'. bh_erase_key cmp val key k h =
      Some ((if k \<in> key ` set_mset (bh_elems h) then 1 else 0), h') \<and> bh_inv cmp val key h' \<and>
    bh_elems h' = filter_mset (\<lambda>a. key a \<noteq> k) (bh_elems h)"
proof -
  have wf: "bh_wf key (bh_size h) h" using I by (simp add: bh_inv_def)
  note K = bh_wf_keymap_None [OF wf, of k]
  show ?thesis
  proof (cases "k \<in> key ` set (bh_els (bh_size h) h)")
    case False
    then have "filter_mset (\<lambda>a. key a \<noteq> k) (bh_elems h) = bh_elems h"
      by (auto simp: bh_elems_def filter_mset_eq_conv)
    with False K I show ?thesis by (auto simp: bh_erase_key_def bh_key_count_def bh_elems_def)
  next
    case True
    then obtain i where i: "i < bh_size h" "k = key (bh_at h i)" by (auto simp: bh_els_def)
    from bh_do_erase_key_ok [OF W I i(1)] i(2) obtain h' where
      "bh_do_erase_key cmp val key k h = Some h'" "bh_inv cmp val key h'"
      "bh_elems h' = bh_elems h - {#bh_at h i#}" by auto
    with True K bh_elems_remove [OF I i(1)] i(2) show ?thesis
      by (simp add: bh_erase_key_def bh_key_count_def bh_elems_def)
  qed
qed

lemma length_destroy [simp]:
  "length (fold (\<lambda>i st. st[hp ! i := None]) [0..<n] st) = length st"
  by (induction n) auto

lemma destroy_nth:
  "j < length st \<Longrightarrow> fold (\<lambda>i st. st[hp ! i := None]) [0..<n] st ! j =
   (if \<exists>i < n. hp ! i = j then None else st ! j)"
proof (induction n)
  case 0
  then show ?case by simp
next
  case (Suc n)
  show ?case
  proof (cases "hp ! n = j")
    case True
    then show ?thesis using Suc.prems by auto
  next
    case False
    then have "(\<exists>i < Suc n. hp ! i = j) = (\<exists>i < n. hp ! i = j)" by (auto simp: less_Suc_eq)
    with False Suc show ?thesis by simp
  qed
qed

lemma bh_clear_ok:
  assumes I: "bh_inv cmp val key h"
  shows "bh_inv cmp val key (bh_clear h) \<and> bh_elems (bh_clear h) = {#}"
proof -
  have W: "bh_wf key (bh_size h) h" and r: "bh_size h < bh_reserved h"
    using I by (simp_all add: bh_inv_def)
  note P = bh_wfD(2) [OF W]
  have "fold (\<lambda>i st. st[bh_heap h ! i := None]) [0..<bh_size h] (bh_store h) ! j = None"
    if j: "j < bh_reserved h" for j
  proof -
    have "bh_store h ! j = None" if "\<not> (\<exists>i < bh_size h. bh_heap h ! i = j)"
      using that bh_wfD(4) [OF W j] perm_pair_conv(2) [OF P j] by blast
    then show ?thesis using j bh_wfD(3) [OF W] by (simp add: destroy_nth)
  qed
  then have "bh_wf key 0 (bh_clear h)"
    using P bh_wfD(3) [OF W]
    by (intro bh_wfI(1) [where el = undefined]; cases "16 < bh_reserved h")
      (auto simp: bh_clear_def Let_def perm_pair_id)
  moreover have "bh_size (bh_clear h) = 0" "0 < bh_reserved (bh_clear h)"
    using r by (auto simp: bh_clear_def Let_def)
  ultimately show ?thesis by (simp add: bh_inv_def bh_elems_def bh_els_def heap_order_def)
qed

lemma bh_new_ok: "bh_inv cmp val key (bh_new r) \<and> bh_elems (bh_new r) = {#}"
  by (simp add: bh_inv_def bh_elems_def bh_els_def heap_order_def bh_wf_new)

section \<open>The heap as an erasable queue\<close>

lemma bh_erasable_queue:
  assumes W: "strict_weak_order (\<lambda>a b. cmp (val a) (val b))"
  shows "erasable_queue (\<lambda>a b. cmp (val a) (val b)) key (bh_inv cmp val key) bh_elems (bh_new r)
    (bh_insert cmp val key) bh_top (bh_pop cmp val key) (bh_erase_key cmp val key)"
proof (intro erasable_queue.intro prio_queue.intro prio_queue_axioms.intro
    erasable_queue_axioms.intro W bh_new_ok bh_insert_ok bh_erase_key_ok)
  fix h assume "bh_inv cmp val key h" "bh_elems h = {#}"
  then show "\<exists>e. bh_top h = Inl e" by (auto simp: bh_top_def)
next
  fix h assume "bh_inv cmp val key h" "bh_elems h \<noteq> {#}"
  from bh_top_ok [OF W this] show "\<exists>a. bh_top h = Inr a \<and> a \<in># bh_elems h \<and>
      (\<forall>b \<in># bh_elems h. \<not> cmp (val b) (val a))" by blast
next
  fix h and a assume I: "bh_inv cmp val key h" and "bh_top h = Inr a"
  then have "0 < bh_size h" "a = bh_at h 0" by (auto simp: bh_top_def split: if_splits)
  with bh_pop_ok [OF W I] show "\<exists>h'. bh_pop cmp val key h = Some h' \<and> bh_inv cmp val key h' \<and>
      bh_elems h' = bh_elems h - {#a#}" by simp
qed

text \<open>The default template arguments: elements ordered and identified by themselves; and a
  table of (key, priority) pairs.\<close>

interpretation int_heap: erasable_queue "\<lambda>a b. id a < (id b :: int)" id "bh_inv (<) id id" bh_elems
  "bh_new 16" "bh_insert (<) id id" bh_top "bh_pop (<) id id" "bh_erase_key (<) id id"
  by (rule bh_erasable_queue [of "(<)"]) (rule swo_vimage [OF swo_less])

interpretation pair_heap: erasable_queue "\<lambda>a b. snd a < (snd b :: int)" "fst :: nat \<times> int \<Rightarrow> nat"
  "bh_inv (<) snd fst" bh_elems "bh_new 16" "bh_insert (<) snd fst" bh_top "bh_pop (<) snd fst"
  "bh_erase_key (<) snd fst"
  by (rule bh_erasable_queue [of "(<)"]) (rule swo_vimage [OF swo_less])

section \<open>Sequences of operations\<close>

datatype ('a, 'k) heap_op = Insert 'a | Erase 'a | Erase_Key 'k | Pop | Clear

fun bh_step :: "('v \<Rightarrow> 'v \<Rightarrow> bool) \<Rightarrow> ('a \<Rightarrow> 'v) \<Rightarrow> ('a \<Rightarrow> 'k) \<Rightarrow> ('a, 'k) heap_op \<Rightarrow>
    ('a, 'k) bheap \<Rightarrow> ('a, 'k) bheap option" where
  "bh_step cmp val key (Insert v) h = bh_insert cmp val key v h"
| "bh_step cmp val key (Erase v) h = map_option snd (bh_erase cmp val key v h)"
| "bh_step cmp val key (Erase_Key k) h = map_option snd (bh_erase_key cmp val key k h)"
| "bh_step cmp val key Pop h = bh_pop cmp val key h"
| "bh_step cmp val key Clear h = Some (bh_clear h)"

fun bh_run :: "('v \<Rightarrow> 'v \<Rightarrow> bool) \<Rightarrow> ('a \<Rightarrow> 'v) \<Rightarrow> ('a \<Rightarrow> 'k) \<Rightarrow> ('a, 'k) heap_op list \<Rightarrow>
    ('a, 'k) bheap \<Rightarrow> ('a, 'k) bheap option" where
  "bh_run cmp val key [] h = Some h"
| "bh_run cmp val key (op # ops) h = do { h' \<leftarrow> bh_step cmp val key op h; bh_run cmp val key ops h' }"

text \<open>What a sequence of operations may do to the abstract contents.\<close>

inductive heap_spec :: "('a \<Rightarrow> 'a \<Rightarrow> bool) \<Rightarrow> ('a \<Rightarrow> 'k) \<Rightarrow> ('a, 'k) heap_op list \<Rightarrow>
    'a multiset \<Rightarrow> 'a multiset \<Rightarrow> bool" for lt key where
  spec_end: "heap_spec lt key [] S S"
| spec_insert: "key v \<notin> key ` set_mset S \<Longrightarrow> heap_spec lt key ops (add_mset v S) T \<Longrightarrow>
    heap_spec lt key (Insert v # ops) S T"
| spec_insert_old: "key v \<in> key ` set_mset S \<Longrightarrow> heap_spec lt key ops S T \<Longrightarrow>
    heap_spec lt key (Insert v # ops) S T"
| spec_erase: "heap_spec lt key ops (filter_mset (\<lambda>a. key a \<noteq> key v) S) T \<Longrightarrow>
    heap_spec lt key (Erase v # ops) S T"
| spec_erase_key: "heap_spec lt key ops (filter_mset (\<lambda>a. key a \<noteq> k) S) T \<Longrightarrow>
    heap_spec lt key (Erase_Key k # ops) S T"
| spec_pop: "a \<in># S \<Longrightarrow> \<forall>b \<in># S. \<not> lt b a \<Longrightarrow> heap_spec lt key ops (S - {#a#}) T \<Longrightarrow>
    heap_spec lt key (Pop # ops) S T"
| spec_pop_empty: "heap_spec lt key ops {#} T \<Longrightarrow> heap_spec lt key (Pop # ops) {#} T"
| spec_clear: "heap_spec lt key ops {#} T \<Longrightarrow> heap_spec lt key (Clear # ops) S T"

lemma bh_step_ok:
  assumes W: "strict_weak_order (\<lambda>a b. cmp (val a) (val b))" and I: "bh_inv cmp val key h"
  shows "\<exists>h'. bh_step cmp val key op h = Some h' \<and> bh_inv cmp val key h' \<and>
    (\<forall>ops T. heap_spec (\<lambda>a b. cmp (val a) (val b)) key ops (bh_elems h') T \<longrightarrow>
       heap_spec (\<lambda>a b. cmp (val a) (val b)) key (op # ops) (bh_elems h) T)"
proof (cases op)
  case (Insert v)
  show ?thesis
  proof (cases "key v \<in> key ` set_mset (bh_elems h)")
    case True
    with bh_insert_ok [OF assms, of v] spec_insert_old [OF True] show ?thesis
      by (simp add: Insert) metis
  next
    case False
    with bh_insert_ok [OF assms, of v] spec_insert [OF False] show ?thesis
      by (simp add: Insert) metis
  qed
next
  case (Erase v)
  have "bh_erase cmp val key v h = bh_erase_key cmp val key (key v) h"
    by (simp add: bh_erase_def bh_erase_key_def bh_count_def bh_do_erase_def)
  with bh_erase_key_ok [OF assms, of "key v"] show ?thesis by (auto simp: Erase intro: spec_erase)
next
  case (Erase_Key k)
  from bh_erase_key_ok [OF assms, of k] show ?thesis by (auto simp: Erase_Key intro: spec_erase_key)
next
  case Pop
  show ?thesis
  proof (cases "bh_elems h = {#}")
    case True
    then have "bh_size h = 0" by simp
    then show ?thesis
      using I by (simp add: Pop bh_pop_def) (simp only: True, blast intro: spec_pop_empty)
  next
    case False
    note tp = bh_top_ok [OF assms False]
    then have n: "0 < bh_size h" by blast
    from bh_pop_ok [OF assms n] obtain h' where
      "bh_pop cmp val key h = Some h'" "bh_inv cmp val key h'" "bh_elems h' = bh_elems h - {#bh_at h 0#}"
      by blast
    with tp show ?thesis by (auto simp: Pop intro: spec_pop)
  qed
next
  case Clear
  from bh_clear_ok [OF I] have "bh_inv cmp val key (bh_clear h)" "bh_elems (bh_clear h) = {#}"
    by blast+
  then show ?thesis by (simp add: Clear spec_clear del: bh_elems_empty)
qed

lemma bh_run_ok:
  assumes W: "strict_weak_order (\<lambda>a b. cmp (val a) (val b))"
  shows "bh_inv cmp val key h \<Longrightarrow> \<exists>h'. bh_run cmp val key ops h = Some h' \<and> bh_inv cmp val key h' \<and>
    heap_spec (\<lambda>a b. cmp (val a) (val b)) key ops (bh_elems h) (bh_elems h')"
proof (induction ops arbitrary: h)
  case Nil
  then show ?case by (auto intro: spec_end)
next
  case (Cons op ops)
  from bh_step_ok [OF W Cons.prems, of op] obtain h1 where
    h1: "bh_step cmp val key op h = Some h1" "bh_inv cmp val key h1"
      "\<forall>ops T. heap_spec (\<lambda>a b. cmp (val a) (val b)) key ops (bh_elems h1) T \<longrightarrow>
         heap_spec (\<lambda>a b. cmp (val a) (val b)) key (op # ops) (bh_elems h) T" by blast
  from Cons.IH [OF h1(2)] obtain h' where "bh_run cmp val key ops h1 = Some h'"
    "bh_inv cmp val key h'" "heap_spec (\<lambda>a b. cmp (val a) (val b)) key ops (bh_elems h1) (bh_elems h')"
    by blast
  with h1 show ?case by auto
qed

section \<open>Properties\<close>

text \<open>C6: every sequence of insert, erase, erase_key, pop and clear on a new \<open>binary_heap\<close> runs
  without a failed assertion or an access outside its arrays, whatever reallocations it causes;
  the elements change as the abstract heap allows (an insert of a known key is ignored, an
  erase removes the element with the key, a pop removes a least element), \<open>heap_\<close> and \<open>map_\<close>
  stay inverse to each other, the constructed slots are those of the elements, and the element
  at the root is a least one.\<close>

theorem binary_heap_refines_spec:
  assumes "strict_weak_order (\<lambda>a b. cmp (val a) (val b))"
  shows "\<exists>h. bh_run cmp val key ops (bh_new r) = Some h \<and> bh_wf key (bh_size h) h \<and>
    bh_size h < bh_reserved h \<and>
    heap_spec (\<lambda>a b. cmp (val a) (val b)) key ops {#} (bh_elems h) \<and>
    (0 < bh_size h \<longrightarrow> bh_top h = Inr (bh_at h 0) \<and>
       (\<forall>b \<in># bh_elems h. \<not> cmp (val b) (val (bh_at h 0))))"
proof -
  from bh_run_ok [of cmp val, OF assms, of key "bh_new r" ops] bh_new_ok obtain h where
    h: "bh_run cmp val key ops (bh_new r) = Some h" "bh_inv cmp val key h"
      "heap_spec (\<lambda>a b. cmp (val a) (val b)) key ops {#} (bh_elems h)" by metis
  have "bh_wf key (bh_size h) h" "bh_size h < bh_reserved h" using h(2) by (simp_all add: bh_inv_def)
  moreover have "bh_top h = Inr (bh_at h 0) \<and> (\<forall>b \<in># bh_elems h. \<not> cmp (val b) (val (bh_at h 0)))"
    if "0 < bh_size h"
    using bh_top_ok [OF assms h(2)] that by simp
  ultimately show ?thesis using h(1,3) by auto
qed

theorem binary_heap_refines_spec_witness:
  "\<exists>h. bh_run (<) snd fst [Insert (1::nat, 5::int), Insert (2, 3), Insert (1, 9), Pop, Erase_Key 7]
     (bh_new 16) = Some h \<and> bh_wf fst (bh_size h) h"
  using binary_heap_refines_spec [of "(<)" "snd :: nat \<times> int \<Rightarrow> int", OF swo_vimage [OF swo_less], of fst
      "[Insert (1, 5), Insert (2, 3), Insert (1, 9), Pop, Erase_Key 7]" 16] by blast

text \<open>filling a \<open>binary_heap\<close> with elements of distinct keys and popping them all returns them
  sorted by value, and no \<open>top\<close> or \<open>pop\<close> on the way fails.\<close>

theorem binary_heap_sorts:
  assumes "strict_weak_order (\<lambda>a b. cmp (val a) (val b))" "distinct (map key vs)"
  shows "\<exists>h xs. fill_queue (bh_insert cmp val key) vs (bh_new r) = Some h \<and>
    drain_queue bh_top (bh_pop cmp val key) (length vs) h = Some xs \<and> mset xs = mset vs \<and>
    sorted_wrt (\<lambda>a b. \<not> cmp (val b) (val a)) xs"
  using prio_queue.sort_ok [OF erasable_queue.axioms(1) [OF bh_erasable_queue [of cmp val, OF assms(1)]] assms(2)] .

theorem binary_heap_sorts_witness:
  "\<exists>h xs. fill_queue (bh_insert (<) snd fst) [(1::nat, 5::int), (2, 3), (3, 4)] (bh_new 16) = Some h \<and>
    drain_queue bh_top (bh_pop (<) snd fst) (length [(1::nat, 5::int), (2, 3), (3, 4)]) h = Some xs \<and>
    mset xs = mset [(1, 5), (2, 3), (3, 4)] \<and> sorted_wrt (\<lambda>a b. \<not> snd b < snd a) xs"
  by (rule binary_heap_sorts [of "(<)" "snd :: nat \<times> int \<Rightarrow> int", OF swo_vimage [OF swo_less]]) simp

text \<open>changing the priority of a key in a reachable heap, by \<open>erase_key\<close> and \<open>insert\<close>, leaves
  exactly one element with the key, the new one, and the others as they were.\<close>

theorem binary_heap_replace_key:
  assumes "strict_weak_order (\<lambda>a b. cmp (val a) (val b))"
    and "bh_run cmp val key ops (bh_new r) = Some h"
  shows "\<exists>h'. replace_key key (bh_erase_key cmp val key) (bh_insert cmp val key) v h = Some h' \<and>
    bh_wf key (bh_size h') h' \<and>
    bh_elems h' = add_mset v (filter_mset (\<lambda>a. key a \<noteq> key v) (bh_elems h))"
proof -
  have "bh_inv cmp val key h"
    using bh_run_ok [of cmp val, OF assms(1), of key "bh_new r" ops] assms(2) bh_new_ok by force
  from erasable_queue.replace_ok [OF bh_erasable_queue [of cmp val, OF assms(1)] this, of v]
  show ?thesis unfolding bh_inv_def by blast
qed

theorem binary_heap_replace_key_witness:
  "\<exists>h h'. bh_run (<) snd fst [Insert (1::nat, 5::int), Insert (2, 3)] (bh_new 16) = Some h \<and>
    replace_key fst (bh_erase_key (<) snd fst) (bh_insert (<) snd fst) (1, 1) h = Some h' \<and>
    bh_elems h' = add_mset (1, 1) (filter_mset (\<lambda>a. fst a \<noteq> fst (1::nat, 1::int)) (bh_elems h))"
proof -
  have swo: "strict_weak_order (\<lambda>a b :: nat \<times> int. snd a < snd b)" by (rule swo_vimage [OF swo_less])
  obtain h where h: "bh_run (<) snd fst [Insert (1::nat, 5::int), Insert (2, 3)] (bh_new 16) = Some h"
    using bh_run_ok [of "(<)" "snd :: nat \<times> int \<Rightarrow> int", OF swo, of fst "bh_new 16"] bh_new_ok by blast
  from binary_heap_replace_key [of "(<)" "snd :: nat \<times> int \<Rightarrow> int", OF swo h, of "(1, 1)"] h show ?thesis by blast
qed

end
