(* ===== verification/Zi_Bits.thy ===== *)
theory Zi_Bits
  imports Zi_Prelude
begin

text \<open>
  The integer utilities: \<^verbatim>\<open>math/bit_reverse.hpp\<close> (table driven reversal of the bits of an
  integer), \<^verbatim>\<open>math/integral_log2.hpp\<close> (bit twiddling) and \<^verbatim>\<open>utility/binary_printer.hpp\<close>. The template
  argument \<open>T\<close> is the width of the word. \<open>int\<close> has 32 bits; a value of type \<open>int\<close> is a 32 bit
  word that is sign-extended (\<open>scast\<close>) when it is converted to a wider type.
\<close>

unbundle bit_operations_syntax

section \<open>Reversing bits\<close>

definition br_table :: "u8 list" where
  "br_table = [
    0x00, 0x80, 0x40, 0xC0, 0x20, 0xA0, 0x60, 0xE0,
    0x10, 0x90, 0x50, 0xD0, 0x30, 0xB0, 0x70, 0xF0,
    0x08, 0x88, 0x48, 0xC8, 0x28, 0xA8, 0x68, 0xE8,
    0x18, 0x98, 0x58, 0xD8, 0x38, 0xB8, 0x78, 0xF8,
    0x04, 0x84, 0x44, 0xC4, 0x24, 0xA4, 0x64, 0xE4,
    0x14, 0x94, 0x54, 0xD4, 0x34, 0xB4, 0x74, 0xF4,
    0x0C, 0x8C, 0x4C, 0xCC, 0x2C, 0xAC, 0x6C, 0xEC,
    0x1C, 0x9C, 0x5C, 0xDC, 0x3C, 0xBC, 0x7C, 0xFC,
    0x02, 0x82, 0x42, 0xC2, 0x22, 0xA2, 0x62, 0xE2,
    0x12, 0x92, 0x52, 0xD2, 0x32, 0xB2, 0x72, 0xF2,
    0x0A, 0x8A, 0x4A, 0xCA, 0x2A, 0xAA, 0x6A, 0xEA,
    0x1A, 0x9A, 0x5A, 0xDA, 0x3A, 0xBA, 0x7A, 0xFA,
    0x06, 0x86, 0x46, 0xC6, 0x26, 0xA6, 0x66, 0xE6,
    0x16, 0x96, 0x56, 0xD6, 0x36, 0xB6, 0x76, 0xF6,
    0x0E, 0x8E, 0x4E, 0xCE, 0x2E, 0xAE, 0x6E, 0xEE,
    0x1E, 0x9E, 0x5E, 0xDE, 0x3E, 0xBE, 0x7E, 0xFE,
    0x01, 0x81, 0x41, 0xC1, 0x21, 0xA1, 0x61, 0xE1,
    0x11, 0x91, 0x51, 0xD1, 0x31, 0xB1, 0x71, 0xF1,
    0x09, 0x89, 0x49, 0xC9, 0x29, 0xA9, 0x69, 0xE9,
    0x19, 0x99, 0x59, 0xD9, 0x39, 0xB9, 0x79, 0xF9,
    0x05, 0x85, 0x45, 0xC5, 0x25, 0xA5, 0x65, 0xE5,
    0x15, 0x95, 0x55, 0xD5, 0x35, 0xB5, 0x75, 0xF5,
    0x0D, 0x8D, 0x4D, 0xCD, 0x2D, 0xAD, 0x6D, 0xED,
    0x1D, 0x9D, 0x5D, 0xDD, 0x3D, 0xBD, 0x7D, 0xFD,
    0x03, 0x83, 0x43, 0xC3, 0x23, 0xA3, 0x63, 0xE3,
    0x13, 0x93, 0x53, 0xD3, 0x33, 0xB3, 0x73, 0xF3,
    0x0B, 0x8B, 0x4B, 0xCB, 0x2B, 0xAB, 0x6B, 0xEB,
    0x1B, 0x9B, 0x5B, 0xDB, 0x3B, 0xBB, 0x7B, 0xFB,
    0x07, 0x87, 0x47, 0xC7, 0x27, 0xA7, 0x67, 0xE7,
    0x17, 0x97, 0x57, 0xD7, 0x37, 0xB7, 0x77, 0xF7,
    0x0F, 0x8F, 0x4F, 0xCF, 0x2F, 0xAF, 0x6F, 0xEF,
    0x1F, 0x9F, 0x5F, 0xDF, 0x3F, 0xBF, 0x7F, 0xFF]"

text \<open>\<open>table_[ ( x >> k ) & 0xff ]\<close>\<close>

definition br_byte :: "'a::len word \<Rightarrow> nat \<Rightarrow> u8" where
  "br_byte x k = br_table ! unat (drop_bit k x AND 0xff)"

text \<open>In the 64 bit version only the first four lookups are cast to \<open>T\<close> before the shift; the
  others are shifted as an \<open>int\<close>.\<close>

definition br64 :: "u64 \<Rightarrow> u64" where
  "br64 x =
     push_bit 56 (ucast (br_byte x 0)) OR
     push_bit 48 (ucast (br_byte x 8)) OR
     push_bit 40 (ucast (br_byte x 16)) OR
     push_bit 32 (ucast (br_byte x 24)) OR
     scast (push_bit 24 (ucast (br_byte x 32) :: 32 word)) OR
     scast (push_bit 16 (ucast (br_byte x 40) :: 32 word)) OR
     scast (push_bit 8 (ucast (br_byte x 48) :: 32 word)) OR
     ucast (br_byte x 56)"

definition br32 :: "u32 \<Rightarrow> u32" where
  "br32 x =
     push_bit 24 (ucast (br_byte x 0)) OR
     push_bit 16 (ucast (br_byte x 8)) OR
     push_bit 8 (ucast (br_byte x 16)) OR
     ucast (br_byte x 24)"

definition br16 :: "u16 \<Rightarrow> u16" where
  "br16 x = push_bit 8 (ucast (br_byte x 0)) OR ucast (br_byte x 8)"

definition br8 :: "u8 \<Rightarrow> u8" where
  "br8 x = br_table ! unat x"

text \<open>\<open>reinterpret_cast\<close> to the unsigned type of the same width keeps the word.\<close>

definition br_signed :: "('a::len word \<Rightarrow> 'a word) \<Rightarrow> 'a word \<Rightarrow> 'a word" where
  "br_signed br x = br x"

definition br_width :: "('a::len word \<Rightarrow> 'a word) \<Rightarrow> 'a word \<Rightarrow> nat \<Rightarrow> 'a word" where
  "br_width br x width = drop_bit (LENGTH('a) - width) (br x)"

definition br_range :: "('a::len word \<Rightarrow> 'a word) \<Rightarrow> 'a word list \<Rightarrow> int \<Rightarrow> 'a word list option" where
  "br_range br xs width =
     (if width \<ge> 0
      then
        let shift = int LENGTH('a) - width
        in if shift \<ge> 0 then Some (map (\<lambda>x. drop_bit (nat shift) (br x)) xs) else None
      else Some (map br xs))"

lemma br_table_reverse: "br_table ! unat (b :: u8) = word_reverse b"
proof -
  have "\<forall>i \<in> set [0..<256]. br_table ! i = word_reverse (word_of_nat i :: u8)" by code_simp
  then have "br_table ! unat b = word_reverse (word_of_nat (unat b) :: u8)"
    using unat_u8_less [of b] by (simp del: word_of_nat_eq_iff of_nat_unat) 
  then show ?thesis by simp
qed

lemma and_ff: "(w :: 'a::len word) AND 0xff = take_bit 8 w"
proof -
  have "(0xff :: 'a word) = mask 8" by (simp add: mask_eq_exp_minus_1)
  then show ?thesis by (simp add: take_bit_eq_mask)
qed

lemma bit_br_byte:
  "bit (br_byte (x :: 'a::len word) k) n \<longleftrightarrow> n < 8 \<and> bit x (k + 7 - n)"
proof -
  have "unat (drop_bit k x AND 0xff) = unat (ucast (drop_bit k x) :: u8)"
    by (simp add: and_ff unsigned_take_bit_eq unsigned_ucast_eq)
  then have "br_byte x k = word_reverse (ucast (drop_bit k x) :: u8)"
    unfolding br_byte_def by (simp only: br_table_reverse)
  then show ?thesis
    by (auto simp: bit_simps)
qed

text \<open>A bit position as byte and offset.\<close>

lemma byte_offset: obtains q m :: nat where "n = 8 * q + m" "m < 8"
  using that [of "n div 8" "n mod 8"] by simp

lemma bit_br64:
  "bit (br64 x) n \<longleftrightarrow> n < 64 \<and> (bit x (63 - n) \<or> 32 \<le> n \<and> bit x 32)"
proof (cases "n < 64")
  case False
  then show ?thesis using bit_imp_le_length [of "br64 x" n] by auto
next
  case True
  obtain q m where n: "n = 8 * q + m" "m < 8" by (rule byte_offset)
  have "q = 0 \<or> q = 1 \<or> q = 2 \<or> q = 3 \<or> q = 4 \<or> q = 5 \<or> q = 6 \<or> q = 7" using n True by arith
  moreover have "7 \<le> m \<longleftrightarrow> m = 7" using n(2) by auto
  ultimately show ?thesis
    using n(2) by (elim disjE) (auto simp: n(1) br64_def bit_simps bit_br_byte min_def)
qed

lemma br32_reverse: "br32 x = word_reverse x"
proof (rule bit_word_eqI)
  fix n assume n32: "n < LENGTH(32)"
  obtain q m where n: "n = 8 * q + m" "m < 8" by (rule byte_offset)
  have "q = 0 \<or> q = 1 \<or> q = 2 \<or> q = 3" using n n32 by (simp add: less_eq_Suc_le) arith
  then show "bit (br32 x) n = bit (word_reverse x) n"
    using n(2) by (elim disjE) (auto simp: n(1) br32_def bit_simps bit_br_byte)
qed

lemma br16_reverse: "br16 x = word_reverse x"
proof (rule bit_word_eqI)
  fix n assume n16: "n < LENGTH(16)"
  obtain q m where n: "n = 8 * q + m" "m < 8" by (rule byte_offset)
  have "q = 0 \<or> q = 1" using n n16 by (simp add: less_eq_Suc_le) arith
  then show "bit (br16 x) n = bit (word_reverse x) n"
    using n(2) by (elim disjE) (auto simp: n(1) br16_def bit_simps bit_br_byte)
qed

lemma br8_reverse: "br8 x = word_reverse x"
  by (simp only: br8_def br_table_reverse)

lemma bit_br_width:
  assumes "br x = word_reverse x" "width \<le> LENGTH('a)"
  shows "bit (br_width br (x :: 'a::len word) width) n \<longleftrightarrow> n < width \<and> bit x (width - Suc n)"
  using assms by (auto simp: br_width_def bit_simps)

section \<open>Bit position of a power of two\<close>

definition bit_position :: "u64 \<Rightarrow> u64" where
  "bit_position y =
     (let z = (y - 1) AND 0x8080808080808080;
          z = z * 0x0202020202020202;
          z = drop_bit 53 z;
          p = drop_bit (unat z) y;
          p = p * 0x8040201008040201;
          p = p AND 0x8080808080808080;
          p = p * 0x120e0c0a08060402
      in drop_bit 56 p + z)"

definition step_a :: "u64 \<Rightarrow> u64" where
  "step_a x =
     (let c1 = 0x8080808080808080
      in (x OR NOT (NOT (x OR c1) + 0x0101010101010101)) AND c1)"

definition step_ab :: "u64 \<Rightarrow> u64" where
  "step_ab x = drop_bit 56 (drop_bit 7 (step_a x) * 0x8040201008040201)"

definition step_abc :: "u64 \<Rightarrow> u64" where
  "step_abc x = (let b = step_ab x in b AND - b)"

definition step_abcd :: "u64 \<Rightarrow> u64" where
  "step_abcd x =
     (let p = (step_abc x * 0x8040201008040201) AND 0x8080808080808080;
          q = p - 1;
          q = (p OR q) XOR drop_bit 7 q;
          r = (q AND x) * 0x0101010101010101;
          r = drop_bit 56 r;
          r = r * 0x8040201008040201;
          r = r AND 0x8080808080808080;
          r = r AND - r;
          r = drop_bit 7 r;
          r = r * 0x8040201008040201
      in drop_bit 7 p * drop_bit 56 r)"

definition int_log2 :: "u64 \<Rightarrow> u64" where
  "int_log2 x = step_abcd x"

text \<open>A 64 bit word from its bytes.\<close>

definition of_bytes :: "(nat \<Rightarrow> u8) \<Rightarrow> u64" where
  "of_bytes b =
     ucast (b 0) OR push_bit 8 (ucast (b 1)) OR push_bit 16 (ucast (b 2)) OR
     push_bit 24 (ucast (b 3)) OR push_bit 32 (ucast (b 4)) OR push_bit 40 (ucast (b 5)) OR
     push_bit 48 (ucast (b 6)) OR push_bit 56 (ucast (b 7))"

lemma byte_cases: "(q :: nat) < 8 \<Longrightarrow> q = 0 \<or> q = 1 \<or> q = 2 \<or> q = 3 \<or> q = 4 \<or> q = 5 \<or> q = 6 \<or> q = 7"
  by arith

lemma bit_of_bytes:
  "m < 8 \<Longrightarrow> bit (of_bytes b) (8 * q + m) \<longleftrightarrow> q < 8 \<and> bit (b q) m"
proof (cases "q < 8")
  case False
  then have "64 \<le> 8 * q + m" by simp
  then show ?thesis using bit_imp_le_length [of "of_bytes b" "8 * q + m"] False by auto
next
  case True
  assume "m < 8"
  then show ?thesis
    using byte_cases [OF True]
    by (elim disjE) (auto simp: of_bytes_def bit_simps dest: bit_imp_le_length)
qed

lemma of_bytes_eqI:
  assumes "\<And>q m. q < 8 \<Longrightarrow> m < 8 \<Longrightarrow> bit x (8 * q + m) = bit (b q) m"
  shows "x = of_bytes b"
proof (rule bit_word_eqI)
  fix n :: nat assume "n < LENGTH(64)"
  obtain q m where "n = 8 * q + m" "m < 8" by (rule byte_offset)
  moreover from this \<open>n < LENGTH(64)\<close> have "q < 8" by simp
  ultimately show "bit x n = bit (of_bytes b) n" using assms by (simp add: bit_of_bytes)
qed

lemma of_bytes_bytes: "of_bytes (\<lambda>i. ucast (drop_bit (8 * i) x)) = x"
  by (rule of_bytes_eqI [symmetric]) (simp add: bit_simps)

lemma of_bytes_bitwise:
  "of_bytes a OR of_bytes b = of_bytes (\<lambda>i. a i OR b i)"
  "of_bytes a AND of_bytes b = of_bytes (\<lambda>i. a i AND b i)"
  "NOT (of_bytes a) = of_bytes (\<lambda>i. NOT (a i))"
  by (rule of_bytes_eqI; simp add: bit_simps bit_of_bytes)+

lemma of_bytes_sum:
  "of_bytes b =
     ucast (b 0) + push_bit 8 (ucast (b 1)) + push_bit 16 (ucast (b 2)) +
     push_bit 24 (ucast (b 3)) + push_bit 32 (ucast (b 4)) + push_bit 40 (ucast (b 5)) +
     push_bit 48 (ucast (b 6)) + push_bit 56 (ucast (b 7))"
  unfolding of_bytes_def
  by (subst disjunctive_add [symmetric]; (auto simp: bit_simps dest: bit_imp_le_length)?)+

lemma ucast_plus_one: "(c :: u8) \<noteq> 0xff \<Longrightarrow> (ucast (c + 1) :: u64) = ucast c + 1"
proof -
  assume c: "c \<noteq> 0xff"
  have "1 + c \<noteq> 0"
  proof
    assume "1 + c = 0"
    then have "c = -1" by (metis add.commute eq_neg_iff_add_eq_0)
    with c show False by simp
  qed
  then have "unat (c + 1) = Suc (unat c)" by (metis add.commute unatSuc)
  then have "(word_of_nat (unat (c + 1)) :: u64) = word_of_nat (unat c) + 1" by simp
  then show ?thesis by (simp only: unsigned_of_nat of_nat_unat)
qed

lemma of_bytes_plus_ones:
  assumes "\<And>i. i < 8 \<Longrightarrow> c i \<noteq> (0xff :: u8)"
  shows "of_bytes c + 0x0101010101010101 = of_bytes (\<lambda>i. c i + 1)"
  using assms
  by (simp add: of_bytes_sum ucast_plus_one push_bit_add push_bit_eq_mult)

definition nonzero_bytes :: "(nat \<Rightarrow> bool) \<Rightarrow> u64" where
  "nonzero_bytes e = of_bytes (\<lambda>i. if e i then 0x80 else 0)"

lemma step_a_byte:
  "(b OR NOT (NOT (b OR 0x80) + 1)) AND 0x80 = (if b \<noteq> 0 then 0x80 else (0 :: u8))"
  "NOT (b OR 0x80) \<noteq> (0xff :: u8)"
proof -
  have "\<forall>i \<in> set [0..<256]. let b = word_of_nat i :: u8 in
      (b OR NOT (NOT (b OR 0x80) + 1)) AND 0x80 = (if b \<noteq> 0 then 0x80 else 0) \<and>
      NOT (b OR 0x80) \<noteq> 0xff" by code_simp
  then have "let b = word_of_nat (unat b) :: u8 in
      (b OR NOT (NOT (b OR 0x80) + 1)) AND 0x80 = (if b \<noteq> 0 then 0x80 else 0) \<and>
      NOT (b OR 0x80) \<noteq> 0xff"
    using unat_u8_less [of b] by (elim bspec) simp
  then show "(b OR NOT (NOT (b OR 0x80) + 1)) AND 0x80 = (if b \<noteq> 0 then 0x80 else 0)"
    "NOT (b OR 0x80) \<noteq> 0xff" by (simp_all add: Let_def)
qed

lemma step_a_of_bytes: "step_a (of_bytes b) = nonzero_bytes (\<lambda>i. b i \<noteq> 0)"
proof -
  have c1: "(0x8080808080808080 :: u64) = of_bytes (\<lambda>_. 0x80)" by code_simp
  show ?thesis
    by (simp only: step_a_def Let_def c1 of_bytes_bitwise of_bytes_plus_ones step_a_byte
        nonzero_bytes_def not_False_eq_True)
qed

text \<open>Multiplication by \<open>0x8040201008040201\<close> collects the low bits of the eight bytes, reversed.\<close>

lemma uint_drop_56: "uint (drop_bit 56 (word_of_int X :: u64)) = X mod 2 ^ 64 div 2 ^ 56"
  by (simp add: drop_bit_eq_div uint_div uint_word_of_int)

lemma drop_56_word:
  assumes "0 \<le> B" "B < 256" "0 \<le> C" "C < 2 ^ 56"
  shows "drop_bit 56 (word_of_int (2 ^ 64 * A + 2 ^ 56 * B + C) :: u64) = word_of_int B"
proof (rule word_uint_eqI)
  have "(2 ^ 64 * A + (2 ^ 56 * B + C)) mod 2 ^ 64 = 2 ^ 56 * B + C"
    using assms by (simp add: mod_pos_pos_trivial)
  moreover have "(2 ^ 56 * B + C) div 2 ^ 56 = B" using assms by simp
  ultimately have "(2 ^ 64 * A + 2 ^ 56 * B + C) mod 2 ^ 64 div 2 ^ 56 = B" by (simp only: add.assoc)
  then show "uint (drop_bit 56 (word_of_int (2 ^ 64 * A + 2 ^ 56 * B + C) :: u64)) =
      uint (word_of_int B :: u64)"
    unfolding uint_drop_56 using assms by (simp add: uint_word_of_int)
qed

definition rev_bits :: "(nat \<Rightarrow> bool) \<Rightarrow> u64" where
  "rev_bits e = word_of_int (of_bool (e 7) + 2 * of_bool (e 6) + 4 * of_bool (e 5) +
     8 * of_bool (e 4) + 16 * of_bool (e 3) + 32 * of_bool (e 2) + 64 * of_bool (e 1) +
     128 * of_bool (e 0))"

lemma step_ab_bits:
  assumes "step_a x = nonzero_bytes e"
  shows "step_ab x = rev_bits e"
proof -
  define a b c d f g h i where z: "a = (of_bool (e 0) :: int)" "b = (of_bool (e 1) :: int)"
    "c = (of_bool (e 2) :: int)" "d = (of_bool (e 3) :: int)" "f = (of_bool (e 4) :: int)"
    "g = (of_bool (e 5) :: int)" "h = (of_bool (e 6) :: int)" "i = (of_bool (e 7) :: int)"
  let ?E = "a + 2^8 * b + 2^16 * c + 2^24 * d + 2^32 * f + 2^40 * g + 2^48 * h + 2^56 * i"
  have bounds: "0 \<le> a" "a \<le> 1" "0 \<le> b" "b \<le> 1" "0 \<le> c" "c \<le> 1" "0 \<le> d" "d \<le> 1"
    "0 \<le> f" "f \<le> 1" "0 \<le> g" "g \<le> 1" "0 \<le> h" "h \<le> 1" "0 \<le> i" "i \<le> 1"
    by (simp_all add: z)
  have "drop_bit 7 (nonzero_bytes e) = of_bytes (\<lambda>i. of_bool (e i))"
    unfolding nonzero_bytes_def
  proof (rule of_bytes_eqI)
    fix q m :: nat assume qm: "q < 8" "m < 8"
    have 80: "bit (0x80 :: u8) n \<longleftrightarrow> n = 7" if "n < 8" for n using that
      by (auto simp: less_Suc_eq numeral_eq_Suc)
    show "bit (drop_bit 7 (of_bytes (\<lambda>i. if e i then 0x80 else 0))) (8 * q + m) =
        bit (of_bool (e q) :: u8) m"
    proof (cases m)
      case 0
      then have "7 + (8 * q + m) = 8 * q + 7" by simp
      then show ?thesis
        unfolding bit_drop_bit_eq o_def using 0 qm by (simp only: bit_of_bytes 80) (simp add: 80)
    next
      case (Suc k)
      then have "7 + (8 * q + m) = 8 * Suc q + k" and k: "k < 8" "k \<noteq> 7" using qm by simp_all
      then have "bit (drop_bit 7 (of_bytes (\<lambda>i. if e i then 0x80 else 0))) (8 * q + m) =
          (Suc q < 8 \<and> bit (if e (Suc q) then 0x80 else 0 :: u8) k)"
        unfolding bit_drop_bit_eq o_def by (simp only: bit_of_bytes)
      then show ?thesis using Suc k 80 [OF k(1)] by simp
    qed
  qed
  also have "\<dots> = word_of_int ?E" by (simp add: of_bytes_sum z push_bit_eq_mult)
  finally have "drop_bit 7 (step_a x) * 0x8040201008040201 = word_of_int (?E * 0x8040201008040201)"
    by (simp add: assms)
  also have "?E * 0x8040201008040201 =
    2 ^ 64 * (b * 2^7 + c * (2^6 + 2^15) + d * (2^5 + 2^14 + 2^23) +
       f * (2^4 + 2^13 + 2^22 + 2^31) + g * (2^3 + 2^12 + 2^21 + 2^30 + 2^39) +
       h * (2^2 + 2^11 + 2^20 + 2^29 + 2^38 + 2^47) +
       i * (2 + 2^10 + 2^19 + 2^28 + 2^37 + 2^46 + 2^55)) +
    2 ^ 56 * (i + 2 * h + 4 * g + 8 * f + 16 * d + 32 * c + 64 * b + 128 * a) +
    (a * (1 + 2^9 + 2^18 + 2^27 + 2^36 + 2^45 + 2^54) + b * (2^8 + 2^17 + 2^26 + 2^35 + 2^44 + 2^53) +
     c * (2^16 + 2^25 + 2^34 + 2^43 + 2^52) + d * (2^24 + 2^33 + 2^42 + 2^51) +
     f * (2^32 + 2^41 + 2^50) + g * (2^40 + 2^49) + h * 2^48)"
    by (simp add: algebra_simps)
  finally show ?thesis
    unfolding step_ab_def
    using bounds by (simp only: , subst drop_56_word) (auto simp: rev_bits_def z add_ac)
qed

text \<open>\<open>x & -x\<close> isolates the lowest bit.\<close>

lemma and_minus_odd:
  assumes "bit (y :: 'a::len word) 0"
  shows "y AND - y = 1"
proof -
  have "unset_bit 0 y OR 1 = y" using assms
    by (intro bit_word_eqI) (auto simp: bit_simps)
  moreover have "unset_bit 0 y + 1 = unset_bit 0 y OR 1"
    by (rule disjunctive_add) (auto simp: bit_simps)
  ultimately have "y - 1 = unset_bit 0 y" by (metis add_diff_cancel_right')
  then have "- y = NOT (unset_bit 0 y)" by (simp add: minus_eq_not_minus_1)
  then show ?thesis using assms by (intro bit_word_eqI) (auto simp: bit_simps)
qed

lemma and_minus_isolates:
  assumes l: "bit (x :: 'a::len word) l" and low: "\<And>i. i < l \<Longrightarrow> \<not> bit x i"
  shows "x AND - x = push_bit l 1"
proof -
  have "l \<le> n" if "bit x n" for n using low [of n] that by (metis not_less)
  then have x: "x = push_bit l (drop_bit l x)"
    by (intro bit_word_eqI) (auto simp: bit_simps)
  have "- x = push_bit l (- drop_bit l x)" by (subst x) (simp add: push_bit_eq_mult)
  then have "x AND - x = push_bit l (drop_bit l x AND - drop_bit l x)"
    by (subst x) (simp only: push_bit_and)
  also have "drop_bit l x AND - drop_bit l x = 1" using l by (intro and_minus_odd) (simp add: bit_simps)
  finally show ?thesis .
qed

lemma bit_rev_bits: "bit (rev_bits e) n \<longleftrightarrow> n < 8 \<and> e (7 - n)"
proof -
  have "rev_bits e = horner_sum of_bool 2 (map (\<lambda>i. e (7 - i)) [0..<8])"
    by (simp add: rev_bits_def upt_rec algebra_simps)
  then show ?thesis by (auto simp: bit_horner_sum_bit_word_iff)
qed

lemma spread_byte:
  assumes "k < 8"
  shows "drop_bit 56 (push_bit (8 * k) (ucast (b :: u8)) * 0x0101010101010101) = (ucast b :: u64)"
proof -
  define v where "v = uint b"
  have v: "0 \<le> v" "v < 256" using unsigned_less [of b] by (simp_all add: v_def)
  have b: "(ucast b :: u64) = word_of_int v" by (simp add: v_def)
  have "push_bit (8 * k) (word_of_int v) * (0x0101010101010101 :: u64) =
      word_of_int (v * (2 ^ (8 * k) * 0x0101010101010101))"
    by (simp add: push_bit_eq_mult)
  moreover have "drop_bit 56 (word_of_int (v * (2 ^ (8 * k) * 0x0101010101010101)) :: u64) =
      word_of_int v"
    using byte_cases [OF assms]
  proof (elim disjE)
    assume "k = 0"
    moreover have "v * (2 ^ (8 * 0) * 0x0101010101010101) = 2 ^ 64 * (v * 0) + 2 ^ 56 * v + v * 282578800148737" by simp
    ultimately show ?thesis using drop_56_word [of v "v * 282578800148737" "v * 0"] v by (simp add: mult.commute)
  next
    assume "k = 1"
    moreover have "v * (2 ^ (8 * 1) * 0x0101010101010101) = 2 ^ 64 * (v * 1) + 2 ^ 56 * v + v * 282578800148736" by simp
    ultimately show ?thesis using drop_56_word [of v "v * 282578800148736" "v * 1"] v by (simp add: mult.commute)
  next
    assume "k = 2"
    moreover have "v * (2 ^ (8 * 2) * 0x0101010101010101) = 2 ^ 64 * (v * 257) + 2 ^ 56 * v + v * 282578800148480" by simp
    ultimately show ?thesis using drop_56_word [of v "v * 282578800148480" "v * 257"] v by (simp add: mult.commute)
  next
    assume "k = 3"
    moreover have "v * (2 ^ (8 * 3) * 0x0101010101010101) = 2 ^ 64 * (v * 65793) + 2 ^ 56 * v + v * 282578800082944" by simp
    ultimately show ?thesis using drop_56_word [of v "v * 282578800082944" "v * 65793"] v by (simp add: mult.commute)
  next
    assume "k = 4"
    moreover have "v * (2 ^ (8 * 4) * 0x0101010101010101) = 2 ^ 64 * (v * 16843009) + 2 ^ 56 * v + v * 282578783305728" by simp
    ultimately show ?thesis using drop_56_word [of v "v * 282578783305728" "v * 16843009"] v by (simp add: mult.commute)
  next
    assume "k = 5"
    moreover have "v * (2 ^ (8 * 5) * 0x0101010101010101) = 2 ^ 64 * (v * 4311810305) + 2 ^ 56 * v + v * 282574488338432" by simp
    ultimately show ?thesis using drop_56_word [of v "v * 282574488338432" "v * 4311810305"] v by (simp add: mult.commute)
  next
    assume "k = 6"
    moreover have "v * (2 ^ (8 * 6) * 0x0101010101010101) = 2 ^ 64 * (v * 1103823438081) + 2 ^ 56 * v + v * 281474976710656" by simp
    ultimately show ?thesis using drop_56_word [of v "v * 281474976710656" "v * 1103823438081"] v by (simp add: mult.commute)
  next
    assume "k = 7"
    moreover have "v * (2 ^ (8 * 7) * 0x0101010101010101) = 2 ^ 64 * (v * 282578800148737) + 2 ^ 56 * v + v * 0" by simp
    ultimately show ?thesis using drop_56_word [of v "v * 0" "v * 282578800148737"] v by (simp add: mult.commute)
  qed
  ultimately show ?thesis by (simp only: b)
qed

lemma bit_nonzero_bytes:
  "m < 8 \<Longrightarrow> bit (nonzero_bytes e) (8 * q + m) \<longleftrightarrow> q < 8 \<and> m = 7 \<and> e q"
proof -
  assume m: "m < 8"
  then have "bit (0x80 :: u8) m \<longleftrightarrow> m = 7" by (auto simp: less_Suc_eq numeral_eq_Suc)
  with m show ?thesis by (simp add: nonzero_bytes_def bit_of_bytes)
qed

lemma nonzero_bytes_isolate:
  assumes u: "u < 8" "e u" "\<And>i. i < u \<Longrightarrow> \<not> e i"
  shows "nonzero_bytes e AND - nonzero_bytes e = push_bit (8 * u + 7) 1"
proof (rule and_minus_isolates)
  show "bit (nonzero_bytes e) (8 * u + 7)" using u by (simp add: bit_nonzero_bytes)
  fix i assume i: "i < 8 * u + 7"
  obtain q m where n: "i = 8 * q + m" "m < 8" by (rule byte_offset)
  show "\<not> bit (nonzero_bytes e) i" using i u(3) [of q] by (auto simp: n bit_nonzero_bytes)
qed

lemma collect_bits:
  "(ucast (b :: u8) * 0x8040201008040201) AND 0x8080808080808080 = nonzero_bytes (\<lambda>u. bit b (7 - u))"
proof -
  let ?b = "ucast b :: u64"
  have "?b * 0x8040201008040201 = ?b + push_bit 9 ?b + push_bit 18 ?b + push_bit 27 ?b +
      push_bit 36 ?b + push_bit 45 ?b + push_bit 54 ?b + push_bit 63 ?b"
    by (simp add: push_bit_eq_mult algebra_simps)
  also have "\<dots> = ((((((?b OR push_bit 9 ?b) OR push_bit 18 ?b) OR push_bit 27 ?b) OR
      push_bit 36 ?b) OR push_bit 45 ?b) OR push_bit 54 ?b) OR push_bit 63 ?b"
    by (subst disjunctive_add; (auto simp: bit_simps dest: bit_imp_le_length)?)+
  finally have sum: "?b * 0x8040201008040201 = \<dots>" .
  have c80: "(0x8080808080808080 :: u64) = nonzero_bytes (\<lambda>_. True)" by code_simp
  show ?thesis
    unfolding nonzero_bytes_def
  proof (rule of_bytes_eqI)
    fix q m :: nat assume qm: "q < 8" "m < 8"
    have "bit (?b * 0x8040201008040201) (8 * q + 7) \<longleftrightarrow> bit b (7 - q)"
      unfolding sum using byte_cases [OF qm(1)]
      by (elim disjE) (auto simp: bit_simps dest: bit_imp_le_length)
    moreover have "bit (0x80 :: u8) m \<longleftrightarrow> m = 7"
      using qm(2) by (auto simp: less_Suc_eq numeral_eq_Suc)
    ultimately show "bit (ucast b * 0x8040201008040201 AND 0x8080808080808080 :: u64) (8 * q + m) =
        bit (if bit b (7 - q) then 0x80 else 0 :: u8) m"
      using qm by (auto simp: bit_and_iff c80 bit_nonzero_bytes)
  qed
qed

text \<open>The steps on isolated bits, case by case.\<close>

lemma isolated_byte:
  assumes "k < 8"
  shows "(push_bit (7 - k) 1 * 0x8040201008040201) AND 0x8080808080808080 = (push_bit (8 * k + 7) 1 :: u64)"
    "(push_bit (8 * k + 7) 1 OR (push_bit (8 * k + 7) 1 - 1)) XOR
       drop_bit 7 (push_bit (8 * k + 7) 1 - 1) = (push_bit (8 * k) 0xff :: u64)"
    "drop_bit 7 (push_bit (8 * k + 7) 1) = (push_bit (8 * k) 1 :: u64)"
    "drop_bit 56 (push_bit (8 * k) 1 * 0x8040201008040201) = (push_bit (7 - k) 1 :: u64)"
proof -
  let ?P = "\<lambda>k. (push_bit (7 - k) 1 * 0x8040201008040201) AND 0x8080808080808080 = (push_bit (8 * k + 7) 1 :: u64) \<and>
    (push_bit (8 * k + 7) 1 OR (push_bit (8 * k + 7) 1 - 1)) XOR
       drop_bit 7 (push_bit (8 * k + 7) 1 - 1) = (push_bit (8 * k) 0xff :: u64) \<and>
    drop_bit 7 (push_bit (8 * k + 7) 1) = (push_bit (8 * k) 1 :: u64) \<and>
    drop_bit 56 (push_bit (8 * k) 1 * 0x8040201008040201) = (push_bit (7 - k) 1 :: u64)"
  have "\<forall>k \<in> set [0..<8]. ?P k" by code_simp
  with assms have "?P k" by simp
  then show "(push_bit (7 - k) 1 * 0x8040201008040201) AND 0x8080808080808080 = (push_bit (8 * k + 7) 1 :: u64)"
    "(push_bit (8 * k + 7) 1 OR (push_bit (8 * k + 7) 1 - 1)) XOR
       drop_bit 7 (push_bit (8 * k + 7) 1 - 1) = (push_bit (8 * k) 0xff :: u64)"
    "drop_bit 7 (push_bit (8 * k + 7) 1) = (push_bit (8 * k) 1 :: u64)"
    "drop_bit 56 (push_bit (8 * k) 1 * 0x8040201008040201) = (push_bit (7 - k) 1 :: u64)" by blast+
qed

lemma int_log2_of_bytes:
  assumes k: "k < 8" "\<And>i. k < i \<Longrightarrow> i < 8 \<Longrightarrow> b i = 0"
    and h: "h < 8" "bit (b k) h" "\<And>i. h < i \<Longrightarrow> \<not> bit (b k) i"
  shows "int_log2 (of_bytes b) = push_bit (8 * k + h) 1"
proof -
  let ?x = "of_bytes b"
  have "b k \<noteq> 0" using h(2) by auto
  have "step_ab ?x = rev_bits (\<lambda>i. b i \<noteq> 0)" by (intro step_ab_bits step_a_of_bytes)
  moreover have "rev_bits (\<lambda>i. b i \<noteq> 0) AND - rev_bits (\<lambda>i. b i \<noteq> 0) = push_bit (7 - k) 1"
    using k \<open>b k \<noteq> 0\<close> by (intro and_minus_isolates) (auto simp: bit_rev_bits)
  ultimately have abc: "step_abc ?x = push_bit (7 - k) 1" by (simp add: step_abc_def)
  have ff: "(0xff :: u64) = mask 8" by (simp add: mask_eq_exp_minus_1)
  have "push_bit (8 * k) 0xff AND ?x = push_bit (8 * k) (ucast (b k))"
    unfolding ff
  proof (rule bit_word_eqI)
    fix n :: nat assume n64: "n < LENGTH(64)"
    obtain q m where n: "n = 8 * q + m" "m < 8" by (rule byte_offset)
    show "bit (push_bit (8 * k) (mask 8) AND ?x) n = bit (push_bit (8 * k) (ucast (b k)) :: u64) n"
    proof (cases "q = k")
      case True
      then show ?thesis using n n64 k(1) by (auto simp: bit_simps bit_of_bytes)
    next
      case False
      then have "\<not> (8 * k \<le> n \<and> n - 8 * k < 8)" using n by auto
      then show ?thesis
        using bit_imp_le_length [of "b k" "n - 8 * k"] by (auto simp: bit_simps)
    qed
  qed
  then have r: "drop_bit 56 ((push_bit (8 * k) 0xff AND ?x) * 0x0101010101010101) = ucast (b k)"
    by (simp add: spread_byte [OF k(1)])
  have u: "nonzero_bytes (\<lambda>u. bit (b k) (7 - u)) AND - nonzero_bytes (\<lambda>u. bit (b k) (7 - u)) =
      push_bit (8 * (7 - h) + 7) 1"
    using h by (intro nonzero_bytes_isolate) auto
  have "7 - h < 8" "7 - (7 - h) = h" using h(1) by auto
  note iso = isolated_byte(3,4) [OF this(1), unfolded this(2)]
  have "int_log2 ?x = push_bit (8 * k) 1 * push_bit h 1"
    by (simp only: int_log2_def step_abcd_def Let_def abc isolated_byte(1-3) [OF k(1)] r collect_bits
        u iso)
  also have "\<dots> = push_bit (8 * k + h) 1" by (simp add: push_bit_eq_mult power_add)
  finally show ?thesis .
qed

lemma bit_position_exp:
  assumes "k < 64"
  shows "bit_position (push_bit k 1) = word_of_nat k"
proof -
  obtain q m where k: "k = 8 * q + m" "m < 8" by (rule byte_offset)
  then have q: "q < 8" using assms by simp
  let ?c = "0x8080808080808080 :: u64"
  have c: "?c = nonzero_bytes (\<lambda>_. True)" by code_simp
  have "mask k AND ?c = mask (8 * q) AND ?c"
  proof (rule bit_word_eqI)
    fix n :: nat assume "n < LENGTH(64)"
    obtain i j where n: "n = 8 * i + j" "j < 8" by (rule byte_offset)
    then show "bit (mask k AND ?c) n = bit (mask (8 * q) AND ?c) n"
      using k by (cases "i < q") (auto simp: bit_and_iff bit_mask_iff c bit_nonzero_bytes)
  qed
  moreover have "\<forall>q \<in> set [0..<8]. drop_bit 53 ((mask (8 * q) AND ?c) * 0x0202020202020202) = word_of_nat (8 * q)"
    by code_simp
  with q have "drop_bit 53 ((mask (8 * q) AND ?c) * 0x0202020202020202) = word_of_nat (8 * q)" by simp
  moreover have "push_bit k 1 - 1 = (mask k :: u64)" by (simp add: mask_eq_exp_minus_1 push_bit_eq_mult)
  ultimately have z: "drop_bit 53 (((push_bit k 1 - 1) AND ?c) * 0x0202020202020202) = word_of_nat (8 * q)"
    by simp
  have "8 * q < 2 ^ LENGTH(64)" using q by simp
  then have u: "unat (word_of_nat (8 * q) :: u64) = 8 * q" by (simp only: unat_of_nat mod_less)
  have "drop_bit (8 * q) (push_bit k 1) = (push_bit m 1 :: u64)"
    using k q by (intro bit_word_eqI) (auto simp: bit_simps)
  moreover have "\<forall>m \<in> set [0..<8]. drop_bit 56 (((push_bit m 1 * 0x8040201008040201) AND ?c) *
      0x120e0c0a08060402) = word_of_nat m" by code_simp
  with k(2) have "drop_bit 56 (((push_bit m 1 * 0x8040201008040201) AND ?c) *
      0x120e0c0a08060402) = word_of_nat m" by simp
  ultimately show ?thesis
    unfolding bit_position_def Let_def z u using k(1) by simp
qed

section \<open>Properties of bits\<close>

text \<open>the reversal of 8, 16 and 32 bit integers is the mirror image of the bits, for every
  argument.\<close>

theorem bit_reverse_narrow:
  "br8 a = word_reverse a \<and> br16 b = word_reverse b \<and> br32 c = word_reverse c"
  by (simp add: br8_reverse br16_reverse br32_reverse)

text \<open>the 64 bit reversal is the mirror image exactly when bit 32 of the argument is clear.
  When it is set, the byte at bits 32 to 39 is shifted into the sign bit of an \<open>int\<close>, and its
  sign extension sets the upper half of the result.\<close>

theorem bit_reverse64_sign_extension:
  "br64 x = (if bit x 32 then word_reverse x OR push_bit 32 (mask 32) else word_reverse x)"
  by (rule bit_word_eqI) (auto simp: bit_br64 bit_simps)

text \<open>reversing with a width reverses the low \<open>width\<close> bits and drops the others.\<close>

theorem bit_reverse_width:
  assumes "width \<le> 32"
  shows "bit (br_width br32 x width) n \<longleftrightarrow> n < width \<and> bit x (width - Suc n)"
  using bit_br_width [of br32 x width n] assms br32_reverse by simp

theorem bit_reverse_width_witness: "bit (br_width br32 1 5) 4"
  using bit_reverse_width [of 5 1 4] by simp

text \<open>C18: \<open>int_log2\<close> isolates the most significant bit of a non-zero integer and
  \<open>bit_position\<close> then finds its index, the rounded-down logarithm; both by multiplications and
  masks only.\<close>

theorem int_log2_bit_position:
  assumes "x \<noteq> 0"
  shows "\<exists>k < 64. bit x k \<and> (\<forall>n > k. \<not> bit x n) \<and> int_log2 x = push_bit k 1 \<and>
    bit_position (int_log2 x) = word_of_nat k"
proof -
  define k where "k = Max {n. bit x n}"
  have fin: "finite {n. bit x n}"
    by (rule finite_subset [of _ "{..<64}"]) (auto dest: bit_imp_le_length)
  moreover have "{n. bit x n} \<noteq> {}"
  proof
    assume "{n. bit x n} = {}"
    then have "x = 0" by (intro bit_word_eqI) auto
    with assms show False by simp
  qed
  ultimately have "bit x k" unfolding k_def using Max_in by blast
  have above: "\<not> bit x n" if "n > k" for n
  proof
    assume "bit x n"
    then have "n \<le> k" unfolding k_def by (intro Max_ge [OF fin]) simp
    with that show False by simp
  qed
  have "k < 64" using bit_imp_le_length [OF \<open>bit x k\<close>] by simp
  obtain q m where k: "k = 8 * q + m" "m < 8" by (rule byte_offset)
  define b where "b = (\<lambda>i. ucast (drop_bit (8 * i) x) :: u8)"
  have x: "x = of_bytes b" unfolding b_def by (rule of_bytes_bytes [symmetric])
  have q: "q < 8" using k \<open>k < 64\<close> by simp
  have zero: "b i = 0" if "q < i" "i < 8" for i
  proof (rule bit_word_eqI)
    fix n :: nat assume "n < LENGTH(8)"
    then show "bit (b i) n = bit (0 :: u8) n" using that k above [of "8 * i + n"] by (simp add: b_def bit_simps)
  qed
  have high: "bit (b q) m" "\<And>i. m < i \<Longrightarrow> \<not> bit (b q) i"
    using \<open>bit x k\<close> above k by (auto simp: b_def bit_simps)
  have "int_log2 x = push_bit k 1"
    using int_log2_of_bytes [of q b m, OF q zero k(2) high] by (simp only: x [symmetric] k(1))
  with \<open>bit x k\<close> above \<open>k < 64\<close> bit_position_exp show ?thesis by auto
qed

theorem int_log2_bit_position_witness:
  "\<exists>k < 64. bit (300 :: u64) k \<and> (\<forall>n > k. \<not> bit (300 :: u64) n) \<and> int_log2 300 = push_bit k 1"
  using int_log2_bit_position [of 300] by auto

section \<open>Printing in binary\<close>

text \<open>\<open>operator<<\<close> of \<open>binary_printer_binder\<close>. For a signed \<open>T\<close> the mask starts negative and
  \<open>>>=\<close> shifts it arithmetically; \<open>is_signed\<close> says which type it is.\<close>

definition bp_shift :: "bool \<Rightarrow> 'a::len word \<Rightarrow> 'a word" where
  "bp_shift is_signed msk = (if is_signed then signed_drop_bit 1 msk else drop_bit 1 msk)"

fun bp_loop :: "bool \<Rightarrow> bool \<Rightarrow> 'a::len word \<Rightarrow> 'a word \<Rightarrow> nat list \<Rightarrow> string" where
  "bp_loop is_signed dots v msk [] = []"
| "bp_loop is_signed dots v msk (i # is) =
     (if dots \<and> 0 < i \<and> i AND 7 = 0 then ''.'' else []) @
     (if msk AND v \<noteq> 0 then ''1'' else ''0'') @ bp_loop is_signed dots v (bp_shift is_signed msk) is"

definition bp_print :: "bool \<Rightarrow> bool \<Rightarrow> 'a::len word \<Rightarrow> string" where
  "bp_print is_signed dots v =
     ''0b'' @ bp_loop is_signed dots v (push_bit (LENGTH('a) - 1) 1) [0..<LENGTH('a)]"

definition binary :: "bool \<Rightarrow> 'a::len word \<Rightarrow> string" where
  "binary is_signed v = bp_print is_signed True v"

definition binary_raw :: "bool \<Rightarrow> 'a::len word \<Rightarrow> string" where
  "binary_raw is_signed v = bp_print is_signed False v"

lemma bit_and_exp: "push_bit n 1 AND (v :: 'a::len word) \<noteq> 0 \<longleftrightarrow> bit v n"
proof -
  have "push_bit n 1 AND v = (if bit v n then push_bit n 1 else 0)"
    by (rule bit_word_eqI) (auto simp: bit_simps)
  moreover have "push_bit n 1 \<noteq> (0 :: 'a word)" if "bit v n"
  proof
    assume "push_bit n 1 = (0 :: 'a word)"
    then have "\<not> bit (push_bit n 1 :: 'a word) n" by (simp only: bit_0_eq bot_apply bot_bool_def) simp
    with bit_imp_le_length [OF that] show False by (simp only: bit_push_bit_iff) simp
  qed
  ultimately show ?thesis by metis
qed

lemma bp_loop_unsigned:
  "bp_loop False False v (push_bit (LENGTH('a) - Suc i) 1) [i..<LENGTH('a)] =
   map (\<lambda>k. if bit (v :: 'a::len word) (LENGTH('a) - Suc k) then CHR ''1'' else CHR ''0'') [i..<LENGTH('a)]"
proof (induction "LENGTH('a) - i" arbitrary: i)
  case 0
  then show ?case by simp
next
  case (Suc n)
  then have i: "i < LENGTH('a)" "n = LENGTH('a) - Suc i" by simp_all
  have "bp_loop False False v (drop_bit 1 (push_bit (LENGTH('a) - Suc i) 1)) [Suc i..<LENGTH('a)] =
      map (\<lambda>k. if bit v (LENGTH('a) - Suc k) then CHR ''1'' else CHR ''0'') [Suc i..<LENGTH('a)]"
  proof (cases "Suc i < LENGTH('a)")
    case True
    then have "LENGTH('a) - Suc i = Suc (LENGTH('a) - Suc (Suc i))" by simp
    then have "drop_bit 1 (push_bit (LENGTH('a) - Suc i) 1) = (push_bit (LENGTH('a) - Suc (Suc i)) 1 :: 'a word)"
      by (intro bit_word_eqI) (auto simp: bit_simps)
    then show ?thesis using Suc.hyps(1) [OF i(2)] by (simp only:)
  next
    case False
    then show ?thesis by simp
  qed
  then show ?case
    by (simp add: upt_conv_Cons [OF i(1)] bit_and_exp bp_shift_def del: push_bit_of_1)
qed

lemma bp_loop_signed:
  assumes "\<And>n. bit msk n \<longleftrightarrow> LENGTH('a) - Suc i \<le> n \<and> n < LENGTH('a)"
  shows "bp_loop True False v msk [i..<LENGTH('a)] =
    map (\<lambda>k. if \<exists>j. LENGTH('a) - Suc k \<le> j \<and> bit (v :: 'a::len word) j then CHR ''1'' else CHR ''0'')
      [i..<LENGTH('a)]"
  using assms
proof (induction "LENGTH('a) - i" arbitrary: i msk)
  case 0
  then show ?case by simp
next
  case (Suc n)
  then have i: "i < LENGTH('a)" "n = LENGTH('a) - Suc i" by simp_all
  have "msk AND v \<noteq> 0 \<longleftrightarrow> (\<exists>j. bit (msk AND v) j)"
    by (metis bit_0_eq bot_apply bot_bool_def bit_word_eqI)
  then have m: "msk AND v \<noteq> 0 \<longleftrightarrow> (\<exists>j. LENGTH('a) - Suc i \<le> j \<and> bit v j)"
    using Suc.prems bit_imp_le_length [of v] by (auto simp: bit_and_iff)
  have "bp_loop True False v (signed_drop_bit 1 msk) [Suc i..<LENGTH('a)] =
    map (\<lambda>k. if \<exists>j. LENGTH('a) - Suc k \<le> j \<and> bit v j then CHR ''1'' else CHR ''0'') [Suc i..<LENGTH('a)]"
  proof (rule Suc.hyps(1) [OF i(2)])
    fix n
    have len: "0 < LENGTH('a)" by simp
    show "bit (signed_drop_bit 1 msk) n \<longleftrightarrow> LENGTH('a) - Suc (Suc i) \<le> n \<and> n < LENGTH('a)"
      using len i by (auto simp: bit_signed_drop_bit_iff Suc.prems)
  qed
  with m show ?case by (simp add: upt_conv_Cons [OF i(1)] bp_shift_def)
qed

text \<open>for an unsigned integer \<open>binary_raw\<close> prints its bits from the most significant one.\<close>

theorem binary_raw_unsigned:
  "binary_raw False (v :: u32) =
     ''0b'' @ map (\<lambda>k. if bit v (31 - k) then CHR ''1'' else CHR ''0'') [0..<32]"
  using bp_loop_unsigned [of v 0] by (simp add: binary_raw_def bp_print_def)

text \<open>for a signed integer the mask is sign-extended as it is shifted, so \<open>binary_raw\<close> prints
  ones from the most significant set bit on, whatever the bits below it are.\<close>

theorem binary_raw_signed_wrong:
  "binary_raw True (v :: u32) =
     ''0b'' @ map (\<lambda>k. if \<exists>j. 31 - k \<le> j \<and> bit v j then CHR ''1'' else CHR ''0'') [0..<32]"
proof -
  have "bit (push_bit 31 1 :: u32) n \<longleftrightarrow> LENGTH(32) - Suc 0 \<le> n \<and> n < LENGTH(32)" for n
    by (simp only: bit_push_bit_iff bit_1_iff) auto
  from bp_loop_signed [OF this, of v] show ?thesis by (simp add: binary_raw_def bp_print_def)
qed

end
