(* ===== verification/Zi_Permuter.thy ===== *)
theory Zi_Permuter
  imports Zi_Prelude
begin

text \<open>
  \<^verbatim>\<open>math/transforms/detail/permuter.hpp\<close>: the bit-reversal permutation that the transforms
  apply to their data. A \<open>permuter_impl< Size >\<close> is a singleton that computes its list of pairs
  to swap once; \<open>permuter_applier\<close> looks for the least \<open>Size\<close> that holds the data.
\<close>

section \<open>State and operations\<close>

record permuter =
  pm_pairs :: "(nat \<times> nat) list"
  pm_computed :: bool

definition pm_new :: permuter where
  "pm_new = \<lparr>pm_pairs = [], pm_computed = False\<rparr>"

definition reverser :: "nat \<Rightarrow> nat \<Rightarrow> nat" where
  "reverser sz i = fold (\<lambda>j acc. if bit i j then acc + 2 ^ (sz - j - 1) else acc) [0..<sz] 0"

definition pm_compute :: "nat \<Rightarrow> permuter \<Rightarrow> permuter" where
  "pm_compute sz p =
     (if pm_computed p then p
      else
        let reversers = map (reverser sz) [0..<2 ^ sz]
        in \<lparr>pm_pairs = pm_pairs p @
              concat (map (\<lambda>i. if i < reversers ! i then [(i, reversers ! i)] else []) [0..<2 ^ sz]),
            pm_computed = True\<rparr>)"

definition pm_swaps :: "(nat \<times> nat) list \<Rightarrow> 'a list \<Rightarrow> 'a list" where
  "pm_swaps ps data = fold (\<lambda>(a, b) d. swap_nth d a b) ps data"

definition pm_apply :: "nat \<Rightarrow> 'a list \<Rightarrow> permuter \<Rightarrow> nat \<times> 'a list \<times> permuter" where
  "pm_apply sz data p = (let p = pm_compute sz p in (sz, pm_swaps (pm_pairs p) data, p))"

text \<open>\<open>data.resize( n )\<close>, with \<open>T()\<close> as \<open>z\<close>\<close>

definition vec_resize :: "'a \<Rightarrow> nat \<Rightarrow> 'a list \<Rightarrow> 'a list" where
  "vec_resize z n xs = take n xs @ replicate (n - length xs) z"

text \<open>The singletons' states are a function of their size. The vector is cleared when it has
  more than \<open>2^25\<close> elements.\<close>

function pa_apply :: "'a \<Rightarrow> nat \<Rightarrow> 'a list \<Rightarrow> (nat \<Rightarrow> permuter) \<Rightarrow> nat \<times> 'a list \<times> (nat \<Rightarrow> permuter)" where
  "pa_apply z s data ps =
     (if s \<ge> 26 then (0, [], ps)
      else if length data \<le> 2 ^ s
      then (let (r, data', p) = pm_apply s (vec_resize z (2 ^ s) data) (ps s) in (r, data', ps(s := p)))
      else pa_apply z (s + 1) data ps)"
  by pat_completeness auto
termination by (relation "measure (\<lambda>(z, s, data, ps). 26 - s)") auto

declare pa_apply.simps [simp del]

definition apply_permutation :: "'a \<Rightarrow> 'a list \<Rightarrow> (nat \<Rightarrow> permuter) \<Rightarrow> nat \<times> 'a list \<times> (nat \<Rightarrow> permuter)" where
  "apply_permutation z data ps = pa_apply z 1 data ps"

text \<open>The version for an array asserts that its length is a power of two.\<close>

function pa_apply_array :: "nat \<Rightarrow> 'a list \<Rightarrow> (nat \<Rightarrow> permuter) \<Rightarrow> (nat \<times> 'a list \<times> (nat \<Rightarrow> permuter)) option" where
  "pa_apply_array s data ps =
     (if s \<ge> 26 then Some (0, data, ps)
      else if length data \<le> 2 ^ s
      then
        if length data = 2 ^ s
        then (let (r, data', p) = pm_apply s data (ps s) in Some (r, data', ps(s := p)))
        else None
      else pa_apply_array (s + 1) data ps)"
  by pat_completeness auto
termination by (relation "measure (\<lambda>(s, data, ps). 26 - s)") auto

declare pa_apply_array.simps [simp del]

unbundle bit_operations_syntax

section \<open>Reversing the low bits of an index\<close>

text \<open>The reversal of the low \<open>n\<close> bits, from the low end.\<close>

fun brev :: "nat \<Rightarrow> nat \<Rightarrow> nat" where
  "brev 0 i = 0"
| "brev (Suc n) i = 2 ^ n * (i mod 2) + brev n (i div 2)"

lemma brev_less [simp]: "brev n i < 2 ^ n"
proof (induction n arbitrary: i)
  case (Suc n)
  have "i mod 2 = 0 \<or> i mod 2 = 1" by auto
  with Suc [of "i div 2"] show ?case by auto
qed simp

lemma bit_brev: "bit (brev n i) k \<longleftrightarrow> k < n \<and> bit i (n - Suc k)"
proof (induction n arbitrary: i k)
  case (Suc n)
  have "brev (Suc n) i = push_bit n (i mod 2) OR brev n (i div 2)"
  proof -
    have "push_bit n (i mod 2) + brev n (i div 2) = push_bit n (i mod 2) OR brev n (i div 2)"
      by (rule disjunctive_add) (auto simp: bit_push_bit_iff Suc.IH)
    then show ?thesis by (simp add: push_bit_eq_mult ac_simps)
  qed
  moreover have "bit (i mod 2) j \<longleftrightarrow> j = 0 \<and> bit i 0" for j
    by (cases j) (auto simp: bit_0 bit_Suc)
  ultimately have k: "bit (brev (Suc n) i) k \<longleftrightarrow>
      n \<le> k \<and> k - n = 0 \<and> bit i 0 \<or> k < n \<and> bit i (Suc (n - Suc k))"
    by (simp only: bit_or_iff bit_push_bit_iff Suc.IH bit_Suc) auto
  show ?case
  proof (cases "k < n")
    case True
    then have "Suc (n - Suc k) = n - k" by simp
    with True k show ?thesis by simp
  next
    case False
    with k show ?thesis by (cases "k = n") auto
  qed
qed simp

lemma brev_brev: "brev n (brev n i) = i mod 2 ^ n"
  by (rule bit_eqI) (auto simp: bit_brev bit_take_bit_iff Suc_diff_Suc simp flip: take_bit_eq_mod)

lemma brev_brev_id [simp]: "i < 2 ^ n \<Longrightarrow> brev n (brev n i) = i"
  by (simp add: brev_brev)

lemma fold_add_if:
  "fold (\<lambda>j acc. if P j then acc + f j else acc) xs a = a + (\<Sum>j\<leftarrow>xs. if P j then f j else (0 :: nat))"
  by (induction xs arbitrary: a) auto

lemma reverser_brev: "reverser n i = brev n i"
proof -
  have "(\<Sum>j<n. if bit i j then 2 ^ (n - j - 1) else 0) = brev n i"
  proof (induction n arbitrary: i)
    case (Suc n)
    have "(\<Sum>j<Suc n. if bit i j then 2 ^ (Suc n - j - 1) else (0::nat)) =
        (if bit i 0 then 2 ^ n else 0) + (\<Sum>j<n. if bit (i div 2) j then 2 ^ (n - j - 1) else 0)"
      by (subst sum.lessThan_Suc_shift) (simp add: bit_Suc cong: if_cong)
    then show ?case using Suc [of "i div 2"] by (auto simp: bit_0 mod2_eq_if)
  qed simp
  then show ?thesis
    by (simp add: reverser_def fold_add_if interv_sum_list_conv_sum_set_nat atLeast0LessThan)
qed

section \<open>The swaps permute by the reversal\<close>

lemma pm_swaps_simps [simp]:
  "pm_swaps [] d = d" "pm_swaps (ps @ qs) d = pm_swaps qs (pm_swaps ps d)"
  "pm_swaps [(a, b)] d = swap_nth d a b"
  by (simp_all add: pm_swaps_def)

lemma length_pm_swaps [simp]: "length (pm_swaps ps d) = length d"
  by (induction ps arbitrary: d) (auto simp: pm_swaps_def)

lemma pm_swaps_involution:
  assumes r: "\<And>i. i < n \<Longrightarrow> r i < n" "\<And>i. i < n \<Longrightarrow> r (r i) = i" and d: "length d = n"
  shows "m \<le> n \<Longrightarrow> k < n \<Longrightarrow>
    pm_swaps (concat (map (\<lambda>i. if i < r i then [(i, r i)] else []) [0..<m])) d ! k =
      (if k < m \<or> r k < m then d ! r k else d ! k)"
proof (induction m arbitrary: k)
  case 0
  then show ?case by simp
next
  case (Suc m)
  let ?d = "pm_swaps (concat (map (\<lambda>i. if i < r i then [(i, r i)] else []) [0..<m])) d"
  have m: "m < n" "r m < n" "r (r m) = m" using Suc.prems(1) r by auto
  have rk: "r k < n" "r (r k) = k" using r Suc.prems(2) by auto
  note IH = Suc.IH [OF Suc_leD [OF Suc.prems(1)]]
  show ?case
  proof (cases "m < r m")
    case True
    have "pm_swaps (concat (map (\<lambda>i. if i < r i then [(i, r i)] else []) [0..<Suc m])) d =
        swap_nth ?d m (r m)" using True by simp
    moreover have "?d ! m = d ! m" "?d ! r m = d ! r m"
      using IH [of m] IH [of "r m"] m True by auto
    ultimately show ?thesis
      using IH [OF Suc.prems(2)] m rk d True
      by (auto simp: nth_swap_nth less_Suc_eq)
  next
    case False
    then show ?thesis
      using IH [OF Suc.prems(2)] m rk by (auto simp: less_Suc_eq not_less le_less)
  qed
qed

lemma pm_swaps_brev:
  assumes "length d = 2 ^ n"
  shows "pm_swaps (concat (map (\<lambda>i. if i < brev n i then [(i, brev n i)] else []) [0..<2 ^ n])) d =
    map (\<lambda>k. d ! brev n k) [0..<2 ^ n]"
  using pm_swaps_involution [of "2 ^ n" "brev n" d "2 ^ n"] assms
  by (intro nth_equalityI) simp_all

definition pm_ok :: "nat \<Rightarrow> permuter \<Rightarrow> bool" where
  "pm_ok n p \<longleftrightarrow> (if pm_computed p
     then pm_pairs p = concat (map (\<lambda>i. if i < brev n i then [(i, brev n i)] else []) [0..<2 ^ n])
     else pm_pairs p = [])"

lemma pm_ok_new [simp]: "pm_ok n pm_new"
  by (simp add: pm_ok_def pm_new_def)

lemma pm_compute_ok: "pm_ok n p \<Longrightarrow> pm_ok n (pm_compute n p) \<and> pm_computed (pm_compute n p)"
proof -
  have "concat (map (\<lambda>i. if i < map (reverser n) [0..<2 ^ n] ! i
          then [(i, map (reverser n) [0..<2 ^ n] ! i)] else []) [0..<2 ^ n]) =
      concat (map (\<lambda>i. if i < brev n i then [(i, brev n i)] else []) [0..<2 ^ n])"
    by (intro arg_cong [of _ _ concat] map_cong) (auto simp: reverser_brev)
  then show "pm_ok n p \<Longrightarrow> pm_ok n (pm_compute n p) \<and> pm_computed (pm_compute n p)"
    by (auto simp: pm_ok_def pm_compute_def Let_def)
qed

lemma pm_apply_ok:
  assumes "pm_ok n p" "length d = 2 ^ n"
  shows "\<exists>p'. pm_apply n d p = (n, map (\<lambda>k. d ! brev n k) [0..<2 ^ n], p') \<and> pm_ok n p'"
  using pm_compute_ok [OF assms(1)] pm_swaps_brev [OF assms(2)]
  by (auto simp: pm_apply_def Let_def pm_ok_def)

lemma length_vec_resize [simp]: "length (vec_resize z n xs) = n"
  by (simp add: vec_resize_def)

lemma vec_resize_same [simp]: "length xs = n \<Longrightarrow> vec_resize z n xs = xs"
  by (simp add: vec_resize_def)

lemma pa_apply_ok:
  assumes "s \<le> n" "n < 26" "\<And>k. s \<le> k \<Longrightarrow> k < n \<Longrightarrow> 2 ^ k < length d" "length d \<le> 2 ^ n" "\<And>k. pm_ok k (ps k)"
  shows "\<exists>ps'. pa_apply z s d ps =
      (n, map (\<lambda>k. vec_resize z (2 ^ n) d ! brev n k) [0..<2 ^ n], ps') \<and> (\<forall>k. pm_ok k (ps' k))"
  using assms
proof (induction "n - s" arbitrary: s)
  case 0
  then have s: "s = n" by simp
  obtain p' where p': "pm_apply n (vec_resize z (2 ^ n) d) (ps n) =
      (n, map (\<lambda>k. vec_resize z (2 ^ n) d ! brev n k) [0..<2 ^ n], p')" "pm_ok n p'"
    using pm_apply_ok [OF "0.prems"(5), of "vec_resize z (2 ^ n) d"] by auto
  have "pa_apply z s d ps = (n, map (\<lambda>k. vec_resize z (2 ^ n) d ! brev n k) [0..<2 ^ n], ps(n := p'))"
    using "0.prems"(2,4) p'(1) by (subst pa_apply.simps) (simp add: s)
  with p'(2) "0.prems"(5) show ?case by auto
next
  case (Suc m)
  then have s: "s < n" "m = n - Suc s" "2 ^ s < length d" by simp_all
  have "pa_apply z s d ps = pa_apply z (Suc s) d ps"
    using s Suc.prems(2) by (subst pa_apply.simps) simp
  with Suc.hyps(1) [OF s(2)] Suc.prems s show ?case by simp
qed

section \<open>Properties\<close>

text \<open>C36: \<open>apply_permutation\<close> pads a vector to the least \<open>2^n\<close> (at least 2 elements) that holds
  it and puts at every index the element of the bit-reversed index; applying it again gives the
  padded vector back. The singletons' caches do not change the result.\<close>

theorem apply_permutation_reverses:
  assumes "1 \<le> n" "n < 26" "n = 1 \<or> 2 ^ (n - 1) < length d" "length d \<le> 2 ^ n" "\<And>k. pm_ok k (ps k)"
  shows "\<exists>d' ps' ps''. apply_permutation z d ps = (n, d', ps') \<and> length d' = 2 ^ n \<and>
    (\<forall>i < 2 ^ n. d' ! i = vec_resize z (2 ^ n) d ! brev n i) \<and> (\<forall>k. pm_ok k (ps' k)) \<and>
    apply_permutation z d' ps' = (n, vec_resize z (2 ^ n) d, ps'')"
proof -
  have low: "2 ^ k < length d" if "1 \<le> k" "k < n" for k
  proof -
    have "(2 :: nat) ^ k \<le> 2 ^ (n - 1)" using that by simp
    moreover have "2 ^ (n - 1) < length d" using assms(3) that by auto
    ultimately show ?thesis by (rule le_less_trans)
  qed
  let ?d = "map (\<lambda>k. vec_resize z (2 ^ n) d ! brev n k) [0..<2 ^ n]"
  obtain ps' where 1: "apply_permutation z d ps = (n, ?d, ps')" "\<And>k. pm_ok k (ps' k)"
    using pa_apply_ok [OF assms(1,2) low assms(4,5)] unfolding apply_permutation_def by blast
  have "2 ^ k < length ?d" if "1 \<le> k" "k < n" for k using that by simp
  from pa_apply_ok [OF assms(1,2) this _ 1(2), of z] obtain ps'' where
    2: "apply_permutation z ?d ps' = (n, map (\<lambda>k. vec_resize z (2 ^ n) ?d ! brev n k) [0..<2 ^ n], ps'')"
    unfolding apply_permutation_def by auto
  have "map (\<lambda>k. vec_resize z (2 ^ n) ?d ! brev n k) [0..<2 ^ n] = vec_resize z (2 ^ n) d"
    by (intro nth_equalityI) simp_all
  with 1 2 show ?thesis by (intro exI [of _ ?d] exI [of _ ps'] exI [of _ ps'']) simp
qed

theorem apply_permutation_reverses_witness:
  "\<exists>d' ps'. apply_permutation 0 [5, 6, 7 :: int] (\<lambda>_. pm_new) = (2, d', ps') \<and> length d' = 2 ^ 2"
  using apply_permutation_reverses [of 2 "[5, 6, 7 :: int]" "\<lambda>_. pm_new" 0] by auto

end
