(* ===== verification/Zi_Size_Log2.thy ===== *)
theory Zi_Size_Log2
  imports Zi_Prelude
begin

text \<open>
  \<^verbatim>\<open>math/transforms/detail/size_log2.hpp\<close>: the rounded-up logarithm that gives the number of
  levels of a transform.
\<close>

unbundle bit_operations_syntax

text \<open>The loop of \<open>size_log2\<close>; it ends when \<open>x\<close> is 1.\<close>

partial_function (option) size_log2_loop :: "'a::len word \<Rightarrow> nat \<Rightarrow> nat \<Rightarrow> nat option" where
  "size_log2_loop x t r =
     (if x = 1 then Some r
      else
        let q = drop_bit t x
        in if q \<noteq> 0 then size_log2_loop q (t div 2) (r + t) else size_log2_loop x (t div 2) r)"

declare size_log2_loop.simps [code]

definition size_log2 :: "'a::len word \<Rightarrow> nat option" where
  "size_log2 x =
     (if x > 0
      then size_log2_loop x (LENGTH('a) div 2) (if x AND (x - 1) \<noteq> 0 then 1 else 0)
      else None)"

lemma size_log2_loop_ok:
  "x \<noteq> 0 \<Longrightarrow> unat x < 2 ^ (2 * 2 ^ i) \<Longrightarrow>
   \<exists>k. size_log2_loop (x :: 'a::len word) (2 ^ i) r = Some (r + k) \<and> 2 ^ k \<le> unat x \<and> unat x < 2 ^ Suc k"
proof (induction i arbitrary: x r)
  case 0
  have x: "unat x \<in> {1, 2, 3}" using 0 by (auto simp: unat_eq_zero [symmetric] simp del: unat_eq_zero)
  show ?case
  proof (cases "x = 1")
    case True
    then show ?thesis by (auto simp: size_log2_loop.simps [of 1] intro!: exI [of _ 0])
  next
    case False
    then have "unat x \<noteq> 1" by (metis unat_1 word_unat_eq_iff)
    with x have x: "unat x \<in> {2, 3}" by simp
    have "unat (drop_bit 1 x) = unat x div 2 ^ 1" by (subst unat_drop_bit_eq) (simp only: drop_bit_eq_div)
    with x have "unat (drop_bit 1 x) = 1" by auto
    then have "drop_bit (Suc 0) x = 1" by (metis One_nat_def unat_1 word_unat_eq_iff)
    then have "size_log2_loop x 1 r = Some (r + 1)"
      using False by (simp add: size_log2_loop.simps [of x] size_log2_loop.simps [of 1])
    with x show ?thesis by (auto intro!: exI [of _ 1])
  qed
next
  case (Suc i)
  let ?t = "2 ^ Suc i :: nat" and ?q = "drop_bit (2 ^ Suc i) x"
  have t: "?t div 2 = 2 ^ i" by simp
  have qv: "unat ?q = unat x div 2 ^ ?t" by (subst unat_drop_bit_eq) (simp only: drop_bit_eq_div)
  show ?case
  proof (cases "x = 1")
    case True
    then show ?thesis by (auto simp: size_log2_loop.simps [of 1] intro!: exI [of _ 0])
  next
    case F: False
    show ?thesis
    proof (cases "?q = 0")
      case True
      then have "unat x div 2 ^ ?t = 0" using qv by simp
      then have "unat x < 2 ^ (2 * 2 ^ i)" by (simp add: div_eq_0_iff)
      moreover have "size_log2_loop x ?t r = size_log2_loop x (2 ^ i) r"
        using F True by (subst size_log2_loop.simps) (simp only: Let_def t if_False simp_thms)
      ultimately show ?thesis using Suc.IH [OF Suc.prems(1)] by simp
    next
      case False
      have "unat ?q < 2 ^ (2 * 2 ^ i)"
        unfolding qv
        by (rule less_mult_imp_div_less) (use Suc.prems(2) in \<open>simp add: power_add [symmetric]\<close>)
      from Suc.IH [OF False this, of "r + ?t"] obtain k where
        k: "size_log2_loop ?q (2 ^ i) (r + ?t) = Some (r + ?t + k)" "2 ^ k \<le> unat ?q" "unat ?q < 2 ^ Suc k"
        by blast
      have "2 ^ (?t + k) = 2 ^ k * (2 :: nat) ^ ?t" "2 ^ Suc (?t + k) = 2 ^ Suc k * (2 :: nat) ^ ?t"
        by (simp_all add: power_add)
      moreover have P: "0 < (2 :: nat) ^ ?t" by simp
      have "2 ^ k * 2 ^ ?t \<le> unat x"
        using k(2) unfolding qv less_eq_div_iff_mult_less_eq [OF P] .
      moreover have "unat x < 2 ^ Suc k * 2 ^ ?t"
        using k(3) unfolding qv div_less_iff_less_mult [OF P] .
      moreover have "size_log2_loop x ?t r = Some (r + (?t + k))"
        using F False k(1)
        by (subst size_log2_loop.simps) (simp only: Let_def t if_False if_True simp_thms add.assoc)
      ultimately show ?thesis by (intro exI [of _ "?t + k"]) simp
    qed
  qed
qed

lemma unat_bit_top:
  assumes "2 ^ k \<le> unat (x :: 'a::len word)" "unat x < 2 ^ Suc k"
  shows "bit x k"
proof -
  have "unat x div 2 ^ k = 1" using assms by (intro div_nat_eqI) auto
  then have "bit (unat x) k" by (simp add: bit_iff_odd)
  then show ?thesis by (simp add: bit_unsigned_iff)
qed

lemma and_pred_zero:
  assumes k: "2 ^ k \<le> unat (x :: 'a::len word)" "unat x < 2 ^ Suc k"
  shows "x AND (x - 1) = 0 \<longleftrightarrow> unat x = 2 ^ k"
proof
  assume 0: "x AND (x - 1) = 0"
  show "unat x = 2 ^ k"
  proof (rule ccontr)
    assume "unat x \<noteq> 2 ^ k"
    then have "0 < unat x" "2 ^ k \<le> unat x - 1" "unat x - 1 < 2 ^ Suc k" using k by auto
    moreover from this have "unat (x - 1) = unat x - 1"
      by (metis unat_gt_0 unat_minus_one)
    ultimately have "bit (x - 1) k" "bit x k" using k unat_bit_top by metis+
    then have "bit (x AND (x - 1)) k" by (simp add: bit_and_iff)
    with 0 show False by simp
  qed
next
  assume u: "unat x = 2 ^ k"
  have kl: "k < LENGTH('a)" using unat_bit_top [OF k] by (rule bit_imp_le_length)
  have "x = push_bit k 1"
  proof (rule iffD2 [OF word_unat_eq_iff])
    show "unat x = unat (push_bit k 1 :: 'a word)"
      using kl by (subst unsigned_push_bit_eq) (simp add: u take_bit_push_bit)
  qed
  then have "x - 1 = mask k" by (simp add: mask_eq_exp_minus_1 push_bit_eq_mult)
  with \<open>x = push_bit k 1\<close> show "x AND (x - 1) = 0"
    by (intro bit_word_eqI) (auto simp: bit_simps)
qed

text \<open>\<open>size_log2\<close> of a positive 64 bit integer ends and returns the least \<open>r\<close> with
  \<open>x \<le> 2^r\<close>, the number of levels of a transform that holds \<open>x\<close> values.\<close>

theorem size_log2_correct:
  assumes "(x :: u64) > 0"
  shows "\<exists>r. size_log2 x = Some r \<and> unat x \<le> 2 ^ r \<and> (\<forall>s < r. 2 ^ s < unat x)"
proof -
  have "unat x < 2 ^ (2 * 2 ^ 5)" using unsigned_less [of x] by simp
  from size_log2_loop_ok [OF _ this, of "if x AND (x - 1) \<noteq> 0 then 1 else 0"] assms obtain k where
    k: "size_log2_loop x 32 (if x AND (x - 1) \<noteq> 0 then 1 else 0) =
        Some ((if x AND (x - 1) \<noteq> 0 then 1 else 0) + k)" "2 ^ k \<le> unat x" "unat x < 2 ^ Suc k"
    by (auto simp: word_gt_0)
  have s: "2 ^ s < unat x" if "s < k" for s
  proof -
    have "(2 :: nat) ^ s < 2 ^ k" using that by simp
    with k(2) show ?thesis by (rule less_le_trans [rotated])
  qed
  show ?thesis
  proof (cases "unat x = 2 ^ k")
    case True
    then show ?thesis using k(1) and_pred_zero [OF k(2,3)] assms s by (simp add: size_log2_def)
  next
    case False
    then have "size_log2 x = Some (Suc k)" "2 ^ k < unat x"
      using k and_pred_zero [OF k(2,3)] assms by (simp_all add: size_log2_def)
    then show ?thesis using k(3) s by (auto simp: less_Suc_eq)
  qed
qed

theorem size_log2_correct_witness: "\<exists>r. size_log2 (5 :: u64) = Some r \<and> unat (5 :: u64) \<le> 2 ^ r"
  using size_log2_correct [of 5] by auto

end
