(* ===== verification/Zi_FFT.thy ===== *)
theory Zi_FFT
  imports Complex_Main Zi_Permuter Zi_Size_Log2
begin

text \<open>
  \<^verbatim>\<open>math/transforms/detail/roots_table.hpp\<close> and \<^verbatim>\<open>math/transforms/detail/fft_radix2.hpp\<close>: the
  table of the roots of unity and the four radix-2 transforms, in place on a vector of complex
  numbers. The arithmetic of \<open>std::complex< T >\<close>, \<open>std::cos\<close> and \<open>std::sin\<close> is that of the
  complex numbers: rounding is not modelled.
\<close>

section \<open>The table of roots\<close>

record roots_table =
  rt_roots :: "complex list"
  rt_computed :: bool

definition rt_new :: roots_table where
  "rt_new = \<lparr>rt_roots = [], rt_computed = False\<rparr>"

definition rt_compute :: "nat \<Rightarrow> roots_table \<Rightarrow> roots_table" where
  "rt_compute logsz t =
     (if rt_computed t then t
      else
        let N = 2 ^ logsz;
            r0 = (replicate (N + 1) 0)[N := 1, 0 := 1];
            r1 = fold (\<lambda>i r. r[i := Complex (cos (pi * 2 * real i / real N)) (sin (pi * 2 * real i / real N))])
                   [1..<N div 2 + 1] r0;
            r2 = fold (\<lambda>i r. r[i + N div 2 := - (r ! i)]) [1..<N div 2] r1
        in \<lparr>rt_roots = r2, rt_computed = True\<rparr>)"

text \<open>\<open>roots_table_fetcher\<close>: the least table with at least \<open>s\<close> roots, or an empty vector.\<close>

function get_roots :: "nat \<Rightarrow> nat \<Rightarrow> (nat \<Rightarrow> roots_table) \<Rightarrow> complex list \<times> (nat \<Rightarrow> roots_table)" where
  "get_roots k s ts =
     (if k \<ge> 26 then ([], ts)
      else if s \<le> 2 ^ k then (let t = rt_compute k (ts k) in (rt_roots t, ts(k := t)))
      else get_roots (k + 1) s ts)"
  by pat_completeness auto
termination by (relation "measure (\<lambda>(k, s, ts). 26 - k)") auto

declare get_roots.simps [simp del]

definition get_roots_table :: "nat \<Rightarrow> (nat \<Rightarrow> roots_table) \<Rightarrow> complex list \<times> (nat \<Rightarrow> roots_table)" where
  "get_roots_table s ts = get_roots 1 s ts"

section \<open>The transforms\<close>

text \<open>The body of the innermost loop, decimation in time and in frequency.\<close>

definition dit_butterfly :: "complex \<Rightarrow> nat \<Rightarrow> nat \<Rightarrow> complex list \<Rightarrow> complex list" where
  "dit_butterfly w i0 i1 d =
     (let u = d ! i0; v = d ! i1 * w; d = d[i0 := d ! i0 + v] in d[i1 := u - v])"

definition dif_butterfly :: "complex \<Rightarrow> nat \<Rightarrow> nat \<Rightarrow> complex list \<Rightarrow> complex list" where
  "dif_butterfly w i0 i1 d =
     (let u = d ! i0; d = d[i0 := d ! i0 + d ! i1] in d[i1 := (u - d ! i1) * w])"

text \<open>One level: \<open>r\<close> runs over the multiples of \<open>m\<close> below \<open>n\<close>, \<open>w\<close> is \<open>j * da\<close>; the \<open>dfs\<close>
  versions loop over \<open>r\<close> outside, the others over \<open>j\<close>.\<close>

definition root_at :: "bool \<Rightarrow> complex list \<Rightarrow> nat \<Rightarrow> nat \<Rightarrow> complex" where
  "root_at iv roots n w = roots ! (if iv then n - w else w)"

definition dfs_level :: "(complex \<Rightarrow> nat \<Rightarrow> nat \<Rightarrow> complex list \<Rightarrow> complex list) \<Rightarrow> bool \<Rightarrow> complex list \<Rightarrow>
    nat \<Rightarrow> nat \<Rightarrow> complex list \<Rightarrow> complex list" where
  "dfs_level bf iv roots logsz l data =
     (let n = 2 ^ logsz; m = 2 ^ l; mh = m div 2; da = 2 ^ (logsz - l)
      in fold (\<lambda>b. fold (\<lambda>j. bf (root_at iv roots n (j * da)) (b * m + j) (b * m + j + mh)) [0..<mh])
           [0..<n div m] data)"

definition bfs_level :: "(complex \<Rightarrow> nat \<Rightarrow> nat \<Rightarrow> complex list \<Rightarrow> complex list) \<Rightarrow> bool \<Rightarrow> complex list \<Rightarrow>
    nat \<Rightarrow> nat \<Rightarrow> complex list \<Rightarrow> complex list" where
  "bfs_level bf iv roots logsz l data =
     (let n = 2 ^ logsz; m = 2 ^ l; mh = m div 2; da = 2 ^ (logsz - l)
      in fold (\<lambda>j. let wval = root_at iv roots n (j * da)
                   in fold (\<lambda>b. bf wval (b * m + j) (b * m + j + mh)) [0..<n div m])
           [0..<mh] data)"

record caches =
  ch_pm :: "nat \<Rightarrow> permuter"
  ch_rt :: "nat \<Rightarrow> roots_table"

definition dfs_radix_dit2 :: "bool \<Rightarrow> complex list \<Rightarrow> caches \<Rightarrow> complex list \<times> caches" where
  "dfs_radix_dit2 iv data c =
     (let (logsz, data, pm) = apply_permutation 0 data (ch_pm c);
          (roots, rt) = get_roots_table (2 ^ logsz) (ch_rt c)
      in (fold (dfs_level dit_butterfly iv roots logsz) [1..<logsz + 1] data, \<lparr>ch_pm = pm, ch_rt = rt\<rparr>))"

definition radix_dit2 :: "bool \<Rightarrow> complex list \<Rightarrow> caches \<Rightarrow> complex list \<times> caches" where
  "radix_dit2 iv data c =
     (let (logsz, data, pm) = apply_permutation 0 data (ch_pm c);
          (roots, rt) = get_roots_table (2 ^ logsz) (ch_rt c)
      in (fold (bfs_level dit_butterfly iv roots logsz) [1..<logsz + 1] data, \<lparr>ch_pm = pm, ch_rt = rt\<rparr>))"

definition dfs_radix_dif2 :: "bool \<Rightarrow> complex list \<Rightarrow> caches \<Rightarrow> (complex list \<times> caches) option" where
  "dfs_radix_dif2 iv data c =
     (if data = [] then Some (data, c)
      else
        case size_log2 (word_of_nat (length data) :: u64) of
          None \<Rightarrow> None
        | Some logsz \<Rightarrow>
            (let data = vec_resize 0 (2 ^ logsz) data;
                 (roots, rt) = get_roots_table (2 ^ logsz) (ch_rt c);
                 data = fold (dfs_level dif_butterfly iv roots logsz) (rev [1..<logsz + 1]) data;
                 (_, data, pm) = apply_permutation 0 data (ch_pm c)
             in Some (data, \<lparr>ch_pm = pm, ch_rt = rt\<rparr>)))"

definition radix_dif2 :: "bool \<Rightarrow> complex list \<Rightarrow> caches \<Rightarrow> (complex list \<times> caches) option" where
  "radix_dif2 iv data c =
     (if data = [] then Some (data, c)
      else
        case size_log2 (word_of_nat (length data) :: u64) of
          None \<Rightarrow> None
        | Some logsz \<Rightarrow>
            (let data = vec_resize 0 (2 ^ logsz) data;
                 (roots, rt) = get_roots_table (2 ^ logsz) (ch_rt c);
                 data = fold (bfs_level dif_butterfly iv roots logsz) (rev [1..<logsz + 1]) data;
                 (_, data, pm) = apply_permutation 0 data (ch_pm c)
             in Some (data, \<lparr>ch_pm = pm, ch_rt = rt\<rparr>)))"

section \<open>The roots are the powers of a primitive root\<close>

definition unit_root :: "nat \<Rightarrow> nat \<Rightarrow> complex" where
  "unit_root n k = cis (2 * pi * real k / 2 ^ n)"

lemma unit_root_add: "unit_root n (a + b) = unit_root n a * unit_root n b"
proof -
  have "2 * pi * real (a + b) / 2 ^ n = 2 * pi * real a / 2 ^ n + 2 * pi * real b / 2 ^ n"
    by (simp add: add_divide_distrib distrib_left)
  then show ?thesis by (simp add: unit_root_def cis_mult)
qed

lemma unit_root_0 [simp]: "unit_root n 0 = 1"
  by (simp add: unit_root_def)

lemma unit_root_full [simp]: "unit_root n (2 ^ n) = 1"
  by (simp add: unit_root_def cis_2pi)

lemma unit_root_half: "unit_root (Suc n) (2 ^ n) = - 1"
  by (simp add: unit_root_def)

lemma unit_root_scale: "unit_root (n + k) (a * 2 ^ k) = unit_root n a"
  by (simp add: unit_root_def power_add mult.assoc)

text \<open>The direction of the transform.\<close>

definition omega :: "bool \<Rightarrow> nat \<Rightarrow> nat \<Rightarrow> complex" where
  "omega iv n k = (if iv then cnj (unit_root n k) else unit_root n k)"

lemma omega_simps [simp]: "omega iv n 0 = 1" "omega iv n (2 ^ n) = 1"
  by (simp_all add: omega_def)

lemma omega_add: "omega iv n (a + b) = omega iv n a * omega iv n b"
  by (simp add: omega_def unit_root_add)

lemma omega_half: "omega iv (Suc n) (2 ^ n) = - 1"
  by (simp add: omega_def unit_root_half)

lemma omega_scale: "omega iv (n + k) (a * 2 ^ k) = omega iv n a"
  by (simp add: omega_def unit_root_scale)

lemma omega_double: "omega iv (Suc n) (2 * a) = omega iv n a"
  using omega_scale [of iv n 1 a] by (simp add: mult.commute)

lemma omega_period: "omega iv n (k * 2 ^ n) = 1"
  by (induction k) (simp_all add: omega_add)

lemma omega_mult_period: "omega iv n (s * (j + 2 ^ n)) = omega iv n (s * j)"
  by (simp add: distrib_left omega_add omega_period)

lemma unit_root_minus: "k \<le> 2 ^ n \<Longrightarrow> unit_root n (2 ^ n - k) = cnj (unit_root n k)"
proof -
  assume "k \<le> 2 ^ n"
  then have "unit_root n (2 ^ n - k) * unit_root n k = 1"
    by (simp flip: unit_root_add)
  moreover have "cnj (unit_root n k) * unit_root n k = 1"
    by (simp add: unit_root_def cis_cnj cis_mult)
  moreover have "unit_root n k \<noteq> 0" by (simp add: unit_root_def)
  ultimately show ?thesis by (metis mult_cancel_right)
qed

lemma fold_update:
  "k < length r \<Longrightarrow> fold (\<lambda>i r. r[i := f i]) [a..<b] r ! k = (if a \<le> k \<and> k < b then f k else r ! k)"
proof (induction b)
  case (Suc b)
  have len: "length (fold (\<lambda>i r. r[i := f i]) [a..<b] r) = length r" for b by (induction b) auto
  show ?case using Suc by (cases "a \<le> b") (auto simp: len nth_list_update less_Suc_eq)
qed simp

lemma length_fold_update: "length (fold (\<lambda>i r. r[i := f i r]) xs r) = length r"
  by (induction xs arbitrary: r) auto

lemma fold_negate:
  "b \<le> h \<Longrightarrow> k < length r \<Longrightarrow> fold (\<lambda>i r. r[i + h := - (r ! i)]) [1..<b] r ! k =
    (if 1 + h \<le> k \<and> k < b + h then - (r ! (k - h)) else r ! k :: complex)"
proof (induction b arbitrary: k)
  case (Suc b)
  let ?r = "fold (\<lambda>i r. r[i + h := - (r ! i)]) [1..<b] r"
  have len: "length ?r = length r" by (induction b) auto
  show ?case
  proof (cases "1 \<le> b \<and> k = b + h")
    case True
    then have "?r ! b = r ! b" using Suc.IH [of b] Suc.prems by simp
    with True Suc.prems len [unfolded One_nat_def] show ?thesis by simp
  next
    case False
    then show ?thesis using Suc.IH [of k] Suc.prems by (cases "1 \<le> b") auto
  qed
qed auto

definition rt_ok :: "nat \<Rightarrow> roots_table \<Rightarrow> bool" where
  "rt_ok n t \<longleftrightarrow> (rt_computed t \<longrightarrow>
     length (rt_roots t) = 2 ^ n + 1 \<and> (\<forall>i \<le> 2 ^ n. rt_roots t ! i = unit_root n i))"

lemma rt_compute_ok:
  assumes "rt_ok n t" "1 \<le> n"
  shows "rt_ok n (rt_compute n t) \<and> rt_computed (rt_compute n t)"
proof (cases "rt_computed t")
  case True
  with assms show ?thesis by (simp add: rt_compute_def)
next
  case False
  obtain n' where n: "n = Suc n'" using assms(2) by (cases n) auto
  let ?N = "2 ^ n :: nat" and ?h = "2 ^ n' :: nat"
  have h: "?N div 2 = ?h" "?N = 2 * ?h" "0 < ?h" by (simp_all add: n)
  let ?f = "\<lambda>i. Complex (cos (pi * 2 * real i / real ?N)) (sin (pi * 2 * real i / real ?N))"
  define r0 where "r0 = (replicate (?N + 1) 0)[?N := 1, 0 := 1 :: complex]"
  have len0: "length r0 = ?N + 1" by (simp only: r0_def length_list_update length_replicate)
  have r0: "r0 ! 0 = 1" "r0 ! ?N = 1"
    unfolding r0_def by (simp_all only: nth_list_update length_list_update length_replicate) simp_all
  define q1 where "q1 = fold (\<lambda>i r. r[i := ?f i]) [1..<?h + 1] r0"
  define q2 where "q2 = fold (\<lambda>i r. r[i + ?h := - (r ! i)]) [1..<?h] q1"
  have f: "?f i = unit_root n i" for i by (simp add: unit_root_def cis.code mult.commute mult.assoc)
  have len1: "length q1 = ?N + 1" using length_fold_update [of "\<lambda>i r. ?f i" "[1..<?h + 1]" r0] len0 by (simp only: q1_def)
  have len2: "length q2 = ?N + 1"
  proof -
    have "length (fold (\<lambda>i r. r[i + ?h := - (r ! i)]) xs r) = length r" for xs and r :: "complex list"
      by (induction xs arbitrary: r) auto
    with len1 show ?thesis by (simp only: q2_def)
  qed
  have r1: "q1 ! k = (if 1 \<le> k \<and> k < ?h + 1 then unit_root n k else r0 ! k)" if "k \<le> ?N" for k
    using that len0 unfolding q1_def f [symmetric] by (subst fold_update) simp_all
  have r2: "q2 ! k = (if 1 + ?h \<le> k \<and> k < ?h + ?h then - (q1 ! (k - ?h)) else q1 ! k)"
    if "k \<le> ?N" for k using that len1 unfolding q2_def by (subst fold_negate) simp_all
  have "q2 ! k = unit_root n k" if k: "k \<le> ?N" for k
  proof -
    consider "k = 0" | "k = ?N" | "1 \<le> k" "k \<le> ?h" | "?h < k" "k < ?N" using k by linarith
    then show ?thesis
    proof cases
      case 4
      then have "1 \<le> k - ?h" "k - ?h < ?h + 1" "k - ?h \<le> ?N" "1 + ?h \<le> k" "k < ?h + ?h"
        using h by linarith+
      then have "q2 ! k = - unit_root n (k - ?h)" using k by (simp only: r1 r2 if_True simp_thms)
      also have "\<dots> = unit_root n (?h + (k - ?h))" by (simp only: unit_root_add) (simp add: n unit_root_half)
      finally show ?thesis using 4 by simp
    next
      case 2
      then have "\<not> k < ?h + ?h" "\<not> k < ?h + 1" using h by linarith+
      then have "q2 ! k = r0 ! k" by (simp only: r2 [OF k] r1 [OF k] if_False simp_thms)
      then show ?thesis using 2 r0(2) by (simp only: unit_root_full)
    qed (use k h r0 in \<open>simp_all add: r1 r2\<close>)
  qed
  moreover have "rt_compute n t = \<lparr>rt_roots = q2, rt_computed = True\<rparr>"
    using False by (simp add: rt_compute_def Let_def h(1) r0_def q1_def q2_def)
  ultimately show ?thesis using len2 by (simp add: rt_ok_def)
qed

lemma get_roots_ok:
  assumes "k \<le> n" "1 \<le> n" "n < 26" "\<And>i. rt_ok i (ts i)"
  shows "\<exists>roots ts'. get_roots k (2 ^ n) ts = (roots, ts') \<and> (\<forall>i \<le> 2 ^ n. roots ! i = unit_root n i) \<and>
    (\<forall>i. rt_ok i (ts' i))"
  using assms(1)
proof (induction "n - k" arbitrary: k)
  case 0
  then have k: "k = n" by simp
  note R = rt_compute_ok [OF assms(4) assms(2)]
  have "get_roots k (2 ^ n) ts = (rt_roots (rt_compute n (ts n)), ts(n := rt_compute n (ts n)))"
    using assms(3) by (subst get_roots.simps) (simp add: k Let_def)
  with R assms(4) show ?case by (auto simp: rt_ok_def)
next
  case (Suc m)
  then have "k < n" "m = n - Suc k" by simp_all
  moreover from this have "get_roots k (2 ^ n) ts = get_roots (Suc k) (2 ^ n) ts"
    using assms(3) by (subst get_roots.simps) simp
  ultimately show ?case using Suc.hyps(1) [of "Suc k"] by simp
qed

lemma get_roots_table_ok:
  assumes "1 \<le> n" "n < 26" "\<And>i. rt_ok i (ts i)"
  shows "\<exists>roots ts'. get_roots_table (2 ^ n) ts = (roots, ts') \<and>
    (\<forall>i \<le> 2 ^ n. roots ! i = unit_root n i) \<and> (\<forall>i. rt_ok i (ts' i))"
  unfolding get_roots_table_def using assms by (intro get_roots_ok) auto

lemma root_at_omega:
  assumes "\<forall>i \<le> 2 ^ n. roots ! i = unit_root n i" "w \<le> 2 ^ n"
  shows "root_at iv roots (2 ^ n) w = omega iv n w"
  using assms by (simp add: root_at_def omega_def unit_root_minus)

section \<open>One level, in either order of the loops\<close>

text \<open>A butterfly reads two elements and replaces them.\<close>

definition butterfly :: "(complex \<Rightarrow> nat \<Rightarrow> nat \<Rightarrow> complex list \<Rightarrow> complex list) \<Rightarrow>
    (complex \<Rightarrow> complex \<Rightarrow> complex \<Rightarrow> complex) \<Rightarrow> (complex \<Rightarrow> complex \<Rightarrow> complex \<Rightarrow> complex) \<Rightarrow> bool" where
  "butterfly bf f g \<longleftrightarrow> (\<forall>w i0 i1 d. i0 \<noteq> i1 \<longrightarrow>
     bf w i0 i1 d = d[i0 := f w (d ! i0) (d ! i1), i1 := g w (d ! i0) (d ! i1)])"

lemma butterfly_dit: "butterfly dit_butterfly (\<lambda>w a b. a + b * w) (\<lambda>w a b. a - b * w)"
  by (simp add: butterfly_def dit_butterfly_def Let_def)

lemma butterfly_dif: "butterfly dif_butterfly (\<lambda>w a b. a + b) (\<lambda>w a b. (a - b) * w)"
  by (simp add: butterfly_def dif_butterfly_def Let_def)

lemma fold_product:
  "fold (\<lambda>x. fold (h x) ys) xs d = fold (\<lambda>(x, y). h x y) (List.product xs ys) d"
proof (induction xs arbitrary: d)
  case (Cons x xs)
  have "fold (h x) ys d = fold (\<lambda>(x, y). h x y) (map (Pair x) ys) d" by (simp add: fold_map o_def)
  with Cons show ?case by simp
qed simp

text \<open>Positions of the pairs of a level.\<close>

lemma level_pos:
  assumes "j < (h :: nat)" "j' < h"
  shows "b * (2 * h) + j = b' * (2 * h) + j' \<longleftrightarrow> b = b' \<and> j = j'"
    "b * (2 * h) + j \<noteq> b' * (2 * h) + j' + h"
proof -
  have p: "(b * (2 * h) + j) mod (2 * h) = j" "(b * (2 * h) + j) div (2 * h) = b" using assms by auto
  have "(b' * (2 * h) + j') mod (2 * h) = j'" "(b' * (2 * h) + j') div (2 * h) = b'" using assms by auto
  with p show "b * (2 * h) + j = b' * (2 * h) + j' \<longleftrightarrow> b = b' \<and> j = j'" by metis
  have "(b' * (2 * h) + j' + h) mod (2 * h) = j' + h"
    using assms by (simp add: add.assoc)
  with p(1) assms show "b * (2 * h) + j \<noteq> b' * (2 * h) + j' + h" by (metis not_add_less2)
qed

lemma fold_butterflies:
  assumes bf: "butterfly bf f g" and d: "length d = B * (2 * h)"
    and qs: "distinct qs" "\<forall>(b, j) \<in> set qs. b < B \<and> j < h"
  shows "length (fold (\<lambda>(b, j). bf (w j) (b * (2 * h) + j) (b * (2 * h) + j + h)) qs d) = length d \<and>
    (\<forall>b < B. \<forall>j < h.
      fold (\<lambda>(b, j). bf (w j) (b * (2 * h) + j) (b * (2 * h) + j + h)) qs d ! (b * (2 * h) + j) =
        (if (b, j) \<in> set qs then f (w j) (d ! (b * (2 * h) + j)) (d ! (b * (2 * h) + j + h))
         else d ! (b * (2 * h) + j)) \<and>
      fold (\<lambda>(b, j). bf (w j) (b * (2 * h) + j) (b * (2 * h) + j + h)) qs d ! (b * (2 * h) + j + h) =
        (if (b, j) \<in> set qs then g (w j) (d ! (b * (2 * h) + j)) (d ! (b * (2 * h) + j + h))
         else d ! (b * (2 * h) + j + h)))"
  using qs
proof (induction qs rule: rev_induct)
  case Nil
  then show ?case by simp
next
  case (snoc q qs)
  obtain b0 j0 where q: "q = (b0, j0)" by fastforce
  let ?F = "\<lambda>qs. fold (\<lambda>(b, j). bf (w j) (b * (2 * h) + j) (b * (2 * h) + j + h)) qs d"
  define E where "E = ?F qs"
  define G where "G = ?F (qs @ [q])"
  have b0: "b0 < B" "j0 < h" "(b0, j0) \<notin> set qs" using snoc.prems q by auto
  have IH: "length E = length d"
    "\<And>b j. b < B \<Longrightarrow> j < h \<Longrightarrow> E ! (b * (2 * h) + j) =
        (if (b, j) \<in> set qs then f (w j) (d ! (b * (2 * h) + j)) (d ! (b * (2 * h) + j + h))
         else d ! (b * (2 * h) + j))"
    "\<And>b j. b < B \<Longrightarrow> j < h \<Longrightarrow> E ! (b * (2 * h) + j + h) =
        (if (b, j) \<in> set qs then g (w j) (d ! (b * (2 * h) + j)) (d ! (b * (2 * h) + j + h))
         else d ! (b * (2 * h) + j + h))"
    using snoc.IH snoc.prems unfolding E_def by auto
  let ?i = "b0 * (2 * h) + j0"
  have "Suc b0 * (2 * h) \<le> B * (2 * h)" using b0(1) by (intro mult_right_mono) auto
  then have len: "?i + h < length E" using d b0(2) IH(1) by simp
  have ih: "?i \<noteq> ?i + h" using b0(2) by simp
  have "G = bf (w j0) ?i (?i + h) E" by (simp add: G_def E_def q)
  then have step: "G = E[?i := f (w j0) (d ! ?i) (d ! (?i + h)), ?i + h := g (w j0) (d ! ?i) (d ! (?i + h))]"
    using bf ih IH(2,3) [OF b0(1,2)] b0(3) by (simp add: butterfly_def)
  have "G ! (b * (2 * h) + j) = (if (b, j) \<in> set (qs @ [q])
        then f (w j) (d ! (b * (2 * h) + j)) (d ! (b * (2 * h) + j + h)) else d ! (b * (2 * h) + j)) \<and>
      G ! (b * (2 * h) + j + h) = (if (b, j) \<in> set (qs @ [q])
        then g (w j) (d ! (b * (2 * h) + j)) (d ! (b * (2 * h) + j + h)) else d ! (b * (2 * h) + j + h))"
    if bj: "b < B" "j < h" for b j
  proof (cases "b = b0 \<and> j = j0")
    case True
    then show ?thesis using len ih by (simp add: step q)
  next
    case False
    then show ?thesis
      using IH(2,3) [OF bj] level_pos [OF bj(2) b0(2), of b b0] level_pos(2) [OF b0(2) bj(2), of b0 b]
      by (auto simp: step q)
  qed
  moreover have "length G = length d" by (simp add: step IH(1))
  ultimately show ?case unfolding G_def by blast
qed

text \<open>What a level does to the pair of positions \<open>j\<close> and \<open>j + h\<close> of every block.\<close>

definition level_spec :: "(complex \<Rightarrow> complex \<Rightarrow> complex \<Rightarrow> complex) \<Rightarrow> (complex \<Rightarrow> complex \<Rightarrow> complex \<Rightarrow> complex) \<Rightarrow>
    bool \<Rightarrow> nat \<Rightarrow> nat \<Rightarrow> complex list \<Rightarrow> complex list \<Rightarrow> bool" where
  "level_spec f g iv S l d d' \<longleftrightarrow> length d' = 2 ^ S \<and>
     (\<forall>b < 2 ^ (S - Suc l). \<forall>j < 2 ^ l.
        d' ! (b * 2 ^ Suc l + j) =
          f (omega iv (Suc l) j) (d ! (b * 2 ^ Suc l + j)) (d ! (b * 2 ^ Suc l + j + 2 ^ l)) \<and>
        d' ! (b * 2 ^ Suc l + j + 2 ^ l) =
          g (omega iv (Suc l) j) (d ! (b * 2 ^ Suc l + j)) (d ! (b * 2 ^ Suc l + j + 2 ^ l)))"

lemma level_ok:
  assumes bf: "butterfly bf f g" and roots: "\<forall>i \<le> 2 ^ S. roots ! i = unit_root S i"
    and l: "Suc l \<le> S" and d: "length d = 2 ^ S"
  shows "level_spec f g iv S l d (dfs_level bf iv roots S (Suc l) d)"
    and "level_spec f g iv S l d (bfs_level bf iv roots S (Suc l) d)"
proof -
  let ?h = "2 ^ l :: nat" and ?B = "2 ^ (S - Suc l) :: nat"
  let ?w = "\<lambda>j. root_at iv roots (2 ^ S) (j * 2 ^ (S - Suc l))"
  have S: "(2 :: nat) ^ S = ?B * 2 ^ Suc l" unfolding power_add [symmetric] using l by simp
  have B: "2 ^ S div 2 ^ Suc l = ?B" unfolding S by simp
  have m: "(2 :: nat) ^ Suc l = 2 * ?h" "(2 :: nat) ^ Suc l div 2 = ?h" by simp_all
  have dB: "length d = ?B * (2 * ?h)" using d S m(1) by (simp only:)
  have w: "?w j = omega iv (Suc l) j" if "j < ?h" for j
  proof -
    have "j * ?B \<le> 2 ^ Suc l * ?B" using that by (intro mult_right_mono) auto
    then have "?w j = omega iv S (j * ?B)" by (intro root_at_omega [OF roots]) (simp only: S mult.commute)
    also have "\<dots> = omega iv (Suc l + (S - Suc l)) (j * ?B)" using l by simp
    finally show ?thesis by (simp only: omega_scale)
  qed
  have spec: "level_spec f g iv S l d (fold (\<lambda>(b, j). bf (?w j) (b * (2 * ?h) + j) (b * (2 * ?h) + j + ?h)) qs d)"
    if "distinct qs" "set qs = {0..<?B} \<times> {0..<?h}" for qs
    using fold_butterflies [OF bf dB that(1), of ?w] that(2) w
    unfolding level_spec_def d m(1) by auto
  have "dfs_level bf iv roots S (Suc l) d =
      fold (\<lambda>(b, j). bf (?w j) (b * (2 * ?h) + j) (b * (2 * ?h) + j + ?h))
        (List.product [0..<?B] [0..<?h]) d"
    unfolding dfs_level_def Let_def fold_product B m(2) unfolding m(1) ..
  then show "level_spec f g iv S l d (dfs_level bf iv roots S (Suc l) d)"
    using spec [of "List.product [0..<?B] [0..<?h]"] by (simp add: distinct_product)
  have "bfs_level bf iv roots S (Suc l) d =
      fold (\<lambda>(j, b). bf (?w j) (b * (2 * ?h) + j) (b * (2 * ?h) + j + ?h))
        (List.product [0..<?h] [0..<?B]) d"
    unfolding bfs_level_def Let_def fold_product B m(2) unfolding m(1) ..
  also have "\<dots> = fold (\<lambda>(b, j). bf (?w j) (b * (2 * ?h) + j) (b * (2 * ?h) + j + ?h))
        (map prod.swap (List.product [0..<?h] [0..<?B])) d"
    by (simp add: fold_map o_def prod.swap_def case_prod_unfold)
  finally show "level_spec f g iv S l d (bfs_level bf iv roots S (Suc l) d)"
    using spec [of "map prod.swap (List.product [0..<?h] [0..<?B])"]
    by (simp add: distinct_product distinct_map product_swap)
qed

section \<open>Decimation in time\<close>

definition dft :: "bool \<Rightarrow> nat \<Rightarrow> complex list \<Rightarrow> nat \<Rightarrow> complex" where
  "dft iv n x k = (\<Sum>t<2 ^ n. x ! t * omega iv n (t * k))"

lemma sum_even_odd: "(\<Sum>t<2 * (n :: nat). f t) = (\<Sum>s<n. f (2 * s)) + (\<Sum>s<n. f (2 * s + 1) :: complex)"
  by (induction n) (simp_all add: algebra_simps)

lemma sum_halves: "(\<Sum>t<2 * (n :: nat). f t) = (\<Sum>s<n. f s) + (\<Sum>s<n. f (s + n) :: complex)"
proof -
  have "(\<Sum>t<2 * n. f t) = (\<Sum>t<n. f t) + (\<Sum>t=n..<n + n. f t)"
    by (simp add: mult_2 lessThan_atLeast0 sum.atLeastLessThan_concat)
  also have "(\<Sum>t=n..<n + n. f t) = (\<Sum>s<n. f (s + n))"
    using sum.shift_bounds_nat_ivl [of f 0 n n] by (simp add: lessThan_atLeast0)
  finally show ?thesis .
qed

text \<open>The transform of the block \<open>b\<close> of \<open>2^l\<close> elements in bit-reversed order.\<close>

definition block_dft :: "bool \<Rightarrow> nat \<Rightarrow> complex list \<Rightarrow> nat \<Rightarrow> nat \<Rightarrow> complex" where
  "block_dft iv l y b k = (\<Sum>t<2 ^ l. y ! (b * 2 ^ l + brev l t) * omega iv l (t * k))"

lemma block_dft_Suc:
  "block_dft iv (Suc l) y b k =
     block_dft iv l y (2 * b) k + block_dft iv l y (2 * b + 1) k * omega iv (Suc l) k"
proof -
  have "brev (Suc l) (2 * s) = brev l s" "brev (Suc l) (2 * s + 1) = 2 ^ l + brev l s" for s
    by simp_all
  moreover have "b * 2 ^ Suc l + brev l s = 2 * b * 2 ^ l + brev l s"
    "b * 2 ^ Suc l + (2 ^ l + brev l s) = (2 * b + 1) * 2 ^ l + brev l s" for s
    by (simp_all add: algebra_simps)
  ultimately have "block_dft iv (Suc l) y b k =
      (\<Sum>s<2 ^ l. y ! (2 * b * 2 ^ l + brev l s) * omega iv (Suc l) (2 * s * k)) +
      (\<Sum>s<2 ^ l. y ! ((2 * b + 1) * 2 ^ l + brev l s) * omega iv (Suc l) ((2 * s + 1) * k))"
    unfolding block_dft_def power_Suc [of 2 l] sum_even_odd by (simp only: power_Suc)
  moreover have "omega iv (Suc l) (2 * s * k) = omega iv l (s * k)" for s
    using omega_double [of iv l "s * k"] by (simp add: mult.assoc)
  moreover have "omega iv (Suc l) ((2 * s + 1) * k) = omega iv l (s * k) * omega iv (Suc l) k" for s
    using omega_double [of iv l "s * k"] by (simp add: distrib_right omega_add mult.assoc)
  ultimately show ?thesis by (simp add: block_dft_def sum_distrib_right mult.assoc)
qed

lemma block_dft_period: "block_dft iv l y b (k + 2 ^ l) = block_dft iv l y b k"
  by (simp add: block_dft_def omega_mult_period)

lemma dit_levels:
  assumes step: "\<And>l d. Suc l \<le> S \<Longrightarrow> length d = 2 ^ S \<Longrightarrow>
      level_spec (\<lambda>w a b. a + b * w) (\<lambda>w a b. a - b * w) iv S l d (level (Suc l) d)"
    and y: "length y = 2 ^ S"
  shows "l \<le> S \<Longrightarrow> length (fold level [1..<l + 1] y) = 2 ^ S \<and>
    (\<forall>b < 2 ^ (S - l). \<forall>k < 2 ^ l. fold level [1..<l + 1] y ! (b * 2 ^ l + k) = block_dft iv l y b k)"
proof (induction l)
  case 0
  then show ?case using y by (simp add: block_dft_def)
next
  case (Suc l)
  define d where "d = fold level [1..<l + 1] y"
  have len: "length d = 2 ^ S"
    and IH: "\<And>b k. b < 2 ^ (S - l) \<Longrightarrow> k < 2 ^ l \<Longrightarrow> d ! (b * 2 ^ l + k) = block_dft iv l y b k"
    using Suc by (auto simp: d_def)
  have fold: "fold level [1..<Suc l + 1] y = level (Suc l) d" by (simp add: d_def)
  note L = step [OF Suc.prems len, unfolded level_spec_def]
  have "level (Suc l) d ! (b * 2 ^ Suc l + k) = block_dft iv (Suc l) y b k"
    if b: "b < 2 ^ (S - Suc l)" and k: "k < 2 ^ Suc l" for b k
  proof -
    have "S - l = Suc (S - Suc l)" using Suc.prems by simp
    then have bb: "2 * b < 2 ^ (S - l)" "2 * b + 1 < 2 ^ (S - l)" using b by auto
    obtain j where j: "j < 2 ^ l" and kj: "k = j \<or> k = j + 2 ^ l"
    proof (cases "k < 2 ^ l")
      case True
      with that show thesis by blast
    next
      case False
      then have "k - 2 ^ l < 2 ^ l" "k = k - 2 ^ l + 2 ^ l" using k by simp_all
      with that show thesis by blast
    qed
    have idx: "b * 2 ^ Suc l + j = 2 * b * 2 ^ l + j" "b * 2 ^ Suc l + j + 2 ^ l = (2 * b + 1) * 2 ^ l + j"
      by (simp_all add: algebra_simps)
    note lo = IH [OF bb(1) j] and hi = IH [OF bb(2) j]
    note Lbj = L [THEN conjunct2, rule_format, OF b j]
    from kj show ?thesis
    proof
      assume 1: "k = j"
      have "level (Suc l) d ! (b * 2 ^ Suc l + j) = block_dft iv l y (2 * b) j +
          block_dft iv l y (2 * b + 1) j * omega iv (Suc l) j"
        using Lbj unfolding idx(2) unfolding idx(1) lo hi by (rule conjunct1)
      then show ?thesis unfolding 1 block_dft_Suc .
    next
      assume 2: "k = j + 2 ^ l"
      have "level (Suc l) d ! (b * 2 ^ Suc l + j + 2 ^ l) = block_dft iv l y (2 * b) j -
          block_dft iv l y (2 * b + 1) j * omega iv (Suc l) j"
        using Lbj unfolding idx(2) unfolding idx(1) lo hi by (rule conjunct2)
      then show ?thesis
        unfolding 2 block_dft_Suc block_dft_period omega_add omega_half add.assoc [symmetric] by simp
    qed
  qed
  then show ?case using L unfolding fold by blast
qed

lemma dit_result:
  assumes "\<And>l d. Suc l \<le> S \<Longrightarrow> length d = 2 ^ S \<Longrightarrow>
      level_spec (\<lambda>w a b. a + b * w) (\<lambda>w a b. a - b * w) iv S l d (level (Suc l) d)"
    and x: "length x = 2 ^ S"
  shows "fold level [1..<S + 1] (map (\<lambda>k. x ! brev S k) [0..<2 ^ S]) = map (dft iv S x) [0..<2 ^ S]"
proof -
  let ?y = "map (\<lambda>k. x ! brev S k) [0..<2 ^ S]"
  have y: "length ?y = 2 ^ S" by simp
  note R = dit_levels [OF assms(1) y order_refl]
  have "block_dft iv S ?y 0 k = dft iv S x k" for k
    by (simp add: block_dft_def dft_def)
  with R show ?thesis by (intro nth_equalityI) simp_all
qed

section \<open>Decimation in frequency\<close>

definition part_dft :: "bool \<Rightarrow> nat \<Rightarrow> complex list \<Rightarrow> nat \<Rightarrow> nat \<Rightarrow> complex" where
  "part_dft iv l d b k = (\<Sum>t<2 ^ l. d ! (b * 2 ^ l + t) * omega iv l (t * k))"

lemma part_dft_Suc:
  assumes L: "level_spec (\<lambda>w a b. a + b) (\<lambda>w a b. (a - b) * w) iv S l d d'"
    and b: "b < 2 ^ (S - Suc l)"
  shows "part_dft iv l d' (2 * b) k = part_dft iv (Suc l) d b (2 * k)"
    "part_dft iv l d' (2 * b + 1) k = part_dft iv (Suc l) d b (2 * k + 1)"
proof -
  let ?a = "\<lambda>j. d ! (b * 2 ^ Suc l + j)" and ?c = "\<lambda>j. d ! (b * 2 ^ Suc l + j + 2 ^ l)"
  have idx: "2 * b * 2 ^ l + j = b * 2 ^ Suc l + j" "(2 * b + 1) * 2 ^ l + j = b * 2 ^ Suc l + j + 2 ^ l" for j
    by (simp_all add: algebra_simps)
  note Lb = L [unfolded level_spec_def, THEN conjunct2, rule_format, OF b]
  have split: "part_dft iv (Suc l) d b q =
      (\<Sum>j<2 ^ l. ?a j * omega iv (Suc l) (j * q) + ?c j * omega iv (Suc l) ((j + 2 ^ l) * q))" for q
    unfolding part_dft_def power_Suc [of 2 l] sum_halves
    by (simp add: sum.distrib add.assoc)
  have even: "omega iv (Suc l) (j * (2 * k)) = omega iv l (j * k)" for j
    using omega_double [of iv l "j * k"] by (simp add: mult.left_commute)
  have period: "omega iv (Suc l) ((j + 2 ^ l) * (2 * k)) = omega iv l (j * k)" for j
  proof -
    have "(j + 2 ^ l) * (2 * k) = 2 * (k * (j + 2 ^ l))" by (simp add: algebra_simps)
    then show ?thesis by (simp only: omega_double omega_mult_period mult.commute [of k j])
  qed
  have odd: "omega iv (Suc l) (j * (2 * k + 1)) = omega iv l (j * k) * omega iv (Suc l) j" for j
    by (simp add: distrib_left omega_add even)
  have odd': "omega iv (Suc l) ((j + 2 ^ l) * (2 * k + 1)) = - (omega iv l (j * k) * omega iv (Suc l) j)" for j
    by (simp only: distrib_left omega_add period mult_1_right omega_half) simp
  show "part_dft iv l d' (2 * b) k = part_dft iv (Suc l) d b (2 * k)"
    unfolding split period unfolding even unfolding part_dft_def idx
    by (intro sum.cong refl) (use Lb in \<open>simp add: distrib_right\<close>)
  show "part_dft iv l d' (2 * b + 1) k = part_dft iv (Suc l) d b (2 * k + 1)"
    unfolding split odd' unfolding odd unfolding part_dft_def idx
  proof (intro sum.cong refl)
    fix j :: nat assume "j \<in> {..<2 ^ l}"
    then have "d' ! (b * 2 ^ Suc l + j + 2 ^ l) = (?a j - ?c j) * omega iv (Suc l) j" using Lb by simp
    then show "d' ! (b * 2 ^ Suc l + j + 2 ^ l) * omega iv l (j * k) =
        ?a j * (omega iv l (j * k) * omega iv (Suc l) j) +
        ?c j * - (omega iv l (j * k) * omega iv (Suc l) j)"
      by (simp only:) (simp add: left_diff_distrib)
  qed
qed

lemma dif_levels:
  assumes step: "\<And>l d. Suc l \<le> S \<Longrightarrow> length d = 2 ^ S \<Longrightarrow>
      level_spec (\<lambda>w a b. a + b) (\<lambda>w a b. (a - b) * w) iv S l d (level (Suc l) d)"
  shows "l \<le> S \<Longrightarrow> length d = 2 ^ S \<Longrightarrow> length (fold level (rev [1..<l + 1]) d) = 2 ^ S \<and>
    (\<forall>b < 2 ^ (S - l). \<forall>k < 2 ^ l.
       fold level (rev [1..<l + 1]) d ! (b * 2 ^ l + brev l k) = part_dft iv l d b k)"
proof (induction l arbitrary: d)
  case 0
  then show ?case by (simp add: part_dft_def)
next
  case (Suc l)
  define d1 where "d1 = level (Suc l) d"
  have L: "level_spec (\<lambda>w a b. a + b) (\<lambda>w a b. (a - b) * w) iv S l d d1"
    unfolding d1_def by (rule step [OF Suc.prems])
  then have "length d1 = 2 ^ S" by (simp add: level_spec_def)
  with Suc have len: "length (fold level (rev [1..<l + 1]) d1) = 2 ^ S"
    and IH: "\<And>b k. b < 2 ^ (S - l) \<Longrightarrow> k < 2 ^ l \<Longrightarrow>
      fold level (rev [1..<l + 1]) d1 ! (b * 2 ^ l + brev l k) = part_dft iv l d1 b k" by auto
  have fold: "fold level (rev [1..<Suc l + 1]) d = fold level (rev [1..<l + 1]) d1" by (simp add: d1_def)
  have "fold level (rev [1..<l + 1]) d1 ! (b * 2 ^ Suc l + brev (Suc l) k) = part_dft iv (Suc l) d b k"
    if b: "b < 2 ^ (S - Suc l)" and k: "k < 2 ^ Suc l" for b k
  proof -
    have "S - l = Suc (S - Suc l)" using Suc.prems by simp
    then have bb: "2 * b < 2 ^ (S - l)" "2 * b + 1 < 2 ^ (S - l)" using b by auto
    have kd: "k div 2 < 2 ^ l" using k by auto
    show ?thesis
    proof (cases "even k")
      case True
      then have "b * 2 ^ Suc l + brev (Suc l) k = 2 * b * 2 ^ l + brev l (k div 2)"
        by (simp add: algebra_simps)
      then have "fold level (rev [1..<l + 1]) d1 ! (b * 2 ^ Suc l + brev (Suc l) k) =
          part_dft iv l d1 (2 * b) (k div 2)" using IH [OF bb(1) kd] by (simp only:)
      also have "\<dots> = part_dft iv (Suc l) d b (2 * (k div 2))" by (rule part_dft_Suc(1) [OF L b])
      finally show ?thesis using True by simp
    next
      case False
      then have "k mod 2 = 1" by (simp add: odd_iff_mod_2_eq_one)
      then have "b * 2 ^ Suc l + brev (Suc l) k = (2 * b + 1) * 2 ^ l + brev l (k div 2)"
        by (simp add: algebra_simps)
      then have "fold level (rev [1..<l + 1]) d1 ! (b * 2 ^ Suc l + brev (Suc l) k) =
          part_dft iv l d1 (2 * b + 1) (k div 2)" using IH [OF bb(2) kd] by (simp only:)
      also have "\<dots> = part_dft iv (Suc l) d b (2 * (k div 2) + 1)" by (rule part_dft_Suc(2) [OF L b])
      finally show ?thesis using False by simp
    qed
  qed
  then show ?case using len unfolding fold by blast
qed

lemma dif_result:
  assumes "\<And>l d. Suc l \<le> S \<Longrightarrow> length d = 2 ^ S \<Longrightarrow>
      level_spec (\<lambda>w a b. a + b) (\<lambda>w a b. (a - b) * w) iv S l d (level (Suc l) d)"
    and x: "length x = 2 ^ S"
  shows "map (\<lambda>k. fold level (rev [1..<S + 1]) x ! brev S k) [0..<2 ^ S] = map (dft iv S x) [0..<2 ^ S]"
    and "length (fold level (rev [1..<S + 1]) x) = 2 ^ S"
proof -
  note R = dif_levels [OF assms(1) order_refl x]
  have "part_dft iv S x 0 k = dft iv S x k" for k by (simp add: part_dft_def dft_def)
  with R show "map (\<lambda>k. fold level (rev [1..<S + 1]) x ! brev S k) [0..<2 ^ S] = map (dft iv S x) [0..<2 ^ S]"
    by (intro nth_equalityI) simp_all
  show "length (fold level (rev [1..<S + 1]) x) = 2 ^ S" using R by blast
qed

section \<open>Properties\<close>

definition caches_ok :: "caches \<Rightarrow> bool" where
  "caches_ok c \<longleftrightarrow> (\<forall>k. pm_ok k (ch_pm c k)) \<and> (\<forall>k. rt_ok k (ch_rt c k))"

definition new_caches :: caches where
  "new_caches = \<lparr>ch_pm = \<lambda>_. pm_new, ch_rt = \<lambda>_. rt_new\<rparr>"

lemma caches_ok_new: "caches_ok new_caches"
  by (simp add: caches_ok_def new_caches_def rt_ok_def rt_new_def)

lemma low_powers:
  fixes len :: nat
  assumes "n = 1 \<or> 2 ^ (n - 1) < len" "1 \<le> k" "k < n"
  shows "2 ^ k < len"
proof -
  have "(2 :: nat) ^ k \<le> 2 ^ (n - 1)" using assms(2,3) by simp
  moreover have "2 ^ (n - 1) < len" using assms by auto
  ultimately show ?thesis by (rule le_less_trans)
qed

text \<open>C7: both decimation-in-time transforms compute the discrete Fourier transform, forward or
  inverse (without scaling), of the data padded with zeros to the least power of two (at least
  2), for up to \<open>2^25\<close> values and whatever tables previous calls have left; the order of the two
  inner loops makes no difference.\<close>

theorem dit2_is_dft:
  assumes "1 \<le> n" "n < 26" "n = 1 \<or> 2 ^ (n - 1) < length d" "length d \<le> 2 ^ n" "caches_ok c"
  shows "\<exists>c'. dfs_radix_dit2 iv d c = (map (dft iv n (vec_resize 0 (2 ^ n) d)) [0..<2 ^ n], c') \<and>
    radix_dit2 iv d c = (map (dft iv n (vec_resize 0 (2 ^ n) d)) [0..<2 ^ n], c') \<and> caches_ok c'"
proof -
  let ?x = "vec_resize 0 (2 ^ n) d"
  have pm: "\<And>k. pm_ok k (ch_pm c k)" and rt: "\<And>k. rt_ok k (ch_rt c k)"
    using assms(5) by (auto simp: caches_ok_def)
  obtain ps where p: "apply_permutation 0 d (ch_pm c) = (n, map (\<lambda>k. ?x ! brev n k) [0..<2 ^ n], ps)"
    "\<And>k. pm_ok k (ps k)"
    using pa_apply_ok [OF assms(1,2) low_powers [OF assms(3)] assms(4) pm]
    unfolding apply_permutation_def by blast
  obtain roots ts where r: "get_roots_table (2 ^ n) (ch_rt c) = (roots, ts)"
    "\<forall>i \<le> 2 ^ n. roots ! i = unit_root n i" "\<And>k. rt_ok k (ts k)"
    using get_roots_table_ok [OF assms(1,2) rt] by blast
  have x: "length ?x = 2 ^ n" by simp
  note res = dit_result [OF level_ok(1) [OF butterfly_dit r(2)] x]
    dit_result [OF level_ok(2) [OF butterfly_dit r(2)] x]
  show ?thesis
    using p r res by (auto simp: dfs_radix_dit2_def radix_dit2_def caches_ok_def)
qed

theorem dit2_is_dft_witness:
  "\<exists>c'. dfs_radix_dit2 False [1, 2, 3] new_caches = (map (dft False 2 (vec_resize 0 (2 ^ 2) [1, 2, 3])) [0..<2 ^ 2], c')"
  using dit2_is_dft [of 2 "[1, 2, 3]" new_caches False] caches_ok_new by auto

text \<open>C14: both decimation-in-frequency transforms compute the discrete Fourier transform of the
  data padded to a power of two, for 2 to \<open>2^25\<close> values; the bit reversal comes last.\<close>

theorem dif2_is_dft:
  assumes "2 \<le> length d" "length d \<le> 2 ^ 25" "caches_ok c"
  shows "\<exists>n c'. 2 ^ (n - 1) < length d \<and> length d \<le> 2 ^ n \<and>
    dfs_radix_dif2 iv d c = Some (map (dft iv n (vec_resize 0 (2 ^ n) d)) [0..<2 ^ n], c') \<and>
    radix_dif2 iv d c = Some (map (dft iv n (vec_resize 0 (2 ^ n) d)) [0..<2 ^ n], c') \<and> caches_ok c'"
proof -
  have len: "unat (word_of_nat (length d) :: u64) = length d"
    using assms(2) by (simp add: unat_of_nat)
  then have "(word_of_nat (length d) :: u64) > 0" using assms(1) by (auto simp: word_less_nat_alt)
  from size_log2_correct [OF this] obtain n where
    n: "size_log2 (word_of_nat (length d) :: u64) = Some n" "length d \<le> 2 ^ n" "\<forall>s < n. 2 ^ s < length d"
    unfolding len by blast
  have n1: "1 \<le> n" using n(2) assms(1) by (cases n) auto
  have n26: "n < 26" using n(3) [rule_format, of 25] assms(2) by linarith
  have low: "2 ^ (n - 1) < length d" using n(3) n1 by simp
  let ?x = "vec_resize 0 (2 ^ n) d"
  have pm: "\<And>k. pm_ok k (ch_pm c k)" and rt: "\<And>k. rt_ok k (ch_rt c k)"
    using assms(3) by (auto simp: caches_ok_def)
  obtain roots ts where r: "get_roots_table (2 ^ n) (ch_rt c) = (roots, ts)"
    "\<forall>i \<le> 2 ^ n. roots ! i = unit_root n i" "\<And>k. rt_ok k (ts k)"
    using get_roots_table_ok [OF n1 n26 rt] by blast
  have perm: "\<exists>ps. apply_permutation 0 y (ch_pm c) = (n, map (\<lambda>k. y ! brev n k) [0..<2 ^ n], ps) \<and>
      (\<forall>k. pm_ok k (ps k))" if "length y = 2 ^ n" for y :: "complex list"
  proof -
    have "2 ^ k < length y" if "1 \<le> k" "k < n" for k
      using \<open>length y = 2 ^ n\<close> that by simp
    from pa_apply_ok [OF n1 n26 this _ pm, of 0] that show ?thesis
      unfolding apply_permutation_def by simp
  qed
  have x: "length ?x = 2 ^ n" by simp
  have lev: "level_spec (\<lambda>w a b. a + b) (\<lambda>w a b. (a - b) * w) iv n l e (dfs_level dif_butterfly iv roots n (Suc l) e)"
    "level_spec (\<lambda>w a b. a + b) (\<lambda>w a b. (a - b) * w) iv n l e (bfs_level dif_butterfly iv roots n (Suc l) e)"
    if "Suc l \<le> n" "length e = 2 ^ n" for l e
    using level_ok [OF butterfly_dif r(2) that] by blast+
  have ne: "d \<noteq> []" using assms(1) by auto
  let ?y = "fold (dfs_level dif_butterfly iv roots n) (rev [1..<n + 1]) ?x"
  let ?z = "fold (bfs_level dif_butterfly iv roots n) (rev [1..<n + 1]) ?x"
  have dfs: "map (\<lambda>k. ?y ! brev n k) [0..<2 ^ n] = map (dft iv n ?x) [0..<2 ^ n]" "length ?y = 2 ^ n"
    by (rule dif_result [OF lev(1) x]; assumption)+
  have bfs: "map (\<lambda>k. ?z ! brev n k) [0..<2 ^ n] = map (dft iv n ?x) [0..<2 ^ n]" "length ?z = 2 ^ n"
    by (rule dif_result [OF lev(2) x]; assumption)+
  obtain ps where p: "apply_permutation 0 ?y (ch_pm c) = (n, map (dft iv n ?x) [0..<2 ^ n], ps)"
    "\<And>k. pm_ok k (ps k)"
    using perm [OF dfs(2)] unfolding dfs(1) by blast
  have "?z = ?y"
  proof (rule nth_equalityI)
    fix i assume "i < length ?z"
    then have i: "i < 2 ^ n" using bfs(2) by simp
    have "map (\<lambda>k. ?z ! brev n k) [0..<2 ^ n] ! brev n i = map (\<lambda>k. ?y ! brev n k) [0..<2 ^ n] ! brev n i"
      by (simp only: dfs(1) bfs(1))
    then show "?z ! i = ?y ! i" using i by simp
  qed (use dfs(2) bfs(2) in simp)
  then have "dfs_radix_dif2 iv d c = Some (map (dft iv n ?x) [0..<2 ^ n], \<lparr>ch_pm = ps, ch_rt = ts\<rparr>)"
    "radix_dif2 iv d c = Some (map (dft iv n ?x) [0..<2 ^ n], \<lparr>ch_pm = ps, ch_rt = ts\<rparr>)"
    using ne n(1) r(1) p(1) by (simp_all add: dfs_radix_dif2_def radix_dif2_def)
  with low n(2) p(2) r(3) show ?thesis by (fastforce simp: caches_ok_def)
qed

theorem dif2_is_dft_witness:
  "\<exists>n c'. dfs_radix_dif2 True [1, 2, 3] new_caches =
     Some (map (dft True n (vec_resize 0 (2 ^ n) [1, 2, 3])) [0..<2 ^ n], c')"
  using dif2_is_dft [of "[1, 2, 3]" new_caches True] caches_ok_new by auto

end
