(* ===== verification/Zi_Args.thy ===== *)
theory Zi_Args
  imports Zi_Prelude
begin

text \<open>
  \<^verbatim>\<open>zi/zargs\<close>: the string helpers, the matchers and parsers of typed arguments, the handlers
  that \<open>ZiARG_DEFINITION\<close> declares and the loop of \<open>parse_arguments\<close>. A \<open>std::string\<close> is a list of
  characters, the \<open>std::list\<close> of arguments a list of strings. \<open>lexical_cast\<close> (boost's, or the
  stream-based one) is a parameter: \<open>None\<close> is its exception. \<open>None\<close> as the result of an operation
  is \<open>q.front()\<close> or \<open>q.pop_front()\<close> on an empty list.
\<close>

section \<open>Strings\<close>

definition tolower :: "char \<Rightarrow> char" where
  "tolower c = (let n = of_char c :: nat in if 65 \<le> n \<and> n \<le> 90 then char_of (n + 32) else c)"

definition to_lower :: "string \<Rightarrow> string" where
  "to_lower s = fold (\<lambda>i ret. ret[i := tolower (s ! i)]) [0..<length s] s"

text \<open>\<open>find_first_of( c, pos )\<close>; \<open>None\<close> is \<open>npos\<close>.\<close>

definition find_first_of :: "char \<Rightarrow> string \<Rightarrow> nat \<Rightarrow> nat option" where
  "find_first_of c s pos = List.find (\<lambda>i. s ! i = c) [pos..<length s]"

definition substr :: "string \<Rightarrow> nat \<Rightarrow> nat \<Rightarrow> string" where
  "substr s pos n = take n (drop pos s)"

lemma find_first_of_Some:
  "find_first_of c s pos = Some i \<Longrightarrow> pos \<le> i \<and> i < length s \<and> s ! i = c \<and> (\<forall>j. pos \<le> j \<and> j < i \<longrightarrow> s ! j \<noteq> c)"
proof -
  assume "find_first_of c s pos = Some i"
  then obtain k where k: "k < length [pos..<length s]" "s ! ([pos..<length s] ! k) = c"
    "i = [pos..<length s] ! k" "\<forall>j < k. s ! ([pos..<length s] ! j) \<noteq> c"
    unfolding find_first_of_def find_Some_iff by blast
  have "s ! j \<noteq> c" if "pos \<le> j" "j < i" for j
    using k(4) [rule_format, of "j - pos"] that k(1,3) by simp
  with k show ?thesis by auto
qed

lemma find_first_of_None: "find_first_of c s pos = None \<longleftrightarrow> c \<notin> set (drop pos s)"
proof -
  have "find_first_of c s pos = None \<longleftrightarrow> (\<forall>i. pos \<le> i \<and> i < length s \<longrightarrow> s ! i \<noteq> c)"
    by (auto simp: find_first_of_def find_None_iff)
  also have "\<dots> \<longleftrightarrow> c \<notin> set (drop pos s)"
  proof
    assume no: "\<forall>i. pos \<le> i \<and> i < length s \<longrightarrow> s ! i \<noteq> c"
    show "c \<notin> set (drop pos s)"
    proof
      assume "c \<in> set (drop pos s)"
      then obtain k where "k < length s - pos" "s ! (pos + k) = c" by (auto simp: in_set_conv_nth)
      moreover from this have "pos + k < length s" by simp
      ultimately show False using no by auto
    qed
  next
    assume c: "c \<notin> set (drop pos s)"
    show "\<forall>i. pos \<le> i \<and> i < length s \<longrightarrow> s ! i \<noteq> c"
    proof (intro allI impI)
      fix i assume i: "pos \<le> i \<and> i < length s"
      then have "drop pos s ! (i - pos) \<in> set (drop pos s)" by (intro nth_mem) auto
      with c i show "s ! i \<noteq> c" by auto
    qed
  qed
  finally show ?thesis .
qed

text \<open>The loop of \<open>explode\<close>: \<open>pos\<close> is 0 only for a splitter in front.\<close>

function explode_loop :: "string \<Rightarrow> char \<Rightarrow> nat \<Rightarrow> string list \<Rightarrow> string list" where
  "explode_loop src splitter pos ret =
     (if pos < length src
      then
        case find_first_of splitter src pos of
          None \<Rightarrow> ret @ [drop pos src]
        | Some p \<Rightarrow>
            if p \<noteq> 0 then explode_loop src splitter (p + 1) (ret @ [substr src pos (p - pos)]) else ret
      else ret)"
  by pat_completeness auto
termination
  by (relation "measure (\<lambda>(src, c, pos, ret). length src - pos)") (auto dest: find_first_of_Some)

declare explode_loop.simps [simp del]

definition explode :: "string list \<Rightarrow> string \<Rightarrow> char \<Rightarrow> string list" where
  "explode ret source splitter = explode_loop source splitter 0 ret"

definition begins_with :: "string \<Rightarrow> string \<Rightarrow> bool" where
  "begins_with b s = (if length s < length b then False else b = substr s 0 (length b))"

definition strip_quotes :: "string \<Rightarrow> string" where
  "strip_quotes s =
     (let len = length s
      in if len < 2 then s
         else if (s ! 0 = CHR 0x22 \<and> s ! (len - 1) = CHR 0x22) \<or> (s ! 0 = CHR 0x27 \<and> s ! (len - 1) = CHR 0x27)
         then substr s 1 (len - 2)
         else s)"

section \<open>Matching an argument\<close>

definition match_base :: "string \<Rightarrow> string list \<Rightarrow> (bool \<times> string list) option" where
  "match_base name q =
     (case q of
        [] \<Rightarrow> Some (False, q)
      | s # rest \<Rightarrow>
          if s = ''-'' @ name \<or> s = ''--'' @ name then Some (True, rest)
          else if begins_with (''-'' @ name @ ''='') s \<or> begins_with (''--'' @ name @ ''='') s
          then
            let eq_pos = the (find_first_of CHR ''='' s 0)
            in Some (True, strip_quotes (substr s (eq_pos + 1) (length s - eq_pos - 1)) # rest)
          else Some (False, q))"

definition match_bool :: "string \<Rightarrow> string list \<Rightarrow> (bool \<times> string list) option" where
  "match_bool name q =
     (case q of
        [] \<Rightarrow> None
      | s # rest \<Rightarrow>
          if s = ''-'' @ name \<or> s = ''--'' @ name then Some (True, ''1'' # rest)
          else if s = ''-no'' @ name \<or> s = ''--no'' @ name then Some (True, ''0'' # rest)
          else match_base name q)"

section \<open>Parsing a value\<close>

text \<open>A parser gets the old target and yields whether it succeeded and the new target.\<close>

definition parse_scalar :: "(string \<Rightarrow> 'v option) \<Rightarrow> 'v \<Rightarrow> string \<Rightarrow> bool \<times> 'v" where
  "parse_scalar cast target source =
     (case cast source of Some v \<Rightarrow> (True, v) | None \<Rightarrow> (False, target))"

definition parse_bool :: "(string \<Rightarrow> bool option) \<Rightarrow> bool \<Rightarrow> string \<Rightarrow> bool \<times> bool" where
  "parse_bool cast target source =
     (case cast source of
        Some v \<Rightarrow> (True, v)
      | None \<Rightarrow>
          (let s = to_lower source
           in if s = ''t'' \<or> s = ''true'' \<or> s = ''yes'' \<or> s = ''y'' then (True, True)
              else if s = ''f'' \<or> s = ''false'' \<or> s = ''no'' \<or> s = ''n'' then (True, False)
              else (False, target)))"

definition parse_string :: "string \<Rightarrow> string \<Rightarrow> bool \<times> string" where
  "parse_string target source = (True, source)"

text \<open>Sets and vectors: the items before the first bad one stay in the target.\<close>

fun insert_all :: "(string \<Rightarrow> 'v option) \<Rightarrow> string list \<Rightarrow> 'v set \<Rightarrow> bool \<times> 'v set" where
  "insert_all cast [] target = (True, target)"
| "insert_all cast (s # ss) target =
     (case cast s of Some v \<Rightarrow> insert_all cast ss (insert v target) | None \<Rightarrow> (False, target))"

definition parse_set :: "(string \<Rightarrow> 'v option) \<Rightarrow> 'v set \<Rightarrow> string \<Rightarrow> bool \<times> 'v set" where
  "parse_set cast target source = insert_all cast (explode [] source CHR '','') target"

fun push_all :: "(string \<Rightarrow> 'v option) \<Rightarrow> string list \<Rightarrow> 'v list \<Rightarrow> bool \<times> 'v list" where
  "push_all cast [] target = (True, target)"
| "push_all cast (s # ss) target =
     (case cast s of Some v \<Rightarrow> push_all cast ss (target @ [v]) | None \<Rightarrow> (False, target))"

definition parse_vector :: "(string \<Rightarrow> 'v option) \<Rightarrow> 'v list \<Rightarrow> string \<Rightarrow> bool \<times> 'v list" where
  "parse_vector cast target source = push_all cast (explode [] source CHR '','') target"

text \<open>\<open>std::map::insert\<close> keeps an entry that is there.\<close>

definition parse_enabled :: "(string \<rightharpoonup> bool) \<Rightarrow> string \<Rightarrow> bool \<times> (string \<rightharpoonup> bool)" where
  "parse_enabled target source =
     (True, fold (\<lambda>s m. if m s = None then m(s \<mapsto> True) else m) (explode [] source CHR '','') target)"

section \<open>Handlers\<close>

text \<open>What \<open>ZiARG_DEFINITION\<close> declares: \<open>'s\<close> is the store of all the flag variables, \<open>ha_parse\<close> the
  parser applied to the handler's variable.\<close>

record 's handler =
  ha_name :: string
  ha_type :: string
  ha_default :: string
  ha_description :: string
  ha_is_bool :: bool
  ha_parse :: "string \<Rightarrow> 's \<Rightarrow> bool \<times> 's"

definition handler_parse :: "'s handler \<Rightarrow> string list \<Rightarrow> 's \<Rightarrow> ((bool \<times> string list \<times> 's) throws) option" where
  "handler_parse h q s =
     do {
       (m, q) \<leftarrow> (if ha_is_bool h then match_bool (ha_name h) q else match_base (ha_name h) q);
       if m
       then
         case q of
           [] \<Rightarrow> None
         | val # _ \<Rightarrow>
             (let (ok, s) = ha_parse h val s
              in if ok then Some (Inr (True, q, s))
                 else Some (Inl (Zi_Exception (ha_name h @ '' ['' @ ha_type h @ ''] can'' @ [CHR 0x27] @
                        ''t be parsed from'' @ '' '' @ [CHR 0x22] @ val @ [CHR 0x22]))))
       else Some (Inr (False, q, s))
     }"

section \<open>The argument loop\<close>

fun try_handlers :: "'s handler list \<Rightarrow> string list \<Rightarrow> 's \<Rightarrow> ((bool \<times> string list \<times> 's) throws) option" where
  "try_handlers [] q s = Some (Inr (False, q, s))"
| "try_handlers (h # hs) q s =
     do {
       r \<leftarrow> handler_parse h q s;
       case r of
         Inl e \<Rightarrow> Some (Inl e)
       | Inr (found, q, s) \<Rightarrow> if found then Some (Inr (True, q, s)) else try_handlers hs q s
     }"

lemma match_base_length: "match_base n q = Some (b, q') \<Longrightarrow> length q' \<le> length q"
  by (auto simp: match_base_def Let_def split: list.splits if_splits)

lemma match_bool_length: "match_bool n q = Some (b, q') \<Longrightarrow> length q' \<le> length q"
  by (auto simp: match_bool_def split: list.splits if_splits dest: match_base_length)

lemma handler_parse_length:
  "handler_parse h q s = Some (Inr (b, q', s')) \<Longrightarrow> length q' \<le> length q"
  by (auto simp: handler_parse_def bind_eq_Some_conv split: if_splits prod.splits list.splits
      dest: match_base_length match_bool_length)

lemma try_handlers_length:
  "try_handlers hs q s = Some (Inr (b, q', s')) \<Longrightarrow> length q' \<le> length q"
proof (induction hs arbitrary: q s)
  case Nil
  then show ?case by simp
next
  case (Cons h hs)
  then obtain r where r: "handler_parse h q s = Some r" by (auto simp: bind_eq_Some_conv)
  show ?case
  proof (cases r)
    case (Inl e)
    with Cons.prems r show ?thesis by simp
  next
    case (Inr t)
    obtain found q1 s1 where t: "t = (found, q1, s1)" by (cases t)
    have q1: "length q1 \<le> length q" using r unfolding Inr t by (rule handler_parse_length)
    show ?thesis
    proof (cases found)
      case True
      with Cons.prems r Inr t q1 show ?thesis by simp
    next
      case False
      with Cons.prems r Inr t have "try_handlers hs q1 s1 = Some (Inr (b, q', s'))" by simp
      from Cons.IH [OF this] q1 show ?thesis by simp
    qed
  qed
qed

definition register_handler :: "'s handler list \<Rightarrow> 's handler \<Rightarrow> 's handler list" where
  "register_handler hs h = hs @ [h]"

text \<open>What \<open>--help\<close> prints: \<open>std::left\<close> with a width of 29 pads the first column.\<close>

definition pad_right :: "nat \<Rightarrow> string \<Rightarrow> string" where
  "pad_right w s = s @ replicate (w - length s) CHR '' ''"

definition newline :: char where
  "newline = CHR 0x0A"

definition help_entry :: "'s handler \<Rightarrow> string" where
  "help_entry h =
     pad_right 29 (''  --'' @ ha_name h @ ''='' @ ha_type h) @
     concat (map (\<lambda>l. l @ [newline] @ replicate 29 CHR '' '') (explode [] (ha_description h) newline)) @
     ''default='' @ ha_default h @ [newline] @ [newline]"

definition help_text :: "string \<Rightarrow> 's handler list \<Rightarrow> string" where
  "help_text file_name hs =
     ''Usage: '' @ file_name @ '' [OPTIONS] ...'' @ [newline, newline] @
     concat (map help_entry hs) @
     ''Notes:'' @ [newline] @
     ''  - For non-BOOLEAN types:'' @ [newline] @
     ''      -key VALUE (is equivalent to --key=VALUE)'' @ [newline] @
     ''      -key=VALUE (is equivalent to --key=VALUE)'' @ [newline] @
     ''  - For BOOLEAN types:'' @ [newline] @
     ''      -key   (is equivalent to --key=true)'' @ [newline] @
     ''      -nokey (is equivalent to --key=false)'' @ [newline, newline, newline]"

text \<open>How the program goes on: the help was printed and it exited with 0, an error was printed and
  it exited with 1, or \<open>parse_arguments\<close> returned true.\<close>

datatype 's outcome = Help string | Failed zi_exception | Parsed "string list" 's


function parse_loop :: "'s handler list \<Rightarrow> bool \<Rightarrow> string list \<Rightarrow> string list \<Rightarrow> 's \<Rightarrow> 's outcome option" where
  "parse_loop hs remove_args q argv s =
     (if q = [] then Some (Parsed argv s)
      else
        case try_handlers hs q s of
          None \<Rightarrow> None
        | Some (Inl e) \<Rightarrow> Some (Failed e)
        | Some (Inr (found, q', s')) \<Rightarrow>
            if q' = [] then None
            else parse_loop hs remove_args (tl q')
                   (if \<not> found \<and> remove_args then argv @ [hd q'] else argv) s')"
  by pat_completeness auto
termination
  by (relation "measure (\<lambda>(hs, r, q, argv, s). length q)") (auto dest!: try_handlers_length simp: neq_Nil_conv)

declare parse_loop.simps [simp del]

text \<open>\<open>argv\<close> on return: its first \<open>argc\<close> entries.\<close>

definition parse_arguments :: "'s handler list \<Rightarrow> string list \<Rightarrow> bool \<Rightarrow> 's \<Rightarrow> 's outcome option" where
  "parse_arguments hs argv remove_args s =
     (let q = tl argv
      in if list_ex (\<lambda>a. a = ''-h'' \<or> a = ''--help'' \<or> a = ''-help'') q
         then Some (Help (help_text (hd argv) hs))
         else parse_loop hs remove_args q (if remove_args then take 1 argv else argv) s)"

section \<open>Splitting and joining\<close>

fun join_with :: "char \<Rightarrow> string list \<Rightarrow> string" where
  "join_with c [] = []"
| "join_with c [w] = w"
| "join_with c (w # v # ws) = w @ c # join_with c (v # ws)"

lemma find_first_of_at:
  assumes "c \<notin> set w"
  shows "find_first_of c (pre @ w @ c # r) (length pre) = Some (length pre + length w)"
proof -
  have "find_first_of c (pre @ w @ c # r) (length pre) \<noteq> None"
    by (simp add: find_first_of_None)
  then obtain i where i: "find_first_of c (pre @ w @ c # r) (length pre) = Some i" by blast
  from find_first_of_Some [OF i] have
    F: "length pre \<le> i" "(pre @ w @ c # r) ! i = c" "\<forall>j. length pre \<le> j \<and> j < i \<longrightarrow> (pre @ w @ c # r) ! j \<noteq> c"
    by auto
  have "\<not> i < length pre + length w"
    using F(1,2) assms by (auto simp: nth_append) (metis less_diff_conv2 add.commute nth_mem)
  moreover have "\<not> length pre + length w < i"
    using F(3) [rule_format, of "length pre + length w"] by (auto simp: nth_append)
  ultimately show ?thesis using i by simp
qed

lemma explode_loop_join:
  assumes "ws \<noteq> []" "last ws \<noteq> []" "pre \<noteq> [] \<or> hd ws \<noteq> []" "\<forall>w \<in> set ws. c \<notin> set w"
  shows "explode_loop (pre @ join_with c ws) c (length pre) ret = ret @ ws"
  using assms
proof (induction c ws arbitrary: pre ret rule: join_with.induct)
  case (1 c)
  then show ?case by simp
next
  case (2 c w)
  then have "find_first_of c (pre @ w) (length pre) = None" by (simp add: find_first_of_None)
  with 2 show ?case by (simp add: explode_loop.simps [of "pre @ w"])
next
  case (3 c w v ws)
  let ?r = "join_with c (v # ws)"
  have c: "c \<notin> set w" using 3 by simp
  have "length pre + length w \<noteq> 0" using 3 by auto
  then have "explode_loop (pre @ w @ c # ?r) c (length pre) ret =
      explode_loop (pre @ w @ c # ?r) c (length pre + length w + 1) (ret @ [w])"
    using find_first_of_at [OF c, of pre ?r]
    by (subst explode_loop.simps) (simp add: substr_def)
  also have "\<dots> = explode_loop ((pre @ w @ [c]) @ ?r) c (length (pre @ w @ [c])) (ret @ [w])" by simp
  also have "\<dots> = (ret @ [w]) @ v # ws" using 3 by (intro "3.IH") auto
  finally show ?case by simp
qed

section \<open>Which arguments a handler takes\<close>

definition matches :: "'s handler \<Rightarrow> string \<Rightarrow> bool" where
  "matches h s \<longleftrightarrow> s = ''-'' @ ha_name h \<or> s = ''--'' @ ha_name h \<or>
     (ha_is_bool h \<and> (s = ''-no'' @ ha_name h \<or> s = ''--no'' @ ha_name h)) \<or>
     begins_with (''-'' @ ha_name h @ ''='') s \<or> begins_with (''--'' @ ha_name h @ ''='') s"

lemma begins_with_append [simp]: "begins_with b (b @ s)"
  by (simp add: begins_with_def substr_def)

lemma begins_with_iff: "begins_with b s \<longleftrightarrow> (\<exists>r. s = b @ r)"
proof
  assume "begins_with b s"
  then have "s = b @ drop (length b) s"
    by (auto simp: begins_with_def substr_def split: if_splits) (metis append_take_drop_id)
  then show "\<exists>r. s = b @ r" ..
qed auto

lemma handler_parse_skip:
  "\<not> matches h s \<Longrightarrow> handler_parse h (s # rest) st = Some (Inr (False, s # rest, st))"
  by (auto simp: handler_parse_def matches_def match_bool_def match_base_def)

lemma split_at_equals:
  assumes "CHR ''='' \<notin> set m" "CHR ''='' \<notin> set n" "m @ ''='' @ v = n @ ''='' @ w"
  shows "m = n" "v = w"
proof -
  have "takeWhile (\<lambda>c. c \<noteq> CHR ''='') (m @ ''='' @ v) = m" "takeWhile (\<lambda>c. c \<noteq> CHR ''='') (n @ ''='' @ w) = n"
    using assms(1,2) by (auto simp: takeWhile_append)
  with assms(3) show "m = n" by simp
  with assms(3) show "v = w" by simp
qed

text \<open>Names as the macros produce them, different for every flag; no flag is named like the
  negation of a boolean one.\<close>

definition wf_handlers :: "'s handler list \<Rightarrow> bool" where
  "wf_handlers hs \<longleftrightarrow> distinct (map ha_name hs) \<and>
     (\<forall>h \<in> set hs. ha_name h \<noteq> [] \<and> CHR ''-'' \<notin> set (ha_name h) \<and> CHR ''='' \<notin> set (ha_name h)) \<and>
     (\<forall>h \<in> set hs. \<forall>g \<in> set hs. ha_is_bool g \<longrightarrow> ha_name h \<noteq> ''no'' @ ha_name g)"

text \<open>One dash or two.\<close>

definition dashes :: "bool \<Rightarrow> string" where
  "dashes b = (if b then ''--'' else ''-'')"

lemma dashes_simps [simp]: "dashes True = ''--''" "dashes False = ''-''"
  by (simp_all add: dashes_def)

lemma handler_parse_eq_form:
  assumes "CHR ''='' \<notin> set (ha_name h)"
  shows "handler_parse h ((dashes b @ ha_name h @ ''='' @ v) # rest) st =
     (let (ok, st') = ha_parse h (strip_quotes v) st
      in if ok then Some (Inr (True, strip_quotes v # rest, st'))
         else Some (Inl (Zi_Exception (ha_name h @ '' ['' @ ha_type h @ ''] can'' @ [CHR 0x27] @
                ''t be parsed from'' @ '' '' @ [CHR 0x22] @ strip_quotes v @ [CHR 0x22]))))"
proof -
  let ?n = "ha_name h" and ?s = "dashes b @ ha_name h @ ''='' @ v"
  have "find_first_of CHR ''='' ([] @ (dashes b @ ?n) @ CHR ''='' # v) (length ([] :: string)) =
      Some (length ([] :: string) + length (dashes b @ ?n))"
    using assms by (intro find_first_of_at) (auto simp: dashes_def)
  then have f: "find_first_of CHR ''='' ?s 0 = Some (length (dashes b) + length ?n)" by simp
  have "?s \<noteq> p @ ?n" if "CHR ''='' \<notin> set p" for p
  proof
    assume "?s = p @ ?n"
    moreover have "CHR ''='' \<in> set ?s" by simp
    ultimately show False using assms that by (metis Un_iff set_append)
  qed
  note ne = this
  have "?s \<noteq> ''-'' @ ?n" by (rule ne) simp
  moreover have "?s \<noteq> ''--'' @ ?n" by (rule ne) simp
  moreover have "?s \<noteq> ''-no'' @ ?n" by (rule ne) simp
  moreover have "?s \<noteq> ''--no'' @ ?n" by (rule ne) simp
  moreover have "begins_with (''-'' @ ?n @ ''='') ?s \<or> begins_with (''--'' @ ?n @ ''='') ?s"
    by (cases b) (simp_all add: begins_with_iff)
  ultimately have "match_base ?n (?s # rest) = Some (True, strip_quotes v # rest)"
    "match_bool ?n (?s # rest) = Some (True, strip_quotes v # rest)"
    using f by (simp_all add: match_base_def match_bool_def Let_def substr_def)
  then show ?thesis by (simp add: handler_parse_def split: prod.splits)
qed

lemma handler_parse_key_form:
  assumes "\<not> ha_is_bool h"
  shows "handler_parse h ((dashes b @ ha_name h) # v # rest) st =
     (let (ok, st') = ha_parse h v st
      in if ok then Some (Inr (True, v # rest, st'))
         else Some (Inl (Zi_Exception (ha_name h @ '' ['' @ ha_type h @ ''] can'' @ [CHR 0x27] @
                ''t be parsed from'' @ '' '' @ [CHR 0x22] @ v @ [CHR 0x22]))))"
  using assms by (cases b) (simp_all add: handler_parse_def match_base_def split: prod.splits)

lemma handler_parse_bool_forms:
  assumes "ha_is_bool h" "CHR ''-'' \<notin> set (ha_name h)"
  shows "handler_parse h ((dashes b @ ha_name h) # rest) st =
      (let (ok, st') = ha_parse h ''1'' st
       in if ok then Some (Inr (True, ''1'' # rest, st'))
          else Some (Inl (Zi_Exception (ha_name h @ '' ['' @ ha_type h @ ''] can'' @ [CHR 0x27] @
                 ''t be parsed from'' @ '' '' @ [CHR 0x22] @ ''1'' @ [CHR 0x22]))))"
    "handler_parse h ((dashes b @ ''no'' @ ha_name h) # rest) st =
      (let (ok, st') = ha_parse h ''0'' st
       in if ok then Some (Inr (True, ''0'' # rest, st'))
          else Some (Inl (Zi_Exception (ha_name h @ '' ['' @ ha_type h @ ''] can'' @ [CHR 0x27] @
                 ''t be parsed from'' @ '' '' @ [CHR 0x22] @ ''0'' @ [CHR 0x22]))))"
proof -
  have n: "''no'' @ ha_name h \<noteq> ha_name h" "ha_name h \<noteq> ''no'' @ ha_name h"
    by (metis append_self_conv2 list.distinct(1))+
  have d: "ha_name h \<noteq> CHR ''-'' # xs" "CHR ''-'' # xs \<noteq> ha_name h" for xs using assms(2) by (metis list.set_intros(1))+
  have "match_bool (ha_name h) ((dashes b @ ''no'' @ ha_name h) # rest) = Some (True, ''0'' # rest)"
    using n d by (cases b) (auto simp: match_bool_def)
  then show "handler_parse h ((dashes b @ ''no'' @ ha_name h) # rest) st =
      (let (ok, st') = ha_parse h ''0'' st
       in if ok then Some (Inr (True, ''0'' # rest, st'))
          else Some (Inl (Zi_Exception (ha_name h @ '' ['' @ ha_type h @ ''] can'' @ [CHR 0x27] @
                 ''t be parsed from'' @ '' '' @ [CHR 0x22] @ ''0'' @ [CHR 0x22]))))"
    using assms(1) by (simp add: handler_parse_def split: prod.splits)
qed (use assms in \<open>cases b; simp add: handler_parse_def match_bool_def split: prod.splits\<close>)

section \<open>A whole command line\<close>

text \<open>The forms of the help text, each with one dash or two, for a flag of a handler, and an argument of the
  program. A value that follows as an argument of its own is not in quotes: \<open>--key=\<close> takes quotes off and
  \<open>-key\<close> does not (\<open>key_forms_quotes\<close>).\<close>

datatype 's item =
  Key_Eq bool "'s handler" string | Key_Value bool "'s handler" string
| Key_On bool "'s handler" | Key_Off bool "'s handler" | Other string

fun render :: "'s item \<Rightarrow> string list" where
  "render (Key_Eq b h v) = [dashes b @ ha_name h @ ''='' @ v]"
| "render (Key_Value b h v) = [dashes b @ ha_name h, v]"
| "render (Key_On b h) = [dashes b @ ha_name h]"
| "render (Key_Off b h) = [dashes b @ ''no'' @ ha_name h]"
| "render (Other s) = [s]"

fun item_flag :: "'s item \<Rightarrow> ('s handler \<times> string) option" where
  "item_flag (Key_Eq b h v) = Some (h, strip_quotes v)"
| "item_flag (Key_Value b h v) = Some (h, v)"
| "item_flag (Key_On b h) = Some (h, ''1'')"
| "item_flag (Key_Off b h) = Some (h, ''0'')"
| "item_flag (Other s) = None"

fun item_ok :: "'s handler list \<Rightarrow> 's item \<Rightarrow> bool" where
  "item_ok hs (Key_Eq b h v) = (h \<in> set hs)"
| "item_ok hs (Key_Value b h v) = (h \<in> set hs \<and> \<not> ha_is_bool h \<and> strip_quotes v = v)"
| "item_ok hs (Key_On b h) = (h \<in> set hs \<and> ha_is_bool h)"
| "item_ok hs (Key_Off b h) = (h \<in> set hs \<and> ha_is_bool h)"
| "item_ok hs (Other s) = (\<forall>h \<in> set hs. \<not> matches h s)"

text \<open>The form that the help text calls equivalent.\<close>

fun long_form :: "'s item \<Rightarrow> 's item" where
  "long_form (Key_Eq b h v) = Key_Eq True h v"
| "long_form (Key_Value b h v) = Key_Eq True h v"
| "long_form (Key_On b h) = Key_Eq True h ''true''"
| "long_form (Key_Off b h) = Key_Eq True h ''false''"
| "long_form (Other s) = Other s"

text \<open>The flags in order, each by its own parser; \<open>None\<close> when one does not parse.\<close>

fun run_items :: "'s item list \<Rightarrow> 's \<Rightarrow> 's option" where
  "run_items [] s = Some s"
| "run_items (i # is) s =
     (case item_flag i of
        None \<Rightarrow> run_items is s
      | Some (h, v) \<Rightarrow> (let (ok, s') = ha_parse h v s in if ok then run_items is s' else None))"

fun others :: "'s item list \<Rightarrow> string list" where
  "others [] = []"
| "others (Other s # is) = s # others is"
| "others (_ # is) = others is"

lemma matches_own:
  assumes wf: "wf_handlers hs" and h: "h \<in> set hs" "g \<in> set hs"
    and s: "s = dashes b @ ha_name h @ ''='' @ v \<or> s = dashes b @ ha_name h \<or>
      ha_is_bool h \<and> s = dashes b @ ''no'' @ ha_name h" and m: "matches g s"
  shows "ha_name g = ha_name h"
proof -
  let ?n = "ha_name h" and ?m = "ha_name g"
  have n: "CHR ''-'' \<notin> set ?n" "CHR ''='' \<notin> set ?n" "?n \<noteq> []"
    "CHR ''-'' \<notin> set ?m" "CHR ''='' \<notin> set ?m" "?m \<noteq> []"
    using wf h by (auto simp: wf_handlers_def)
  have no: "ha_is_bool g \<Longrightarrow> ?n \<noteq> ''no'' @ ?m" "ha_is_bool h \<Longrightarrow> ?m \<noteq> ''no'' @ ?n"
    using wf h by (auto simp: wf_handlers_def)
  obtain x xs where x: "?n = x # xs" "x \<noteq> CHR ''-''" using n(1,3) by (cases ?n) auto
  obtain y ys where y: "?m = y # ys" "y \<noteq> CHR ''-''" using n(4,6) by (cases ?m) auto
  have plain: "\<not> begins_with (''-'' @ ?m @ ''='') s \<and> \<not> begins_with (''--'' @ ?m @ ''='') s" if "CHR ''='' \<notin> set s"
    using that by (auto simp: begins_with_iff)
  from s show ?thesis
  proof (elim disjE conjE)
    assume e: "s = dashes b @ ?n @ ''='' @ v"
    have "CHR ''='' \<in> set s" by (simp add: e)
    then have "s \<noteq> ''-'' @ ?m" "s \<noteq> ''--'' @ ?m" "s \<noteq> ''-no'' @ ?m" "s \<noteq> ''--no'' @ ?m"
      using n(5) by auto
    then have "begins_with (dashes False @ ?m @ ''='') s \<or> begins_with (dashes True @ ?m @ ''='') s"
      using m by (simp only: matches_def dashes_simps) blast
    then obtain c r where r: "s = dashes c @ ?m @ ''='' @ r" unfolding begins_with_iff by (metis append_assoc)
    have "c = b" using r x y unfolding e by (cases b; cases c) simp_all
    then have "?n @ ''='' @ v = ?m @ ''='' @ r" using r unfolding e by simp
    from split_at_equals(1) [OF n(2,5) this] show ?thesis by (rule sym)
  next
    assume e: "s = dashes b @ ?n"
    have "CHR ''='' \<notin> set s" using n(2) by (simp add: e dashes_def)
    with m x y no(1) plain show ?thesis by (cases b) (auto simp: matches_def e)
  next
    assume b: "ha_is_bool h" and e: "s = dashes b @ ''no'' @ ?n"
    have "CHR ''='' \<notin> set s" using n(2) by (simp add: e dashes_def)
    with m x y no(2) [OF b] plain show ?thesis by (cases b) (auto simp: matches_def e)
  qed
qed

lemma try_handlers_skip:
  assumes "\<forall>g \<in> set gs. \<not> matches g a"
  shows "try_handlers (gs @ hs) (a # rest) s = try_handlers hs (a # rest) s"
  using assms by (induction gs) (simp_all add: handler_parse_skip)

lemma try_handlers_own:
  assumes wf: "wf_handlers hs" and h: "h \<in> set hs"
    and a: "a = dashes b @ ha_name h @ ''='' @ v \<or> a = dashes b @ ha_name h \<or>
      ha_is_bool h \<and> a = dashes b @ ''no'' @ ha_name h"
    and p: "handler_parse h (a # rest) s = Some (Inr (True, q, s'))"
  shows "try_handlers hs (a # rest) s = Some (Inr (True, q, s'))"
proof -
  obtain gs hs' where hs: "hs = gs @ h # hs'" using h by (meson split_list)
  have "\<not> matches g a" if "g \<in> set gs" for g
  proof
    assume "matches g a"
    then have "ha_name g = ha_name h" using matches_own [OF wf h _ a] that hs by auto
    moreover have "distinct (map ha_name (gs @ h # hs'))" using wf hs by (simp add: wf_handlers_def)
    ultimately show False using that by (auto simp: rev_image_eqI)
  qed
  then show ?thesis using p by (simp add: hs try_handlers_skip)
qed

lemma parse_loop_items:
  assumes wf: "wf_handlers hs"
  shows "\<forall>i \<in> set is. item_ok hs i \<Longrightarrow> run_items is s = Some s' \<Longrightarrow>
    parse_loop hs True (concat (map render is)) argv s = Some (Parsed (argv @ others is) s')"
proof (induction "is" arbitrary: s argv)
  case Nil
  then show ?case by (simp add: parse_loop.simps)
next
  case (Cons i "is")
  let ?q = "concat (map render is)"
  show ?case
  proof (cases "item_flag i")
    case None
    then obtain a where i: "i = Other a" by (cases i) auto
    have "try_handlers hs (a # ?q) s = Some (Inr (False, a # ?q, s))"
      using try_handlers_skip [of hs a "[]"] Cons.prems(1) by (simp add: i)
    then show ?thesis
      using Cons by (subst parse_loop.simps) (simp add: i)
  next
    case (Some hv)
    obtain h v where hv: "hv = (h, v)" by (cases hv)
    obtain s1 where s1: "ha_parse h v s = (True, s1)" "run_items is s1 = Some s'"
      using Cons.prems(2) by (auto simp: Some hv split: prod.splits if_splits)
    have h: "h \<in> set hs" and eq: "CHR ''='' \<notin> set (ha_name h)" "CHR ''-'' \<notin> set (ha_name h)"
      using Cons.prems(1) wf Some hv by (cases i; auto simp: wf_handlers_def)+
    note own = try_handlers_own [OF wf h]
    have "try_handlers hs (render i @ ?q) s = Some (Inr (True, v # ?q, s1))"
    proof (cases i)
      case (Key_Eq b h' v')
      then show ?thesis using Some hv s1(1) handler_parse_eq_form [OF eq(1), of b v' ?q s]
        own [of "dashes b @ ha_name h @ ''='' @ v'" b v' ?q s] by simp
    next
      case (Key_Value b h' v')
      then show ?thesis using Some hv s1(1) handler_parse_key_form [of h b v ?q s] Cons.prems(1)
        own [of "dashes b @ ha_name h" b v "v # ?q" s] by simp
    next
      case (Key_On b h')
      then show ?thesis using Some hv s1(1) handler_parse_bool_forms(1) [of h b ?q s] eq(2) Cons.prems(1)
        own [of "dashes b @ ha_name h" b v ?q s] by simp
    next
      case (Key_Off b h')
      then show ?thesis using Some hv s1(1) handler_parse_bool_forms(2) [of h b ?q s] eq(2) Cons.prems(1)
        own [of "dashes b @ ''no'' @ ha_name h" b v ?q s] by simp
    qed (use Some in simp)
    moreover have "render i \<noteq> []" "others (i # is) = others is" using Some by (cases i; simp)+
    ultimately show ?thesis
      using Cons.IH [OF _ s1(2)] Cons.prems(1) by (subst parse_loop.simps) simp
  qed
qed

section \<open>Properties\<close>

text \<open>\<open>explode\<close> is the inverse of joining with the splitter: for any words without the
  splitter, of which the first and the last are not empty, it appends exactly these words.\<close>
theorem explode_join:
  assumes "ws \<noteq> []" "hd ws \<noteq> []" "last ws \<noteq> []" "\<forall>w \<in> set ws. c \<notin> set w"
  shows "explode ret (join_with c ws) c = ret @ ws"
  using explode_loop_join [of ws "[]" c ret] assms by (simp add: explode_def)

theorem explode_join_witness:
  "explode [''a''] (join_with CHR '','' [''10'', '''', ''7'']) CHR '','' = [''a'', ''10'', '''', ''7'']"
  using explode_join [of "[''10'', '''', ''7'']" "CHR '',''" "[''a'']"] by simp

text \<open>A list that starts with the splitter loses all its items: \<open>explode\<close> stops at position 0,
  so \<open>parse_vector\<close> and \<open>parse_set\<close> accept it and leave their targets as they were.\<close>
theorem explode_leading_splitter:
  "explode ret (c # s) c = ret \<and> parse_vector cast vs (CHR '','' # s) = (True, vs) \<and>
   parse_set cast V (CHR '','' # s) = (True, V)"
proof -
  have "explode r (d # s) d = r" for r :: "string list" and d
    using find_first_of_at [of d "[]" "[]" s]
    by (simp add: explode_def explode_loop.simps [of "d # s"])
  then show ?thesis by (simp add: parse_vector_def parse_set_def)
qed

lemma parse_arguments_render:
  assumes "wf_handlers hs" "\<forall>i \<in> set is. item_ok hs i" "run_items is s = Some s'"
    and "\<forall>a \<in> set (concat (map render is)). a \<noteq> ''-h'' \<and> a \<noteq> ''--help'' \<and> a \<noteq> ''-help''"
  shows "parse_arguments hs (prog # concat (map render is)) True s = Some (Parsed (prog # others is) s')"
proof -
  have "\<not> list_ex (\<lambda>a. a = ''-h'' \<or> a = ''--help'' \<or> a = ''-help'') (concat (map render is))"
    using assms(4) by (simp only: list_ex_iff) blast
  then show ?thesis
    using parse_loop_items [OF assms(1-3), of "[prog]"] by (simp add: parse_arguments_def)
qed

lemma long_form_ok: "item_ok hs i \<Longrightarrow> item_ok hs (long_form i)" "others (map long_form is) = others is"
proof -
  show "item_ok hs i \<Longrightarrow> item_ok hs (long_form i)" by (cases i) auto
  show "others (map long_form is) = others is" by (induction "is" rule: others.induct) auto
qed

lemma long_form_run:
  assumes "\<forall>h \<in> set hs. ha_is_bool h \<longrightarrow> ha_parse h ''true'' = ha_parse h ''1'' \<and> ha_parse h ''false'' = ha_parse h ''0''"
  shows "\<forall>i \<in> set is. item_ok hs i \<Longrightarrow> run_items (map long_form is) s = run_items is s"
proof (induction "is" arbitrary: s)
  case (Cons i "is")
  have "strip_quotes ''true'' = ''true''" "strip_quotes ''false'' = ''false''" by (simp_all add: strip_quotes_def)
  with Cons assms show ?case by (cases i) (auto split: prod.splits)
qed simp

lemma long_form_no_help:
  assumes "a \<in> set (render (long_form i))" "\<forall>a \<in> set (render i). a \<noteq> ''-h'' \<and> a \<noteq> ''--help'' \<and> a \<noteq> ''-help''"
  shows "a \<noteq> ''-h'' \<and> a \<noteq> ''--help'' \<and> a \<noteq> ''-help''"
proof (cases i)
  case (Other b)
  with assms show ?thesis by simp
next
  case (Key_Eq b h v)
  then have "CHR ''='' \<in> set a" using assms(1) by auto
  then show ?thesis by auto
next
  case (Key_Value b h v)
  then have "CHR ''='' \<in> set a" using assms(1) by auto
  then show ?thesis by auto
next
  case (Key_On b h)
  then have "CHR ''='' \<in> set a" using assms(1) by auto
  then show ?thesis by auto
next
  case (Key_Off b h)
  then have "CHR ''='' \<in> set a" using assms(1) by auto
  then show ?thesis by auto
qed

text \<open>What the parser of booleans makes of the words, when the cast knows 1 and 0 and no wrong reading of the words.\<close>

lemma parse_bool_words:
  assumes "cast ''1'' = Some True" "cast ''0'' = Some False" "cast ''true'' \<noteq> Some False" "cast ''false'' \<noteq> Some True"
  shows "parse_bool cast t ''true'' = parse_bool cast t ''1'' \<and> parse_bool cast t ''false'' = parse_bool cast t ''0''"
proof -
  have "to_lower ''true'' = ''true''" "to_lower ''false'' = ''false''" by code_simp+
  with assms show ?thesis by (auto simp: parse_bool_def Let_def split: option.splits)
qed

text \<open>C13: A whole command line. For flags with distinct names, a command line made of the documented forms,
  each with one dash or two (\<open>--key=VALUE\<close>, \<open>-key=VALUE\<close>, \<open>-key VALUE\<close> with a value that is not in quotes,
  \<open>-key\<close>, \<open>-nokey\<close>), and of arguments no flag takes, with no request for help, sets every flag through its own
  parser in the order given and leaves exactly the other arguments in \<open>argv\<close>. When the boolean flags read
  \<open>true\<close> and \<open>false\<close> as they read 1 and 0, it has the same outcome as the line in which every form is replaced by
  the one the help text calls equivalent: \<open>--key=VALUE\<close>, \<open>--key=true\<close> and \<open>--key=false\<close>.\<close>
theorem parse_arguments_items:
  assumes "wf_handlers hs" "\<forall>i \<in> set is. item_ok hs i" "run_items is s = Some s'"
    and "\<forall>a \<in> set (concat (map render is)). a \<noteq> ''-h'' \<and> a \<noteq> ''--help'' \<and> a \<noteq> ''-help''"
  shows "parse_arguments hs (prog # concat (map render is)) True s = Some (Parsed (prog # others is) s') \<and>
    ((\<forall>h \<in> set hs. ha_is_bool h \<longrightarrow> ha_parse h ''true'' = ha_parse h ''1'' \<and> ha_parse h ''false'' = ha_parse h ''0'') \<longrightarrow>
     parse_arguments hs (prog # concat (map render (map long_form is))) True s =
     parse_arguments hs (prog # concat (map render is)) True s)"
proof (intro conjI impI)
  note same = parse_arguments_render [OF assms, of prog]
  then show "parse_arguments hs (prog # concat (map render is)) True s = Some (Parsed (prog # others is) s')" .
  assume w: "\<forall>h \<in> set hs. ha_is_bool h \<longrightarrow> ha_parse h ''true'' = ha_parse h ''1'' \<and> ha_parse h ''false'' = ha_parse h ''0''"
  have "\<forall>i \<in> set (map long_form is). item_ok hs i" using assms(2) by (auto intro: long_form_ok(1))
  moreover have "run_items (map long_form is) s = Some s'" using long_form_run [OF w assms(2)] assms(3) by simp
  moreover have "a \<noteq> ''-h'' \<and> a \<noteq> ''--help'' \<and> a \<noteq> ''-help''" if a: "a \<in> set (concat (map render (map long_form is)))" for a
  proof -
    obtain i where "i \<in> set is" "a \<in> set (render (long_form i))" using a by auto
    then show ?thesis using assms(4) by (intro long_form_no_help [of a i]) auto
  qed
  ultimately show "parse_arguments hs (prog # concat (map render (map long_form is))) True s =
     parse_arguments hs (prog # concat (map render is)) True s"
    using parse_arguments_render [OF assms(1), of "map long_form is" s s' prog] same by (simp add: long_form_ok(2))
qed

definition verbose_flag :: "(bool \<times> string) handler" where
  "verbose_flag = \<lparr>ha_name = ''verbose'', ha_type = ''BOOLEAN'', ha_default = ''false'',
     ha_description = ''talk'', ha_is_bool = True,
     ha_parse = (\<lambda>v (b, f). let (ok, b') = parse_bool (\<lambda>x. if x = ''1'' then Some True
        else if x = ''0'' then Some False else None) b v in (ok, b', f))\<rparr>"

definition file_flag :: "(bool \<times> string) handler" where
  "file_flag = \<lparr>ha_name = ''file'', ha_type = ''STRING'', ha_default = [], ha_description = ''input'',
     ha_is_bool = False, ha_parse = (\<lambda>v (b, f). let (ok, f') = parse_string f v in (ok, b, f'))\<rparr>"

lemma verbose_flag_words:
  "ha_parse verbose_flag ''true'' = ha_parse verbose_flag ''1'' \<and> ha_parse verbose_flag ''false'' = ha_parse verbose_flag ''0''"
  using parse_bool_words [of "\<lambda>x. if x = ''1'' then Some True else if x = ''0'' then Some False else None"]
  by (auto simp: verbose_flag_def fun_eq_iff)

theorem parse_arguments_items_witness:
  "parse_arguments [verbose_flag, file_flag]
     [''run'', ''in.txt'', ''-verbose'', ''-file=a b'', ''--noverbose'', ''-file'', ''x''] True (False, []) =
   Some (Parsed [''run'', ''in.txt''] (False, ''x'')) \<and>
   parse_arguments [verbose_flag, file_flag]
     [''run'', ''in.txt'', ''--verbose=true'', ''--file=a b'', ''--verbose=false'', ''--file=x''] True (False, []) =
   Some (Parsed [''run'', ''in.txt''] (False, ''x''))"
proof -
  let ?is = "[Other ''in.txt'', Key_On False verbose_flag, Key_Eq False file_flag ''a b'', Key_Off True verbose_flag,
    Key_Value False file_flag ''x'']"
  have "wf_handlers [verbose_flag, file_flag]" by (simp add: wf_handlers_def verbose_flag_def file_flag_def)
  moreover have "\<forall>i \<in> set ?is. item_ok [verbose_flag, file_flag] i" "run_items ?is (False, []) = Some (False, ''x'')"
    by (simp_all add: verbose_flag_def file_flag_def matches_def begins_with_def
      parse_bool_def parse_string_def strip_quotes_def substr_def Let_def)
  moreover have "\<forall>a \<in> set (concat (map render ?is)). a \<noteq> ''-h'' \<and> a \<noteq> ''--help'' \<and> a \<noteq> ''-help''"
    by (simp add: verbose_flag_def file_flag_def)
  moreover have "\<forall>h \<in> set [verbose_flag, file_flag]. ha_is_bool h \<longrightarrow>
      ha_parse h ''true'' = ha_parse h ''1'' \<and> ha_parse h ''false'' = ha_parse h ''0''"
    using verbose_flag_words by (simp add: file_flag_def)
  ultimately show ?thesis
    using parse_arguments_items [of "[verbose_flag, file_flag]" ?is "(False, [])" "(False, ''x'')" "''run''"]
    by (simp add: verbose_flag_def file_flag_def)
qed

text \<open>The two forms the help text calls equivalent differ on quoted values:
  \<open>--key=\<close> takes the quotes off and \<open>-key\<close> hands them to the parser.\<close>
theorem key_forms_quotes:
  assumes "\<not> ha_is_bool h" "CHR ''='' \<notin> set (ha_name h)" "ha_parse h v s = (True, a)"
    "ha_parse h (strip_quotes v) s = (True, b)"
  shows "try_handlers [h] [dashes True @ ha_name h @ ''='' @ v] s = Some (Inr (True, [strip_quotes v], b)) \<and>
    try_handlers [h] [dashes False @ ha_name h, v] s = Some (Inr (True, [v], a))"
  using assms(3,4) handler_parse_eq_form [OF assms(2), of True v "[]" s] handler_parse_key_form [OF assms(1), of False v "[]" s]
  by simp

theorem key_forms_quotes_witness:
  "try_handlers [file_flag] [''--file='' @ [CHR 0x22, CHR ''x'', CHR 0x22]] (False, []) =
     Some (Inr (True, [''x''], (False, ''x''))) \<and>
   try_handlers [file_flag] [''-file'', [CHR 0x22, CHR ''x'', CHR 0x22]] (False, []) =
     Some (Inr (True, [[CHR 0x22, CHR ''x'', CHR 0x22]], (False, [CHR 0x22, CHR ''x'', CHR 0x22])))"
  using key_forms_quotes [of file_flag "[CHR 0x22, CHR ''x'', CHR 0x22]" "(False, [])"
      "(False, [CHR 0x22, CHR ''x'', CHR 0x22])" "(False, ''x'')"]
  by (simp add: file_flag_def parse_string_def strip_quotes_def substr_def)

text \<open>The name of a flag that needs a value as the last argument: the matcher takes the name off
  the list and the handler reads the front of an empty list, which is undefined.\<close>
theorem missing_value_undefined:
  assumes "\<not> ha_is_bool h" "''-'' @ ha_name h \<notin> {''-h'', ''-help'', ''--help''}"
    "\<forall>g \<in> set gs. \<not> matches g (''-'' @ ha_name h)"
  shows "parse_arguments (gs @ h # hs) [prog, ''-'' @ ha_name h] remove_args s = None"
proof -
  have "handler_parse h [''-'' @ ha_name h] s = None"
    using assms(1) by (simp add: handler_parse_def match_base_def)
  then have "try_handlers (gs @ h # hs) [''-'' @ ha_name h] s = None"
    using try_handlers_skip [OF assms(3)] by simp
  then show ?thesis
    using assms(2) by (simp add: parse_arguments_def parse_loop.simps)
qed

theorem missing_value_undefined_witness:
  "parse_arguments [verbose_flag, file_flag] [''run'', ''-file''] True (False, []) = None"
  using missing_value_undefined [of file_flag "[verbose_flag]" "[]" "''run''" True "(False, [])"]
  by (simp add: verbose_flag_def file_flag_def matches_def begins_with_def)

end
