(* ===== verification/Zi_Natural.thy ===== *)
theory Zi_Natural
  imports Zi_Prelude
begin

text \<open>
  \<^verbatim>\<open>zi/utility/natural_compare.hpp\<close>: the comparison that orders numbers inside strings by value.
  An iterator is the suffix of the string it points to, \<open>end()\<close> the empty suffix; the locale is the
  classic one. \<open>None\<close> is \<open>++\<close> on \<open>end()\<close>. The order of the characters is a parameter, as in the
  code.
\<close>

section \<open>Characters\<close>

abbreviation code :: "char \<Rightarrow> nat" where
  "code c \<equiv> of_char c"

definition isdigit :: "char \<Rightarrow> bool" where
  "isdigit c \<longleftrightarrow> 48 \<le> code c \<and> code c \<le> 57"

definition isspace :: "char \<Rightarrow> bool" where
  "isspace c \<longleftrightarrow> code c = 32 \<or> (9 \<le> code c \<and> code c \<le> 13)"

text \<open>\<open>value_type()\<close> and the character an iterator points to.\<close>

definition nul :: char where
  "nul = CHR 0x00"

definition char_at :: "string \<Rightarrow> char" where
  "char_at it = (if it \<noteq> [] then hd it else nul)"

section \<open>The comparison\<close>

lemma isdigit_char_at: "isdigit (char_at it) \<Longrightarrow> it \<noteq> []"
  by (auto simp: char_at_def isdigit_def nul_def)

text \<open>\<open>compare_to_right\<close>: the loop from a given \<open>res\<close>, with the iterators as it leaves them.\<close>

function compare_to_right ::
  "(char \<Rightarrow> char \<Rightarrow> bool) \<Rightarrow> string \<Rightarrow> string \<Rightarrow> int \<Rightarrow> int \<times> string \<times> string" where
  "compare_to_right cmp a b res =
     (let ca = char_at a; cb = char_at b; da = isdigit ca; db = isdigit cb
      in if \<not> da \<and> \<not> db then (res, a, b)
         else if \<not> da then (if cmp (CHR 0x00) (CHR 0x01) then 1 else - 1, a, b)
         else if \<not> db then (if cmp (CHR 0x00) (CHR 0x01) then - 1 else 1, a, b)
         else if res = 0
         then compare_to_right cmp (tl a) (tl b) (if cmp ca cb then 1 else if cmp cb ca then - 1 else res)
         else if b = [] \<and> a = [] then (res, a, b)
         else compare_to_right cmp (tl a) (tl b) res)"
  by pat_completeness auto
termination
  by (relation "measure (\<lambda>(cmp, a, b, res). length a)") (auto dest: isdigit_char_at)

declare compare_to_right.simps [simp del]

text \<open>The loops over white space and zeros.\<close>

fun skip_blank :: "string \<Rightarrow> string" where
  "skip_blank [] = []"
| "skip_blank (c # it) = (if isspace c \<or> c = CHR ''0'' then skip_blank it else c # it)"

text \<open>\<open>std::lexicographical_compare\<close>.\<close>

fun lex_compare :: "(char \<Rightarrow> char \<Rightarrow> bool) \<Rightarrow> string \<Rightarrow> string \<Rightarrow> bool" where
  "lex_compare cmp [] b = (b \<noteq> [])"
| "lex_compare cmp (x # a) [] = False"
| "lex_compare cmp (x # a) (y # b) = (if cmp x y then True else if cmp y x then False else lex_compare cmp a b)"

lemma length_skip_blank: "length (skip_blank it) \<le> length it"
  by (induction it) auto

lemma compare_to_right_length:
  "compare_to_right cmp a b res = (r, a', b') \<Longrightarrow> length a' \<le> length a \<and> length b' \<le> length b"
proof (induction cmp a b res rule: compare_to_right.induct)
  case (1 cmp a b res)
  let ?da = "isdigit (char_at a)" and ?db = "isdigit (char_at b)"
  note step = "1.prems" [unfolded compare_to_right.simps [of cmp a b res] Let_def]
  show ?case
  proof (cases "?da \<and> ?db")
    case False
    with step show ?thesis by (auto split: if_splits)
  next
    case True
    then have ne: "a \<noteq> []" "b \<noteq> []" by (auto dest: isdigit_char_at)
    show ?thesis
    proof (cases "res = 0")
      case res: True
      with True step have "compare_to_right cmp (tl a) (tl b)
        (if cmp (char_at a) (char_at b) then 1 else if cmp (char_at b) (char_at a) then - 1 else res) = (r, a', b')"
        by simp
      from "1.IH"(1) [OF refl refl refl refl _ _ _ res this] True ne show ?thesis by (cases a; cases b) auto
    next
      case res: False
      with True ne step have "compare_to_right cmp (tl a) (tl b) res = (r, a', b')" by simp
      from "1.IH"(2) [OF refl refl refl refl _ _ _ res _ this] True ne show ?thesis by (cases a; cases b) auto
    qed
  qed
qed

function natural_loop ::
  "(char \<Rightarrow> char \<Rightarrow> bool) \<Rightarrow> string \<Rightarrow> string \<Rightarrow> string \<Rightarrow> string \<Rightarrow> bool option" where
  "natural_loop cmp a b ia ib =
     (let ia = skip_blank ia; ib = skip_blank ib; ca = char_at ia; cb = char_at ib;
          (result, ia, ib) = (if isdigit ca \<and> isdigit cb then compare_to_right cmp ia ib 0 else (0, ia, ib))
      in if result \<noteq> 0 then Some (result > 0)
         else if ia = [] \<and> ib = [] then Some (lex_compare cmp a b)
         else if cmp ca cb then Some True
         else if cmp cb ca then Some False
         else if ia = [] \<or> ib = [] then None
         else natural_loop cmp a b (tl ia) (tl ib))"
  by pat_completeness auto
termination
proof (relation "measure (\<lambda>(cmp, a, b, ia, ib). length ia)", simp, goal_cases)
  case (1 cmp a b ia ib ia' ib' ca cb p result q ia'' ib'')
  have "length ia'' \<le> length ia'"
    using 1 compare_to_right_length [of cmp ia' ib' 0 result ia'' ib''] by (auto split: if_splits)
  moreover have "length ia' \<le> length ia" using 1 length_skip_blank by simp
  moreover have "ia'' \<noteq> []" using 1 by simp
  ultimately have "length (tl ia'') < length ia"
    by (cases ia'') auto
  then show ?case by simp
qed

declare natural_loop.simps [simp del]

definition natural_compare :: "(char \<Rightarrow> char \<Rightarrow> bool) \<Rightarrow> string \<Rightarrow> string \<Rightarrow> bool option" where
  "natural_compare cmp a b = natural_loop cmp a b a b"

text \<open>\<open>naturally_less< char >\<close>, with the signed characters of the usual ABIs.\<close>

definition naturally_less :: "string \<Rightarrow> string \<Rightarrow> bool option" where
  "naturally_less = natural_compare (\<lambda>c d. sint (of_char c :: 8 word) < sint (of_char d :: 8 word))"

section \<open>The value of a number\<close>

definition digit :: "char \<Rightarrow> nat" where
  "digit c = code c - 48"

fun num :: "string \<Rightarrow> nat" where
  "num [] = 0"
| "num (c # s) = digit c * 10 ^ length s + num s"

abbreviation digits :: "string \<Rightarrow> bool" where
  "digits s \<equiv> \<forall>c \<in> set s. isdigit c"

lemma num_less: "digits s \<Longrightarrow> num s < 10 ^ length s"
proof (induction s)
  case Nil
  then show ?case by simp
next
  case (Cons c s)
  then have "digit c \<le> 9" by (auto simp: digit_def isdigit_def)
  then have "digit c * 10 ^ length s \<le> 9 * 10 ^ length s" by (intro mult_le_mono1)
  moreover have "num s < 10 ^ length s" using Cons by simp
  ultimately have "digit c * 10 ^ length s + num s < 9 * 10 ^ length s + 10 ^ length s" by (rule add_le_less_mono)
  then show ?case by simp
qed

lemma num_ge: "s \<noteq> [] \<Longrightarrow> isdigit (hd s) \<Longrightarrow> hd s \<noteq> CHR ''0'' \<Longrightarrow> 10 ^ (length s - 1) \<le> num s"
proof -
  assume "s \<noteq> []" "isdigit (hd s)" "hd s \<noteq> CHR ''0''"
  then obtain c t where s: "s = c # t" "isdigit c" "c \<noteq> CHR ''0''" by (cases s) auto
  have "code c \<noteq> 48"
  proof
    assume "code c = 48"
    then have "code c = code CHR ''0''" by simp
    with s(3) show False by (simp only: of_char_eq_iff)
  qed
  then have "1 \<le> digit c" using s(2) by (auto simp: digit_def isdigit_def)
  then have "1 * 10 ^ length t \<le> digit c * 10 ^ length t" by (rule mult_le_mono1)
  then have "10 ^ length t \<le> digit c * 10 ^ length t + num t" by (simp only: mult_1 trans_le_add1)
  then show ?thesis using s(1) by simp
qed

lemma num_skip_zeros: "num (skip_blank s) = num s" if "digits s"
  using that by (induction s) (auto simp: digit_def isspace_def isdigit_def)

lemma skip_blank_digits: "digits s \<Longrightarrow> digits (skip_blank s)"
  by (induction s) auto

lemma skip_blank_hd: "skip_blank s = [] \<or> hd (skip_blank s) \<noteq> CHR ''0''"
  by (induction s) auto

section \<open>Numbers compare by value\<close>

text \<open>What the theorems need of the order of the characters: it is irreflexive and agrees with the
  ASCII codes.\<close>

definition ascii_order :: "(char \<Rightarrow> char \<Rightarrow> bool) \<Rightarrow> bool" where
  "ascii_order cmp \<longleftrightarrow> (\<forall>c. \<not> cmp c c) \<and> (\<forall>c d. code c < 128 \<and> code d < 128 \<longrightarrow> cmp c d = (code c < code d))"

lemma ascii_order_digits:
  "ascii_order cmp \<Longrightarrow> isdigit c \<Longrightarrow> isdigit d \<Longrightarrow> cmp c d = (digit c < digit d)"
  by (auto simp: ascii_order_def isdigit_def digit_def)

lemma ascii_order_nul: "ascii_order cmp \<Longrightarrow> isdigit c \<Longrightarrow> cmp nul c \<and> \<not> cmp c nul"
  by (simp add: ascii_order_def isdigit_def nul_def)

lemma ascii_order_0_1: "ascii_order cmp \<Longrightarrow> cmp (CHR 0x00) (CHR 0x01)"
  by (simp add: ascii_order_def)

text \<open>The sign the loop arrives at for two runs of digits.\<close>

definition num_sign :: "string \<Rightarrow> string \<Rightarrow> int \<Rightarrow> int" where
  "num_sign n m res =
     (if length n < length m then 1 else if length m < length n then - 1 else if res \<noteq> 0 then res
      else if num n < num m then 1 else if num m < num n then - 1 else 0)"

abbreviation stop :: "string \<Rightarrow> bool" where
  "stop r \<equiv> \<not> isdigit (char_at r)"

lemma char_at_append [simp]: "char_at (c # r) = c" by (simp add: char_at_def)

lemma compare_to_right_sign:
  assumes "ascii_order cmp"
  shows "digits n \<Longrightarrow> digits m \<Longrightarrow> stop r \<Longrightarrow> stop s \<Longrightarrow>
    fst (compare_to_right cmp (n @ r) (m @ s) res) = num_sign n m res \<and>
    (length n = length m \<longrightarrow> snd (compare_to_right cmp (n @ r) (m @ s) res) = (r, s))"
proof (induction n arbitrary: m res)
  case Nil
  then show ?case using ascii_order_0_1 [OF assms]
    by (cases m) (simp_all add: compare_to_right.simps [of cmp _ _ res] num_sign_def)
next
  case (Cons x n)
  show ?case
  proof (cases m)
    case Nil
    with Cons.prems show ?thesis using ascii_order_0_1 [OF assms]
      by (simp add: compare_to_right.simps [of cmp _ _ res] num_sign_def)
  next
    case m: (Cons y m')
    define res' where "res' = (if res = 0 then if cmp x y then 1 else if cmp y x then - 1 else 0 else res)"
    have dig: "isdigit x" "isdigit y" "digits n" "digits m'" using Cons.prems m by auto
    have step: "compare_to_right cmp ((x # n) @ r) (m @ s) res = compare_to_right cmp (n @ r) (m' @ s) res'"
      using dig by (subst compare_to_right.simps) (simp add: m res'_def Let_def)
    have sign: "num_sign (x # n) m res = num_sign n m' res'" if "length n = length m'"
    proof -
      have b: "num n < 10 ^ length m'" "num m' < 10 ^ length m'"
        using num_less [OF dig(3)] num_less [OF dig(4)] that by auto
      have less: "u * 10 ^ k + p < v * 10 ^ k + q" if "u < v" "p < 10 ^ k" for u v k p q :: nat
      proof -
        have "(u + 1) * 10 ^ k \<le> v * 10 ^ k" using that(1) by (intro mult_le_mono1) simp
        with that(2) show ?thesis by simp
      qed
      consider "digit x < digit y" | "digit y < digit x" | "digit x = digit y" by linarith
      then show ?thesis
      proof cases
        case 1
        from less [OF 1 b(1), of "num m'"] show ?thesis
          using that 1 ascii_order_digits [OF assms] dig by (simp add: num_sign_def m res'_def)
      next
        case 2
        from less [OF 2 b(2), of "num n"] show ?thesis
          using that 2 ascii_order_digits [OF assms] dig by (simp add: num_sign_def m res'_def)
      next
        case 3
        then show ?thesis
          using that ascii_order_digits [OF assms] dig by (simp add: num_sign_def m res'_def)
      qed
    qed
    have "num_sign (x # n) m res = num_sign n m' res'"
      by (cases "length n = length m'") (use sign in \<open>auto simp: num_sign_def m\<close>)
    with Cons.IH [OF dig(3,4) Cons.prems(3,4), of res'] show ?thesis
      unfolding step by (simp add: m)
  qed
qed

section \<open>Whole names\<close>

text \<open>A prefix both strings share, without digits, white space and NUL.\<close>

definition plain :: "string \<Rightarrow> bool" where
  "plain p \<longleftrightarrow> (\<forall>c \<in> set p. \<not> isdigit c \<and> \<not> isspace c)"

lemma isdigit_0 [simp]: "isdigit CHR ''0''"
  by (simp add: isdigit_def)

lemma not_isspace_digit [simp]: "isdigit c \<Longrightarrow> \<not> isspace c"
  by (auto simp: isdigit_def isspace_def)

lemma natural_loop_plain:
  assumes "ascii_order cmp"
  shows "plain p \<Longrightarrow> natural_loop cmp a b (p @ x) (p @ y) = natural_loop cmp a b x y"
proof (induction p)
  case Nil
  then show ?case by simp
next
  case (Cons c p)
  have c: "\<not> isdigit c" "\<not> isspace c" "c \<noteq> CHR ''0''" "\<not> cmp c c"
    using Cons.prems assms by (auto simp: plain_def ascii_order_def)
  then have "natural_loop cmp a b ((c # p) @ x) ((c # p) @ y) = natural_loop cmp a b (p @ x) (p @ y)"
    by (subst natural_loop.simps) (simp add: Let_def)
  with Cons show ?case by (simp add: plain_def)
qed

text \<open>The loop at two runs of digits: what decides, and where it goes on when the values agree.\<close>

lemma skip_blank_append:
  "digits n \<Longrightarrow> skip_blank (n @ r) = (if skip_blank n = [] then skip_blank r else skip_blank n @ r)"
  by (induction n) auto

lemma num_sign_skip:
  assumes "digits n" "digits m"
  shows "num_sign (skip_blank n) (skip_blank m) 0 = (if num n < num m then 1 else if num m < num n then - 1 else 0)"
    "num n = num m \<Longrightarrow> length (skip_blank n) = length (skip_blank m)"
proof -
  let ?n = "skip_blank n" and ?m = "skip_blank m"
  have len: "num s < num t" if "digits s" "digits t" "length s < length t" "t = [] \<or> hd t \<noteq> CHR ''0''" for s t
  proof -
    have "t \<noteq> []" using that(3) by auto
    then have t: "10 ^ (length t - 1) \<le> num t" using that(2,4) by (intro num_ge) (cases t; simp)+
    have "num s < 10 ^ length s" by (rule num_less [OF that(1)])
    also have "(10 :: nat) ^ length s \<le> 10 ^ (length t - 1)" using that(3) by (intro power_increasing) auto
    also note t
    finally show ?thesis .
  qed
  have d: "digits ?n" "digits ?m" using assms by (simp_all add: skip_blank_digits)
  have A: "length ?n < length ?m \<Longrightarrow> num ?n < num ?m" by (rule len [OF d _ skip_blank_hd])
  have B: "length ?m < length ?n \<Longrightarrow> num ?m < num ?n" by (rule len [OF d(2,1) _ skip_blank_hd])
  show "num_sign ?n ?m 0 = (if num n < num m then 1 else if num m < num n then - 1 else 0)"
    using A B num_skip_zeros [OF assms(1)] num_skip_zeros [OF assms(2)] by (auto simp: num_sign_def)
  show "num n = num m \<Longrightarrow> length ?n = length ?m"
    using A B num_skip_zeros [OF assms(1)] num_skip_zeros [OF assms(2)] by (metis linorder_neqE_nat less_irrefl)
qed

lemma natural_loop_numbers:
  assumes cmp: "ascii_order cmp" and "digits n" "digits m"
  shows "natural_loop cmp a b n m =
    Some (if num n < num m then True else if num m < num n then False else lex_compare cmp a b)"
proof -
  let ?n = "skip_blank n" and ?m = "skip_blank m"
  note sign = num_sign_skip [OF assms(2,3)]
  have d: "digits ?n" "digits ?m" using assms by (simp_all add: skip_blank_digits)
  have nul: "\<not> isdigit (char_at [])" by (simp add: char_at_def nul_def isdigit_def)
  have num0: "num s = 0" if "skip_blank s = []" "digits s" for s
    using num_skip_zeros [OF that(2)] that(1) by simp
  show ?thesis
  proof (cases "?n = [] \<or> ?m = []")
    case True
    have lt: "num x < num y" if "skip_blank x = []" "skip_blank y \<noteq> []" "digits x" "digits y" for x y
    proof -
      have "0 < num (skip_blank y)"
        using num_ge [OF that(2)] that(2) skip_blank_digits [OF that(4)] skip_blank_hd [of y]
        by (cases "skip_blank y") (auto intro: less_le_trans [of 0 "10 ^ _"])
      then show ?thesis using num0 [OF that(1,3)] num_skip_zeros [OF that(4)] by simp
    qed
    have hd: "isdigit (char_at s)" if "s \<noteq> []" "digits s" for s
      using that by (cases s) auto
    from True consider "?n = []" "?m = []" | "?n = []" "?m \<noteq> []" | "?n \<noteq> []" "?m = []" by blast
    then show ?thesis
    proof cases
      case 1
      with num0 [of n] num0 [of m] assms nul show ?thesis
        by (subst natural_loop.simps) (simp add: Let_def)
    next
      case 2
      have "cmp nul (char_at ?m)" by (rule conjunct1, rule ascii_order_nul [OF cmp hd [OF 2(2) d(2)]])
      with 2 lt [OF 2 assms(2,3)] nul show ?thesis
        by (subst natural_loop.simps) (simp add: Let_def char_at_def [of "[]"])
    next
      case 3
      have "cmp nul (char_at ?n) \<and> \<not> cmp (char_at ?n) nul" by (rule ascii_order_nul [OF cmp hd [OF 3(1) d(1)]])
      with 3 lt [OF 3(2,1) assms(3,2)] nul show ?thesis
        by (subst natural_loop.simps) (simp add: Let_def char_at_def [of "[]"])
    qed
  next
    case False
    then have dig: "isdigit (char_at ?n)" "isdigit (char_at ?m)" using d by (auto simp: char_at_def)
    obtain r a' b' where c: "compare_to_right cmp ?n ?m 0 = (r, a', b')" by (metis prod_cases3)
    have "fst (compare_to_right cmp (?n @ []) (?m @ []) 0) = num_sign ?n ?m 0 \<and>
        (length ?n = length ?m \<longrightarrow> snd (compare_to_right cmp (?n @ []) (?m @ []) 0) = ([], []))"
      by (rule compare_to_right_sign [OF cmp d nul nul])
    with c sign have r: "r = (if num n < num m then 1 else if num m < num n then - 1 else 0)"
      "num n = num m \<Longrightarrow> a' = [] \<and> b' = []" by auto
    have "natural_loop cmp a b n m =
        (if r \<noteq> 0 then Some (r > 0) else if a' = [] \<and> b' = [] then Some (lex_compare cmp a b)
         else if cmp (char_at ?n) (char_at ?m) then Some True
         else if cmp (char_at ?m) (char_at ?n) then Some False
         else if a' = [] \<or> b' = [] then None
         else natural_loop cmp a b (tl a') (tl b'))"
      using dig c by (subst natural_loop.simps) (simp add: Let_def)
    with r show ?thesis by (cases "num n" "num m" rule: linorder_cases) simp_all
  qed
qed

text \<open>Two equal numbers that go on: the character after each number is stepped over.\<close>

lemma natural_loop_equal_numbers:
  assumes cmp: "ascii_order cmp" and n: "digits n" "skip_blank n \<noteq> []" and r: "stop r" "stop s"
  shows "natural_loop cmp a b (n @ r) (n @ s) =
    (if r = [] \<and> s = [] then Some (lex_compare cmp a b)
     else if r = [] \<or> s = [] then None
     else natural_loop cmp a b (tl r) (tl s))"
proof -
  let ?n = "skip_blank n"
  have d: "digits ?n" using n(1) by (rule skip_blank_digits)
  have app: "skip_blank (n @ x) = ?n @ x" for x using n by (simp add: skip_blank_append)
  have hd: "char_at (?n @ x) = hd ?n" "isdigit (hd ?n)" for x using n(2) d by (simp_all add: char_at_def)
  have "fst (compare_to_right cmp (?n @ r) (?n @ s) 0) = 0 \<and> snd (compare_to_right cmp (?n @ r) (?n @ s) 0) = (r, s)"
    using compare_to_right_sign [OF cmp d d r, of 0] by (simp add: num_sign_def)
  then have c: "compare_to_right cmp (?n @ r) (?n @ s) 0 = (0, r, s)" by (metis prod.collapse)
  have "\<not> cmp (hd ?n) (hd ?n)" using cmp by (simp add: ascii_order_def)
  with c hd hd(1) [of "[]"] show ?thesis by (subst natural_loop.simps) (simp add: Let_def app)
qed

section \<open>Properties\<close>

text \<open>C37: Numbers at the end of a common prefix compare by value: the comparison returns, two
  different values are ordered as numbers whatever their lengths and leading zeros, and equal values
  as the strings.\<close>
theorem natural_compare_numbers:
  assumes "ascii_order cmp" "plain p" "digits n" "digits m"
  shows "natural_compare cmp (p @ n) (p @ m) =
    Some (if num n < num m then True else if num m < num n then False else lex_compare cmp (p @ n) (p @ m))"
  using natural_loop_plain [OF assms(1,2)] natural_loop_numbers [OF assms(1,3,4)]
  by (simp add: natural_compare_def)

lemma naturally_less_order: "ascii_order (\<lambda>c d. sint (of_char c :: 8 word) < sint (of_char d :: 8 word))"
proof -
  have "sint (of_char c :: 8 word) = int (code c)" if "code c < 128" for c
  proof -
    have w: "(of_char c :: 8 word) = of_nat (code c)" by (rule of_nat_of_char [symmetric])
    have "sint (word_of_nat (code c) :: 8 word) = int (code c)"
      using that by (simp add: signed_of_nat signed_take_bit_int_eq_self)
    with w show ?thesis by simp
  qed
  then show ?thesis by (simp add: ascii_order_def)
qed

theorem natural_compare_numbers_witness:
  "naturally_less ''file007'' ''file10'' = Some True"
  using natural_compare_numbers [OF naturally_less_order, of "''file''" "''007''" "''10''"]
  by (simp add: naturally_less_def plain_def isdigit_def isspace_def digit_def)

text \<open>After two equal numbers one character of each string is never compared: whatever the
  characters after the number are, the next numbers decide.\<close>
theorem natural_compare_skips_character:
  assumes "ascii_order cmp" "digits n" "num n \<noteq> 0" "\<not> isdigit c" "\<not> isdigit d" "digits u" "digits v" "num u < num v"
  shows "natural_compare cmp (n @ c # u) (n @ d # v) = Some True"
proof -
  have "skip_blank n \<noteq> []"
    using num_skip_zeros [OF assms(2)] assms(3) by auto
  then show ?thesis
    using natural_loop_equal_numbers [OF assms(1,2), of "c # u" "d # v"] assms natural_loop_numbers [OF assms(1,6,7)]
    by (simp add: natural_compare_def)
qed

theorem natural_compare_skips_character_witness:
  "naturally_less ''1b1'' ''1a2'' = Some True \<and> naturally_less ''1a1'' ''1b2'' = Some True"
  using natural_compare_skips_character [OF naturally_less_order, of "''1''" "CHR ''b''" "CHR ''a''" "''1''" "''2''"]
    natural_compare_skips_character [OF naturally_less_order, of "''1''" "CHR ''a''" "CHR ''b''" "''1''" "''2''"]
  by (simp add: naturally_less_def isdigit_def digit_def)

text \<open>A string that ends in a number and a longer one that goes on after the same number: the
  iterator of the shorter one is advanced past the end, which is undefined.\<close>
theorem natural_compare_runs_past_end:
  assumes "ascii_order cmp" "plain p" "digits n" "num n \<noteq> 0" "\<not> isdigit c"
  shows "natural_compare cmp (p @ n) (p @ n @ c # r) = None \<and> natural_compare cmp (p @ n @ c # r) (p @ n) = None"
proof -
  have n: "skip_blank n \<noteq> []"
    using num_skip_zeros [OF assms(3)] assms(4) by auto
  have "stop []" by (simp add: char_at_def nul_def isdigit_def)
  then show ?thesis
    using natural_loop_equal_numbers [OF assms(1,3) n, of "[]" "c # r"]
      natural_loop_equal_numbers [OF assms(1,3) n, of "c # r" "[]"] assms(5)
      natural_loop_plain [OF assms(1,2)]
    by (simp add: natural_compare_def)
qed

theorem natural_compare_runs_past_end_witness:
  "naturally_less ''file1'' ''file1.txt'' = None"
  using natural_compare_runs_past_end [OF naturally_less_order, of "''file''" "''1''" "CHR ''.''" "''txt''"]
  by (simp add: naturally_less_def plain_def isdigit_def isspace_def digit_def)

end
