(* ===== verification/Zi_Monitor.thy ===== *)
theory Zi_Monitor
  imports Zi_Prelude
begin

text \<open>
  Threads and a monitor: what \<^verbatim>\<open>zi/concurrency\<close>'s \<open>mutex::guard\<close> and \<open>condition_variable\<close>
  give the classes built on them. A member function runs its critical section, from the guard to
  the next \<open>wait\<close> or to the end, in one step: the mutex keeps the others out. A section ends by
  returning or by parking the thread on a condition variable, which gives the mutex up in the same
  step. \<open>notify_one\<close> wakes some parked thread of the variable when there is one, \<open>notify_all\<close>
  wakes all of them; a woken thread goes on later, when it gets the mutex again. A wait can also end
  without a notification (POSIX allows it), and a timed one by its deadline.
\<close>

section \<open>Threads\<close>

text \<open>\<open>'h\<close> is what a running thread holds, \<open>'op\<close> a member function with its local variables.\<close>

datatype ('h, 'cv, 'op) phase = Run 'h | Parked 'cv 'op | Woken 'op | Timed_Out 'op

datatype 'cv notify = One 'cv | All 'cv

datatype ('cv, 'op) outcome = Return bool | Wait 'cv 'op

type_synonym ('m, 'cv, 'op) critical = "('cv, 'op) outcome \<times> 'm \<times> 'cv notify list"

text \<open>A class: who may call a member function, its section from the call to the first wait, the
  section after a wake-up (the flag says whether a deadline the code reads itself has passed), the
  section after a wait that timed out, and what a thread holds after a return.\<close>

record ('m, 'h, 'cv, 'op) monitor =
  mo_may :: "'op \<Rightarrow> 'h \<Rightarrow> 'm \<Rightarrow> bool"
  mo_call :: "'op \<Rightarrow> bool \<Rightarrow> 'm \<Rightarrow> ('m, 'cv, 'op) critical"
  mo_resume :: "'op \<Rightarrow> bool \<Rightarrow> 'm \<Rightarrow> ('m, 'cv, 'op) critical"
  mo_timed :: "'op \<Rightarrow> bool"
  mo_expire :: "'op \<Rightarrow> 'm \<Rightarrow> ('m, 'cv, 'op) critical"
  mo_after :: "'op \<Rightarrow> bool \<Rightarrow> 'h"

fun wake :: "('h, 'cv, 'op) phase \<Rightarrow> ('h, 'cv, 'op) phase" where
  "wake (Parked cv op) = Woken op"
| "wake p = p"

fun parked_on :: "'cv \<Rightarrow> ('h, 'cv, 'op) phase \<Rightarrow> bool" where
  "parked_on cv (Parked cv' op) = (cv' = cv)"
| "parked_on cv p = False"

definition notify_all :: "'cv \<Rightarrow> ('h, 'cv, 'op) phase list \<Rightarrow> ('h, 'cv, 'op) phase list" where
  "notify_all cv ps = map (\<lambda>p. if parked_on cv p then wake p else p) ps"

inductive notified :: "'cv notify list \<Rightarrow> ('h, 'cv, 'op) phase list \<Rightarrow> ('h, 'cv, 'op) phase list \<Rightarrow> bool" where
  nothing: "notified [] ps ps"
| all: "notified ns (notify_all cv ps) ps' \<Longrightarrow> notified (All cv # ns) ps ps'"
| one: "t < length ps \<Longrightarrow> parked_on cv (ps ! t) \<Longrightarrow> notified ns (ps[t := wake (ps ! t)]) ps' \<Longrightarrow>
    notified (One cv # ns) ps ps'"
| nobody: "\<forall>p \<in> set ps. \<not> parked_on cv p \<Longrightarrow> notified ns ps ps' \<Longrightarrow> notified (One cv # ns) ps ps'"

inductive_cases notified_Nil: "notified [] ps ps'"
inductive_cases notified_All: "notified (All cv # ns) ps ps'"
inductive_cases notified_One: "notified (One cv # ns) ps ps'"

fun phase_after :: "('m, 'h, 'cv, 'op) monitor \<Rightarrow> 'op \<Rightarrow> ('cv, 'op) outcome \<Rightarrow> ('h, 'cv, 'op) phase" where
  "phase_after M op (Return b) = Run (mo_after M op b)"
| "phase_after M op (Wait cv op') = Parked cv op'"

text \<open>One step of one thread, \<open>t\<close>.\<close>

inductive mo_step :: "('m, 'h, 'cv, 'op) monitor \<Rightarrow> 'm \<Rightarrow> ('h, 'cv, 'op) phase list \<Rightarrow>
    'm \<Rightarrow> ('h, 'cv, 'op) phase list \<Rightarrow> bool" for M where
  call: "t < length ps \<Longrightarrow> ps ! t = Run h \<Longrightarrow> mo_may M op h m \<Longrightarrow> mo_call M op late m = (r, m', ns) \<Longrightarrow>
    notified ns (ps[t := phase_after M op r]) ps' \<Longrightarrow> mo_step M m ps m' ps'"
| resume: "t < length ps \<Longrightarrow> ps ! t = Woken op \<Longrightarrow> mo_resume M op late m = (r, m', ns) \<Longrightarrow>
    notified ns (ps[t := phase_after M op r]) ps' \<Longrightarrow> mo_step M m ps m' ps'"
| spurious: "t < length ps \<Longrightarrow> ps ! t = Parked cv op \<Longrightarrow> mo_step M m ps m (ps[t := Woken op])"
| timeout: "t < length ps \<Longrightarrow> ps ! t = Parked cv op \<Longrightarrow> mo_timed M op \<Longrightarrow> mo_step M m ps m (ps[t := Timed_Out op])"
| expire: "t < length ps \<Longrightarrow> ps ! t = Timed_Out op \<Longrightarrow> mo_expire M op m = (r, m', ns) \<Longrightarrow>
    notified ns (ps[t := phase_after M op r]) ps' \<Longrightarrow> mo_step M m ps m' ps'"

inductive mo_reach :: "('m, 'h, 'cv, 'op) monitor \<Rightarrow> 'm \<Rightarrow> ('h, 'cv, 'op) phase list \<Rightarrow>
    'm \<Rightarrow> ('h, 'cv, 'op) phase list \<Rightarrow> bool" for M m0 ps0 where
  start: "mo_reach M m0 ps0 m0 ps0"
| step: "mo_reach M m0 ps0 m ps \<Longrightarrow> mo_step M m ps m' ps' \<Longrightarrow> mo_reach M m0 ps0 m' ps'"

section \<open>Counting threads\<close>

definition num_of :: "(('h, 'cv, 'op) phase \<Rightarrow> bool) \<Rightarrow> ('h, 'cv, 'op) phase list \<Rightarrow> nat" where
  "num_of Q ps = length (filter Q ps)"

lemma num_of_update:
  assumes "t < length ps"
  shows "num_of Q (ps[t := p]) + of_bool (Q (ps ! t)) = num_of Q ps + of_bool (Q p)"
proof -
  have ps: "ps = take t ps @ ps ! t # drop (Suc t) ps" by (rule id_take_nth_drop [OF assms])
  have "num_of Q (ps[t := p]) = num_of Q (take t ps) + of_bool (Q p) + num_of Q (drop (Suc t) ps)"
    using assms by (simp add: num_of_def upd_conv_take_nth_drop)
  moreover have "num_of Q ps = num_of Q (take t ps) + of_bool (Q (ps ! t)) + num_of Q (drop (Suc t) ps)"
    by (subst ps) (simp add: num_of_def)
  ultimately show ?thesis by simp
qed

lemma num_of_pos: "t < length ps \<Longrightarrow> Q (ps ! t) \<Longrightarrow> 0 < num_of Q ps"
  by (auto simp: num_of_def filter_empty_conv)

lemma num_of_0: "num_of Q ps = 0 \<longleftrightarrow> (\<forall>p \<in> set ps. \<not> Q p)"
  by (simp add: num_of_def filter_empty_conv)

lemma num_of_le: "num_of Q ps \<le> length ps"
  by (simp add: num_of_def)

lemma num_of_disj: "\<forall>p. \<not> (Q p \<and> R p) \<Longrightarrow> num_of Q ps + num_of R ps = num_of (\<lambda>p. Q p \<or> R p) ps"
  unfolding num_of_def by (induction ps) auto

lemma num_of_mono: "(\<And>p. Q p \<Longrightarrow> R p) \<Longrightarrow> num_of Q ps \<le> num_of R ps"
  unfolding num_of_def by (induction ps) auto

lemma num_of_replicate: "num_of Q (replicate n p) = (if Q p then n else 0)"
  by (simp add: num_of_def)

section \<open>What a notification does\<close>

lemma notified_length: "notified ns ps ps' \<Longrightarrow> length ps' = length ps"
  by (induction rule: notified.induct) (auto simp: notify_all_def)

lemma notify_all_in:
  assumes "q \<in> set (notify_all cv ps)"
  shows "q \<in> set ps \<and> \<not> parked_on cv q \<or> (\<exists>op. q = Woken op \<and> Parked cv op \<in> set ps)"
proof -
  obtain r where r: "r \<in> set ps" "q = (if parked_on cv r then wake r else r)"
    using assms unfolding notify_all_def set_map by (rule imageE)
  show ?thesis
  proof (cases "parked_on cv r")
    case True
    then obtain op where "r = Parked cv op" by (cases r) auto
    with r show ?thesis by (intro disjI2 exI [of _ op]) simp
  next
    case False
    with r show ?thesis by simp
  qed
qed

text \<open>Waking does not change what only depends on the member function.\<close>

lemma notified_num_of:
  assumes "notified ns ps ps'" "\<And>p. Q (wake p) = Q p"
  shows "num_of Q ps' = num_of Q ps"
  using assms(1)
proof induction
  case (all ns cv ps ps')
  have "num_of Q (notify_all cv ps) = num_of Q ps"
    unfolding num_of_def notify_all_def by (induction ps) (auto simp: assms(2))
  with all show ?case by simp
next
  case (one t ps cv ns ps')
  then show ?case using num_of_update [of t ps Q "wake (ps ! t)"] by (simp add: assms(2))
qed simp_all

text \<open>Waking never parks a thread, and never takes one off its wake-up.\<close>

lemma notified_parked_le:
  assumes "notified ns ps ps'"
  shows "num_of (parked_on cv) ps' \<le> num_of (parked_on cv) ps"
  using assms
proof induction
  case (all ns cv' ps ps')
  have "num_of (parked_on cv) (notify_all cv' ps) \<le> num_of (parked_on cv) ps"
    unfolding num_of_def notify_all_def
  proof (induction ps)
    case (Cons p ps)
    then show ?case by (cases p) auto
  qed simp
  with all show ?case by simp
next
  case (one t ps cv' ns ps')
  have "\<not> parked_on cv (wake (ps ! t))" by (cases "ps ! t") auto
  with one num_of_update [of t ps "parked_on cv" "wake (ps ! t)"] show ?case by simp
qed simp_all

lemma notified_in:
  assumes "notified ns ps ps'" "p \<in> set ps'"
  shows "p \<in> set ps \<or> (\<exists>cv op. p = Woken op \<and> Parked cv op \<in> set ps)"
  using assms
proof induction
  case (all ns cv ps ps')
  have "q \<in> set ps \<or> (\<exists>cv op. q = Woken op \<and> Parked cv op \<in> set ps)" if q: "q \<in> set (notify_all cv ps)" for q
    using notify_all_in [OF q] by blast
  with all show ?case by blast
next
  case (one t ps cv ns ps')
  obtain cv' op where t: "ps ! t = Parked cv' op" using one(2) by (cases "ps ! t") auto
  have "q \<in> set ps \<or> (\<exists>cv op. q = Woken op \<and> Parked cv op \<in> set ps)" if q: "q \<in> set (ps[t := wake (ps ! t)])" for q
  proof -
    from set_update_subset_insert q have "q = Woken op \<or> q \<in> set ps" unfolding t by fastforce
    moreover have "Parked cv' op \<in> set ps" using one(1) t by (metis nth_mem)
    ultimately show ?thesis by blast
  qed
  with one show ?case by blast
qed auto

lemma notified_woken:
  assumes "notified ns ps ps'" "Woken op \<in> set ps"
  shows "Woken op \<in> set ps'"
  using assms
proof induction
  case (all ns cv ps ps')
  then show ?case by (force simp: notify_all_def)
next
  case (one t ps cv ns ps')
  then obtain u where u: "u < length ps" "ps ! u = Woken op" by (auto simp: in_set_conv_nth)
  with one(2) have "u \<noteq> t" by auto
  with u have "(ps[t := wake (ps ! t)]) ! u = Woken op" by simp
  with u(1) have "Woken op \<in> set (ps[t := wake (ps ! t)])" by (metis length_list_update nth_mem)
  with one show ?case by simp
qed simp_all

lemma notified_all_none:
  assumes "notified ns ps ps'" "All cv \<in> set ns"
  shows "num_of (parked_on cv) ps' = 0"
  using assms
proof induction
  case (all ns cv' ps ps')
  show ?case
  proof (cases "cv' = cv")
    case True
    have "\<forall>p \<in> set (notify_all cv ps). \<not> parked_on cv p"
      using notify_all_in [of _ cv ps] by fastforce
    then have "num_of (parked_on cv) (notify_all cv ps) = 0" by (simp add: num_of_0)
    with notified_parked_le [OF all(1), of cv] True show ?thesis by simp
  next
    case False
    with all show ?thesis by simp
  qed
qed auto

lemma notified_one_wakes:
  assumes "notified ns ps ps'" "One cv \<in> set ns" "0 < num_of (parked_on cv) ps'"
  shows "\<exists>op \<in> {op. Parked cv op \<in> set ps}. Woken op \<in> set ps'"
  using assms
proof induction
  case (nothing ps)
  then show ?case by simp
next
  case (all ns cv' ps ps')
  then obtain op where op: "Parked cv op \<in> set (notify_all cv' ps)" "Woken op \<in> set ps'" by auto
  then have "Parked cv op \<in> set ps" using notify_all_in [of "Parked cv op" cv' ps] by simp
  with op show ?case by auto
next
  case (one t ps cv' ns ps')
  show ?case
  proof (cases "cv' = cv")
    case True
    with one obtain op where t: "ps ! t = Parked cv op" by (cases "ps ! t") auto
    have "Woken op \<in> set (ps[t := wake (ps ! t)])" unfolding t using one(1) by (simp add: set_update_memI)
    then have "Woken op \<in> set ps'" by (rule notified_woken [OF one(3)])
    moreover have "Parked cv op \<in> set ps" using one(1) t by (metis nth_mem)
    ultimately show ?thesis by auto
  next
    case False
    with one obtain op where op: "Parked cv op \<in> set (ps[t := wake (ps ! t)])" "Woken op \<in> set ps'" by auto
    obtain cv'' op'' where "ps ! t = Parked cv'' op''" using one(2) by (cases "ps ! t") auto
    with op(1) set_update_subset_insert have "Parked cv op \<in> set ps" by fastforce
    with op show ?thesis by auto
  qed
next
  case (nobody ps cv' ns ps')
  show ?case
  proof (cases "cv' = cv")
    case True
    with nobody have "num_of (parked_on cv) ps = 0" by (simp add: num_of_0)
    with notified_parked_le [OF nobody(2), of cv] nobody.prems show ?thesis by simp
  next
    case False
    with nobody show ?thesis by auto
  qed
qed

lemma notified_one_less:
  assumes "notified ns ps ps'" "One cv \<in> set ns"
  shows "num_of (parked_on cv) ps' \<le> num_of (parked_on cv) ps - 1"
  using assms
proof induction
  case (all ns cv' ps ps')
  have "notified [All cv'] ps (notify_all cv' ps)" by (intro notified.intros)
  then have "num_of (parked_on cv) (notify_all cv' ps) \<le> num_of (parked_on cv) ps" by (rule notified_parked_le)
  moreover have "num_of (parked_on cv) ps' \<le> num_of (parked_on cv) (notify_all cv' ps) - 1" using all by simp
  ultimately show ?case by linarith
next
  case (one t ps cv' ns ps')
  have np: "\<not> parked_on c (wake (ps ! t))" for c by (cases "ps ! t") auto
  show ?case
  proof (cases "cv' = cv")
    case True
    with one num_of_update [of t ps "parked_on cv" "wake (ps ! t)"] np
      notified_parked_le [OF one(3), of cv] show ?thesis by simp
  next
    case False
    with one num_of_update [of t ps "parked_on cv" "wake (ps ! t)"] np show ?thesis by auto
  qed
next
  case (nobody ps cv' ns ps')
  show ?case
  proof (cases "cv' = cv")
    case True
    with nobody have "num_of (parked_on cv) ps = 0" by (simp add: num_of_0)
    with notified_parked_le [OF nobody(2), of cv] show ?thesis by simp
  next
    case False
    with nobody show ?thesis by simp
  qed
qed simp

lemma notified_num_of_le:
  assumes "notified ns ps ps'" "\<And>p. Q p \<Longrightarrow> Q (wake p)"
  shows "num_of Q ps \<le> num_of Q ps'"
  using assms(1)
proof induction
  case (all ns cv ps ps')
  have "num_of Q ps \<le> num_of Q (notify_all cv ps)"
    unfolding num_of_def notify_all_def by (induction ps) (auto simp: assms(2))
  with all show ?case by simp
next
  case (one t ps cv ns ps')
  have "of_bool (Q (ps ! t)) \<le> (of_bool (Q (wake (ps ! t))) :: nat)" using assms(2) by simp
  with one num_of_update [of t ps Q "wake (ps ! t)"] show ?case by linarith
qed simp_all

text \<open>What holds of every thread, and of its wake-up when it sleeps, survives notifications.\<close>

lemma notified_ball:
  assumes "notified ns qs ps'" "\<forall>x \<in> set qs. P x" "\<And>cv op. P (Parked cv op) \<Longrightarrow> P (Woken op)"
  shows "\<forall>x \<in> set ps'. P x"
  using notified_in [OF assms(1)] assms(2,3) by blast

text \<open>When at most one thread is of a kind and it is the one that moves, the others are not.\<close>

lemma num_of_two:
  assumes "u \<noteq> t" "u < length ps" "t < length ps" "Q (ps ! u)" "Q (ps ! t)"
  shows "2 \<le> num_of Q ps"
proof -
  have "card {u, t} \<le> card {i. i < length ps \<and> Q (ps ! i)}" using assms by (intro card_mono) auto
  with assms(1) show ?thesis by (simp add: num_of_def length_filter_conv_card)
qed

lemma others_not:
  assumes "num_of Q ps \<le> 1" "t < length ps" "Q (ps ! t)" "x \<in> set (ps[t := q])"
  shows "x = q \<or> x \<in> set ps \<and> \<not> Q x"
proof -
  obtain u where u: "u < length ps" "x = (ps[t := q]) ! u" using assms(4) by (auto simp: in_set_conv_nth)
  show ?thesis
  proof (cases "u = t")
    case False
    with num_of_two [OF False u(1) assms(2), of Q] assms(1,3) u show ?thesis by fastforce
  qed (use u in simp)
qed

section \<open>Invariants of a monitor\<close>

text \<open>What a class has to show of its sections for a property of the monitor and its threads to
  hold in every state the threads can reach.\<close>

locale monitor_invariant =
  fixes M :: "('m, 'h, 'cv, 'op) monitor" and I :: "'m \<Rightarrow> ('h, 'cv, 'op) phase list \<Rightarrow> bool"
  assumes I_call: "I m ps \<Longrightarrow> t < length ps \<Longrightarrow> ps ! t = Run h \<Longrightarrow> mo_may M op h m \<Longrightarrow>
      mo_call M op late m = (r, m', ns) \<Longrightarrow> notified ns (ps[t := phase_after M op r]) ps' \<Longrightarrow> I m' ps'"
    and I_resume: "I m ps \<Longrightarrow> t < length ps \<Longrightarrow> ps ! t = Woken op \<Longrightarrow>
      mo_resume M op late m = (r, m', ns) \<Longrightarrow> notified ns (ps[t := phase_after M op r]) ps' \<Longrightarrow> I m' ps'"
    and I_spurious: "I m ps \<Longrightarrow> t < length ps \<Longrightarrow> ps ! t = Parked cv op \<Longrightarrow> I m (ps[t := Woken op])"
    and I_timeout: "I m ps \<Longrightarrow> t < length ps \<Longrightarrow> ps ! t = Parked cv op \<Longrightarrow> mo_timed M op \<Longrightarrow>
      I m (ps[t := Timed_Out op])"
    and I_expire: "I m ps \<Longrightarrow> t < length ps \<Longrightarrow> ps ! t = Timed_Out op \<Longrightarrow>
      mo_expire M op m = (r, m', ns) \<Longrightarrow> notified ns (ps[t := phase_after M op r]) ps' \<Longrightarrow> I m' ps'"
begin

lemma step_invariant: "mo_step M m ps m' ps' \<Longrightarrow> I m ps \<Longrightarrow> I m' ps'"
proof (induction rule: mo_step.induct)
  case call show ?case by (rule I_call [OF call(6) call(1-5)])
next
  case resume show ?case by (rule I_resume [OF resume(5) resume(1-4)])
next
  case spurious show ?case by (rule I_spurious [OF spurious(3) spurious(1-2)])
next
  case timeout show ?case by (rule I_timeout [OF timeout(4) timeout(1-3)])
next
  case expire show ?case by (rule I_expire [OF expire(5) expire(1-4)])
qed

lemma reach_invariant: "mo_reach M m0 ps0 m ps \<Longrightarrow> I m0 ps0 \<Longrightarrow> I m ps"
  by (induction rule: mo_reach.induct) (auto intro: step_invariant)

end

lemma mo_step_length: "mo_step M m ps m' ps' \<Longrightarrow> length ps' = length ps"
  by (induction rule: mo_step.induct) (auto dest: notified_length)

lemma mo_reach_length: "mo_reach M m0 ps0 m ps \<Longrightarrow> length ps = length ps0"
  by (induction rule: mo_reach.induct) (auto dest: mo_step_length)

text \<open>Running an execution step by step.\<close>

lemma mo_reach_call:
  "mo_reach M m0 ps0 m ps \<Longrightarrow> t < length ps \<Longrightarrow> ps ! t = Run h \<Longrightarrow> mo_may M op h m \<Longrightarrow> mo_call M op late m = (r, m', ns) \<Longrightarrow>
    notified ns (ps[t := phase_after M op r]) ps' \<Longrightarrow> mo_reach M m0 ps0 m' ps'"
  by (rule mo_reach.step [OF _ mo_step.call])

lemma mo_reach_resume:
  "mo_reach M m0 ps0 m ps \<Longrightarrow> t < length ps \<Longrightarrow> ps ! t = Woken op \<Longrightarrow> mo_resume M op late m = (r, m', ns) \<Longrightarrow>
    notified ns (ps[t := phase_after M op r]) ps' \<Longrightarrow> mo_reach M m0 ps0 m' ps'"
  by (rule mo_reach.step [OF _ mo_step.resume])

lemma mo_reach_spurious:
  "mo_reach M m0 ps0 m ps \<Longrightarrow> t < length ps \<Longrightarrow> ps ! t = Parked cv op \<Longrightarrow> mo_reach M m0 ps0 m (ps[t := Woken op])"
  by (rule mo_reach.step [OF _ mo_step.spurious])

lemma mo_reach_timeout:
  "mo_reach M m0 ps0 m ps \<Longrightarrow> t < length ps \<Longrightarrow> ps ! t = Parked cv op \<Longrightarrow> mo_timed M op \<Longrightarrow>
    mo_reach M m0 ps0 m (ps[t := Timed_Out op])"
  by (rule mo_reach.step [OF _ mo_step.timeout])

lemma mo_reach_expire:
  "mo_reach M m0 ps0 m ps \<Longrightarrow> t < length ps \<Longrightarrow> ps ! t = Timed_Out op \<Longrightarrow> mo_expire M op m = (r, m', ns) \<Longrightarrow>
    notified ns (ps[t := phase_after M op r]) ps' \<Longrightarrow> mo_reach M m0 ps0 m' ps'"
  by (rule mo_reach.step [OF _ mo_step.expire])

lemma notified_wakes:
  "t < length ps \<Longrightarrow> ps ! t = Parked cv op \<Longrightarrow> ps' = ps[t := Woken op] \<Longrightarrow> notified [One cv] ps ps'"
  by (rule notified.one [of t]) (simp_all add: notified.nothing)

end
