(* ===== verification/Zi_RWMutex.thy ===== *)
theory Zi_RWMutex
  imports Zi_Monitor
begin

text \<open>
  \<^verbatim>\<open>zi/concurrency/detail/rwmutex_impl.hpp\<close>: the reader/writer lock with the undecided
  (upgradable) mode. Every member function is given as its critical sections: \<open>_check\<close> is the loop
  from its test to the next wait or the return, run at the call and again after every wake-up;
  \<open>_expire\<close> is what follows a wait that timed out.
\<close>

section \<open>The class\<close>

record rwmutex =
  reader_count :: u32
  has_writer :: bool
  writer_waiting :: bool
  upgratable :: bool

datatype rw_cv = Reader_Cv | Writer_Cv | Upgrade_Cv

datatype rw_op =
  Try_Acquire_Read | Acquire_Read | Timed_Acquire_Read | Release_Read
| Try_Acquire_Write | Acquire_Write | Release_Write | Timed_Acquire_Write
| Try_Acquire_Undecided | Acquire_Undecided | Release_Undecided | Timed_Acquire_Undecided
| Decide_Read | Decide_Write | Write_To_Undecided | Write_To_Read

type_synonym rw_section = "(rwmutex, rw_cv, rw_op) critical"

definition rw_new :: rwmutex where
  "rw_new = \<lparr>reader_count = 0, has_writer = False, writer_waiting = False, upgratable = False\<rparr>"

definition try_acquire_read :: "rwmutex \<Rightarrow> rw_section" where
  "try_acquire_read m =
     (if has_writer m \<or> writer_waiting m then (Return False, m, [])
      else (Return True, m\<lparr>reader_count := reader_count m + 1\<rparr>, []))"

definition acquire_read_check :: "rw_op \<Rightarrow> rwmutex \<Rightarrow> rw_section" where
  "acquire_read_check op m =
     (if has_writer m \<or> writer_waiting m then (Wait Reader_Cv op, m, [])
      else (Return True, m\<lparr>reader_count := reader_count m + 1\<rparr>, []))"

definition timed_acquire_read_expire :: "rwmutex \<Rightarrow> rw_section" where
  "timed_acquire_read_expire m = (Return False, m, [])"

definition release_read :: "rwmutex \<Rightarrow> rw_section" where
  "release_read m =
     (let m = m\<lparr>reader_count := reader_count m - 1\<rparr>
      in if reader_count m = 0
         then
           (if upgratable m
            then (Return True, m\<lparr>upgratable := False, has_writer := True\<rparr>,
                  [One Upgrade_Cv, One Writer_Cv, All Reader_Cv])
            else (Return True, m\<lparr>writer_waiting := False\<rparr>, [One Writer_Cv, All Reader_Cv]))
         else (Return True, m, []))"

definition try_acquire_write :: "rwmutex \<Rightarrow> rw_section" where
  "try_acquire_write m =
     (if reader_count m \<noteq> 0 \<or> has_writer m then (Return False, m, [])
      else (Return True, m\<lparr>has_writer := True\<rparr>, []))"

definition acquire_write_check :: "rw_op \<Rightarrow> rwmutex \<Rightarrow> rw_section" where
  "acquire_write_check op m =
     (if reader_count m \<noteq> 0 \<or> has_writer m then (Wait Writer_Cv op, m\<lparr>writer_waiting := True\<rparr>, [])
      else (Return True, m\<lparr>has_writer := True\<rparr>, []))"

definition release_write :: "rwmutex \<Rightarrow> rw_section" where
  "release_write m =
     (Return True, m\<lparr>has_writer := False, writer_waiting := False\<rparr>, [One Writer_Cv, All Reader_Cv])"

definition timed_acquire_write_expire :: "rwmutex \<Rightarrow> rw_section" where
  "timed_acquire_write_expire m =
     (if reader_count m \<noteq> 0 \<or> has_writer m
      then (Return False, m\<lparr>writer_waiting := False\<rparr>, [One Writer_Cv])
      else (Return True, m\<lparr>has_writer := True\<rparr>, []))"

definition try_acquire_undecided :: "rwmutex \<Rightarrow> rw_section" where
  "try_acquire_undecided m =
     (if has_writer m \<or> writer_waiting m \<or> upgratable m then (Return False, m, [])
      else (Return True, m\<lparr>reader_count := reader_count m + 1, upgratable := True\<rparr>, []))"

definition acquire_undecided_check :: "rw_op \<Rightarrow> rwmutex \<Rightarrow> rw_section" where
  "acquire_undecided_check op m =
     (if has_writer m \<or> writer_waiting m \<or> upgratable m then (Wait Reader_Cv op, m, [])
      else (Return True, m\<lparr>reader_count := reader_count m + 1, upgratable := True\<rparr>, []))"

definition release_undecided :: "rwmutex \<Rightarrow> rw_section" where
  "release_undecided m =
     (let m = m\<lparr>upgratable := False, reader_count := reader_count m - 1\<rparr>
      in if reader_count m = 0
         then (Return True, m\<lparr>writer_waiting := False\<rparr>, [One Writer_Cv, All Reader_Cv])
         else (Return True, m, []))"

definition decide_read :: "rwmutex \<Rightarrow> rw_section" where
  "decide_read m =
     (Return True, m\<lparr>upgratable := False, writer_waiting := False\<rparr>, [One Writer_Cv, All Reader_Cv])"

definition decide_write_check :: "rwmutex \<Rightarrow> rw_section" where
  "decide_write_check m =
     (if reader_count m \<noteq> 0 then (Wait Upgrade_Cv Decide_Write, m, [])
      else (Return True, m\<lparr>upgratable := False, has_writer := True\<rparr>, []))"

definition decide_write :: "rwmutex \<Rightarrow> rw_section" where
  "decide_write m = decide_write_check (m\<lparr>reader_count := reader_count m - 1\<rparr>)"

definition write_to_undecided :: "rwmutex \<Rightarrow> rw_section" where
  "write_to_undecided m =
     (Return True, m\<lparr>reader_count := reader_count m + 1, upgratable := True, has_writer := False,
        writer_waiting := False\<rparr>, [One Writer_Cv, All Reader_Cv])"

definition write_to_read :: "rwmutex \<Rightarrow> rw_section" where
  "write_to_read m =
     (Return True, m\<lparr>reader_count := reader_count m + 1, has_writer := False, writer_waiting := False\<rparr>,
        [One Writer_Cv, All Reader_Cv])"

definition timed_acquire_undecided_expire :: "rwmutex \<Rightarrow> rw_section" where
  "timed_acquire_undecided_expire m =
     (if has_writer m \<or> writer_waiting m \<or> upgratable m then (Return False, m, [])
      else (Return True, m\<lparr>reader_count := reader_count m + 1, upgratable := True\<rparr>, []))"

section \<open>Threads that use the lock\<close>

text \<open>What a thread holds, and the discipline of the guards: a mode is taken by a thread that has
  none and given up, or turned into another, by the thread that has it.\<close>

datatype rw_hold = No_Lock | Read_Lock | Undecided_Lock | Write_Lock

fun rw_may :: "rw_op \<Rightarrow> rw_hold \<Rightarrow> bool" where
  "rw_may Release_Read h = (h = Read_Lock)"
| "rw_may Release_Write h = (h = Write_Lock)"
| "rw_may Release_Undecided h = (h = Undecided_Lock)"
| "rw_may Decide_Read h = (h = Undecided_Lock)"
| "rw_may Decide_Write h = (h = Undecided_Lock)"
| "rw_may Write_To_Undecided h = (h = Write_Lock)"
| "rw_may Write_To_Read h = (h = Write_Lock)"
| "rw_may _ h = (h = No_Lock)"

fun rw_call :: "rw_op \<Rightarrow> rwmutex \<Rightarrow> rw_section" where
  "rw_call Try_Acquire_Read m = try_acquire_read m"
| "rw_call Acquire_Read m = acquire_read_check Acquire_Read m"
| "rw_call Timed_Acquire_Read m = acquire_read_check Timed_Acquire_Read m"
| "rw_call Release_Read m = release_read m"
| "rw_call Try_Acquire_Write m = try_acquire_write m"
| "rw_call Acquire_Write m = acquire_write_check Acquire_Write m"
| "rw_call Release_Write m = release_write m"
| "rw_call Timed_Acquire_Write m = acquire_write_check Timed_Acquire_Write m"
| "rw_call Try_Acquire_Undecided m = try_acquire_undecided m"
| "rw_call Acquire_Undecided m = acquire_undecided_check Acquire_Undecided m"
| "rw_call Release_Undecided m = release_undecided m"
| "rw_call Timed_Acquire_Undecided m = acquire_undecided_check Timed_Acquire_Undecided m"
| "rw_call Decide_Read m = decide_read m"
| "rw_call Decide_Write m = decide_write m"
| "rw_call Write_To_Undecided m = write_to_undecided m"
| "rw_call Write_To_Read m = write_to_read m"

text \<open>After a wake-up the loops test again; only \<open>decide_write\<close> does something before its loop.\<close>

fun rw_resume :: "rw_op \<Rightarrow> rwmutex \<Rightarrow> rw_section" where
  "rw_resume Decide_Write m = decide_write_check m"
| "rw_resume op m = rw_call op m"

fun rw_timed :: "rw_op \<Rightarrow> bool" where
  "rw_timed Timed_Acquire_Read = True"
| "rw_timed Timed_Acquire_Write = True"
| "rw_timed Timed_Acquire_Undecided = True"
| "rw_timed _ = False"

fun rw_expire :: "rw_op \<Rightarrow> rwmutex \<Rightarrow> rw_section" where
  "rw_expire Timed_Acquire_Write m = timed_acquire_write_expire m"
| "rw_expire Timed_Acquire_Undecided m = timed_acquire_undecided_expire m"
| "rw_expire op m = timed_acquire_read_expire m"

fun rw_after :: "rw_op \<Rightarrow> bool \<Rightarrow> rw_hold" where
  "rw_after Try_Acquire_Read b = (if b then Read_Lock else No_Lock)"
| "rw_after Acquire_Read b = Read_Lock"
| "rw_after Timed_Acquire_Read b = (if b then Read_Lock else No_Lock)"
| "rw_after Try_Acquire_Write b = (if b then Write_Lock else No_Lock)"
| "rw_after Acquire_Write b = Write_Lock"
| "rw_after Timed_Acquire_Write b = (if b then Write_Lock else No_Lock)"
| "rw_after Try_Acquire_Undecided b = (if b then Undecided_Lock else No_Lock)"
| "rw_after Acquire_Undecided b = Undecided_Lock"
| "rw_after Timed_Acquire_Undecided b = (if b then Undecided_Lock else No_Lock)"
| "rw_after Decide_Read b = Read_Lock"
| "rw_after Decide_Write b = Write_Lock"
| "rw_after Write_To_Undecided b = Undecided_Lock"
| "rw_after Write_To_Read b = Read_Lock"
| "rw_after _ b = No_Lock"

definition rw_monitor :: "(rwmutex, rw_hold, rw_cv, rw_op) monitor" where
  "rw_monitor = \<lparr>mo_may = \<lambda>op h m. rw_may op h, mo_call = \<lambda>op late. rw_call op,
     mo_resume = \<lambda>op late. rw_resume op, mo_timed = rw_timed, mo_expire = rw_expire, mo_after = rw_after\<rparr>"

type_synonym rw_phase = "(rw_hold, rw_cv, rw_op) phase"

section \<open>The invariant\<close>

fun reading :: "rw_phase \<Rightarrow> bool" where
  "reading (Run h) = (h = Read_Lock)"
| "reading _ = False"

fun undecided :: "rw_phase \<Rightarrow> bool" where
  "undecided (Run h) = (h = Undecided_Lock)"
| "undecided _ = False"

fun writing :: "rw_phase \<Rightarrow> bool" where
  "writing (Run h) = (h = Write_Lock)"
| "writing _ = False"

text \<open>A thread in \<open>decide_write\<close>, which has given its read count back.\<close>

fun upgrading :: "rw_phase \<Rightarrow> bool" where
  "upgrading (Run h) = False"
| "upgrading (Parked cv op) = (op = Decide_Write)"
| "upgrading (Woken op) = (op = Decide_Write)"
| "upgrading (Timed_Out op) = False"

text \<open>Each waiting function waits on its own variable.\<close>

fun waits_on :: "rw_op \<Rightarrow> rw_cv option" where
  "waits_on Acquire_Read = Some Reader_Cv"
| "waits_on Timed_Acquire_Read = Some Reader_Cv"
| "waits_on Acquire_Undecided = Some Reader_Cv"
| "waits_on Timed_Acquire_Undecided = Some Reader_Cv"
| "waits_on Acquire_Write = Some Writer_Cv"
| "waits_on Timed_Acquire_Write = Some Writer_Cv"
| "waits_on Decide_Write = Some Upgrade_Cv"
| "waits_on _ = None"

fun rw_phase_ok :: "rw_phase \<Rightarrow> bool" where
  "rw_phase_ok (Run h) = True"
| "rw_phase_ok (Parked cv op) = (waits_on op = Some cv)"
| "rw_phase_ok (Woken op) = (waits_on op \<noteq> None)"
| "rw_phase_ok (Timed_Out op) = rw_timed op"

fun woken_writer :: "rw_phase \<Rightarrow> bool" where
  "woken_writer (Woken op) = (op = Acquire_Write \<or> op = Timed_Acquire_Write)"
| "woken_writer _ = False"

text \<open>The fields count the threads: \<open>reader_count\<close> the readers and the undecided one,
  \<open>upgratable\<close> the undecided thread or the one that waits for its upgrade, \<open>has_writer\<close> the writer
  or the thread that was granted its upgrade.\<close>

definition rw_inv :: "rwmutex \<Rightarrow> rw_phase list \<Rightarrow> bool" where
  "rw_inv m ps \<longleftrightarrow>
     length ps < 2 ^ 32 \<and> (\<forall>p \<in> set ps. rw_phase_ok p) \<and>
     reader_count m = of_nat (num_of reading ps + num_of undecided ps) \<and>
     (if upgratable m
      then \<not> has_writer m \<and> num_of writing ps = 0 \<and> num_of undecided ps + num_of upgrading ps = 1 \<and>
        (num_of upgrading ps = 1 \<longrightarrow> 0 < num_of reading ps)
      else num_of undecided ps = 0 \<and>
        (if has_writer m
         then num_of reading ps = 0 \<and> num_of writing ps + num_of upgrading ps = 1 \<and>
           num_of (parked_on Upgrade_Cv) ps = 0
         else num_of writing ps = 0 \<and> num_of upgrading ps = 0)) \<and>
     (reader_count m = 0 \<and> \<not> has_writer m \<longrightarrow>
        \<not> writer_waiting m \<and> num_of (parked_on Reader_Cv) ps = 0 \<and>
        (0 < num_of (parked_on Writer_Cv) ps \<longrightarrow> 0 < num_of woken_writer ps))"

section \<open>One step on the counts\<close>

text \<open>The invariant as a property of the numbers of threads: readers, undecided ones, writers,
  upgrading ones, parked on each variable, and writers on their way.\<close>

definition counts :: "u32 \<Rightarrow> nat \<Rightarrow> bool" where
  "counts x c \<longleftrightarrow> x = of_nat c"

definition rw_ok :: "rwmutex \<Rightarrow> nat \<Rightarrow> nat \<Rightarrow> nat \<Rightarrow> nat \<Rightarrow> nat \<Rightarrow> nat \<Rightarrow> nat \<Rightarrow> nat \<Rightarrow> bool" where
  "rw_ok m r u w g pr pw pu ww \<longleftrightarrow>
     counts (reader_count m) (r + u) \<and>
     (if upgratable m then \<not> has_writer m \<and> w = 0 \<and> u + g = 1 \<and> (g = 1 \<longrightarrow> 0 < r)
      else u = 0 \<and> (if has_writer m then r = 0 \<and> w + g = 1 \<and> pu = 0 else w = 0 \<and> g = 0)) \<and>
     (r + u = 0 \<and> \<not> has_writer m \<longrightarrow> \<not> writer_waiting m \<and> pr = 0 \<and> (0 < pw \<longrightarrow> 0 < ww))"

lemma of_nat_eq_0: "n < 2 ^ 32 \<Longrightarrow> (of_nat n :: u32) = 0 \<longleftrightarrow> n = 0"
  by (auto simp: word_of_nat_eq_0_iff dest: nat_dvd_not_less [rotated])

lemma disjoint_roles: "num_of reading ps + num_of undecided ps \<le> length ps"
proof -
  have "\<not> (reading p \<and> undecided p)" for p by (cases p) auto
  then have "num_of reading ps + num_of undecided ps = num_of (\<lambda>p. reading p \<or> undecided p) ps"
    by (intro num_of_disj) blast
  also have "\<dots> \<le> length ps" by (rule num_of_le)
  finally show ?thesis .
qed

lemma rw_inv_ok:
  "rw_inv m ps \<longleftrightarrow> length ps < 2 ^ 32 \<and> (\<forall>p \<in> set ps. rw_phase_ok p) \<and>
     rw_ok m (num_of reading ps) (num_of undecided ps) (num_of writing ps) (num_of upgrading ps)
       (num_of (parked_on Reader_Cv) ps) (num_of (parked_on Writer_Cv) ps) (num_of (parked_on Upgrade_Cv) ps)
       (num_of woken_writer ps)"
proof -
  have "length ps < 2 ^ 32 \<Longrightarrow> (of_nat (num_of reading ps + num_of undecided ps) :: u32) = 0 \<longleftrightarrow>
      num_of reading ps + num_of undecided ps = 0"
    using disjoint_roles [of ps] by (intro of_nat_eq_0) simp
  then show ?thesis unfolding rw_inv_def rw_ok_def counts_def by (cases "reader_count m = 0") auto
qed

lemma parked_upgrade_upgrading: "\<forall>p \<in> set ps. rw_phase_ok p \<Longrightarrow> num_of (parked_on Upgrade_Cv) ps \<le> num_of upgrading ps"
proof (induction ps)
  case Nil
  then show ?case by (simp add: num_of_def)
next
  case (Cons p ps)
  have "parked_on Upgrade_Cv p \<Longrightarrow> upgrading p"
  proof -
    assume "parked_on Upgrade_Cv p"
    then obtain op where "p = Parked Upgrade_Cv op" by (cases p) auto
    with Cons.prems show "upgrading p" by (cases op) auto
  qed
  with Cons show ?case by (auto simp: num_of_def)
qed

lemma rw_transition:
  assumes inv: "rw_inv m ps" and t: "t < length ps" "ps ! t = p" and n: "notified ns (ps[t := q]) ps'"
    and q: "rw_phase_ok q"
    and ok: "\<And>r u w g pr pw pu ww r' u' w' g' pr' pw' pu' ww'.
      rw_ok m r u w g pr pw pu ww \<Longrightarrow> r + u < 2 ^ 32 \<Longrightarrow> pu \<le> g \<Longrightarrow>
      r' + of_bool (reading p) = r + of_bool (reading q) \<Longrightarrow>
      u' + of_bool (undecided p) = u + of_bool (undecided q) \<Longrightarrow>
      w' + of_bool (writing p) = w + of_bool (writing q) \<Longrightarrow>
      g' + of_bool (upgrading p) = g + of_bool (upgrading q) \<Longrightarrow>
      pr' + of_bool (parked_on Reader_Cv p) \<le> pr + of_bool (parked_on Reader_Cv q) \<Longrightarrow>
      pw' + of_bool (parked_on Writer_Cv p) \<le> pw + of_bool (parked_on Writer_Cv q) \<Longrightarrow>
      pu' + of_bool (parked_on Upgrade_Cv p) \<le> pu + of_bool (parked_on Upgrade_Cv q) \<Longrightarrow>
      ww + of_bool (woken_writer q) \<le> ww' + of_bool (woken_writer p) \<Longrightarrow>
      (All Reader_Cv \<in> set ns \<longrightarrow> pr' = 0) \<Longrightarrow>
      (One Writer_Cv \<in> set ns \<longrightarrow> 0 < pw' \<longrightarrow> 0 < ww') \<Longrightarrow>
      (One Upgrade_Cv \<in> set ns \<longrightarrow> pu' \<le> pu + of_bool (parked_on Upgrade_Cv q) - 1) \<Longrightarrow>
      rw_ok m' r' u' w' g' pr' pw' pu' ww'"
  shows "rw_inv m' ps'"
proof -
  let ?qs = "ps[t := q]"
  have ph: "\<forall>x \<in> set ps. rw_phase_ok x" and len: "length ps < 2 ^ 32" using inv by (simp_all add: rw_inv_def)
  have phq: "\<forall>x \<in> set ?qs. rw_phase_ok x" using ph q set_update_subset_insert by fastforce
  have ph': "\<forall>x \<in> set ps'. rw_phase_ok x"
  proof
    fix x assume "x \<in> set ps'"
    then show "rw_phase_ok x"
    proof (rule notified_in [OF n, THEN disjE])
      assume "\<exists>cv op. x = Woken op \<and> Parked cv op \<in> set ?qs"
      then obtain cv op where x: "x = Woken op" "Parked cv op \<in> set ?qs" by blast
      with phq have "rw_phase_ok (Parked cv op)" by blast
      with x show ?thesis by simp
    qed (use phq in blast)
  qed
  have upd: "num_of Q ?qs + of_bool (Q p) = num_of Q ps + of_bool (Q q)" for Q
    using num_of_update [OF t(1), of Q q] t(2) by simp
  have same: "num_of Q ps' + of_bool (Q p) = num_of Q ps + of_bool (Q q)" if "\<And>x. Q (wake x) = Q x" for Q
    using notified_num_of [OF n, of Q, OF that] upd [of Q] by simp
  have wk: "Q (wake x) = Q x" if "Q \<in> {reading, undecided, writing, upgrading}" for Q x
    using that by (cases x) auto
  have parked: "num_of (parked_on cv) ps' + of_bool (parked_on cv p) \<le> num_of (parked_on cv) ps + of_bool (parked_on cv q)" for cv
    using notified_parked_le [OF n, of cv] upd [of "parked_on cv"] by linarith
  have ww: "woken_writer x \<Longrightarrow> woken_writer (wake x)" for x by (cases x) auto
  have len': "length ps' < 2 ^ 32" using notified_length [OF n] len by simp
  have all: "All Reader_Cv \<in> set ns \<longrightarrow> num_of (parked_on Reader_Cv) ps' = 0"
    using notified_all_none [OF n] by simp
  have writer: "One Writer_Cv \<in> set ns \<longrightarrow> 0 < num_of (parked_on Writer_Cv) ps' \<longrightarrow> 0 < num_of woken_writer ps'"
  proof (intro impI)
    assume "One Writer_Cv \<in> set ns" "0 < num_of (parked_on Writer_Cv) ps'"
    then obtain op where op: "Parked Writer_Cv op \<in> set ?qs" "Woken op \<in> set ps'"
      using notified_one_wakes [OF n] by blast
    then have "rw_phase_ok (Parked Writer_Cv op)" using phq by blast
    then have "woken_writer (Woken op :: rw_phase)" by (cases op) auto
    with op(2) show "0 < num_of woken_writer ps'" by (auto simp: in_set_conv_nth intro: num_of_pos)
  qed
  have upg: "One Upgrade_Cv \<in> set ns \<longrightarrow>
      num_of (parked_on Upgrade_Cv) ps' \<le> num_of (parked_on Upgrade_Cv) ps + of_bool (parked_on Upgrade_Cv q) - 1"
    using notified_one_less [OF n, of Upgrade_Cv] upd [of "parked_on Upgrade_Cv"] by auto
  have "num_of woken_writer ps + of_bool (woken_writer q) \<le> num_of woken_writer ps' + of_bool (woken_writer p)"
    using notified_num_of_le [OF n, of woken_writer, OF ww] upd [of woken_writer] by simp
  from ok [OF _ _ parked_upgrade_upgrading [OF ph] same same same same parked parked parked this all writer upg]
  show ?thesis
    using inv len' ph' wk disjoint_roles [of ps] len by (simp add: rw_inv_ok)
qed

section \<open>Every section keeps the invariant\<close>

lemma counts_0: "counts x c \<Longrightarrow> c < 2 ^ 32 \<Longrightarrow> x = 0 \<longleftrightarrow> c = 0"
  unfolding counts_def by (simp only: of_nat_eq_0)

lemma counts_Suc: "counts x c \<Longrightarrow> counts (x + 1) (Suc c)"
  by (simp add: counts_def)

lemma counts_pred: "counts x c \<Longrightarrow> 0 < c \<Longrightarrow> counts (x - 1) (c - 1)"
  by (cases c) (simp_all add: counts_def)

lemma rw_count_facts:
  assumes "rw_ok m r u w g pr pw pu ww" "r + u < 2 ^ 32"
  shows "reader_count m = 0 \<longleftrightarrow> r = 0 \<and> u = 0" "counts (reader_count m) (r + u)" "counts (reader_count m + 1) (Suc (r + u))"
    "0 < r + u \<Longrightarrow> counts (reader_count m - 1) (r + u - 1)"
    "0 < r + u \<Longrightarrow> reader_count m - 1 = 0 \<longleftrightarrow> r + u = 1"
proof -
  show c: "counts (reader_count m) (r + u)" using assms(1) by (simp add: rw_ok_def)
  from counts_0 [OF this assms(2)] show "reader_count m = 0 \<longleftrightarrow> r = 0 \<and> u = 0" by simp
  from counts_Suc [OF c] show "counts (reader_count m + 1) (Suc (r + u))" .
  show p: "counts (reader_count m - 1) (r + u - 1)" if "0 < r + u" by (rule counts_pred [OF c that])
  show "reader_count m - 1 = 0 \<longleftrightarrow> r + u = 1" if "0 < r + u"
    using counts_0 [OF p [OF that]] assms(2) that by auto
qed

lemmas rw_sections = try_acquire_read_def acquire_read_check_def timed_acquire_read_expire_def release_read_def
  try_acquire_write_def acquire_write_check_def release_write_def timed_acquire_write_expire_def
  try_acquire_undecided_def acquire_undecided_check_def release_undecided_def decide_read_def
  decide_write_check_def decide_write_def write_to_undecided_def write_to_read_def timed_acquire_undecided_expire_def

lemma rw_monitor_simps:
  "mo_may rw_monitor op h m = rw_may op h" "mo_call rw_monitor op late m = rw_call op m"
  "mo_resume rw_monitor op late m = rw_resume op m" "mo_timed rw_monitor op = rw_timed op"
  "mo_expire rw_monitor op m = rw_expire op m" and rw_after_monitor [simp]: "mo_after rw_monitor = rw_after"
  by (simp_all add: rw_monitor_def)

lemma rw_call_inv:
  assumes inv: "rw_inv m ps" and t: "t < length ps" "ps ! t = Run h" and may: "rw_may op h"
    and n: "notified (snd (snd (rw_call op m))) (ps[t := phase_after rw_monitor op (fst (rw_call op m))]) ps'"
  shows "rw_inv (fst (snd (rw_call op m))) ps'"
proof (rule rw_transition [OF inv t n], goal_cases)
  case 1
  show ?case
    by (cases op) (auto simp: rw_sections Let_def)
next
  case ok: (2 r u w g pr pw pu ww r' u' w' g' pr' pw' pu' ww')
  show ?case
    by (cases op; cases "has_writer m"; cases "upgratable m")
        (use ok(1,3-) may rw_count_facts [OF ok(1,2)] in \<open>auto simp: rw_sections rw_ok_def Let_def split: if_splits\<close>)
qed
lemma rw_resume_inv:
  assumes inv: "rw_inv m ps" and t: "t < length ps" "ps ! t = Woken op"
    and n: "notified (snd (snd (rw_resume op m))) (ps[t := phase_after rw_monitor op (fst (rw_resume op m))]) ps'"
  shows "rw_inv (fst (snd (rw_resume op m))) ps'"
proof (rule rw_transition [OF inv t n], goal_cases)
  case 1
  show ?case
    by (cases op) (auto simp: rw_sections Let_def)
next
  case ok: (2 r u w g pr pw pu ww r' u' w' g' pr' pw' pu' ww')
  have "rw_phase_ok (ps ! t)" using inv t(1) by (simp add: rw_inv_def)
  then have "waits_on op \<noteq> None" unfolding t(2) by simp
  then show ?case
    by (cases op; cases "has_writer m"; cases "upgratable m")
      (use ok(1,3-) rw_count_facts [OF ok(1,2)] in \<open>auto simp: rw_sections rw_ok_def Let_def split: if_splits\<close>)
qed

lemma rw_expire_inv:
  assumes inv: "rw_inv m ps" and t: "t < length ps" "ps ! t = Timed_Out op"
    and n: "notified (snd (snd (rw_expire op m))) (ps[t := phase_after rw_monitor op (fst (rw_expire op m))]) ps'"
  shows "rw_inv (fst (snd (rw_expire op m))) ps'"
proof (rule rw_transition [OF inv t n], goal_cases)
  case 1
  show ?case
    by (cases op) (auto simp: rw_sections Let_def)
next
  case ok: (2 r u w g pr pw pu ww r' u' w' g' pr' pw' pu' ww')
  have "rw_phase_ok (ps ! t)" using inv t(1) by (simp add: rw_inv_def)
  then have "rw_timed op" unfolding t(2) by simp
  then show ?case
    by (cases op; cases "has_writer m"; cases "upgratable m")
      (use ok(1,3-) rw_count_facts [OF ok(1,2)] in \<open>auto simp: rw_sections rw_ok_def Let_def split: if_splits\<close>)
qed

lemma rw_leave_inv:
  assumes inv: "rw_inv m ps" and t: "t < length ps" "ps ! t = Parked cv op"
    and q: "q = Woken op \<or> q = Timed_Out op \<and> rw_timed op"
  shows "rw_inv m (ps[t := q])"
proof (rule rw_transition [OF inv t notified.nothing], goal_cases)
  case 1
  have "rw_phase_ok (ps ! t)" using inv t(1) by (simp add: rw_inv_def)
  with q show ?case unfolding t(2) by auto
next
  case ok: (2 r u w g pr pw pu ww r' u' w' g' pr' pw' pu' ww')
  have "rw_phase_ok (ps ! t)" using inv t(1) by (simp add: rw_inv_def)
  then have cv: "waits_on op = Some cv" unfolding t(2) by simp
  have *: "u' = u \<and> r' = r \<and> w' = w \<and> g' = g \<and> pr' \<le> pr \<and> pw' \<le> pw \<and> pu' \<le> pu \<and> ww \<le> ww'"
    using q
  proof
    assume "q = Woken op"
    with cv ok(4-11) show ?thesis by (cases op) auto
  next
    assume "q = Timed_Out op \<and> rw_timed op"
    with cv ok(4-11) show ?thesis by (cases op) auto
  qed
  with ok(1) show ?case unfolding rw_ok_def by (cases "has_writer m"; cases "upgratable m") auto
qed

interpretation rwm: monitor_invariant rw_monitor rw_inv
proof (unfold_locales, goal_cases)
  case (1 m ps t h op late r m' ns ps')
  then show ?case using rw_call_inv [of m ps t h op ps'] by (simp add: rw_monitor_simps)
next
  case (2 m ps t op late r m' ns ps')
  then show ?case using rw_resume_inv [of m ps t op ps'] by (simp add: rw_monitor_simps)
next
  case (3 m ps t cv op)
  then show ?case by (intro rw_leave_inv [of m ps t cv op]) simp_all
next
  case (4 m ps t cv op)
  then show ?case by (intro rw_leave_inv [of m ps t cv op]) (simp_all add: rw_monitor_simps)
next
  case (5 m ps t op r m' ns ps')
  then show ?case using rw_expire_inv [of m ps t op ps'] by (simp add: rw_monitor_simps)
qed

lemma rw_inv_start: "n < 2 ^ 32 \<Longrightarrow> rw_inv rw_new (replicate n (Run No_Lock))"
  by (auto simp: rw_inv_def rw_new_def num_of_replicate)

lemma rw_reach_inv:
  assumes "n < 2 ^ 32" "mo_reach rw_monitor rw_new (replicate n (Run No_Lock)) m ps"
  shows "rw_inv m ps"
  using rwm.reach_invariant [OF assms(2)] rw_inv_start [OF assms(1)] by simp

section \<open>Properties\<close>

text \<open>A run of two threads: the first one writes, the second one waits for it, the first one
  releases.\<close>

lemma rw_demo_wait:
  "mo_reach rw_monitor rw_new (replicate 2 (Run No_Lock))
     \<lparr>reader_count = 0, has_writer = True, writer_waiting = True, upgratable = False\<rparr>
     [Run Write_Lock, Parked Writer_Cv Acquire_Write]"
proof -
  let ?m = "\<lparr>reader_count = 0, has_writer = True, writer_waiting = False, upgratable = False\<rparr>"
  have "mo_step rw_monitor rw_new (replicate 2 (Run No_Lock)) ?m [Run Write_Lock, Run No_Lock]"
    by (rule mo_step.call [of 0 _ No_Lock _ Acquire_Write _ False "Return True" _ "[]"])
      (simp_all add: rw_monitor_simps rw_sections rw_new_def numeral_2_eq_2 notified.nothing)
  moreover have "mo_step rw_monitor ?m [Run Write_Lock, Run No_Lock] (?m\<lparr>writer_waiting := True\<rparr>)
      [Run Write_Lock, Parked Writer_Cv Acquire_Write]"
    by (rule mo_step.call [of 1 _ No_Lock _ Acquire_Write _ False "Wait Writer_Cv Acquire_Write" _ "[]"])
      (simp_all add: rw_monitor_simps rw_sections notified.nothing)
  ultimately have "mo_reach rw_monitor rw_new (replicate 2 (Run No_Lock)) (?m\<lparr>writer_waiting := True\<rparr>)
      [Run Write_Lock, Parked Writer_Cv Acquire_Write]"
    by (intro mo_reach.step [OF mo_reach.step [OF mo_reach.start]])
  then show ?thesis by simp
qed

lemma rw_demo_release:
  "mo_reach rw_monitor rw_new (replicate 2 (Run No_Lock)) rw_new [Run No_Lock, Woken Acquire_Write]"
proof -
  have "notified [One Writer_Cv, All Reader_Cv] [Run No_Lock, Parked Writer_Cv Acquire_Write]
      [Run No_Lock, Woken Acquire_Write]"
    by (rule notified.one [of 1], simp, simp, rule notified.all) (simp add: notify_all_def notified.nothing)
  then have "mo_step rw_monitor \<lparr>reader_count = 0, has_writer = True, writer_waiting = True, upgratable = False\<rparr>
      [Run Write_Lock, Parked Writer_Cv Acquire_Write] rw_new [Run No_Lock, Woken Acquire_Write]"
    by (intro mo_step.call [of 0 _ Write_Lock _ Release_Write _ False "Return True" _ "[One Writer_Cv, All Reader_Cv]"])
      (simp_all add: rw_monitor_simps rw_sections rw_new_def)
  with rw_demo_wait show ?thesis by (rule mo_reach.step)
qed

text \<open>C8: Mutual exclusion. However threads interleave the calls of the lock, wake up without being
  notified and time out: a writer excludes readers, undecided threads and other writers, there is at
  most one undecided or upgrading thread, and \<open>reader_count_\<close> is the number of the readers and the
  undecided thread, without wrap-around.\<close>
theorem rw_mutual_exclusion:
  assumes "n < 2 ^ 32" "mo_reach rw_monitor rw_new (replicate n (Run No_Lock)) m ps"
  shows "num_of writing ps \<le> 1 \<and> num_of undecided ps + num_of upgrading ps \<le> 1 \<and>
    (0 < num_of writing ps \<longrightarrow> num_of reading ps = 0 \<and> num_of undecided ps = 0) \<and>
    unat (reader_count m) = num_of reading ps + num_of undecided ps"
proof -
  note inv = rw_reach_inv [OF assms]
  have "num_of reading ps + num_of undecided ps < 2 ^ 32"
    using disjoint_roles [of ps] inv by (simp add: rw_inv_def)
  then have "unat (of_nat (num_of reading ps + num_of undecided ps) :: u32) = num_of reading ps + num_of undecided ps"
    by (subst unat_of_nat) (simp add: take_bit_nat_eq_self)
  with inv show ?thesis unfolding rw_inv_def by (auto split: if_splits)
qed

theorem rw_mutual_exclusion_witness:
  "num_of writing [Run Write_Lock, Parked Writer_Cv Acquire_Write] = 1 \<and>
   num_of reading [Run Write_Lock, Parked Writer_Cv Acquire_Write] = 0"
  using rw_mutual_exclusion [OF _ rw_demo_wait] by (simp add: num_of_def)

text \<open>C9: No stuck flag and no lost wake-up. Whenever no thread holds the lock in any mode or waits
  for an upgrade, all flags are clear, so that every mode can be acquired at once; no reader or
  undecided thread sleeps, and if a writer sleeps another writer has been woken and is on its way.\<close>
theorem rw_no_lost_wakeup:
  assumes "n < 2 ^ 32" "mo_reach rw_monitor rw_new (replicate n (Run No_Lock)) m ps"
    and free: "\<forall>p \<in> set ps. \<not> reading p \<and> \<not> undecided p \<and> \<not> writing p \<and> \<not> upgrading p"
  shows "m = rw_new \<and> num_of (parked_on Reader_Cv) ps = 0 \<and> num_of (parked_on Upgrade_Cv) ps = 0 \<and>
    (0 < num_of (parked_on Writer_Cv) ps \<longrightarrow> 0 < num_of woken_writer ps)"
proof -
  note inv = rw_reach_inv [OF assms(1,2)]
  have 0: "num_of reading ps = 0" "num_of undecided ps = 0" "num_of writing ps = 0" "num_of upgrading ps = 0"
    using free by (simp_all add: num_of_0)
  moreover have "num_of (parked_on Upgrade_Cv) ps = 0"
    using parked_upgrade_upgrading [of ps] inv 0(4) by (simp add: rw_inv_def)
  ultimately show ?thesis using inv unfolding rw_inv_def rw_new_def by (cases m) (simp split: if_splits)
qed

theorem rw_no_lost_wakeup_witness:
  "num_of (parked_on Reader_Cv) [Run No_Lock, Woken Acquire_Write :: rw_phase] = 0"
  using rw_no_lost_wakeup [OF _ rw_demo_release] by simp

end
