(* ===== verification/Zi_Sync.thy ===== *)
theory Zi_Sync
  imports Zi_Monitor
begin

text \<open>
  The small classes of \<^verbatim>\<open>zi/concurrency\<close> on one mutex and one condition variable:
  \<^verbatim>\<open>semaphore.hpp\<close>, \<^verbatim>\<open>barrier.hpp\<close>, \<^verbatim>\<open>state.hpp\<close> and \<^verbatim>\<open>trigger.hpp\<close>, as monitors, each
  with the invariant that no wake-up is lost. The counters of the semaphore are \<open>int64_t\<close>: integers
  whose arithmetic wraps at 64 bits; its theorem is about callers that keep the credit within the type. The round of a barrier is kept below
  \<open>2 ^ 31\<close>.
\<close>

text \<open>A thread inside a member function, on its way to or from a wait.\<close>

fun waiting :: "('h, 'cv, 'op) phase \<Rightarrow> bool" where
  "waiting (Run h) = False"
| "waiting _ = True"

fun parked :: "('h, 'cv, 'op) phase \<Rightarrow> bool" where
  "parked (Parked cv op) = True"
| "parked _ = False"

fun woken :: "('h, 'cv, 'op) phase \<Rightarrow> bool" where
  "woken (Woken op) = True"
| "woken _ = False"

lemma parked_unit: "parked_on () = parked"
proof
  show "parked_on () p = parked p" for p :: "('h, unit, 'op) phase" by (cases p) auto
qed

lemma waiting_wake [simp]: "waiting (wake p) = waiting p"
  by (cases p) auto

lemma parked_woken_wake [simp]: "(parked (wake p) \<or> woken (wake p)) = (parked p \<or> woken p)"
  by (cases p) auto

lemma num_parked_woken: "num_of parked ps + num_of woken ps = num_of (\<lambda>p. parked p \<or> woken p) ps"
proof -
  have "\<not> (parked p \<and> woken p)" for p :: "('a, 'b, 'c) phase" by (cases p) auto
  then show ?thesis by (intro num_of_disj) blast
qed

lemma num_parked_waiting: "num_of parked ps \<le> num_of waiting ps"
proof (rule num_of_mono)
  show "waiting p" if "parked p" for p :: "('a, 'b, 'c) phase" using that by (cases p) auto
qed

lemma notified_replicate_one:
  "notified ns ps ps' \<Longrightarrow> ns = replicate k (One cv) \<Longrightarrow> num_of (parked_on cv) ps' = num_of (parked_on cv) ps - k"
proof (induction arbitrary: k rule: notified.induct)
  case (one t ps cv' ns ps')
  then obtain j where k: "k = Suc j" "cv' = cv" "ns = replicate j (One cv)" by (cases k) auto
  have "\<not> parked_on cv (wake (ps ! t))" by (cases "ps ! t") auto
  with one(1,2) k(2) num_of_update [of t ps "parked_on cv" "wake (ps ! t)"]
  have "num_of (parked_on cv) (ps[t := wake (ps ! t)]) = num_of (parked_on cv) ps - 1" by simp
  with one.IH [OF k(3)] k(1) show ?case by simp
next
  case (nobody ps cv' ns ps')
  then obtain j where k: "k = Suc j" "cv' = cv" "ns = replicate j (One cv)" by (cases k) auto
  from nobody(1) k(2) have "num_of (parked_on cv) ps = 0" by (simp add: num_of_0)
  with nobody.IH [OF k(3)] show ?case by simp
qed (auto simp: Cons_replicate_eq)

text \<open>What one section does to the numbers of threads, with a single condition variable.\<close>

lemma sync_counts:
  assumes t: "t < length ps" "ps ! t = p" and n: "notified ns (ps[t := q]) ps'"
  shows "num_of waiting ps' + of_bool (waiting p) = num_of waiting ps + of_bool (waiting q)"
    "num_of parked ps' + num_of woken ps' + of_bool (parked p \<or> woken p) =
       num_of parked ps + num_of woken ps + of_bool (parked q \<or> woken q)"
    "num_of parked ps' + of_bool (parked p) \<le> num_of parked ps + of_bool (parked q)"
    "All () \<in> set ns \<Longrightarrow> num_of parked ps' = 0"
    "ns = replicate k (One ()) \<Longrightarrow> num_of parked ps' = num_of parked ps + of_bool (parked q) - of_bool (parked p) - k"
proof -
  have upd: "num_of Q (ps[t := q]) + of_bool (Q p) = num_of Q ps + of_bool (Q q)" for Q
    using num_of_update [OF t(1), of Q q] t(2) by simp
  show "num_of waiting ps' + of_bool (waiting p) = num_of waiting ps + of_bool (waiting q)"
    using notified_num_of [OF n, of waiting] upd [of waiting] by simp
  show "num_of parked ps' + num_of woken ps' + of_bool (parked p \<or> woken p) =
      num_of parked ps + num_of woken ps + of_bool (parked q \<or> woken q)"
    unfolding num_parked_woken
    using notified_num_of [OF n, of "\<lambda>p. parked p \<or> woken p"] upd [of "\<lambda>p. parked p \<or> woken p"] by simp
  show "num_of parked ps' + of_bool (parked p) \<le> num_of parked ps + of_bool (parked q)"
    using notified_parked_le [OF n, of "()"] upd [of parked] unfolding parked_unit by linarith
  show "num_of parked ps' = 0" if "All () \<in> set ns"
    using notified_all_none [OF n that] unfolding parked_unit .
  show "num_of parked ps' = num_of parked ps + of_bool (parked q) - of_bool (parked p) - k"
    if "ns = replicate k (One ())"
    using notified_replicate_one [OF n that] upd [of parked] unfolding parked_unit by linarith
qed

lemma notified_waiting_op:
  assumes n: "notified ns (ps[t := q]) ps'" and all: "\<forall>x \<in> set ps. P x" "P q"
    and P: "\<And>cv op. P (Parked cv op) \<Longrightarrow> P (Woken op)"
  shows "\<forall>x \<in> set ps'. P x"
proof (rule notified_ball [where P = P, OF n])
  show "P (Parked cv op) \<Longrightarrow> P (Woken op)" for cv op by (rule P)
  show "\<forall>x \<in> set (ps[t := q]). P x" using all set_update_subset_insert by fastforce
qed

section \<open>Semaphore\<close>

record semaphore =
  credit :: int
  sem_waiters :: int

datatype sem_op = Sem_Set int | Sem_Acquire int | Sem_Timed_Acquire | Sem_Release int

type_synonym sem_section = "(semaphore, unit, sem_op) critical"

definition sem_new :: "int \<Rightarrow> semaphore" where
  "sem_new n = \<lparr>credit = n, sem_waiters = 0\<rparr>"

definition sem_set :: "int \<Rightarrow> semaphore \<Rightarrow> sem_section" where
  "sem_set n m = (Return True, m\<lparr>credit := n\<rparr>, if n \<noteq> 0 then [One ()] else [])"

definition sem_acquire_check :: "int \<Rightarrow> semaphore \<Rightarrow> sem_section" where
  "sem_acquire_check n m =
     (if credit m < n then (Wait () (Sem_Acquire n), m\<lparr>sem_waiters := s64 (sem_waiters m + 1)\<rparr>, [])
      else (Return True, m\<lparr>credit := s64 (credit m - n)\<rparr>, []))"

text \<open>\<open>late\<close>: the deadline has passed when the loop looks at the clock.\<close>

definition sem_timed_acquire_check :: "bool \<Rightarrow> semaphore \<Rightarrow> sem_section" where
  "sem_timed_acquire_check late m =
     (if credit m \<le> 0
      then if late then (Return False, m, [])
           else (Wait () Sem_Timed_Acquire, m\<lparr>sem_waiters := s64 (sem_waiters m + 1)\<rparr>, [])
      else (Return True, m\<lparr>credit := s64 (credit m - 1)\<rparr>, []))"

definition sem_release :: "int \<Rightarrow> semaphore \<Rightarrow> sem_section" where
  "sem_release n m =
     (let m = m\<lparr>credit := s64 (credit m + n)\<rparr>;
          n = min n (sem_waiters m)
      in (Return True, m,
          if n > 0
          then if n > 1
               then if n div 2 \<ge> sem_waiters m then [All ()] else replicate (nat n) (One ())
               else [One ()]
          else []))"

fun sem_call :: "sem_op \<Rightarrow> bool \<Rightarrow> semaphore \<Rightarrow> sem_section" where
  "sem_call (Sem_Set n) late m = sem_set n m"
| "sem_call (Sem_Acquire n) late m = sem_acquire_check n m"
| "sem_call Sem_Timed_Acquire late m = sem_timed_acquire_check late m"
| "sem_call (Sem_Release n) late m = sem_release n m"

fun sem_resume :: "sem_op \<Rightarrow> bool \<Rightarrow> semaphore \<Rightarrow> sem_section" where
  "sem_resume op late m = sem_call op late (m\<lparr>sem_waiters := s64 (sem_waiters m - 1)\<rparr>)"

definition sem_expire :: "sem_op \<Rightarrow> semaphore \<Rightarrow> sem_section" where
  "sem_expire op m = (Return False, m\<lparr>sem_waiters := s64 (sem_waiters m - 1)\<rparr>, [])"

text \<open>\<open>ok\<close> says which calls the threads make, in which state of the semaphore.\<close>

definition sem_monitor :: "(sem_op \<Rightarrow> semaphore \<Rightarrow> bool) \<Rightarrow> (semaphore, unit, unit, sem_op) monitor" where
  "sem_monitor ok = \<lparr>mo_may = \<lambda>op h m. ok op m, mo_call = sem_call, mo_resume = sem_resume,
     mo_timed = (\<lambda>op. op = Sem_Timed_Acquire), mo_expire = sem_expire, mo_after = \<lambda>op b. ()\<rparr>"

text \<open>The usual discipline: one credit at a time is acquired, any number is released that leaves the credit
  within \<open>int64_t\<close>.\<close>

fun sem_unit :: "sem_op \<Rightarrow> semaphore \<Rightarrow> bool" where
  "sem_unit (Sem_Set n) m = False"
| "sem_unit (Sem_Acquire n) m = (n = 1)"
| "sem_unit Sem_Timed_Acquire m = True"
| "sem_unit (Sem_Release n) m = (0 \<le> n \<and> credit m + n < 2 ^ 63)"

fun sem_phase_ok :: "(unit, unit, sem_op) phase \<Rightarrow> bool" where
  "sem_phase_ok (Run h) = True"
| "sem_phase_ok (Parked cv op) = (op = Sem_Acquire 1 \<or> op = Sem_Timed_Acquire)"
| "sem_phase_ok (Woken op) = (op = Sem_Acquire 1 \<or> op = Sem_Timed_Acquire)"
| "sem_phase_ok (Timed_Out op) = (op = Sem_Timed_Acquire)"

definition sem_inv :: "semaphore \<Rightarrow> (unit, unit, sem_op) phase list \<Rightarrow> bool" where
  "sem_inv m ps \<longleftrightarrow> (\<forall>p \<in> set ps. sem_phase_ok p) \<and> length ps < 2 ^ 63 \<and> 0 \<le> credit m \<and> credit m < 2 ^ 63 \<and>
     sem_waiters m = int (num_of waiting ps) \<and>
     (0 < num_of parked ps \<longrightarrow> credit m \<le> int (num_of woken ps))"

lemmas sem_sections = sem_set_def sem_acquire_check_def sem_timed_acquire_check_def sem_expire_def

lemma sem_no_notify:
  assumes inv: "sem_inv m ps" and t: "t < length ps" "ps ! t = p" and n: "notified [] (ps[t := q]) ps'"
    and q: "sem_phase_ok q"
    and ok: "\<And>w k s w' k' s'. w = int (num_of waiting ps) \<Longrightarrow> k = int (num_of parked ps) \<Longrightarrow> s = int (num_of woken ps) \<Longrightarrow>
      w' + of_bool (waiting p) = w + of_bool (waiting q) \<Longrightarrow>
      k' + s' + of_bool (parked p \<or> woken p) = k + s + of_bool (parked q \<or> woken q) \<Longrightarrow>
      k' + of_bool (parked p) = k + of_bool (parked q) \<Longrightarrow> 0 \<le> k' \<Longrightarrow> 0 \<le> s' \<Longrightarrow> 0 \<le> k \<Longrightarrow> 0 \<le> s \<Longrightarrow>
      0 \<le> w' \<Longrightarrow> w' < 2 ^ 63 \<Longrightarrow> 0 \<le> w \<Longrightarrow> w < 2 ^ 63 \<Longrightarrow>
      0 \<le> credit m' \<and> credit m' < 2 ^ 63 \<and> sem_waiters m' = w' \<and> (0 < k' \<longrightarrow> credit m' \<le> s')"
  shows "sem_inv m' ps'"
proof -
  note c = sync_counts [OF t n]
  have ps': "ps' = ps[t := q]" using n by (auto elim: notified_Nil)
  have k: "num_of parked ps' + of_bool (parked p) = num_of parked ps + of_bool (parked q)"
    using num_of_update [OF t(1), of parked q] t(2) ps' by simp
  have "\<forall>x \<in> set ps'. sem_phase_ok x"
    by (rule notified_waiting_op [where P = sem_phase_ok, OF n _ q]) (use inv in \<open>auto simp: sem_inv_def\<close>)
  moreover have "0 \<le> credit m' \<and> credit m' < 2 ^ 63 \<and> sem_waiters m' = int (num_of waiting ps') \<and>
      (0 < int (num_of parked ps') \<longrightarrow> credit m' \<le> int (num_of woken ps'))"
  proof (rule ok [OF refl refl refl])
    show "int (num_of waiting ps') + of_bool (waiting p) = int (num_of waiting ps) + of_bool (waiting q)"
      using arg_cong [OF c(1), of int] by (simp only: of_nat_add of_nat_of_bool)
    show "int (num_of parked ps') + int (num_of woken ps') + of_bool (parked p \<or> woken p) =
        int (num_of parked ps) + int (num_of woken ps) + of_bool (parked q \<or> woken q)"
      using arg_cong [OF c(2), of int] by (simp only: of_nat_add of_nat_of_bool)
    show "int (num_of parked ps') + of_bool (parked p) = int (num_of parked ps) + of_bool (parked q)"
      using arg_cong [OF k, of int] by (simp only: of_nat_add of_nat_of_bool)
    have "num_of waiting qs < 2 ^ 63" if "length qs = length ps" for qs :: "(unit, unit, sem_op) phase list"
      using le_less_trans [OF num_of_le [of waiting qs], of "2 ^ 63"] that inv by (simp add: sem_inv_def)
    then show "int (num_of waiting ps') < 2 ^ 63" "int (num_of waiting ps) < 2 ^ 63" by (simp_all add: ps')
  qed simp_all
  moreover have "length ps' < 2 ^ 63" using inv by (simp add: sem_inv_def ps')
  ultimately show ?thesis by (simp add: sem_inv_def)
qed

lemma sem_release_notifies:
  assumes "0 \<le> n" "0 \<le> sem_waiters m" "0 \<le> credit m" "credit m + n < 2 ^ 63"
  shows "sem_release n m = (Return True, m\<lparr>credit := credit m + n\<rparr>, replicate (nat (min n (sem_waiters m))) (One ()))"
proof -
  have "\<not> min n (sem_waiters m) div 2 \<ge> sem_waiters m" if "min n (sem_waiters m) > 1"
    using that by linarith
  moreover have "[One ()] = replicate (nat k) (One ())" if "k > 0" "\<not> k > 1" for k :: int
  proof -
    have "k = 1" using that by simp
    then show ?thesis by simp
  qed
  ultimately show ?thesis using assms by (auto simp: sem_release_def Let_def)
qed

lemma sem_release_inv:
  assumes inv: "sem_inv m ps" and t: "t < length ps" "ps ! t = Run h" and n: "0 \<le> n" "credit m + n < 2 ^ 63"
    and ns: "notified (snd (snd (sem_release n m))) (ps[t := Run h']) ps'"
  shows "sem_inv (fst (snd (sem_release n m))) ps'"
proof -
  let ?W = "num_of waiting ps" and ?k = "nat (min n (sem_waiters m))"
  have W: "sem_waiters m = int ?W" using inv by (simp add: sem_inv_def)
  have rel: "sem_release n m = (Return True, m\<lparr>credit := credit m + n\<rparr>, replicate ?k (One ()))"
    using n W inv by (intro sem_release_notifies) (auto simp: sem_inv_def)
  have ns': "notified (replicate ?k (One ())) (ps[t := Run h']) ps'" using ns unfolding rel by simp
  have w: "num_of waiting ps' = ?W" and pw: "num_of parked ps' + num_of woken ps' = num_of parked ps + num_of woken ps"
    and p: "num_of parked ps' = num_of parked ps - ?k"
    using sync_counts(1,2) [OF t ns'] sync_counts(5) [OF t ns' refl] by simp_all
  have ph: "\<forall>x \<in> set ps'. sem_phase_ok x"
    by (rule notified_waiting_op [where P = sem_phase_ok, OF ns']) (use inv in \<open>auto simp: sem_inv_def\<close>)
  have "credit m + n \<le> int (num_of woken ps')" if "0 < num_of parked ps'"
  proof -
    have "?k < num_of parked ps" using that p by simp
    then have "?k < ?W" using num_parked_waiting [of ps] by simp
    then have k: "?k = nat n" using W n by (auto simp: min_def split: if_splits)
    have "credit m \<le> int (num_of woken ps)" using inv that p by (simp add: sem_inv_def)
    moreover have "num_of woken ps' = num_of woken ps + ?k" using pw p \<open>?k < num_of parked ps\<close> by linarith
    ultimately show ?thesis using k n by simp
  qed
  then show ?thesis using inv ph w W n notified_length [OF ns'] unfolding rel by (simp add: sem_inv_def)
qed

lemma sem_call_inv:
  assumes inv: "sem_inv m ps" and t: "t < length ps" "ps ! t = Run h" and ok: "sem_unit op m"
    and n: "notified (snd (snd (sem_call op late m))) (ps[t := phase_after (sem_monitor U) op (fst (sem_call op late m))]) ps'"
  shows "sem_inv (fst (snd (sem_call op late m))) ps'"
proof (cases op)
  case (Sem_Release k)
  then show ?thesis using sem_release_inv [OF inv t, of k] n ok
    by (simp add: sem_release_def Let_def split: if_splits)
next
  case (Sem_Acquire k)
  then have "notified [] (ps[t := phase_after (sem_monitor U) op (fst (sem_call op late m))]) ps'"
    using n by (simp add: sem_sections split: if_splits)
  then show ?thesis
    by (rule sem_no_notify [OF inv t]) (use Sem_Acquire ok inv in \<open>auto simp: sem_sections sem_inv_def\<close>)
next
  case Sem_Timed_Acquire
  then have "notified [] (ps[t := phase_after (sem_monitor U) op (fst (sem_call op late m))]) ps'"
    using n by (simp add: sem_sections split: if_splits)
  then show ?thesis
    by (rule sem_no_notify [OF inv t]) (use Sem_Timed_Acquire ok inv in \<open>auto simp: sem_sections sem_inv_def\<close>)
qed (use ok in simp)

lemma sem_resume_inv:
  assumes inv: "sem_inv m ps" and t: "t < length ps" "ps ! t = Woken op"
    and n: "notified (snd (snd (sem_resume op late m))) (ps[t := phase_after (sem_monitor U) op (fst (sem_resume op late m))]) ps'"
  shows "sem_inv (fst (snd (sem_resume op late m))) ps'"
proof -
  have "sem_phase_ok (ps ! t)" using inv t(1) by (simp add: sem_inv_def)
  then consider "op = Sem_Acquire 1" | "op = Sem_Timed_Acquire" unfolding t(2) by auto
  then show ?thesis
  proof cases
    case 1
    then have "notified [] (ps[t := phase_after (sem_monitor U) op (fst (sem_resume op late m))]) ps'"
      using n by (simp add: sem_sections split: if_splits)
    then show ?thesis
      by (rule sem_no_notify [OF inv t]) (use 1 inv in \<open>auto simp: sem_sections sem_inv_def\<close>)
  next
    case 2
    then have "notified [] (ps[t := phase_after (sem_monitor U) op (fst (sem_resume op late m))]) ps'"
      using n by (simp add: sem_sections split: if_splits)
    then show ?thesis
      by (rule sem_no_notify [OF inv t]) (use 2 inv in \<open>auto simp: sem_sections sem_inv_def\<close>)
  qed
qed

lemma sem_leave_inv:
  assumes inv: "sem_inv m ps" and t: "t < length ps" "ps ! t = Parked cv op"
    and q: "q = Woken op \<or> q = Timed_Out op \<and> op = Sem_Timed_Acquire"
  shows "sem_inv m (ps[t := q])"
proof (rule sem_no_notify [OF inv t notified.nothing], goal_cases)
  case 1
  have "sem_phase_ok (ps ! t)" using inv t(1) by (simp add: sem_inv_def)
  with q show ?case unfolding t(2) by auto
qed (use q inv in \<open>auto simp: sem_inv_def\<close>)

lemma sem_expire_inv:
  assumes inv: "sem_inv m ps" and t: "t < length ps" "ps ! t = Timed_Out op"
    and n: "notified (snd (snd (sem_expire op m))) (ps[t := phase_after (sem_monitor U) op (fst (sem_expire op m))]) ps'"
  shows "sem_inv (fst (snd (sem_expire op m))) ps'"
proof -
  have "notified [] (ps[t := phase_after (sem_monitor U) op (fst (sem_expire op m))]) ps'"
    using n by (simp add: sem_expire_def)
  then show ?thesis
    by (rule sem_no_notify [OF inv t]) (use inv in \<open>auto simp: sem_expire_def sem_inv_def\<close>)
qed

lemma sem_monitor_simps:
  "mo_may (sem_monitor U) op h m = U op m" "mo_call (sem_monitor U) = sem_call" "mo_resume (sem_monitor U) = sem_resume"
  "mo_timed (sem_monitor U) op = (op = Sem_Timed_Acquire)" "mo_expire (sem_monitor U) = sem_expire"
  by (simp_all add: sem_monitor_def)

interpretation sem: monitor_invariant "sem_monitor sem_unit" sem_inv
proof (unfold_locales, goal_cases)
  case (1 m ps t h op late r m' ns ps')
  then show ?case using sem_call_inv [of m ps t h op late sem_unit ps'] by (simp add: sem_monitor_simps)
next
  case (2 m ps t op late r m' ns ps')
  then show ?case using sem_resume_inv [of m ps t op late sem_unit ps'] by (simp add: sem_monitor_simps del: sem_resume.simps)
next
  case (3 m ps t cv op)
  then show ?case by (intro sem_leave_inv [of m ps t cv op]) simp_all
next
  case (4 m ps t cv op)
  then show ?case by (intro sem_leave_inv [of m ps t cv op]) (simp_all add: sem_monitor_simps)
next
  case (5 m ps t op r m' ns ps')
  then show ?case using sem_expire_inv [of m ps t op sem_unit ps'] by (simp add: sem_monitor_simps)
qed

text \<open>C34: A semaphore from which one credit at a time is acquired, timed or not, and to which any
  numbers are released that keep the credit below \<open>2 ^ 63\<close>, the bound of \<open>int64_t\<close>, loses no wake-up in any
  interleaving of fewer than \<open>2 ^ 63\<close> threads: the credit neither becomes negative nor overflows,
  \<open>waiters_\<close> is the number of the threads between their call and the end of their wait, and as long
  as a thread sleeps there are at least as many woken threads on their way as there are credits; so
  when nobody is on the way the credit is 0.\<close>
theorem sem_no_lost_wakeup:
  assumes "0 \<le> c" "c < 2 ^ 63" "n < 2 ^ 63"
    and reach: "mo_reach (sem_monitor sem_unit) (sem_new c) (replicate n (Run ())) m ps"
  shows "0 \<le> credit m \<and> credit m < 2 ^ 63 \<and> sem_waiters m = int (num_of waiting ps) \<and>
    (0 < num_of parked ps \<longrightarrow> credit m \<le> int (num_of woken ps))"
proof -
  have "sem_inv (sem_new c) (replicate n (Run ()))"
    using assms(1-3) by (auto simp: sem_inv_def sem_new_def num_of_replicate)
  from sem.reach_invariant [OF reach this] show ?thesis by (simp add: sem_inv_def)
qed

lemma sem_demo:
  "mo_reach (sem_monitor sem_unit) (sem_new 0) (replicate 1 (Run ())) \<lparr>credit = 0, sem_waiters = 1\<rparr> [Parked () (Sem_Acquire 1)]"
proof -
  have "mo_step (sem_monitor sem_unit) (sem_new 0) (replicate 1 (Run ())) \<lparr>credit = 0, sem_waiters = 1\<rparr> [Parked () (Sem_Acquire 1)]"
    by (rule mo_step.call [of 0 _ "()" _ "Sem_Acquire 1" _ False "Wait () (Sem_Acquire 1)" _ "[]"])
      (simp_all add: sem_monitor_simps sem_sections sem_new_def notified.nothing)
  then show ?thesis by (rule mo_reach.step [OF mo_reach.start])
qed

theorem sem_no_lost_wakeup_witness:
  "(0 :: int) \<le> int (num_of woken [Parked () (Sem_Acquire 1) :: (unit, unit, sem_op) phase])"
  using sem_no_lost_wakeup [OF _ _ _ sem_demo] by (simp add: num_of_def)

text \<open>With acquires of different sizes a wake-up can be lost: the one notification of \<open>release\<close> may
  go to a thread that needs more, and the thread the credit would do for sleeps on.\<close>

theorem sem_mixed_lost_wakeup:
  "mo_reach (sem_monitor (\<lambda>op m. True)) (sem_new 0) (replicate 3 (Run ())) \<lparr>credit = 1, sem_waiters = 2\<rparr>
     [Parked () (Sem_Acquire 2), Parked () (Sem_Acquire 1), Run ()]"
proof -
  let ?M = "sem_monitor (\<lambda>op m. True)"
  have 1: "mo_step ?M (sem_new 0) (replicate 3 (Run ())) \<lparr>credit = 0, sem_waiters = 1\<rparr> [Parked () (Sem_Acquire 2), Run (), Run ()]"
    by (rule mo_step.call [of 0 _ "()" _ "Sem_Acquire 2" _ False "Wait () (Sem_Acquire 2)" _ "[]"])
      (simp_all add: sem_monitor_simps sem_sections sem_new_def notified.nothing numeral_3_eq_3)
  have 2: "mo_step ?M \<lparr>credit = 0, sem_waiters = 1\<rparr> [Parked () (Sem_Acquire 2), Run (), Run ()]
      \<lparr>credit = 0, sem_waiters = 2\<rparr> [Parked () (Sem_Acquire 2), Parked () (Sem_Acquire 1), Run ()]"
    by (rule mo_step.call [of 1 _ "()" _ "Sem_Acquire 1" _ False "Wait () (Sem_Acquire 1)" _ "[]"])
      (simp_all add: sem_monitor_simps sem_sections notified.nothing)
  have "notified [One ()] [Parked () (Sem_Acquire 2), Parked () (Sem_Acquire 1), Run ()]
      [Woken (Sem_Acquire 2), Parked () (Sem_Acquire 1), Run ()]"
    by (rule notified.one [of 0]) (simp_all add: notified.nothing)
  then have 3: "mo_step ?M \<lparr>credit = 0, sem_waiters = 2\<rparr> [Parked () (Sem_Acquire 2), Parked () (Sem_Acquire 1), Run ()]
      \<lparr>credit = 1, sem_waiters = 2\<rparr> [Woken (Sem_Acquire 2), Parked () (Sem_Acquire 1), Run ()]"
    by (intro mo_step.call [of 2 _ "()" _ "Sem_Release 1" _ False "Return True" _ "[One ()]"])
      (simp_all add: sem_monitor_simps sem_release_def)
  have 4: "mo_step ?M \<lparr>credit = 1, sem_waiters = 2\<rparr> [Woken (Sem_Acquire 2), Parked () (Sem_Acquire 1), Run ()]
      \<lparr>credit = 1, sem_waiters = 2\<rparr> [Parked () (Sem_Acquire 2), Parked () (Sem_Acquire 1), Run ()]"
    by (rule mo_step.resume [of 0 _ "Sem_Acquire 2" _ False _ "Wait () (Sem_Acquire 2)" _ "[]"])
      (simp_all add: sem_monitor_simps sem_sections notified.nothing)
  show ?thesis
    by (rule mo_reach.step [OF mo_reach.step [OF mo_reach.step [OF mo_reach.step [OF mo_reach.start 1] 2] 3] 4])
qed

section \<open>Barrier\<close>

record barrier =
  threshold :: int
  bar_count :: int
  bar_round :: int

text \<open>\<open>wait\<close> with its local variable \<open>round\<close>, set at the call.\<close>

datatype bar_op = Bar_Wait int

type_synonym bar_section = "(barrier, unit, bar_op) critical"

definition bar_new :: "int \<Rightarrow> barrier" where
  "bar_new n = \<lparr>threshold = n, bar_count = 0, bar_round = 0\<rparr>"

definition bar_wait_check :: "int \<Rightarrow> barrier \<Rightarrow> bar_section" where
  "bar_wait_check round m =
     (if bar_round m = round then (Wait () (Bar_Wait round), m, []) else (Return False, m, []))"

definition bar_wait :: "barrier \<Rightarrow> bar_section" where
  "bar_wait m =
     (let round = bar_round m;
          m = m\<lparr>bar_count := bar_count m + 1\<rparr>
      in if bar_count m = threshold m
         then (Return True, m\<lparr>bar_round := bar_round m + 1, bar_count := 0\<rparr>, [All ()])
         else bar_wait_check round m)"

text \<open>Rounds are counted in an \<open>int32_t\<close>: the model stops short of its overflow.\<close>

definition bar_monitor :: "(barrier, unit, unit, bar_op) monitor" where
  "bar_monitor = \<lparr>mo_may = \<lambda>op h m. bar_round m < 2 ^ 31 - 1, mo_call = \<lambda>op late. bar_wait,
     mo_resume = \<lambda>op late. (case op of Bar_Wait round \<Rightarrow> bar_wait_check round), mo_timed = \<lambda>op. False,
     mo_expire = \<lambda>op m. (Return False, m, []), mo_after = \<lambda>op b. ()\<rparr>"

fun in_round :: "int \<Rightarrow> (unit, unit, bar_op) phase \<Rightarrow> bool" where
  "in_round r (Parked cv (Bar_Wait k)) = (k = r)"
| "in_round r (Woken (Bar_Wait k)) = (k = r)"
| "in_round r _ = False"

fun bar_phase_ok :: "int \<Rightarrow> (unit, unit, bar_op) phase \<Rightarrow> bool" where
  "bar_phase_ok r (Run h) = True"
| "bar_phase_ok r (Parked cv (Bar_Wait k)) = (k \<le> r)"
| "bar_phase_ok r (Woken (Bar_Wait k)) = (k \<le> r)"
| "bar_phase_ok r (Timed_Out op) = False"

fun old_parked :: "int \<Rightarrow> (unit, unit, bar_op) phase \<Rightarrow> bool" where
  "old_parked r (Parked cv (Bar_Wait k)) = (k \<noteq> r)"
| "old_parked r _ = False"

definition bar_inv :: "int \<Rightarrow> barrier \<Rightarrow> (unit, unit, bar_op) phase list \<Rightarrow> bool" where
  "bar_inv n m ps \<longleftrightarrow> 1 \<le> n \<and> threshold m = n \<and> bar_count m < n \<and>
     bar_count m = int (num_of (in_round (bar_round m)) ps) \<and>
     (\<forall>p \<in> set ps. bar_phase_ok (bar_round m) p \<and> \<not> old_parked (bar_round m) p)"

lemma in_round_wake [simp]: "in_round r (wake p) = in_round r p"
proof (cases p)
  case (Parked cv op)
  then show ?thesis by (cases op) simp
qed simp_all

lemma bar_update:
  assumes inv: "bar_inv n m ps" and t: "t < length ps"
    and q: "bar_phase_ok (bar_round m) q" "\<not> old_parked (bar_round m) q"
    and m': "threshold m' = n" "bar_round m' = bar_round m"
    and c: "bar_count m' + of_bool (in_round (bar_round m) (ps ! t)) = bar_count m + of_bool (in_round (bar_round m) q)"
      "bar_count m' < n"
  shows "bar_inv n m' (ps[t := q])"
proof -
  let ?Q = "in_round (bar_round m)"
  have "int (num_of ?Q (ps[t := q])) + of_bool (?Q (ps ! t)) = int (num_of ?Q ps) + of_bool (?Q q)"
    using arg_cong [OF num_of_update [OF t, of ?Q q], of int] by (simp only: of_nat_add of_nat_of_bool)
  moreover have "\<forall>p \<in> set (ps[t := q]). bar_phase_ok (bar_round m) p \<and> \<not> old_parked (bar_round m) p"
    using inv q set_update_subset_insert [of ps t q] by (auto simp: bar_inv_def)
  ultimately show ?thesis using inv m' c by (simp add: bar_inv_def)
qed

lemma bar_round_over:
  assumes inv: "bar_inv n m ps" and t: "t < length ps" "ps ! t = Run h"
    and ns: "notified [All ()] (ps[t := Run ()]) ps'"
  shows "bar_inv n (m\<lparr>bar_round := bar_round m + 1, bar_count := 0\<rparr>) ps'"
proof -
  let ?r = "bar_round m"
  have ok: "\<forall>p \<in> set ps'. bar_phase_ok ?r p"
  proof (rule notified_waiting_op [where P = "bar_phase_ok ?r", OF ns])
    show "bar_phase_ok ?r (Woken op)" if "bar_phase_ok ?r (Parked cv op)" for cv op
      using that by (cases op) simp
  qed (use inv in \<open>auto simp: bar_inv_def\<close>)
  have mono: "bar_phase_ok (?r + 1) p \<and> \<not> in_round (?r + 1) p" if "bar_phase_ok ?r p" for p
    using that by (cases "(?r, p)" rule: bar_phase_ok.cases) auto
  have np: "num_of parked ps' = 0" using sync_counts(4) [OF t ns] by simp
  have "\<not> old_parked (?r + 1) p" if "p \<in> set ps'" for p
  proof -
    have "\<not> parked p" using that np by (simp add: num_of_0)
    then show ?thesis by (cases p) auto
  qed
  moreover have "num_of (in_round (?r + 1)) ps' = 0" using ok mono by (simp add: num_of_0)
  ultimately show ?thesis using inv ok mono by (simp add: bar_inv_def)
qed

lemmas bar_sections = bar_wait_def bar_wait_check_def

lemma bar_monitor_simps:
  "mo_may bar_monitor op h m = (bar_round m < 2 ^ 31 - 1)" "mo_call bar_monitor op late m = bar_wait m"
  "mo_resume bar_monitor (Bar_Wait k) late m = bar_wait_check k m" "mo_timed bar_monitor op = False"
  "mo_after bar_monitor op b = ()"
  by (simp_all add: bar_monitor_def)

interpretation bar: monitor_invariant bar_monitor "bar_inv n" for n
proof (unfold_locales, goal_cases)
  case (1 m ps t h op late r m' ns ps')
  then have inv: "bar_inv n m ps" and t: "t < length ps" "ps ! t = Run h" by simp_all
  show ?case
  proof (cases "bar_count m + 1 = threshold m")
    case True
    then have "m' = m\<lparr>bar_round := bar_round m + 1, bar_count := 0\<rparr>" "notified [All ()] (ps[t := Run ()]) ps'"
      using 1(5,6) by (auto simp: bar_monitor_simps bar_wait_def Let_def)
    then show ?thesis using bar_round_over [OF inv t] by simp
  next
    case False
    then have m': "m' = m\<lparr>bar_count := bar_count m + 1\<rparr>" "ps' = ps[t := Parked () (Bar_Wait (bar_round m))]"
      using 1(5,6) by (auto simp: bar_monitor_simps bar_sections Let_def elim: notified_Nil)
    show ?thesis unfolding m'
      by (rule bar_update [OF inv t(1)]) (use inv t False in \<open>auto simp: bar_inv_def\<close>)
  qed
next
  case (2 m ps t op late r m' ns ps')
  then have inv: "bar_inv n m ps" and t: "t < length ps" "ps ! t = Woken op" by simp_all
  obtain k where k: "op = Bar_Wait k" by (cases op)
  show ?case
  proof (cases "bar_round m = k")
    case True
    then have m': "m' = m" "ps' = ps[t := Parked () (Bar_Wait k)]"
      using 2(4,5) by (auto simp: bar_monitor_simps bar_sections k elim: notified_Nil)
    show ?thesis unfolding m'
      by (rule bar_update [OF inv t(1)]) (use inv t k True in \<open>auto simp: bar_inv_def\<close>)
  next
    case False
    then have m': "m' = m" "ps' = ps[t := Run ()]"
      using 2(4,5) by (auto simp: bar_monitor_simps bar_sections k elim: notified_Nil)
    show ?thesis unfolding m'
      by (rule bar_update [OF inv t(1)]) (use inv t k False in \<open>auto simp: bar_inv_def\<close>)
  qed
next
  case (3 m ps t cv op)
  obtain k where k: "op = Bar_Wait k" by (cases op)
  have "bar_phase_ok (bar_round m) (ps ! t)" using 3(1) nth_mem [OF 3(2)] unfolding bar_inv_def by blast
  then show ?case
    by (intro bar_update [OF 3(1,2)]) (use 3 k in \<open>auto simp: bar_inv_def\<close>)
next
  case (4 m ps t cv op)
  then show ?case by (simp add: bar_monitor_simps)
next
  case (5 m ps t op r m' ns ps')
  have "bar_phase_ok (bar_round m) (ps ! t)" using 5(1) nth_mem [OF 5(2)] unfolding bar_inv_def by blast
  with 5 show ?case by simp
qed

text \<open>C33: A barrier for \<open>n\<close> threads, in any interleaving and with any spurious wake-ups: \<open>count_\<close> is
  the number of the threads that have arrived in the current round and is smaller than \<open>n\<close>, a thread
  of the current round stays inside, and a thread that still sleeps belongs to the current round, so
  that nobody of a finished round is left behind.\<close>
theorem bar_rounds:
  assumes "1 \<le> n" "mo_reach bar_monitor (bar_new n) (replicate k (Run ())) m ps"
  shows "bar_count m = int (num_of (in_round (bar_round m)) ps) \<and> bar_count m < n \<and>
    (\<forall>r. Parked () (Bar_Wait r) \<in> set ps \<longrightarrow> r = bar_round m) \<and>
    (\<forall>r. Woken (Bar_Wait r) \<in> set ps \<longrightarrow> fst (bar_wait_check r m) = (if r = bar_round m then Wait () (Bar_Wait r) else Return False))"
proof -
  have "bar_inv n (bar_new n) (replicate k (Run ()))"
    using assms(1) by (auto simp: bar_inv_def bar_new_def num_of_replicate)
  from bar.reach_invariant [OF assms(2) this] have inv: "bar_inv n m ps" .
  have "r = bar_round m" if "Parked () (Bar_Wait r) \<in> set ps" for r
  proof -
    from that inv have "\<not> old_parked (bar_round m) (Parked () (Bar_Wait r))" unfolding bar_inv_def by blast
    then show ?thesis by simp
  qed
  with inv show ?thesis by (auto simp: bar_inv_def bar_wait_check_def)
qed

lemma bar_demo:
  "mo_reach bar_monitor (bar_new 2) (replicate 2 (Run ())) \<lparr>threshold = 2, bar_count = 0, bar_round = 1\<rparr>
     [Woken (Bar_Wait 0), Run ()]"
proof -
  have 1: "mo_step bar_monitor (bar_new 2) (replicate 2 (Run ())) \<lparr>threshold = 2, bar_count = 1, bar_round = 0\<rparr>
      [Parked () (Bar_Wait 0), Run ()]"
    by (rule mo_step.call [of 0 _ "()" _ "Bar_Wait 0" _ False "Wait () (Bar_Wait 0)" _ "[]"])
      (simp_all add: bar_monitor_simps bar_sections bar_new_def notified.nothing numeral_2_eq_2)
  have "notified [All ()] [Parked () (Bar_Wait 0), Run ()] [Woken (Bar_Wait 0), Run ()]"
    by (rule notified.all) (simp add: notify_all_def notified.nothing)
  then have 2: "mo_step bar_monitor \<lparr>threshold = 2, bar_count = 1, bar_round = 0\<rparr> [Parked () (Bar_Wait 0), Run ()]
      \<lparr>threshold = 2, bar_count = 0, bar_round = 1\<rparr> [Woken (Bar_Wait 0), Run ()]"
    by (intro mo_step.call [of 1 _ "()" _ "Bar_Wait 0" _ False "Return True" _ "[All ()]"])
      (simp_all add: bar_monitor_simps bar_sections)
  show ?thesis by (rule mo_reach.step [OF mo_reach.step [OF mo_reach.start 1] 2])
qed

theorem bar_rounds_witness:
  "fst (bar_wait_check 0 \<lparr>threshold = 2, bar_count = 0, bar_round = 1\<rparr>) = Return False"
  using bar_rounds [OF _ bar_demo] by simp

section \<open>State\<close>

record 'a state =
  st_state :: 'a
  st_waiters :: int

datatype 'a st_op = Set_To 'a | Compare_And_Set_To 'a 'a | Wait_For 'a | Get_State

type_synonym 'a st_section = "('a state, unit, 'a st_op) critical"

definition st_new :: "'a \<Rightarrow> 'a state" where
  "st_new s = \<lparr>st_state = s, st_waiters = 0\<rparr>"

text \<open>\<open>set_to_nl\<close>: the caller has the mutex.\<close>

definition set_to_nl :: "'a \<Rightarrow> 'a state \<Rightarrow> 'a state \<times> unit notify list" where
  "set_to_nl s m =
     (if st_state m \<noteq> s
      then (m\<lparr>st_state := s\<rparr>,
            if st_waiters m = 1 then [One ()] else if st_waiters m > 1 then [All ()] else [])
      else (m, []))"

definition st_set_to :: "'a \<Rightarrow> 'a state \<Rightarrow> 'a st_section" where
  "st_set_to s m = (let (m, ns) = set_to_nl s m in (Return True, m, ns))"

text \<open>It also yields the state it leaves.\<close>

definition st_compare_and_set_to :: "'a \<Rightarrow> 'a \<Rightarrow> 'a state \<Rightarrow> 'a \<times> 'a st_section" where
  "st_compare_and_set_to expected s m =
     (let (m, ns) = (if st_state m = expected then set_to_nl s m else (m, []))
      in (st_state m, (Return True, m, ns)))"

definition st_wait_for_check :: "'a \<Rightarrow> 'a state \<Rightarrow> 'a st_section" where
  "st_wait_for_check s m =
     (if st_state m \<noteq> s then (Wait () (Wait_For s), m\<lparr>st_waiters := st_waiters m + 1\<rparr>, [])
      else (Return True, m, []))"

definition st_get_state :: "'a state \<Rightarrow> 'a" where
  "st_get_state m = st_state m"

fun st_call :: "'a st_op \<Rightarrow> 'a state \<Rightarrow> 'a st_section" where
  "st_call (Set_To s) m = st_set_to s m"
| "st_call (Compare_And_Set_To e s) m = snd (st_compare_and_set_to e s m)"
| "st_call (Wait_For s) m = st_wait_for_check s m"
| "st_call Get_State m = (Return True, m, [])"

definition st_monitor :: "('a state, unit, unit, 'a st_op) monitor" where
  "st_monitor = \<lparr>mo_may = \<lambda>op h m. True, mo_call = \<lambda>op late. st_call op,
     mo_resume = \<lambda>op late m. st_call op (m\<lparr>st_waiters := st_waiters m - 1\<rparr>), mo_timed = \<lambda>op. False,
     mo_expire = \<lambda>op m. (Return False, m, []), mo_after = \<lambda>op b. ()\<rparr>"

text \<open>A sleeping thread waits for a state that is not there.\<close>

fun st_phase_ok :: "'a \<Rightarrow> (unit, unit, 'a st_op) phase \<Rightarrow> bool" where
  "st_phase_ok s (Run h) = True"
| "st_phase_ok s (Parked cv op) = (\<exists>s'. op = Wait_For s' \<and> s' \<noteq> s)"
| "st_phase_ok s (Woken op) = (\<exists>s'. op = Wait_For s')"
| "st_phase_ok s (Timed_Out op) = False"

definition st_inv :: "'a state \<Rightarrow> (unit, unit, 'a st_op) phase list \<Rightarrow> bool" where
  "st_inv m ps \<longleftrightarrow> st_waiters m = int (num_of waiting ps) \<and> (\<forall>p \<in> set ps. st_phase_ok (st_state m) p)"

lemma st_change:
  assumes inv: "st_inv m ps" and t: "t < length ps" "ps ! t = Run h" and w: "set_to_nl s m = (m', ns)"
    and n: "notified ns (ps[t := Run ()]) ps'"
  shows "st_inv m' ps'"
proof (cases "st_state m = s")
  case True
  then have e: "m' = m" "ps' = ps[t := Run ()]" using w n by (auto simp: set_to_nl_def elim: notified_Nil)
  have "\<forall>p \<in> set (ps[t := Run ()]). st_phase_ok (st_state m) p"
    using inv set_update_subset_insert [of ps t "Run ()"] by (auto simp: st_inv_def)
  moreover have "num_of waiting (ps[t := Run ()]) = num_of waiting ps"
    using num_of_update [OF t(1), of waiting "Run ()"] t(2) by simp
  ultimately show ?thesis unfolding e using inv by (simp add: st_inv_def)
next
  case False
  let ?W = "num_of waiting ps"
  have m': "m' = m\<lparr>st_state := s\<rparr>" and ns: "ns = (if ?W = 1 then [One ()] else if ?W > 1 then [All ()] else [])"
    using w False inv by (auto simp: set_to_nl_def st_inv_def)
  have W: "num_of waiting ps' = ?W" and le: "num_of parked ps' \<le> num_of parked ps"
    using sync_counts(1,3) [OF t n] by simp_all
  have np: "num_of parked ps' = 0"
  proof -
    consider "?W = 0" | "?W = 1" | "?W > 1" by linarith
    then show ?thesis
    proof cases
      case 1
      with le num_parked_waiting [of ps] show ?thesis by simp
    next
      case 2
      then have "ns = replicate 1 (One ())" using ns by simp
      from sync_counts(5) [OF t n this] num_parked_waiting [of ps] 2 show ?thesis by simp
    next
      case 3
      then show ?thesis using sync_counts(4) [OF t n] ns by simp
    qed
  qed
  have ok: "\<forall>p \<in> set ps'. st_phase_ok (st_state m) p"
    by (rule notified_waiting_op [where P = "st_phase_ok (st_state m)", OF n]) (use inv in \<open>auto simp: st_inv_def\<close>)
  have "st_phase_ok s p" if "p \<in> set ps'" for p
  proof -
    have "\<not> parked p" using that np by (simp add: num_of_0)
    with ok that show ?thesis by (cases p) auto
  qed
  with W inv show ?thesis unfolding m' by (simp add: st_inv_def)
qed

lemma st_update:
  assumes inv: "st_inv m ps" and t: "t < length ps" and q: "st_phase_ok (st_state m) q"
    and m': "st_state m' = st_state m" "st_waiters m' + of_bool (waiting (ps ! t)) = st_waiters m + of_bool (waiting q)"
  shows "st_inv m' (ps[t := q])"
proof -
  have "int (num_of waiting (ps[t := q])) + of_bool (waiting (ps ! t)) = int (num_of waiting ps) + of_bool (waiting q)"
    using arg_cong [OF num_of_update [OF t, of waiting q], of int] by (simp only: of_nat_add of_nat_of_bool)
  moreover have "\<forall>p \<in> set (ps[t := q]). st_phase_ok (st_state m) p"
    using inv q set_update_subset_insert [of ps t q] by (auto simp: st_inv_def)
  ultimately show ?thesis using inv m' by (simp add: st_inv_def)
qed

lemma st_monitor_simps:
  "mo_call st_monitor op late m = st_call op m" "mo_timed st_monitor op = False" "mo_after st_monitor op b = ()"
  "mo_resume st_monitor op late m = st_call op (m\<lparr>st_waiters := st_waiters m - 1\<rparr>)" "mo_may st_monitor op h m = True"
  by (simp_all add: st_monitor_def)

interpretation st: monitor_invariant st_monitor st_inv
proof (unfold_locales, goal_cases)
  case (1 m ps t h op late r m' ns ps')
  then have inv: "st_inv m ps" and t: "t < length ps" "ps ! t = Run h" by simp_all
  show ?case
  proof (cases op)
    case (Set_To s)
    then have "set_to_nl s m = (m', ns)" "notified ns (ps[t := Run ()]) ps'"
      using 1(5,6) by (auto simp: st_monitor_simps st_set_to_def split: prod.splits)
    then show ?thesis by (rule st_change [OF inv t])
  next
    case (Compare_And_Set_To e s)
    then have n: "notified ns (ps[t := Run ()]) ps'"
      and c: "if st_state m = e then set_to_nl s m = (m', ns) else set_to_nl (st_state m) m = (m', ns)"
      using 1(5,6) by (auto simp: st_monitor_simps st_compare_and_set_to_def set_to_nl_def split: prod.splits if_splits)
    show ?thesis using c st_change [OF inv t _ n] by (auto split: if_splits)
  next
    case (Wait_For s)
    then show ?thesis using 1(5,6) t
      by (auto simp: st_monitor_simps st_wait_for_check_def intro!: st_update [OF inv] split: if_splits elim!: notified_Nil)
  next
    case Get_State
    then show ?thesis using 1(5,6) t
      by (auto simp: st_monitor_simps intro!: st_update [OF inv] elim!: notified_Nil)
  qed
next
  case (2 m ps t op late r m' ns ps')
  then have inv: "st_inv m ps" and t: "t < length ps" "ps ! t = Woken op" by simp_all
  have "st_phase_ok (st_state m) (ps ! t)" using inv nth_mem [OF t(1)] unfolding st_inv_def by blast
  then obtain s where "op = Wait_For s" unfolding t(2) by auto
  then show ?case using 2(4,5) t
    by (auto simp: st_monitor_simps st_wait_for_check_def intro!: st_update [OF inv] split: if_splits elim!: notified_Nil)
next
  case (3 m ps t cv op)
  have "st_phase_ok (st_state m) (ps ! t)" using 3(1) nth_mem [OF 3(2)] unfolding st_inv_def by blast
  with 3 show ?case by (intro st_update) auto
next
  case (4 m ps t cv op)
  then show ?case by (simp add: st_monitor_simps)
next
  case (5 m ps t op r m' ns ps')
  have "st_phase_ok (st_state m) (ps ! t)" using 5(1) nth_mem [OF 5(2)] unfolding st_inv_def by blast
  with 5 show ?case by simp
qed

text \<open>A shared \<open>state\<close> loses no wake-up: in any interleaving, a thread that sleeps in
  \<open>wait_for( s )\<close> sleeps while the state differs from \<open>s\<close>, although a change wakes one thread only when
  there is a single waiter; and \<open>waiters_\<close> is the number of the threads inside.\<close>
theorem st_no_lost_wakeup:
  assumes "mo_reach st_monitor (st_new s0) (replicate n (Run ())) m ps"
  shows "st_waiters m = int (num_of waiting ps) \<and> (\<forall>s. Parked () (Wait_For s) \<in> set ps \<longrightarrow> st_get_state m \<noteq> s)"
proof -
  have "st_inv (st_new s0) (replicate n (Run ()))"
    by (auto simp: st_inv_def st_new_def num_of_replicate)
  from st.reach_invariant [OF assms this] have inv: "st_inv m ps" .
  have "st_state m \<noteq> s" if "Parked () (Wait_For s) \<in> set ps" for s
  proof -
    have "st_phase_ok (st_state m) (Parked () (Wait_For s))" using inv that unfolding st_inv_def by blast
    then show ?thesis by auto
  qed
  with inv show ?thesis by (auto simp: st_inv_def st_get_state_def)
qed

theorem st_no_lost_wakeup_witness:
  "st_get_state \<lparr>st_state = 0, st_waiters = 1\<rparr> \<noteq> (7 :: nat)"
proof -
  have "mo_step st_monitor (st_new 0) (replicate 1 (Run ())) \<lparr>st_state = 0, st_waiters = 1\<rparr> [Parked () (Wait_For (7 :: nat))]"
    by (rule mo_step.call [of 0 _ "()" _ "Wait_For 7" _ False "Wait () (Wait_For 7)" _ "[]"])
      (simp_all add: st_monitor_simps st_wait_for_check_def st_new_def notified.nothing)
  from st_no_lost_wakeup [OF mo_reach.step [OF mo_reach.start this]] show ?thesis by simp
qed

section \<open>Trigger\<close>

record trigger =
  tr_fired :: bool
  tr_waiters :: int

text \<open>\<open>fire\<close> sets the flag under the mutex and notifies after it gave the mutex up: two steps.\<close>

datatype tr_op = Tr_Wait | Tr_Fire | Tr_Notify

datatype tr_hold = Tr_Outside | Tr_Firing

type_synonym tr_section = "(trigger, unit, tr_op) critical"

definition tr_new :: trigger where
  "tr_new = \<lparr>tr_fired = False, tr_waiters = 0\<rparr>"

definition tr_wait :: "trigger \<Rightarrow> tr_section" where
  "tr_wait m =
     (if \<not> tr_fired m then (Wait () Tr_Wait, m\<lparr>tr_waiters := tr_waiters m + 1\<rparr>, []) else (Return True, m, []))"

definition tr_wait_resume :: "trigger \<Rightarrow> tr_section" where
  "tr_wait_resume m = (Return True, m\<lparr>tr_waiters := tr_waiters m - 1\<rparr>, [])"

definition tr_fire :: "trigger \<Rightarrow> tr_section" where
  "tr_fire m = (Return True, m\<lparr>tr_fired := True\<rparr>, [])"

definition tr_notify :: "trigger \<Rightarrow> tr_section" where
  "tr_notify m = (Return True, m, [All ()])"

definition tr_valid_for_destruction :: "trigger \<Rightarrow> bool" where
  "tr_valid_for_destruction m \<longleftrightarrow> tr_waiters m = 0"

fun tr_call :: "tr_op \<Rightarrow> trigger \<Rightarrow> tr_section" where
  "tr_call Tr_Wait m = tr_wait m"
| "tr_call Tr_Fire m = tr_fire m"
| "tr_call Tr_Notify m = tr_notify m"

definition tr_monitor :: "(trigger, tr_hold, unit, tr_op) monitor" where
  "tr_monitor = \<lparr>mo_may = \<lambda>op h m. (h = Tr_Firing) = (op = Tr_Notify), mo_call = \<lambda>op late. tr_call op,
     mo_resume = \<lambda>op late. tr_wait_resume, mo_timed = \<lambda>op. False, mo_expire = \<lambda>op m. (Return False, m, []),
     mo_after = \<lambda>op b. if op = Tr_Fire then Tr_Firing else Tr_Outside\<rparr>"

fun firing :: "(tr_hold, unit, tr_op) phase \<Rightarrow> bool" where
  "firing (Run h) = (h = Tr_Firing)"
| "firing _ = False"

lemma firing_wake [simp]: "firing (wake p) = firing p"
  by (cases p) auto

definition tr_inv :: "trigger \<Rightarrow> (tr_hold, unit, tr_op) phase list \<Rightarrow> bool" where
  "tr_inv m ps \<longleftrightarrow> tr_waiters m = int (num_of waiting ps) \<and> (\<forall>p \<in> set ps. \<forall>op. p \<noteq> Timed_Out op) \<and>
     (tr_fired m \<and> 0 < num_of parked ps \<longrightarrow> 0 < num_of firing ps)"

lemma tr_update:
  assumes inv: "tr_inv m ps" and t: "t < length ps" "ps ! t = p" and q: "\<forall>op. q \<noteq> Timed_Out op"
    and n: "notified ns (ps[t := q]) ps'"
    and m': "tr_waiters m' + of_bool (waiting p) = tr_waiters m + of_bool (waiting q)"
    and f: "tr_fired m' \<longrightarrow> All () \<in> set ns \<or> firing q \<or> tr_fired m \<and> \<not> firing p \<and> (parked q \<longrightarrow> parked p)"
  shows "tr_inv m' ps'"
proof -
  note c = sync_counts [OF t n]
  have "int (num_of waiting ps') + of_bool (waiting p) = int (num_of waiting ps) + of_bool (waiting q)"
    using arg_cong [OF c(1), of int] by (simp only: of_nat_add of_nat_of_bool)
  moreover have "\<forall>x \<in> set ps'. \<forall>op. x \<noteq> Timed_Out op"
    by (rule notified_waiting_op [where P = "\<lambda>x. \<forall>op. x \<noteq> Timed_Out op", OF n])
      (use inv q in \<open>auto simp: tr_inv_def\<close>)
  moreover have "0 < num_of firing ps'" if fired: "tr_fired m'" and pk: "0 < num_of parked ps'"
  proof -
    have fi: "num_of firing ps' + of_bool (firing p) = num_of firing ps + of_bool (firing q)"
      using notified_num_of [OF n, of firing] num_of_update [OF t(1), of firing q] t(2) by simp
    from f fired consider "All () \<in> set ns" | "firing q" | "tr_fired m" "\<not> firing p" "parked q \<longrightarrow> parked p" by blast
    then show ?thesis
    proof cases
      case 1
      with c(4) pk show ?thesis by simp
    next
      case 2
      show ?thesis
      proof (cases "firing p")
        case True
        with 2 fi num_of_pos [OF t(1), of firing] t(2) show ?thesis by simp
      next
        case False
        with 2 fi show ?thesis by simp
      qed
    next
      case 3
      then have "num_of parked ps' \<le> num_of parked ps" using c(3) by (cases "parked q"; cases "parked p") auto
      with 3 fi pk inv show ?thesis by (auto simp: tr_inv_def)
    qed
  qed
  ultimately show ?thesis using inv m' by (simp add: tr_inv_def)
qed

lemma tr_monitor_simps:
  "mo_may tr_monitor op h m = ((h = Tr_Firing) = (op = Tr_Notify))" "mo_call tr_monitor op late m = tr_call op m"
  "mo_resume tr_monitor op late m = tr_wait_resume m" "mo_timed tr_monitor op = False"
  "mo_after tr_monitor op b = (if op = Tr_Fire then Tr_Firing else Tr_Outside)"
  by (simp_all add: tr_monitor_def)

lemmas tr_sections = tr_wait_def tr_wait_resume_def tr_fire_def tr_notify_def

interpretation tr: monitor_invariant tr_monitor tr_inv
proof (unfold_locales, goal_cases)
  case (1 m ps t h op late r m' ns ps')
  show ?case
    by (rule tr_update [OF 1(1-3) _ 1(6)])
      (use 1(4,5) in \<open>cases op; auto simp: tr_monitor_simps tr_sections split: if_splits\<close>)+
next
  case (2 m ps t op late r m' ns ps')
  show ?case
    by (rule tr_update [OF 2(1-3) _ 2(5)])
      (use 2(4) in \<open>auto simp: tr_monitor_simps tr_sections\<close>)
next
  case (3 m ps t cv op)
  show ?case by (rule tr_update [OF 3 _ notified.nothing]) auto
next
  case (4 m ps t cv op)
  then show ?case by (simp add: tr_monitor_simps)
next
  case (5 m ps t op r m' ns ps')
  then have "Timed_Out op \<in> set ps" by (metis nth_mem)
  with 5(1) show ?case by (auto simp: tr_inv_def)
qed

text \<open>Once the trigger has fired and no \<open>fire\<close> is under way, nobody sleeps; and the assertion of the
  destructor holds exactly when nobody is inside \<open>wait\<close>. A spurious wake-up ends \<open>wait\<close> before
  anybody fired.\<close>

theorem tr_fired_nobody_sleeps:
  assumes "mo_reach tr_monitor tr_new (replicate n (Run Tr_Outside)) m ps"
  shows "(tr_fired m \<and> num_of firing ps = 0 \<longrightarrow> num_of parked ps = 0) \<and>
    (tr_valid_for_destruction m \<longleftrightarrow> num_of waiting ps = 0)"
proof -
  have "tr_inv tr_new (replicate n (Run Tr_Outside))"
    by (auto simp: tr_inv_def tr_new_def num_of_replicate)
  from tr.reach_invariant [OF assms this] show ?thesis
    by (auto simp: tr_inv_def tr_valid_for_destruction_def)
qed

theorem tr_wait_spurious:
  "\<exists>m. mo_reach tr_monitor tr_new [Run Tr_Outside] m [Woken Tr_Wait] \<and> \<not> tr_fired m \<and>
     tr_wait_resume m = (Return True, tr_new, [])"
proof -
  let ?m = "\<lparr>tr_fired = False, tr_waiters = 1\<rparr>"
  have 1: "mo_step tr_monitor tr_new [Run Tr_Outside] ?m [Parked () Tr_Wait]"
    by (rule mo_step.call [of 0 _ Tr_Outside _ Tr_Wait _ False "Wait () Tr_Wait" _ "[]"])
      (simp_all add: tr_monitor_simps tr_sections tr_new_def notified.nothing)
  have "mo_step tr_monitor ?m [Parked () Tr_Wait] ?m ([Parked () Tr_Wait][0 := Woken Tr_Wait])"
    by (rule mo_step.spurious) simp_all
  then have 2: "mo_step tr_monitor ?m [Parked () Tr_Wait] ?m [Woken Tr_Wait]" by simp
  have "mo_reach tr_monitor tr_new [Run Tr_Outside] ?m [Woken Tr_Wait]"
    by (rule mo_reach.step [OF mo_reach.step [OF mo_reach.start 1] 2])
  moreover have "tr_wait_resume ?m = (Return True, tr_new, [])" by (simp add: tr_sections tr_new_def)
  ultimately show ?thesis by (intro exI [of _ ?m]) simp
qed

end
