(* ===== verification/Zi_Quat.thy ===== *)
theory Zi_Quat
  imports Complex_Main Zi_Prelude
begin

text \<open>
  \<^verbatim>\<open>zi/vl/quat.hpp\<close> and \<^verbatim>\<open>zi/vl/quat_functions.hpp\<close>: quaternions, over exact real numbers
  instead of floating point ones. The array \<open>d[ 4 ]\<close> is a record of its four elements, the real part
  last. \<open>std::numeric_limits< T >::epsilon()\<close> is a parameter. An operation on \<open>*this\<close> yields the new
  value of the object; the overloads for mixed element types do the same as the plain ones.
\<close>

section \<open>The class\<close>

record vec3 =
  v0 :: real
  v1 :: real
  v2 :: real

record quat =
  d0 :: real
  d1 :: real
  d2 :: real
  d3 :: real

definition vec3_new :: "real \<Rightarrow> real \<Rightarrow> real \<Rightarrow> vec3" where
  "vec3_new a b c = \<lparr>v0 = a, v1 = b, v2 = c\<rparr>"

definition quat_new :: "real \<Rightarrow> real \<Rightarrow> real \<Rightarrow> real \<Rightarrow> quat" where
  "quat_new q0 q1 q2 q3 = \<lparr>d0 = q0, d1 = q1, d2 = q2, d3 = q3\<rparr>"

definition quat_of_vec3 :: "vec3 \<Rightarrow> real \<Rightarrow> quat" where
  "quat_of_vec3 v q3 = \<lparr>d0 = v0 v, d1 = v1 v, d2 = v2 v, d3 = q3\<rparr>"

definition quat_of_vec4 :: "real list \<Rightarrow> quat" where
  "quat_of_vec4 v = \<lparr>d0 = v ! 0, d1 = v ! 1, d2 = v ! 2, d3 = v ! 3\<rparr>"

definition quat_identity :: quat where
  "quat_identity = \<lparr>d0 = 0, d1 = 0, d2 = 0, d3 = 1\<rparr>"

definition quat_zero :: quat where "quat_zero = quat_new 0 0 0 0"
definition quat_i :: quat where "quat_i = quat_new 1 0 0 0"
definition quat_j :: quat where "quat_j = quat_new 0 1 0 0"
definition quat_k :: quat where "quat_k = quat_new 0 0 1 0"
definition quat_unit :: quat where "quat_unit = quat_new 0 0 0 1"

text \<open>\<open>begin()\<close> to \<open>end()\<close>; the checked accessors.\<close>

definition q_data :: "quat \<Rightarrow> real list" where
  "q_data q = [d0 q, d1 q, d2 q, d3 q]"

definition q_at :: "quat \<Rightarrow> nat \<Rightarrow> real option" where
  "q_at q idx = (if idx < 4 then Some (q_data q ! idx) else None)"

definition unreal :: "quat \<Rightarrow> quat" where
  "unreal q = quat_new (d0 q) (d1 q) (d2 q) 0"

definition unreal_vec :: "quat \<Rightarrow> vec3" where
  "unreal_vec q = vec3_new (d0 q) (d1 q) (d2 q)"

text \<open>\<open>std::min_element\<close> and \<open>std::max_element\<close>: the first smallest, the first largest.\<close>

definition min_element :: "real list \<Rightarrow> nat" where
  "min_element xs = fold (\<lambda>i m. if xs ! i < xs ! m then i else m) [1..<length xs] 0"

definition max_element :: "real list \<Rightarrow> nat" where
  "max_element xs = fold (\<lambda>i m. if xs ! m < xs ! i then i else m) [1..<length xs] 0"

definition q_min :: "quat \<Rightarrow> real" where
  "q_min q = q_data q ! min_element (q_data q)"

definition q_min_index :: "quat \<Rightarrow> nat" where
  "q_min_index q = min_element (q_data q)"

definition q_max :: "quat \<Rightarrow> real" where
  "q_max q = q_data q ! max_element (q_data q)"

definition q_max_index :: "quat \<Rightarrow> nat" where
  "q_max_index q = max_element (q_data q)"

definition q_absmax :: "quat \<Rightarrow> real" where
  "q_absmax q = (let m = - q_min q in max (q_max q) m)"

definition q_absmax_index :: "quat \<Rightarrow> nat" where
  "q_absmax_index q =
     (let mini = q_min_index q; maxi = q_max_index q
      in if - (q_data q ! mini) > q_data q ! maxi then mini else maxi)"

section \<open>Assignments\<close>

definition q_assign_scalar :: "quat \<Rightarrow> real \<Rightarrow> quat" where
  "q_assign_scalar q rhs = q\<lparr>d0 := 0, d1 := 0, d2 := 0, d3 := rhs\<rparr>"

definition q_fill :: "quat \<Rightarrow> real \<Rightarrow> quat" where
  "q_fill q val = q\<lparr>d0 := val, d1 := val, d2 := val, d3 := val\<rparr>"

text \<open>The macros of the compound assignments, for an operation of the elements.\<close>

definition q_compound_scalar :: "(real \<Rightarrow> real \<Rightarrow> real) \<Rightarrow> quat \<Rightarrow> real \<Rightarrow> quat" where
  "q_compound_scalar f q rhs = q\<lparr>d0 := f (d0 q) rhs, d1 := f (d1 q) rhs, d2 := f (d2 q) rhs, d3 := f (d3 q) rhs\<rparr>"

definition q_compound :: "(real \<Rightarrow> real \<Rightarrow> real) \<Rightarrow> quat \<Rightarrow> quat \<Rightarrow> quat" where
  "q_compound f q rhs =
     q\<lparr>d0 := f (d0 q) (d0 rhs), d1 := f (d1 q) (d1 rhs), d2 := f (d2 q) (d2 rhs), d3 := f (d3 q) (d3 rhs)\<rparr>"

definition q_compound_vec :: "(real \<Rightarrow> real \<Rightarrow> real) \<Rightarrow> quat \<Rightarrow> vec3 \<Rightarrow> quat" where
  "q_compound_vec f q rhs = q\<lparr>d0 := f (d0 q) (v0 rhs), d1 := f (d1 q) (v1 rhs), d2 := f (d2 q) (v2 rhs)\<rparr>"

abbreviation q_add :: "quat \<Rightarrow> quat \<Rightarrow> quat" where "q_add \<equiv> q_compound (+)"
abbreviation q_sub :: "quat \<Rightarrow> quat \<Rightarrow> quat" where "q_sub \<equiv> q_compound (-)"
abbreviation q_scale :: "quat \<Rightarrow> real \<Rightarrow> quat" where "q_scale \<equiv> q_compound_scalar (*)"

definition q_mul_vec :: "quat \<Rightarrow> vec3 \<Rightarrow> quat" where
  "q_mul_vec q rhs =
     (let xt = d0 q; yt = d1 q; zt = d2 q; wt = d3 q
      in q\<lparr>d3 := - xt * v0 rhs - yt * v1 rhs - zt * v2 rhs,
           d0 := wt * v0 rhs + yt * v2 rhs - zt * v1 rhs,
           d1 := wt * v1 rhs - xt * v2 rhs + zt * v0 rhs,
           d2 := wt * v2 rhs + xt * v1 rhs - yt * v0 rhs\<rparr>)"

text \<open>The product with eight multiplications. The references \<open>x0\<close> to \<open>y3\<close> are read before the first
  element is written.\<close>

definition q_mul :: "quat \<Rightarrow> quat \<Rightarrow> quat" where
  "q_mul q rhs =
     (let x0 = d3 q; x1 = d0 q; x2 = d1 q; x3 = d2 q;
          y0 = d3 rhs; y1 = d0 rhs; y2 = d1 rhs; y3 = d2 rhs;
          tmp_00 = (x3 - x2) * (y2 - y3);
          tmp_01 = (x0 + x1) * (y0 + y1);
          tmp_02 = (x0 - x1) * (y2 + y3);
          tmp_03 = (x2 + x3) * (y0 - y1);
          tmp_04 = (x3 - x1) * (y1 - y2);
          tmp_05 = (x3 + x1) * (y1 + y2);
          tmp_06 = (x0 + x2) * (y0 - y3);
          tmp_07 = (x0 - x2) * (y0 + y3);
          tmp_08 = tmp_05 + tmp_06 + tmp_07;
          tmp_09 = 1 / 2 * (tmp_04 + tmp_08)
      in q\<lparr>d3 := tmp_00 + tmp_09 - tmp_05,
           d0 := tmp_01 + tmp_09 - tmp_08,
           d1 := tmp_02 + tmp_09 - tmp_07,
           d2 := tmp_03 + tmp_09 - tmp_06\<rparr>)"

definition q_div_scalar :: "quat \<Rightarrow> real \<Rightarrow> quat" where
  "q_div_scalar q rhs =
     (let invc = 1 / rhs in q\<lparr>d0 := d0 q * invc, d1 := d1 q * invc, d2 := d2 q * invc, d3 := d3 q * invc\<rparr>)"

definition q_add_scalar :: "quat \<Rightarrow> real \<Rightarrow> quat" where
  "q_add_scalar q rhs = q\<lparr>d3 := d3 q + rhs\<rparr>"

definition q_sub_scalar :: "quat \<Rightarrow> real \<Rightarrow> quat" where
  "q_sub_scalar q rhs = q\<lparr>d3 := d3 q - rhs\<rparr>"

definition q_swap :: "quat \<Rightarrow> quat \<Rightarrow> quat \<times> quat" where
  "q_swap q rhs =
     (\<lparr>d0 = d0 rhs, d1 = d1 rhs, d2 = d2 rhs, d3 = d3 rhs\<rparr>, \<lparr>d0 = d0 q, d1 = d1 q, d2 = d2 q, d3 = d3 q\<rparr>)"

section \<open>From a rotation matrix\<close>

text \<open>\<open>mat< T, 3 >\<close>, its elements by row and column.\<close>

type_synonym mat3 = "nat \<Rightarrow> nat \<Rightarrow> real"

definition set_rot_matrix :: "real \<Rightarrow> quat \<Rightarrow> mat3 \<Rightarrow> quat" where
  "set_rot_matrix epsilon q m =
     (let trace = m 0 0 + m 1 1 + m 2 2 + 1
      in if trace > sqrt epsilon
         then
           (let r = sqrt trace; s = (1 / 2) / r
            in q\<lparr>d0 := (m 2 1 - m 1 2) * s, d1 := (m 0 2 - m 2 0) * s, d2 := (m 1 0 - m 0 1) * s,
                 d3 := r * (1 / 2)\<rparr>)
         else
           (let idx = max_element [m 0 0, m 1 1, m 2 2]
            in if idx = 0
               then
                 (let r = sqrt (m 0 0 + 1 - m 1 1 - m 2 2); s = (1 / 2) / r
                  in q\<lparr>d0 := r * (1 / 2), d1 := (m 0 1 + m 1 0) * s, d2 := (m 0 2 + m 2 0) * s,
                       d3 := (m 1 2 - m 2 1) * s\<rparr>)
               else if idx = 1
               then
                 (let r = sqrt (m 1 1 + 1 - m 0 0 - m 2 2); s = (1 / 2) / r
                  in q\<lparr>d0 := (m 0 1 + m 1 0) * s, d1 := r * (1 / 2), d2 := (m 1 2 + m 2 1) * s,
                       d3 := (m 0 2 - m 2 0) * s\<rparr>)
               else if idx = 2
               then
                 (let r = sqrt (m 2 2 + 1 - m 0 0 - m 1 1); s = (1 / 2) / r
                  in q\<lparr>d0 := (m 0 2 + m 2 0) * s, d1 := (m 1 2 + m 2 1) * s, d2 := r * (1 / 2),
                       d3 := (m 0 1 - m 1 0) * s\<rparr>)
               else q))"

text \<open>The constructor from a matrix of any size above 2 copies the upper left part; the elements it
  starts from are never read.\<close>

definition quat_of_mat :: "real \<Rightarrow> (nat \<Rightarrow> nat \<Rightarrow> real) \<Rightarrow> quat" where
  "quat_of_mat epsilon m =
     (let mcopy = (\<lambda>i j. if i < 3 \<and> j < 3 then m i j else 0) in set_rot_matrix epsilon (quat_new 0 0 0 0) mcopy)"

section \<open>Comparisons\<close>

definition q_eq :: "quat \<Rightarrow> quat \<Rightarrow> bool" where
  "q_eq lhs rhs \<longleftrightarrow> list_all2 (=) (q_data lhs) (q_data rhs)"

definition q_eq_vec :: "quat \<Rightarrow> vec3 \<Rightarrow> bool" where
  "q_eq_vec lhs rhs \<longleftrightarrow> d3 lhs = 0 \<and> list_all2 (=) [v0 rhs, v1 rhs, v2 rhs] (take 3 (q_data lhs))"

definition q_eq_scalar :: "quat \<Rightarrow> real \<Rightarrow> bool" where
  "q_eq_scalar lhs rhs \<longleftrightarrow> d3 lhs = rhs \<and> d0 lhs = 0 \<and> d1 lhs = 0 \<and> d2 lhs = 0"

definition q_neq :: "quat \<Rightarrow> quat \<Rightarrow> bool" where "q_neq lhs rhs \<longleftrightarrow> \<not> q_eq lhs rhs"
definition q_neq_vec :: "quat \<Rightarrow> vec3 \<Rightarrow> bool" where "q_neq_vec lhs rhs \<longleftrightarrow> \<not> q_eq_vec lhs rhs"
definition q_neq_scalar :: "quat \<Rightarrow> real \<Rightarrow> bool" where "q_neq_scalar lhs rhs \<longleftrightarrow> \<not> q_eq_scalar lhs rhs"

fun lex_less :: "real list \<Rightarrow> real list \<Rightarrow> bool" where
  "lex_less [] b = (b \<noteq> [])"
| "lex_less (x # a) [] = False"
| "lex_less (x # a) (y # b) = (if x < y then True else if y < x then False else lex_less a b)"

definition q_less :: "quat \<Rightarrow> quat \<Rightarrow> bool" where
  "q_less lhs rhs \<longleftrightarrow> lex_less (q_data lhs) (q_data rhs)"

definition q_greater :: "quat \<Rightarrow> quat \<Rightarrow> bool" where "q_greater lhs rhs \<longleftrightarrow> q_less rhs lhs"
definition q_less_eq :: "quat \<Rightarrow> quat \<Rightarrow> bool" where "q_less_eq lhs rhs \<longleftrightarrow> \<not> q_less rhs lhs"
definition q_greater_eq :: "quat \<Rightarrow> quat \<Rightarrow> bool" where "q_greater_eq lhs rhs \<longleftrightarrow> \<not> q_less lhs rhs"

section \<open>Binary operators\<close>

text \<open>The macros: copy one operand, apply the compound assignment with the other. A scalar on the left
  is the right operand of the compound assignment.\<close>

definition q_op_scalar_type :: "(quat \<Rightarrow> real \<Rightarrow> quat) \<Rightarrow> real \<Rightarrow> quat \<Rightarrow> quat" where
  "q_op_scalar_type op lhs rhs = (let res = rhs; res = op res lhs in res)"

definition q_op_type_scalar :: "(quat \<Rightarrow> real \<Rightarrow> quat) \<Rightarrow> quat \<Rightarrow> real \<Rightarrow> quat" where
  "q_op_type_scalar op lhs rhs = (let res = lhs; res = op res rhs in res)"

definition q_op_type_type :: "(quat \<Rightarrow> quat \<Rightarrow> quat) \<Rightarrow> quat \<Rightarrow> quat \<Rightarrow> quat" where
  "q_op_type_type op lhs rhs = (let res = lhs; res = op res rhs in res)"

definition q_op_type_vec :: "(quat \<Rightarrow> vec3 \<Rightarrow> quat) \<Rightarrow> quat \<Rightarrow> vec3 \<Rightarrow> quat" where
  "q_op_type_vec op lhs rhs = (let res = lhs; res = op res rhs in res)"

definition q_plus :: "quat \<Rightarrow> quat" where "q_plus rhs = rhs"

definition q_minus :: "quat \<Rightarrow> quat" where
  "q_minus rhs = quat_new (- d0 rhs) (- d1 rhs) (- d2 rhs) (- d3 rhs)"

end
