(* ===== verification/Zi_Quat_Functions.thy ===== *)
theory Zi_Quat_Functions
  imports Zi_Quat
begin

text \<open>
  \<^verbatim>\<open>zi/vl/quat_functions.hpp\<close>: lengths, inverses, products and interpolation of quaternions, and
  the laws of the quaternion algebra for the optimised product of \<^verbatim>\<open>quat.hpp\<close>.
\<close>

section \<open>The functions\<close>

definition conjugate :: "quat \<Rightarrow> quat" where
  "conjugate q = q\<lparr>d0 := - d0 q, d1 := - d1 q, d2 := - d2 q\<rparr>"

definition conj :: "quat \<Rightarrow> quat" where
  "conj q = quat_new (- d0 q) (- d1 q) (- d2 q) (d3 q)"

definition squared_length :: "quat \<Rightarrow> real" where
  "squared_length q = d0 q * d0 q + d1 q * d1 q + d2 q * d2 q + d3 q * d3 q"

definition sqrlen :: "quat \<Rightarrow> real" where
  "sqrlen q = d0 q * d0 q + d1 q * d1 q + d2 q * d2 q + d3 q * d3 q"

definition len :: "quat \<Rightarrow> real" where
  "len q = sqrt (sqrlen q)"

definition invert :: "real \<Rightarrow> quat \<Rightarrow> real \<times> quat" where
  "invert epsilon q =
     (let l = sqrlen q
      in if l \<le> epsilon then (0, q)
         else (let invl = 1 / l; q = conjugate q; q = q_scale q invl in (l, q)))"

definition q_inv_ok :: "real \<Rightarrow> quat \<Rightarrow> quat \<times> bool" where
  "q_inv_ok epsilon q = (let tmp = q; (l, tmp) = invert epsilon tmp in (tmp, l \<noteq> 0))"

definition q_inv :: "real \<Rightarrow> quat \<Rightarrow> quat" where
  "q_inv epsilon q = (let tmp = q; (l, tmp) = invert epsilon tmp in tmp)"

definition normalize :: "real \<Rightarrow> quat \<Rightarrow> real \<times> quat" where
  "normalize epsilon q =
     (let l = len q
      in if l \<le> epsilon then (0, q) else (let invl = 1 / l; q = q_scale q invl in (l, q)))"

definition norm :: "real \<Rightarrow> quat \<Rightarrow> quat" where
  "norm epsilon q = (let tmp = q; (l, tmp) = normalize epsilon tmp in tmp)"

definition dot :: "quat \<Rightarrow> quat \<Rightarrow> real" where
  "dot lhs rhs = d0 lhs * d0 rhs + d1 lhs * d1 rhs + d2 lhs * d2 rhs + d3 lhs * d3 rhs"

definition cross :: "quat \<Rightarrow> quat \<Rightarrow> vec3" where
  "cross lhs rhs =
     vec3_new (d1 lhs * d2 rhs - d2 lhs * d1 rhs)
          (d2 lhs * d0 rhs - d0 lhs * d2 rhs)
          (d0 lhs * d1 rhs - d1 lhs * d0 rhs)"

definition cross3 :: "quat \<Rightarrow> quat \<Rightarrow> quat \<Rightarrow> quat" where
  "cross3 q0 q1 q2 =
     \<lparr>d0 = d1 q0 * (d2 q1 * d3 q2 - d3 q1 * d2 q2) +
           d1 q1 * (d2 q2 * d3 q0 - d3 q2 * d2 q0) +
           d1 q2 * (d2 q0 * d3 q1 - d3 q0 * d2 q1),
      d1 = d0 q0 * (d2 q1 * d3 q2 - d3 q1 * d2 q2) +
           d0 q1 * (d2 q2 * d3 q0 - d3 q2 * d2 q0) +
           d0 q2 * (d2 q0 * d3 q1 - d3 q0 * d2 q1),
      d2 = d0 q0 * (d1 q1 * d3 q2 - d3 q1 * d1 q2) +
           d0 q1 * (d1 q2 * d3 q0 - d3 q2 * d1 q0) +
           d0 q2 * (d1 q0 * d3 q1 - d3 q0 * d1 q1),
      d3 = d0 q0 * (d1 q1 * d2 q2 - d2 q1 * d1 q2) +
           d0 q1 * (d1 q2 * d2 q0 - d2 q2 * d1 q0) +
           d0 q2 * (d1 q0 * d2 q1 - d2 q0 * d1 q1)\<rparr>"

definition normal :: "real \<Rightarrow> quat \<Rightarrow> quat \<Rightarrow> quat \<Rightarrow> quat \<Rightarrow> quat" where
  "normal epsilon qa qb qc qd =
     (let quat_t = q_sub qb qa; quat_u = q_sub qc qa; quat_v = q_sub qd qa;
          res = cross3 quat_t quat_u quat_v; (l, res) = normalize epsilon res
      in res)"

definition q_div :: "real \<Rightarrow> quat \<Rightarrow> quat \<Rightarrow> quat" where
  "q_div epsilon lhs rhs = (let invrhs = q_inv epsilon rhs; lhs = q_mul lhs invrhs in lhs)"

text \<open>\<open>std::atan2\<close>.\<close>

definition atan2 :: "real \<Rightarrow> real \<Rightarrow> real" where
  "atan2 y x = Arg (Complex x y)"

definition slerp :: "real \<Rightarrow> real \<Rightarrow> quat \<Rightarrow> quat \<Rightarrow> quat" where
  "slerp epsilon a p q =
     (let np = norm epsilon p;
          nq = norm epsilon q;
          cosine = dot np nq;
          quat_t = q;
          (cosine, quat_t) = (if cosine < 0 then (- cosine, q_minus quat_t) else (cosine, quat_t))
      in if 1 - \<bar>cosine\<bar> > epsilon
         then
           (let sine = sqrt (1 - cosine * cosine);
                invsine = 1 / sine;
                angle = atan2 sine cosine;
                coeffp = sin ((1 - a) * angle) * invsine;
                coeffq = sin (a * angle) * invsine
            in q_op_type_type q_add (q_op_scalar_type q_scale coeffp p) (q_op_scalar_type q_scale coeffq quat_t))
         else
           norm epsilon (q_op_type_type q_add (q_op_scalar_type q_scale (1 - a) p) (q_op_scalar_type q_scale a quat_t)))"

section \<open>The product\<close>

text \<open>Hamilton's product.\<close>

definition hamilton :: "quat \<Rightarrow> quat \<Rightarrow> quat" where
  "hamilton p q =
     \<lparr>d0 = d3 p * d0 q + d0 p * d3 q + d1 p * d2 q - d2 p * d1 q,
      d1 = d3 p * d1 q - d0 p * d2 q + d1 p * d3 q + d2 p * d0 q,
      d2 = d3 p * d2 q + d0 p * d1 q - d1 p * d0 q + d2 p * d3 q,
      d3 = d3 p * d3 q - d0 p * d0 q - d1 p * d1 q - d2 p * d2 q\<rparr>"

lemma q_mul_hamilton: "q_mul p q = hamilton p q"
  by (cases p; cases q) (simp add: q_mul_def hamilton_def Let_def field_simps)

lemma q_mul_vec_hamilton: "q_mul_vec q v = hamilton q (quat_of_vec3 v 0)"
  by (cases q; cases v) (simp add: q_mul_vec_def hamilton_def quat_of_vec3_def Let_def)

named_theorems q_defs "the operations by elements"

lemmas [q_defs] = hamilton_def quat_new_def quat_identity_def q_compound_def q_compound_scalar_def q_compound_vec_def
  conjugate_def conj_def sqrlen_def squared_length_def dot_def q_minus_def q_add_scalar_def q_sub_scalar_def
  q_div_scalar_def quat_of_vec3_def

lemma hamilton_assoc: "hamilton (hamilton p q) r = hamilton p (hamilton q r)"
  by (cases p; cases q; cases r) (simp add: q_defs algebra_simps)

lemma hamilton_identity: "hamilton quat_identity q = q" "hamilton q quat_identity = q"
  by (cases q; simp add: q_defs)+

lemma hamilton_conj: "hamilton q (conj q) = quat_new 0 0 0 (sqrlen q)" "hamilton (conj q) q = quat_new 0 0 0 (sqrlen q)"
  by (cases q; simp add: q_defs algebra_simps)+

lemma conj_hamilton: "conj (hamilton p q) = hamilton (conj q) (conj p)"
  by (cases p; cases q) (simp add: q_defs algebra_simps)

lemma sqrlen_hamilton: "sqrlen (hamilton p q) = sqrlen p * sqrlen q"
  by (cases p; cases q) (simp add: q_defs algebra_simps)

lemma hamilton_scale: "hamilton p (q_scale q c) = q_scale (hamilton p q) c" "hamilton (q_scale p c) q = q_scale (hamilton p q) c"
  by (cases p; cases q; simp add: q_defs algebra_simps)+

lemma sqrlen_nonneg: "0 \<le> sqrlen q"
  by (simp add: sqrlen_def)

section \<open>Interpolation\<close>

lemma sqrlen_combination:
  "sqrlen (q_add (q_scale p a) (q_scale q b)) = a * a * sqrlen p + b * b * sqrlen q + 2 * a * b * dot p q"
  by (cases p; cases q) (simp add: q_defs algebra_simps)

lemma dot_combination: "dot p (q_add (q_scale p a) (q_scale q b)) = a * sqrlen p + b * dot p q"
  by (cases p; cases q) (simp add: q_defs algebra_simps)

lemma sqrlen_minus [simp]: "sqrlen (q_minus q) = sqrlen q"
  by (cases q) (simp add: q_defs)

lemma dot_minus [simp]: "dot p (q_minus q) = - dot p q"
  by (cases p; cases q) (simp add: q_defs)

lemma dot_bound: "dot p q * dot p q \<le> sqrlen p * sqrlen q"
proof -
  have "0 \<le> (d0 p * d1 q - d1 p * d0 q)\<^sup>2 + (d0 p * d2 q - d2 p * d0 q)\<^sup>2 + (d0 p * d3 q - d3 p * d0 q)\<^sup>2 +
      (d1 p * d2 q - d2 p * d1 q)\<^sup>2 + (d1 p * d3 q - d3 p * d1 q)\<^sup>2 + (d2 p * d3 q - d3 p * d2 q)\<^sup>2"
    by simp
  also have "\<dots> = sqrlen p * sqrlen q - dot p q * dot p q"
    by (simp add: sqrlen_def dot_def algebra_simps power2_eq_square)
  finally show ?thesis by simp
qed

lemma norm_unit: "sqrlen q = 1 \<Longrightarrow> epsilon < 1 \<Longrightarrow> norm epsilon q = q"
  by (cases q) (simp add: norm_def normalize_def Let_def len_def q_defs)

lemma sqrlen_norm: "epsilon < len q \<Longrightarrow> 0 \<le> epsilon \<Longrightarrow> sqrlen (norm epsilon q) = 1"
proof -
  assume l: "epsilon < len q" "0 \<le> epsilon"
  then have "0 < len q" by simp
  have "sqrlen (norm epsilon q) = sqrlen q * (1 / len q) * (1 / len q)"
    using l by (cases q) (simp add: norm_def normalize_def Let_def q_defs algebra_simps add_divide_distrib)
  moreover have "sqrlen q = len q * len q" by (simp add: len_def sqrlen_nonneg)
  ultimately show ?thesis using \<open>0 < len q\<close> by simp
qed

lemma atan2_unit: "s * s + c * c = 1 \<Longrightarrow> cos (atan2 s c) = c \<and> sin (atan2 s c) = s"
proof -
  assume u: "s * s + c * c = 1"
  let ?z = "Complex c s"
  have n: "cmod ?z = 1" using u by (simp add: cmod_def power2_eq_square add.commute)
  then have "?z \<noteq> 0" by auto
  then have "cis (Arg ?z) = sgn ?z" by (rule cis_Arg)
  also have "sgn ?z = ?z" using n by (simp add: sgn_div_norm)
  finally show ?thesis unfolding atan2_def by (metis cis.sel complex.sel)
qed

text \<open>The end point slerp goes to: \<open>q\<close> or \<open>- q\<close>, whichever is nearer.\<close>

definition nearer :: "quat \<Rightarrow> quat \<Rightarrow> quat" where
  "nearer p q = (if dot p q < 0 then q_minus q else q)"

lemma nearer: "dot p (nearer p q) = \<bar>dot p q\<bar>" "sqrlen (nearer p q) = sqrlen q"
  by (simp_all add: nearer_def)

lemma slerp_unit_unfold:
  assumes "sqrlen p = 1" "sqrlen q = 1" "epsilon < 1"
  shows "slerp epsilon a p q =
     (let c = dot p (nearer p q); s = sqrt (1 - c * c); angle = atan2 s c
      in if 1 - c > epsilon
         then q_add (q_scale p (sin ((1 - a) * angle) / s)) (q_scale (nearer p q) (sin (a * angle) / s))
         else norm epsilon (q_add (q_scale p (1 - a)) (q_scale (nearer p q) a)))"
  using assms by (simp add: slerp_def norm_unit Let_def nearer_def q_op_type_type_def q_op_scalar_type_def)

text \<open>The coefficients of slerp for a cosine \<open>c\<close> of the whole angle: they keep to the unit sphere, and
  turn by the fraction \<open>a\<close> of the angle.\<close>

lemma atan2_arccos:
  assumes "0 < s" "s * s + c * c = 1"
  shows "atan2 s c = arccos c"
proof -
  have th: "cos (atan2 s c) = c" "sin (atan2 s c) = s" using atan2_unit [OF assms(2)] by simp_all
  have b: "- pi < atan2 s c" "atan2 s c \<le> pi" using Arg_bounded [of "Complex c s"] by (simp_all add: atan2_def)
  have "0 \<le> atan2 s c"
  proof (rule ccontr)
    assume "\<not> 0 \<le> atan2 s c"
    then have "0 < sin (- atan2 s c)" using b by (intro sin_gt_zero) auto
    with th(2) assms(1) show False by simp
  qed
  then show ?thesis using arccos_cos [of "atan2 s c"] b th(1) by simp
qed

lemma slerp_weights:
  assumes c: "0 \<le> c" "c < 1" and s: "s = sqrt (1 - c * c)" and th: "th = atan2 s c"
    and x: "x = sin ((1 - a) * th) / s" and y: "y = sin (a * th) / s"
  shows "0 < s" "x * x + y * y + 2 * x * y * c = 1" "x + y * c = cos (a * arccos c)"
    "a = 0 \<Longrightarrow> x = 1 \<and> y = 0" "a = 1 \<Longrightarrow> x = 0 \<and> y = 1"
proof -
  have "c * c < 1 * 1" using c by (intro mult_strict_mono') auto
  then have s: "0 < s" "s * s = 1 - c * c" by (simp_all add: s)
  have at: "cos th = c" "sin th = s" "th = arccos c"
    using atan2_unit [of s c] atan2_arccos [of s c] s by (simp_all add: th)
  have sin1: "sin ((1 - a) * th) = s * cos (a * th) - c * sin (a * th)"
    using sin_diff [of th "a * th"] at by (simp add: left_diff_distrib)
  have x': "x = cos (a * th) - c * y" using s(1) by (simp add: x y sin1 diff_divide_distrib)
  show "0 < s" by (rule s)
  show "x + y * c = cos (a * arccos c)" using x' at(3) by simp
  have sy: "s * y = sin (a * th)" using s(1) by (simp add: y)
  have "x * x + y * y + 2 * x * y * c = cos (a * th) * cos (a * th) + (1 - c * c) * (y * y)"
    by (simp add: x' algebra_simps)
  also have "\<dots> = (cos (a * th))\<^sup>2 + (s * y)\<^sup>2" by (simp add: s(2) [symmetric] power2_eq_square)
  finally show "x * x + y * y + 2 * x * y * c = 1" by (simp add: sy)
  show "a = 0 \<Longrightarrow> x = 1 \<and> y = 0" "a = 1 \<Longrightarrow> x = 0 \<and> y = 1" using s(1) at(2) by (simp_all add: x y)
qed

text \<open>C27: Spherical interpolation between unit quaternions that are not too close keeps to the unit
  sphere, starts at \<open>p\<close>, ends at the nearer of \<open>q\<close> and \<open>- q\<close>, and turns at a constant speed: its angle
  to \<open>p\<close> is the fraction \<open>a\<close> of the whole angle.\<close>
theorem slerp_unit:
  assumes unit: "sqrlen p = 1" "sqrlen q = 1" and eps: "0 \<le> epsilon" "epsilon < 1" "\<bar>dot p q\<bar> < 1 - epsilon"
  shows "sqrlen (slerp epsilon a p q) = 1 \<and> slerp epsilon 0 p q = p \<and> slerp epsilon 1 p q = nearer p q \<and>
    dot p (slerp epsilon a p q) = cos (a * arccos \<bar>dot p q\<bar>)"
proof -
  define t where "t = nearer p q"
  define c where "c = \<bar>dot p q\<bar>"
  define s where "s = sqrt (1 - c * c)"
  define th where "th = atan2 s c"
  have t: "dot p t = c" "sqrlen t = 1" using nearer unit by (simp_all add: t_def c_def)
  have c: "0 \<le> c" "c < 1" using eps by (simp_all add: c_def)
  note w = slerp_weights [OF c s_def th_def refl refl]
  have slerp: "slerp epsilon b p q = q_add (q_scale p (sin ((1 - b) * th) / s)) (q_scale t (sin (b * th) / s))" for b
    using slerp_unit_unfold [OF unit eps(2), of b] eps(3) t(1) by (simp add: Let_def t_def [symmetric] c_def th_def s_def)
  have "sqrlen (slerp epsilon a p q) = 1" "dot p (slerp epsilon a p q) = cos (a * arccos c)"
    using w(2,3) [of a] by (simp_all only: slerp sqrlen_combination dot_combination unit t mult_1_right)
  moreover have "slerp epsilon 0 p q = p" "slerp epsilon 1 p q = t"
    unfolding slerp [of 0] slerp [of 1] using w(4) [of 0] w(5) [of 1] by (cases p; cases t; simp add: q_defs)+
  ultimately show ?thesis by (simp add: t_def c_def)
qed

theorem slerp_unit_witness:
  "sqrlen (slerp (1 / 1000) (1 / 3) quat_i quat_j) = 1 \<and> slerp (1 / 1000) 1 quat_i quat_j = quat_j"
proof -
  have "sqrlen quat_i = 1" "sqrlen quat_j = 1" "dot quat_i quat_j = 0"
    by (simp_all add: quat_i_def quat_j_def q_defs)
  then show ?thesis
    using slerp_unit [of quat_i quat_j "1 / 1000" "1 / 3"] by (simp add: nearer_def)
qed

section \<open>The algebra\<close>

text \<open>C38: The product with eight multiplications is Hamilton's product: it is associative, has
  \<open>identity\<close> as its unit, the squared length is multiplicative, \<open>conj\<close> reverses products, and the
  product with a vector is the product with the vector as a quaternion.\<close>
theorem quat_product:
  "q_mul p q = hamilton p q \<and> q_mul (q_mul p q) r = q_mul p (q_mul q r) \<and>
   q_mul quat_identity q = q \<and> q_mul q quat_identity = q \<and>
   sqrlen (q_mul p q) = sqrlen p * sqrlen q \<and> conj (q_mul p q) = q_mul (conj q) (conj p) \<and>
   q_mul_vec q v = q_mul q (quat_of_vec3 v 0) \<and> conjugate q = conj q \<and> squared_length q = sqrlen q"
proof -
  have "conjugate q = conj q" "squared_length q = sqrlen q"
    by (cases q; simp add: q_defs)+
  then show ?thesis
    by (simp add: q_mul_hamilton q_mul_vec_hamilton hamilton_assoc hamilton_identity sqrlen_hamilton conj_hamilton)
qed

lemma invert_conj:
  assumes "epsilon < sqrlen q"
  shows "invert epsilon q = (sqrlen q, q_scale (conj q) (1 / sqrlen q))"
proof -
  have "conjugate q = conj q" by (cases q) (simp add: q_defs)
  then show ?thesis using assms by (simp add: invert_def Let_def)
qed

text \<open>A quaternion whose squared length is above epsilon has the inverse \<open>inv\<close> computes, on both
  sides, and dividing by it undoes the product; \<open>invert\<close> reports it with the squared length. Any other
  quaternion is left as it is and reported with 0, so that \<open>inv\<close> hands it back and \<open>/=\<close> multiplies by
  it.\<close>
theorem quat_inverse:
  assumes "0 \<le> epsilon"
  shows "if epsilon < sqrlen q
    then q_mul q (q_inv epsilon q) = quat_identity \<and> q_mul (q_inv epsilon q) q = quat_identity \<and>
      q_div epsilon (q_mul p q) q = p \<and> q_inv_ok epsilon q = (q_inv epsilon q, True) \<and> fst (invert epsilon q) = sqrlen q
    else invert epsilon q = (0, q) \<and> q_inv_ok epsilon q = (q, False) \<and> q_div epsilon p q = q_mul p q"
proof (cases "epsilon < sqrlen q")
  case True
  have inv: "q_inv epsilon q = q_scale (conj q) (1 / sqrlen q)"
    using invert_conj [OF True] by (simp add: q_inv_def Let_def)
  have one: "q_scale (quat_new 0 0 0 (sqrlen q)) (1 / sqrlen q) = quat_identity"
    using True assms by (simp add: q_defs)
  have *: "hamilton q (q_inv epsilon q) = quat_identity" "hamilton (q_inv epsilon q) q = quat_identity"
    unfolding inv hamilton_scale hamilton_conj by (rule one)+
  have "q_div epsilon (q_mul p q) q = p"
    by (simp add: q_div_def Let_def q_mul_hamilton hamilton_assoc * hamilton_identity)
  with True assms * invert_conj [OF True] inv show ?thesis
    by (simp add: q_mul_hamilton q_inv_ok_def Let_def)
next
  case False
  then have "invert epsilon q = (0, q)" by (simp add: invert_def)
  with False show ?thesis by (simp add: q_inv_ok_def q_inv_def q_div_def Let_def)
qed

theorem quat_inverse_witness:
  "q_mul (quat_new 1 2 0 2) (q_inv (1 / 1000) (quat_new 1 2 0 2)) = quat_identity"
  using quat_inverse [of "1 / 1000" "quat_new 1 2 0 2"] by (simp add: sqrlen_def quat_new_def)

section \<open>Rotations\<close>

text \<open>The matrix of the rotation \<open>v \<mapsto> q * v * conj q\<close>, its columns the rotated axes.\<close>

definition axis :: "nat \<Rightarrow> vec3" where
  "axis j = vec3_new (of_bool (j = 0)) (of_bool (j = 1)) (of_bool (j = 2))"

definition rotation :: "quat \<Rightarrow> mat3" where
  "rotation q i j = q_data (q_mul (q_mul_vec q (axis j)) (conj q)) ! i"

lemmas rotation_defs = rotation_def axis_def vec3_new_def q_mul_hamilton q_mul_vec_hamilton q_data_def

lemma rotation_elements:
  "rotation q 0 0 = d3 q * d3 q + d0 q * d0 q - d1 q * d1 q - d2 q * d2 q"
  "rotation q 1 1 = d3 q * d3 q - d0 q * d0 q + d1 q * d1 q - d2 q * d2 q"
  "rotation q 2 2 = d3 q * d3 q - d0 q * d0 q - d1 q * d1 q + d2 q * d2 q"
  "rotation q 0 1 = 2 * (d0 q * d1 q - d2 q * d3 q)" "rotation q 1 0 = 2 * (d0 q * d1 q + d2 q * d3 q)"
  "rotation q 0 2 = 2 * (d0 q * d2 q + d1 q * d3 q)" "rotation q 2 0 = 2 * (d0 q * d2 q - d1 q * d3 q)"
  "rotation q 1 2 = 2 * (d1 q * d2 q - d0 q * d3 q)" "rotation q 2 1 = 2 * (d1 q * d2 q + d0 q * d3 q)"
  by (cases q; simp add: rotation_defs q_defs algebra_simps eval_nat_numeral)+

lemmas rotation_simps = rotation_elements rotation_elements [unfolded One_nat_def]

lemma rotation_trace:
  assumes "sqrlen q = 1"
  shows "rotation q 0 0 + rotation q 1 1 + rotation q 2 2 + 1 = (2 * d3 q)\<^sup>2"
proof -
  have "rotation q 0 0 + rotation q 1 1 + rotation q 2 2 + 1 =
      rotation q 0 0 + rotation q 1 1 + rotation q 2 2 + sqrlen q" using assms by simp
  then show ?thesis unfolding rotation_elements sqrlen_def by (simp add: power2_eq_square)
qed

text \<open>With a real part that is not too small the trace is used, and the sign is the one that makes the real
  part positive.\<close>

lemma set_rot_matrix_trace:
  assumes unit: "sqrlen q = 1" and eps: "0 \<le> epsilon" "sqrt epsilon < (2 * d3 q)\<^sup>2"
  shows "set_rot_matrix epsilon q' (rotation q) = (if 0 < d3 q then q else q_minus q)"
proof -
  have w: "d3 q \<noteq> 0" using eps by auto
  have r: "sqrt ((2 * d3 q)\<^sup>2) = 2 * \<bar>d3 q\<bar>" by (simp only: real_sqrt_abs abs_mult abs_numeral)
  have "set_rot_matrix epsilon q' (rotation q) =
      \<lparr>d0 = d0 q * (d3 q / \<bar>d3 q\<bar>), d1 = d1 q * (d3 q / \<bar>d3 q\<bar>), d2 = d2 q * (d3 q / \<bar>d3 q\<bar>), d3 = \<bar>d3 q\<bar>\<rparr>"
    unfolding set_rot_matrix_def rotation_trace [OF unit] Let_def r
    using eps(2) w by (cases q') (simp add: rotation_simps field_simps)
  then show ?thesis using w by (cases q; cases "0 < d3 q") (simp_all add: q_defs)
qed

text \<open>For half turns the real part is near 0 and the branches of the diagonal are taken. The middle one
  recovers the quaternion; the other two negate the real part.\<close>

lemma rotation_diagonal:
  assumes "sqrlen q = 1"
  shows "rotation q 0 0 + 1 - rotation q 1 1 - rotation q 2 2 = (2 * d0 q)\<^sup>2"
    "rotation q 1 1 + 1 - rotation q 0 0 - rotation q 2 2 = (2 * d1 q)\<^sup>2"
    "rotation q 2 2 + 1 - rotation q 0 0 - rotation q 1 1 = (2 * d2 q)\<^sup>2"
proof -
  have "rotation q 0 0 + sqrlen q - rotation q 1 1 - rotation q 2 2 = (2 * d0 q)\<^sup>2"
    "rotation q 1 1 + sqrlen q - rotation q 0 0 - rotation q 2 2 = (2 * d1 q)\<^sup>2"
    "rotation q 2 2 + sqrlen q - rotation q 0 0 - rotation q 1 1 = (2 * d2 q)\<^sup>2"
    unfolding rotation_elements sqrlen_def by (simp_all add: power2_eq_square)
  then show "rotation q 0 0 + 1 - rotation q 1 1 - rotation q 2 2 = (2 * d0 q)\<^sup>2"
    "rotation q 1 1 + 1 - rotation q 0 0 - rotation q 2 2 = (2 * d1 q)\<^sup>2"
    "rotation q 2 2 + 1 - rotation q 0 0 - rotation q 1 1 = (2 * d2 q)\<^sup>2"
    unfolding assms .
qed

lemma max_element_3:
  "max_element [x, y, z] = (if x < y then if y < z then 2 else 1 else if x < z then 2 else 0)"
  by (simp add: max_element_def upt_conv_Cons)

lemma set_rot_matrix_diagonal:
  assumes unit: "sqrlen q = 1" and eps: "(2 * d3 q)\<^sup>2 \<le> sqrt epsilon"
    and idx: "k = max_element [rotation q 0 0, rotation q 1 1, rotation q 2 2]" "(q_data q ! k) \<noteq> 0"
  shows "set_rot_matrix epsilon q' (rotation q) =
    (let u = quat_new (d0 q) (d1 q) (d2 q) (if k = 1 then d3 q else - d3 q)
     in if 0 < q_data q ! k then u else q_minus u)"
proof -
  have r: "sqrt ((2 * x)\<^sup>2) = 2 * \<bar>x\<bar>" for x :: real by (simp only: real_sqrt_abs abs_mult abs_numeral)
  have t: "\<not> (2 * d3 q)\<^sup>2 > sqrt epsilon" using eps by simp
  consider "k = 0" | "k = 1" | "k = 2" using idx(1) by (auto simp: max_element_3 split: if_splits)
  then show ?thesis
  proof cases
    case 1
    have "set_rot_matrix epsilon q' (rotation q) =
        \<lparr>d0 = \<bar>d0 q\<bar>, d1 = d1 q * (d0 q / \<bar>d0 q\<bar>), d2 = d2 q * (d0 q / \<bar>d0 q\<bar>), d3 = - (d3 q * (d0 q / \<bar>d0 q\<bar>))\<rparr>"
      unfolding set_rot_matrix_def rotation_trace [OF unit] Let_def idx(1) [symmetric] 1
        rotation_diagonal [OF unit] r
      using t by (cases q') (simp add: rotation_simps field_simps)
    moreover have "d0 q \<noteq> 0" using idx(2) by (simp add: 1 q_data_def)
    ultimately show ?thesis by (cases q; cases "0 < d0 q") (simp_all add: 1 q_data_def q_defs)
  next
    case 2
    have "set_rot_matrix epsilon q' (rotation q) =
        \<lparr>d0 = d0 q * (d1 q / \<bar>d1 q\<bar>), d1 = \<bar>d1 q\<bar>, d2 = d2 q * (d1 q / \<bar>d1 q\<bar>), d3 = d3 q * (d1 q / \<bar>d1 q\<bar>)\<rparr>"
      unfolding set_rot_matrix_def rotation_trace [OF unit] Let_def idx(1) [symmetric] 2
        rotation_diagonal [OF unit] r
      using t by (cases q') (simp add: rotation_simps field_simps)
    moreover have "d1 q \<noteq> 0" using idx(2) by (simp add: 2 q_data_def)
    ultimately show ?thesis by (cases q; cases "0 < d1 q") (simp_all add: 2 q_data_def q_defs)
  next
    case 3
    have "set_rot_matrix epsilon q' (rotation q) =
        \<lparr>d0 = d0 q * (d2 q / \<bar>d2 q\<bar>), d1 = d1 q * (d2 q / \<bar>d2 q\<bar>), d2 = \<bar>d2 q\<bar>, d3 = - (d3 q * (d2 q / \<bar>d2 q\<bar>))\<rparr>"
      unfolding set_rot_matrix_def rotation_trace [OF unit] Let_def idx(1) [symmetric] 3
        rotation_diagonal [OF unit] r
      using t by (cases q') (simp add: rotation_simps field_simps)
    moreover have "d2 q \<noteq> 0" using idx(2) by (simp add: 3 q_data_def)
    ultimately show ?thesis by (cases q; cases "0 < d2 q") (simp_all add: 3 q_data_def q_defs eval_nat_numeral)
  qed
qed

lemma max_element_nonzero:
  assumes unit: "sqrlen q = 1" and w: "(d3 q)\<^sup>2 < 1"
  shows "q_data q ! max_element [rotation q 0 0, rotation q 1 1, rotation q 2 2] \<noteq> 0"
proof -
  let ?a = "(d0 q)\<^sup>2" and ?b = "(d1 q)\<^sup>2" and ?c = "(d2 q)\<^sup>2"
  have s: "0 < ?a + ?b + ?c" using unit w by (simp add: sqrlen_def power2_eq_square)
  have le: "0 \<le> ?a" "0 \<le> ?b" "0 \<le> ?c" by simp_all
  have d: "rotation q 0 0 < rotation q 1 1 \<longleftrightarrow> ?a < ?b" "rotation q 1 1 < rotation q 2 2 \<longleftrightarrow> ?b < ?c"
    "rotation q 0 0 < rotation q 2 2 \<longleftrightarrow> ?a < ?c"
    unfolding rotation_elements power2_eq_square by linarith+
  consider "max_element [rotation q 0 0, rotation q 1 1, rotation q 2 2] = 0" "\<not> ?a < ?b" "\<not> ?a < ?c"
    | "max_element [rotation q 0 0, rotation q 1 1, rotation q 2 2] = 1" "?a < ?b" "\<not> ?b < ?c"
    | "max_element [rotation q 0 0, rotation q 1 1, rotation q 2 2] = 2" "?a < ?c \<or> ?b < ?c"
    unfolding max_element_3 d by (cases "?a < ?b"; cases "?b < ?c"; cases "?a < ?c") simp_all
  then show ?thesis
  proof cases
    case 1
    with s le have "0 < ?a" by linarith
    with 1 show ?thesis by (auto simp: q_data_def)
  next
    case 2
    with le have "0 < ?b" by linarith
    with 2 show ?thesis by (auto simp: q_data_def)
  next
    case 3
    with le have "0 < ?c" by linarith
    with 3 show ?thesis by (auto simp: q_data_def eval_nat_numeral)
  qed
qed

text \<open>C32: What \<open>set_rot_matrix\<close> makes of the matrix of the rotation by a unit quaternion \<open>q\<close>, in all its branches.
  When the real part is not small, it recovers \<open>q\<close> up to the sign that makes the real part positive. Near half
  turns the largest element of the diagonal decides: the branch of the second element recovers \<open>q\<close> up to the sign
  that makes the second coordinate positive; the branches of the first and of the third element give the
  coordinates of the axis with the sign that makes that coordinate positive, but with the real part negated.\<close>
theorem set_rot_matrix_roundtrip:
  assumes unit: "sqrlen q = 1" and eps: "0 \<le> epsilon" "epsilon < 16"
  shows "set_rot_matrix epsilon q' (rotation q) =
    (if sqrt epsilon < (2 * d3 q)\<^sup>2
     then if 0 < d3 q then q else q_minus q
     else
       let k = max_element [rotation q 0 0, rotation q 1 1, rotation q 2 2];
           u = (if k = 1 then q else quat_new (d0 q) (d1 q) (d2 q) (- d3 q))
       in if 0 < q_data q ! k then u else q_minus u)"
proof (cases "sqrt epsilon < (2 * d3 q)\<^sup>2")
  case True
  then show ?thesis using set_rot_matrix_trace [OF unit eps(1)] by simp
next
  case False
  have "sqrt epsilon < sqrt (4\<^sup>2)" using eps(2) by (intro real_sqrt_less_mono) simp
  then have "(2 * d3 q)\<^sup>2 < 4" using False by simp
  then have "(d3 q)\<^sup>2 < 1" by (simp add: power_mult_distrib)
  note D = set_rot_matrix_diagonal [OF unit _ refl max_element_nonzero [OF unit this]]
  have "quat_new (d0 q) (d1 q) (d2 q) (d3 q) = q" by (cases q) (simp add: quat_new_def)
  with False D show ?thesis by (auto simp: Let_def)
qed

theorem set_rot_matrix_roundtrip_witness:
  "set_rot_matrix (1 / 10000) quat_zero (rotation (quat_new (3 / 5) 0 0 (4 / 5))) = quat_new (3 / 5) 0 0 (4 / 5) \<and>
   set_rot_matrix (1 / 10000) quat_zero (rotation (quat_new 0 (- 1) 0 0)) = quat_new 0 1 0 0"
proof -
  have "sqrt (1 / 10000) = sqrt ((1 / 100)\<^sup>2)" by (simp add: power2_eq_square)
  then have "sqrt (1 / 10000) = 1 / 100" by simp
  then show ?thesis
    using set_rot_matrix_roundtrip [of "quat_new (3 / 5) 0 0 (4 / 5)" "1 / 10000" quat_zero]
      set_rot_matrix_roundtrip [of "quat_new 0 (- 1) 0 0" "1 / 10000" quat_zero]
    by (simp add: sqrlen_def quat_new_def power2_eq_square rotation_simps max_element_3 q_data_def q_minus_def)
qed

text \<open>Near half turns \<open>set_rot_matrix\<close> takes the wrong sign: for a rotation whose real part is
  small but not 0 and whose axis is closest to the first coordinate axis, the quaternion it yields is
  neither \<open>q\<close> nor \<open>- q\<close>; its real part is negated, which is the inverse turn.\<close>
theorem set_rot_matrix_wrong_sign:
  assumes "sqrlen q = 1" "(2 * d3 q)\<^sup>2 \<le> sqrt epsilon" "d3 q \<noteq> 0" "0 < d0 q"
    "rotation q 1 1 \<le> rotation q 0 0" "rotation q 2 2 \<le> rotation q 0 0"
  shows "set_rot_matrix epsilon q' (rotation q) = quat_new (d0 q) (d1 q) (d2 q) (- d3 q) \<and>
    set_rot_matrix epsilon q' (rotation q) \<noteq> q \<and> set_rot_matrix epsilon q' (rotation q) \<noteq> q_minus q"
proof -
  have "max_element [rotation q 0 0, rotation q 1 1, rotation q 2 2] = 0"
    using assms(5,6) by (simp add: max_element_3)
  then have "set_rot_matrix epsilon q' (rotation q) = quat_new (d0 q) (d1 q) (d2 q) (- d3 q)"
    using set_rot_matrix_diagonal [OF assms(1,2), of 0 q'] assms(4) by (simp add: q_data_def)
  then show ?thesis using assms(3,4) by (cases q) (simp add: q_defs)
qed

theorem set_rot_matrix_wrong_sign_witness:
  "set_rot_matrix 16 quat_zero (rotation (quat_new (4 / 5) 0 0 (3 / 5))) = quat_new (4 / 5) 0 0 (- 3 / 5)"
  using set_rot_matrix_wrong_sign [of "quat_new (4 / 5) 0 0 (3 / 5)" 16 quat_zero]
  by (simp add: sqrlen_def quat_new_def power2_eq_square rotation_simps)

section \<open>The product of three quaternions\<close>

text \<open>\<open>cross\<close> of three quaternions is not orthogonal to its arguments, which \<open>normal\<close> needs: the
  signs of the second and of the fourth element are wrong. With them alternated it would be.\<close>
theorem cross3_not_orthogonal:
  "(\<exists>q0 q1 q2. dot (cross3 q0 q1 q2) q0 \<noteq> 0) \<and>
   (let r = cross3 p q s; r' = quat_new (d0 r) (- d1 r) (d2 r) (- d3 r)
    in dot r' p = 0 \<and> dot r' q = 0 \<and> dot r' s = 0)"
proof
  have "dot (cross3 (quat_new 1 1 0 0) quat_k quat_unit) (quat_new 1 1 0 0) = 2"
    by (simp add: cross3_def quat_k_def quat_unit_def q_defs)
  then have "dot (cross3 (quat_new 1 1 0 0) quat_k quat_unit) (quat_new 1 1 0 0) \<noteq> 0" by simp
  then show "\<exists>q0 q1 q2. dot (cross3 q0 q1 q2) q0 \<noteq> 0" by blast
  show "let r = cross3 p q s; r' = quat_new (d0 r) (- d1 r) (d2 r) (- d3 r)
    in dot r' p = 0 \<and> dot r' q = 0 \<and> dot r' s = 0"
    by (cases p; cases q; cases s) (simp add: cross3_def q_defs Let_def algebra_simps)
qed

text \<open>A scalar minus a quaternion is computed as the quaternion minus the scalar.\<close>

theorem scalar_minus_quat:
  "q_op_scalar_type q_sub_scalar a q = q_op_type_scalar q_sub_scalar q a"
  by (simp add: q_op_scalar_type_def q_op_type_scalar_def)

text \<open>The largest absolute value.\<close>

lemma min_max_element:
  "q_min q = min (min (min (d0 q) (d1 q)) (d2 q)) (d3 q)" "q_max q = max (max (max (d0 q) (d1 q)) (d2 q)) (d3 q)"
  by (simp_all add: q_min_def q_max_def q_data_def min_element_def max_element_def upt_conv_Cons min_def max_def)

theorem q_absmax_correct: "q_absmax q = Max {\<bar>d0 q\<bar>, \<bar>d1 q\<bar>, \<bar>d2 q\<bar>, \<bar>d3 q\<bar>}"
  by (simp add: q_absmax_def Let_def min_max_element max_def min_def abs_real_def)

end
