(* ===== verification/Zi_Matching.thy ===== *)
theory Zi_Matching
  imports Zi_Prelude "HOL-Library.Product_Lexorder"
begin

text \<open>
  \<^verbatim>\<open>zi/graph/bipartite_matching.hpp\<close>: Hopcroft and Karp's maximum matching of a bipartite graph given
  by its edges. Vertices are numbered from 1, the left ones first; 0 is \<open>nil\<close>. Numbers and distances
  are natural numbers, with the \<open>inf\<close> of the code; the theorems assume that the graph is small enough
  for the distances to stay below it.
\<close>

section \<open>The class\<close>

record ('l, 'r) hopcroft_karp_impl =
  hk_e :: "(nat \<times> nat) list"
  hk_vl :: "'l \<rightharpoonup> nat"
  hk_vl_size :: nat
  hk_vr :: "'r \<rightharpoonup> nat"
  hk_vr_size :: nat
  hk_pair :: "nat list"
  hk_dist :: "nat list"

definition hk_inf :: nat where
  "hk_inf = 0x7fffffff"

abbreviation (input) hk_nil :: nat where
  "hk_nil \<equiv> 0"

text \<open>The two loops of the constructor: \<open>tot\<close> counts the vertices of both sides.\<close>

definition hk_number :: "'v \<Rightarrow> ('v \<rightharpoonup> nat) \<times> nat \<Rightarrow> ('v \<rightharpoonup> nat) \<times> nat" where
  "hk_number v = (\<lambda>(m, tot). if m v = None then (m(v \<mapsto> Suc tot), Suc tot) else (m, tot))"

definition hk_left :: "('l \<times> 'r) list \<Rightarrow> ('l \<rightharpoonup> nat) \<times> nat" where
  "hk_left edges = fold (\<lambda>it. hk_number (fst it)) edges (Map.empty, 0)"

definition hk_right :: "('l \<rightharpoonup> nat) \<Rightarrow> nat \<Rightarrow> ('l \<times> 'r) list \<Rightarrow> (('r \<rightharpoonup> nat) \<times> nat) \<times> (nat \<times> nat) list" where
  "hk_right vl tot edges =
     fold (\<lambda>it (vr, e). let vr = hk_number (snd it) vr in (vr, e @ [(the (vl (fst it)), the (fst vr (snd it)))]))
       edges ((Map.empty, tot), [])"

definition hk_new :: "('l \<times> 'r) list \<Rightarrow> ('l, 'r) hopcroft_karp_impl" where
  "hk_new edges =
     (let (vl, nl) = hk_left edges;
          ((vr, tot), e) = hk_right vl nl edges
      in \<lparr>hk_e = sort e, hk_vl = vl, hk_vl_size = nl, hk_vr = vr, hk_vr_size = tot - nl,
          hk_pair = replicate (nl + (tot - nl) + 1) hk_nil, hk_dist = replicate (nl + 1) 0\<rparr>)"

text \<open>The edges of \<open>v\<close>: from \<open>upper_bound\<close> of \<open>( v, 0 )\<close> while the first number is \<open>v\<close>.\<close>

definition edges_of :: "(nat \<times> nat) list \<Rightarrow> nat \<Rightarrow> (nat \<times> nat) list" where
  "edges_of e v = takeWhile (\<lambda>it. fst it = v) (dropWhile (\<lambda>it. it \<le> (v, 0)) e)"

section \<open>The breadth-first phase\<close>

definition bfs_init :: "nat list \<Rightarrow> nat \<Rightarrow> nat list \<Rightarrow> nat list \<times> nat list" where
  "bfs_init pair n dist =
     fold (\<lambda>v (dist, queue). if pair ! v = hk_nil then (dist[v := 0], queue @ [v]) else (dist[v := hk_inf], queue))
       [1..<n + 1] (dist, [])"

definition bfs_visit :: "nat list \<Rightarrow> nat \<Rightarrow> (nat \<times> nat) list \<Rightarrow> nat list \<times> nat list \<Rightarrow> nat list \<times> nat list" where
  "bfs_visit pair v es =
     fold (\<lambda>it (dist, queue).
         if dist ! (pair ! snd it) = hk_inf
         then (dist[pair ! snd it := dist ! v + 1], queue @ [pair ! snd it]) else (dist, queue)) es"

partial_function (option) bfs_loop :: "(nat \<times> nat) list \<Rightarrow> nat list \<Rightarrow> nat list \<times> nat list \<Rightarrow> nat list option" where
  "bfs_loop e pair s =
     (case s of (dist, queue) \<Rightarrow>
        (case queue of
           [] \<Rightarrow> Some dist
         | v # queue \<Rightarrow>
             bfs_loop e pair
               (if v \<noteq> hk_nil then bfs_visit pair v (edges_of e v) (dist, queue) else (dist, queue))))"

definition hk_bfs :: "(nat \<times> nat) list \<Rightarrow> nat \<Rightarrow> nat list \<Rightarrow> nat list \<Rightarrow> (bool \<times> nat list) option" where
  "hk_bfs e n pair dist =
     (let (dist, queue) = bfs_init pair n dist;
          dist = dist[hk_nil := hk_inf]
      in do { dist \<leftarrow> bfs_loop e pair (dist, queue); Some (dist ! hk_nil \<noteq> hk_inf, dist) })"

section \<open>The depth-first phase\<close>

text \<open>\<open>dfs( v )\<close> with the edges of \<open>v\<close> that its loop has left.\<close>

partial_function (option) dfs_loop ::
  "(nat \<times> nat) list \<Rightarrow> nat \<Rightarrow> (nat \<times> nat) list \<Rightarrow> nat list \<times> nat list \<Rightarrow> (bool \<times> nat list \<times> nat list) option" where
  "dfs_loop e v es s =
     (if v \<noteq> hk_nil
      then
        case es of
          [] \<Rightarrow> Some (False, fst s, (snd s)[v := hk_inf])
        | it # es \<Rightarrow>
            if snd s ! (fst s ! snd it) = snd s ! v + 1
            then
              do {
                r \<leftarrow> dfs_loop e (fst s ! snd it) (edges_of e (fst s ! snd it)) s;
                (case r of (found, pair, dist) \<Rightarrow>
                   if found then Some (True, pair[snd it := v, v := snd it], dist)
                   else dfs_loop e v es (pair, dist))
              }
            else dfs_loop e v es s
      else Some (True, s))"

definition hk_dfs :: "(nat \<times> nat) list \<Rightarrow> nat \<Rightarrow> nat list \<times> nat list \<Rightarrow> (bool \<times> nat list \<times> nat list) option" where
  "hk_dfs e v s = dfs_loop e v (edges_of e v) s"

section \<open>The phases\<close>

fun hk_round :: "(nat \<times> nat) list \<Rightarrow> nat list \<Rightarrow> nat \<Rightarrow> nat list \<times> nat list \<Rightarrow> (nat \<times> nat list \<times> nat list) option" where
  "hk_round e [] matching s = Some (matching, s)"
| "hk_round e (v # vs) matching s =
     (case s of (pair, dist) \<Rightarrow>
        if pair ! v = hk_nil
        then do { (found, s) \<leftarrow> hk_dfs e v (pair, dist); hk_round e vs (if found then Suc matching else matching) s }
        else hk_round e vs matching s)"

partial_function (option) hk_phases ::
  "(nat \<times> nat) list \<Rightarrow> nat \<Rightarrow> nat \<Rightarrow> nat list \<times> nat list \<Rightarrow> (nat \<times> nat list \<times> nat list) option" where
  "hk_phases e n matching s =
     do {
       r \<leftarrow> hk_bfs e n (fst s) (snd s);
       (if fst r
        then do { t \<leftarrow> hk_round e [1..<n + 1] matching (fst s, snd r); hk_phases e n (fst t) (snd t) }
        else Some (matching, fst s, snd r))
     }"

definition hk_execute :: "('l, 'r) hopcroft_karp_impl \<Rightarrow> (nat \<times> bool list \<times> ('l, 'r) hopcroft_karp_impl) option" where
  "hk_execute h =
     do {
       (matching, pair, dist) \<leftarrow> hk_phases (hk_e h) (hk_vl_size h) 0 (hk_pair h, hk_dist h);
       Some (matching, map (\<lambda>it. pair ! fst it = snd it) (hk_e h), h\<lparr>hk_pair := pair, hk_dist := dist\<rparr>)
     }"

definition hopcroft_karp :: "('l \<times> 'r) list \<Rightarrow> (nat \<times> bool list) option" where
  "hopcroft_karp edges = do { (matching, res, h) \<leftarrow> hk_execute (hk_new edges); Some (matching, res) }"

section \<open>Graphs and matchings\<close>

text \<open>What the constructor sets up: \<open>n\<close> left vertices, right ones up to \<open>m\<close>, sorted edges.\<close>

definition hk_graph :: "(nat \<times> nat) list \<Rightarrow> nat \<Rightarrow> nat \<Rightarrow> bool" where
  "hk_graph e n m \<longleftrightarrow> sorted e \<and> n + 1 < hk_inf \<and> (\<forall>(v, u) \<in> set e. 1 \<le> v \<and> v \<le> n \<and> n < u \<and> u \<le> m)"

text \<open>\<open>pair_\<close> is a matching: partners point at each other, along an edge; \<open>nil\<close> has none.\<close>

definition hk_valid :: "(nat \<times> nat) list \<Rightarrow> nat \<Rightarrow> nat \<Rightarrow> nat list \<Rightarrow> bool" where
  "hk_valid e n m p \<longleftrightarrow> length p = m + 1 \<and> n \<le> m \<and> p ! 0 = 0 \<and>
     (\<forall>v. 1 \<le> v \<and> v \<le> n \<and> p ! v \<noteq> 0 \<longrightarrow> (v, p ! v) \<in> set e \<and> p ! (p ! v) = v) \<and>
     (\<forall>u. n < u \<and> u \<le> m \<and> p ! u \<noteq> 0 \<longrightarrow> (p ! u, u) \<in> set e \<and> p ! (p ! u) = u)"

definition matched :: "nat \<Rightarrow> nat list \<Rightarrow> nat set" where
  "matched n p = {v. 1 \<le> v \<and> v \<le> n \<and> p ! v \<noteq> 0}"

lemma hk_graphD:
  assumes "hk_graph e n m" "(v, u) \<in> set e"
  shows "1 \<le> v" "v \<le> n" "n < u" "u \<le> m"
  using assms by (auto simp: hk_graph_def)

lemma hk_validD:
  assumes "hk_graph e n m" "hk_valid e n m p"
  shows "length p = m + 1" "n \<le> m" "p ! 0 = 0"
    and left: "1 \<le> v \<Longrightarrow> v \<le> n \<Longrightarrow> p ! v \<noteq> 0 \<Longrightarrow> (v, p ! v) \<in> set e \<and> p ! (p ! v) = v \<and> n < p ! v \<and> p ! v \<le> m"
    and right: "n < u \<Longrightarrow> u \<le> m \<Longrightarrow> p ! u \<noteq> 0 \<Longrightarrow> (p ! u, u) \<in> set e \<and> p ! (p ! u) = u \<and> 1 \<le> p ! u \<and> p ! u \<le> n"
proof -
  show "length p = m + 1" "n \<le> m" "p ! 0 = 0" using assms(2) by (simp_all add: hk_valid_def)
  show "(v, p ! v) \<in> set e \<and> p ! (p ! v) = v \<and> n < p ! v \<and> p ! v \<le> m" if "1 \<le> v" "v \<le> n" "p ! v \<noteq> 0" for v
  proof -
    have "(v, p ! v) \<in> set e" "p ! (p ! v) = v" using assms(2) that unfolding hk_valid_def by blast+
    with hk_graphD [OF assms(1) this(1)] show ?thesis by simp
  qed
  show "(p ! u, u) \<in> set e \<and> p ! (p ! u) = u \<and> 1 \<le> p ! u \<and> p ! u \<le> n" if "n < u" "u \<le> m" "p ! u \<noteq> 0" for u
  proof -
    have "(p ! u, u) \<in> set e" "p ! (p ! u) = u" using assms(2) that unfolding hk_valid_def by blast+
    with hk_graphD [OF assms(1) this(1)] show ?thesis by simp
  qed
qed

lemma partner_le:
  assumes "hk_graph e n m" "hk_valid e n m p" "(v, u) \<in> set e"
  shows "p ! u \<le> n"
  using hk_validD(5) [OF assms(1,2), of u] hk_graphD [OF assms(1,3)] by (cases "p ! u = 0") auto

lemma set_edges_of:
  assumes "hk_graph e n m" "1 \<le> v"
  shows "set (edges_of e v) = {it \<in> set e. fst it = v}"
proof -
  have s: "sorted e" and pos: "(a, b) \<in> set e \<Longrightarrow> 0 < b" for a b
    using assms(1) by (auto simp: hk_graph_def)
  let ?r = "dropWhile (\<lambda>it. it \<le> (v, 0)) e"
  have r: "it \<in> set ?r \<longleftrightarrow> it \<in> set e \<and> \<not> it \<le> (v, 0)" for it
    using s
  proof (induction e)
    case (Cons a e)
    show ?case
    proof (cases "a \<le> (v, 0)")
      case True
      with Cons show ?thesis by auto
    next
      case False
      have "\<not> b \<le> (v, 0)" if b: "b \<in> set e" for b
      proof
        assume "b \<le> (v, 0)"
        moreover have "a \<le> b" using Cons.prems b by simp
        ultimately show False using False by (blast dest: order_trans)
      qed
      then have "it \<in> set e \<Longrightarrow> \<not> it \<le> (v, 0)" by blast
      then show ?thesis using False by (cases "it = a"; cases "it \<in> set e") (simp_all del: less_eq_prod_simp)
    qed
  qed simp
  have "sorted ?r" using s by (rule sorted_dropWhile)
  moreover have "\<forall>it \<in> set ?r. v \<le> fst it" using r by (auto simp: less_eq_prod_def)
  ultimately have "it \<in> set (takeWhile (\<lambda>it. fst it = v) ?r) \<longleftrightarrow> it \<in> set ?r \<and> fst it = v" for it
  proof (induction ?r)
    case Nil
    then show ?case by simp
  next
    case (Cons a x)
    have "it \<in> set (takeWhile (\<lambda>it. fst it = v) y) \<longleftrightarrow> it \<in> set y \<and> fst it = v"
      if "sorted y" "\<forall>it \<in> set y. v \<le> fst it" for y :: "(nat \<times> nat) list"
      using that
    proof (induction y)
      case (Cons b y)
      show ?case
      proof (cases "fst b = v")
        case True
        with Cons show ?thesis by auto
      next
        case False
        with Cons.prems have "v < fst b" by auto
        then have "fst c \<noteq> v" if "c \<in> set y" for c
          using Cons.prems(1) that by (fastforce simp: less_eq_prod_def)
        from this [of it] show ?thesis using False by (cases "it = b"; cases "it \<in> set y") auto
      qed
    qed simp
    with Cons.prems show ?case by blast
  qed
  moreover have "it \<in> set e \<and> fst it = v \<Longrightarrow> \<not> it \<le> (v, 0)" for it
    using pos [of "fst it" "snd it"] by (auto simp: less_eq_prod_def)
  ultimately show ?thesis using r by (auto simp: edges_of_def)
qed

text \<open>One edge turned: \<open>v\<close> gets a free right vertex, its old partner becomes free.\<close>

lemma hk_valid_turn:
  assumes g: "hk_graph e n m" and p: "hk_valid e n m p" and vu: "(v, u) \<in> set e" and free: "p ! u = 0"
  shows "hk_valid e n m (p[u := v, v := u, p ! v := 0])"
proof -
  note V = hk_validD [OF g p]
  note vu' = hk_graphD [OF g vu]
  let ?q = "p[u := v, v := u, p ! v := 0]"
  have old: "p ! v = 0 \<or> n < p ! v \<and> p ! v \<le> m \<and> p ! (p ! v) = v" using V(4) [of v] vu' by auto
  then have ne: "p ! v \<noteq> u" "p ! v \<noteq> v" using free vu' by auto
  have nth: "?q ! x = (if x = p ! v then 0 else if x = v then u else if x = u then v else p ! x)" if "x \<le> m" for x
    using that V(1) vu' by (auto simp: nth_list_update)
  have L: "(x, ?q ! x) \<in> set e \<and> ?q ! (?q ! x) = x" if x: "1 \<le> x" "x \<le> n" "?q ! x \<noteq> 0" for x
  proof (cases "x = v")
    case True
    then show ?thesis using nth [of v] nth [of u] vu vu' ne V(2) by auto
  next
    case False
    have xm: "x \<le> m" using x V(2) by simp
    have "x \<noteq> p ! v"
    proof
      assume "x = p ! v"
      then have "?q ! x = 0" using nth [OF xm] by simp
      with x(3) show False by simp
    qed
    then have px: "?q ! x = p ! x" using nth [OF xm] False x vu' by auto
    then have a: "(x, p ! x) \<in> set e" "p ! (p ! x) = x" "n < p ! x" "p ! x \<le> m" using V(4) [OF x(1,2)] x(3) [unfolded px] by simp_all
    have "p ! x \<noteq> p ! v"
    proof
      assume eq: "p ! x = p ! v"
      then have "p ! (p ! v) = x" using a(2) by simp
      then show False using old False a(3) eq by auto
    qed
    moreover have "p ! x \<noteq> u" using a(2) free x by auto
    moreover have "p ! x \<noteq> v" using a(3) vu' by auto
    ultimately show ?thesis unfolding px using nth [OF a(4)] a by simp
  qed
  have R: "(?q ! y, y) \<in> set e \<and> ?q ! (?q ! y) = y" if y: "n < y" "y \<le> m" "?q ! y \<noteq> 0" for y
  proof (cases "y = u")
    case True
    then show ?thesis using nth [of v] nth [of u] vu vu' ne V(2) by auto
  next
    case False
    have "y \<noteq> p ! v"
    proof
      assume "y = p ! v"
      then have "?q ! y = 0" using nth [OF y(2)] by simp
      with y(3) show False by simp
    qed
    then have py: "?q ! y = p ! y" using nth [OF y(2)] False y vu' by auto
    then have a: "(p ! y, y) \<in> set e" "p ! (p ! y) = y" "1 \<le> p ! y" "p ! y \<le> n" using V(5) [OF y(1,2)] y(3) [unfolded py] by simp_all
    have "p ! y \<noteq> v" using a(2) \<open>y \<noteq> p ! v\<close> by auto
    moreover have "p ! y \<noteq> u" using a(4) vu' by auto
    moreover have "p ! y \<noteq> p ! v"
    proof
      assume "p ! y = p ! v"
      with a(3,4) old show False by auto
    qed
    ultimately show ?thesis unfolding py using nth [of "p ! y"] a V(2) by simp
  qed
  have "?q ! 0 = 0" using nth [of 0] V(3) vu' by auto
  then show ?thesis unfolding hk_valid_def using L R V(1,2) by simp
qed

section \<open>The breadth-first phase\<close>

text \<open>The number of entries still at \<open>inf\<close>; it pays for the queue.\<close>

definition unseen :: "nat \<Rightarrow> nat list \<Rightarrow> nat set" where
  "unseen n d = {x. x \<le> n \<and> d ! x = hk_inf}"

text \<open>The distances during the search: the free vertices are at 0, any other vertex that was seen (and
  \<open>nil\<close>) has a predecessor one step closer; the edges of a vertex that left the queue have been looked
  at, but for the vertices in \<open>X\<close>; distances are smaller than the number of vertices seen.\<close>

definition bfs_inv :: "(nat \<times> nat) list \<Rightarrow> nat \<Rightarrow> nat list \<Rightarrow> nat set \<Rightarrow> nat list \<Rightarrow> nat list \<Rightarrow> bool" where
  "bfs_inv e n p X d q \<longleftrightarrow> length d = n + 1 \<and>
     (\<forall>x \<in> set q. x \<le> n \<and> d ! x \<noteq> hk_inf) \<and>
     (\<forall>v. 1 \<le> v \<and> v \<le> n \<and> p ! v = 0 \<longrightarrow> d ! v = 0) \<and>
     (\<forall>w. w \<le> n \<and> d ! w \<noteq> hk_inf \<and> (w = 0 \<or> p ! w \<noteq> 0) \<longrightarrow>
        (\<exists>v u. (v, u) \<in> set e \<and> p ! u = w \<and> d ! w = d ! v + 1 \<and> d ! v \<noteq> hk_inf)) \<and>
     (\<forall>v u. (v, u) \<in> set e \<and> d ! v \<noteq> hk_inf \<and> v \<notin> set q \<union> X \<longrightarrow> d ! (p ! u) \<noteq> hk_inf) \<and>
     (\<forall>w. w \<le> n \<and> d ! w \<noteq> hk_inf \<longrightarrow> d ! w + card (unseen n d) < n + 1)"

lemma finite_unseen [simp]: "finite (unseen n d)"
  by (simp add: unseen_def)

lemma bfs_init_ok:
  assumes "length d = n + 1"
  shows "bfs_init p n d = (map (\<lambda>v. if v = 0 then d ! 0 else if p ! v = 0 then 0 else hk_inf) [0..<n + 1],
    filter (\<lambda>v. p ! v = 0) [1..<n + 1])"
proof -
  have "k \<le> n \<Longrightarrow> fold (\<lambda>v (dist, queue). if p ! v = 0 then (dist[v := 0], queue @ [v]) else (dist[v := hk_inf], queue))
      [1..<k + 1] (d, []) =
    (map (\<lambda>v. if v = 0 \<or> k < v then d ! v else if p ! v = 0 then 0 else hk_inf) [0..<n + 1],
     filter (\<lambda>v. p ! v = 0) [1..<k + 1])" for k
  proof (induction k)
    case 0
    have "map (\<lambda>v. if v = 0 \<or> 0 < v then d ! v else if p ! v = 0 then 0 else hk_inf) [0..<n + 1] = d"
      using assms by (intro nth_equalityI) (auto simp del: upt_Suc)
    then show ?case by (simp del: upt_Suc)
  next
    case (Suc k)
    let ?f = "\<lambda>k v. if v = 0 \<or> k < v then d ! v else if p ! v = 0 then 0 else hk_inf"
    have "(map (?f k) [0..<n + 1])[Suc k := if p ! Suc k = 0 then 0 else hk_inf] = map (?f (Suc k)) [0..<n + 1]"
      using Suc.prems by (intro nth_equalityI) (auto simp: nth_list_update simp del: upt_Suc)
    moreover have "[1..<Suc k + 1] = [1..<k + 1] @ [Suc k]" by simp
    ultimately show ?case using Suc by (simp del: upt_Suc split: if_splits)
  qed
  from this [of n] show ?thesis
    by (simp add: bfs_init_def del: upt_Suc cong: map_cong)
qed

lemma bfs_start:
  assumes g: "hk_graph e n m" and p: "hk_valid e n m p" and d: "length d = n + 1"
  shows "\<exists>d' q. bfs_init p n d = (d', q) \<and> bfs_inv e n p {} (d'[0 := hk_inf]) q"
proof -
  let ?f = "\<lambda>v. if v = 0 then d ! 0 else if p ! v = 0 then 0 else hk_inf"
  define d' where "d' = map ?f [0..<n + 1]"
  define q where "q = filter (\<lambda>v. p ! v = 0) [1..<n + 1]"
  define d1 where "d1 = d'[0 := hk_inf]"
  have len: "length d1 = n + 1" by (simp add: d1_def d'_def)
  have nth: "d1 ! v = (if v \<noteq> 0 \<and> p ! v = 0 then 0 else hk_inf)" if "v \<le> n" for v
    using that by (auto simp: d1_def d'_def nth_list_update simp del: upt_Suc)
  have q: "x \<in> set q \<longleftrightarrow> 1 \<le> x \<and> x \<le> n \<and> p ! x = 0" for x by (auto simp: q_def)
  have inf: "hk_inf \<noteq> 0" by (simp add: hk_inf_def)
  have card: "d1 ! w + card (unseen n d1) < n + 1" if "w \<le> n" "d1 ! w \<noteq> hk_inf" for w
  proof -
    have "unseen n d1 \<subseteq> {..n} - {w}" using that by (auto simp: unseen_def)
    then have "card (unseen n d1) \<le> card ({..n} - {w})" by (intro card_mono) auto
    also have "\<dots> < n + 1" using that(1) by (simp add: card_Diff_singleton)
    finally show ?thesis using nth [OF that(1)] that(2) by (simp split: if_splits)
  qed
  have "bfs_inv e n p {} d1 q"
    unfolding bfs_inv_def
  proof (intro conjI allI impI ballI; (elim conjE)?)
    show "length d1 = n + 1" by (rule len)
  next
    fix x assume "x \<in> set q"
    then show "x \<le> n" "d1 ! x \<noteq> hk_inf" using q nth inf by auto
  next
    fix v assume "1 \<le> v" "v \<le> n" "p ! v = 0"
    then show "d1 ! v = 0" using nth by simp
  next
    fix w assume "w \<le> n" "d1 ! w \<noteq> hk_inf" "w = 0 \<or> p ! w \<noteq> 0"
    then show "\<exists>v u. (v, u) \<in> set e \<and> p ! u = w \<and> d1 ! w = d1 ! v + 1 \<and> d1 ! v \<noteq> hk_inf"
      using nth [of w] by auto
  next
    fix v u assume vu: "(v, u) \<in> set e" "d1 ! v \<noteq> hk_inf" "v \<notin> set q \<union> {}"
    then show "d1 ! (p ! u) \<noteq> hk_inf" using hk_graphD [OF g vu(1)] nth [of v] q [of v] by (auto split: if_splits)
  qed (rule card)
  then show ?thesis using bfs_init_ok [OF d, of p] by (simp add: d1_def d'_def q_def)
qed

text \<open>One edge of the vertex that was taken from the queue.\<close>

lemma bfs_visit_step:
  assumes g: "hk_graph e n m" and p: "hk_valid e n m p" and inv: "bfs_inv e n p X d q"
    and vu: "(v, u) \<in> set e" and dv: "d ! v \<noteq> hk_inf" and new: "d ! (p ! u) = hk_inf"
  shows "bfs_inv e n p X (d[p ! u := d ! v + 1]) (q @ [p ! u])"
    "d ! v + 1 \<noteq> hk_inf" "card (unseen n (d[p ! u := d ! v + 1])) + 1 = card (unseen n d)"
proof -
  let ?w = "p ! u" and ?d = "d[p ! u := d ! v + 1]"
  have w: "?w \<le> n" by (rule partner_le [OF g p vu])
  note vu' = hk_graphD [OF g vu]
  have len: "length d = n + 1" using inv by (simp add: bfs_inv_def)
  have small: "d ! v + card (unseen n d) < n + 1" using inv dv vu' by (simp add: bfs_inv_def)
  have "?w \<in> unseen n d" using w new by (simp add: unseen_def)
  then have c: "0 < card (unseen n d)" by (auto simp: card_gt_0_iff)
  then have "d ! v + 1 < n + 1" using small by simp
  then show inf: "d ! v + 1 \<noteq> hk_inf" using g by (simp add: hk_graph_def)
  have nth: "?d ! x = (if x = ?w then d ! v + 1 else d ! x)" if "x \<le> n" for x
    using that len by (simp add: nth_list_update)
  have un: "unseen n ?d = unseen n d - {?w}" using nth inf by (auto simp: unseen_def split: if_splits)
  show c': "card (unseen n ?d) + 1 = card (unseen n d)"
    unfolding un using \<open>?w \<in> unseen n d\<close> c by (simp add: card_Diff_singleton)
  have vw: "v \<noteq> ?w" using dv new by auto
  show "bfs_inv e n p X ?d (q @ [?w])"
    unfolding bfs_inv_def
  proof (intro conjI allI impI ballI; (elim conjE)?)
    show "length ?d = n + 1" using len by simp
  next
    fix x assume "x \<in> set (q @ [?w])"
    then show "x \<le> n" "?d ! x \<noteq> hk_inf" using inv w inf nth [of x] by (auto simp: bfs_inv_def split: if_splits)
  next
    fix x assume x: "1 \<le> x" "x \<le> n" "p ! x = 0"
    then have "d ! x = 0" using inv by (simp add: bfs_inv_def)
    then have "x \<noteq> ?w" using new by (auto simp: hk_inf_def)
    with nth [OF x(2)] \<open>d ! x = 0\<close> show "?d ! x = 0" by simp
  next
    fix x assume x: "x \<le> n" "?d ! x \<noteq> hk_inf" "x = 0 \<or> p ! x \<noteq> 0"
    show "\<exists>v u. (v, u) \<in> set e \<and> p ! u = x \<and> ?d ! x = ?d ! v + 1 \<and> ?d ! v \<noteq> hk_inf"
    proof (cases "x = ?w")
      case True
      then show ?thesis using vu nth [of v] nth [OF w] vw dv vu' by (intro exI [of _ v] exI [of _ u]) simp
    next
      case False
      then have "d ! x \<noteq> hk_inf" using x nth by simp
      then obtain a b where ab: "(a, b) \<in> set e" "p ! b = x" "d ! x = d ! a + 1" "d ! a \<noteq> hk_inf"
        using inv x(1,3) by (auto simp: bfs_inv_def)
      moreover have "a \<noteq> ?w" using ab(4) new by auto
      ultimately show ?thesis
        using nth [OF x(1)] nth [of a] False hk_graphD [OF g ab(1)] by (intro exI [of _ a] exI [of _ b]) simp
    qed
  next
    fix a b assume ab: "(a, b) \<in> set e" "?d ! a \<noteq> hk_inf" "a \<notin> set (q @ [?w]) \<union> X"
    then have "a \<noteq> ?w" by simp
    then have "d ! a \<noteq> hk_inf" using ab(2) nth [of a] hk_graphD [OF g ab(1)] by simp
    then have "d ! (p ! b) \<noteq> hk_inf" using inv ab by (auto simp: bfs_inv_def)
    then show "?d ! (p ! b) \<noteq> hk_inf" using nth [OF partner_le [OF g p ab(1)]] inf by simp
  next
    fix x assume x: "x \<le> n" "?d ! x \<noteq> hk_inf"
    show "?d ! x + card (unseen n ?d) < n + 1"
    proof (cases "x = ?w")
      case True
      then show ?thesis using nth [OF x(1)] small c' by simp
    next
      case False
      then have "d ! x + card (unseen n d) < n + 1" using inv x nth [OF x(1)] by (simp add: bfs_inv_def)
      with False nth [OF x(1)] c' show ?thesis by simp
    qed
  qed
qed

lemma bfs_visit_ok:
  assumes g: "hk_graph e n m" and p: "hk_valid e n m p"
  shows "bfs_inv e n p X d q \<Longrightarrow> set es \<subseteq> {it \<in> set e. fst it = v} \<Longrightarrow> d ! v \<noteq> hk_inf \<Longrightarrow>
    \<exists>d' q'. bfs_visit p v es (d, q) = (d', q') \<and> bfs_inv e n p X d' q' \<and>
      (\<forall>x. d ! x \<noteq> hk_inf \<longrightarrow> d' ! x = d ! x) \<and> (\<forall>it \<in> set es. d' ! (p ! snd it) \<noteq> hk_inf) \<and>
      length q' + card (unseen n d') = length q + card (unseen n d)"
proof (induction es arbitrary: d q)
  case Nil
  then show ?case by (simp add: bfs_visit_def)
next
  case (Cons it es)
  obtain u where it: "it = (v, u)" "(v, u) \<in> set e" using Cons.prems(2) by (cases it) auto
  define d1 q1 where "d1 = (if d ! (p ! u) = hk_inf then d[p ! u := d ! v + 1] else d)"
    and "q1 = (if d ! (p ! u) = hk_inf then q @ [p ! u] else q)"
  have step: "bfs_visit p v (it # es) (d, q) = bfs_visit p v es (d1, q1)"
    by (simp add: bfs_visit_def it d1_def q1_def)
  have w: "p ! u < length d"
    using partner_le [OF g p it(2)] Cons.prems(1) by (simp add: bfs_inv_def)
  have 1: "bfs_inv e n p X d1 q1" "\<forall>x. d ! x \<noteq> hk_inf \<longrightarrow> d1 ! x = d ! x" "d1 ! (p ! u) \<noteq> hk_inf"
    "length q1 + card (unseen n d1) = length q + card (unseen n d)"
    using bfs_visit_step [OF g p Cons.prems(1) it(2) Cons.prems(3)] Cons.prems(1) w
    by (auto simp: d1_def q1_def nth_list_update)
  have "d1 ! v \<noteq> hk_inf" using 1(2) Cons.prems(3) by simp
  from Cons.IH [OF 1(1) _ this] Cons.prems(2) obtain d' q' where 2: "bfs_visit p v es (d1, q1) = (d', q')"
    "bfs_inv e n p X d' q'" "\<forall>x. d1 ! x \<noteq> hk_inf \<longrightarrow> d' ! x = d1 ! x"
    "\<forall>it \<in> set es. d' ! (p ! snd it) \<noteq> hk_inf" "length q' + card (unseen n d') = length q1 + card (unseen n d1)"
    by auto
  have "d' ! (p ! u) \<noteq> hk_inf" using 1(3) 2(3) by simp
  moreover have "\<forall>x. d ! x \<noteq> hk_inf \<longrightarrow> d' ! x = d ! x" using 1(2) 2(3) by simp
  ultimately show ?case using 2 1(4) step by (intro exI [of _ d'] exI [of _ q']) (simp add: it)
qed

lemma bfs_loop_ok:
  assumes g: "hk_graph e n m" and p: "hk_valid e n m p"
  shows "bfs_inv e n p {} d q \<Longrightarrow> \<exists>d'. bfs_loop e p (d, q) = Some d' \<and> bfs_inv e n p {} d' []"
proof (induction "length q + card (unseen n d)" arbitrary: d q)
  case 0
  then show ?case by (simp add: bfs_loop.simps)
next
  case (Suc k)
  show ?case
  proof (cases q)
    case Nil
    then show ?thesis using Suc.prems by (simp add: bfs_loop.simps)
  next
    case (Cons v q1)
    have v: "v \<le> n" "d ! v \<noteq> hk_inf" using Suc.prems by (simp_all add: bfs_inv_def Cons)
    have inv: "bfs_inv e n p {v} d q1"
      using Suc.prems by (simp add: bfs_inv_def Cons)
    show ?thesis
    proof (cases "v = 0")
      case True
      have "(a, b) \<in> set e \<Longrightarrow> a \<noteq> 0" for a b using hk_graphD(1) [OF g] by fastforce
      then have "\<forall>a b. (a, b) \<in> set e \<and> d ! a \<noteq> hk_inf \<and> a \<notin> set q1 \<union> {} \<longrightarrow> d ! (p ! b) \<noteq> hk_inf"
        using inv True unfolding bfs_inv_def by blast
      then have "bfs_inv e n p {} d q1" using inv unfolding bfs_inv_def by blast
      from Suc.hyps(1) [OF _ this] show ?thesis using Suc.hyps(2) Cons True
        by (subst bfs_loop.simps) simp
    next
      case False
      have es: "set (edges_of e v) = {it \<in> set e. fst it = v}" using False by (intro set_edges_of [OF g]) simp
      from bfs_visit_ok [OF g p inv equalityD1 [OF es] v(2)] obtain d' q' where
        2: "bfs_visit p v (edges_of e v) (d, q1) = (d', q')" "bfs_inv e n p {v} d' q'"
        "\<forall>it \<in> set (edges_of e v). d' ! (p ! snd it) \<noteq> hk_inf"
        "length q' + card (unseen n d') = length q1 + card (unseen n d)" by blast
      have "d' ! (p ! u) \<noteq> hk_inf" if "(v, u) \<in> set e" for u using 2(3) that es by force
      then have inv': "bfs_inv e n p {} d' q'" using 2(2) unfolding bfs_inv_def by blast
      have "k = length q' + card (unseen n d')" using Suc.hyps(2) 2(4) Cons by simp
      from Suc.hyps(1) [OF this inv'] show ?thesis
        using 2(1) False Cons by (subst bfs_loop.simps) simp
    qed
  qed
qed

section \<open>The depth-first phase\<close>

definition dfs_pre :: "(nat \<times> nat) list \<Rightarrow> nat \<Rightarrow> nat \<Rightarrow> nat \<Rightarrow> nat list \<Rightarrow> nat list \<Rightarrow> bool" where
  "dfs_pre e n m v p d \<longleftrightarrow> hk_valid e n m p \<and> length d = n + 1 \<and>
     (\<forall>x. x \<le> n \<and> d ! x \<noteq> hk_inf \<longrightarrow> d ! x \<le> n) \<and> 1 \<le> v \<and> v \<le> n \<and> d ! v \<noteq> hk_inf"

text \<open>Vertices are only given up, and only \<open>v\<close> itself or vertices further away.\<close>

definition dfs_frame :: "nat \<Rightarrow> nat \<Rightarrow> nat list \<Rightarrow> nat list \<Rightarrow> bool" where
  "dfs_frame n v d d' \<longleftrightarrow> length d' = n + 1 \<and> d' ! 0 = d ! 0 \<and>
     (\<forall>x. x \<le> n \<longrightarrow> d' ! x = d ! x \<or> d' ! x = hk_inf \<and> (x = v \<or> d ! v < d ! x))"

text \<open>A path was found and turned: without the old partner of \<open>v\<close>, which still points at it, the pairs
  are a matching that covers \<open>v\<close> as well, and nothing nearer than the path changed.\<close>

definition dfs_found :: "(nat \<times> nat) list \<Rightarrow> nat \<Rightarrow> nat \<Rightarrow> nat \<Rightarrow> nat list \<Rightarrow> nat list \<Rightarrow> nat list \<Rightarrow> bool" where
  "dfs_found e n m v p d p' \<longleftrightarrow> hk_valid e n m (p'[p ! v := 0]) \<and> length p' = m + 1 \<and> p' ! 0 = 0 \<and>
     matched n p' = insert v (matched n p) \<and>
     (\<forall>x. 1 \<le> x \<and> x \<le> n \<and> x \<noteq> v \<and> d ! x \<le> d ! v \<longrightarrow> p' ! x = p ! x) \<and>
     (\<forall>y. n < y \<and> y \<le> m \<and> d ! (p ! y) \<le> d ! v \<longrightarrow> p' ! y = p ! y)"

text \<open>Given up vertices lead, along the layers of the distances \<open>d0\<close> the phase started with, only to
  given up vertices.\<close>

definition dead_closed :: "(nat \<times> nat) list \<Rightarrow> nat \<Rightarrow> nat list \<Rightarrow> nat list \<Rightarrow> nat list \<Rightarrow> bool" where
  "dead_closed e n d0 p d \<longleftrightarrow> (\<forall>x. x \<le> n \<longrightarrow> d ! x = d0 ! x \<or> d ! x = hk_inf) \<and>
     (\<forall>v u. (v, u) \<in> set e \<and> d0 ! v \<noteq> hk_inf \<and> d ! v = hk_inf \<and> d0 ! (p ! u) = d0 ! v + 1 \<longrightarrow> d ! (p ! u) = hk_inf)"

text \<open>The update of \<open>dfs\<close> at the end of a path.\<close>

lemma dfs_found_end:
  assumes g: "hk_graph e n m" and p: "hk_valid e n m p" and vu: "(v, u) \<in> set e"
    and free: "p ! u = 0" and far: "d ! v < d ! 0"
  shows "dfs_found e n m v p d (p[u := v, v := u])"
proof -
  note V = hk_validD [OF g p] and vu' = hk_graphD [OF g vu]
  have nth: "p[u := v, v := u] ! x = (if x = v then u else if x = u then v else p ! x)" if "x \<le> m" for x
    using that V(1) vu' by (auto simp: nth_list_update)
  have "matched n (p[u := v, v := u]) = insert v (matched n p)"
    using nth vu' V(2) by (auto simp: matched_def)
  moreover have "p[u := v, v := u] ! x = p ! x" if "1 \<le> x" "x \<le> n" "x \<noteq> v" for x
    using that nth [of x] vu' V(2) by auto
  moreover have "p[u := v, v := u] ! y = p ! y" if "n < y" "y \<le> m" "d ! (p ! y) \<le> d ! v" for y
    using that nth [of y] vu' free far by auto
  moreover have "p[u := v, v := u] ! 0 = 0" using nth [of 0] V(3) vu' by auto
  ultimately show ?thesis
    unfolding dfs_found_def using hk_valid_turn [OF g p vu free] V(1) by simp
qed

text \<open>The update after a path was found from the partner \<open>w\<close> of \<open>u\<close>.\<close>

lemma dfs_found_step:
  assumes g: "hk_graph e n m" and p: "hk_valid e n m p" and v: "1 \<le> v" "v \<le> n" and vu: "(v, u) \<in> set e"
    and w: "p ! u = w" "w \<noteq> 0" "d ! w = d ! v + 1" and found: "dfs_found e n m w p d p1"
  shows "dfs_found e n m v p d (p1[u := v, v := u])"
proof -
  note V = hk_validD [OF g p] and vu' = hk_graphD [OF g vu]
  have wu: "1 \<le> w" "w \<le> n" "p ! w = u" using V(5) [of u] vu' w by auto
  let ?q = "p1[u := 0]"
  have q: "hk_valid e n m ?q" and len: "length p1 = m + 1" and mat: "matched n p1 = insert w (matched n p)"
    using found wu(3) by (simp_all add: dfs_found_def)
  have nthq: "?q ! x = (if x = u then 0 else p1 ! x)" if "x \<le> m" for x
    using that len vu' by (auto simp: nth_list_update)
  have vw: "v \<noteq> w" using w(3) by auto
  have L: "p1 ! x = p ! x" if "1 \<le> x" "x \<le> n" "x \<noteq> w" "d ! x \<le> d ! v + 1" for x
    using found that w(3) by (simp add: dfs_found_def)
  have R: "p1 ! y = p ! y" if "n < y" "y \<le> m" "d ! (p ! y) \<le> d ! v + 1" for y
    using found that w(3) by (simp add: dfs_found_def)
  have qv: "?q ! v = p ! v" using nthq [of v] L [of v] v vw vu' V(2) by auto
  have turn: "hk_valid e n m (?q[u := v, v := u, p ! v := 0])"
    using hk_valid_turn [OF g q vu] nthq [of u] vu' qv by simp
  moreover have "?q[u := v, v := u, p ! v := 0] = p1[u := v, v := u, p ! v := 0]" by simp
  moreover have nth: "p1[u := v, v := u] ! x = (if x = v then u else if x = u then v else p1 ! x)" if "x \<le> m" for x
    using that len vu' by (auto simp: nth_list_update)
  moreover have "matched n (p1[u := v, v := u]) = insert v (matched n p)"
  proof -
    have "w \<in> matched n p" using wu vu' by (simp add: matched_def)
    moreover have "matched n (p1[u := v, v := u]) = insert v (matched n p1)"
      using nth v vu' V(2) by (auto simp: matched_def)
    ultimately show ?thesis using mat by auto
  qed
  moreover have "p1[u := v, v := u] ! x = p ! x" if x: "1 \<le> x" "x \<le> n" "x \<noteq> v" "d ! x \<le> d ! v" for x
  proof -
    have "x \<noteq> w" using x(4) w(3) by auto
    then show ?thesis using nth [of x] L [OF x(1,2)] x vu' V(2) by auto
  qed
  moreover have "p1[u := v, v := u] ! y = p ! y" if y: "n < y" "y \<le> m" "d ! (p ! y) \<le> d ! v" for y
  proof -
    have "y \<noteq> u" using y(3) w by auto
    then show ?thesis using nth [of y] R [OF y(1,2)] y vu' v by auto
  qed
  moreover have "p1[u := v, v := u] ! 0 = 0" using nth [of 0] found vu' by (auto simp: dfs_found_def)
  ultimately show ?thesis unfolding dfs_found_def using len by simp
qed

text \<open>The edges of \<open>v\<close> that its loop has passed do not lead on.\<close>

definition dealt :: "(nat \<times> nat) list \<Rightarrow> nat list \<Rightarrow> nat list \<Rightarrow> nat list \<Rightarrow> nat \<Rightarrow> (nat \<times> nat) list \<Rightarrow> bool" where
  "dealt e d0 p d v es \<longleftrightarrow>
     (\<forall>u. (v, u) \<in> set e \<and> (v, u) \<notin> set es \<and> d0 ! (p ! u) = d0 ! v + 1 \<longrightarrow> d ! (p ! u) = hk_inf)"

definition dfs_post :: "(nat \<times> nat) list \<Rightarrow> nat \<Rightarrow> nat \<Rightarrow> nat \<Rightarrow> (nat \<times> nat) list \<Rightarrow> nat list \<Rightarrow> nat list \<Rightarrow>
    bool \<times> nat list \<times> nat list \<Rightarrow> bool" where
  "dfs_post e n m v es p d r \<longleftrightarrow> (case r of (b, p', d') \<Rightarrow> dfs_frame n v d d' \<and>
     (if b then dfs_found e n m v p d p'
      else p' = p \<and> d' ! v = hk_inf \<and>
        (\<forall>d0. dead_closed e n d0 p d \<and> dealt e d0 p d v es \<longrightarrow> dead_closed e n d0 p d')))"

lemma dfs_frame_refl [simp]: "length d = n + 1 \<Longrightarrow> dfs_frame n v d d"
  by (simp add: dfs_frame_def)

lemma dfs_frame_self: "dfs_frame n w d d1 \<Longrightarrow> d ! v < d ! w \<Longrightarrow> v \<le> n \<Longrightarrow> d1 ! v = d ! v"
  by (auto simp: dfs_frame_def)

lemma dfs_frame_inf: "dfs_frame n v d d1 \<Longrightarrow> x \<le> n \<Longrightarrow> d ! x = hk_inf \<Longrightarrow> d1 ! x = hk_inf"
  by (auto simp: dfs_frame_def)

lemma dfs_frame_cases: "dfs_frame n v d d1 \<Longrightarrow> x \<le> n \<Longrightarrow> d1 ! x = d ! x \<or> d1 ! x = hk_inf"
  by (auto simp: dfs_frame_def)

lemma dfs_frame_trans:
  assumes "dfs_frame n w d d1" "d ! v < d ! w" "v \<le> n" "dfs_frame n v d1 d2"
  shows "dfs_frame n v d d2"
proof -
  have v: "d1 ! v = d ! v" using dfs_frame_self [OF assms(1-3)] .
  show ?thesis
    unfolding dfs_frame_def
  proof (intro conjI allI impI)
    show "length d2 = n + 1" "d2 ! 0 = d ! 0" using assms(1,4) by (simp_all add: dfs_frame_def)
    fix x assume x: "x \<le> n"
    have a: "d1 ! x = d ! x \<or> d1 ! x = hk_inf \<and> (x = w \<or> d ! w < d ! x)" using assms(1) x by (simp add: dfs_frame_def)
    have b: "d2 ! x = d1 ! x \<or> d2 ! x = hk_inf \<and> (x = v \<or> d ! v < d1 ! x)"
      using assms(4) x v by (simp add: dfs_frame_def)
    show "d2 ! x = d ! x \<or> d2 ! x = hk_inf \<and> (x = v \<or> d ! v < d ! x)"
      using a b assms(2) by auto
  qed
qed

lemma dfs_found_frame:
  assumes g: "hk_graph e n m" and p: "hk_valid e n m p" and f: "dfs_frame n w d d1" and w: "d ! v < d ! w" and v: "v \<le> n"
    and found: "dfs_found e n m v p d1 p'"
  shows "dfs_found e n m v p d p'"
proof -
  have dv: "d1 ! v = d ! v" by (rule dfs_frame_self [OF f w v])
  have near: "d1 ! x = d ! x" if "x \<le> n" "d ! x \<le> d ! v" for x
    using f that w by (auto simp: dfs_frame_def)
  have "p ! y \<le> n" if "n < y" "y \<le> m" for y
    using hk_validD(5) [OF g p that] by (cases "p ! y = 0") auto
  then show ?thesis using found near dv by (simp add: dfs_found_def)
qed

lemma dead_closed_frame:
  assumes g: "hk_graph e n m" and p: "hk_valid e n m p" and vu: "(v, u) \<in> set e"
    and dc: "dead_closed e n d0 p d" and dl: "dealt e d0 p d v ((v, u) # es)"
    and out: "d0 ! (p ! u) = d0 ! v + 1 \<Longrightarrow> d1 ! (p ! u) = hk_inf"
    and mono: "\<And>x. x \<le> n \<Longrightarrow> d ! x = hk_inf \<Longrightarrow> d1 ! x = hk_inf"
  shows "dealt e d0 p d1 v es"
  unfolding dealt_def
proof (intro allI impI; elim conjE)
  fix x assume x: "(v, x) \<in> set e" "(v, x) \<notin> set es" "d0 ! (p ! x) = d0 ! v + 1"
  show "d1 ! (p ! x) = hk_inf"
  proof (cases "x = u")
    case True
    then show ?thesis using out x by simp
  next
    case False
    then have "d ! (p ! x) = hk_inf" using dl x by (simp add: dealt_def)
    then show ?thesis using mono partner_le [OF g p x(1)] by simp
  qed
qed

text \<open>The vertex is given up: all its edges have been dealt with.\<close>

lemma dead_closed_end:
  assumes pre: "dfs_pre e n m v p d" and dc: "dead_closed e n d0 p d" and dl: "dealt e d0 p d v []"
    and g: "hk_graph e n m"
  shows "dead_closed e n d0 p (d[v := hk_inf])"
proof -
  have len: "length d = n + 1" and v: "1 \<le> v" "v \<le> n" using pre by (simp_all add: dfs_pre_def)
  have p: "hk_valid e n m p" using pre by (simp add: dfs_pre_def)
  have nth: "d[v := hk_inf] ! x = (if x = v then hk_inf else d ! x)" if "x \<le> n" for x
    using that len by (simp add: nth_list_update)
  show ?thesis
    unfolding dead_closed_def
  proof (intro conjI allI impI; (elim conjE)?)
    fix x assume "x \<le> n"
    then show "d[v := hk_inf] ! x = d0 ! x \<or> d[v := hk_inf] ! x = hk_inf"
      using dc nth [of x] by (simp add: dead_closed_def)
  next
    fix x u
    assume x: "(x, u) \<in> set e" "d0 ! x \<noteq> hk_inf" "d[v := hk_inf] ! x = hk_inf" "d0 ! (p ! u) = d0 ! x + 1"
    have w: "p ! u \<le> n" by (rule partner_le [OF g p x(1)])
    have "d ! (p ! u) = hk_inf"
    proof (cases "x = v")
      case True
      then show ?thesis using dl x by (simp add: dealt_def)
    next
      case False
      then show ?thesis using dc x nth [of x] hk_graphD [OF g x(1)] unfolding dead_closed_def by auto
    qed
    then show "d[v := hk_inf] ! (p ! u) = hk_inf" using nth [OF w] by simp
  qed
qed

lemma dfs_skip:
  assumes g: "hk_graph e n m" and pre: "dfs_pre e n m v p d" and vu: "(v, u) \<in> set e"
    and no: "d ! (p ! u) \<noteq> d ! v + 1" and post: "dfs_post e n m v es p d r"
  shows "dfs_post e n m v ((v, u) # es) p d r"
proof -
  have p: "hk_valid e n m p" using pre by (simp add: dfs_pre_def)
  have "dealt e d0 p d v es" if dc: "dead_closed e n d0 p d" and dl: "dealt e d0 p d v ((v, u) # es)" for d0
  proof (rule dead_closed_frame [OF g p vu dc dl])
    assume a: "d0 ! (p ! u) = d0 ! v + 1"
    have "d ! v = d0 ! v" using dc pre by (auto simp: dead_closed_def dfs_pre_def)
    moreover have "d ! (p ! u) = d0 ! (p ! u) \<or> d ! (p ! u) = hk_inf"
      using dc partner_le [OF g p vu] by (simp add: dead_closed_def)
    ultimately show "d ! (p ! u) = hk_inf" using a no by auto
  qed
  then show ?thesis using post unfolding dfs_post_def by (auto split: prod.splits if_splits)
qed

lemma dfs_fail:
  assumes g: "hk_graph e n m" and pre: "dfs_pre e n m v p d" and vu: "(v, u) \<in> set e"
    and w: "p ! u \<noteq> 0" "d ! (p ! u) = d ! v + 1" "dfs_post e n m (p ! u) (edges_of e (p ! u)) p d (False, p, d1)"
    and post: "dfs_post e n m v es p d1 r"
  shows "dfs_post e n m v ((v, u) # es) p d r"
proof -
  have p: "hk_valid e n m p" and v: "v \<le> n" using pre by (simp_all add: dfs_pre_def)
  have wn: "p ! u \<le> n" by (rule partner_le [OF g p vu])
  obtain b p' d' where r: "r = (b, p', d')" by (cases r)
  have f1: "dfs_frame n (p ! u) d d1" and d1: "d1 ! (p ! u) = hk_inf"
    and k: "\<And>d0. dead_closed e n d0 p d \<Longrightarrow> dealt e d0 p d (p ! u) (edges_of e (p ! u)) \<Longrightarrow> dead_closed e n d0 p d1"
    using w(3) by (auto simp: dfs_post_def)
  have lt: "d ! v < d ! (p ! u)" using w(2) by simp
  have "dfs_frame n v d1 d'" using post by (simp add: dfs_post_def r)
  then have f: "dfs_frame n v d d'" by (rule dfs_frame_trans [OF f1 lt v])
  have "dfs_found e n m v p d1 p' \<Longrightarrow> dfs_found e n m v p d p'"
    by (rule dfs_found_frame [OF g p f1 lt v])
  moreover have "dead_closed e n d0 p d1 \<and> dealt e d0 p d1 v es"
    if dc: "dead_closed e n d0 p d" and dl: "dealt e d0 p d v ((v, u) # es)" for d0
  proof
    have "dealt e d0 p d (p ! u) (edges_of e (p ! u))"
      using set_edges_of [OF g, of "p ! u"] w(1) by (auto simp: dealt_def)
    then show "dead_closed e n d0 p d1" by (rule k [OF dc])
    show "dealt e d0 p d1 v es"
      by (rule dead_closed_frame [OF g p vu dc dl]) (use d1 dfs_frame_inf [OF f1] in auto)
  qed
  ultimately show ?thesis using post f unfolding dfs_post_def r by auto
qed

lemma dfs_loop_ok:
  assumes g: "hk_graph e n m"
  shows "dfs_pre e n m v p d \<Longrightarrow> set es \<subseteq> {it \<in> set e. fst it = v} \<Longrightarrow>
    \<exists>r. dfs_loop e v es (p, d) = Some r \<and> dfs_post e n m v es p d r"
proof (induction "n + 1 - d ! v" arbitrary: v p d es rule: less_induct)
  case less
  from less.prems less.hyps show ?case
  proof (induction es arbitrary: d)
    case Nil
    then have "dfs_frame n v d (d[v := hk_inf])" "d[v := hk_inf] ! v = hk_inf" and v: "1 \<le> v"
      by (auto simp: dfs_pre_def dfs_frame_def nth_list_update)
    then have "dfs_post e n m v [] p d (False, p, d[v := hk_inf])"
      using dead_closed_end [OF Nil.prems(1) _ _ g] by (simp add: dfs_post_def)
    moreover have "dfs_loop e v [] (p, d) = Some (False, p, d[v := hk_inf])"
      using v by (subst dfs_loop.simps) simp
    ultimately show ?case by blast
  next
    case (Cons it es)
    obtain u where it: "it = (v, u)" and vu: "(v, u) \<in> set e" using Cons.prems(2) by (cases it) auto
    note pre = Cons.prems(1)
    have p: "hk_valid e n m p" and v: "1 \<le> v" "v \<le> n" "d ! v \<noteq> hk_inf" "d ! v \<le> n" and len: "length d = n + 1"
      and fin: "\<And>x. x \<le> n \<Longrightarrow> d ! x \<noteq> hk_inf \<Longrightarrow> d ! x \<le> n"
      using pre by (auto simp: dfs_pre_def)
    have es: "set es \<subseteq> {it \<in> set e. fst it = v}" using Cons.prems(2) by simp
    let ?w = "p ! u"
    have wn: "?w \<le> n" by (rule partner_le [OF g p vu])
    show ?case
    proof (cases "d ! ?w = d ! v + 1")
      case False
      from Cons.IH [OF pre es Cons.prems(3)] obtain r where
        r: "dfs_loop e v es (p, d) = Some r" "dfs_post e n m v es p d r" by blast
      have "dfs_loop e v (it # es) (p, d) = Some r"
        using False v r(1) by (subst dfs_loop.simps) (simp add: it)
      then show ?thesis using dfs_skip [OF g pre vu False r(2)] it by blast
    next
      case True
      show ?thesis
      proof (cases "?w = 0")
        case True0: True
        have "dfs_loop e 0 (edges_of e 0) (p, d) = Some (True, p, d)" by (subst dfs_loop.simps) simp
        then have "dfs_loop e v (it # es) (p, d) = Some (True, p[u := v, v := u], d)"
          using True True0 v by (subst dfs_loop.simps) (simp add: it)
        moreover have "dfs_found e n m v p d (p[u := v, v := u])"
          using True True0 by (intro dfs_found_end [OF g p vu]) auto
        ultimately show ?thesis using len by (auto simp: dfs_post_def)
      next
        case False
        have "d ! ?w \<noteq> hk_inf" using True v g by (simp add: hk_graph_def)
        then have wpre: "dfs_pre e n m ?w p d" and "d ! ?w \<le> n" using pre wn False fin by (auto simp: dfs_pre_def)
        then have dec: "n + 1 - d ! ?w < n + 1 - d ! v" using True by simp
        have wes: "set (edges_of e ?w) \<subseteq> {it \<in> set e. fst it = ?w}" using set_edges_of [OF g, of ?w] False by simp
        from Cons.prems(3) [OF dec wpre wes] obtain b p1 d1 where
          w: "dfs_loop e ?w (edges_of e ?w) (p, d) = Some (b, p1, d1)"
          "dfs_post e n m ?w (edges_of e ?w) p d (b, p1, d1)" by auto
        have step: "dfs_loop e v (it # es) (p, d) =
          (if b then Some (True, p1[u := v, v := u], d1) else dfs_loop e v es (p1, d1))"
          using True v w(1) by (subst dfs_loop.simps) (simp add: it)
        have f1: "dfs_frame n ?w d d1" using w(2) by (simp add: dfs_post_def)
        have dv: "d1 ! v = d ! v" using dfs_frame_self [OF f1 _ v(2)] True by simp
        show ?thesis
        proof (cases b)
          case bT: True
          have "dfs_found e n m ?w p d p1" using w(2) bT by (simp add: dfs_post_def)
          from dfs_found_step [OF g p v(1,2) vu refl False True this]
          have "dfs_found e n m v p d (p1[u := v, v := u])" .
          moreover have "dfs_frame n v d d1"
            using dfs_frame_trans [OF f1 _ v(2), of d1] True f1 by (simp add: dfs_frame_def)
          ultimately show ?thesis using step bT by (auto simp: dfs_post_def)
        next
          case bF: False
          have p1: "p1 = p" using w(2) bF by (simp add: dfs_post_def)
          have pre1: "dfs_pre e n m v p d1"
            using p v dv f1 fin dfs_frame_cases [OF f1] by (fastforce simp: dfs_pre_def dfs_frame_def)
          have "\<exists>r. dfs_loop e v es (p, d1) = Some r \<and> dfs_post e n m v es p d1 r"
            by (rule Cons.IH [OF pre1 es]) (use Cons.prems(3) dv in auto)
          then obtain r where r: "dfs_loop e v es (p, d1) = Some r" "dfs_post e n m v es p d1 r" by blast
          have "dfs_post e n m v ((v, u) # es) p d r"
            by (rule dfs_fail [OF g pre vu False True _ r(2)]) (use w(2) bF p1 in simp)
          then show ?thesis using step bF p1 r(1) it by auto
        qed
      qed
    qed
  qed
qed

section \<open>The phases\<close>

text \<open>The free vertices of the round, all at distance 0.\<close>

definition round_pre :: "(nat \<times> nat) list \<Rightarrow> nat \<Rightarrow> nat \<Rightarrow> nat list \<Rightarrow> nat list \<Rightarrow> nat list \<Rightarrow> bool" where
  "round_pre e n m vs p d \<longleftrightarrow> hk_valid e n m p \<and> length d = n + 1 \<and>
     (\<forall>x. x \<le> n \<and> d ! x \<noteq> hk_inf \<longrightarrow> d ! x \<le> n) \<and> (\<forall>v \<in> set vs. 1 \<le> v \<and> v \<le> n \<and> (p ! v = 0 \<longrightarrow> d ! v = 0))"

text \<open>A round with no path gave up every free vertex.\<close>

definition round_failed :: "(nat \<times> nat) list \<Rightarrow> nat \<Rightarrow> nat list \<Rightarrow> nat list \<Rightarrow> nat list \<Rightarrow> nat list \<Rightarrow> bool" where
  "round_failed e n vs p d d' \<longleftrightarrow> (\<forall>d0. dead_closed e n d0 p d \<longrightarrow> dead_closed e n d0 p d') \<and>
     (\<forall>v \<in> set vs. p ! v = 0 \<longrightarrow> d' ! v = hk_inf) \<and> (\<forall>x. x \<le> n \<and> d ! x = hk_inf \<longrightarrow> d' ! x = hk_inf) \<and> d' ! 0 = d ! 0"

definition round_post :: "(nat \<times> nat) list \<Rightarrow> nat \<Rightarrow> nat \<Rightarrow> nat list \<Rightarrow> nat list \<Rightarrow> nat list \<Rightarrow> nat \<Rightarrow>
    nat \<times> nat list \<times> nat list \<Rightarrow> bool" where
  "round_post e n m vs p d k r \<longleftrightarrow> (case r of (k', p', d') \<Rightarrow> hk_valid e n m p' \<and> length d' = n + 1 \<and>
     k' + card (matched n p) = k + card (matched n p') \<and>
     (k < k' \<or> k' = k \<and> p' = p \<and> round_failed e n vs p d d'))"

lemma finite_matched [simp]: "finite (matched n p)"
  by (rule finite_subset [of _ "{..n}"]) (auto simp: matched_def)

text \<open>The search from one free vertex.\<close>

lemma hk_dfs_ok:
  assumes g: "hk_graph e n m" and pre: "round_pre e n m (v # vs) p d" and free: "p ! v = 0" and new: "v \<notin> set vs"
  shows "\<exists>b p' d'. hk_dfs e v (p, d) = Some (b, p', d') \<and> round_pre e n m vs p' d' \<and> dfs_frame n v d d' \<and>
    (if b then matched n p' = insert v (matched n p)
     else p' = p \<and> d' ! v = hk_inf \<and> (\<forall>d0. dead_closed e n d0 p d \<longrightarrow> dead_closed e n d0 p d'))"
proof -
  have p: "hk_valid e n m p" and v: "1 \<le> v" "v \<le> n" "d ! v = 0" and len: "length d = n + 1"
    and fin: "\<And>x. x \<le> n \<Longrightarrow> d ! x \<noteq> hk_inf \<Longrightarrow> d ! x \<le> n"
    and vs: "\<And>x. x \<in> set vs \<Longrightarrow> 1 \<le> x \<and> x \<le> n \<and> (p ! x = 0 \<longrightarrow> d ! x = 0)"
    using pre free by (auto simp: round_pre_def)
  have "dfs_pre e n m v p d" using p v len fin by (simp add: dfs_pre_def hk_inf_def)
  moreover have es: "set (edges_of e v) = {it \<in> set e. fst it = v}" by (rule set_edges_of [OF g v(1)])
  ultimately obtain b p' d' where
    r: "dfs_loop e v (edges_of e v) (p, d) = Some (b, p', d')" "dfs_post e n m v (edges_of e v) p d (b, p', d')"
    using dfs_loop_ok [OF g, of v p d "edges_of e v"] by auto
  have f: "dfs_frame n v d d'" using r(2) by (simp add: dfs_post_def)
  have same: "d' ! x = d ! x" if "x \<le> n" "x \<noteq> v" "d ! x = 0" for x using f that v(3) by (auto simp: dfs_frame_def)
  have fin': "x \<le> n \<Longrightarrow> d' ! x \<noteq> hk_inf \<Longrightarrow> d' ! x \<le> n" for x using f fin [of x] by (auto simp: dfs_frame_def)
  have len': "length d' = n + 1" using f by (simp add: dfs_frame_def)
  have "round_pre e n m vs p' d' \<and> (if b then matched n p' = insert v (matched n p)
     else p' = p \<and> d' ! v = hk_inf \<and> (\<forall>d0. dead_closed e n d0 p d \<longrightarrow> dead_closed e n d0 p d'))"
  proof (cases b)
    case True
    have F: "dfs_found e n m v p d p'" using r(2) True by (simp add: dfs_post_def)
    have "p'[0 := 0] = p'" using F list_update_id [of p' 0] by (simp add: dfs_found_def)
    then have val: "hk_valid e n m p'" and mat: "matched n p' = insert v (matched n p)"
      using F free by (simp_all add: dfs_found_def)
    have "d' ! x = 0" if x: "x \<in> set vs" "p' ! x = 0" for x
    proof -
      have "x \<notin> insert v (matched n p)" using x vs [OF x(1)] unfolding mat [symmetric] by (simp add: matched_def)
      then show ?thesis using vs [OF x(1)] same [of x] by (auto simp: matched_def)
    qed
    then show ?thesis using True val mat len' fin' vs by (simp add: round_pre_def)
  next
    case False
    have "dealt e d0 p d v (edges_of e v)" for d0 by (auto simp: dealt_def es)
    then have "p' = p \<and> d' ! v = hk_inf \<and> (\<forall>d0. dead_closed e n d0 p d \<longrightarrow> dead_closed e n d0 p d')"
      using r(2) False by (simp add: dfs_post_def)
    moreover have "d' ! x = 0" if x: "x \<in> set vs" "p ! x = 0" for x
      using vs [OF x(1)] same [of x] x new by auto
    ultimately show ?thesis using False p len' fin' vs by (simp add: round_pre_def)
  qed
  then show ?thesis using r(1) f by (auto simp: hk_dfs_def)
qed

lemma hk_round_ok:
  assumes g: "hk_graph e n m"
  shows "round_pre e n m vs p d \<Longrightarrow> distinct vs \<Longrightarrow> \<exists>r. hk_round e vs k (p, d) = Some r \<and> round_post e n m vs p d k r"
proof (induction vs arbitrary: p d k)
  case Nil
  then show ?case by (simp add: round_post_def round_failed_def round_pre_def)
next
  case (Cons v vs)
  show ?case
  proof (cases "p ! v = 0")
    case False
    have "round_pre e n m vs p d" using Cons.prems by (simp add: round_pre_def)
    then obtain r where r: "hk_round e vs k (p, d) = Some r" "round_post e n m vs p d k r" using Cons by force
    have "round_post e n m (v # vs) p d k r"
      using r(2) False by (auto simp: round_post_def round_failed_def split: prod.splits)
    then show ?thesis using r(1) False by simp
  next
    case True
    obtain b p' d' where
      D: "hk_dfs e v (p, d) = Some (b, p', d')" "round_pre e n m vs p' d'" "dfs_frame n v d d'"
      "if b then matched n p' = insert v (matched n p)
       else p' = p \<and> d' ! v = hk_inf \<and> (\<forall>d0. dead_closed e n d0 p d \<longrightarrow> dead_closed e n d0 p d')"
      using hk_dfs_ok [OF g Cons.prems(1) True] Cons.prems(2) by auto
    have v: "v \<le> n" using Cons.prems(1) by (simp add: round_pre_def)
    let ?k = "if b then Suc k else k"
    obtain r where r: "hk_round e vs ?k (p', d') = Some r" "round_post e n m vs p' d' ?k r"
      using Cons.IH [OF D(2), of ?k] Cons.prems(2) by auto
    obtain k1 p1 d1 where r1: "r = (k1, p1, d1)" by (cases r)
    have "round_post e n m (v # vs) p d k r"
    proof (cases b)
      case bT: True
      have "v \<notin> matched n p" using True by (simp add: matched_def)
      then have "card (matched n p') = Suc (card (matched n p))" using D(4) bT by simp
      then show ?thesis using r(2) bT by (auto simp: round_post_def r1)
    next
      case False
      then have p': "p' = p" and dv: "d' ! v = hk_inf"
        and dc: "\<And>d0. dead_closed e n d0 p d \<Longrightarrow> dead_closed e n d0 p d'" using D(4) by auto
      have "round_failed e n (v # vs) p d d1" if "round_failed e n vs p d' d1"
        using that dv dc v dfs_frame_inf [OF D(3)] D(3) by (auto simp: round_failed_def dfs_frame_def)
      then show ?thesis using r(2) False p' by (auto simp: round_post_def r1)
    qed
    then show ?thesis using r(1) D(1) True by simp
  qed
qed

text \<open>A round after a breadth-first search that reached \<open>nil\<close> finds a path.\<close>

lemma dead_reached:
  assumes inv: "bfs_inv e n p {} d0 []" and rf: "round_failed e n [1..<n + 1] p d0 d'" and g: "hk_graph e n m"
  shows "w \<le> n \<Longrightarrow> d0 ! w \<noteq> hk_inf \<Longrightarrow> d' ! w = hk_inf"
proof (induction "d0 ! w" arbitrary: w rule: less_induct)
  case less
  have "dead_closed e n d0 p d0" by (auto simp: dead_closed_def)
  then have dc: "dead_closed e n d0 p d'" using rf unfolding round_failed_def by blast
  show ?case
  proof (cases "w = 0 \<or> p ! w \<noteq> 0")
    case True
    then obtain v u where vu: "(v, u) \<in> set e" "p ! u = w" "d0 ! w = d0 ! v + 1" "d0 ! v \<noteq> hk_inf"
      using inv less.prems unfolding bfs_inv_def by blast
    have "d' ! v = hk_inf" using less.hyps [of v] vu hk_graphD [OF g vu(1)] by simp
    then show ?thesis using dc vu unfolding dead_closed_def by blast
  next
    case False
    then have "w \<in> set [1..<n + 1]" using less.prems by auto
    with False rf show ?thesis unfolding round_failed_def by blast
  qed
qed

lemma hk_bfs_ok:
  assumes g: "hk_graph e n m" and p: "hk_valid e n m p" and d: "length d = n + 1"
  shows "\<exists>d'. hk_bfs e n p d = Some (d' ! 0 \<noteq> hk_inf, d') \<and> bfs_inv e n p {} d' []"
proof -
  obtain d1 q where 1: "bfs_init p n d = (d1, q)" "bfs_inv e n p {} (d1[0 := hk_inf]) q"
    using bfs_start [OF assms] by blast
  obtain d' where "bfs_loop e p (d1[0 := hk_inf], q) = Some d'" "bfs_inv e n p {} d' []"
    using bfs_loop_ok [OF g p 1(2)] by blast
  then show ?thesis using 1(1) by (simp add: hk_bfs_def)
qed

lemma round_progress:
  assumes g: "hk_graph e n m" and p: "hk_valid e n m p" and inv: "bfs_inv e n p {} d []" and nil: "d ! 0 \<noteq> hk_inf"
  shows "\<exists>k' p' d'. hk_round e [1..<n + 1] k (p, d) = Some (k', p', d') \<and> hk_valid e n m p' \<and> length d' = n + 1 \<and>
    k' + card (matched n p) = k + card (matched n p') \<and> k < k'"
proof -
  have "\<forall>x. x \<le> n \<and> d ! x \<noteq> hk_inf \<longrightarrow> d ! x \<le> n" "\<forall>v. 1 \<le> v \<and> v \<le> n \<and> p ! v = 0 \<longrightarrow> d ! v = 0" "length d = n + 1"
    using inv unfolding bfs_inv_def by (auto intro: add_leD1)
  then have "round_pre e n m [1..<n + 1] p d" using p by (auto simp: round_pre_def)
  then obtain k' p' d' where r: "hk_round e [1..<n + 1] k (p, d) = Some (k', p', d')"
    "round_post e n m [1..<n + 1] p d k (k', p', d')"
    using hk_round_ok [OF g, of "[1..<n + 1]" p d k] by (metis distinct_upt prod_cases3)
  have "\<not> round_failed e n [1..<n + 1] p d d'"
  proof
    assume rf: "round_failed e n [1..<n + 1] p d d'"
    then have "d' ! 0 = hk_inf" using dead_reached [OF inv _ g, of d' 0] nil by simp
    with rf nil show False by (simp add: round_failed_def)
  qed
  then show ?thesis using r unfolding round_post_def by auto
qed

section \<open>Matchings of a set of edges\<close>

definition is_matching :: "('a \<times> 'b) set \<Rightarrow> bool" where
  "is_matching M \<longleftrightarrow> inj_on fst M \<and> inj_on snd M"

lemma partner_inj:
  assumes "p ! a = p ! b" "p ! (p ! a) = a" "p ! (p ! b) = (b :: nat)"
  shows "a = b"
  by (rule trans [OF assms(2) [symmetric]]) (rule trans [OF arg_cong [OF assms(1), of "nth p"] assms(3)])

text \<open>Without a path, the left vertices that were not reached and the right ones whose partner was reached
  cover all edges, and each of them has an edge of the matching to itself.\<close>

lemma matching_bound:
  assumes g: "hk_graph e n m" and p: "hk_valid e n m p" and inv: "bfs_inv e n p {} d []" and nil: "d ! 0 = hk_inf"
    and M: "M \<subseteq> set e" "is_matching M"
  shows "card M \<le> card (matched n p)"
proof -
  define f where "f = (\<lambda>(v, u). if d ! v = hk_inf then v else p ! u)"
  have E: "1 \<le> v \<and> v \<le> n \<and> n < u \<and> u \<le> m" if "(v, u) \<in> M" for v u
    using hk_graphD [OF g subsetD [OF M(1) that]] by simp
  have reach: "d ! (p ! u) \<noteq> hk_inf" if "(v, u) \<in> M" "d ! v \<noteq> hk_inf" for v u
    using inv subsetD [OF M(1) that(1)] that(2) unfolding bfs_inv_def by auto
  have R: "p ! u \<noteq> 0 \<and> p ! u \<le> n \<and> p ! (p ! u) = u" if "(v, u) \<in> M" "d ! v \<noteq> hk_inf" for v u
  proof -
    have "p ! u \<noteq> 0" using reach [OF that] nil by (cases "p ! u = 0") simp_all
    then show ?thesis using hk_validD(5) [OF g p, of u] E [OF that(1)] by simp
  qed
  have "f x \<in> matched n p" if x: "x \<in> M" for x
  proof (cases x)
    case (Pair v u)
    show ?thesis
    proof (cases "d ! v = hk_inf")
      case True
      have "p ! v \<noteq> 0"
      proof
        assume "p ! v = 0"
        then have "d ! v = 0" using inv E [of v u] x Pair unfolding bfs_inv_def by blast
        with True show False by (simp add: hk_inf_def)
      qed
      then show ?thesis using True E [of v u] x Pair by (simp add: f_def matched_def)
    next
      case False
      then show ?thesis using R [of v u] x Pair E [of v u] by (simp add: f_def matched_def)
    qed
  qed
  moreover have "inj_on f M"
  proof (rule inj_onI)
    fix x y assume xy: "x \<in> M" "y \<in> M" "f x = f y"
    obtain v u w z where [simp]: "x = (v, u)" "y = (w, z)" by (cases x, cases y)
    have "v = w \<or> u = z"
    proof (cases "d ! v = hk_inf \<or> d ! w = hk_inf")
      case True
      then have "d ! v = hk_inf \<and> d ! w = hk_inf"
        using xy reach [of v u] reach [of w z] by (auto simp: f_def split: if_splits)
      then show ?thesis using xy(3) by (simp add: f_def)
    next
      case False
      have a: "p ! u = p ! z" using xy(3) False by (simp add: f_def)
      have "p ! (p ! u) = u" "p ! (p ! z) = z" using xy(1,2) R [of v u] R [of w z] False by simp_all
      then have "u = z" by (rule partner_inj [OF a])
      then show ?thesis ..
    qed
    then have "fst x = fst y \<or> snd x = snd y" by simp
    then show "x = y" using M(2) xy(1,2) unfolding is_matching_def by (meson inj_onD)
  qed
  ultimately show ?thesis by (intro card_inj_on_le [of f]) auto
qed

text \<open>The pairs as a set of edges.\<close>

definition pair_edges :: "nat \<Rightarrow> nat list \<Rightarrow> (nat \<times> nat) set" where
  "pair_edges n p = (\<lambda>v. (v, p ! v)) ` matched n p"

lemma pair_edges:
  assumes g: "hk_graph e n m" and p: "hk_valid e n m p"
  shows "pair_edges n p = {it \<in> set e. p ! fst it = snd it}" "is_matching (pair_edges n p)"
    "card (pair_edges n p) = card (matched n p)"
proof -
  have L: "(v, p ! v) \<in> set e \<and> p ! (p ! v) = v" if "v \<in> matched n p" for v
    using hk_validD(4) [OF g p, of v] that by (simp add: matched_def)
  have "v \<in> matched n p" if "(v, p ! v) \<in> set e" for v
    using hk_graphD [OF g that] by (simp add: matched_def)
  then show "pair_edges n p = {it \<in> set e. p ! fst it = snd it}"
    using L by (auto simp: pair_edges_def image_iff)
  have "inj_on fst (pair_edges n p)" by (auto simp: pair_edges_def intro!: inj_onI)
  moreover have "inj_on snd (pair_edges n p)"
  proof (rule inj_onI)
    fix x y assume xy: "x \<in> pair_edges n p" "y \<in> pair_edges n p" "snd x = snd y"
    then obtain v w where vw: "x = (v, p ! v)" "y = (w, p ! w)" "v \<in> matched n p" "w \<in> matched n p"
      by (auto simp: pair_edges_def)
    have "p ! v = p ! w" using xy(3) vw(1,2) by simp
    then have "v = w" using L vw(3,4) by (blast intro: partner_inj)
    then show "x = y" using vw(1,2) by simp
  qed
  ultimately show "is_matching (pair_edges n p)" by (simp add: is_matching_def)
  show "card (pair_edges n p) = card (matched n p)"
    unfolding pair_edges_def by (rule card_image) (simp add: inj_on_def)
qed

lemma card_matched_le: "card (matched n p) \<le> n"
proof -
  have "card (matched n p) \<le> card {1..n}" by (rule card_mono) (auto simp: matched_def)
  then show ?thesis by simp
qed

lemma hk_phases_ok:
  assumes g: "hk_graph e n m"
  shows "hk_valid e n m p \<Longrightarrow> length d = n + 1 \<Longrightarrow> k = card (matched n p) \<Longrightarrow>
    \<exists>k' p' d'. hk_phases e n k (p, d) = Some (k', p', d') \<and> hk_valid e n m p' \<and> k' = card (matched n p') \<and>
      (\<forall>M. M \<subseteq> set e \<and> is_matching M \<longrightarrow> card M \<le> k')"
proof (induction "n - k" arbitrary: k p d rule: less_induct)
  case less
  note p = less.prems(1)
  obtain d1 where b: "hk_bfs e n p d = Some (d1 ! 0 \<noteq> hk_inf, d1)" "bfs_inv e n p {} d1 []"
    using hk_bfs_ok [OF g p less.prems(2)] by blast
  show ?case
  proof (cases "d1 ! 0 = hk_inf")
    case True
    have "hk_phases e n k (p, d) = Some (k, p, d1)" using b(1) True by (subst hk_phases.simps) simp
    then show ?thesis using p less.prems(3) matching_bound [OF g p b(2) True] by auto
  next
    case False
    obtain k' p' d' where r: "hk_round e [1..<n + 1] k (p, d1) = Some (k', p', d')" "hk_valid e n m p'"
      "length d' = n + 1" "k' + card (matched n p) = k + card (matched n p')" "k < k'"
      using round_progress [OF g p b(2) False, of k] by blast
    have k': "k' = card (matched n p')" using r(4) less.prems(3) by simp
    then have "n - k' < n - k" using r(5) card_matched_le [of n p'] by simp
    from less.hyps [OF this r(2,3) k'] obtain k2 p2 d2 where
      "hk_phases e n k' (p', d') = Some (k2, p2, d2)" "hk_valid e n m p2" "k2 = card (matched n p2)"
      "\<forall>M. M \<subseteq> set e \<and> is_matching M \<longrightarrow> card M \<le> k2" by blast
    moreover have "hk_phases e n k (p, d) = hk_phases e n k' (p', d')"
      using b(1) False r(1) by (subst hk_phases.simps) (simp del: upt_Suc)
    ultimately show ?thesis by auto
  qed
qed

section \<open>The constructor\<close>

text \<open>The vertices of \<open>S\<close> have distinct numbers above \<open>lo\<close> and up to \<open>tot\<close>.\<close>

definition numbered :: "nat \<Rightarrow> 'v set \<Rightarrow> ('v \<rightharpoonup> nat) \<Rightarrow> nat \<Rightarrow> bool" where
  "numbered lo S m tot \<longleftrightarrow> dom m = S \<and> lo \<le> tot \<and> (\<forall>v k. m v = Some k \<longrightarrow> lo < k \<and> k \<le> tot) \<and> inj_on m S"

lemma numbered_empty [simp]: "numbered lo {} Map.empty lo"
  by (simp add: numbered_def)

lemma hk_number_ok:
  assumes "numbered lo S m tot" "hk_number v (m, tot) = (m', tot')"
  shows "numbered lo (insert v S) m' tot'" "x \<in> S \<Longrightarrow> m' x = m x" "tot \<le> tot'" "tot' \<le> Suc tot"
proof -
  have "dom m = S" "lo \<le> tot" and r: "\<And>v k. m v = Some k \<Longrightarrow> lo < k \<and> k \<le> tot" and inj: "inj_on m S"
    using assms(1) by (auto simp: numbered_def)
  show "tot \<le> tot'" "tot' \<le> Suc tot" using assms(2) by (auto simp: hk_number_def split: if_splits)
  show "m' x = m x" if "x \<in> S"
    using assms(2) that \<open>dom m = S\<close> by (auto simp: hk_number_def split: if_splits)
  show "numbered lo (insert v S) m' tot'"
  proof (cases "m v = None")
    case True
    have m': "m' = m(v \<mapsto> Suc tot)" "tot' = Suc tot" using assms(2) True by (auto simp: hk_number_def)
    have "v \<notin> S" using True \<open>dom m = S\<close> by auto
    then have "inj_on m' S" using inj unfolding m' by (simp add: inj_on_def)
    moreover have "Some (Suc tot) \<notin> m ` S" using r [of _ "Suc tot"] by fastforce
    ultimately have "inj_on m' (insert v S)" using \<open>v \<notin> S\<close> unfolding m' by auto
    moreover have "\<forall>x k. m' x = Some k \<longrightarrow> lo < k \<and> k \<le> tot'"
      using r \<open>lo \<le> tot\<close> unfolding m' by (auto simp: le_Suc_eq)
    ultimately show ?thesis using \<open>dom m = S\<close> \<open>lo \<le> tot\<close> m' by (simp add: numbered_def)
  next
    case False
    then have "v \<in> S" "m' = m" "tot' = tot" using assms(2) \<open>dom m = S\<close> by (auto simp: hk_number_def)
    then show ?thesis using assms(1) by (simp add: insert_absorb)
  qed
qed

lemma hk_left_ok:
  "hk_left edges = (m, tot) \<Longrightarrow> numbered 0 (fst ` set edges) m tot \<and> tot \<le> length edges"
proof (induction edges arbitrary: m tot rule: rev_induct)
  case Nil
  then show ?case by (auto simp: hk_left_def)
next
  case (snoc it edges)
  obtain m1 t1 where 1: "hk_left edges = (m1, t1)" by (cases "hk_left edges")
  then have "hk_number (fst it) (m1, t1) = (m, tot)" using snoc.prems by (simp add: hk_left_def)
  from hk_number_ok [OF conjunct1 [OF snoc.IH [OF 1]] this] snoc.IH [OF 1] show ?case by simp
qed

lemma hk_right_ok:
  "hk_right vl n edges = ((m, tot), e) \<Longrightarrow>
    numbered n (snd ` set edges) m tot \<and> e = map (\<lambda>(l, r). (the (vl l), the (m r))) edges"
proof (induction edges arbitrary: m tot e rule: rev_induct)
  case Nil
  then show ?case by (auto simp: hk_right_def)
next
  case (snoc it edges)
  obtain m1 t1 e1 where 1: "hk_right vl n edges = ((m1, t1), e1)" by (metis prod.collapse)
  note IH = snoc.IH [OF 1]
  have num: "hk_number (snd it) (m1, t1) = (m, tot)" and e: "e = e1 @ [(the (vl (fst it)), the (m (snd it)))]"
    using 1 snoc.prems by (auto simp: hk_right_def Let_def)
  note N = hk_number_ok [OF conjunct1 [OF IH] num]
  have "m r = m1 r" if "(l, r) \<in> set edges" for l r using N(2) [of r] that by force
  then have "e1 = map (\<lambda>(l, r). (the (vl l), the (m r))) edges" using IH by (auto simp: case_prod_beta)
  then show ?case using N(1) e by (simp add: case_prod_beta)
qed

lemma numbered_inj:
  assumes "numbered lo S m tot" "a \<in> S" "b \<in> S" "the (m a) = the (m b)"
  shows "a = b"
proof -
  obtain i j where "m a = Some i" "m b = Some j" using assms(1-3) by (auto simp: numbered_def)
  then have "m a = m b" using assms(4) by simp
  then show ?thesis using assms(1-3) unfolding numbered_def by (blast dest: inj_onD)
qed

lemma numbered_range:
  assumes "numbered lo S m tot" "a \<in> S"
  shows "lo < the (m a) \<and> the (m a) \<le> tot"
  using assms by (auto simp: numbered_def)

text \<open>The numbering of both sides of an edge.\<close>

definition hk_ids :: "('l, 'r) hopcroft_karp_impl \<Rightarrow> 'l \<times> 'r \<Rightarrow> nat \<times> nat" where
  "hk_ids h = (\<lambda>(l, r). (the (hk_vl h l), the (hk_vr h r)))"

lemma hk_new_ok:
  assumes "length edges + 1 < hk_inf"
  defines "h \<equiv> hk_new edges"
  defines "m \<equiv> hk_vl_size h + hk_vr_size h"
  shows "hk_graph (hk_e h) (hk_vl_size h) m" "set (hk_e h) = hk_ids h ` set edges" "length (hk_e h) = length edges"
    "hk_pair h = replicate (m + 1) 0" "length (hk_dist h) = hk_vl_size h + 1"
    and inj: "\<And>l l' r r'. (l, r) \<in> set edges \<Longrightarrow> (l', r') \<in> set edges \<Longrightarrow>
      (fst (hk_ids h (l, r)) = fst (hk_ids h (l', r')) \<longrightarrow> l = l') \<and> (snd (hk_ids h (l, r)) = snd (hk_ids h (l', r')) \<longrightarrow> r = r')"
proof -
  obtain vl n where L: "hk_left edges = (vl, n)" by (cases "hk_left edges")
  obtain vr tot e where R: "hk_right vl n edges = ((vr, tot), e)" by (metis prod.collapse)
  note l = hk_left_ok [OF L]
  note r = hk_right_ok [OF R]
  have "n \<le> tot" using r by (simp add: numbered_def)
  have h: "h = \<lparr>hk_e = sort e, hk_vl = vl, hk_vl_size = n, hk_vr = vr, hk_vr_size = tot - n,
      hk_pair = replicate (n + (tot - n) + 1) 0, hk_dist = replicate (n + 1) 0\<rparr>"
    by (simp add: h_def hk_new_def L R)
  then have m: "m = tot" using \<open>n \<le> tot\<close> by (simp add: m_def)
  have e: "e = map (hk_ids h) edges" using r by (simp add: hk_ids_def h)
  have he: "hk_e h = sort e" and hv: "hk_vl h = vl" "hk_vr h = vr" by (simp_all add: h)
  show "set (hk_e h) = hk_ids h ` set edges" "length (hk_e h) = length edges" by (simp_all add: he) (simp_all add: e)
  show "hk_pair h = replicate (m + 1) 0" "length (hk_dist h) = hk_vl_size h + 1" using m \<open>n \<le> tot\<close> by (simp_all add: h)
  have ids: "1 \<le> v \<and> v \<le> n \<and> n < u \<and> u \<le> tot" if vu: "(v, u) \<in> set e" for v u
  proof -
    obtain a b where ab: "(a, b) \<in> set edges" "v = the (vl a)" "u = the (vr b)"
      using vu [unfolded e] by (auto simp: hk_ids_def hv)
    then have "a \<in> fst ` set edges" "b \<in> snd ` set edges" by force+
    then show ?thesis
      using numbered_range [OF conjunct1 [OF l], of a] numbered_range [OF conjunct1 [OF r], of b] ab(2,3) by auto
  qed
  show "hk_graph (hk_e h) (hk_vl_size h) m"
    using ids l assms(1) by (auto simp: hk_graph_def h m)
  fix a a' b b' assume "(a, b) \<in> set edges" "(a', b') \<in> set edges"
  then have "a \<in> fst ` set edges" "a' \<in> fst ` set edges" "b \<in> snd ` set edges" "b' \<in> snd ` set edges" by force+
  then show "(fst (hk_ids h (a, b)) = fst (hk_ids h (a', b')) \<longrightarrow> a = a') \<and>
      (snd (hk_ids h (a, b)) = snd (hk_ids h (a', b')) \<longrightarrow> b = b')"
    using numbered_inj [OF conjunct1 [OF l], of a a'] numbered_inj [OF conjunct1 [OF r], of b b']
    by (simp add: hk_ids_def h)
qed

lemma matching_image:
  assumes inj: "\<And>l l' r r'. (l, r) \<in> E \<Longrightarrow> (l', r') \<in> E \<Longrightarrow>
      (fst (f (l, r)) = fst (f (l', r')) \<longrightarrow> l = l') \<and> (snd (f (l, r)) = snd (f (l', r')) \<longrightarrow> r = r')"
    and M: "M \<subseteq> E" "is_matching M"
  shows "is_matching (f ` M)" "card (f ` M) = card M"
proof -
  have a: "x = y" if "x \<in> M" "y \<in> M" "fst (f x) = fst (f y) \<or> snd (f x) = snd (f y)" for x y
  proof -
    have "fst x = fst y \<or> snd x = snd y"
      using inj [of "fst x" "snd x" "fst y" "snd y"] that M(1) by auto
    then show ?thesis using M(2) that(1,2) unfolding is_matching_def by (meson inj_onD)
  qed
  have "x = y" if "x \<in> f ` M" "y \<in> f ` M" "fst x = fst y \<or> snd x = snd y" for x y
    using that a by blast
  then show "is_matching (f ` M)" unfolding is_matching_def by (blast intro: inj_onI)
  show "card (f ` M) = card M" by (rule card_image) (auto intro!: inj_onI dest: a)
qed

lemma matching_preimage:
  assumes inj: "\<And>l l' r r'. (l, r) \<in> E \<Longrightarrow> (l', r') \<in> E \<Longrightarrow>
      (fst (f (l, r)) = fst (f (l', r')) \<longrightarrow> l = l') \<and> (snd (f (l, r)) = snd (f (l', r')) \<longrightarrow> r = r')"
    and one: "\<And>x y. fst x = fst y \<Longrightarrow> fst (f x) = fst (f y)" "\<And>x y. snd x = snd y \<Longrightarrow> snd (f x) = snd (f y)"
    and M: "M \<subseteq> E" "is_matching (f ` M)"
  shows "is_matching M" "card M = card (f ` M)"
proof -
  have eq: "x = y" if "x \<in> M" "y \<in> M" "f x = f y" for x y
    using inj [of "fst x" "snd x" "fst y" "snd y"] that M(1) by (auto simp: prod_eq_iff)
  have "x = y" if "x \<in> M" "y \<in> M" "fst x = fst y \<or> snd x = snd y" for x y
  proof -
    have "fst (f x) = fst (f y) \<or> snd (f x) = snd (f y)" using one that(3) by blast
    then have "f x = f y" using M(2) that(1,2) unfolding is_matching_def by (meson imageI inj_onD)
    then show ?thesis by (rule eq [OF that(1,2)])
  qed
  then show "is_matching M" unfolding is_matching_def by (blast intro: inj_onI)
  show "card M = card (f ` M)" by (rule card_image [symmetric]) (blast intro: inj_onI eq)
qed

section \<open>The result\<close>

lemma image_restrict: "F \<subseteq> f ` S \<Longrightarrow> f ` {x \<in> S. f x \<in> F} = F"
  by auto

lemma set_filter_nth: "{xs ! i | i. i < length xs \<and> P (xs ! i)} = {x \<in> set xs. P x}"
  by (auto simp: in_set_conv_nth)

lemma hk_execute_ok:
  assumes g: "hk_graph (hk_e h) (hk_vl_size h) m" and p: "hk_pair h = replicate (m + 1) 0" "hk_vl_size h \<le> m"
    and d: "length (hk_dist h) = hk_vl_size h + 1"
  shows "\<exists>k res h'. hk_execute h = Some (k, res, h') \<and> length res = length (hk_e h) \<and>
    is_matching {hk_e h ! i |i. i < length (hk_e h) \<and> res ! i} \<and>
    card {hk_e h ! i |i. i < length (hk_e h) \<and> res ! i} = k \<and>
    (\<forall>M. M \<subseteq> set (hk_e h) \<and> is_matching M \<longrightarrow> card M \<le> k)"
proof -
  let ?n = "hk_vl_size h"
  have nth: "hk_pair h ! x = 0" if "x \<le> m" for x using that by (simp add: p(1) nth_Cons')
  have "hk_valid (hk_e h) ?n m (hk_pair h)"
    unfolding hk_valid_def using nth p by auto
  moreover have "matched ?n (hk_pair h) = {}" using nth p(2) by (auto simp: matched_def)
  ultimately obtain k' p' d' where r: "hk_phases (hk_e h) ?n 0 (hk_pair h, hk_dist h) = Some (k', p', d')"
    "hk_valid (hk_e h) ?n m p'" "k' = card (matched ?n p')" "\<forall>M. M \<subseteq> set (hk_e h) \<and> is_matching M \<longrightarrow> card M \<le> k'"
    using hk_phases_ok [OF g _ d, of "hk_pair h" 0] by auto
  let ?res = "map (\<lambda>it. p' ! fst it = snd it) (hk_e h)"
  have "{hk_e h ! i |i. i < length (hk_e h) \<and> ?res ! i} = pair_edges ?n p'"
    using set_filter_nth [of "hk_e h" "\<lambda>it. p' ! fst it = snd it"] unfolding pair_edges(1) [OF g r(2)]
    by (simp cong: conj_cong)
  moreover have "hk_execute h = Some (k', ?res, h\<lparr>hk_pair := p', hk_dist := d'\<rparr>)"
    by (simp add: hk_execute_def r(1))
  ultimately show ?thesis using pair_edges(2,3) [OF g r(2)] r(3,4) by simp
qed

text \<open>C2: For fewer than 0x7fffffff - 1 edges \<open>hopcroft_karp\<close> returns: the edges it flags, in the order of
  its own sorted list of numbered edges, are the numbers of a matching of the given edges, the returned
  size is the size of that matching, and no matching of the given edges is larger.\<close>
theorem hopcroft_karp_maximum:
  assumes "length edges + 1 < hk_inf"
  shows "\<exists>k res. hopcroft_karp edges = Some (k, res) \<and> length res = length edges \<and>
    (\<exists>M. M \<subseteq> set edges \<and> is_matching M \<and> card M = k \<and>
      hk_ids (hk_new edges) ` M = {hk_e (hk_new edges) ! i |i. i < length edges \<and> res ! i}) \<and>
    (\<forall>M. M \<subseteq> set edges \<and> is_matching M \<longrightarrow> card M \<le> k)"
proof -
  let ?h = "hk_new edges"
  let ?f = "hk_ids ?h"
  note H = hk_new_ok [OF assms]
  obtain k res h' where r: "hk_execute ?h = Some (k, res, h')" "length res = length (hk_e ?h)"
    "is_matching {hk_e ?h ! i |i. i < length (hk_e ?h) \<and> res ! i}"
    "card {hk_e ?h ! i |i. i < length (hk_e ?h) \<and> res ! i} = k"
    and max: "\<forall>M. M \<subseteq> set (hk_e ?h) \<and> is_matching M \<longrightarrow> card M \<le> k"
    using hk_execute_ok [OF H(1,4) _ H(5)] by auto
  let ?F = "{hk_e ?h ! i |i. i < length edges \<and> res ! i}"
  define M where "M = {x \<in> set edges. ?f x \<in> ?F}"
  have "?F \<subseteq> ?f ` set edges" unfolding H(2) [symmetric] by (auto simp: H(3) [symmetric])
  then have img: "?f ` M = ?F" unfolding M_def by (rule image_restrict)
  have sub: "M \<subseteq> set edges" by (auto simp: M_def)
  have one: "fst x = fst y \<Longrightarrow> fst (?f x) = fst (?f y)" "snd x = snd y \<Longrightarrow> snd (?f x) = snd (?f y)" for x y
    by (simp_all add: hk_ids_def case_prod_beta)
  have "is_matching (?f ` M)" using r(3) unfolding img H(3) .
  note M = matching_preimage [OF H(6) one sub this]
  moreover have "card (?f ` M) = k" using r(4) unfolding img H(3) .
  moreover note M sub
  moreover have "card N \<le> k" if "N \<subseteq> set edges" "is_matching N" for N
  proof -
    have "?f ` N \<subseteq> set (hk_e ?h)" using that(1) by (auto simp: H(2))
    moreover have "is_matching (?f ` N)" "card (?f ` N) = card N" using matching_image [OF H(6) that] by blast+
    ultimately show ?thesis using max by auto
  qed
  moreover have "hopcroft_karp edges = Some (k, res)" by (simp add: hopcroft_karp_def r(1))
  ultimately show ?thesis using img r(2) H(3) by auto
qed

theorem hopcroft_karp_maximum_witness:
  "\<exists>k res. hopcroft_karp [(1 :: nat, True), (2, True), (2, False)] = Some (k, res) \<and> length res = 3"
  using hopcroft_karp_maximum [of "[(1 :: nat, True), (2, True), (2, False)]"] by (auto simp: hk_inf_def)

text \<open>The flags follow the sorted list of numbered edges, not the order of the argument: here the two edges
  of the matching come first in the argument, and the flags are those of the first and the last.\<close>

lemma hopcroft_karp_flag_order:
  "hopcroft_karp [(1 :: nat, 1 :: nat), (2, 2), (1, 2)] = Some (2, [True, False, True])"
proof -
  let ?e = "[(1, 3), (1, 4), (2, 4)] :: (nat \<times> nat) list"
  have new: "hk_new [(1 :: nat, 1 :: nat), (2, 2), (1, 2)] =
      \<lparr>hk_e = ?e, hk_vl = [1 \<mapsto> 1, 2 \<mapsto> 2], hk_vl_size = 2, hk_vr = [1 \<mapsto> 3, 2 \<mapsto> 4],
       hk_vr_size = 2, hk_pair = [0, 0, 0, 0, 0], hk_dist = [0, 0, 0]\<rparr>"
    by (simp add: hk_new_def hk_left_def hk_right_def hk_number_def numeral_nat)
  have bfs1: "hk_bfs ?e 2 [0, 0, 0, 0, 0] [0, 0, 0] = Some (True, [1, 0, 0])"
    by (simp add: hk_bfs_def bfs_init_def numeral_nat)
      (subst bfs_loop.simps, simp add: edges_of_def bfs_visit_def hk_inf_def)+
  have dfs1: "dfs_loop ?e 1 (edges_of ?e 1) ([0, 0, 0, 0, 0], [1, 0, 0]) = Some (True, [0, 3, 0, 1, 0], [1, 0, 0])"
    by (subst dfs_loop.simps, simp add: edges_of_def, (subst dfs_loop.simps, simp)?)
  have dfs2: "dfs_loop ?e 2 (edges_of ?e 2) ([0, 3, 0, 1, 0], [1, 0, 0]) = Some (True, [0, 3, 4, 1, 2], [1, 0, 0])"
    by (subst dfs_loop.simps, simp add: edges_of_def, (subst dfs_loop.simps, simp)?)
  have bfs2: "hk_bfs ?e 2 [0, 3, 4, 1, 2] [1, 0, 0] = Some (False, [hk_inf, hk_inf, hk_inf])"
    by (simp add: hk_bfs_def bfs_init_def numeral_nat) (subst bfs_loop.simps, simp)
  have "[1..<2 + 1] = [1, 2 :: nat]" by (simp add: numeral_nat)
  then have round: "hk_round ?e [1..<2 + 1] 0 ([0, 0, 0, 0, 0], [1, 0, 0]) = Some (2, [0, 3, 4, 1, 2], [1, 0, 0])"
    using dfs1 dfs2 by (simp add: hk_dfs_def)
  have "hk_phases ?e 2 0 ([0, 0, 0, 0, 0], [0, 0, 0]) = Some (2, [0, 3, 4, 1, 2], [hk_inf, hk_inf, hk_inf])"
    by (subst hk_phases.simps, simp only: fst_conv snd_conv bfs1 round Option.bind.simps if_True)
      (subst hk_phases.simps, simp only: fst_conv snd_conv bfs2 Option.bind.simps if_False)
  then show ?thesis unfolding hopcroft_karp_def hk_execute_def new by simp
qed

end
