(* ===== verification/Zi_SCC.thy ===== *)
theory Zi_SCC
  imports Zi_Prelude "HOL-Library.Product_Lexorder"
begin

text \<open>
  \<^verbatim>\<open>zi/graph/strongly_connected_components.hpp\<close>: Tarjan's algorithm. Vertices are numbered from 0 in the order
  in which the edges name them; numbers are natural numbers, with the \<open>inf\<close> of the code, and the theorems
  assume fewer vertices than \<open>inf\<close>. The position at which the constructor stores an edge is the 32-bit
  \<open>idx\<close> of the code: it wraps around, and the theorems assume at most \<open>2 ^ 32\<close> edges. The stack is a list with its top first. \<open>None\<close>: the recursion does not
  end or the empty stack is popped; neither happens.
\<close>

section \<open>The class\<close>

record scc_state =
  indexi :: "nat list"
  comps :: "nat list"
  lowlink :: "nat list"
  stack :: "nat list"
  index :: nat
  comp_no :: nat

record 'v tarjan_strongly_cc_impl =
  scc_e :: "(nat \<times> nat) list"
  scc_vmap :: "'v \<rightharpoonup> nat"
  scc_state :: scc_state

definition scc_inf :: nat where
  "scc_inf = 0x7fffffff"

text \<open>The loop of the constructor.\<close>

definition scc_number :: "'v \<Rightarrow> ('v \<rightharpoonup> nat) \<times> nat \<Rightarrow> ('v \<rightharpoonup> nat) \<times> nat" where
  "scc_number v = (\<lambda>(vmap, tot). if vmap v = None then (vmap(v \<mapsto> tot), tot + 1) else (vmap, tot))"

definition scc_edge :: "'v \<times> 'v \<Rightarrow> (('v \<rightharpoonup> nat) \<times> nat) \<times> (u32 \<times> (nat \<times> nat) list)
    \<Rightarrow> (('v \<rightharpoonup> nat) \<times> nat) \<times> (u32 \<times> (nat \<times> nat) list)" where
  "scc_edge it = (\<lambda>(vm, (idx, e)).
     let vm = scc_number (snd it) (scc_number (fst it) vm);
         e = e[unat idx := (the (fst vm (fst it)), the (fst vm (snd it)))]
     in (vm, (idx + 1, e)))"

definition scc_new :: "('v \<times> 'v) list \<Rightarrow> 'v tarjan_strongly_cc_impl" where
  "scc_new edges =
     (let ((vmap, tot), (idx, e)) = fold scc_edge edges ((Map.empty, 0), (0, replicate (length edges) (0, 0)))
      in \<lparr>scc_e = sort e, scc_vmap = vmap,
          scc_state = \<lparr>indexi = replicate tot scc_inf, comps = replicate tot 0, lowlink = replicate tot 0, stack = [],
            index = 0, comp_no = 0\<rparr>\<rparr>)"

text \<open>From \<open>lower_bound\<close> of \<open>( v, 0 )\<close> while the first number is \<open>v\<close>.\<close>

definition succs_of :: "(nat \<times> nat) list \<Rightarrow> nat \<Rightarrow> (nat \<times> nat) list" where
  "succs_of e v = takeWhile (\<lambda>it. fst it = v) (dropWhile (\<lambda>it. it < (v, 0)) e)"

section \<open>The recursion\<close>

text \<open>\<open>tarjan\<close> up to its loop, the loop with the edges it has left, and the end.\<close>

definition tarjan_open :: "nat \<Rightarrow> scc_state \<Rightarrow> scc_state" where
  "tarjan_open v s =
     s\<lparr>indexi := (indexi s)[v := index s], lowlink := (lowlink s)[v := index s], index := index s + 1,
       stack := v # stack s, comps := (comps s)[v := scc_inf]\<rparr>"

fun pop_component :: "nat \<Rightarrow> nat \<Rightarrow> nat list \<Rightarrow> nat list \<Rightarrow> (nat list \<times> nat list) option" where
  "pop_component v c [] cs = None"
| "pop_component v c (vp # st) cs = (let cs = cs[vp := c] in if vp \<noteq> v then pop_component v c st cs else Some (st, cs))"

definition tarjan_close :: "nat \<Rightarrow> scc_state \<Rightarrow> scc_state option" where
  "tarjan_close v s =
     (if indexi s ! v = lowlink s ! v
      then
        do {
          (st, cs) \<leftarrow> pop_component v (comp_no s) (stack s) (comps s);
          Some (s\<lparr>stack := st, comps := cs, comp_no := comp_no s + 1\<rparr>)
        }
      else Some s)"

definition lower :: "nat \<Rightarrow> nat \<Rightarrow> scc_state \<Rightarrow> scc_state" where
  "lower v x s = s\<lparr>lowlink := (lowlink s)[v := min (lowlink s ! v) x]\<rparr>"

partial_function (option) tarjan_loop :: "(nat \<times> nat) list \<Rightarrow> nat \<Rightarrow> (nat \<times> nat) list \<Rightarrow> scc_state \<Rightarrow> scc_state option" where
  "tarjan_loop e v es s =
     (case es of
        [] \<Rightarrow> tarjan_close v s
      | it # es \<Rightarrow>
          if indexi s ! snd it = scc_inf
          then
            do {
              s \<leftarrow> tarjan_loop e (snd it) (succs_of e (snd it)) (tarjan_open (snd it) s);
              tarjan_loop e v es (lower v (lowlink s ! snd it) s)
            }
          else if comps s ! snd it = scc_inf then tarjan_loop e v es (lower v (indexi s ! snd it) s)
          else tarjan_loop e v es s)"

definition tarjan :: "(nat \<times> nat) list \<Rightarrow> nat \<Rightarrow> scc_state \<Rightarrow> scc_state option" where
  "tarjan e v s = tarjan_loop e v (succs_of e v) (tarjan_open v s)"

fun tarjan_all :: "(nat \<times> nat) list \<Rightarrow> nat list \<Rightarrow> scc_state \<Rightarrow> scc_state option" where
  "tarjan_all e [] s = Some s"
| "tarjan_all e (i # is) s =
     do { s \<leftarrow> if indexi s ! i = scc_inf then tarjan e i s else Some s; tarjan_all e is s }"

text \<open>The result is a map from vertices to components: the order of an unordered map is not specified.\<close>

definition scc_execute :: "'v tarjan_strongly_cc_impl \<Rightarrow> (nat \<times> ('v \<rightharpoonup> nat) \<times> 'v tarjan_strongly_cc_impl) option" where
  "scc_execute t =
     do {
       s \<leftarrow> tarjan_all (scc_e t) [0..<length (indexi (scc_state t))] (scc_state t);
       Some (comp_no s, map_option ((!) (comps s)) \<circ> scc_vmap t, t\<lparr>scc_state := s\<rparr>)
     }"

definition tarjan_strongly_cc :: "('v \<times> 'v) list \<Rightarrow> (nat \<times> ('v \<rightharpoonup> nat)) option" where
  "tarjan_strongly_cc edges = do { (n, res, t) \<leftarrow> scc_execute (scc_new edges); Some (n, res) }"

section \<open>The invariant\<close>

definition scc_graph :: "(nat \<times> nat) list \<Rightarrow> nat \<Rightarrow> bool" where
  "scc_graph e n \<longleftrightarrow> sorted e \<and> n < scc_inf \<and> (\<forall>(v, w) \<in> set e. v < n \<and> w < n)"

definition mutual :: "('v \<times> 'v) set \<Rightarrow> 'v \<Rightarrow> 'v \<Rightarrow> bool" where
  "mutual E u v \<longleftrightarrow> (u, v) \<in> E\<^sup>* \<and> (v, u) \<in> E\<^sup>*"

definition seen :: "nat \<Rightarrow> scc_state \<Rightarrow> nat set" where
  "seen n s = {v. v < n \<and> indexi s ! v \<noteq> scc_inf}"

definition finished :: "nat \<Rightarrow> scc_state \<Rightarrow> nat set" where
  "finished n s = {v. v < n \<and> indexi s ! v \<noteq> scc_inf \<and> comps s ! v \<noteq> scc_inf}"

text \<open>The vertices in \<open>G\<close> are those whose call has not ended. The stack holds the vertices without a component, the
  last one seen first; from every one of them a vertex of \<open>G\<close> that is not younger can be reached, and every
  vertex of \<open>G\<close> reaches all that are not older. The finished vertices are closed under the edges and have the
  components of the graph, numbered from the end.\<close>

definition scc_inv :: "(nat \<times> nat) list \<Rightarrow> nat \<Rightarrow> nat set \<Rightarrow> scc_state \<Rightarrow> bool" where
  "scc_inv e n G s \<longleftrightarrow>
     length (indexi s) = n \<and> length (comps s) = n \<and> length (lowlink s) = n \<and>
     index s = card (seen n s) \<and> (\<forall>v \<in> seen n s. indexi s ! v < index s) \<and>
     set (stack s) = {v. v < n \<and> comps s ! v = scc_inf} \<and> set (stack s) \<subseteq> seen n s \<and>
     sorted_wrt (\<lambda>x y. indexi s ! y < indexi s ! x) (stack s) \<and> G \<subseteq> set (stack s) \<and>
     (\<forall>v w. (v, w) \<in> set e \<and> v \<in> seen n s \<and> v \<notin> G \<longrightarrow> w \<in> seen n s) \<and>
     (\<forall>v w. (v, w) \<in> set e \<and> v \<in> finished n s \<longrightarrow> w \<in> finished n s \<and> comps s ! w \<le> comps s ! v) \<and>
     (\<forall>u \<in> finished n s. \<forall>v \<in> finished n s. comps s ! u = comps s ! v \<longleftrightarrow> mutual (set e) u v) \<and>
     (!) (comps s) ` finished n s = {..<comp_no s} \<and>
     (\<forall>x \<in> set (stack s). \<exists>g \<in> G. indexi s ! g \<le> indexi s ! x \<and> (x, g) \<in> (set e)\<^sup>*) \<and>
     (\<forall>g \<in> G. \<forall>x \<in> set (stack s). indexi s ! g \<le> indexi s ! x \<longrightarrow> (g, x) \<in> (set e)\<^sup>*)"

lemma scc_invD:
  assumes "scc_inv e n G s"
  shows "length (indexi s) = n" "length (comps s) = n" "length (lowlink s) = n"
    and scc_index: "index s = card (seen n s)" "v \<in> seen n s \<Longrightarrow> indexi s ! v < index s"
    and scc_stack: "set (stack s) = {v. v < n \<and> comps s ! v = scc_inf}" "set (stack s) \<subseteq> seen n s"
      "sorted_wrt (\<lambda>x y. indexi s ! y < indexi s ! x) (stack s)" "G \<subseteq> set (stack s)"
    and scc_black: "(v, w) \<in> set e \<Longrightarrow> v \<in> seen n s \<Longrightarrow> v \<notin> G \<Longrightarrow> w \<in> seen n s"
    and scc_finished: "(v, w) \<in> set e \<Longrightarrow> v \<in> finished n s \<Longrightarrow> w \<in> finished n s"
      "(v, w) \<in> set e \<Longrightarrow> v \<in> finished n s \<Longrightarrow> comps s ! w \<le> comps s ! v"
      "u \<in> finished n s \<Longrightarrow> v \<in> finished n s \<Longrightarrow> comps s ! u = comps s ! v \<longleftrightarrow> mutual (set e) u v"
      "(!) (comps s) ` finished n s = {..<comp_no s}"
    and scc_reach: "x \<in> set (stack s) \<Longrightarrow> \<exists>g \<in> G. indexi s ! g \<le> indexi s ! x \<and> (x, g) \<in> (set e)\<^sup>*"
      "g \<in> G \<Longrightarrow> x \<in> set (stack s) \<Longrightarrow> indexi s ! g \<le> indexi s ! x \<Longrightarrow> (g, x) \<in> (set e)\<^sup>*"
  using assms unfolding scc_inv_def by auto

lemma finite_seen [simp]: "finite (seen n s)" "finite (finished n s)"
  by (simp_all add: seen_def finished_def)

lemma card_seen: "card (seen n s) \<le> n"
  using card_mono [of "{..<n}" "seen n s"] by (auto simp: seen_def)

lemma finished_closed:
  assumes "scc_inv e n G s" "(v, w) \<in> (set e)\<^sup>*" "v \<in> finished n s"
  shows "w \<in> finished n s"
  using assms(2,3) by induction (auto intro: scc_finished(1) [OF assms(1)])

lemma comp_no_less:
  assumes "scc_inv e n G s" "scc_graph e n"
  shows "comp_no s < scc_inf"
proof -
  have "comp_no s = card ((!) (comps s) ` finished n s)" using scc_finished(4) [OF assms(1)] by simp
  also have "\<dots> \<le> card (finished n s)" by (simp add: card_image_le)
  also have "\<dots> \<le> card (seen n s)" by (intro card_mono) (auto simp: finished_def seen_def)
  also have "\<dots> \<le> n" by (rule card_seen)
  finally show ?thesis using assms(2) by (simp add: scc_graph_def)
qed

text \<open>A path that leaves a set has an edge that leaves it.\<close>

lemma path_leaves:
  assumes "(x, y) \<in> E\<^sup>*" "x \<in> P" "y \<notin> P"
  obtains p q where "(p, q) \<in> E" "p \<in> P" "q \<notin> P" "(q, y) \<in> E\<^sup>*"
  using assms
proof (induction arbitrary: thesis rule: converse_rtrancl_induct)
  case (step x z)
  then show ?case by (cases "z \<in> P") auto
qed simp

lemma set_succs_of:
  assumes "sorted e"
  shows "set (succs_of e v) = {it \<in> set e. fst it = v}"
proof -
  let ?r = "dropWhile (\<lambda>it. it < (v, 0)) e"
  have r: "it \<in> set ?r \<longleftrightarrow> it \<in> set e \<and> \<not> it < (v, 0)" for it
    using assms
  proof (induction e)
    case (Cons a e)
    then show ?case by (cases "a < (v, 0)") (auto simp del: less_prod_simp simp: not_less dest: order_trans)
  qed simp
  have tw: "it \<in> set (takeWhile (\<lambda>it. fst it = v) y) \<longleftrightarrow> it \<in> set y \<and> fst it = v"
    if "sorted y" "\<forall>it \<in> set y. v \<le> fst it" for y :: "(nat \<times> nat) list" and it
    using that
  proof (induction y)
    case (Cons b y)
    show ?case
    proof (cases "fst b = v")
      case True
      with Cons show ?thesis by auto
    next
      case False
      with Cons.prems have "v < fst b" by auto
      then have "fst c \<noteq> v" if "c \<in> set y" for c
        using Cons.prems(1) that by (fastforce simp: less_eq_prod_def)
      from this [of it] show ?thesis using False by (cases "it = b"; cases "it \<in> set y") auto
    qed
  qed simp
  have "\<forall>it \<in> set ?r. v \<le> fst it" using r by (auto simp: less_prod_def)
  from tw [OF sorted_dropWhile [OF assms] this] r show ?thesis unfolding succs_of_def by (auto simp: less_prod_def)
qed

section \<open>A call begins\<close>

lemma seen_open:
  assumes "scc_inv e n G s" "v < n" "index s < scc_inf"
  shows "seen n (tarjan_open v s) = insert v (seen n s)"
  using assms scc_invD(1) [OF assms(1)] by (auto simp: seen_def tarjan_open_def nth_list_update)

lemma finished_open:
  assumes "scc_inv e n G s" "v < n" "v \<notin> seen n s"
  shows "finished n (tarjan_open v s) = finished n s"
proof -
  have "v \<notin> finished n s" using assms(3) by (auto simp: finished_def seen_def)
  then show ?thesis
    using assms(2) scc_invD(1,2) [OF assms(1)] by (auto simp: finished_def tarjan_open_def nth_list_update split: if_splits)
qed

lemma index_less:
  assumes "scc_inv e n G s" "scc_graph e n"
  shows "index s < scc_inf"
  using card_seen [of n s] scc_index(1) [OF assms(1)] assms(2) by (simp add: scc_graph_def)

lemma scc_inv_open:
  assumes g: "scc_graph e n" and I: "scc_inv e n G s" and v: "v < n" "v \<notin> seen n s" and G: "\<And>x. x \<in> G \<Longrightarrow> (x, v) \<in> (set e)\<^sup>*"
  shows "scc_inv e n (insert v G) (tarjan_open v s)"
proof -
  let ?t = "tarjan_open v s"
  note D = scc_invD [OF I]
  have ix: "index s < scc_inf" by (rule index_less [OF I g])
  have seen: "seen n ?t = insert v (seen n s)" by (rule seen_open [OF I v(1) ix])
  have fin: "finished n ?t = finished n s" by (rule finished_open [OF I v])
  have nth: "indexi ?t ! x = (if x = v then index s else indexi s ! x)" "comps ?t ! x = (if x = v then scc_inf else comps s ! x)"
    if "x < n" for x
    using that D(1,2) v(1) by (simp_all add: tarjan_open_def nth_list_update)
  have st: "stack ?t = v # stack s" by (simp add: tarjan_open_def)
  have old: "x \<noteq> v \<and> x < n \<and> indexi s ! x < index s" if "x \<in> seen n s" for x
    using that v(2) D(5) [OF that] by (auto simp: seen_def)
  have stk: "x \<noteq> v \<and> x < n \<and> indexi s ! x < index s" if "x \<in> set (stack s)" for x
    using old [of x] that D(7) by blast
  have fin_old: "x \<noteq> v \<and> x < n" if "x \<in> finished n s" for x
    using that old [of x] by (simp add: finished_def seen_def)
  show ?thesis
    unfolding scc_inv_def
  proof (intro conjI)
    show "length (indexi ?t) = n" "length (comps ?t) = n" "length (lowlink ?t) = n"
      using D(1-3) by (simp_all add: tarjan_open_def)
    show "index ?t = card (seen n ?t)" using D(4) v(2) unfolding seen by (simp add: tarjan_open_def)
    show "\<forall>x \<in> seen n ?t. indexi ?t ! x < index ?t"
    proof
      fix x assume "x \<in> seen n ?t"
      then show "indexi ?t ! x < index ?t" using nth [of x] old [of x] v(1) unfolding seen by (auto simp: tarjan_open_def)
    qed
    show "set (stack ?t) = {x. x < n \<and> comps ?t ! x = scc_inf}"
      unfolding st using D(6) v(1) nth(2) by auto
    show "set (stack ?t) \<subseteq> seen n ?t" unfolding st seen using D(7) by auto
    show "sorted_wrt (\<lambda>x y. indexi ?t ! y < indexi ?t ! x) (stack ?t)"
    proof -
      have "sorted_wrt (\<lambda>x y. indexi ?t ! y < indexi ?t ! x) (stack s)"
        by (rule sorted_wrt_mono_rel [OF _ D(8)]) (use nth(1) stk in auto)
      moreover have "\<forall>x \<in> set (stack s). indexi ?t ! x < indexi ?t ! v" using nth(1) stk v(1) by auto
      ultimately show ?thesis by (simp add: st)
    qed
    show "insert v G \<subseteq> set (stack ?t)" using D(9) by (auto simp: st)
    show "\<forall>x w. (x, w) \<in> set e \<and> x \<in> seen n ?t \<and> x \<notin> insert v G \<longrightarrow> w \<in> seen n ?t"
      using D(10) unfolding seen by blast
    show "\<forall>x w. (x, w) \<in> set e \<and> x \<in> finished n ?t \<longrightarrow> w \<in> finished n ?t \<and> comps ?t ! w \<le> comps ?t ! x"
      unfolding fin using D(11,12) fin_old nth(2) by metis
    show "\<forall>x \<in> finished n ?t. \<forall>y \<in> finished n ?t. comps ?t ! x = comps ?t ! y \<longleftrightarrow> mutual (set e) x y"
      unfolding fin using D(13) fin_old nth(2) by metis
    have "(!) (comps ?t) ` finished n s = (!) (comps s) ` finished n s"
      using fin_old nth(2) by (intro image_cong) auto
    then show "(!) (comps ?t) ` finished n ?t = {..<comp_no ?t}"
      unfolding fin using D(14) by (simp add: tarjan_open_def)
    show "\<forall>x \<in> set (stack ?t). \<exists>g \<in> insert v G. indexi ?t ! g \<le> indexi ?t ! x \<and> (x, g) \<in> (set e)\<^sup>*"
    proof
      fix x assume x: "x \<in> set (stack ?t)"
      show "\<exists>g \<in> insert v G. indexi ?t ! g \<le> indexi ?t ! x \<and> (x, g) \<in> (set e)\<^sup>*"
      proof (cases "x = v")
        case False
        with x have xs: "x \<in> set (stack s)" by (simp add: st)
        from D(15) [OF this] obtain g where "g \<in> G" "indexi s ! g \<le> indexi s ! x" "(x, g) \<in> (set e)\<^sup>*" by blast
        moreover have "g \<in> set (stack s)" using \<open>g \<in> G\<close> D(9) by blast
        ultimately show ?thesis using nth(1) stk xs by (intro bexI [of _ g]) auto
      qed auto
    qed
    show "\<forall>g \<in> insert v G. \<forall>x \<in> set (stack ?t). indexi ?t ! g \<le> indexi ?t ! x \<longrightarrow> (g, x) \<in> (set e)\<^sup>*"
    proof (intro ballI impI)
      fix y x assume y: "y \<in> insert v G" and x: "x \<in> set (stack ?t)" and le: "indexi ?t ! y \<le> indexi ?t ! x"
      consider "y = v" "x = v" | "y \<in> G" "x = v" | "y = v" "x \<in> set (stack s)" | "y \<in> G" "x \<in> set (stack s)"
        using y x by (auto simp: st)
      then show "(y, x) \<in> (set e)\<^sup>*"
      proof cases
        case 2
        then show ?thesis using G by simp
      next
        case 3
        then show ?thesis using le nth(1) [of x] nth(1) [of v] stk [of x] v(1) by simp
      next
        case 4
        then show ?thesis using le D(16) nth(1) stk D(9) by (metis subsetD)
      qed simp
    qed
  qed
qed

section \<open>A call ends\<close>

lemma pop_component_ok:
  assumes "v \<notin> set A"
  shows "\<exists>cs'. pop_component v c (A @ v # S0) cs = Some (S0, cs') \<and> length cs' = length cs \<and>
    (\<forall>x < length cs. cs' ! x = (if x \<in> insert v (set A) then c else cs ! x))"
  using assms
proof (induction A arbitrary: cs)
  case Nil
  show ?case by (intro exI [of _ "cs[v := c]"]) (auto simp: Let_def nth_list_update)
next
  case (Cons a A)
  obtain cs' where "pop_component v c (A @ v # S0) (cs[a := c]) = Some (S0, cs')" "length cs' = length cs"
    "\<forall>x < length cs. cs' ! x = (if x \<in> insert v (set A) then c else cs[a := c] ! x)"
    using Cons.IH [of "cs[a := c]"] Cons.prems by auto
  with Cons.prems show ?case by (intro exI [of _ cs']) (auto simp: nth_list_update)
qed

lemma stack_distinct: "sorted_wrt (\<lambda>x y. f y < (f x :: nat)) xs \<Longrightarrow> distinct xs"
  by (induction xs) auto

text \<open>Nothing older on the stack can be reached from what a vertex with \<open>index = lowlink\<close> has above it.\<close>

lemma component_closed:
  assumes I: "scc_inv e n (insert v G) s" and S: "stack s = A @ v # S0"
    and black: "\<And>w. (v, w) \<in> set e \<Longrightarrow> w \<in> seen n s" and G: "G \<subseteq> set S0"
    and low: "\<And>x y. x \<in> insert v (set A) \<Longrightarrow> y \<in> set S0 \<Longrightarrow> (x, y) \<in> set e \<Longrightarrow> indexi s ! v \<le> indexi s ! y"
    and x: "x \<in> insert v (set A)" and xy: "(x, y) \<in> (set e)\<^sup>*"
  shows "y \<in> insert v (set A) \<or> y \<in> finished n s"
proof (rule ccontr)
  note D = scc_invD [OF I]
  assume y: "\<not> ?thesis"
  then have "y \<notin> insert v (set A)" by blast
  from path_leaves [OF xy x this] obtain p q
    where pq: "(p, q) \<in> set e" "p \<in> insert v (set A)" "q \<notin> insert v (set A)" "(q, y) \<in> (set e)\<^sup>*" by blast
  have "distinct (stack s)" using D(8) by (rule stack_distinct)
  have "p \<in> seen n s" using pq(2) D(7) S by auto
  moreover have "p \<notin> insert v G \<or> p = v" using pq(2) G \<open>distinct (stack s)\<close> unfolding S by auto
  ultimately have q: "q \<in> seen n s" using black D(10) pq(1) by blast
  show False
  proof (cases "q \<in> set (stack s)")
    case True
    then have q0: "q \<in> set S0" using pq(3) S by auto
    have "indexi s ! q < indexi s ! v" using D(8) q0 unfolding S by (auto simp: sorted_wrt_append)
    with low [OF pq(2) q0 pq(1)] show False by simp
  next
    case False
    then have "q \<in> finished n s" using q D(6) by (auto simp: finished_def seen_def)
    with finished_closed [OF I pq(4)] y show False by blast
  qed
qed

lemma component_found:
  assumes g: "scc_graph e n" and I: "scc_inv e n (insert v G) s" and S: "stack s = A @ v # S0"
    and black: "\<And>w. (v, w) \<in> set e \<Longrightarrow> w \<in> seen n s" and G: "G \<subseteq> set S0"
    and low: "\<And>x y. x \<in> insert v (set A) \<Longrightarrow> y \<in> set S0 \<Longrightarrow> (x, y) \<in> set e \<Longrightarrow> indexi s ! v \<le> indexi s ! y"
    and cs: "length cs = n" "\<And>x. x < n \<Longrightarrow> cs ! x = (if x \<in> insert v (set A) then comp_no s else comps s ! x)"
  shows "scc_inv e n G (s\<lparr>stack := S0, comps := cs, comp_no := comp_no s + 1\<rparr>)"
proof -
  let ?t = "s\<lparr>stack := S0, comps := cs, comp_no := comp_no s + 1\<rparr>" and ?P = "insert v (set A)"
  note D = scc_invD [OF I]
  have closed: "y \<in> ?P \<or> y \<in> finished n s" if "x \<in> ?P" "(x, y) \<in> (set e)\<^sup>*" for x y
    by (rule component_closed [OF I S _ G _ that]) (use black low in blast)+
  have ci: "comp_no s < scc_inf" by (rule comp_no_less [OF I g])
  have dist: "distinct (A @ v # S0)" using stack_distinct [OF D(8)] S by simp
  have P: "x < n \<and> x \<in> seen n s \<and> comps s ! x = scc_inf \<and> x \<notin> finished n s \<and> indexi s ! v \<le> indexi s ! x" if "x \<in> ?P" for x
  proof -
    have "x \<in> set (stack s)" using that S by auto
    then have "x < n" "comps s ! x = scc_inf" "x \<in> seen n s" using D(6,7) by auto
    moreover have "indexi s ! v \<le> indexi s ! x" using D(8) that unfolding S by (auto simp: sorted_wrt_append)
    ultimately show ?thesis by (simp add: finished_def)
  qed
  have seen: "seen n ?t = seen n s" by (simp add: seen_def)
  have fin: "finished n ?t = finished n s \<union> ?P"
    using P cs(2) ci by (auto simp: finished_def seen_def split: if_splits)
  have fin_old: "x < n \<and> x \<notin> ?P \<and> cs ! x = comps s ! x \<and> comps s ! x < comp_no s" if "x \<in> finished n s" for x
  proof -
    have "x < n" "x \<notin> ?P" using that P by (auto simp: finished_def)
    moreover have "comps s ! x < comp_no s" using D(14) that by blast
    ultimately show ?thesis using cs(2) by simp
  qed
  have fin_new: "cs ! x = comp_no s" if "x \<in> ?P" for x using that P cs(2) by simp
  have to: "(v, x) \<in> (set e)\<^sup>*" if x: "x \<in> ?P" for x
    using D(16) [of v x] P [OF x] x S by auto
  have from_P: "(x, v) \<in> (set e)\<^sup>*" if x: "x \<in> ?P" for x
  proof -
    have "x \<in> set (stack s)" using x S by auto
    from D(15) [OF this] obtain h where h: "h \<in> insert v G" "(x, h) \<in> (set e)\<^sup>*" by blast
    have "h \<notin> finished n s" using h(1) D(6,9) by (auto simp: finished_def)
    with closed [OF x h(2)] have "h \<in> ?P" by blast
    then have "h = v" using h(1) G dist by auto
    with h(2) show ?thesis by simp
  qed
  have not_mutual: "\<not> mutual (set e) x y" if "x \<in> ?P" "y \<in> finished n s" for x y
    using finished_closed [OF I _ that(2)] P [OF that(1)] by (auto simp: mutual_def)
  show ?thesis
    unfolding scc_inv_def
  proof (intro conjI)
    show "length (indexi ?t) = n" "length (comps ?t) = n" "length (lowlink ?t) = n" using D(1-3) cs(1) by simp_all
    show "index ?t = card (seen n ?t)" "\<forall>x \<in> seen n ?t. indexi ?t ! x < index ?t" using D(4,5) unfolding seen by simp_all
    have "x \<in> set S0 \<longleftrightarrow> x < n \<and> cs ! x = scc_inf" for x
      using cs(2) [of x] D(6) ci dist unfolding S by (cases "x \<in> ?P") auto
    then show "set (stack ?t) = {x. x < n \<and> comps ?t ! x = scc_inf}" by auto
    show "set (stack ?t) \<subseteq> seen n ?t" unfolding seen using D(7) S by auto
    show "sorted_wrt (\<lambda>x y. indexi ?t ! y < indexi ?t ! x) (stack ?t)" using D(8) unfolding S by (simp add: sorted_wrt_append)
    show "G \<subseteq> set (stack ?t)" using G by simp
    show "\<forall>x w. (x, w) \<in> set e \<and> x \<in> seen n ?t \<and> x \<notin> G \<longrightarrow> w \<in> seen n ?t"
      unfolding seen using D(10) black by blast
    show "\<forall>x w. (x, w) \<in> set e \<and> x \<in> finished n ?t \<longrightarrow> w \<in> finished n ?t \<and> comps ?t ! w \<le> comps ?t ! x"
    proof (intro allI impI)
      fix x w assume xw: "(x, w) \<in> set e \<and> x \<in> finished n ?t"
      show "w \<in> finished n ?t \<and> comps ?t ! w \<le> comps ?t ! x"
      proof (cases "x \<in> ?P")
        case True
        then have "w \<in> ?P \<or> w \<in> finished n s" using closed [OF True, of w] xw by blast
        then show ?thesis using fin fin_old [of w] fin_new [of w] fin_new [OF True] by auto
      next
        case False
        then have "x \<in> finished n s" using xw fin by blast
        then show ?thesis using D(11,12) [of x w] xw fin fin_old by auto
      qed
    qed
    show "\<forall>x \<in> finished n ?t. \<forall>y \<in> finished n ?t. comps ?t ! x = comps ?t ! y \<longleftrightarrow> mutual (set e) x y"
    proof (intro ballI)
      fix x y assume "x \<in> finished n ?t" "y \<in> finished n ?t"
      then consider "x \<in> ?P" "y \<in> ?P" | "x \<in> ?P" "y \<in> finished n s" | "x \<in> finished n s" "y \<in> ?P"
        | "x \<in> finished n s" "y \<in> finished n s"
        unfolding fin by blast
      then show "comps ?t ! x = comps ?t ! y \<longleftrightarrow> mutual (set e) x y"
      proof cases
        case 1
        then have "mutual (set e) x y" using to from_P unfolding mutual_def by (meson rtrancl_trans)
        with 1 fin_new show ?thesis by simp
      next
        case 2
        then show ?thesis using not_mutual [of x y] fin_new [of x] fin_old [of y] by auto
      next
        case 3
        then show ?thesis using not_mutual [of y x] fin_new [of y] fin_old [of x] by (auto simp: mutual_def)
      next
        case 4
        then show ?thesis using D(13) fin_old by simp
      qed
    qed
    have "(!) cs ` finished n s = (!) (comps s) ` finished n s" using fin_old by (intro image_cong) auto
    moreover have "(!) cs ` ?P = {comp_no s}" using fin_new by auto
    ultimately show "(!) (comps ?t) ` finished n ?t = {..<comp_no ?t}"
      unfolding fin image_Un using D(14) by auto
    show "\<forall>x \<in> set (stack ?t). \<exists>g \<in> G. indexi ?t ! g \<le> indexi ?t ! x \<and> (x, g) \<in> (set e)\<^sup>*"
    proof
      fix x assume x: "x \<in> set (stack ?t)"
      then have "x \<in> set (stack s)" by (simp add: S)
      from D(15) [OF this] obtain h where h: "h \<in> insert v G" "indexi s ! h \<le> indexi s ! x" "(x, h) \<in> (set e)\<^sup>*" by blast
      have "indexi s ! x < indexi s ! v" using D(8) x unfolding S by (simp add: sorted_wrt_append)
      with h have "h \<in> G" by auto
      with h show "\<exists>g \<in> G. indexi ?t ! g \<le> indexi ?t ! x \<and> (x, g) \<in> (set e)\<^sup>*" by auto
    qed
    show "\<forall>g \<in> G. \<forall>x \<in> set (stack ?t). indexi ?t ! g \<le> indexi ?t ! x \<longrightarrow> (g, x) \<in> (set e)\<^sup>*"
      using D(16) by (simp add: S)
  qed
qed

text \<open>Without a component of its own the vertex stays on the stack, no longer in \<open>G\<close>.\<close>

lemma no_component:
  assumes I: "scc_inv e n (insert v G) s" and S: "stack s = A @ v # S0"
    and black: "\<And>w. (v, w) \<in> set e \<Longrightarrow> w \<in> seen n s" and G: "G \<subseteq> set S0"
    and y: "y \<in> set (stack s)" "indexi s ! y < indexi s ! v" "(v, y) \<in> (set e)\<^sup>*"
  shows "scc_inv e n G s"
proof -
  note D = scc_invD [OF I]
  have "\<exists>g \<in> G. indexi s ! g \<le> indexi s ! x \<and> (x, g) \<in> (set e)\<^sup>*" if x: "x \<in> set (stack s)" for x
  proof -
    from D(15) [OF x] obtain h where h: "h \<in> insert v G" "indexi s ! h \<le> indexi s ! x" "(x, h) \<in> (set e)\<^sup>*" by blast
    show ?thesis
    proof (cases "h \<in> G")
      case True
      with h show ?thesis by blast
    next
      case False
      with h have hv: "h = v" by blast
      from D(15) [OF y(1)] obtain h' where h': "h' \<in> insert v G" "indexi s ! h' \<le> indexi s ! y" "(y, h') \<in> (set e)\<^sup>*" by blast
      then have "h' \<in> G" using y(2) by auto
      moreover have "(x, h') \<in> (set e)\<^sup>*" using h(3) y(3) h'(3) unfolding hv by (meson rtrancl_trans)
      moreover have "indexi s ! h' \<le> indexi s ! x" using h'(2) y(2) h(2) hv by simp
      ultimately show ?thesis by blast
    qed
  qed
  then have 1: "\<forall>x \<in> set (stack s). \<exists>g \<in> G. indexi s ! g \<le> indexi s ! x \<and> (x, g) \<in> (set e)\<^sup>*" by blast
  have 2: "\<forall>x w. (x, w) \<in> set e \<and> x \<in> seen n s \<and> x \<notin> G \<longrightarrow> w \<in> seen n s" using D(10) black by blast
  have 3: "G \<subseteq> set (stack s)" using G S by auto
  have 4: "\<forall>g \<in> G. \<forall>x \<in> set (stack s). indexi s ! g \<le> indexi s ! x \<longrightarrow> (g, x) \<in> (set e)\<^sup>*" using D(16) by blast
  show ?thesis
    unfolding scc_inv_def using I [unfolded scc_inv_def] by (elim conjE, intro conjI) (assumption | rule 1 2 3 4)+
qed

section \<open>The loop\<close>

lemma lower_simps [simp]:
  "indexi (lower v x s) = indexi s" "comps (lower v x s) = comps s" "stack (lower v x s) = stack s" "index (lower v x s) = index s"
  "comp_no (lower v x s) = comp_no s" "length (lowlink (lower v x s)) = length (lowlink s)" "seen n (lower v x s) = seen n s"
  "finished n (lower v x s) = finished n s"
  by (simp_all add: lower_def seen_def finished_def)

lemma lowlink_lower:
  "u < length (lowlink s) \<Longrightarrow> lowlink (lower v x s) ! u = (if u = v then min (lowlink s ! v) x else lowlink s ! u)"
  by (simp add: lower_def nth_list_update)

lemma scc_inv_lower: "scc_inv e n G (lower v x s) \<longleftrightarrow> scc_inv e n G s"
  by (simp add: scc_inv_def)

text \<open>The loop of \<open>v\<close>, with the vertices \<open>A\<close> above it on the stack and \<open>S0\<close> below it: \<open>lowlink_[ v ]\<close> is the index
  of a vertex on the stack that \<open>v\<close> reaches, and bounds every edge into \<open>S0\<close> seen so far.\<close>

definition loop_pre :: "(nat \<times> nat) list \<Rightarrow> nat \<Rightarrow> nat set \<Rightarrow> nat \<Rightarrow> nat list \<Rightarrow> nat list \<Rightarrow> (nat \<times> nat) list \<Rightarrow> scc_state \<Rightarrow> bool" where
  "loop_pre e n G v A S0 es s \<longleftrightarrow>
     scc_inv e n (insert v G) s \<and> stack s = A @ v # S0 \<and> G \<subseteq> set S0 \<and> set es \<subseteq> {it \<in> set e. fst it = v} \<and>
     lowlink s ! v \<le> indexi s ! v \<and> (\<exists>y \<in> set (stack s). indexi s ! y = lowlink s ! v \<and> (v, y) \<in> (set e)\<^sup>*) \<and>
     (\<forall>x \<in> set A. \<forall>y \<in> set S0. (x, y) \<in> set e \<longrightarrow> lowlink s ! v \<le> indexi s ! y) \<and>
     (\<forall>w. (v, w) \<in> set e \<and> (v, w) \<notin> set es \<longrightarrow> w \<in> seen n s \<and> (w \<in> set S0 \<longrightarrow> lowlink s ! v \<le> indexi s ! w))"

definition call_post :: "(nat \<times> nat) list \<Rightarrow> nat \<Rightarrow> nat set \<Rightarrow> nat \<Rightarrow> nat list \<Rightarrow> scc_state \<Rightarrow> scc_state \<Rightarrow> bool" where
  "call_post e n G v S0 s s' \<longleftrightarrow>
     scc_inv e n G s' \<and> v \<in> seen n s' \<and> seen n s \<subseteq> seen n s' \<and> (\<forall>u \<in> seen n s. indexi s' ! u = indexi s ! u) \<and>
     (\<forall>u \<in> seen n s - {v}. lowlink s' ! u = lowlink s ! u) \<and>
     (\<exists>A'. stack s' = A' @ S0 \<and> (\<forall>x \<in> set A'. \<forall>y \<in> set S0. (x, y) \<in> set e \<longrightarrow> lowlink s' ! v \<le> indexi s' ! y)) \<and>
     lowlink s' ! v \<le> indexi s' ! v \<and>
     (\<exists>y \<in> seen n s'. indexi s' ! y = lowlink s' ! v \<and> (v, y) \<in> (set e)\<^sup>* \<and> (y \<in> set (stack s') \<or> y = v))"

lemma call_post_trans:
  assumes "call_post e n G v S0 s1 s'" "seen n s \<subseteq> seen n s1" "\<And>u. u \<in> seen n s \<Longrightarrow> indexi s1 ! u = indexi s ! u"
    "\<And>u. u \<in> seen n s \<Longrightarrow> u \<noteq> v \<Longrightarrow> lowlink s1 ! u = lowlink s ! u"
  shows "call_post e n G v S0 s s'"
proof -
  have "\<forall>u \<in> seen n s. indexi s' ! u = indexi s ! u" "\<forall>u \<in> seen n s - {v}. lowlink s' ! u = lowlink s ! u"
    using assms unfolding call_post_def by (metis subsetD, metis Diff_iff singletonI subsetD insertI1 singletonD)
  with assms(1,2) show ?thesis unfolding call_post_def by blast
qed

lemma tarjan_close_ok:
  assumes g: "scc_graph e n" and P: "loop_pre e n G v A S0 [] s"
  shows "\<exists>s'. tarjan_close v s = Some s' \<and> call_post e n G v S0 s s'"
proof -
  have I: "scc_inv e n (insert v G) s" and S: "stack s = A @ v # S0" and G: "G \<subseteq> set S0"
    and l: "lowlink s ! v \<le> indexi s ! v" and y: "\<exists>y \<in> set (stack s). indexi s ! y = lowlink s ! v \<and> (v, y) \<in> (set e)\<^sup>*"
    and A: "\<And>x y. x \<in> set A \<Longrightarrow> y \<in> set S0 \<Longrightarrow> (x, y) \<in> set e \<Longrightarrow> lowlink s ! v \<le> indexi s ! y"
    and black: "\<And>w. (v, w) \<in> set e \<Longrightarrow> w \<in> seen n s"
    and v: "\<And>w. (v, w) \<in> set e \<Longrightarrow> w \<in> set S0 \<Longrightarrow> lowlink s ! v \<le> indexi s ! w"
    using P unfolding loop_pre_def list.set by blast+
  note D = scc_invD [OF I]
  have vs: "v \<in> seen n s" using D(7) S by auto
  have low: "lowlink s ! v \<le> indexi s ! y" if "x \<in> insert v (set A)" "y \<in> set S0" "(x, y) \<in> set e" for x y
    using that A v by blast
  show ?thesis
  proof (cases "indexi s ! v = lowlink s ! v")
    case True
    have "v \<notin> set A" using stack_distinct [OF D(8)] S by simp
    from pop_component_ok [OF this, of "comp_no s" S0 "comps s"] obtain cs where cs:
      "pop_component v (comp_no s) (stack s) (comps s) = Some (S0, cs)" "length cs = n"
      "\<And>x. x < n \<Longrightarrow> cs ! x = (if x \<in> insert v (set A) then comp_no s else comps s ! x)"
      unfolding S using D(2) by auto
    let ?t = "s\<lparr>stack := S0, comps := cs, comp_no := comp_no s + 1\<rparr>"
    have "scc_inv e n G ?t"
      by (rule component_found [OF g I S _ G _ cs(2,3)]) (use black low True in auto)
    moreover have "seen n ?t = seen n s" by (simp add: seen_def)
    ultimately have "call_post e n G v S0 s ?t"
      unfolding call_post_def using True vs by (intro conjI bexI [of _ v] exI [of _ "[]"]) auto
    moreover have "tarjan_close v s = Some ?t" using True cs(1) by (simp add: tarjan_close_def)
    ultimately show ?thesis by blast
  next
    case False
    obtain y where y: "y \<in> set (stack s)" "indexi s ! y = lowlink s ! v" "(v, y) \<in> (set e)\<^sup>*" using y by blast
    have "scc_inv e n G s" by (rule no_component [OF I S _ G y(1) _ y(3)]) (use black y(2) l False in auto)
    moreover have "\<exists>A'. stack s = A' @ S0 \<and> (\<forall>x \<in> set A'. \<forall>y \<in> set S0. (x, y) \<in> set e \<longrightarrow> lowlink s ! v \<le> indexi s ! y)"
      by (intro exI [of _ "A @ [v]"]) (use low in \<open>auto simp: S\<close>)
    moreover have "y \<in> seen n s" using y(1) D(7) by blast
    ultimately have "call_post e n G v S0 s s"
      unfolding call_post_def using vs l y by blast
    then show ?thesis using False by (simp add: tarjan_close_def)
  qed
qed

text \<open>The next edge: the low point of \<open>v\<close> goes down to \<open>x\<close>, the index of a vertex on the stack that \<open>v\<close> reaches.\<close>

lemma loop_pre_next:
  assumes I: "scc_inv e n (insert v G) s" and S: "stack s = A @ v # S0" and G: "G \<subseteq> set S0"
    and es: "set es \<subseteq> {it \<in> set e. fst it = v}"
    and y: "lowlink s ! v \<le> indexi s ! v" "y \<in> set (stack s)" "indexi s ! y = lowlink s ! v" "(v, y) \<in> (set e)\<^sup>*"
    and x: "x < lowlink s ! v \<Longrightarrow> \<exists>z \<in> set (stack s). indexi s ! z = x \<and> (v, z) \<in> (set e)\<^sup>*"
    and A: "\<And>p q. p \<in> set A \<Longrightarrow> q \<in> set S0 \<Longrightarrow> (p, q) \<in> set e \<Longrightarrow> min (lowlink s ! v) x \<le> indexi s ! q"
    and v: "\<And>w. (v, w) \<in> set e \<Longrightarrow> (v, w) \<notin> set es \<Longrightarrow> w \<in> seen n s \<and> (w \<in> set S0 \<longrightarrow> min (lowlink s ! v) x \<le> indexi s ! w)"
  shows "loop_pre e n G v A S0 es (lower v x s)"
proof -
  have "v < n" using scc_stack(1) [OF I] S by auto
  then have L: "lowlink (lower v x s) ! v = min (lowlink s ! v) x" using scc_invD(3) [OF I] by (simp add: lowlink_lower)
  have "\<exists>z \<in> set (stack s). indexi s ! z = min (lowlink s ! v) x \<and> (v, z) \<in> (set e)\<^sup>*"
  proof (cases "x < lowlink s ! v")
    case True
    then show ?thesis using x by (simp add: min_def)
  next
    case False
    then show ?thesis using y by (intro bexI [of _ y]) (simp_all add: min_def)
  qed
  with I S G es y(1) A v show ?thesis
    unfolding loop_pre_def L by (simp add: scc_inv_lower min.coboundedI1)
qed

lemma tarjan_measure:
  assumes "c < (n :: nat)" "k \<le> m"
  shows "(n - (c + 1)) * (m + 1) + k < (n - c) * (m + 1) + Suc l"
proof -
  obtain d where "n - c = Suc d" using assms(1) by (metis Suc_diff_Suc)
  then have "n - c = Suc d" "n - (c + 1) = d" by simp_all
  with assms(2) show ?thesis by simp
qed

text \<open>What the loop knows at an edge to \<open>w\<close>.\<close>

lemma loop_preD:
  assumes "scc_graph e n" "loop_pre e n G v A S0 (it # es) s"
  shows "scc_inv e n (insert v G) s" "stack s = A @ v # S0" "G \<subseteq> set S0" "set es \<subseteq> {it \<in> set e. fst it = v}"
    and loop_low: "lowlink s ! v \<le> indexi s ! v"
      "\<exists>y \<in> set (stack s). indexi s ! y = lowlink s ! v \<and> (v, y) \<in> (set e)\<^sup>*"
      "x \<in> set A \<Longrightarrow> y \<in> set S0 \<Longrightarrow> (x, y) \<in> set e \<Longrightarrow> lowlink s ! v \<le> indexi s ! y"
      "(v, x) \<in> set e \<Longrightarrow> (v, x) \<notin> set es \<Longrightarrow> x \<noteq> snd it \<Longrightarrow>
        x \<in> seen n s \<and> (x \<in> set S0 \<longrightarrow> lowlink s ! v \<le> indexi s ! x)"
    and loop_edge: "(v, snd it) \<in> set e" "snd it < n" "v \<in> seen n s" "v \<in> set (stack s)"
proof -
  show I: "scc_inv e n (insert v G) s" and S: "stack s = A @ v # S0" and "G \<subseteq> set S0" and "lowlink s ! v \<le> indexi s ! v"
    "\<exists>y \<in> set (stack s). indexi s ! y = lowlink s ! v \<and> (v, y) \<in> (set e)\<^sup>*"
    "x \<in> set A \<Longrightarrow> y \<in> set S0 \<Longrightarrow> (x, y) \<in> set e \<Longrightarrow> lowlink s ! v \<le> indexi s ! y"
    using assms(2) unfolding loop_pre_def by blast+
  have es: "set (it # es) \<subseteq> {it \<in> set e. fst it = v}" and
    vis: "\<And>w. (v, w) \<in> set e \<Longrightarrow> (v, w) \<notin> set (it # es) \<Longrightarrow> w \<in> seen n s \<and> (w \<in> set S0 \<longrightarrow> lowlink s ! v \<le> indexi s ! w)"
    using assms(2) unfolding loop_pre_def by blast+
  then show "set es \<subseteq> {it \<in> set e. fst it = v}" by simp
  have it: "it = (v, snd it)" using es by (auto simp: prod_eq_iff)
  then show "(v, snd it) \<in> set e" using es by (metis (no_types, lifting) list.set_intros(1) mem_Collect_eq subsetD)
  then show "snd it < n" using assms(1) by (auto simp: scc_graph_def)
  show "v \<in> set (stack s)" by (simp add: S)
  then show "v \<in> seen n s" using scc_stack(2) [OF I] by blast
  show "x \<in> seen n s \<and> (x \<in> set S0 \<longrightarrow> lowlink s ! v \<le> indexi s ! x)"
    if "(v, x) \<in> set e" "(v, x) \<notin> set es" "x \<noteq> snd it"
  proof -
    have "(v, x) \<notin> set (it # es)" using that(2,3) it by (metis prod.inject set_ConsD)
    from vis [OF that(1) this] show ?thesis .
  qed
qed

text \<open>An edge to a vertex on the stack.\<close>

lemma loop_stack_edge:
  assumes g: "scc_graph e n" and P: "loop_pre e n G v A S0 (it # es) s" and w: "snd it \<in> seen n s" "comps s ! snd it = scc_inf"
  shows "loop_pre e n G v A S0 es (lower v (indexi s ! snd it) s)"
proof -
  note L = loop_preD [OF g P]
  have ws: "snd it \<in> set (stack s)" using w(2) L(10) scc_stack(1) [OF L(1)] by simp
  obtain y where y: "y \<in> set (stack s)" "indexi s ! y = lowlink s ! v" "(v, y) \<in> (set e)\<^sup>*" using L(6) by blast
  show ?thesis
  proof (rule loop_pre_next [OF L(1-5) y])
    show "\<exists>z \<in> set (stack s). indexi s ! z = indexi s ! snd it \<and> (v, z) \<in> (set e)\<^sup>*" using ws L(9) by blast
    show "min (lowlink s ! v) (indexi s ! snd it) \<le> indexi s ! q" if "p \<in> set A" "q \<in> set S0" "(p, q) \<in> set e" for p q
      using L(7) [OF that] by (simp add: min.coboundedI1)
    show "x \<in> seen n s \<and> (x \<in> set S0 \<longrightarrow> min (lowlink s ! v) (indexi s ! snd it) \<le> indexi s ! x)"
      if "(v, x) \<in> set e" "(v, x) \<notin> set es" for x
    proof (cases "x = snd it")
      case True
      with w(1) show ?thesis by simp
    next
      case False
      from L(8) [OF that False] show ?thesis by (simp add: min.coboundedI1)
    qed
  qed
qed

text \<open>An edge to a finished vertex.\<close>

lemma loop_finished_edge:
  assumes g: "scc_graph e n" and P: "loop_pre e n G v A S0 (it # es) s" and w: "snd it \<in> seen n s" "comps s ! snd it \<noteq> scc_inf"
  shows "loop_pre e n G v A S0 es s"
proof -
  note L = loop_preD [OF g P]
  have "snd it \<notin> set S0" using w(2) scc_stack(1) [OF L(1)] L(2) by auto
  then have "x \<in> seen n s \<and> (x \<in> set S0 \<longrightarrow> lowlink s ! v \<le> indexi s ! x)" if "(v, x) \<in> set e" "(v, x) \<notin> set es" for x
    using L(8) [OF that] w(1) by (cases "x = snd it") auto
  then show ?thesis unfolding loop_pre_def using L(1-7) by (intro conjI) blast+
qed

text \<open>A call begins.\<close>

lemma call_pre:
  assumes g: "scc_graph e n" and I: "scc_inv e n G s" and v: "v < n" "v \<notin> seen n s"
    and G: "\<And>x. x \<in> G \<Longrightarrow> (x, v) \<in> (set e)\<^sup>*"
  shows "loop_pre e n G v [] (stack s) (succs_of e v) (tarjan_open v s)" "seen n (tarjan_open v s) = insert v (seen n s)"
proof -
  note D = scc_invD [OF I]
  have "scc_inv e n (insert v G) (tarjan_open v s)" by (rule scc_inv_open [OF g I v G])
  moreover have "stack (tarjan_open v s) = v # stack s" "indexi (tarjan_open v s) ! v = index s" "lowlink (tarjan_open v s) ! v = index s"
    using v(1) D(1-3) by (simp_all add: tarjan_open_def)
  ultimately show "loop_pre e n G v [] (stack s) (succs_of e v) (tarjan_open v s)"
    unfolding loop_pre_def using D(9) set_succs_of [of e v] g by (auto simp: scc_graph_def)
  show "seen n (tarjan_open v s) = insert v (seen n s)" by (rule seen_open [OF I v(1) index_less [OF I g]])
qed

text \<open>An edge to a new vertex.\<close>

lemma loop_call:
  assumes g: "scc_graph e n" and P: "loop_pre e n G v A S0 (it # es) s" and w: "snd it \<notin> seen n s"
  shows "loop_pre e n (insert v G) (snd it) [] (stack s) (succs_of e (snd it)) (tarjan_open (snd it) s)"
    "seen n (tarjan_open (snd it) s) = insert (snd it) (seen n s)"
proof -
  note L = loop_preD [OF g P]
  note D = scc_invD [OF L(1)]
  have "(x, snd it) \<in> (set e)\<^sup>*" if x: "x \<in> insert v G" for x
  proof -
    have "\<forall>x \<in> set S0. indexi s ! x < indexi s ! v" using D(8) unfolding L(2) by (simp add: sorted_wrt_append)
    with L(3) x have "indexi s ! x \<le> indexi s ! v" by (metis insertE less_imp_le order_refl subsetD)
    then have "(x, v) \<in> (set e)\<^sup>*" using D(16) [OF x L(12)] by simp
    with L(9) show ?thesis by (rule rtrancl.rtrancl_into_rtrancl [rotated])
  qed
  note C = call_pre [OF g L(1,10) w this]
  show "loop_pre e n (insert v G) (snd it) [] (stack s) (succs_of e (snd it)) (tarjan_open (snd it) s)" by (rule C(1))
  show "seen n (tarjan_open (snd it) s) = insert (snd it) (seen n s)" by (rule C(2))
qed

text \<open>The call returns.\<close>

lemma loop_return_frame:
  assumes g: "scc_graph e n" and P: "loop_pre e n G v A S0 (it # es) s" and w: "snd it \<notin> seen n s"
    and post: "call_post e n (insert v G) (snd it) (stack s) (tarjan_open (snd it) s) s1"
  shows "insert (snd it) (seen n s) \<subseteq> seen n s1" "indexi s1 ! snd it = index s"
    "u \<in> seen n s \<Longrightarrow> indexi s1 ! u = indexi s ! u" "u \<in> seen n s \<Longrightarrow> lowlink s1 ! u = lowlink s ! u"
proof -
  note L = loop_preD [OF g P]
  note D = scc_invD [OF L(1)]
  note o = loop_call(2) [OF g P w]
  show "insert (snd it) (seen n s) \<subseteq> seen n s1" using post unfolding call_post_def o by blast
  have i: "\<And>u. u \<in> insert (snd it) (seen n s) \<Longrightarrow> indexi s1 ! u = indexi (tarjan_open (snd it) s) ! u"
    and l: "\<And>u. u \<in> seen n s \<Longrightarrow> lowlink s1 ! u = lowlink (tarjan_open (snd it) s) ! u"
    using post w unfolding call_post_def o by (blast, blast)
  show "indexi s1 ! snd it = index s" using i [of "snd it"] L(10) D(1) by (simp add: tarjan_open_def)
  show "indexi s1 ! u = indexi s ! u" "lowlink s1 ! u = lowlink s ! u" if "u \<in> seen n s"
  proof -
    have "u \<noteq> snd it" using that w by blast
    then show "indexi s1 ! u = indexi s ! u" "lowlink s1 ! u = lowlink s ! u"
      using i [of u] l [of u] that by (simp_all add: tarjan_open_def)
  qed
qed

lemma loop_return:
  assumes g: "scc_graph e n" and P: "loop_pre e n G v A S0 (it # es) s" and w: "snd it \<notin> seen n s"
    and post: "call_post e n (insert v G) (snd it) (stack s) (tarjan_open (snd it) s) s1"
  shows "\<exists>A'. loop_pre e n G v A' S0 es (lower v (lowlink s1 ! snd it) s1)"
proof -
  note L = loop_preD [OF g P]
  note D = scc_invD [OF L(1)]
  note F = loop_return_frame [OF g P w post]
  note same = F(3,4)
  let ?l = "lowlink s1 ! snd it"
  obtain y where y: "y \<in> set (stack s)" "indexi s ! y = lowlink s ! v" "(v, y) \<in> (set e)\<^sup>*" using L(6) by blast
  have I1: "scc_inv e n (insert v G) s1" using post by (simp add: call_post_def)
  obtain A1 where A1: "stack s1 = A1 @ stack s"
    "\<And>p q. p \<in> set A1 \<Longrightarrow> q \<in> set (stack s) \<Longrightarrow> (p, q) \<in> set e \<Longrightarrow> ?l \<le> indexi s1 ! q"
    using post unfolding call_post_def by blast
  obtain z where z: "indexi s1 ! z = ?l" "(snd it, z) \<in> (set e)\<^sup>*" "z \<in> set (stack s1) \<or> z = snd it"
    using post unfolding call_post_def by blast
  have S1: "stack s1 = (A1 @ A) @ v # S0" using A1(1) L(2) by simp
  have "loop_pre e n G v (A1 @ A) S0 es (lower v ?l s1)"
  proof (rule loop_pre_next [OF I1 S1 L(3,4)])
    show "lowlink s1 ! v \<le> indexi s1 ! v" using L(5) same [OF L(11)] by simp
    show "y \<in> set (stack s1)" "(v, y) \<in> (set e)\<^sup>*" using y A1(1) by auto
    show "indexi s1 ! y = lowlink s1 ! v" using y(1,2) same [OF L(11)] same(1) [of y] D(7) by auto
    show "\<exists>z \<in> set (stack s1). indexi s1 ! z = ?l \<and> (v, z) \<in> (set e)\<^sup>*" if "?l < lowlink s1 ! v"
    proof -
      have "lowlink s1 ! v \<le> index s" using L(5) same [OF L(11)] D(5) [OF L(11)] by simp
      then have "z \<noteq> snd it" using z(1) F(2) that by auto
      with z L(9) show ?thesis by (intro bexI [of _ z]) (auto intro: converse_rtrancl_into_rtrancl)
    qed
    show "min (lowlink s1 ! v) ?l \<le> indexi s1 ! q" if "p \<in> set (A1 @ A)" "q \<in> set S0" "(p, q) \<in> set e" for p q
    proof -
      have q: "q \<in> set (stack s)" "q \<in> seen n s" using that(2) L(2) D(7) by auto
      show ?thesis
      proof (cases "p \<in> set A1")
        case True
        from A1(2) [OF this q(1) that(3)] show ?thesis by (simp add: min.coboundedI2)
      next
        case False
        then have "lowlink s ! v \<le> indexi s ! q" using L(7) that by auto
        then show ?thesis using same [OF L(11)] same(1) [OF q(2)] by (simp add: min.coboundedI1)
      qed
    qed
    show "x \<in> seen n s1 \<and> (x \<in> set S0 \<longrightarrow> min (lowlink s1 ! v) ?l \<le> indexi s1 ! x)"
      if "(v, x) \<in> set e" "(v, x) \<notin> set es" for x
    proof (cases "x = snd it")
      case True
      have "snd it \<notin> set S0" using w D(7) L(2) by auto
      with F(1) True show ?thesis by blast
    next
      case False
      then have x: "x \<in> seen n s" "x \<in> set S0 \<longrightarrow> lowlink s ! v \<le> indexi s ! x" using L(8) [OF that False] by blast+
      then show ?thesis using F(1) same [OF L(11)] same(1) [OF x(1)] by (auto simp: min.coboundedI1)
    qed
  qed
  then show ?thesis by blast
qed

lemma tarjan_loop_ok:
  assumes "scc_graph e n" "loop_pre e n G v A S0 es s"
  shows "\<exists>s'. tarjan_loop e v es s = Some s' \<and> call_post e n G v S0 s s'"
  using assms(2)
proof (induction "(n - card (seen n s)) * (length e + 1) + length es" arbitrary: G v A S0 es s rule: less_induct)
  case less
  note g = assms(1)
  show ?case
  proof (cases es)
    case Nil
    then show ?thesis using tarjan_close_ok [OF g] less.prems by (simp add: tarjan_loop.simps)
  next
    case (Cons it es')
    note P = less.prems [unfolded Cons]
    note L = loop_preD [OF g P]
    have rest: "\<exists>s'. tarjan_loop e v es' t = Some s' \<and> call_post e n G v S0 s s'"
      if "loop_pre e n G v A' S0 es' t" "seen n s \<subseteq> seen n t" "\<And>u. u \<in> seen n s \<Longrightarrow> indexi t ! u = indexi s ! u"
        "\<And>u. u \<in> seen n s \<Longrightarrow> u \<noteq> v \<Longrightarrow> lowlink t ! u = lowlink s ! u" for t A'
    proof -
      have "card (seen n s) \<le> card (seen n t)" using that(2) by (intro card_mono) auto
      then have "(n - card (seen n t)) * (length e + 1) \<le> (n - card (seen n s)) * (length e + 1)"
        by (intro mult_le_mono1 diff_le_mono2)
      then have "(n - card (seen n t)) * (length e + 1) + length es' < (n - card (seen n s)) * (length e + 1) + length es"
        by (simp add: Cons)
      from less.hyps [OF this that(1)] call_post_trans that(2-4) show ?thesis by blast
    qed
    note step = tarjan_loop.simps [of e v "it # es'" s]
    show ?thesis
    proof (cases "indexi s ! snd it = scc_inf")
      case False
      then have w: "snd it \<in> seen n s" using L(10) by (simp add: seen_def)
      show ?thesis
      proof (cases "comps s ! snd it = scc_inf")
        case True
        have "lowlink (lower v (indexi s ! snd it) s) ! u = lowlink s ! u" if "u \<in> seen n s" "u \<noteq> v" for u
          using that scc_invD(3) [OF L(1)] by (simp add: lowlink_lower seen_def)
        from rest [OF loop_stack_edge [OF g P w True] _ _ this] False True show ?thesis by (simp add: Cons step)
      next
        case ns: False
        from rest [OF loop_finished_edge [OF g P w ns]] False ns show ?thesis by (simp add: Cons step)
      qed
    next
      case True
      then have w: "snd it \<notin> seen n s" by (simp add: seen_def)
      let ?o = "tarjan_open (snd it) s"
      have lt: "card (seen n s) < n" using psubset_card_mono [of "{..<n}" "seen n s"] w L(10) by (auto simp: seen_def)
      have le: "length (succs_of e (snd it)) \<le> length e"
        unfolding succs_of_def by (meson le_trans length_dropWhile_le length_takeWhile_le)
      have "card (seen n ?o) = card (seen n s) + 1" using w by (simp add: loop_call(2) [OF g P w])
      then have "(n - card (seen n ?o)) * (length e + 1) + length (succs_of e (snd it))
          < (n - card (seen n s)) * (length e + 1) + length es"
        using tarjan_measure [OF lt le, of "length es'"] by (simp add: Cons)
      from less.hyps [OF this loop_call(1) [OF g P w]] obtain s1 where
        s1: "tarjan_loop e (snd it) (succs_of e (snd it)) ?o = Some s1"
          "call_post e n (insert v G) (snd it) (stack s) ?o s1" by blast
      note F = loop_return_frame [OF g P w s1(2)]
      obtain A' where A': "loop_pre e n G v A' S0 es' (lower v (lowlink s1 ! snd it) s1)"
        using loop_return [OF g P w s1(2)] by blast
      have "lowlink (lower v (lowlink s1 ! snd it) s1) ! u = lowlink s ! u" if "u \<in> seen n s" "u \<noteq> v" for u
      proof -
        have "length (lowlink s1) = n" using s1(2) scc_invD(3) unfolding call_post_def by blast
        then show ?thesis using that F(4) by (simp add: lowlink_lower seen_def)
      qed
      from rest [OF A' _ _ this] F(1,3) True s1(1) show ?thesis by (simp add: Cons step)
    qed
  qed
qed

section \<open>All vertices\<close>

lemma scc_stack_empty: "scc_inv e n {} s \<Longrightarrow> stack s = []"
  using scc_reach(1) [of e n "{}" s] by (cases "stack s") auto

lemma tarjan_all_ok:
  assumes g: "scc_graph e n" and I: "scc_inv e n {} s" and vs: "set vs \<subseteq> {..<n}"
  shows "\<exists>s'. tarjan_all e vs s = Some s' \<and> scc_inv e n {} s' \<and> seen n s \<union> set vs \<subseteq> seen n s'"
  using I vs
proof (induction vs arbitrary: s)
  case (Cons v vs)
  have "\<exists>s1. (if indexi s ! v = scc_inf then tarjan e v s else Some s) = Some s1 \<and> scc_inv e n {} s1 \<and>
      insert v (seen n s) \<subseteq> seen n s1"
  proof (cases "indexi s ! v = scc_inf")
    case True
    then have v: "v < n" "v \<notin> seen n s" using Cons.prems by (auto simp: seen_def)
    have "loop_pre e n {} v [] (stack s) (succs_of e v) (tarjan_open v s)"
      and o: "seen n (tarjan_open v s) = insert v (seen n s)"
      using call_pre [OF g Cons.prems(1) v] by auto
    from tarjan_loop_ok [OF g this(1)] obtain s1 where "tarjan e v s = Some s1" "call_post e n {} v (stack s) (tarjan_open v s) s1"
      by (auto simp: tarjan_def)
    with True o show ?thesis by (auto simp: call_post_def)
  next
    case False
    with Cons.prems show ?thesis by (auto simp: seen_def)
  qed
  then obtain s1 where s1: "(if indexi s ! v = scc_inf then tarjan e v s else Some s) = Some s1" "scc_inv e n {} s1"
    "insert v (seen n s) \<subseteq> seen n s1" by blast
  from Cons.IH [OF s1(2)] Cons.prems(2) obtain s' where "tarjan_all e vs s1 = Some s'" "scc_inv e n {} s'"
    "seen n s1 \<union> set vs \<subseteq> seen n s'" by auto
  with s1 show ?case by (intro exI [of _ s']) auto
qed simp

section \<open>The constructor\<close>

definition scc_numbered :: "'v set \<Rightarrow> ('v \<rightharpoonup> nat) \<Rightarrow> nat \<Rightarrow> bool" where
  "scc_numbered V m tot \<longleftrightarrow> dom m = V \<and> inj_on m V \<and> ran m = {..<tot}"

lemma scc_number_ok:
  assumes "scc_numbered V m tot" "scc_number v (m, tot) = (m', tot')"
  shows "scc_numbered (insert v V) m' tot' \<and> (\<forall>x \<in> V. m' x = m x)"
proof (cases "m v = None")
  case True
  have V: "dom m = V" and inj: "inj_on m V" and ran: "ran m = {..<tot}" using assms(1) by (auto simp: scc_numbered_def)
  have m': "m' = m(v \<mapsto> tot)" "tot' = Suc tot" using assms(2) True by (auto simp: scc_number_def)
  have v: "v \<notin> V" using True V by auto
  have "m x \<noteq> Some tot" for x using ran ranI [of m x tot] by auto
  then have "Some tot \<notin> m ` V" by (metis imageE)
  moreover have "m' ` V = m ` V" using v unfolding m' by (intro image_cong) auto
  moreover have "inj_on m' V" using inj v unfolding m' by (simp add: inj_on_def)
  ultimately have "inj_on m' (insert v V)" using v unfolding m' by simp
  moreover have "ran m' = {..<tot'}" unfolding m' using ran by (simp add: ran_map_upd [of m v, OF True] lessThan_Suc)
  moreover have "dom m' = insert v V" "\<forall>x \<in> V. m' x = m x" using V v unfolding m' by auto
  ultimately show ?thesis by (simp add: scc_numbered_def)
next
  case False
  then have "m' = m" "tot' = tot" using assms(2) by (auto simp: scc_number_def split: if_splits)
  moreover have "v \<in> V" using False assms(1) unfolding scc_numbered_def by blast
  ultimately show ?thesis using assms(1) by (simp add: insert_absorb)
qed

definition vertices :: "('v \<times> 'v) list \<Rightarrow> 'v set" where
  "vertices edges = fst ` set edges \<union> snd ` set edges"

lemma scc_edges_ok:
  assumes "fold scc_edge edges ((Map.empty, 0), (0, replicate N (0, 0))) = ((m, tot), (idx, e))"
    and "length edges \<le> N" "N \<le> 2 ^ 32"
  shows "scc_numbered (vertices edges) m tot \<and> idx = of_nat (length edges) \<and>
    e = map (\<lambda>it. (the (m (fst it)), the (m (snd it)))) edges @ replicate (N - length edges) (0, 0)"
  using assms
proof (induction edges arbitrary: m tot idx e rule: rev_induct)
  case Nil
  then show ?case by (auto simp: scc_numbered_def vertices_def)
next
  case (snoc it edges)
  let ?s = "((Map.empty, 0), (0, replicate N (0, 0)))" and ?k = "length edges"
  obtain m0 t0 i0 e0 where 0: "fold scc_edge edges ?s = ((m0, t0), (i0, e0))" by (metis prod.collapse)
  obtain m1 t1 where 1: "scc_number (fst it) (m0, t0) = (m1, t1)" by force
  obtain m2 t2 where 2: "scc_number (snd it) (m1, t1) = (m2, t2)" by force
  let ?x = "(the (m2 (fst it)), the (m2 (snd it)))"
  have "fold scc_edge (edges @ [it]) ?s = scc_edge it ((m0, t0), (i0, e0))" by (simp add: 0)
  moreover have "scc_edge it ((m0, t0), (i0, e0)) = ((m2, t2), (i0 + 1, e0[unat i0 := ?x]))"
    by (simp add: scc_edge_def 1 2)
  ultimately have r: "m = m2" "tot = t2" "idx = i0 + 1" "e = e0[unat i0 := ?x]"
    using snoc.prems(1) by auto
  have k: "?k < N" using snoc.prems(2) by simp
  note IH = snoc.IH [OF 0 less_imp_le [OF k] snoc.prems(3)]
  note N1 = scc_number_ok [OF conjunct1 [OF IH] 1]
  note N2 = scc_number_ok [OF conjunct1 [OF N1] 2]
  have i0: "unat i0 = ?k" using IH k snoc.prems(3) by (simp add: unat_of_nat)
  have "m2 x = m0 x" if "x \<in> vertices edges" for x using N1 N2 that by auto
  then have "e0 = map (\<lambda>it. (the (m2 (fst it)), the (m2 (snd it)))) edges @ replicate (N - ?k) (0, 0)"
    using IH by (auto simp: vertices_def)
  then have "e = map (\<lambda>it. (the (m2 (fst it)), the (m2 (snd it)))) edges @ (replicate (N - ?k) (0, 0))[0 := ?x]"
    unfolding r(4) i0 by (simp add: list_update_append)
  moreover have "(replicate (N - ?k) (0, 0))[0 := ?x] = ?x # replicate (N - Suc ?k) (0, 0)"
    using Suc_diff_Suc [OF k] by (metis list_update_code(2) replicate_Suc)
  moreover have "insert (snd it) (insert (fst it) (vertices edges)) = vertices (edges @ [it])" by (auto simp: vertices_def)
  ultimately show ?case using N2 IH unfolding r(1-3) by auto
qed

text \<open>Renaming the vertices keeps the paths.\<close>

lemma rtrancl_rename:
  assumes inj: "inj_on f V" and E: "E \<subseteq> V \<times> V" and ab: "a \<in> V" "b \<in> V"
  shows "(f a, f b) \<in> (map_prod f f ` E)\<^sup>* \<longleftrightarrow> (a, b) \<in> E\<^sup>*"
proof
  assume "(a, b) \<in> E\<^sup>*"
  then show "(f a, f b) \<in> (map_prod f f ` E)\<^sup>*"
  proof induction
    case (step y z)
    then have "(f y, f z) \<in> map_prod f f ` E" by force
    with step show ?case by (meson rtrancl.rtrancl_into_rtrancl)
  qed simp
next
  have "\<exists>b \<in> V. y = f b \<and> (a, b) \<in> E\<^sup>*" if "(f a, y) \<in> (map_prod f f ` E)\<^sup>*" for y
    using that
  proof induction
    case base
    with ab show ?case by blast
  next
    case (step y z)
    then obtain b c d where "b \<in> V" "y = f b" "(a, b) \<in> E\<^sup>*" "(c, d) \<in> E" "y = f c" "z = f d" by auto
    moreover from this have "b = c" using inj E by (auto dest: inj_onD)
    ultimately show ?case using E by (auto intro: rtrancl_into_rtrancl)
  qed
  moreover assume "(f a, f b) \<in> (map_prod f f ` E)\<^sup>*"
  ultimately show "(a, b) \<in> E\<^sup>*" using inj ab by (auto dest: inj_onD)
qed

section \<open>The components\<close>

lemma scc_new_ok:
  assumes "card (vertices edges) < scc_inf" and N: "length edges \<le> 2 ^ 32"
  obtains m tot where "scc_vmap (scc_new edges) = m" "scc_numbered (vertices edges) m tot"
    "set (scc_e (scc_new edges)) = map_prod (the \<circ> m) (the \<circ> m) ` set edges" "scc_graph (scc_e (scc_new edges)) tot"
    "scc_inv (scc_e (scc_new edges)) tot {} (scc_state (scc_new edges))" "length (indexi (scc_state (scc_new edges))) = tot"
proof -
  obtain m tot idx e where r: "fold scc_edge edges ((Map.empty, 0), (0, replicate (length edges) (0, 0))) = ((m, tot), (idx, e))"
    by (metis prod.collapse)
  note E = scc_edges_ok [OF r order_refl N]
  let ?t = "scc_new edges"
  have t: "scc_e ?t = sort e" "scc_vmap ?t = m"
    "scc_state ?t = \<lparr>indexi = replicate tot scc_inf, comps = replicate tot 0, lowlink = replicate tot 0, stack = [], index = 0, comp_no = 0\<rparr>"
    by (simp_all add: scc_new_def r)
  have V: "dom m = vertices edges" "inj_on m (vertices edges)" "ran m = {..<tot}" using E by (auto simp: scc_numbered_def)
  have "ran m = the ` m ` dom m" by (force simp: ran_def)
  moreover have "inj_on the (m ` dom m)" by (auto simp: inj_on_def)
  ultimately have "card (ran m) = card (vertices edges)" using V(1,2) by (simp add: card_image)
  then have n: "tot < scc_inf" using assms V(3) by simp
  have mem: "the (m x) < tot" if "x \<in> vertices edges" for x
    using that V(1,3) by (metis domD lessThan_iff option.sel ranI)
  have se: "set e = map_prod (the \<circ> m) (the \<circ> m) ` set edges" using E by (force simp: map_prod_def case_prod_beta)
  have "v < tot \<and> w < tot" if "(v, w) \<in> set e" for v w
  proof -
    obtain a b where ab: "(a, b) \<in> set edges" "v = the (m a)" "w = the (m b)" using \<open>(v, w) \<in> set e\<close> unfolding se by auto
    then have "a \<in> vertices edges" "b \<in> vertices edges" by (force simp: vertices_def)+
    with mem ab(2,3) show ?thesis by simp
  qed
  then have g: "scc_graph (scc_e ?t) tot" using n by (auto simp: scc_graph_def t)
  have "seen tot (scc_state ?t) = {}" "finished tot (scc_state ?t) = {}" by (auto simp: seen_def finished_def t)
  then have "scc_inv (scc_e ?t) tot {} (scc_state ?t)" by (auto simp: scc_inv_def t scc_inf_def)
  with E se g show ?thesis by (intro that [of m tot]) (simp_all add: t)
qed

text \<open>C3: Tarjan's algorithm returns for every list of at most \<open>2 ^ 32\<close> edges (so that the 32-bit position of an edge
  does not wrap) with fewer than \<open>inf\<close> vertices, and finds the strongly connected components: it maps exactly the vertices of the edges to components, numbered without gaps up to the
  returned count, two vertices have the same component iff each can be reached from the other, and an edge never
  leads to a component with a larger number.\<close>
theorem tarjan_strongly_cc_correct:
  assumes "card (vertices edges) < scc_inf" "length edges \<le> 2 ^ 32"
  shows "\<exists>n res. tarjan_strongly_cc edges = Some (n, res) \<and> dom res = vertices edges \<and> ran res = {..<n} \<and>
    (\<forall>a \<in> vertices edges. \<forall>b \<in> vertices edges.
       res a = res b \<longleftrightarrow> (a, b) \<in> (set edges)\<^sup>* \<and> (b, a) \<in> (set edges)\<^sup>*) \<and>
    (\<forall>(a, b) \<in> set edges. the (res b) \<le> the (res a))"
proof -
  let ?t = "scc_new edges" and ?V = "vertices edges"
  obtain m tot where t: "scc_vmap ?t = m" and N: "scc_numbered ?V m tot"
    and e: "set (scc_e ?t) = map_prod (the \<circ> m) (the \<circ> m) ` set edges" and g: "scc_graph (scc_e ?t) tot"
    and I: "scc_inv (scc_e ?t) tot {} (scc_state ?t)" and l: "length (indexi (scc_state ?t)) = tot"
    by (rule scc_new_ok [OF assms])
  have V: "dom m = ?V" "inj_on m ?V" "ran m = {..<tot}" using N by (auto simp: scc_numbered_def)
  obtain s where s: "tarjan_all (scc_e ?t) [0..<tot] (scc_state ?t) = Some s" "scc_inv (scc_e ?t) tot {} s" "{..<tot} \<subseteq> seen tot s"
    using tarjan_all_ok [OF g I, of "[0..<tot]"] by (auto simp: lessThan_atLeast0)
  note D = scc_invD [OF s(2)]
  have fin: "finished tot s = {..<tot}"
    using s(3) D(6) scc_stack_empty [OF s(2)] by (auto simp: finished_def seen_def)
  have m: "m a = Some (the (m a)) \<and> the (m a) < tot" if "a \<in> ?V" for a
    using that V(1,3) by (metis domD lessThan_iff option.sel ranI)
  have inj: "inj_on (the \<circ> m) ?V" using V(2) m by (auto simp: inj_on_def) metis
  let ?res = "map_option ((!) (comps s)) \<circ> m"
  have res: "?res a = Some (comps s ! the (m a))" if "a \<in> ?V" for a using m [OF that] by (metis comp_apply option.simps(9))
  have "tarjan_strongly_cc edges = Some (comp_no s, ?res)"
    using s(1) by (simp add: tarjan_strongly_cc_def scc_execute_def l t)
  moreover have "dom ?res = ?V" using V(1) by (auto simp: dom_def)
  moreover have "ran ?res = {..<comp_no s}"
  proof -
    have "ran ?res = (!) (comps s) ` ran m" by (force simp: ran_def)
    also have "\<dots> = {..<comp_no s}" using V(3) D(14) fin by simp
    finally show ?thesis .
  qed
  moreover have "?res a = ?res b \<longleftrightarrow> (a, b) \<in> (set edges)\<^sup>* \<and> (b, a) \<in> (set edges)\<^sup>*" if "a \<in> ?V" "b \<in> ?V" for a b
  proof -
    have "set edges \<subseteq> ?V \<times> ?V" by (force simp: vertices_def)
    note R = rtrancl_rename [OF inj this]
    have "?res a = ?res b \<longleftrightarrow> comps s ! the (m a) = comps s ! the (m b)"
      unfolding res [OF that(1)] res [OF that(2)] by simp
    also have "\<dots> \<longleftrightarrow> mutual (set (scc_e ?t)) (the (m a)) (the (m b))" using D(13) fin m that by blast
    also have "\<dots> \<longleftrightarrow> (a, b) \<in> (set edges)\<^sup>* \<and> (b, a) \<in> (set edges)\<^sup>*"
      using R [OF that] R [OF that(2,1)] by (simp add: mutual_def e)
    finally show ?thesis .
  qed
  moreover have "the (?res b) \<le> the (?res a)" if "(a, b) \<in> set edges" for a b
  proof -
    have ab: "a \<in> ?V" "b \<in> ?V" using that by (force simp: vertices_def)+
    have "(the (m a), the (m b)) \<in> set (scc_e ?t)" using that unfolding e by force
    from D(12) [OF this] m ab fin have "comps s ! the (m b) \<le> comps s ! the (m a)" by blast
    then show ?thesis unfolding res [OF ab(1)] res [OF ab(2)] by simp
  qed
  ultimately show ?thesis by (intro exI [of _ "comp_no s"] exI [of _ ?res]) auto
qed

theorem tarjan_strongly_cc_correct_witness:
  "\<exists>n res. tarjan_strongly_cc [(''a'', ''b''), (''b'', ''a''), (''b'', ''c'')] = Some (n, res) \<and> res ''a'' = res ''b'' \<and> res ''c'' \<noteq> res ''a''"
proof -
  let ?es = "[(''a'', ''b''), (''b'', ''a''), (''b'', ''c'')]"
  have V: "vertices ?es = {''a'', ''b'', ''c''}" by (auto simp: vertices_def)
  then have "card (vertices ?es) < scc_inf" by (simp add: scc_inf_def)
  moreover have "length ?es \<le> 2 ^ 32" by simp
  ultimately obtain n res where r: "tarjan_strongly_cc ?es = Some (n, res)"
    "\<And>a b. a \<in> vertices ?es \<Longrightarrow> b \<in> vertices ?es \<Longrightarrow> res a = res b \<longleftrightarrow> (a, b) \<in> (set ?es)\<^sup>* \<and> (b, a) \<in> (set ?es)\<^sup>*"
    using tarjan_strongly_cc_correct [of ?es] by blast
  have "(''a'', ''b'') \<in> (set ?es)\<^sup>*" "(''b'', ''a'') \<in> (set ?es)\<^sup>*" by (auto intro: r_into_rtrancl)
  moreover have "(''c'', ''a'') \<notin> (set ?es)\<^sup>*" by (auto elim: converse_rtranclE)
  ultimately have "res ''a'' = res ''b''" "res ''c'' \<noteq> res ''a''" using r(2) V by auto
  with r(1) show ?thesis by blast
qed

end
