(* ===== verification/Zi_Watershed.thy ===== *)
theory Zi_Watershed
  imports Zi_Prelude
begin

unbundle bit_operations_syntax

text \<open>
  \<^verbatim>\<open>zi/watershed/basic_watershed.hpp\<close>, first part: the object and \<open>add_edges\<close>, which decides along
  which of the six directions every voxel is joined to a neighbour. \<open>R\<close> is \<open>uint32_t\<close>; \<open>T\<close> is an ordered
  ring with -1 below the affinities (a signed or floating point type). The affinities are the flat array
  of \<^verbatim>\<open>affinity_matrix.hpp\<close>, the labels the flat array of \<^verbatim>\<open>chunk.hpp\<close>; both have the same dimensions.
\<close>

section \<open>The object\<close>

record 'w watershed =
  ws_x :: nat
  ws_y :: nat
  ws_z :: nat
  ws_conn :: "'w list"
  ws_low :: 'w
  ws_hi :: 'w
  ws_min :: 'w
  ws_size_thold :: nat

definition ws_new :: "nat \<Rightarrow> nat \<Rightarrow> nat \<Rightarrow> 'w::linorder list \<Rightarrow> 'w \<Rightarrow> 'w \<Rightarrow> 'w \<Rightarrow> nat \<Rightarrow> 'w watershed \<times> u32 list" where
  "ws_new x y z conn low_thold hi_thold min_thold size_thold =
     (\<lparr>ws_x = x, ws_y = y, ws_z = z, ws_conn = conn, ws_low = low_thold, ws_hi = hi_thold,
       ws_min = min low_thold min_thold, ws_size_thold = size_thold\<rparr>, replicate (x * y * z) 0)"

definition ws_size :: "'w watershed \<Rightarrow> nat" where
  "ws_size w = ws_x w * ws_y w * ws_z w"

definition visited_bit :: u32 where
  "visited_bit = push_bit 31 1"

definition countme_bit :: u32 where
  "countme_bit = push_bit 7 1"

definition clear_bits :: u32 where
  "clear_bits = visited_bit - 1"

text \<open>The loops over \<open>z\<close>, \<open>y\<close>, \<open>x\<close>, with the counter \<open>j\<close> of the innermost body.\<close>

definition voxels :: "'w watershed \<Rightarrow> (nat \<times> nat \<times> nat \<times> nat) list" where
  "voxels w = [(x, y, z, x + ws_x w * (y + ws_y w * z)). z \<leftarrow> [0..<ws_z w], y \<leftarrow> [0..<ws_y w], x \<leftarrow> [0..<ws_x w]]"

definition nhood :: "'w watershed \<Rightarrow> int list" where
  "nhood w = (let xy_dim = int (ws_x w) * int (ws_y w) in [-1, - int (ws_x w), - xy_dim, 1, int (ws_x w), xy_dim])"

definition neighbour :: "'w watershed \<Rightarrow> nat \<Rightarrow> nat \<Rightarrow> nat" where
  "neighbour w j k = nat (int j + nhood w ! k)"

definition or_at :: "u32 list \<Rightarrow> nat \<Rightarrow> u32 \<Rightarrow> u32 list" where
  "or_at res j b = res[j := res ! j OR b]"

section \<open>\<open>add_edges\<close>\<close>

definition add_hi :: "'w::linordered_idom watershed \<Rightarrow> nat \<Rightarrow> nat \<times> nat \<times> nat \<times> nat \<Rightarrow> u32 list \<Rightarrow> u32 list" where
  "add_hi w d = (\<lambda>(x, y, z, j) res.
     if x = 0 \<or> y = 0 \<or> z = 0 \<or> x = ws_x w - 1 \<and> d \<noteq> 0 \<or> y = ws_y w - 1 \<and> d \<noteq> 1 \<or> z = ws_z w - 1 \<and> d \<noteq> 2
     then res
     else if ws_conn w ! (d * ws_size w + j) \<ge> ws_hi w
          then or_at (or_at res j (push_bit d 1)) (neighbour w j d) (push_bit d 8)
          else res)"

text \<open>The macro \<open>ZI_WATERSHED_EDGE_CHECK\<close> on the state \<open>( d, top, second )\<close>.\<close>

definition edge_check :: "'w::linordered_idom watershed \<Rightarrow> nat \<times> nat \<Rightarrow> nat \<times> 'w \<times> 'w \<Rightarrow> nat \<times> 'w \<times> 'w" where
  "edge_check w = (\<lambda>(direction, index) (d, tp, second).
     if ws_conn w ! index > tp then (direction, ws_conn w ! index, tp) else (d, tp, second))"

definition edge_checks :: "'w::linordered_idom watershed \<Rightarrow> nat \<Rightarrow> nat \<times> 'w \<times> 'w" where
  "edge_checks w j =
     (let xyz_dim = ws_size w; xyz_dim2 = 2 * ws_size w
      in fold (edge_check w)
           [(1, j), (2, j + xyz_dim), (3, j + xyz_dim2), (4, j + 1), (5, j + xyz_dim + ws_x w),
            (6, j + xyz_dim2 + ws_x w * ws_y w)] (0, -1, -1))"

definition add_steepest :: "'w::linordered_idom watershed \<Rightarrow> nat \<times> nat \<times> nat \<times> nat \<Rightarrow> u32 list \<Rightarrow> u32 list" where
  "add_steepest w = (\<lambda>(x, y, z, j) res.
     if x = 0 \<or> y = 0 \<or> z = 0 \<or> x = ws_x w - 1 \<or> y = ws_y w - 1 \<or> z = ws_z w - 1 then res
     else
       case edge_checks w j of (d, tp, second) \<Rightarrow>
         if d > 0
         then
           if tp \<ge> ws_low w
           then
             let res =
               (if tp > second
                then
                  let d = d - 1
                  in if d < 3 then or_at (or_at res j (push_bit d 1)) (neighbour w j d) (push_bit d 8)
                     else or_at (or_at res j (push_bit d 1)) (neighbour w j d) (push_bit (d - 3) 1)
                else res)
             in or_at res j countme_bit
           else if tp \<ge> ws_min w then or_at res j countme_bit else res
         else res)"

definition add_edges :: "'w::linordered_idom watershed \<Rightarrow> u32 list \<Rightarrow> u32 list" where
  "add_edges w res =
     fold (add_steepest w) (voxels w) (fold (\<lambda>d. fold (add_hi w d) (voxels w)) [0..<3] res)"

section \<open>Voxels and their neighbours\<close>

definition ws_ok :: "'w watershed \<Rightarrow> bool" where
  "ws_ok w \<longleftrightarrow> length (ws_conn w) = 3 * ws_size w"

lemma voxels_iff:
  "(x, y, z, j) \<in> set (voxels w) \<longleftrightarrow> x < ws_x w \<and> y < ws_y w \<and> z < ws_z w \<and> j = x + ws_x w * (y + ws_y w * z)"
  by (auto simp: voxels_def image_iff)

lemma flat_less:
  assumes "x < (X :: nat)" "y < Y"
  shows "x + X * y < X * Y"
proof -
  have "x + X * y < X * Suc y" using assms(1) by simp
  also have "\<dots> \<le> X * Y" using assms(2) by (intro mult_le_mono2) simp
  finally show ?thesis .
qed

lemma voxel_less: "(x, y, z, j) \<in> set (voxels w) \<Longrightarrow> j < ws_size w"
  using flat_less [of x "ws_x w" "y + ws_y w * z" "ws_y w * ws_z w"] flat_less [of y "ws_y w" z "ws_z w"]
  by (simp add: voxels_iff ws_size_def mult.assoc)

text \<open>The counter runs through the whole array, in order.\<close>

lemma concat_blocks: "concat (map (\<lambda>y. [c + X * y..<c + X * y + X]) [0..<Y]) = [c..<c + X * Y]"
proof (induction Y)
  case (Suc Y)
  have "[c..<c + X * Y] @ [c + X * Y..<c + X * Y + X] = [c..<c + X * Y + X]"
    by (rule upt_add_eq_append [symmetric]) simp
  then show ?case using Suc by (simp add: algebra_simps)
qed simp

lemma map_voxels: "map (\<lambda>(x, y, z, j). j) (voxels w) = [0..<ws_size w]"
proof -
  have line: "map (\<lambda>x. x + c) [0..<X] = [c..<c + X]" for c X :: nat
    by (induction X) (simp_all add: add.commute)
  have "map (\<lambda>(x, y, z, j). j) (voxels w) =
      concat (map (\<lambda>z. concat (map (\<lambda>y. [ws_x w * ws_y w * z + ws_x w * y..<ws_x w * ws_y w * z + ws_x w * y + ws_x w])
        [0..<ws_y w])) [0..<ws_z w])"
    by (simp add: voxels_def map_concat comp_def line algebra_simps)
  also have "\<dots> = concat (map (\<lambda>z. [0 + ws_x w * ws_y w * z..<0 + ws_x w * ws_y w * z + ws_x w * ws_y w]) [0..<ws_z w])"
    using concat_blocks by simp
  also have "\<dots> = [0..<0 + ws_x w * ws_y w * ws_z w]" by (rule concat_blocks)
  finally show ?thesis by (simp add: ws_size_def)
qed

definition opposite :: "nat \<Rightarrow> nat" where
  "opposite k = (k + 3) mod 6"

text \<open>The voxel in direction \<open>k\<close>, where there is one.\<close>

fun move :: "'w watershed \<Rightarrow> nat \<times> nat \<times> nat \<Rightarrow> nat \<Rightarrow> (nat \<times> nat \<times> nat) option" where
  "move w (x, y, z) k =
     (if k = 0 \<and> 0 < x then Some (x - 1, y, z) else if k = 1 \<and> 0 < y then Some (x, y - 1, z)
      else if k = 2 \<and> 0 < z then Some (x, y, z - 1) else if k = 3 \<and> x + 1 < ws_x w then Some (x + 1, y, z)
      else if k = 4 \<and> y + 1 < ws_y w then Some (x, y + 1, z) else if k = 5 \<and> z + 1 < ws_z w then Some (x, y, z + 1)
      else None)"

lemma less6_cases: "k < (6 :: nat) \<longleftrightarrow> k = 0 \<or> k = 1 \<or> k = 2 \<or> k = 3 \<or> k = 4 \<or> k = 5"
  by auto

lemma nhood_nth:
  "nhood w ! 0 = -1" "nhood w ! 1 = - int (ws_x w)" "nhood w ! Suc 0 = - int (ws_x w)"
  "nhood w ! 2 = - (int (ws_x w) * int (ws_y w))" "nhood w ! 3 = 1" "nhood w ! 4 = int (ws_x w)"
  "nhood w ! 5 = int (ws_x w) * int (ws_y w)"
  by (simp_all add: nhood_def Let_def nth_Cons')

lemma nhood_opposite:
  assumes "k < 6"
  shows "nhood w ! opposite k = - nhood w ! k"
  using assms unfolding less6_cases by (elim disjE) (simp_all add: opposite_def nhood_nth)

lemma opposite_less [simp]: "opposite k < 6"
  by (simp add: opposite_def)

lemma opposite_opposite: "k < 6 \<Longrightarrow> opposite (opposite k) = k"
  unfolding less6_cases by (elim disjE) (simp_all add: opposite_def)

lemma move_voxel:
  assumes v: "(x, y, z, j) \<in> set (voxels w)" and m: "move w (x, y, z) k = Some (x', y', z')"
  shows "\<exists>j'. (x', y', z', j') \<in> set (voxels w) \<and> int j' = int j + nhood w ! k"
proof -
  let ?j = "x' + ws_x w * (y' + ws_y w * z')"
  have dim: "0 < ws_x w" "0 < ws_y w" "0 < ws_z w" and j: "j = x + ws_x w * (y + ws_y w * z)"
    using v by (auto simp: voxels_iff)
  have "int ?j = int j + nhood w ! k"
    using m unfolding j
    by (auto simp: nhood_nth of_nat_diff algebra_simps nat_diff_split split: if_splits)
  moreover have "(x', y', z', ?j) \<in> set (voxels w)"
    using m v by (auto simp: voxels_iff split: if_splits)
  ultimately show ?thesis by blast
qed

lemma move_less: "move w v k \<noteq> None \<Longrightarrow> k < 6"
  by (cases v) (auto split: if_splits)

lemma neighbour_back:
  assumes v: "(x, y, z, j) \<in> set (voxels w)" and m: "move w (x, y, z) k \<noteq> None"
  shows "neighbour w j k < ws_size w" "neighbour w (neighbour w j k) (opposite k) = j" "neighbour w j k \<noteq> j"
    "int (neighbour w j k) = int j + nhood w ! k"
proof -
  have k: "k < 6" using move_less [OF m] .
  obtain x' y' z' where m': "move w (x, y, z) k = Some (x', y', z')" using m by auto
  from move_voxel [OF v m'] obtain j' where
    j': "(x', y', z', j') \<in> set (voxels w)" "int j' = int j + nhood w ! k" by blast
  have n: "neighbour w j k = j'" using j'(2) [symmetric] by (simp add: neighbour_def)
  show "neighbour w j k < ws_size w" using voxel_less [OF j'(1)] n by simp
  show "neighbour w (neighbour w j k) (opposite k) = j"
    unfolding n using j'(2) by (simp add: neighbour_def nhood_opposite [OF k])
  have "0 < ws_x w" "0 < ws_y w" using v by (auto simp: voxels_iff)
  then have "nhood w ! k \<noteq> 0" using k unfolding less6_cases by (elim disjE) (simp_all add: nhood_nth)
  then show "neighbour w j k \<noteq> j" using j'(2) n by auto
  show "int (neighbour w j k) = int j + nhood w ! k" using n j'(2) by simp
qed

section \<open>What the edges are\<close>

text \<open>Voxels strictly inside the volume.\<close>

definition inner :: "'w watershed \<Rightarrow> nat \<times> nat \<times> nat \<times> nat \<Rightarrow> bool" where
  "inner w = (\<lambda>(x, y, z, j). 0 < x \<and> 0 < y \<and> 0 < z \<and> x + 1 < ws_x w \<and> y + 1 < ws_y w \<and> z + 1 < ws_z w)"

text \<open>The affinity of a voxel and its neighbour in direction \<open>k\<close>.\<close>

definition affinity :: "'w watershed \<Rightarrow> nat \<Rightarrow> nat \<Rightarrow> 'w" where
  "affinity w j k = (if k < 3 then ws_conn w ! (k * ws_size w + j) else ws_conn w ! ((k - 3) * ws_size w + neighbour w j k))"

text \<open>An affinity of at least \<open>hi_thold_\<close> joins the voxel to the neighbour before it in direction \<open>d\<close>.\<close>

definition hi_edge :: "'w::linordered_idom watershed \<Rightarrow> nat \<times> nat \<times> nat \<times> nat \<Rightarrow> nat \<Rightarrow> bool" where
  "hi_edge w = (\<lambda>(x, y, z, j) d. d < 3 \<and> 0 < x \<and> 0 < y \<and> 0 < z \<and> (x + 1 < ws_x w \<or> d = 0) \<and>
     (y + 1 < ws_y w \<or> d = 1) \<and> (z + 1 < ws_z w \<or> d = 2) \<and> ws_hi w \<le> affinity w j d)"

text \<open>The first of the directions with the largest affinity.\<close>

definition steepest :: "'w::linordered_idom watershed \<Rightarrow> nat \<Rightarrow> nat \<Rightarrow> bool" where
  "steepest w j k \<longleftrightarrow> k < 6 \<and> -1 < affinity w j k \<and> (\<forall>l < 6. affinity w j l \<le> affinity w j k) \<and>
     (\<forall>l < k. affinity w j l < affinity w j k)"

definition steep_edge :: "'w::linordered_idom watershed \<Rightarrow> nat \<times> nat \<times> nat \<times> nat \<Rightarrow> nat \<Rightarrow> bool" where
  "steep_edge w v k \<longleftrightarrow> inner w v \<and> (case v of (x, y, z, j) \<Rightarrow> steepest w j k \<and> ws_low w \<le> affinity w j k)"

text \<open>An inner voxel with an affinity of at least \<open>min_thold_\<close> is a region even on its own.\<close>

definition counts_alone :: "'w::linordered_idom watershed \<Rightarrow> nat \<times> nat \<times> nat \<times> nat \<Rightarrow> bool" where
  "counts_alone w v \<longleftrightarrow> inner w v \<and>
     (case v of (x, y, z, j) \<Rightarrow> \<exists>k < 6. steepest w j k \<and> (ws_low w \<le> affinity w j k \<or> ws_min w \<le> affinity w j k))"

text \<open>The strict comparison with the second largest never fails: \<open>second\<close> is an earlier, smaller maximum.\<close>

lemma edge_checks_steepest:
  assumes v: "(x, y, z, j) \<in> set (voxels w)" and i: "inner w (x, y, z, j)"
  shows "case edge_checks w j of (d, tp, second) \<Rightarrow>
    (d = 0 \<and> (\<forall>k. \<not> steepest w j k)) \<or>
    (0 < d \<and> steepest w j (d - 1) \<and> tp = affinity w j (d - 1) \<and> second < tp)"
proof -
  have move: "move w (x, y, z) k \<noteq> None" if "k < 6" for k
    using that i unfolding less6_cases inner_def by auto
  have nb: "int (neighbour w j k) = int j + nhood w ! k" if "k < 6" for k
    by (rule neighbour_back(4) [OF v move [OF that]])
  have n: "neighbour w j 3 = j + 1" "neighbour w j 4 = j + ws_x w" "neighbour w j 5 = j + ws_x w * ws_y w"
    using nb [of 3] nb [of 4] nb [of 5] by (simp_all add: nhood_nth flip: of_nat_mult of_nat_add)
  define a where "a = affinity w j"
  have A: "ws_conn w ! j = a 0" "ws_conn w ! (j + ws_size w) = a 1" "ws_conn w ! (j + 2 * ws_size w) = a 2"
    "ws_conn w ! (j + 1) = a 3" "ws_conn w ! (j + ws_size w + ws_x w) = a 4"
    "ws_conn w ! (j + 2 * ws_size w + ws_x w * ws_y w) = a 5"
    by (simp_all add: a_def affinity_def n algebra_simps)
  define upd where "upd = (\<lambda>k (d, tp, second). if a k > tp then (Suc k, a k, tp) else (d, tp, second :: 'a))"
  have E: "edge_checks w j = fold upd [0, 1, 2, 3, 4, 5] (0, -1, -1)"
  proof -
    have "edge_check w (Suc k, i) = upd k" if "ws_conn w ! i = a k" for k i
      using that by (simp add: edge_check_def upd_def fun_eq_iff)
    from this [OF A(1)] this [OF A(2)] this [OF A(3)] this [OF A(4)] this [OF A(5)] this [OF A(6)] show ?thesis
      unfolding edge_checks_def Let_def by (simp only: fold.simps id_o o_id numeral_eq_Suc pred_numeral_simps BitM.simps)
        (simp add: comp_def)
  qed
  define ok where "ok = (\<lambda>m (d, tp, second :: 'a).
    (d = 0 \<and> tp = -1 \<and> (\<forall>l < m. a l \<le> -1)) \<or>
    (0 < d \<and> d - 1 < m \<and> tp = a (d - 1) \<and> -1 < tp \<and> second < tp \<and> (\<forall>l < m. a l \<le> tp) \<and> (\<forall>l < d - 1. a l < tp)))"
  have step: "ok (Suc k) (upd k s)" if "ok k s" for k s
  proof (cases s)
    case (fields d tp second)
    have tp: "-1 \<le> tp \<and> (\<forall>l < k. a l \<le> tp)" using that unfolding fields ok_def by auto
    show ?thesis
    proof (cases "tp < a k")
      case True
      then have "-1 < a k" "\<forall>l < k. a l < a k" using tp by auto
      then show ?thesis using True by (auto simp: fields upd_def ok_def less_Suc_eq)
    next
      case False
      then show ?thesis using that by (auto simp: fields upd_def ok_def less_Suc_eq)
    qed
  qed
  have "ok 0 (0, -1, -1)" by (simp add: ok_def)
  then have "ok 6 (edge_checks w j)"
    unfolding E by (simp add: numeral_eq_Suc step)
  then show ?thesis
    unfolding ok_def steepest_def a_def [symmetric] by (auto split: prod.splits simp: not_less)
qed

section \<open>The bits of \<open>add_edges\<close>\<close>

abbreviation ors :: "(nat \<times> u32) list \<Rightarrow> u32 list \<Rightarrow> u32 list" where
  "ors \<equiv> fold (\<lambda>(j, b) res. or_at res j b)"

lemma length_or_at [simp]: "length (or_at res j b) = length res"
  by (simp add: or_at_def)

lemma length_ors [simp]: "length (ors os res) = length res"
  by (induction os arbitrary: res) auto

lemma bit_ors:
  "i < length res \<Longrightarrow> bit (ors os res ! i) k \<longleftrightarrow> bit (res ! i) k \<or> (\<exists>b. (i, b) \<in> set os \<and> bit b k)"
proof (induction os arbitrary: res)
  case (Cons o1 os)
  obtain j b where o1: "o1 = (j, b)" by (cases o1)
  have "bit (or_at res j b ! i) k \<longleftrightarrow> bit (res ! i) k \<or> (i = j \<and> bit b k)"
    using Cons.prems by (cases "i = j") (auto simp: or_at_def bit_simps)
  moreover have "bit (ors (o1 # os) res ! i) k \<longleftrightarrow>
      bit (or_at res j b ! i) k \<or> (\<exists>b. (i, b) \<in> set os \<and> bit b k)"
    using Cons.IH [of "or_at res j b"] Cons.prems by (simp add: o1)
  ultimately show ?case by (auto simp: o1)
qed simp

definition link_ors :: "'w watershed \<Rightarrow> nat \<Rightarrow> nat \<Rightarrow> (nat \<times> u32) list" where
  "link_ors w j k = [(j, push_bit k 1), (neighbour w j k, push_bit (opposite k) 1)]"

definition hi_ors :: "'w::linordered_idom watershed \<Rightarrow> nat \<Rightarrow> nat \<times> nat \<times> nat \<times> nat \<Rightarrow> (nat \<times> u32) list" where
  "hi_ors w d v = (if hi_edge w v d then link_ors w (snd (snd (snd v))) d else [])"

definition steep_ors :: "'w::linordered_idom watershed \<Rightarrow> nat \<times> nat \<times> nat \<times> nat \<Rightarrow> (nat \<times> u32) list" where
  "steep_ors w v = concat (map (link_ors w (snd (snd (snd v)))) (filter (steep_edge w v) [0..<6])) @
     (if counts_alone w v then [(snd (snd (snd v)), countme_bit)] else [])"

lemma push_bit_opposite:
  assumes "k < 6"
  shows "push_bit (opposite k) (1 :: u32) = (if k < 3 then push_bit k 8 else push_bit (k - 3) 1)"
  using assms unfolding less6_cases by (elim disjE) (simp_all add: opposite_def push_bit_eq_mult)

lemma add_hi_ors:
  assumes v: "v \<in> set (voxels w)" and d: "d < 3"
  shows "add_hi w d v res = ors (hi_ors w d v) res"
proof -
  obtain x y z j where V: "v = (x, y, z, j)" by (cases v) auto
  have b: "x < ws_x w" "y < ws_y w" "z < ws_z w" using v by (simp_all add: V voxels_iff)
  have "hi_edge w v d \<longleftrightarrow>
    \<not> (x = 0 \<or> y = 0 \<or> z = 0 \<or> x = ws_x w - 1 \<and> d \<noteq> 0 \<or> y = ws_y w - 1 \<and> d \<noteq> 1 \<or> z = ws_z w - 1 \<and> d \<noteq> 2) \<and>
    ws_hi w \<le> ws_conn w ! (d * ws_size w + j)"
    using b d by (auto simp: hi_edge_def V affinity_def)
  then show ?thesis
    using d push_bit_opposite [of d] by (auto simp: add_hi_def V hi_ors_def link_ors_def)
qed

lemma steepest_unique: "steepest w j k \<Longrightarrow> steepest w j l \<Longrightarrow> k = l"
  unfolding steepest_def by (metis linorder_neqE_nat not_le)

lemma filter_steep:
  assumes "steep_edge w v k"
  shows "filter (steep_edge w v) [0..<6] = [k]"
proof -
  have k: "k < 6" and u: "steep_edge w v l \<longleftrightarrow> l = k" for l
    using assms steepest_unique by (auto simp: steep_edge_def steepest_def split: prod.splits)
  have "steep_edge w v = (\<lambda>l. l = k)" by (rule ext) (rule u)
  then have "filter (steep_edge w v) [0..<6] = filter (\<lambda>l. l = k) [0..<6]" by simp
  also have "\<dots> = [k]" using k unfolding less6_cases by (elim disjE) (simp_all add: upt_rec)
  finally show ?thesis .
qed

lemma add_steepest_ors:
  assumes v: "v \<in> set (voxels w)"
  shows "add_steepest w v res = ors (steep_ors w v) res"
proof -
  obtain x y z j where V: "v = (x, y, z, j)" by (cases v) auto
  have b: "x < ws_x w" "y < ws_y w" "z < ws_z w" using v by (simp_all add: V voxels_iff)
  show ?thesis
  proof (cases "inner w v")
    case False
    then have "steep_ors w v = []" by (simp add: steep_ors_def steep_edge_def counts_alone_def)
    then show ?thesis using False b by (auto simp: add_steepest_def V inner_def)
  next
    case True
    obtain d tp second where E: "edge_checks w j = (d, tp, second)" by (cases "edge_checks w j")
    have "x \<noteq> 0" "y \<noteq> 0" "z \<noteq> 0" "x \<noteq> ws_x w - Suc 0" "y \<noteq> ws_y w - Suc 0" "z \<noteq> ws_z w - Suc 0"
      using True b by (auto simp: V inner_def)
    note code = add_steepest_def V E this
    note S = edge_checks_steepest [OF v [unfolded V] True [unfolded V], unfolded E prod.case]
    show ?thesis
    proof (cases "d = 0")
      case True
      with S have "steep_ors w v = []" by (auto simp: steep_ors_def steep_edge_def counts_alone_def V)
      then show ?thesis using True by (simp add: code)
    next
      case False
      then have st: "steepest w j (d - 1)" and tp: "tp = affinity w j (d - 1)" "second < tp" using S by auto
      have k: "d - 1 < 6" using st by (simp add: steepest_def)
      have u: "steepest w j l \<longleftrightarrow> l = d - 1" for l using st steepest_unique by blast
      have alone: "counts_alone w v \<longleftrightarrow> ws_low w \<le> tp \<or> ws_min w \<le> tp"
        using \<open>inner w v\<close> k by (auto simp: counts_alone_def V u tp)
      have edge: "steep_edge w v l \<longleftrightarrow> l = d - 1 \<and> ws_low w \<le> tp" for l
        using \<open>inner w v\<close> by (auto simp: steep_edge_def V u tp)
      show ?thesis
      proof (cases "ws_low w \<le> tp")
        case True
        then have "steep_ors w v = link_ors w j (d - 1) @ [(j, countme_bit)]"
          using filter_steep [of w v "d - 1"] edge alone by (simp add: steep_ors_def V)
        then show ?thesis
          using False True tp(2) push_bit_opposite [OF k] by (simp add: code link_ors_def Let_def)
      next
        case nl: False
        then have "filter (steep_edge w v) [0..<6] = []" using edge by (simp add: filter_empty_conv)
        then have "steep_ors w v = (if ws_min w \<le> tp then [(j, countme_bit)] else [])"
          using nl alone by (simp add: steep_ors_def V)
        then show ?thesis using False nl by (simp add: code)
      qed
    qed
  qed
qed

lemma add_edges_ors:
  "add_edges w res =
     ors (concat (map (\<lambda>d. concat (map (hi_ors w d) (voxels w))) [0..<3]) @ concat (map (steep_ors w) (voxels w))) res"
proof -
  have steep: "fold (add_steepest w) (voxels w) r = ors (concat (map (steep_ors w) (voxels w))) r" for r
    by (rule fold_concat_map) (rule add_steepest_ors)
  have hi: "fold (\<lambda>d. fold (add_hi w d) (voxels w)) [0..<3] res =
      ors (concat (map (\<lambda>d. concat (map (hi_ors w d) (voxels w))) [0..<3])) res"
  proof (rule fold_concat_map)
    fix d r assume "d \<in> set [0..<3 :: nat]"
    then show "fold (add_hi w d) (voxels w) r = ors (concat (map (hi_ors w d) (voxels w))) r"
      by (intro fold_concat_map add_hi_ors) simp_all
  qed
  show ?thesis unfolding add_edges_def fold_append comp_def steep hi ..
qed

text \<open>The edge of voxel \<open>i\<close> in direction \<open>k\<close>, and the neighbours it is joined to.\<close>

definition edge_from :: "'w::linordered_idom watershed \<Rightarrow> nat \<Rightarrow> nat \<Rightarrow> bool" where
  "edge_from w i k \<longleftrightarrow> (\<exists>x y z. (x, y, z, i) \<in> set (voxels w) \<and> (hi_edge w (x, y, z, i) k \<or> steep_edge w (x, y, z, i) k))"

definition joined :: "'w::linordered_idom watershed \<Rightarrow> nat \<Rightarrow> nat \<Rightarrow> bool" where
  "joined w i j \<longleftrightarrow> (\<exists>k. edge_from w i k \<and> neighbour w i k = j \<or> edge_from w j k \<and> neighbour w j k = i)"

definition alone :: "'w::linordered_idom watershed \<Rightarrow> nat \<Rightarrow> bool" where
  "alone w i \<longleftrightarrow> (\<exists>x y z. (x, y, z, i) \<in> set (voxels w) \<and> counts_alone w (x, y, z, i))"

lemma joined_sym: "joined w i j \<Longrightarrow> joined w j i"
  by (auto simp: joined_def)

lemma edge_move:
  assumes "edge_from w i k"
  shows "\<exists>x y z. (x, y, z, i) \<in> set (voxels w) \<and> move w (x, y, z) k \<noteq> None"
proof -
  obtain x y z where v: "(x, y, z, i) \<in> set (voxels w)" "hi_edge w (x, y, z, i) k \<or> steep_edge w (x, y, z, i) k"
    using assms by (auto simp: edge_from_def)
  have "k < 6" using v(2) by (auto simp: hi_edge_def steep_edge_def steepest_def)
  then have "move w (x, y, z) k \<noteq> None"
    using v(2) unfolding less6_cases by (auto simp: hi_edge_def steep_edge_def inner_def)
  with v(1) show ?thesis by blast
qed

lemma edge_fromD:
  assumes "edge_from w i k"
  shows "k < 6" "i < ws_size w" "neighbour w i k < ws_size w" "neighbour w (neighbour w i k) (opposite k) = i"
    "neighbour w i k \<noteq> i"
proof -
  obtain x y z where v: "(x, y, z, i) \<in> set (voxels w)" "move w (x, y, z) k \<noteq> None" using edge_move [OF assms] by blast
  show "k < 6" using move_less [OF v(2)] .
  show "i < ws_size w" using voxel_less [OF v(1)] .
  show "neighbour w i k < ws_size w" "neighbour w (neighbour w i k) (opposite k) = i" "neighbour w i k \<noteq> i"
    using neighbour_back [OF v] by simp_all
qed

lemma joined_less: "joined w i j \<Longrightarrow> i < ws_size w \<and> j < ws_size w \<and> i \<noteq> j"
  using edge_fromD(2,3,5) unfolding joined_def by blast

lemma bit_link: "(\<exists>b. (i, b) \<in> set (link_ors w j k) \<and> bit b l) \<longleftrightarrow>
    (i = j \<and> l = k \<or> i = neighbour w j k \<and> l = opposite k) \<and> l < 32"
  by (auto simp: link_ors_def bit_simps)

lemma hi_edge_less: "hi_edge w v d \<Longrightarrow> d < 3"
  by (auto simp: hi_edge_def)

lemma hi_ors_iff: "p \<in> set (hi_ors w d v) \<longleftrightarrow> hi_edge w v d \<and> p \<in> set (link_ors w (snd (snd (snd v))) d)"
  by (simp add: hi_ors_def)

lemma steep_ors_iff: "(i, b) \<in> set (steep_ors w v) \<longleftrightarrow>
    (\<exists>k. steep_edge w v k \<and> (i, b) \<in> set (link_ors w (snd (snd (snd v))) k)) \<or>
    counts_alone w v \<and> i = snd (snd (snd v)) \<and> b = countme_bit"
proof -
  have "steep_edge w v k \<Longrightarrow> k < 6" for k by (auto simp: steep_edge_def steepest_def)
  then have "set (filter (steep_edge w v) [0..<6]) = {k. steep_edge w v k}" by auto
  then show ?thesis by (auto simp: steep_ors_def)
qed

lemma bit_add_edges:
  assumes i: "i < ws_size w" and len: "length res = ws_size w"
  shows "bit (add_edges w res ! i) l \<longleftrightarrow> bit (res ! i) l \<or> edge_from w i l \<or>
    (\<exists>j k. edge_from w j k \<and> i = neighbour w j k \<and> l = opposite k) \<or> l = 7 \<and> alone w i"
proof -
  let ?os = "concat (map (\<lambda>d. concat (map (hi_ors w d) (voxels w))) [0..<3]) @ concat (map (steep_ors w) (voxels w))"
  let ?edge = "\<lambda>x y z j k. (x, y, z, j) \<in> set (voxels w) \<and> (hi_edge w (x, y, z, j) k \<or> steep_edge w (x, y, z, j) k)"
  have "(i, b) \<in> set ?os \<longleftrightarrow> (\<exists>x y z j k. ?edge x y z j k \<and> (i, b) \<in> set (link_ors w j k)) \<or>
      (\<exists>x y z. (x, y, z, i) \<in> set (voxels w) \<and> counts_alone w (x, y, z, i) \<and> b = countme_bit)" for b
  proof -
    have "(i, b) \<in> set (concat (map (\<lambda>d. concat (map (hi_ors w d) (voxels w))) [0..<3])) \<longleftrightarrow>
        (\<exists>d < 3. \<exists>v \<in> set (voxels w). (i, b) \<in> set (hi_ors w d v))" by auto
    also have "\<dots> \<longleftrightarrow>
        (\<exists>x y z j k. (x, y, z, j) \<in> set (voxels w) \<and> hi_edge w (x, y, z, j) k \<and> (i, b) \<in> set (link_ors w j k))"
      using hi_edge_less unfolding hi_ors_iff Bex_def split_paired_Ex snd_conv by blast
    finally have hi: "(i, b) \<in> set (concat (map (\<lambda>d. concat (map (hi_ors w d) (voxels w))) [0..<3])) \<longleftrightarrow>
        (\<exists>x y z j k. (x, y, z, j) \<in> set (voxels w) \<and> hi_edge w (x, y, z, j) k \<and> (i, b) \<in> set (link_ors w j k))" .
    have "(i, b) \<in> set (concat (map (steep_ors w) (voxels w))) \<longleftrightarrow> (\<exists>v \<in> set (voxels w). (i, b) \<in> set (steep_ors w v))"
      by auto
    also have "\<dots> \<longleftrightarrow>
        (\<exists>x y z j k. (x, y, z, j) \<in> set (voxels w) \<and> steep_edge w (x, y, z, j) k \<and> (i, b) \<in> set (link_ors w j k)) \<or>
        (\<exists>x y z. (x, y, z, i) \<in> set (voxels w) \<and> counts_alone w (x, y, z, i) \<and> b = countme_bit)"
      unfolding steep_ors_iff Bex_def split_paired_Ex snd_conv by blast
    finally have "(i, b) \<in> set (concat (map (steep_ors w) (voxels w))) \<longleftrightarrow>
        (\<exists>x y z j k. (x, y, z, j) \<in> set (voxels w) \<and> steep_edge w (x, y, z, j) k \<and> (i, b) \<in> set (link_ors w j k)) \<or>
        (\<exists>x y z. (x, y, z, i) \<in> set (voxels w) \<and> counts_alone w (x, y, z, i) \<and> b = countme_bit)" .
    with hi show ?thesis unfolding set_append Un_iff by blast
  qed
  then have "(\<exists>b. (i, b) \<in> set ?os \<and> bit b l) \<longleftrightarrow>
      (\<exists>x y z j k. ?edge x y z j k \<and> (\<exists>b. (i, b) \<in> set (link_ors w j k) \<and> bit b l)) \<or>
      (\<exists>x y z. (x, y, z, i) \<in> set (voxels w) \<and> counts_alone w (x, y, z, i)) \<and> bit countme_bit l"
    by blast
  also have "bit countme_bit l \<longleftrightarrow> l = 7" unfolding countme_bit_def bit_push_bit_iff bit_1_iff by auto
  also have "(\<exists>x y z j k. ?edge x y z j k \<and> (\<exists>b. (i, b) \<in> set (link_ors w j k) \<and> bit b l)) \<longleftrightarrow>
      (\<exists>j k. edge_from w j k \<and> (i = j \<and> l = k \<or> i = neighbour w j k \<and> l = opposite k) \<and> l < 32)"
    unfolding bit_link edge_from_def by blast
  also have "\<dots> \<longleftrightarrow> edge_from w i l \<or> (\<exists>j k. edge_from w j k \<and> i = neighbour w j k \<and> l = opposite k)"
  proof -
    have "k < 32" "opposite k < 32" if "edge_from w j k" for j k
      using edge_fromD(1) [OF that] opposite_less [of k] by linarith+
    then show ?thesis by blast
  qed
  also have "(\<exists>x y z. (x, y, z, i) \<in> set (voxels w) \<and> counts_alone w (x, y, z, i)) \<and> l = 7 \<longleftrightarrow> l = 7 \<and> alone w i"
    unfolding alone_def by blast
  finally have "(\<exists>b. (i, b) \<in> set ?os \<and> bit b l) \<longleftrightarrow> edge_from w i l \<or>
    (\<exists>j k. edge_from w j k \<and> i = neighbour w j k \<and> l = opposite k) \<or> l = 7 \<and> alone w i"
    unfolding disj_assoc .
  then show ?thesis using bit_ors [of i res ?os l] i len by (simp add: add_edges_ors)
qed

text \<open>What the search that follows needs: the bits of the directions lead exactly to the joined voxels.\<close>

definition flow_bits :: "'w::linordered_idom watershed \<Rightarrow> u32 list" where
  "flow_bits w = add_edges w (replicate (ws_size w) 0)"

lemma length_add_edges [simp]: "length (add_edges w res) = length res"
  by (simp add: add_edges_ors)

lemma flow_bits_joined:
  assumes "i < ws_size w"
  shows "(\<exists>k < 6. bit (flow_bits w ! i) k \<and> neighbour w i k = j) \<longleftrightarrow> joined w i j"
proof -
  have b: "bit (flow_bits w ! i) k \<longleftrightarrow> edge_from w i k \<or> (\<exists>j l. edge_from w j l \<and> i = neighbour w j l \<and> k = opposite l)"
    if "k < 6" for k
    using bit_add_edges [OF assms, of "replicate (ws_size w) 0" k] that assms by (auto simp: flow_bits_def)
  show ?thesis
  proof
    assume "\<exists>k < 6. bit (flow_bits w ! i) k \<and> neighbour w i k = j"
    then obtain k where k: "k < 6" "bit (flow_bits w ! i) k" "neighbour w i k = j" by blast
    have "edge_from w i k \<or> (\<exists>j l. edge_from w j l \<and> i = neighbour w j l \<and> k = opposite l)"
      using b [OF k(1)] k(2) by blast
    then show "joined w i j"
    proof (elim disjE exE conjE)
      fix j' l assume e: "edge_from w j' l" "i = neighbour w j' l" "k = opposite l"
      then have "j' = j" using edge_fromD(4) [OF e(1)] k(3) by simp
      with e show ?thesis by (auto simp: joined_def)
    qed (use k(3) in \<open>auto simp: joined_def\<close>)
  next
    assume "joined w i j"
    then obtain k where "edge_from w i k \<and> neighbour w i k = j \<or> edge_from w j k \<and> neighbour w j k = i"
      by (auto simp: joined_def)
    then show "\<exists>k < 6. bit (flow_bits w ! i) k \<and> neighbour w i k = j"
    proof (elim disjE conjE)
      assume e: "edge_from w i k" "neighbour w i k = j"
      then show ?thesis using b [of k] edge_fromD(1) [OF e(1)] by blast
    next
      assume e: "edge_from w j k" "neighbour w j k = i"
      then have "neighbour w i (opposite k) = j" "bit (flow_bits w ! i) (opposite k)"
        using b [of "opposite k"] edge_fromD(4) [OF e(1)] by auto
      then show ?thesis using opposite_less [of k] by blast
    qed
  qed
qed

lemma flow_bits_visited: "i < ws_size w \<Longrightarrow> \<not> bit (flow_bits w ! i) 31"
  using bit_add_edges [of i w "replicate (ws_size w) 0" 31] edge_fromD(1) [of w i 31] opposite_less [of 31]
  by (auto simp: flow_bits_def opposite_def)

lemma flow_bits_zero:
  assumes i: "i < ws_size w"
  shows "flow_bits w ! i = 0 \<longleftrightarrow> (\<forall>j. \<not> joined w i j) \<and> \<not> alone w i"
proof -
  have b: "bit (flow_bits w ! i) k \<longleftrightarrow> edge_from w i k \<or>
      (\<exists>j l. edge_from w j l \<and> i = neighbour w j l \<and> k = opposite l) \<or> k = 7 \<and> alone w i" for k
    using bit_add_edges [OF i, of "replicate (ws_size w) 0" k] i by (auto simp: flow_bits_def)
  have "flow_bits w ! i = 0 \<longleftrightarrow> (\<forall>k. \<not> bit (flow_bits w ! i) k)" by (metis bit_0_eq bit_eqI bot_apply bot_bool_def)
  then show ?thesis using b unfolding joined_def by blast
qed

end
