(* ===== verification/Zi_Basins.thy ===== *)
theory Zi_Basins
  imports Zi_Watershed
begin

text \<open>
  \<open>doit\<close> of \<^verbatim>\<open>zi/watershed/basic_watershed.hpp\<close>, the flooding: breadth-first searches along the
  direction bits number the basins from 1 and count their voxels. The basins are the connected
  components of the joined voxels.
\<close>

section \<open>The search\<close>

definition bfs_scan :: "'w watershed \<Rightarrow> nat \<Rightarrow> nat \<Rightarrow> u32 list \<times> nat list \<Rightarrow> u32 list \<times> nat list" where
  "bfs_scan w cur z = (\<lambda>(res, queue).
     if res ! cur AND push_bit z 1 \<noteq> 0
     then
       let pot = neighbour w cur z
       in if res ! pot AND visited_bit = 0 then (or_at res pot visited_bit, queue @ [pot]) else (res, queue)
     else (res, queue))"

partial_function (option) ws_bfs :: "'w watershed \<Rightarrow> u32 \<Rightarrow> u32 list \<times> nat list \<Rightarrow> u32 list option" where
  "ws_bfs w next_index s =
     (case s of (res, queue) \<Rightarrow>
        (case queue of
           [] \<Rightarrow> Some res
         | cur # queue \<Rightarrow>
             ws_bfs w next_index
               (case fold (bfs_scan w cur) [0..<6] (res, queue) of (res, queue) \<Rightarrow>
                  (res[cur := visited_bit OR next_index], queue))))"

fun flood :: "'w watershed \<Rightarrow> nat list \<Rightarrow> u32 list \<times> u32 list \<times> u32 \<Rightarrow> (u32 list \<times> u32 list \<times> u32) option" where
  "flood w [] s = Some s"
| "flood w (i # is) (res, sizes, next_index) =
     (if visited_bit AND res ! i = 0 \<and> res ! i \<noteq> 0
      then do { res \<leftarrow> ws_bfs w next_index (res, [i]); flood w is (res, sizes @ [0], next_index + 1) }
      else flood w is (res, sizes, next_index))"

definition count_voxel :: "nat \<Rightarrow> u32 list \<times> u32 list \<Rightarrow> u32 list \<times> u32 list" where
  "count_voxel i = (\<lambda>(res, sizes).
     let res = res[i := res ! i AND clear_bits]; v = unat (res ! i) in (res, sizes[v := sizes ! v + 1]))"

text \<open>\<open>add_edges\<close>, the searches, \<open>sizes.resize( next_index )\<close> and the counting.\<close>

definition sizes_resize :: "nat \<Rightarrow> u32 list \<Rightarrow> u32 list" where
  "sizes_resize n xs = take n xs @ replicate (n - length xs) 0"

definition basins :: "'w::linordered_idom watershed \<Rightarrow> u32 list \<Rightarrow> u32 list \<Rightarrow> (u32 list \<times> u32 list \<times> u32) option" where
  "basins w res sizes =
     do {
       (res, sizes, next_index) \<leftarrow> flood w [0..<ws_size w] (add_edges w res, sizes, 1);
       let (res, sizes) = fold count_voxel [0..<ws_size w] (res, sizes_resize (unat next_index) sizes);
       Some (res, sizes, next_index)
     }"

section \<open>One search\<close>

abbreviation linked :: "'w::linordered_idom watershed \<Rightarrow> (nat \<times> nat) set" where
  "linked w \<equiv> {(i, j). joined w i j}\<^sup>*"

lemma linked_sym: "(i, j) \<in> linked w \<Longrightarrow> (j, i) \<in> linked w"
  by (metis (no_types, lifting) joined_sym case_prodD case_prodI mem_Collect_eq symI sym_rtrancl symD)

lemma linked_less: "(i, j) \<in> linked w \<Longrightarrow> i < ws_size w \<Longrightarrow> j < ws_size w"
  by (induction rule: rtrancl_induct) (auto dest: joined_less)

lemma visited_iff: "x AND visited_bit = 0 \<longleftrightarrow> \<not> bit x 31" "visited_bit AND x = 0 \<longleftrightarrow> \<not> bit x 31"
  by (simp_all add: visited_bit_def bit_iff_and_push_bit_not_eq_0 and.commute)

lemma bit_visited: "bit visited_bit n \<longleftrightarrow> n = 31"
  unfolding visited_bit_def bit_push_bit_iff bit_1_iff by auto

lemma bfs_scan_eq: "bfs_scan w cur z (res, queue) =
    (if bit (res ! cur) z \<and> \<not> bit (res ! neighbour w cur z) 31
     then (or_at res (neighbour w cur z) visited_bit, queue @ [neighbour w cur z]) else (res, queue))"
  unfolding bfs_scan_def prod.case Let_def visited_iff bit_iff_and_push_bit_not_eq_0 [of "res ! cur", symmetric] by simp

text \<open>While the neighbours of \<open>cur\<close> are looked at: \<open>P\<close> has its number, the queue is marked, the other
  voxels are as in \<open>base\<close>; the directions below \<open>l\<close> are done.\<close>

definition search :: "'w::linordered_idom watershed \<Rightarrow> u32 list \<Rightarrow> nat \<Rightarrow> u32 \<Rightarrow> nat set \<Rightarrow> nat \<Rightarrow> nat list \<Rightarrow> u32 list \<Rightarrow> nat \<Rightarrow> bool" where
  "search w base i k P cur q res l \<longleftrightarrow> length res = ws_size w \<and> distinct (cur # q) \<and> P \<inter> set (cur # q) = {} \<and>
     i \<in> P \<union> set (cur # q) \<and> P \<union> set (cur # q) \<subseteq> linked w `` {i} \<and>
     (\<forall>v \<in> P. res ! v = visited_bit OR k) \<and>
     (\<forall>v \<in> set q. bit (res ! v) 31) \<and>
     (\<forall>v \<in> set (cur # q). \<forall>n < 6. bit (res ! v) n = bit (flow_bits w ! v) n) \<and>
     (\<forall>v < ws_size w. v \<notin> P \<union> set (cur # q) \<longrightarrow> res ! v = base ! v) \<and>
     (\<forall>v \<in> P. \<forall>u. joined w v u \<longrightarrow> u \<in> P \<union> set (cur # q)) \<and>
     (\<forall>n < l. bit (flow_bits w ! cur) n \<longrightarrow> neighbour w cur n \<in> P \<union> set (cur # q))"

definition unmarked :: "'w watershed \<Rightarrow> u32 list \<Rightarrow> nat set" where
  "unmarked w res = {v. v < ws_size w \<and> \<not> bit (res ! v) 31}"

lemma finite_unmarked [simp]: "finite (unmarked w res)"
  by (simp add: unmarked_def)

text \<open>What holds of the voxels of the basin before its search, and its start.\<close>

definition fresh :: "'w::linordered_idom watershed \<Rightarrow> u32 list \<Rightarrow> nat \<Rightarrow> bool" where
  "fresh w base i \<longleftrightarrow> i < ws_size w \<and> (\<forall>v. (i, v) \<in> linked w \<longrightarrow> base ! v = flow_bits w ! v)"

lemma search_step:
  assumes F: "fresh w base i" and S: "search w base i k P cur q res l" and l: "l < 6"
  shows "\<exists>res' q'. bfs_scan w cur l (res, q) = (res', q') \<and> search w base i k P cur q' res' (Suc l) \<and>
    length q' + card (unmarked w res') = length q + card (unmarked w res) \<and> res' ! cur = res ! cur"
proof -
  let ?N = "ws_size w"
  have len: "length res = ?N" and cl: "(i, cur) \<in> linked w" and bits: "bit (res ! cur) l = bit (flow_bits w ! cur) l"
    using S l by (auto simp: search_def)
  have i: "i < ?N" using F by (simp add: fresh_def)
  have cur: "cur < ?N" by (rule linked_less [OF cl i])
  define pot where "pot = neighbour w cur l"
  show ?thesis
  proof (cases "bit (flow_bits w ! cur) l")
    case False
    then have "bfs_scan w cur l (res, q) = (res, q)"
      using bits by (simp add: bfs_scan_eq)
    moreover have "search w base i k P cur q res (Suc l)"
      using S False by (auto simp: search_def less_Suc_eq)
    ultimately show ?thesis by auto
  next
    case True
    then have j: "joined w cur pot" using flow_bits_joined [OF cur, of pot] l by (auto simp: pot_def)
    then have pl: "(i, pot) \<in> linked w" using cl by (auto intro: rtrancl_into_rtrancl)
    have pot: "pot < ?N" "pot \<noteq> cur" using joined_less [OF j] by auto
    have scan: "bfs_scan w cur l (res, q) =
        (if bit (res ! pot) 31 then (res, q) else (or_at res pot visited_bit, q @ [pot]))"
      using bits True by (simp add: bfs_scan_eq pot_def)
    show ?thesis
    proof (cases "pot \<in> P \<union> set q")
      case True
      then have "bit (res ! pot) 31" using S by (auto simp: search_def bit_or_iff bit_visited)
      moreover have "search w base i k P cur q res (Suc l)"
        using S True by (auto simp: search_def less_Suc_eq pot_def)
      ultimately show ?thesis using scan by auto
    next
      case False
      then have rp: "res ! pot = flow_bits w ! pot" using S F pot pl by (auto simp: search_def fresh_def)
      then have nb: "\<not> bit (res ! pot) 31" using flow_bits_visited [OF pot(1)] by simp
      let ?res = "or_at res pot visited_bit"
      have nth: "?res ! v = (if v = pot then res ! pot OR visited_bit else res ! v)" for v
        using pot(1) len by (simp add: or_at_def)
      have P31: "v \<in> P \<Longrightarrow> v \<noteq> pot" for v using False by auto
      have "search w base i k P cur (q @ [pot]) ?res (Suc l)"
        unfolding search_def
      proof (intro conjI ballI allI impI)
        have sub: "P \<union> set (cur # q) \<subseteq> P \<union> set (cur # q @ [pot])" by auto
        show "length ?res = ?N" using len by simp
        show "distinct (cur # q @ [pot])" "P \<inter> set (cur # q @ [pot]) = {}" "i \<in> P \<union> set (cur # q @ [pot])"
          "P \<union> set (cur # q @ [pot]) \<subseteq> linked w `` {i}"
          using S False pot(2) pl by (auto simp: search_def)
        show "?res ! v = visited_bit OR k" if "v \<in> P" for v
        proof -
          have "res ! v = visited_bit OR k" using S that unfolding search_def by blast
          then show ?thesis using False that nth by auto
        qed
        show "bit (?res ! v) 31" if "v \<in> set (q @ [pot])" for v
        proof -
          have "v \<in> set q \<Longrightarrow> bit (res ! v) 31" using S unfolding search_def by blast
          then show ?thesis using that by (auto simp: nth bit_or_iff bit_visited)
        qed
        show "bit (?res ! v) n = bit (flow_bits w ! v) n" if "v \<in> set (cur # q @ [pot])" "n < 6" for v n
        proof -
          have "v \<in> set (cur # q) \<Longrightarrow> bit (res ! v) n = bit (flow_bits w ! v) n"
            using S that(2) unfolding search_def by blast
          then show ?thesis using that rp by (cases "v = pot") (auto simp: nth bit_or_iff bit_visited)
        qed
        show "?res ! v = base ! v" if "v < ?N" "v \<notin> P \<union> set (cur # q @ [pot])" for v
        proof -
          have "res ! v = base ! v" using S that unfolding search_def by auto
          then show ?thesis using that nth by auto
        qed
        show "u \<in> P \<union> set (cur # q @ [pot])" if "v \<in> P" "joined w v u" for v u
          using S that sub unfolding search_def by blast
        show "neighbour w cur n \<in> P \<union> set (cur # q @ [pot])" if "n < Suc l" "bit (flow_bits w ! cur) n" for n
        proof (cases "n = l")
          case True
          then show ?thesis by (simp add: pot_def)
        next
          case False
          then have "n < l" using that(1) by simp
          then show ?thesis using S that(2) sub unfolding search_def by blast
        qed
      qed
      moreover have "unmarked w ?res = unmarked w res - {pot}"
        by (auto simp: unmarked_def nth bit_or_iff bit_visited)
      moreover have "pot \<in> unmarked w res" using nb pot(1) by (simp add: unmarked_def)
      ultimately show ?thesis
        using scan nb nth pot(2) by (auto simp: card_Diff_singleton card_gt_0_iff intro!: Suc_pred)
    qed
  qed
qed

lemma search_steps:
  assumes F: "fresh w base i" and S: "search w base i k P cur q res l" and l: "l \<le> 6"
  shows "\<exists>res' q'. fold (bfs_scan w cur) [l..<6] (res, q) = (res', q') \<and> search w base i k P cur q' res' 6 \<and>
    length q' + card (unmarked w res') = length q + card (unmarked w res)"
  using S l
proof (induction "6 - l" arbitrary: l res q)
  case 0
  then show ?case by auto
next
  case (Suc n)
  then have l: "l < 6" by simp
  then obtain res1 q1 where 1: "bfs_scan w cur l (res, q) = (res1, q1)" "search w base i k P cur q1 res1 (Suc l)"
    "length q1 + card (unmarked w res1) = length q + card (unmarked w res)"
    using search_step [OF F Suc.prems(1)] by blast
  moreover have "n = 6 - Suc l" "Suc l \<le> 6" using Suc.hyps(2) l by simp_all
  ultimately show ?case using Suc.hyps(1) [OF _ 1(2)] l by (auto simp: upt_conv_Cons)
qed

definition searched :: "'w::linordered_idom watershed \<Rightarrow> u32 list \<Rightarrow> nat \<Rightarrow> u32 \<Rightarrow> u32 list \<Rightarrow> bool" where
  "searched w base i k res \<longleftrightarrow> length res = ws_size w \<and>
     (\<forall>v < ws_size w. res ! v = (if (i, v) \<in> linked w then visited_bit OR k else base ! v))"

text \<open>The voxel leaves the queue; the next one, if any, is looked at.\<close>

lemma search_next:
  assumes F: "fresh w base i" and S: "search w base i k P cur q res 6"
  defines "res' \<equiv> res[cur := visited_bit OR k]"
  shows "case q of [] \<Rightarrow> searched w base i k res' | v # q \<Rightarrow> search w base i k (insert cur P) v q res' 0"
    "card (unmarked w res') \<le> card (unmarked w res)"
proof -
  let ?N = "ws_size w" and ?P = "insert cur P"
  have len: "length res = ?N" and dis: "distinct (cur # q)" "P \<inter> set (cur # q) = {}"
    and iS: "i \<in> P \<union> set (cur # q)" and SL: "P \<union> set (cur # q) \<subseteq> linked w `` {i}"
    and RP: "\<And>v. v \<in> P \<Longrightarrow> res ! v = visited_bit OR k" and Q31: "\<And>v. v \<in> set q \<Longrightarrow> bit (res ! v) 31"
    and QB: "\<And>v n. v \<in> set (cur # q) \<Longrightarrow> n < 6 \<Longrightarrow> bit (res ! v) n = bit (flow_bits w ! v) n"
    and O: "\<And>v. v < ?N \<Longrightarrow> v \<notin> P \<union> set (cur # q) \<Longrightarrow> res ! v = base ! v"
    and PC: "\<And>v u. v \<in> P \<Longrightarrow> joined w v u \<Longrightarrow> u \<in> P \<union> set (cur # q)"
    and CC: "\<And>n. n < 6 \<Longrightarrow> bit (flow_bits w ! cur) n \<Longrightarrow> neighbour w cur n \<in> P \<union> set (cur # q)"
    using S unfolding search_def by blast+
  have i: "i < ?N" using F by (simp add: fresh_def)
  have cur: "cur < ?N" using SL linked_less [OF _ i] by auto
  have nth: "res' ! v = (if v = cur then visited_bit OR k else res ! v)" for v
    using cur len by (simp add: res'_def)
  have closed: "u \<in> ?P \<union> set q" if "v \<in> ?P" "joined w v u" for v u
  proof (cases "v \<in> P")
    case True
    then show ?thesis using PC that(2) by auto
  next
    case False
    then have "joined w cur u" using that by auto
    then obtain n where "n < 6" "bit (flow_bits w ! cur) n" "neighbour w cur n = u"
      using flow_bits_joined [OF cur, of u] by blast
    then show ?thesis using CC by auto
  qed
  show "case q of [] \<Rightarrow> searched w base i k res' | v # q \<Rightarrow> search w base i k (insert cur P) v q res' 0"
  proof (cases q)
    case Nil
    have all: "(i, v) \<in> linked w \<Longrightarrow> v \<in> ?P" for v
    proof (induction rule: rtrancl_induct)
      case base
      show ?case using iS by (simp add: Nil)
    next
      case (step v u)
      then show ?case using closed [of v u] by (simp add: Nil)
    qed
    moreover have "v \<in> ?P \<Longrightarrow> (i, v) \<in> linked w" for v using SL by (auto simp: Nil)
    ultimately have "searched w base i k res'"
      using RP O unfolding searched_def nth by (auto simp: Nil len res'_def)
    then show ?thesis by (simp add: Nil)
  next
    case (Cons v q')
    have "search w base i k ?P v q' res' 0"
      unfolding search_def
    proof (intro conjI ballI allI impI)
      show "length res' = ?N" using len by (simp add: res'_def)
      show "distinct (v # q')" "?P \<inter> set (v # q') = {}" "i \<in> ?P \<union> set (v # q')" "?P \<union> set (v # q') \<subseteq> linked w `` {i}"
        using dis iS SL by (auto simp: Cons)
      show "res' ! x = visited_bit OR k" if "x \<in> ?P" for x using RP that by (auto simp: nth)
      show "bit (res' ! x) 31" if "x \<in> set q'" for x using Q31 [of x] that dis(1) by (auto simp: nth Cons)
      show "bit (res' ! x) n = bit (flow_bits w ! x) n" if "x \<in> set (v # q')" "n < 6" for x n
        using QB [of x n] that dis(1) by (auto simp: nth Cons)
      show "res' ! x = base ! x" if "x < ?N" "x \<notin> ?P \<union> set (v # q')" for x
        using O [of x] that by (auto simp: nth Cons)
      show "u \<in> ?P \<union> set (v # q')" if "x \<in> ?P" "joined w x u" for x u using closed [OF that] by (simp add: Cons)
    qed simp
    then show ?thesis by (simp add: Cons)
  qed
  show "card (unmarked w res') \<le> card (unmarked w res)"
    by (rule card_mono) (auto simp: unmarked_def nth bit_or_iff bit_visited split: if_splits)
qed

lemma ws_bfs_ok:
  assumes F: "fresh w base i"
  shows "search w base i k P cur q res 0 \<Longrightarrow> \<exists>res'. ws_bfs w k (res, cur # q) = Some res' \<and> searched w base i k res'"
proof (induction "length q + card (unmarked w res)" arbitrary: P cur q res rule: less_induct)
  case less
  obtain res1 q1 where 1: "fold (bfs_scan w cur) [0..<6] (res, q) = (res1, q1)" "search w base i k P cur q1 res1 6"
    "length q1 + card (unmarked w res1) = length q + card (unmarked w res)"
    using search_steps [OF F less.prems] by auto
  let ?res = "res1[cur := visited_bit OR k]"
  note N = search_next [OF F 1(2)]
  have step: "ws_bfs w k (res, cur # q) = ws_bfs w k (?res, q1)"
    using 1(1) by (subst ws_bfs.simps) simp
  show ?case
  proof (cases q1)
    case Nil
    have "ws_bfs w k (?res, []) = Some ?res" by (subst ws_bfs.simps) simp
    then show ?thesis using step N(1) Nil by simp
  next
    case (Cons v q2)
    have "length q2 + card (unmarked w ?res) < length q + card (unmarked w res)"
      using 1(3) N(2) Cons by simp
    from less.hyps [OF this] N(1) Cons show ?thesis using step by auto
  qed
qed

text \<open>The search from a voxel that is not marked numbers its basin.\<close>

lemma ws_bfs_start:
  assumes F: "fresh w base i" and len: "length base = ws_size w"
  shows "\<exists>res. ws_bfs w k (base, [i]) = Some res \<and> searched w base i k res"
proof (rule ws_bfs_ok [OF F])
  have "base ! i = flow_bits w ! i" using F by (auto simp: fresh_def)
  then show "search w base i k {} i [] base 0" using len by (auto simp: search_def)
qed

section \<open>All basins\<close>

text \<open>The voxels of the basins that the first \<open>m\<close> starts have found.\<close>

definition numbered_upto :: "'w::linordered_idom watershed \<Rightarrow> nat \<Rightarrow> nat \<Rightarrow> bool" where
  "numbered_upto w m v \<longleftrightarrow> (\<exists>s < m. flow_bits w ! s \<noteq> 0 \<and> (s, v) \<in> linked w)"

definition flooded :: "'w::linordered_idom watershed \<Rightarrow> (nat \<Rightarrow> nat) \<Rightarrow> nat \<Rightarrow> nat \<Rightarrow> u32 list \<Rightarrow> bool" where
  "flooded w lab m k res \<longleftrightarrow> length res = ws_size w \<and> 1 \<le> k \<and> k \<le> m + 1 \<and>
     (\<forall>v < ws_size w. numbered_upto w m v \<longrightarrow> 1 \<le> lab v \<and> lab v < k \<and> res ! v = visited_bit OR of_nat (lab v)) \<and>
     (\<forall>v < ws_size w. \<not> numbered_upto w m v \<longrightarrow> res ! v = flow_bits w ! v) \<and>
     (\<forall>u v. numbered_upto w m u \<and> numbered_upto w m v \<longrightarrow> (lab u = lab v \<longleftrightarrow> (u, v) \<in> linked w)) \<and>
     (\<forall>l. 1 \<le> l \<and> l < k \<longrightarrow> (\<exists>v < ws_size w. numbered_upto w m v \<and> lab v = l))"

lemma numbered_linked: "numbered_upto w m u \<Longrightarrow> (u, v) \<in> linked w \<Longrightarrow> numbered_upto w m v"
  unfolding numbered_upto_def by (meson rtrancl_trans)

lemma numbered_Suc: "numbered_upto w (Suc m) v \<longleftrightarrow> numbered_upto w m v \<or> flow_bits w ! m \<noteq> 0 \<and> (m, v) \<in> linked w"
  by (auto simp: numbered_upto_def less_Suc_eq)

lemma flooded_same:
  assumes "flooded w lab m k res" "flow_bits w ! m = 0 \<or> numbered_upto w m m"
  shows "flooded w lab (Suc m) k res"
proof -
  have "numbered_upto w (Suc m) v \<longleftrightarrow> numbered_upto w m v" for v
    using assms(2) numbered_linked [of w m m v] by (auto simp: numbered_Suc)
  then show ?thesis using assms(1) by (simp add: flooded_def)
qed

lemma flooded_new:
  assumes fl: "flooded w lab m k res" and new: "\<not> numbered_upto w m m" "flow_bits w ! m \<noteq> 0" and m: "m < ws_size w"
    and S: "searched w res m (of_nat k) res'"
  shows "flooded w (\<lambda>v. if (m, v) \<in> linked w then k else lab v) (Suc m) (Suc k) res'"
proof -
  let ?N = "ws_size w" and ?lab = "\<lambda>v. if (m, v) \<in> linked w then k else lab v"
  have k: "1 \<le> k" "k \<le> m + 1"
    and L: "\<And>v. v < ?N \<Longrightarrow> numbered_upto w m v \<Longrightarrow> 1 \<le> lab v \<and> lab v < k \<and> res ! v = visited_bit OR of_nat (lab v)"
    and O: "\<And>v. v < ?N \<Longrightarrow> \<not> numbered_upto w m v \<Longrightarrow> res ! v = flow_bits w ! v"
    and I: "\<And>u v. numbered_upto w m u \<Longrightarrow> numbered_upto w m v \<Longrightarrow> (lab u = lab v \<longleftrightarrow> (u, v) \<in> linked w)"
    and R: "\<And>l. 1 \<le> l \<Longrightarrow> l < k \<Longrightarrow> \<exists>v < ?N. numbered_upto w m v \<and> lab v = l"
    using fl by (auto simp: flooded_def)
  have res': "length res' = ?N" "\<And>v. v < ?N \<Longrightarrow> res' ! v = (if (m, v) \<in> linked w then visited_bit OR of_nat k else res ! v)"
    using S by (auto simp: searched_def)
  have disj: "(m, v) \<notin> linked w" if "numbered_upto w m v" for v
    using numbered_linked [OF that] linked_sym new(1) by blast
  have num: "numbered_upto w (Suc m) v \<longleftrightarrow> numbered_upto w m v \<or> (m, v) \<in> linked w" for v
    using new(2) by (auto simp: numbered_Suc)
  have less: "numbered_upto w m v \<Longrightarrow> v < ?N" for v
    using linked_less m unfolding numbered_upto_def by (metis less_trans)
  show ?thesis
    unfolding flooded_def
  proof (intro conjI allI impI; (elim conjE)?)
    show "length res' = ?N" by (rule res')
    show "1 \<le> Suc k" "Suc k \<le> Suc m + 1" using k by simp_all
  next
    fix v assume v: "v < ?N" "numbered_upto w (Suc m) v"
    then show "1 \<le> ?lab v" "?lab v < Suc k" "res' ! v = visited_bit OR of_nat (?lab v)"
      using L [of v] res'(2) [of v] k by (auto simp: num)
  next
    fix v assume v: "v < ?N" "\<not> numbered_upto w (Suc m) v"
    then show "res' ! v = flow_bits w ! v" using O [of v] res'(2) [of v] by (simp add: num)
  next
    fix u v assume uv: "numbered_upto w (Suc m) u" "numbered_upto w (Suc m) v"
    show "?lab u = ?lab v \<longleftrightarrow> (u, v) \<in> linked w"
    proof (cases "(m, u) \<in> linked w"; cases "(m, v) \<in> linked w")
      assume "(m, u) \<in> linked w" "(m, v) \<in> linked w"
      then show ?thesis using linked_sym [of m u w] by (auto intro: rtrancl_trans)
    next
      assume a: "(m, u) \<in> linked w" "(m, v) \<notin> linked w"
      then have "numbered_upto w m v" using uv by (simp add: num)
      then have "lab v < k" using L [OF less] by blast
      then show ?thesis using a by (auto intro: rtrancl_trans)
    next
      assume a: "(m, u) \<notin> linked w" "(m, v) \<in> linked w"
      then have "numbered_upto w m u" using uv by (simp add: num)
      then have "lab u < k" using L [OF less] by blast
      moreover have "(u, v) \<notin> linked w" using a linked_sym [of u v w] by (auto intro: rtrancl_trans)
      ultimately show ?thesis using a by simp
    next
      assume "(m, u) \<notin> linked w" "(m, v) \<notin> linked w"
      then show ?thesis using I uv by (simp add: num)
    qed
  next
    fix l assume l: "1 \<le> l" "l < Suc k"
    show "\<exists>v < ?N. numbered_upto w (Suc m) v \<and> ?lab v = l"
    proof (cases "l = k")
      case True
      then show ?thesis using m by (intro exI [of _ m]) (simp add: num)
    next
      case False
      then obtain v where "v < ?N" "numbered_upto w m v" "lab v = l" using R [of l] l by auto
      then show ?thesis using disj by (intro exI [of _ v]) (simp add: num)
    qed
  qed
qed

lemma flood_ok:
  "flooded w lab m k res \<Longrightarrow> m \<le> ws_size w \<Longrightarrow> \<exists>lab' k' res' sizes'.
    flood w [m..<ws_size w] (res, sizes, of_nat k) = Some (res', sizes', of_nat k') \<and>
    flooded w lab' (ws_size w) k' res' \<and> sizes' = sizes @ replicate (k' - k) 0 \<and> k \<le> k'"
proof (induction "ws_size w - m" arbitrary: m lab k res sizes)
  case 0
  then show ?case by auto
next
  case (Suc n)
  have m: "m < ws_size w" "n = ws_size w - Suc m" "Suc m \<le> ws_size w" using Suc.hyps(2) by simp_all
  have cons: "[m..<ws_size w] = m # [Suc m..<ws_size w]" using m by (simp add: upt_conv_Cons)
  have bit31: "bit (res ! m) 31 \<longleftrightarrow> numbered_upto w m m" and val: "\<not> numbered_upto w m m \<Longrightarrow> res ! m = flow_bits w ! m"
    using Suc.prems(1) m(1) flow_bits_visited [OF m(1)] by (auto simp: flooded_def bit_or_iff bit_visited)
  show ?case
  proof (cases "flow_bits w ! m = 0 \<or> numbered_upto w m m")
    case True
    then have "flood w (m # [Suc m..<ws_size w]) (res, sizes, of_nat k) = flood w [Suc m..<ws_size w] (res, sizes, of_nat k)"
      using bit31 val by (auto simp: visited_iff)
    then show ?thesis
      using Suc.hyps(1) [OF m(2) flooded_same [OF Suc.prems(1) True] m(3), of sizes] unfolding cons by presburger
  next
    case False
    have "fresh w res m"
      unfolding fresh_def
    proof (intro conjI allI impI m(1))
      fix v assume v: "(m, v) \<in> linked w"
      then have "\<not> numbered_upto w m v" using False numbered_linked linked_sym by blast
      then show "res ! v = flow_bits w ! v" using Suc.prems(1) linked_less [OF v m(1)] by (auto simp: flooded_def)
    qed
    moreover have "length res = ws_size w" using Suc.prems(1) by (simp add: flooded_def)
    ultimately obtain res1 where r: "ws_bfs w (of_nat k) (res, [m]) = Some res1" "searched w res m (of_nat k) res1"
      using ws_bfs_start by blast
    have step: "flood w (m # [Suc m..<ws_size w]) (res, sizes, of_nat k) =
        flood w [Suc m..<ws_size w] (res1, sizes @ [0], of_nat (Suc k))"
      using bit31 val False r(1) by (simp add: visited_iff add.commute)
    have "flooded w (\<lambda>v. if (m, v) \<in> linked w then k else lab v) (Suc m) (Suc k) res1"
      using flooded_new [OF Suc.prems(1) _ _ m(1) r(2)] False by blast
    from Suc.hyps(1) [OF m(2) this m(3), of "sizes @ [0]"] obtain lab' k' res' where
      R: "flood w [Suc m..<ws_size w] (res1, sizes @ [0], of_nat (Suc k)) =
        Some (res', (sizes @ [0]) @ replicate (k' - Suc k) 0, of_nat k')"
      "flooded w lab' (ws_size w) k' res'" "Suc k \<le> k'" by blast
    have "(sizes @ [0]) @ replicate (k' - Suc k) 0 = sizes @ replicate (k' - k) (0 :: u32)"
      using R(3) by (simp add: Suc_diff_Suc flip: replicate_Suc)
    then have "flood w [m..<ws_size w] (res, sizes, of_nat k) = Some (res', sizes @ replicate (k' - k) 0, of_nat k')"
      using step R(1) unfolding cons by (simp only:)
    then show ?thesis using R(2,3) by (meson Suc_leD)
  qed
qed

section \<open>Counting\<close>

lemma count_voxels:
  assumes "\<And>v. v < length res \<Longrightarrow> unat (res ! v AND clear_bits) < length sizes"
  shows "m \<le> length res \<Longrightarrow> \<exists>res' sizes'. fold count_voxel [0..<m] (res, sizes) = (res', sizes') \<and>
    length res' = length res \<and> length sizes' = length sizes \<and>
    (\<forall>v < length res. res' ! v = (if v < m then res ! v AND clear_bits else res ! v)) \<and>
    (\<forall>l < length sizes. sizes' ! l = sizes ! l + of_nat (card {v. v < m \<and> unat (res ! v AND clear_bits) = l}))"
proof (induction m)
  case 0
  then show ?case by simp
next
  case (Suc m)
  then obtain res' sizes' where IH: "fold count_voxel [0..<m] (res, sizes) = (res', sizes')"
    "length res' = length res" "length sizes' = length sizes"
    "\<forall>v < length res. res' ! v = (if v < m then res ! v AND clear_bits else res ! v)"
    "\<forall>l < length sizes. sizes' ! l = sizes ! l + of_nat (card {v. v < m \<and> unat (res ! v AND clear_bits) = l})" by auto
  define b where "b = res ! m AND clear_bits"
  have rm: "res' ! m AND clear_bits = b" using IH(4) Suc.prems by (simp add: b_def)
  have b: "unat b < length sizes" using assms [of m] Suc.prems by (simp add: b_def)
  have card: "card {v. v < Suc m \<and> unat (res ! v AND clear_bits) = l} =
      card {v. v < m \<and> unat (res ! v AND clear_bits) = l} + (if l = unat b then 1 else 0)" for l
  proof (cases "l = unat b")
    case True
    then have "{v. v < Suc m \<and> unat (res ! v AND clear_bits) = l} =
        insert m {v. v < m \<and> unat (res ! v AND clear_bits) = l}" by (auto simp: less_Suc_eq b_def)
    then show ?thesis using True by simp
  next
    case False
    then have "{v. v < Suc m \<and> unat (res ! v AND clear_bits) = l} = {v. v < m \<and> unat (res ! v AND clear_bits) = l}"
      by (auto simp: less_Suc_eq b_def)
    then show ?thesis using False by simp
  qed
  have "fold count_voxel [0..<Suc m] (res, sizes) = (res'[m := b], sizes'[unat b := sizes' ! unat b + 1])"
    using IH(1,2) Suc.prems rm by (simp add: count_voxel_def Let_def)
  moreover have "sizes'[unat b := sizes' ! unat b + 1] ! l =
      sizes ! l + of_nat (card {v. v < Suc m \<and> unat (res ! v AND clear_bits) = l})" if "l < length sizes" for l
    unfolding card using IH(3,5) b that by (simp add: nth_list_update)
  moreover have "res'[m := b] ! v = (if v < Suc m then res ! v AND clear_bits else res ! v)" if "v < length res" for v
    using IH(2,4) that by (simp add: nth_list_update less_Suc_eq b_def)
  ultimately show ?case using IH(2,3) by simp
qed

lemma clear_visited:
  assumes "l < 2 ^ 31"
  shows "(visited_bit OR of_nat l) AND clear_bits = of_nat l" "of_nat l AND clear_bits = (of_nat l :: u32)"
    "unat (of_nat l :: u32) = l"
proof -
  show u: "unat (of_nat l :: u32) = l" using assms by (simp add: unsigned_of_nat take_bit_nat_eq_self)
  have clear: "clear_bits = mask 31" by (simp add: clear_bits_def visited_bit_def mask_eq_exp_minus_1)
  have l: "take_bit 31 (of_nat l :: u32) = of_nat l"
    using assms by (simp add: take_bit_of_nat take_bit_nat_eq_self)
  have v: "take_bit 31 visited_bit = 0"
    by (simp add: visited_bit_def take_bit_push_bit)
  show "(visited_bit OR of_nat l) AND clear_bits = of_nat l" "of_nat l AND clear_bits = (of_nat l :: u32)"
    unfolding clear take_bit_eq_mask [symmetric] take_bit_or l v by simp_all
qed

text \<open>The basins: their numbers, their voxels and their sizes.\<close>

lemma basins_ok:
  assumes N: "ws_size w < 2 ^ 31"
  shows "\<exists>lab k res sizes. basins w (replicate (ws_size w) 0) [] = Some (res, sizes, of_nat k) \<and>
    res = map (\<lambda>v. of_nat (lab v)) [0..<ws_size w] \<and> 1 \<le> k \<and> k \<le> ws_size w + 1 \<and>
    (\<forall>v < ws_size w. lab v < k) \<and>
    (\<forall>v < ws_size w. lab v = 0 \<longleftrightarrow> (\<forall>u. \<not> joined w v u) \<and> \<not> alone w v) \<and>
    (\<forall>u < ws_size w. \<forall>v < ws_size w. lab u \<noteq> 0 \<longrightarrow> (lab u = lab v \<longleftrightarrow> (u, v) \<in> linked w)) \<and>
    (\<forall>l. 1 \<le> l \<and> l < k \<longrightarrow> (\<exists>v < ws_size w. lab v = l)) \<and>
    sizes = map (\<lambda>l. of_nat (card {v. v < ws_size w \<and> lab v = l})) [0..<k]"
proof -
  let ?N = "ws_size w"
  have "flooded w (\<lambda>_. 0) 0 1 (add_edges w (replicate ?N 0))"
    by (simp add: flooded_def flow_bits_def numbered_upto_def)
  from flood_ok [OF this, of "[]"] obtain lab k res where
    fl: "flood w [0..<?N] (add_edges w (replicate ?N 0), [], 1) = Some (res, replicate (k - 1) 0, of_nat k)"
    and inv: "flooded w lab ?N k res" and k: "1 \<le> k" by auto
  have num: "numbered_upto w ?N v \<longleftrightarrow> flow_bits w ! v \<noteq> 0" if v: "v < ?N" for v
  proof
    assume "numbered_upto w ?N v"
    then obtain s where s: "s < ?N" "flow_bits w ! s \<noteq> 0" "(s, v) \<in> linked w" by (auto simp: numbered_upto_def)
    show "flow_bits w ! v \<noteq> 0"
    proof (cases "s = v")
      case False
      with s(3) obtain u where "joined w u v" by (auto elim: rtranclE)
      then show ?thesis using joined_sym flow_bits_zero [OF v] by blast
    qed (use s in simp)
  qed (use v in \<open>auto simp: numbered_upto_def\<close>)
  define lab' where "lab' v = (if flow_bits w ! v = 0 then 0 else lab v)" for v
  have len: "length res = ?N" and kN: "k \<le> ?N + 1" using inv by (simp_all add: flooded_def)
  have labk: "lab' v < k" and lab0: "lab' v = 0 \<longleftrightarrow> flow_bits w ! v = 0"
    and resv: "res ! v AND clear_bits = of_nat (lab' v)" "unat (res ! v AND clear_bits) = lab' v" if v: "v < ?N" for v
  proof -
    show l: "lab' v < k" "lab' v = 0 \<longleftrightarrow> flow_bits w ! v = 0"
      using inv v num [OF v] k by (auto simp: flooded_def lab'_def)
    then have l31: "lab' v < 2 ^ 31" using kN N by simp
    show "res ! v AND clear_bits = of_nat (lab' v)"
      using inv v num [OF v] clear_visited(1) [OF l31] by (cases "flow_bits w ! v = 0") (auto simp: flooded_def lab'_def)
    then show "unat (res ! v AND clear_bits) = lab' v" using clear_visited(3) [OF l31] by simp
  qed
  have k32: "unat (of_nat k :: u32) = k" using kN N by (simp add: unsigned_of_nat take_bit_nat_eq_self)
  have sz: "sizes_resize k (replicate (k - 1) 0) = replicate k 0"
    using k by (cases k) (simp_all add: sizes_resize_def replicate_append_same)
  have "\<And>v. v < length res \<Longrightarrow> unat (res ! v AND clear_bits) < length (replicate k (0 :: u32))"
    using labk resv len by simp
  from count_voxels [OF this, of ?N] len obtain res' sizes' where
    c: "fold count_voxel [0..<?N] (res, replicate k 0) = (res', sizes')" "length res' = ?N" "length sizes' = k"
    "\<forall>v < ?N. res' ! v = res ! v AND clear_bits"
    "\<forall>l < k. sizes' ! l = of_nat (card {v. v < ?N \<and> unat (res ! v AND clear_bits) = l})" by auto
  have B: "basins w (replicate ?N 0) [] = Some (res', sizes', of_nat k)"
    using fl c(1) by (simp add: basins_def k32 sz [unfolded One_nat_def])
  have R: "res' = map (\<lambda>v. of_nat (lab' v)) [0..<?N]"
    using c(2,4) resv by (intro nth_equalityI) auto
  have "{v. v < ?N \<and> unat (res ! v AND clear_bits) = l} = {v. v < ?N \<and> lab' v = l}" for l
    using resv(2) by auto
  then have S: "sizes' = map (\<lambda>l. of_nat (card {v. v < ?N \<and> lab' v = l})) [0..<k]"
    using c(3,5) by (intro nth_equalityI) auto
  have eq: "lab' u = lab' v \<longleftrightarrow> (u, v) \<in> linked w" if uv: "u < ?N" "v < ?N" "lab' u \<noteq> 0" for u v
  proof (cases "flow_bits w ! v = 0")
    case True
    then have "\<not> numbered_upto w ?N v" "numbered_upto w ?N u" using num lab0 uv by simp_all
    then have "(u, v) \<notin> linked w" using numbered_linked by blast
    then show ?thesis using True uv(3) by (simp add: lab'_def)
  next
    case False
    then show ?thesis using inv num uv by (simp add: flooded_def lab'_def split: if_splits)
  qed
  have zero: "lab' v = 0 \<longleftrightarrow> (\<forall>u. \<not> joined w v u) \<and> \<not> alone w v" if "v < ?N" for v
    using lab0 [OF that] flow_bits_zero [OF that] by (rule trans)
  have onto: "\<exists>v < ?N. lab' v = l" if l: "1 \<le> l" "l < k" for l
  proof -
    obtain v where "v < ?N" "numbered_upto w ?N v" "lab v = l" using inv l unfolding flooded_def by blast
    then show ?thesis using num by (intro exI [of _ v]) (simp add: lab'_def)
  qed
  show ?thesis
    using B R S k kN labk zero eq onto by (intro exI [of _ lab'] exI [of _ k]) simp
qed

end
