(* ===== verification/Zi_Regions.thy ===== *)
theory Zi_Regions
  imports Zi_Basins Zi_Dendrogram "HOL-Library.Product_Lexorder"
begin

text \<open>
  The rest of \<open>doit\<close> of \<^verbatim>\<open>zi/watershed/basic_watershed.hpp\<close>: the graph of neighbouring basins with the
  largest affinity between them, the merging of small basins along it, the removal of what stays too
  small, and the dendrogram of the regions that are left. Basin and region ids are indices (\<open>nat\<close>), sizes
  are words, as in \<^verbatim>\<open>Zi_Dendrogram\<close>; the progress output is left out, with the counter that only it uses.
\<close>

section \<open>The graph of the basins\<close>

definition min_max_pair :: "nat \<Rightarrow> nat \<Rightarrow> nat \<times> nat" where
  "min_max_pair a b = (if a < b then (a, b) else (b, a))"

text \<open>The hash map \<open>uniques\<close>, as an association list; the sort that follows fixes the order.\<close>

definition uniques_add :: "nat \<times> nat \<Rightarrow> 'w::linorder \<Rightarrow> ((nat \<times> nat) \<times> 'w) list \<Rightarrow> ((nat \<times> nat) \<times> 'w) list" where
  "uniques_add p c uniques =
     (case map_of uniques p of
        None \<Rightarrow> (p, c) # uniques
      | Some c' \<Rightarrow> if c' < c then map (\<lambda>(q, x). if q = p then (q, c) else (q, x)) uniques else uniques)"

definition graph_voxel :: "'w::linordered_idom watershed \<Rightarrow> nat list \<Rightarrow> nat \<Rightarrow> nat \<times> nat \<times> nat \<times> nat \<Rightarrow>
    ((nat \<times> nat) \<times> 'w) list \<Rightarrow> ((nat \<times> nat) \<times> 'w) list" where
  "graph_voxel w res d = (\<lambda>(x, y, z, j) uniques.
     if x = 0 \<and> d = 0 \<or> y = 0 \<and> d = 1 \<or> z = 0 \<and> d = 2 then uniques
     else
       let c = ws_conn w ! (d * ws_size w + j); a = res ! j; b = res ! neighbour w j d
       in if c \<ge> ws_min w \<and> a \<noteq> 0 \<and> b \<noteq> 0 \<and> a \<noteq> b then uniques_add (min_max_pair a b) c uniques else uniques)"

definition ws_graph :: "'w::linordered_idom watershed \<Rightarrow> nat list \<Rightarrow> 'w dendr" where
  "ws_graph w res =
     sort (map (\<lambda>(p, c). (c, p)) (fold (\<lambda>d. fold (graph_voxel w res d) (voxels w)) [0..<3] []))"

section \<open>Basins that touch the border\<close>

text \<open>\<open>xslice\<close>, \<open>yslice\<close> and \<open>zslice\<close> of \<^verbatim>\<open>watershed/chunk.hpp\<close>.\<close>

definition chunk_at :: "'w watershed \<Rightarrow> nat list \<Rightarrow> nat \<Rightarrow> nat \<Rightarrow> nat \<Rightarrow> nat" where
  "chunk_at w res x y z = res ! (x + ws_x w * y + ws_x w * ws_y w * z)"

definition xslice :: "'w watershed \<Rightarrow> nat list \<Rightarrow> nat \<Rightarrow> nat list" where
  "xslice w res n = [chunk_at w res n y z. z \<leftarrow> [1..<ws_z w - 1], y \<leftarrow> [1..<ws_y w - 1]]"

definition yslice :: "'w watershed \<Rightarrow> nat list \<Rightarrow> nat \<Rightarrow> nat list" where
  "yslice w res n = [chunk_at w res x n z. z \<leftarrow> [1..<ws_z w - 1], x \<leftarrow> [1..<ws_x w - 1]]"

definition zslice :: "'w watershed \<Rightarrow> nat list \<Rightarrow> nat \<Rightarrow> nat list" where
  "zslice w res n = [chunk_at w res x y n. y \<leftarrow> [1..<ws_y w - 1], x \<leftarrow> [1..<ws_x w - 1]]"

definition mark_border :: "nat list \<Rightarrow> bool list \<Rightarrow> bool list" where
  "mark_border = fold (\<lambda>v on_border. on_border[v := True])"

definition ws_border :: "'w watershed \<Rightarrow> nat list \<Rightarrow> nat \<Rightarrow> bool list" where
  "ws_border w res next_index =
     mark_border (zslice w res (ws_z w - 2)) (mark_border (zslice w res 1)
       (mark_border (yslice w res (ws_y w - 2)) (mark_border (yslice w res 1)
         (mark_border (xslice w res (ws_x w - 2)) (mark_border (xslice w res 1) (replicate next_index False))))))"

section \<open>Merging, removal and the dendrogram\<close>

text \<open>\<open>FOR_EACH_R\<close> runs through the sorted graph from its end.\<close>

fun ws_merge :: "nat \<Rightarrow> 'w::linorder \<Rightarrow> 'w dendr \<Rightarrow> dsets \<Rightarrow> u32 list \<Rightarrow> bool list \<Rightarrow> (dsets \<times> u32 list \<times> bool list) option" where
  "ws_merge th mn [] d sz ob = Some (d, sz, ob)"
| "ws_merge th mn ((c, a, b) # es) d sz ob =
     (if c < mn then Some (d, sz, ob)
      else do {
        (v1, d1) \<leftarrow> ds_find_set d a;
        (v2, d2) \<leftarrow> ds_find_set d1 b;
        if v1 \<noteq> v2 \<and> (unat (sz ! v1) < th \<and> \<not> ob ! v1 \<or> unat (sz ! v2) < th \<and> \<not> ob ! v2)
        then do {
          (vr, d3) \<leftarrow> ds_join d2 v1 v2;
          ws_merge th mn es d3 (swap_nth (sz[v1 := sz ! v1 + sz ! v2, v2 := 0]) vr v1) (ob[vr := ob ! v1 \<or> ob ! v2])
        }
        else ws_merge th mn es d2 sz ob
      })"

definition remap_step :: "nat \<Rightarrow> bool list \<Rightarrow> nat \<Rightarrow> u32 list \<times> nat list \<times> nat \<Rightarrow> u32 list \<times> nat list \<times> nat" where
  "remap_step th ob i = (\<lambda>(sz, remaps, new_index).
     if sz ! i \<noteq> 0
     then
       if unat (sz ! i) \<ge> th \<or> ob ! i then (sz[new_index := sz ! i], remaps[i := new_index], Suc new_index)
       else (sz[0 := sz ! 0 + sz ! i, i := 0], remaps[i := 0], new_index)
     else (sz, remaps, new_index))"

fun ws_relabel :: "nat list \<Rightarrow> nat list \<Rightarrow> dsets \<Rightarrow> (nat list \<times> dsets) option" where
  "ws_relabel remaps [] d = Some ([], d)"
| "ws_relabel remaps (r # res) d =
     do { (v, d) \<leftarrow> ds_find_set d r; (res, d) \<leftarrow> ws_relabel remaps res d; Some (remaps ! v # res, d) }"

fun ws_tree :: "'w::linorder \<Rightarrow> nat list \<Rightarrow> 'w dendr \<Rightarrow> dsets \<Rightarrow> 'w dendr \<Rightarrow> 'w dendr option" where
  "ws_tree low remaps [] d dendr = Some dendr"
| "ws_tree low remaps ((c, a, b) # es) d dendr =
     (if c < low then Some dendr
      else
        let a1 = remaps ! a; a2 = remaps ! b
        in if a1 \<noteq> 0 \<and> a2 \<noteq> 0
           then do {
             (v1, d1) \<leftarrow> ds_find_set d a1;
             (v2, d2) \<leftarrow> ds_find_set d1 a2;
             if v1 \<noteq> v2
             then do { (vr, d3) \<leftarrow> ds_join d2 v1 v2; ws_tree low remaps es d3 (dendr @ [(c, a1, a2)]) }
             else ws_tree low remaps es d2 dendr
           }
           else ws_tree low remaps es d dendr)"

text \<open>Everything after the graph; the final sort is by \<open>std::greater\<close>.\<close>

definition ws_finish :: "'w::linordered_idom watershed \<Rightarrow> 'w dendr \<Rightarrow> bool list \<Rightarrow> u32 list \<Rightarrow> nat list \<Rightarrow>
    ('w dendr \<times> u32 list \<times> nat list) option" where
  "ws_finish w graph on_border sizes res =
     do {
       (d, sz, ob) \<leftarrow> ws_merge (ws_size_thold w) (ws_min w) (rev graph) (ds_new (length on_border)) sizes on_border;
       let (sz, remaps, new_index) =
         fold (remap_step (ws_size_thold w) ob) [1..<length sz] (sz, replicate (length sz) 0, 1);
       (_, d) \<leftarrow> ds_find_set d 0;
       (res, d) \<leftarrow> ws_relabel remaps res d;
       dendr \<leftarrow> ws_tree (ws_low w) remaps (rev graph) (ds_clear d) [];
       Some (rev (sort dendr), take new_index sz, res)
     }"

definition doit :: "'w::linordered_idom watershed \<Rightarrow> u32 list \<Rightarrow> u32 list \<Rightarrow> ('w dendr \<times> u32 list \<times> nat list) option" where
  "doit w chunk sizes =
     do {
       (res, sizes, next_index) \<leftarrow> basins w chunk sizes;
       let res = map unat res;
       let graph = ws_graph w res;
       let on_border = ws_border w res (unat next_index);
       ws_finish w graph on_border sizes res
     }"

definition simple_watershed :: "nat \<Rightarrow> nat \<Rightarrow> nat \<Rightarrow> 'w::linordered_idom list \<Rightarrow> 'w \<Rightarrow> 'w \<Rightarrow> 'w \<Rightarrow> nat \<Rightarrow>
    u32 list \<Rightarrow> (nat \<times> 'w dendr \<times> u32 list \<times> nat list) option" where
  "simple_watershed x y z conn low_thold hi_thold min_thold size_thold sizes =
     do {
       let (w, chunk) = ws_new x y z conn low_thold hi_thold min_thold size_thold;
       (dendr, sizes, res) \<leftarrow> doit w chunk sizes;
       Some (length sizes, dendr, sizes, res)
     }"

section \<open>What the graph holds\<close>

abbreviation add_all :: "((nat \<times> nat) \<times> 'w::linorder) list \<Rightarrow> ((nat \<times> nat) \<times> 'w) list \<Rightarrow> ((nat \<times> nat) \<times> 'w) list" where
  "add_all \<equiv> fold (\<lambda>(p, c). uniques_add p c)"

lemma map_of_update:
  "map_of (map (\<lambda>(q, x). if q = p then (q, c) else (q, x)) m) q =
     (if q = p then map_option (\<lambda>_. c) (map_of m q) else map_of m q)"
  by (induction m) auto

lemma uniques_add_spec:
  assumes "distinct (map fst m)"
  shows "distinct (map fst (uniques_add p c m))"
    "map_of (uniques_add p c m) q =
      (if q = p then Some (case map_of m p of None \<Rightarrow> c | Some c' \<Rightarrow> max c' c) else map_of m q)"
proof -
  have "fst \<circ> (\<lambda>(q, x). if q = p then (q, c) else (q, x)) = (fst :: _ \<times> 'a \<Rightarrow> _)" by auto
  then show "distinct (map fst (uniques_add p c m))"
    using assms by (auto simp: uniques_add_def map_of_eq_None_iff split: option.split)
  show "map_of (uniques_add p c m) q =
      (if q = p then Some (case map_of m p of None \<Rightarrow> c | Some c' \<Rightarrow> max c' c) else map_of m q)"
    by (auto simp: uniques_add_def map_of_update max_def not_less split: option.split)
qed

text \<open>A pair is kept with the largest of its affinities.\<close>

lemma add_all_spec:
  "distinct (map fst (add_all items [])) \<and>
   (\<forall>p c. map_of (add_all items []) p = Some c \<longleftrightarrow> (p, c) \<in> set items \<and> (\<forall>c'. (p, c') \<in> set items \<longrightarrow> c' \<le> c))"
proof (induction items rule: rev_induct)
  case Nil
  then show ?case by simp
next
  case (snoc it items)
  obtain p0 c0 where it: "it = (p0, c0)" by (cases it)
  let ?m = "add_all items []"
  have m: "add_all (items @ [it]) [] = uniques_add p0 c0 ?m" by (simp add: it)
  note U = uniques_add_spec [OF conjunct1 [OF snoc], of p0 c0]
  have IH: "map_of ?m p = Some c \<longleftrightarrow> (p, c) \<in> set items \<and> (\<forall>c'. (p, c') \<in> set items \<longrightarrow> c' \<le> c)" for p c
    using snoc by blast
  have none: "(p, c) \<notin> set items" if "map_of ?m p = None" for p c
  proof
    assume c: "(p, c) \<in> set items"
    let ?C = "{c. (p, c) \<in> set items}"
    have "finite ?C" by (rule finite_subset [of _ "snd ` set items"]) (force, simp)
    then have "(p, Max ?C) \<in> set items \<and> (\<forall>c'. (p, c') \<in> set items \<longrightarrow> c' \<le> Max ?C)"
      using c Max_in [of ?C] by auto
    with IH [of p "Max ?C"] that show False by simp
  qed
  have "map_of (uniques_add p0 c0 ?m) p = Some c \<longleftrightarrow>
      (p, c) \<in> set (items @ [it]) \<and> (\<forall>c'. (p, c') \<in> set (items @ [it]) \<longrightarrow> c' \<le> c)" for p c
  proof (cases "p = p0")
    case False
    then show ?thesis using U(2) [of p] IH [of p c] by (simp add: it)
  next
    case True
    show ?thesis
    proof (cases "map_of ?m p0")
      case None
      then show ?thesis using U(2) [of p] True none [OF None] by (auto simp: it)
    next
      case (Some c1)
      then have c1: "(p0, c1) \<in> set items" "\<And>c'. (p0, c') \<in> set items \<Longrightarrow> c' \<le> c1" using IH [of p0 c1] by auto
      have "c = max c1 c0 \<longleftrightarrow> (p0, c) \<in> set (items @ [it]) \<and> (\<forall>c'. (p0, c') \<in> set (items @ [it]) \<longrightarrow> c' \<le> c)"
        using c1 by (fastforce simp: it max_def)
      then show ?thesis using U(2) [of p] True Some by auto
    qed
  qed
  then show ?case unfolding m using U(1) by simp
qed

text \<open>Two neighbouring voxels of different basins with an affinity of at least \<open>min_thold_\<close>.\<close>

definition touch :: "'w::linordered_idom watershed \<Rightarrow> nat list \<Rightarrow> nat \<times> nat \<Rightarrow> 'w \<Rightarrow> bool" where
  "touch w res p c \<longleftrightarrow> (\<exists>x y z j. \<exists>d < 3. (x, y, z, j) \<in> set (voxels w) \<and> move w (x, y, z) d \<noteq> None \<and>
     c = affinity w j d \<and> ws_min w \<le> c \<and> res ! j \<noteq> 0 \<and> res ! neighbour w j d \<noteq> 0 \<and>
     res ! j \<noteq> res ! neighbour w j d \<and> p = min_max_pair (res ! j) (res ! neighbour w j d))"

definition voxel_items :: "'w::linordered_idom watershed \<Rightarrow> nat list \<Rightarrow> nat \<Rightarrow> nat \<times> nat \<times> nat \<times> nat \<Rightarrow> ((nat \<times> nat) \<times> 'w) list" where
  "voxel_items w res d = (\<lambda>(x, y, z, j).
     let c = affinity w j d; a = res ! j; b = res ! neighbour w j d
     in if move w (x, y, z) d \<noteq> None \<and> ws_min w \<le> c \<and> a \<noteq> 0 \<and> b \<noteq> 0 \<and> a \<noteq> b then [(min_max_pair a b, c)] else [])"

lemma voxel_items_iff: "(p, c) \<in> set (voxel_items w res d (x, y, z, j)) \<longleftrightarrow> move w (x, y, z) d \<noteq> None \<and>
    c = affinity w j d \<and> ws_min w \<le> c \<and> res ! j \<noteq> 0 \<and> res ! neighbour w j d \<noteq> 0 \<and>
    res ! j \<noteq> res ! neighbour w j d \<and> p = min_max_pair (res ! j) (res ! neighbour w j d)"
  unfolding voxel_items_def prod.case Let_def by (simp del: move.simps) blast

lemma graph_voxel_items:
  assumes "d < 3"
  shows "graph_voxel w res d v = add_all (voxel_items w res d v)"
proof -
  obtain x y z j where v: "v = (x, y, z, j)" by (cases v) auto
  have "move w (x, y, z) d = None \<longleftrightarrow> x = 0 \<and> d = 0 \<or> y = 0 \<and> d = 1 \<or> z = 0 \<and> d = 2" using assms by auto
  then show ?thesis using assms by (auto simp: fun_eq_iff graph_voxel_def voxel_items_def v affinity_def Let_def)
qed

lemma ws_graph_spec:
  "sorted (ws_graph w res)" "distinct (map snd (ws_graph w res))"
  "(c, p) \<in> set (ws_graph w res) \<longleftrightarrow> touch w res p c \<and> (\<forall>c'. touch w res p c' \<longrightarrow> c' \<le> c)"
proof -
  let ?items = "concat (map (\<lambda>d. concat (map (voxel_items w res d) (voxels w))) [0..<3])"
  have "fold (\<lambda>d. fold (graph_voxel w res d) (voxels w)) [0..<3] [] = add_all ?items []"
  proof (rule fold_concat_map)
    fix d r assume "d \<in> set [0..<3 :: nat]"
    then show "fold (graph_voxel w res d) (voxels w) r = add_all (concat (map (voxel_items w res d) (voxels w))) r"
      by (intro fold_concat_map) (simp add: graph_voxel_items)
  qed
  then have G: "ws_graph w res = sort (map (\<lambda>(p, c). (c, p)) (add_all ?items []))" by (simp add: ws_graph_def)
  show "sorted (ws_graph w res)" by (simp add: G)
  have dis: "distinct (map fst (add_all ?items []))" using add_all_spec [of ?items] ..
  have "mset (map snd (ws_graph w res)) = mset (map fst (add_all ?items []))"
    unfolding G mset_map mset_sort by (simp add: image_mset.compositionality comp_def case_prod_beta)
  then show "distinct (map snd (ws_graph w res))" using dis by (metis mset_eq_imp_distinct_iff)
  have touch: "(p, c) \<in> set ?items \<longleftrightarrow> touch w res p c" for p c
  proof -
    have "(p, c) \<in> set ?items \<longleftrightarrow> (\<exists>d < 3. \<exists>v \<in> set (voxels w). (p, c) \<in> set (voxel_items w res d v))" by auto
    also have "\<dots> \<longleftrightarrow> touch w res p c"
      unfolding touch_def Bex_def split_paired_Ex voxel_items_iff by blast
    finally show ?thesis .
  qed
  have "(c, p) \<in> set (ws_graph w res) \<longleftrightarrow> (p, c) \<in> set (add_all ?items [])" unfolding G by force
  also have "\<dots> \<longleftrightarrow> map_of (add_all ?items []) p = Some c" using dis by simp
  also have "\<dots> \<longleftrightarrow> (p, c) \<in> set ?items \<and> (\<forall>c'. (p, c') \<in> set ?items \<longrightarrow> c' \<le> c)" using add_all_spec [of ?items] by blast
  finally show "(c, p) \<in> set (ws_graph w res) \<longleftrightarrow> touch w res p c \<and> (\<forall>c'. touch w res p c' \<longrightarrow> c' \<le> c)"
    by (simp only: touch)
qed

section \<open>The border\<close>

text \<open>The voxels of the six slices next to the faces of the volume.\<close>

definition border_voxel :: "'w watershed \<Rightarrow> nat \<Rightarrow> bool" where
  "border_voxel w j \<longleftrightarrow>
     (\<exists>n \<in> {1, ws_x w - 2}. \<exists>y \<in> {1..<ws_y w - 1}. \<exists>z \<in> {1..<ws_z w - 1}. j = n + ws_x w * (y + ws_y w * z)) \<or>
     (\<exists>n \<in> {1, ws_y w - 2}. \<exists>x \<in> {1..<ws_x w - 1}. \<exists>z \<in> {1..<ws_z w - 1}. j = x + ws_x w * (n + ws_y w * z)) \<or>
     (\<exists>n \<in> {1, ws_z w - 2}. \<exists>x \<in> {1..<ws_x w - 1}. \<exists>y \<in> {1..<ws_y w - 1}. j = x + ws_x w * (y + ws_y w * n))"

lemma border_voxel_less:
  assumes "2 \<le> ws_x w" "2 \<le> ws_y w" "2 \<le> ws_z w" "border_voxel w j"
  shows "j < ws_size w"
  using assms(4) unfolding border_voxel_def
proof (elim disjE bexE)
  fix n y z assume "n \<in> {1, ws_x w - 2}" "y \<in> {1..<ws_y w - 1}" "z \<in> {1..<ws_z w - 1}" "j = n + ws_x w * (y + ws_y w * z)"
  then show ?thesis using assms(1-3) by (intro voxel_less [of n y z]) (auto simp: voxels_iff)
next
  fix n x z assume "n \<in> {1, ws_y w - 2}" "x \<in> {1..<ws_x w - 1}" "z \<in> {1..<ws_z w - 1}" "j = x + ws_x w * (n + ws_y w * z)"
  then show ?thesis using assms(1-3) by (intro voxel_less [of x n z]) (auto simp: voxels_iff)
next
  fix n x y assume "n \<in> {1, ws_z w - 2}" "x \<in> {1..<ws_x w - 1}" "y \<in> {1..<ws_y w - 1}" "j = x + ws_x w * (y + ws_y w * n)"
  then show ?thesis using assms(1-3) by (intro voxel_less [of x y n]) (auto simp: voxels_iff)
qed

lemma mark_border: "length (mark_border vs ob) = length ob \<and>
    (v < length ob \<longrightarrow> mark_border vs ob ! v = (ob ! v \<or> v \<in> set vs))"
proof -
  have "v < length ob \<Longrightarrow> ob[a := True] ! v \<longleftrightarrow> a = v \<or> ob ! v" for a and ob :: "bool list" by (cases "a = v") auto
  then show ?thesis unfolding mark_border_def by (induction vs arbitrary: ob) auto
qed

lemma chunk_at: "chunk_at w res x y z = res ! (x + ws_x w * (y + ws_y w * z))"
  by (simp add: chunk_at_def algebra_simps)

lemma ws_border_spec:
  shows "length (ws_border w res k) = k" "r < k \<Longrightarrow> ws_border w res k ! r \<longleftrightarrow> (\<exists>j. border_voxel w j \<and> res ! j = r)"
proof -
  show "length (ws_border w res k) = k" by (simp add: ws_border_def mark_border)
  assume r: "r < k"
  let ?V = "\<lambda>x y z. x + ws_x w * (y + ws_y w * z)"
  have X: "r \<in> set (xslice w res n) \<longleftrightarrow> (\<exists>y \<in> {1..<ws_y w - 1}. \<exists>z \<in> {1..<ws_z w - 1}. res ! ?V n y z = r)" for n
    by (auto simp: xslice_def chunk_at image_iff)
  have Y: "r \<in> set (yslice w res n) \<longleftrightarrow> (\<exists>x \<in> {1..<ws_x w - 1}. \<exists>z \<in> {1..<ws_z w - 1}. res ! ?V x n z = r)" for n
    by (auto simp: yslice_def chunk_at image_iff)
  have Z: "r \<in> set (zslice w res n) \<longleftrightarrow> (\<exists>x \<in> {1..<ws_x w - 1}. \<exists>y \<in> {1..<ws_y w - 1}. res ! ?V x y n = r)" for n
    by (auto simp: zslice_def chunk_at image_iff)
  have "ws_border w res k ! r \<longleftrightarrow> r \<in> set (xslice w res 1) \<or> r \<in> set (xslice w res (ws_x w - 2)) \<or>
      r \<in> set (yslice w res 1) \<or> r \<in> set (yslice w res (ws_y w - 2)) \<or>
      r \<in> set (zslice w res 1) \<or> r \<in> set (zslice w res (ws_z w - 2))"
    using r by (auto simp: ws_border_def mark_border)
  also have "\<dots> \<longleftrightarrow> (\<exists>j. border_voxel w j \<and> res ! j = r)"
    unfolding border_voxel_def X Y Z by blast
  finally show "ws_border w res k ! r \<longleftrightarrow> (\<exists>j. border_voxel w j \<and> res ! j = r)" .
qed

section \<open>Merging\<close>

text \<open>Two representatives are looked up one after the other.\<close>

lemma find_two:
  assumes "ds_inv d" "a < ds_size d" "b < ds_size d"
  obtains d1 d2 where "ds_find_set d a = Some (ds_rep (ds_p d) a, d1)" "ds_find_set d1 b = Some (ds_rep (ds_p d) b, d2)"
    "ds_inv d2" "ds_size d2 = ds_size d" "\<And>j. j < ds_size d \<Longrightarrow> ds_rep (ds_p d2) j = ds_rep (ds_p d) j"
proof -
  obtain d1 where d1: "ds_find_set d a = Some (ds_rep (ds_p d) a, d1)" "ds_inv d1" "ds_size d1 = ds_size d"
    "\<forall>j < ds_size d. ds_rep (ds_p d1) j = ds_rep (ds_p d) j"
    using ds.find_ok [OF assms(1,2)] by blast
  then obtain d2 where d2: "ds_find_set d1 b = Some (ds_rep (ds_p d) b, d2)" "ds_inv d2" "ds_size d2 = ds_size d"
    "\<forall>j < ds_size d. ds_rep (ds_p d2) j = ds_rep (ds_p d) j"
    using ds.find_ok [OF d1(2), of b] assms by fastforce
  show thesis by (rule that [OF d1(1) d2(1-3)]) (use d2(4) in blast)
qed

lemma join_two:
  assumes "ds_inv d2" "ds_size d2 = ds_size d" "\<And>j. j < ds_size d \<Longrightarrow> ds_rep (ds_p d2) j = ds_rep (ds_p d) j"
    and "ds_inv d" "a < ds_size d" "b < ds_size d" "ds_rep (ds_p d) a \<noteq> ds_rep (ds_p d) b"
  obtains vr d3 where "ds_join d2 (ds_rep (ds_p d) a) (ds_rep (ds_p d) b) = Some (vr, d3)"
    "vr \<in> {ds_rep (ds_p d) a, ds_rep (ds_p d) b}" "ds_inv d3" "ds_size d3 = ds_size d"
    "\<And>j. j < ds_size d \<Longrightarrow> ds_rep (ds_p d3) j =
      (if ds_rep (ds_p d) j \<in> {ds_rep (ds_p d) a, ds_rep (ds_p d) b} then vr else ds_rep (ds_p d) j)"
proof -
  have r: "ds_rep (ds_p d) a < ds_size d2" "ds_rep (ds_p d) b < ds_size d2"
    "ds_rep (ds_p d2) (ds_rep (ds_p d) a) = ds_rep (ds_p d) a" "ds_rep (ds_p d2) (ds_rep (ds_p d) b) = ds_rep (ds_p d) b"
    using assms by (auto simp: ds.rep_less ds.rep_rep)
  obtain vr d3 where "ds_join d2 (ds_rep (ds_p d) a) (ds_rep (ds_p d) b) = Some (vr, d3)"
    "vr \<in> {ds_rep (ds_p d) a, ds_rep (ds_p d) b}" "ds_inv d3" "ds_size d3 = ds_size d2"
    "\<forall>j < ds_size d2. ds_rep (ds_p d3) j =
      (if ds_rep (ds_p d2) j \<in> {ds_rep (ds_p d) a, ds_rep (ds_p d) b} then vr else ds_rep (ds_p d2) j)"
    using ds.join_ok [OF assms(1) r assms(7)] by blast
  with assms(2,3) show thesis by (intro that [of vr d3]) auto
qed

text \<open>The state of the merging loop: sizes and marks belong to the representatives, basin 0 (the
  background) is on its own.\<close>

definition class_any :: "bool list \<Rightarrow> dsets \<Rightarrow> nat \<Rightarrow> bool" where
  "class_any ob d i \<longleftrightarrow> (\<exists>j < ds_size d. ds_rep (ds_p d) j = i \<and> ob ! j)"

definition merging :: "nat \<Rightarrow> u32 list \<Rightarrow> bool list \<Rightarrow> dsets \<Rightarrow> u32 list \<Rightarrow> bool list \<Rightarrow> bool" where
  "merging k sz0 ob0 d sz ob \<longleftrightarrow> ds_inv d \<and> ds_size d = k \<and> length sz = k \<and> length ob = k \<and> 0 < k \<and>
     (\<forall>i < k. sz ! i = class_sum sz0 d i) \<and>
     (\<forall>i < k. ds_rep (ds_p d) i = i \<longrightarrow> ob ! i = class_any ob0 d i) \<and>
     (\<forall>i < k. ds_rep (ds_p d) i = 0 \<longleftrightarrow> i = 0)"

definition between_basins :: "nat \<Rightarrow> 'w dendr \<Rightarrow> bool" where
  "between_basins k es \<longleftrightarrow> (\<forall>(c, a, b) \<in> set es. 0 < a \<and> a < k \<and> 0 < b \<and> b < k)"

lemma merging_new:
  assumes "0 < length sz" "length sz < 2 ^ 32" "length ob = length sz"
  shows "merging (length sz) sz ob (ds_new (length sz)) sz ob"
  using assms ds_inv_new [OF assms(2)] by (auto simp: merging_def class_sum_new class_any_def ds_rep_new)

lemma merging_same:
  assumes "merging k sz0 ob0 d sz ob" "ds_inv d2" "ds_size d2 = ds_size d"
    "\<And>j. j < ds_size d \<Longrightarrow> ds_rep (ds_p d2) j = ds_rep (ds_p d) j"
  shows "merging k sz0 ob0 d2 sz ob"
proof -
  have "class_sum sz0 d2 i = class_sum sz0 d i" for i using assms(3,4) by (rule class_sum_cong)
  moreover have "class_any ob0 d2 i = class_any ob0 d i" for i using assms(3,4) by (auto simp: class_any_def)
  ultimately show ?thesis using assms by (simp add: merging_def)
qed

lemma merging_join:
  assumes M: "merging k sz0 ob0 d sz ob" and ab: "0 < a" "a < k" "0 < b" "b < k"
    and ne: "ds_rep (ds_p d) a \<noteq> ds_rep (ds_p d) b"
    and d3: "vr \<in> {ds_rep (ds_p d) a, ds_rep (ds_p d) b}" "ds_inv d3" "ds_size d3 = ds_size d"
    "\<And>j. j < ds_size d \<Longrightarrow> ds_rep (ds_p d3) j =
      (if ds_rep (ds_p d) j \<in> {ds_rep (ds_p d) a, ds_rep (ds_p d) b} then vr else ds_rep (ds_p d) j)"
  shows "merging k sz0 ob0 d3
    (swap_nth (sz[ds_rep (ds_p d) a := sz ! ds_rep (ds_p d) a + sz ! ds_rep (ds_p d) b, ds_rep (ds_p d) b := 0]) vr (ds_rep (ds_p d) a))
    (ob[vr := ob ! ds_rep (ds_p d) a \<or> ob ! ds_rep (ds_p d) b])"
proof -
  let ?v1 = "ds_rep (ds_p d) a" and ?v2 = "ds_rep (ds_p d) b"
  let ?sz = "swap_nth (sz[?v1 := sz ! ?v1 + sz ! ?v2, ?v2 := 0]) vr ?v1"
  let ?ob = "ob[vr := ob ! ?v1 \<or> ob ! ?v2]"
  have inv: "ds_inv d" and k: "ds_size d = k" "length sz = k" "length ob = k" "0 < k"
    and S: "\<And>i. i < k \<Longrightarrow> sz ! i = class_sum sz0 d i"
    and B: "\<And>i. i < k \<Longrightarrow> ds_rep (ds_p d) i = i \<Longrightarrow> ob ! i = class_any ob0 d i"
    and Z: "\<And>i. i < k \<Longrightarrow> ds_rep (ds_p d) i = 0 \<longleftrightarrow> i = 0"
    using M by (auto simp: merging_def)
  have r: "?v1 < k" "?v2 < k" "ds_rep (ds_p d) ?v1 = ?v1" "ds_rep (ds_p d) ?v2 = ?v2" "?v1 \<noteq> 0" "?v2 \<noteq> 0"
    using ds.rep_less [OF inv, of a] ds.rep_less [OF inv, of b] ds.rep_rep [OF inv, of a] ds.rep_rep [OF inv, of b] ab Z [of a] Z [of b]
    by (simp_all add: k)
  have rep: "ds_rep (ds_p d3) j = (if ds_rep (ds_p d) j \<in> {?v1, ?v2} then vr else ds_rep (ds_p d) j)" if "j < k" for j
    using d3(4) that by (simp add: k)
  have "class_sum sz0 d3 i = (if i = vr then class_sum sz0 d ?v1 + class_sum sz0 d ?v2
      else if i \<in> {?v1, ?v2} then 0 else class_sum sz0 d i)" for i
    by (rule class_sum_merge [OF d3(3) ne d3(1)]) (rule d3(4))
  moreover have "?sz ! i = (if i = vr then sz ! ?v1 + sz ! ?v2 else if i \<in> {?v1, ?v2} then 0 else sz ! i)" if "i < k" for i
    using that r k d3(1) ne by (auto simp: nth_swap_nth nth_list_update)
  ultimately have "\<forall>i < k. ?sz ! i = class_sum sz0 d3 i" using S r by simp
  moreover have "?ob ! i = class_any ob0 d3 i" if i: "i < k" "ds_rep (ds_p d3) i = i" for i
  proof (cases "i = vr")
    case True
    have "class_any ob0 d3 vr \<longleftrightarrow> class_any ob0 d ?v1 \<or> class_any ob0 d ?v2"
      using rep d3(1) by (auto simp: class_any_def d3(3) k split: if_splits)
    then show ?thesis using True B [OF r(1,3)] B [OF r(2,4)] i(1) k by simp
  next
    case False
    then have a: "ds_rep (ds_p d) i = i" "i \<notin> {?v1, ?v2}" using rep [OF i(1)] i(2) r by (auto split: if_splits)
    have "class_any ob0 d3 i \<longleftrightarrow> class_any ob0 d i"
      using rep False a(2) by (auto simp: class_any_def d3(3) k split: if_splits)
    then show ?thesis using False B [OF i(1) a(1)] by simp
  qed
  moreover have "ds_rep (ds_p d3) i = 0 \<longleftrightarrow> i = 0" if "i < k" for i
    using rep [OF that] Z [OF that] r d3(1) by auto
  ultimately show ?thesis using d3(2,3) k by (simp add: merging_def)
qed

lemma ws_merge_ok:
  "merging k sz0 ob0 d sz ob \<Longrightarrow> between_basins k es \<Longrightarrow>
    \<exists>d' sz' ob'. ws_merge th mn es d sz ob = Some (d', sz', ob') \<and> merging k sz0 ob0 d' sz' ob'"
proof (induction es arbitrary: d sz ob)
  case Nil
  then show ?case by simp
next
  case (Cons e es)
  obtain c a b where e: "e = (c, a, b)" by (cases e)
  have ab: "0 < a" "a < k" "0 < b" "b < k" and es: "between_basins k es"
    using Cons.prems(2) by (auto simp: between_basins_def e)
  have inv: "ds_inv d" and k: "ds_size d = k" using Cons.prems(1) by (auto simp: merging_def)
  show ?case
  proof (cases "c < mn")
    case True
    then show ?thesis using Cons.prems(1) by (simp add: e)
  next
    case False
    obtain d1 d2 where f: "ds_find_set d a = Some (ds_rep (ds_p d) a, d1)" "ds_find_set d1 b = Some (ds_rep (ds_p d) b, d2)"
      "ds_inv d2" "ds_size d2 = ds_size d" "\<And>j. j < ds_size d \<Longrightarrow> ds_rep (ds_p d2) j = ds_rep (ds_p d) j"
      using find_two [OF inv, of a b] ab k by blast
    show ?thesis
    proof (cases "ds_rep (ds_p d) a \<noteq> ds_rep (ds_p d) b \<and>
        (unat (sz ! ds_rep (ds_p d) a) < th \<and> \<not> ob ! ds_rep (ds_p d) a \<or> unat (sz ! ds_rep (ds_p d) b) < th \<and> \<not> ob ! ds_rep (ds_p d) b)")
      case False
      from Cons.IH [OF merging_same [OF Cons.prems(1) f(3-5)] es] show ?thesis
        using False f(1,2) \<open>\<not> c < mn\<close> by (simp add: e) blast
    next
      case True
      then have ne: "ds_rep (ds_p d) a \<noteq> ds_rep (ds_p d) b" ..
      obtain vr d3 where j: "ds_join d2 (ds_rep (ds_p d) a) (ds_rep (ds_p d) b) = Some (vr, d3)"
        "vr \<in> {ds_rep (ds_p d) a, ds_rep (ds_p d) b}" "ds_inv d3" "ds_size d3 = ds_size d"
        "\<And>j. j < ds_size d \<Longrightarrow> ds_rep (ds_p d3) j =
          (if ds_rep (ds_p d) j \<in> {ds_rep (ds_p d) a, ds_rep (ds_p d) b} then vr else ds_rep (ds_p d) j)"
        using join_two [OF f(3-5) inv _ _ ne] ab k by blast
      from Cons.IH [OF merging_join [OF Cons.prems(1) ab ne j(2-5)] es] show ?thesis
        using True f(1,2) j(1) \<open>\<not> c < mn\<close> by (simp add: e)
    qed
  qed
qed

section \<open>Removal of small regions\<close>

definition keep :: "nat \<Rightarrow> u32 list \<Rightarrow> bool list \<Rightarrow> nat \<Rightarrow> bool" where
  "keep th sz ob i \<longleftrightarrow> sz ! i \<noteq> 0 \<and> (th \<le> unat (sz ! i) \<or> ob ! i)"

definition new_id :: "nat \<Rightarrow> u32 list \<Rightarrow> bool list \<Rightarrow> nat \<Rightarrow> nat" where
  "new_id th sz ob q = (if 1 \<le> q \<and> keep th sz ob q then Suc (length (filter (keep th sz ob) [1..<q])) else 0)"

lemma remap_step_simp: "remap_step th ob i (sz, remaps, idx) =
    (if keep th sz ob i then (sz[idx := sz ! i], remaps[i := idx], Suc idx)
     else if sz ! i = 0 then (sz, remaps, idx) else (sz[0 := sz ! 0 + sz ! i, i := 0], remaps[i := 0], idx))"
  by (simp add: remap_step_def keep_def)

lemma remap_loop:
  fixes th :: nat and sz0 :: "u32 list" and ob :: "bool list"
  defines "K \<equiv> keep th sz0 ob"
  assumes "1 \<le> m" "m \<le> length sz0"
  shows "\<exists>sz ids. fold (remap_step th ob) [1..<m] (sz0, replicate (length sz0) 0, 1) =
      (sz, ids, Suc (length (filter K [1..<m]))) \<and>
    length sz = length sz0 \<and> length ids = length sz0 \<and>
    (\<forall>k < length sz0. ids ! k = (if k < m then new_id th sz0 ob k else 0)) \<and>
    (\<forall>k < length sz0. m \<le> k \<longrightarrow> sz ! k = sz0 ! k) \<and>
    take (Suc (length (filter K [1..<m]))) sz =
      (sz0 ! 0 + sum_list (map ((!) sz0) (filter (\<lambda>i. \<not> K i) [1..<m]))) # map ((!) sz0) (filter K [1..<m])"
  using assms(2,3)
proof (induction m rule: dec_induct)
  case base
  then show ?case by (cases sz0) (auto simp: new_id_def)
next
  case (step m)
  let ?idx = "Suc (length (filter K [1..<m]))" and ?n = "length sz0"
  let ?s = "sz0 ! 0 + sum_list (map ((!) sz0) (filter (\<lambda>i. \<not> K i) [1..<m]))"
  from step obtain sz ids where
    IH: "fold (remap_step th ob) [1..<m] (sz0, replicate ?n 0, 1) = (sz, ids, ?idx)"
    and len: "length sz = ?n" "length ids = ?n"
    and ids: "\<forall>k < ?n. ids ! k = (if k < m then new_id th sz0 ob k else 0)"
    and rest: "\<forall>k < ?n. m \<le> k \<longrightarrow> sz ! k = sz0 ! k"
    and tk: "take ?idx sz = ?s # map ((!) sz0) (filter K [1..<m])" by auto
  have le: "?idx \<le> m" using filter_upt_le [of K m] step(1) by auto
  have upt1: "[1..<Suc m] = [1..<m] @ [m]" using step(1) by simp
  then have upt: "[Suc 0..<Suc m] = [Suc 0..<m] @ [m]" by simp
  have m: "m < ?n" "sz ! m = sz0 ! m" using step.prems rest by auto
  have K: "keep th sz ob m \<longleftrightarrow> K m" using m(2) by (simp add: keep_def K_def)
  have fold: "fold (remap_step th ob) [1..<Suc m] (sz0, replicate ?n 0, 1) = remap_step th ob m (sz, ids, ?idx)"
    unfolding upt1 fold_append comp_def IH by simp
  have hd: "sz ! 0 = ?s" using arg_cong [OF tk, of hd] len m(1) by (simp add: hd_conv_nth flip: length_greater_0_conv)
  show ?case
  proof (cases "K m")
    case True
    have new: "new_id th sz0 ob m = ?idx" using True step(1) by (simp add: new_id_def K_def)
    have "take (Suc ?idx) (sz[?idx := sz0 ! m]) = take ?idx sz @ [sz0 ! m]"
      using le m(1) len by (simp add: take_Suc_conv_app_nth)
    then show ?thesis
      unfolding fold remap_step_simp using True K len ids rest tk m le new
      by (auto simp: upt less_Suc_eq nth_list_update simp del: upt_Suc)
  next
    case False
    have new: "new_id th sz0 ob m = 0" using False by (simp add: new_id_def K_def)
    show ?thesis
    proof (cases "sz0 ! m = 0")
      case True
      then show ?thesis
        unfolding fold remap_step_simp using False K len ids rest tk m le new
        by (auto simp: upt less_Suc_eq simp del: upt_Suc)
    next
      case nz: False
      have "take ?idx (sz[0 := sz ! 0 + sz ! m, m := 0]) = (take ?idx sz)[0 := sz ! 0 + sz ! m]"
        using le by (simp add: take_update_swap list_update_beyond min_le_iff_disj)
      also have "\<dots> = (?s + sz0 ! m) # map ((!) sz0) (filter K [1..<m])" unfolding tk using hd m(2) by simp
      finally show ?thesis
        unfolding fold remap_step_simp using False nz K len ids rest m le new step(1)
        by (auto simp: upt less_Suc_eq nth_list_update add.assoc simp del: upt_Suc)
    qed
  qed
qed

lemma filter_nth_index:
  assumes "q \<in> set (filter P [1..<k])"
  shows "length (filter P [1..<q]) < length (filter P [1..<k])" "filter P [1..<k] ! length (filter P [1..<q]) = q"
proof -
  have q: "1 \<le> q" "q < k" "P q" using assms by auto
  have "[1..<k] = [1..<q] @ q # [Suc q..<k]"
    using q upt_add_eq_append [of 1 q "k - q"] by (simp add: upt_conv_Cons)
  then have "filter P [1..<k] = filter P [1..<q] @ q # filter P [Suc q..<k]" using q(3) by simp
  then show "length (filter P [1..<q]) < length (filter P [1..<k])" "filter P [1..<k] ! length (filter P [1..<q]) = q"
    by simp_all
qed

text \<open>The kept regions are numbered from 1, in order.\<close>

lemma new_id_iff:
  fixes th k :: nat and sz :: "u32 list" and ob :: "bool list"
  defines "L \<equiv> filter (keep th sz ob) [1..<k]"
  assumes "q < k"
  shows "new_id th sz ob q \<le> length L" "0 < r \<Longrightarrow> r \<le> length L \<Longrightarrow> new_id th sz ob q = r \<longleftrightarrow> q = L ! (r - 1)"
    "new_id th sz ob q = 0 \<longleftrightarrow> q \<notin> set L"
proof -
  have in_L: "q \<in> set L \<longleftrightarrow> 1 \<le> q \<and> keep th sz ob q" using assms(2) by (auto simp: L_def)
  have idx: "length (filter (keep th sz ob) [1..<q]) < length L" "L ! length (filter (keep th sz ob) [1..<q]) = q" if "q \<in> set L"
    using filter_nth_index [OF that [unfolded L_def]] by (simp_all add: L_def)
  show zero: "new_id th sz ob q = 0 \<longleftrightarrow> q \<notin> set L" using in_L by (simp add: new_id_def)
  show "new_id th sz ob q \<le> length L" using idx(1) in_L by (auto simp: new_id_def)
  assume r: "0 < r" "r \<le> length L"
  show "new_id th sz ob q = r \<longleftrightarrow> q = L ! (r - 1)"
  proof (cases "q \<in> set L")
    case True
    have "distinct L" by (simp add: L_def)
    then show ?thesis
      using idx [OF True] True r in_L nth_eq_iff_index_eq [of L "length (filter (keep th sz ob) [1..<q])" "r - 1"]
      by (auto simp: new_id_def)
  next
    case False
    then show ?thesis using zero r nth_mem [of "r - 1" L] by auto
  qed
qed

section \<open>Labels and dendrogram\<close>

lemma ws_relabel_ok:
  assumes "ds_inv d" "\<forall>r \<in> set res. r < ds_size d"
  shows "\<exists>d'. ws_relabel remaps res d = Some (map (\<lambda>r. remaps ! ds_rep (ds_p d) r) res, d') \<and> ds_inv d' \<and> ds_size d' = ds_size d"
  using assms
proof (induction res arbitrary: d)
  case Nil
  then show ?case by simp
next
  case (Cons r res)
  obtain d1 where d1: "ds_find_set d r = Some (ds_rep (ds_p d) r, d1)" "ds_inv d1" "ds_size d1 = ds_size d"
    "\<forall>j < ds_size d. ds_rep (ds_p d1) j = ds_rep (ds_p d) j"
    using ds.find_ok [OF Cons.prems(1), of r] Cons.prems(2) by auto
  have "map (\<lambda>r. remaps ! ds_rep (ds_p d1) r) res = map (\<lambda>r. remaps ! ds_rep (ds_p d) r) res"
    using d1(4) Cons.prems(2) by auto
  then show ?case using Cons.IH [OF d1(2)] d1 Cons.prems(2) by auto
qed

text \<open>The edges of the dendrogram come from edges between two basins that both kept an id.\<close>

definition tree_edge :: "'w::linorder \<Rightarrow> nat list \<Rightarrow> 'w dendr \<Rightarrow> 'w \<times> nat \<times> nat \<Rightarrow> bool" where
  "tree_edge low remaps es = (\<lambda>(c, a, b). low \<le> c \<and> a \<noteq> 0 \<and> b \<noteq> 0 \<and> a \<noteq> b \<and>
     (\<exists>a0 b0. (c, a0, b0) \<in> set es \<and> a = remaps ! a0 \<and> b = remaps ! b0))"

lemma ws_tree_ok:
  assumes ids: "\<forall>i < k. remaps ! i < k"
  shows "ds_inv d \<Longrightarrow> ds_size d = k \<Longrightarrow> between_basins k es \<Longrightarrow>
    \<exists>t. ws_tree low remaps es d dendr = Some (dendr @ t) \<and> (\<forall>e \<in> set t. tree_edge low remaps es e)"
proof (induction es arbitrary: d dendr)
  case Nil
  then show ?case by simp
next
  case (Cons e es)
  obtain c a b where e: "e = (c, a, b)" by (cases e)
  have ab: "a < k" "b < k" and es: "between_basins k es" using Cons.prems(3) by (auto simp: between_basins_def e)
  have up: "tree_edge low remaps es x \<Longrightarrow> tree_edge low remaps (e # es) x" for x by (auto simp: tree_edge_def)
  let ?a = "remaps ! a" and ?b = "remaps ! b"
  have k: "?a < ds_size d" "?b < ds_size d" using ids ab Cons.prems(2) by auto
  show ?case
  proof (cases "c < low \<or> ?a = 0 \<or> ?b = 0")
    case True
    then show ?thesis using Cons.IH [OF Cons.prems(1,2) es, of dendr] up by (fastforce simp: e Let_def)
  next
    case False
    obtain d1 d2 where f: "ds_find_set d ?a = Some (ds_rep (ds_p d) ?a, d1)" "ds_find_set d1 ?b = Some (ds_rep (ds_p d) ?b, d2)"
      "ds_inv d2" "ds_size d2 = ds_size d" "\<And>j. j < ds_size d \<Longrightarrow> ds_rep (ds_p d2) j = ds_rep (ds_p d) j"
      using find_two [OF Cons.prems(1) k] by blast
    show ?thesis
    proof (cases "ds_rep (ds_p d) ?a = ds_rep (ds_p d) ?b")
      case True
      then have "ws_tree low remaps (e # es) d dendr = ws_tree low remaps es d2 dendr"
        using False f(1,2) by (simp add: e Let_def)
      then show ?thesis using Cons.IH [OF f(3) _ es, of dendr] f(4) Cons.prems(2) up by auto
    next
      case ne: False
      obtain vr d3 where j: "ds_join d2 (ds_rep (ds_p d) ?a) (ds_rep (ds_p d) ?b) = Some (vr, d3)" "ds_inv d3" "ds_size d3 = ds_size d"
        using join_two [OF f(3-5) Cons.prems(1) k ne] by blast
      have "ws_tree low remaps (e # es) d dendr = ws_tree low remaps es d3 (dendr @ [(c, ?a, ?b)])"
        using False ne f(1,2) j(1) by (simp add: e Let_def)
      moreover obtain t where "ws_tree low remaps es d3 (dendr @ [(c, ?a, ?b)]) = Some ((dendr @ [(c, ?a, ?b)]) @ t)"
        "\<forall>e \<in> set t. tree_edge low remaps es e"
        using Cons.IH [OF j(2) _ es, of "dendr @ [(c, ?a, ?b)]"] j(3) Cons.prems(2) by blast
      moreover have "tree_edge low remaps (e # es) (c, ?a, ?b)"
        using False ne by (auto simp: tree_edge_def e)
      ultimately show ?thesis using up by (intro exI [of _ "(c, ?a, ?b) # t"]) auto
    qed
  qed
qed

section \<open>From the graph to the result\<close>

lemma ws_finish_ok:
  assumes len: "length sizes = k" "length ob = k" "0 < k" "k < 2 ^ 32"
    and graph: "between_basins k graph" and res: "\<forall>r \<in> set res. r < k"
  shows "\<exists>t d sz ob'. ws_finish w graph ob sizes res =
      Some (rev (sort t),
        (sz ! 0 + sum_list (map ((!) sz) (filter (\<lambda>i. \<not> keep (ws_size_thold w) sz ob' i) [1..<k]))) #
          map ((!) sz) (filter (keep (ws_size_thold w) sz ob') [1..<k]),
        map (\<lambda>r. new_id (ws_size_thold w) sz ob' (ds_rep (ds_p d) r)) res) \<and>
    merging k sizes ob d sz ob' \<and>
    (\<forall>e \<in> set t. tree_edge (ws_low w) (map (new_id (ws_size_thold w) sz ob') [0..<k]) graph e)"
proof -
  let ?th = "ws_size_thold w"
  have rg: "between_basins k (rev graph)" using graph by (simp add: between_basins_def)
  have "merging k sizes ob (ds_new k) sizes ob" using merging_new [of sizes ob] len by simp
  then obtain d sz ob' where m: "ws_merge ?th (ws_min w) (rev graph) (ds_new k) sizes ob = Some (d, sz, ob')"
    "merging k sizes ob d sz ob'"
    using ws_merge_ok [OF _ rg] by blast
  have d: "ds_inv d" "ds_size d = k" "length sz = k" using m(2) by (auto simp: merging_def)
  let ?L = "filter (keep ?th sz ob') [1..<k]"
  obtain sz' ids where f: "fold (remap_step ?th ob') [1..<k] (sz, replicate k 0, 1) = (sz', ids, Suc (length ?L))"
    "length ids = k" "\<forall>i < k. ids ! i = new_id ?th sz ob' i"
    "take (Suc (length ?L)) sz' =
      (sz ! 0 + sum_list (map ((!) sz) (filter (\<lambda>i. \<not> keep ?th sz ob' i) [1..<k]))) # map ((!) sz) ?L"
    using remap_loop [of k sz ?th ob'] len(3) d(3) by auto
  have ids: "ids = map (new_id ?th sz ob') [0..<k]" using f(2,3) by (intro nth_equalityI) auto
  obtain d1 where d1: "ds_find_set d 0 = Some (ds_rep (ds_p d) 0, d1)" "ds_inv d1" "ds_size d1 = k"
    "\<forall>j < k. ds_rep (ds_p d1) j = ds_rep (ds_p d) j"
    using ds.find_ok [OF d(1), of 0] len(3) d(2) by auto
  obtain d2 where d2: "ws_relabel ids res d1 = Some (map (\<lambda>r. ids ! ds_rep (ds_p d1) r) res, d2)" "ds_inv d2" "ds_size d2 = k"
    using ws_relabel_ok [OF d1(2), of res ids] res d1(3) by auto
  have lab: "map (\<lambda>r. ids ! ds_rep (ds_p d1) r) res = map (\<lambda>r. new_id ?th sz ob' (ds_rep (ds_p d) r)) res"
    using d1(4) res f(3) ds.rep_less [OF d(1)] d(2) by auto
  have cl: "ds_inv (ds_clear d2)" "ds_size (ds_clear d2) = k" using ds_inv_clear [OF d2(2)] d2(3) by (simp_all add: ds_clear_def)
  have "new_id ?th sz ob' i < k" if "i < k" for i
  proof (cases "new_id ?th sz ob' i = 0")
    case True
    then show ?thesis using len(3) by simp
  next
    case False
    have "length ?L < k" using filter_upt_le [of "keep ?th sz ob'" k] len(3) by auto
    then show ?thesis using new_id_iff(1) [OF that, of ?th sz ob'] by simp
  qed
  then have "\<forall>i < k. ids ! i < k" using f(3) by simp
  then obtain t where t: "ws_tree (ws_low w) ids (rev graph) (ds_clear d2) [] = Some t"
    "\<forall>e \<in> set t. tree_edge (ws_low w) ids (rev graph) e"
    using ws_tree_ok [OF _ cl rg, of ids "ws_low w" "[]"] by auto
  have "ws_finish w graph ob sizes res = Some (rev (sort t), take (Suc (length ?L)) sz', map (\<lambda>r. ids ! ds_rep (ds_p d1) r) res)"
    using m(1) f(1) d1(1) d2(1) t(1) d(3) len by (simp add: ws_finish_def)
  then show ?thesis using m(2) t(2) unfolding lab f(4) by (auto simp: ids tree_edge_def)
qed

lemma card_fibres:
  assumes "finite A" "finite Q"
  shows "card {x \<in> A. f x \<in> Q} = (\<Sum>q \<in> Q. card {x \<in> A. f x = q})"
proof -
  have "{x \<in> A. f x \<in> Q} = (\<Union>q \<in> Q. {x \<in> A. f x = q})" by auto
  moreover have "card (\<Union>q \<in> Q. {x \<in> A. f x = q}) = (\<Sum>q \<in> Q. card {x \<in> A. f x = q})"
    using assms by (intro card_UN_disjoint) auto
  ultimately show ?thesis by simp
qed

text \<open>Sizes are voxel counts: of the merged basins, and of the numbered regions.\<close>

lemma class_sum_count:
  fixes N :: nat
  assumes d: "ds_size d = k" and lab: "\<forall>v < N. lab v < k"
  shows "class_sum (map (\<lambda>l. of_nat (card {v. v < N \<and> lab v = l})) [0..<k]) d q =
    of_nat (card {v. v < N \<and> ds_rep (ds_p d) (lab v) = q})"
proof -
  let ?Q = "{j. j < k \<and> ds_rep (ds_p d) j = q}"
  have "class_sum (map (\<lambda>l. of_nat (card {v. v < N \<and> lab v = l})) [0..<k]) d q =
      (\<Sum>j \<in> ?Q. of_nat (card {v. v < N \<and> lab v = j}))"
    unfolding class_sum_def d by (rule sum.cong) auto
  also have "\<dots> = of_nat (\<Sum>j \<in> ?Q. card {v \<in> {..<N}. lab v = j})" by simp
  also have "(\<Sum>j \<in> ?Q. card {v \<in> {..<N}. lab v = j}) = card {v \<in> {..<N}. lab v \<in> ?Q}"
    by (rule card_fibres [symmetric]) auto
  also have "{v \<in> {..<N}. lab v \<in> ?Q} = {v. v < N \<and> ds_rep (ds_p d) (lab v) = q}" using lab by auto
  finally show ?thesis .
qed

lemma kept_sizes:
  fixes th k N :: nat and sz :: "u32 list" and ob :: "bool list"
  defines "L \<equiv> filter (keep th sz ob) [1..<k]"
  assumes sz: "\<forall>q < k. sz ! q = of_nat (card {v. v < N \<and> rp v = q})" and rp: "\<forall>v < N. rp v < k" and k: "0 < k"
    and r: "r \<le> length L"
  shows "((sz ! 0 + sum_list (map ((!) sz) (filter (\<lambda>i. \<not> keep th sz ob i) [1..<k]))) # map ((!) sz) L) ! r =
    of_nat (card {v. v < N \<and> new_id th sz ob (rp v) = r})"
proof (cases "r = 0")
  case True
  let ?D = "filter (\<lambda>i. \<not> keep th sz ob i) [1..<k]"
  have "sum_list (map ((!) sz) ?D) = (\<Sum>q \<in> set ?D. sz ! q)" by (simp add: sum_list_distinct_conv_sum_set)
  then have "sz ! 0 + sum_list (map ((!) sz) ?D) = (\<Sum>q \<in> insert 0 (set ?D). sz ! q)" by simp
  also have "\<dots> = (\<Sum>q \<in> insert 0 (set ?D). of_nat (card {v \<in> {..<N}. rp v = q}))"
    using sz k by (intro sum.cong) auto
  also have "\<dots> = of_nat (\<Sum>q \<in> insert 0 (set ?D). card {v \<in> {..<N}. rp v = q})" by (simp only: of_nat_sum)
  also have "(\<Sum>q \<in> insert 0 (set ?D). card {v \<in> {..<N}. rp v = q}) = card {v \<in> {..<N}. rp v \<in> insert 0 (set ?D)}"
    by (rule card_fibres [symmetric]) auto
  also have "{v \<in> {..<N}. rp v \<in> insert 0 (set ?D)} = {v. v < N \<and> new_id th sz ob (rp v) = 0}"
    using rp new_id_iff(3) [of _ k th sz ob] by fastforce
  finally show ?thesis using True by simp
next
  case False
  then have "r - 1 < length L" using r by simp
  then have "L ! (r - 1) \<in> set L" by (rule nth_mem)
  then have "L ! (r - 1) < k" by (simp add: L_def)
  moreover have "{v. v < N \<and> rp v = L ! (r - 1)} = {v. v < N \<and> new_id th sz ob (rp v) = r}"
    using rp new_id_iff(2) [of _ k r th sz ob] False r by (auto simp: L_def)
  moreover have "(x # map ((!) sz) L) ! r = sz ! (L ! (r - 1))" for x
    using False \<open>r - 1 < length L\<close> by (simp add: nth_Cons')
  ultimately show ?thesis using sz by simp
qed

end
