(* ===== verification/Zi_Watershed_Props.thy ===== *)
theory Zi_Watershed_Props
  imports Zi_Regions
begin

text \<open>
  What \<open>doit\<close> of \<^verbatim>\<open>zi/watershed/basic_watershed.hpp\<close> guarantees: its basins are the connected components
  of the joined voxels, its regions are unions of basins that are large enough or touch the border, and
  its dendrogram is sorted and joins regions; and what it loses: edges of basins merged into others.
\<close>

lemma unat_small: "n < 2 ^ 31 \<Longrightarrow> unat (of_nat n :: u32) = n"
  by (simp add: unsigned_of_nat take_bit_nat_eq_self)

text \<open>C4: The flooding of an empty volume of fewer than 2^31 voxels returns. Two voxels get the same basin
  number (not 0) exactly when a path of joined voxels connects them; the number is 0 exactly for the
  voxels that are neither joined to another one nor have an affinity of at least \<open>min_thold_\<close>; the numbers
  are 1, 2, ... without gaps, and the sizes are the voxel counts.\<close>
theorem basins_are_components:
  assumes "ws_ok w" "ws_size w < 2 ^ 31"
  shows "\<exists>lab k. basins w (replicate (ws_size w) 0) [] =
      Some (map (\<lambda>v. of_nat (lab v)) [0..<ws_size w],
        map (\<lambda>l. of_nat (card {v. v < ws_size w \<and> lab v = l})) [0..<k], of_nat k) \<and>
    lab ` {..<ws_size w} \<union> {0} = {..<k} \<and> k \<le> ws_size w + 1 \<and>
    (\<forall>v < ws_size w. lab v = 0 \<longleftrightarrow> (\<forall>u. \<not> joined w v u) \<and> \<not> alone w v) \<and>
    (\<forall>u < ws_size w. \<forall>v < ws_size w. lab u \<noteq> 0 \<longrightarrow> (lab u = lab v \<longleftrightarrow> (u, v) \<in> {(i, j). joined w i j}\<^sup>*))"
proof -
  obtain lab k res sizes where b: "basins w (replicate (ws_size w) 0) [] = Some (res, sizes, of_nat k)"
    "res = map (\<lambda>v. of_nat (lab v)) [0..<ws_size w]" "1 \<le> k" "k \<le> ws_size w + 1"
    "\<forall>v < ws_size w. lab v < k"
    "\<forall>v < ws_size w. lab v = 0 \<longleftrightarrow> (\<forall>u. \<not> joined w v u) \<and> \<not> alone w v"
    "\<forall>u < ws_size w. \<forall>v < ws_size w. lab u \<noteq> 0 \<longrightarrow> (lab u = lab v \<longleftrightarrow> (u, v) \<in> linked w)"
    "\<forall>l. 1 \<le> l \<and> l < k \<longrightarrow> (\<exists>v < ws_size w. lab v = l)"
    "sizes = map (\<lambda>l. of_nat (card {v. v < ws_size w \<and> lab v = l})) [0..<k]"
    using basins_ok [OF assms(2)] by blast
  have "lab ` {..<ws_size w} \<union> {0} = {..<k}"
  proof (intro set_eqI iffI)
    fix l assume "l \<in> {..<k}"
    show "l \<in> lab ` {..<ws_size w} \<union> {0}"
    proof (cases "l = 0")
      case False
      then have "\<exists>v < ws_size w. lab v = l" using b(8) \<open>l \<in> {..<k}\<close> by simp
      then show ?thesis by auto
    qed simp
  qed (use b(3,5) in auto)
  with b show ?thesis by (intro exI [of _ lab] exI [of _ k]) simp
qed

theorem basins_are_components_witness:
  "\<exists>lab k. basins (fst (ws_new 3 3 3 (replicate 81 1) 1 2 (0 :: int) 4)) (replicate 27 0) [] =
    Some (map (\<lambda>v. of_nat (lab v)) [0..<27], map (\<lambda>l. of_nat (card {v. v < 27 \<and> lab v = l})) [0..<k], of_nat k)"
proof -
  let ?w = "fst (ws_new 3 3 3 (replicate 81 1) 1 2 (0 :: int) 4)"
  have "ws_ok ?w" "ws_size ?w < 2 ^ 31" and n: "ws_size ?w = 27" by (simp_all add: ws_ok_def ws_size_def ws_new_def)
  from basins_are_components [OF this(1,2)] show ?thesis unfolding n by blast
qed

text \<open>The edges of the graph lie between basins.\<close>

lemma between_ws_graph:
  assumes res: "\<forall>v < ws_size w. res ! v < k"
  shows "between_basins k (ws_graph w res)"
  unfolding between_basins_def
proof (clarify, goal_cases)
  case (1 c a b)
  then have "touch w res (a, b) c" using ws_graph_spec(3) by blast
  then obtain x y z j d where j: "(x, y, z, j) \<in> set (voxels w)" "move w (x, y, z) d \<noteq> None"
    "res ! j \<noteq> 0" "res ! neighbour w j d \<noteq> 0" "(a, b) = min_max_pair (res ! j) (res ! neighbour w j d)"
    unfolding touch_def by blast
  have "res ! j < k" "res ! neighbour w j d < k"
    using res voxel_less [OF j(1)] neighbour_back(1) [OF j(1,2)] by simp_all
  then show ?case using j(3-5) by (auto simp: min_max_pair_def split: if_splits)
qed

lemma tree_edge_ids:
  assumes gr: "between_basins k es" and e: "tree_edge low (map (new_id th sz ob) [0..<k]) es (c, a, b)"
  shows "low \<le> c \<and> 1 \<le> a \<and> a \<le> length (filter (keep th sz ob) [1..<k]) \<and>
    1 \<le> b \<and> b \<le> length (filter (keep th sz ob) [1..<k]) \<and> a \<noteq> b"
proof -
  obtain a0 b0 where ab: "low \<le> c" "a \<noteq> 0" "b \<noteq> 0" "a \<noteq> b" "(c, a0, b0) \<in> set es"
    "a = map (new_id th sz ob) [0..<k] ! a0" "b = map (new_id th sz ob) [0..<k] ! b0"
    using e by (auto simp: tree_edge_def)
  have "a0 < k" "b0 < k" using gr ab(5) by (auto simp: between_basins_def)
  then show ?thesis using ab new_id_iff(1) [of a0 k th sz ob] new_id_iff(1) [of b0 k th sz ob] by simp
qed

section \<open>Regions\<close>

text \<open>What the merging leaves, for the basin numbers \<open>lab\<close>: the disjoint sets, the sizes and the marks.\<close>

definition basin_sizes :: "nat \<Rightarrow> (nat \<Rightarrow> nat) \<Rightarrow> nat \<Rightarrow> u32 list" where
  "basin_sizes N lab k = map (\<lambda>l. of_nat (card {v. v < N \<and> lab v = l})) [0..<k]"

definition region_state :: "'w watershed \<Rightarrow> (nat \<Rightarrow> nat) \<Rightarrow> nat \<Rightarrow> dsets \<Rightarrow> u32 list \<Rightarrow> bool list \<Rightarrow> bool" where
  "region_state w lab k d sz ob \<longleftrightarrow> ws_size w < 2 ^ 31 \<and> 2 \<le> ws_x w \<and> 2 \<le> ws_y w \<and> 2 \<le> ws_z w \<and>
     (\<forall>v < ws_size w. lab v < k) \<and>
     merging k (basin_sizes (ws_size w) lab k) (ws_border w (map lab [0..<ws_size w]) k) d sz ob"

definition region_of :: "'w watershed \<Rightarrow> (nat \<Rightarrow> nat) \<Rightarrow> dsets \<Rightarrow> u32 list \<Rightarrow> bool list \<Rightarrow> nat \<Rightarrow> nat" where
  "region_of w lab d sz ob v = new_id (ws_size_thold w) sz ob (ds_rep (ds_p d) (lab v))"

lemma region_rep:
  assumes "region_state w lab k d sz ob" "v < ws_size w"
  shows "ds_rep (ds_p d) (lab v) < k" "ds_rep (ds_p d) (ds_rep (ds_p d) (lab v)) = ds_rep (ds_p d) (lab v)"
    "ds_rep (ds_p d) (lab v) = 0 \<longleftrightarrow> lab v = 0"
proof -
  have "ds_inv d" "ds_size d = k" "lab v < k" "\<forall>i < k. ds_rep (ds_p d) i = 0 \<longleftrightarrow> i = 0"
    using assms by (auto simp: region_state_def merging_def)
  then show "ds_rep (ds_p d) (lab v) < k" "ds_rep (ds_p d) (ds_rep (ds_p d) (lab v)) = ds_rep (ds_p d) (lab v)"
    "ds_rep (ds_p d) (lab v) = 0 \<longleftrightarrow> lab v = 0"
    using ds.rep_less [of d "lab v"] ds.rep_rep [of d "lab v"] by simp_all
qed

text \<open>The size of a representative is the number of voxels it stands for.\<close>

lemma region_size:
  assumes S: "region_state w lab k d sz ob" and q: "q < k"
  shows "unat (sz ! q) = card {v. v < ws_size w \<and> ds_rep (ds_p d) (lab v) = q}"
    "sz ! q = of_nat (card {v. v < ws_size w \<and> ds_rep (ds_p d) (lab v) = q})"
proof -
  have lab: "\<forall>v < ws_size w. lab v < k" and d: "ds_size d = k" and N: "ws_size w < 2 ^ 31"
    and sz: "sz ! q = class_sum (basin_sizes (ws_size w) lab k) d q"
    using S q by (auto simp: region_state_def merging_def)
  show 1: "sz ! q = of_nat (card {v. v < ws_size w \<and> ds_rep (ds_p d) (lab v) = q})"
    unfolding sz basin_sizes_def by (rule class_sum_count [OF d lab])
  have "card {v. v < ws_size w \<and> ds_rep (ds_p d) (lab v) = q} \<le> card {..<ws_size w}" by (rule card_mono) auto
  then show "unat (sz ! q) = card {v. v < ws_size w \<and> ds_rep (ds_p d) (lab v) = q}"
    unfolding 1 using N by (intro unat_small) simp
qed

lemma region_mark:
  assumes S: "region_state w lab k d sz ob" and q: "q < k" "ds_rep (ds_p d) q = q"
  shows "ob ! q \<longleftrightarrow> (\<exists>v. border_voxel w v \<and> ds_rep (ds_p d) (lab v) = q)"
proof -
  have lab: "\<forall>v < ws_size w. lab v < k" and d: "ds_size d = k" and dim: "2 \<le> ws_x w" "2 \<le> ws_y w" "2 \<le> ws_z w"
    and ob: "ob ! q = class_any (ws_border w (map lab [0..<ws_size w]) k) d q"
    using S q by (auto simp: region_state_def merging_def)
  have "ws_border w (map lab [0..<ws_size w]) k ! l \<longleftrightarrow> (\<exists>v. border_voxel w v \<and> lab v = l)" if "l < k" for l
    using ws_border_spec(2) [OF that, of w "map lab [0..<ws_size w]"] border_voxel_less [OF dim] by auto
  moreover have "lab v < k" if "border_voxel w v" for v using border_voxel_less [OF dim that] lab by blast
  ultimately show ?thesis unfolding ob class_any_def d by blast
qed

text \<open>The kept representatives are the regions.\<close>

lemma region_kept:
  assumes S: "region_state w lab k d sz ob" and r: "1 \<le> r" "r \<le> length (filter (keep (ws_size_thold w) sz ob) [1..<k])"
  obtains q where "q < k" "q \<noteq> 0" "keep (ws_size_thold w) sz ob q"
    "\<And>v. v < ws_size w \<Longrightarrow> region_of w lab d sz ob v = r \<longleftrightarrow> ds_rep (ds_p d) (lab v) = q"
proof -
  let ?L = "filter (keep (ws_size_thold w) sz ob) [1..<k]"
  have "?L ! (r - 1) \<in> set ?L" using r by (intro nth_mem) simp
  moreover have "region_of w lab d sz ob v = r \<longleftrightarrow> ds_rep (ds_p d) (lab v) = ?L ! (r - 1)" if "v < ws_size w" for v
    using new_id_iff(2) [OF region_rep(1) [OF S that], of r "ws_size_thold w" sz ob] r by (simp add: region_of_def)
  ultimately show thesis by (intro that [of "?L ! (r - 1)"]) auto
qed

lemma region_large:
  assumes S: "region_state w lab k d sz ob" and r: "1 \<le> r" "r \<le> length (filter (keep (ws_size_thold w) sz ob) [1..<k])"
  shows "(\<exists>v < ws_size w. region_of w lab d sz ob v = r) \<and>
    (ws_size_thold w \<le> card {v. v < ws_size w \<and> region_of w lab d sz ob v = r} \<or>
      (\<exists>v. border_voxel w v \<and> region_of w lab d sz ob v = r))"
proof -
  obtain q where q: "q < k" "q \<noteq> 0" "keep (ws_size_thold w) sz ob q"
    and rq: "\<And>v. v < ws_size w \<Longrightarrow> region_of w lab d sz ob v = r \<longleftrightarrow> ds_rep (ds_p d) (lab v) = q"
    using region_kept [OF S r] by blast
  let ?C = "{v. v < ws_size w \<and> ds_rep (ds_p d) (lab v) = q}"
  have set: "{v. v < ws_size w \<and> region_of w lab d sz ob v = r} = ?C" using rq by auto
  have "unat (sz ! q) \<noteq> 0" using q(3) by (simp add: keep_def unat_eq_0)
  then have "?C \<noteq> {}" unfolding region_size(1) [OF S q(1)] by (metis card.empty)
  then obtain v where v: "v < ws_size w" "ds_rep (ds_p d) (lab v) = q" by blast
  then have root: "ds_rep (ds_p d) q = q" using region_rep(2) [OF S v(1)] by simp
  have "ws_size_thold w \<le> card ?C \<or> (\<exists>v. border_voxel w v \<and> ds_rep (ds_p d) (lab v) = q)"
    using q(3) region_mark [OF S q(1) root] region_size(1) [OF S q(1)] by (simp add: keep_def)
  moreover have "v < ws_size w" if "border_voxel w v" for v
    using S border_voxel_less [OF _ _ _ that] by (simp add: region_state_def)
  ultimately show ?thesis using v rq unfolding set by blast
qed

lemma region_border:
  assumes S: "region_state w lab k d sz ob" and v: "border_voxel w v" "lab v \<noteq> 0"
  shows "region_of w lab d sz ob v \<noteq> 0"
proof -
  let ?q = "ds_rep (ds_p d) (lab v)"
  have vN: "v < ws_size w" using S border_voxel_less [OF _ _ _ v(1)] by (simp add: region_state_def)
  note q = region_rep [OF S vN]
  have "0 < card {u. u < ws_size w \<and> ds_rep (ds_p d) (lab u) = ?q}" using vN by (auto simp: card_gt_0_iff)
  then have "unat (sz ! ?q) \<noteq> 0" unfolding region_size(1) [OF S q(1)] by (rule gr_implies_not0)
  then have "sz ! ?q \<noteq> 0" by auto
  moreover have "ob ! ?q" using region_mark [OF S q(1,2)] v(1) by blast
  ultimately show ?thesis using q(3) v(2) by (simp add: region_of_def new_id_def keep_def)
qed

lemma region_counts:
  assumes S: "region_state w lab k d sz ob" and r: "r \<le> length (filter (keep (ws_size_thold w) sz ob) [1..<k])"
  shows "((sz ! 0 + sum_list (map ((!) sz) (filter (\<lambda>i. \<not> keep (ws_size_thold w) sz ob i) [1..<k]))) #
      map ((!) sz) (filter (keep (ws_size_thold w) sz ob) [1..<k])) ! r =
    of_nat (card {v. v < ws_size w \<and> region_of w lab d sz ob v = r})"
  unfolding region_of_def
proof (rule kept_sizes [OF _ _ _ r])
  show "\<forall>q < k. sz ! q = of_nat (card {v. v < ws_size w \<and> ds_rep (ds_p d) (lab v) = q})" using region_size(2) [OF S] by blast
  show "\<forall>v < ws_size w. ds_rep (ds_p d) (lab v) < k" using region_rep(1) [OF S] by blast
  show "0 < k" using S by (simp add: region_state_def merging_def)
qed

text \<open>\<open>doit\<close> in terms of the state the merging leaves.\<close>

lemma doit_state:
  assumes N: "ws_size w < 2 ^ 31" and dim: "2 \<le> ws_x w" "2 \<le> ws_y w" "2 \<le> ws_z w"
  shows "\<exists>lab k t d sz ob. region_state w lab k d sz ob \<and>
    doit w (replicate (ws_size w) 0) [] =
      Some (rev (sort t),
        (sz ! 0 + sum_list (map ((!) sz) (filter (\<lambda>i. \<not> keep (ws_size_thold w) sz ob i) [1..<k]))) #
          map ((!) sz) (filter (keep (ws_size_thold w) sz ob) [1..<k]),
        map (region_of w lab d sz ob) [0..<ws_size w]) \<and>
    (\<forall>v < ws_size w. lab v = 0 \<longleftrightarrow> (\<forall>u. \<not> joined w v u) \<and> \<not> alone w v) \<and>
    (\<forall>u < ws_size w. \<forall>v < ws_size w. lab u \<noteq> 0 \<longrightarrow> (lab u = lab v \<longleftrightarrow> (u, v) \<in> linked w)) \<and>
    between_basins k (ws_graph w (map lab [0..<ws_size w])) \<and>
    (\<forall>e \<in> set t. tree_edge (ws_low w) (map (new_id (ws_size_thold w) sz ob) [0..<k]) (ws_graph w (map lab [0..<ws_size w])) e)"
proof -
  let ?N = "ws_size w"
  obtain lab k res0 sizes0 where b: "basins w (replicate ?N 0) [] = Some (res0, sizes0, of_nat k)"
    and res0: "res0 = map (\<lambda>v. of_nat (lab v)) [0..<?N]" and k: "1 \<le> k" "k \<le> ?N + 1"
    and lk: "\<forall>v < ?N. lab v < k" and l0: "\<forall>v < ?N. lab v = 0 \<longleftrightarrow> (\<forall>u. \<not> joined w v u) \<and> \<not> alone w v"
    and eq: "\<forall>u < ?N. \<forall>v < ?N. lab u \<noteq> 0 \<longrightarrow> (lab u = lab v \<longleftrightarrow> (u, v) \<in> linked w)"
    and sizes0: "sizes0 = basin_sizes ?N lab k"
    using basins_ok [OF N] unfolding basin_sizes_def by blast
  have k32: "unat (of_nat k :: u32) = k" "k < 2 ^ 32"
    using k(2) N by (simp_all add: unsigned_of_nat take_bit_nat_eq_self)
  have "\<forall>v < ?N. unat (of_nat (lab v) :: u32) = lab v" using lk k(2) N unat_small by fastforce
  then have resn: "map unat res0 = map lab [0..<?N]" by (simp add: res0)
  let ?res = "map lab [0..<?N]"
  have gr: "between_basins k (ws_graph w ?res)" by (rule between_ws_graph) (use lk in simp)
  have "length sizes0 = k" "length (ws_border w ?res k) = k" "0 < k" "\<forall>r \<in> set ?res. r < k"
    using k lk ws_border_spec(1) by (auto simp: sizes0 basin_sizes_def)
  from ws_finish_ok [OF this(1-3) k32(2) gr this(4), of w] obtain t d sz ob where
    fin: "ws_finish w (ws_graph w ?res) (ws_border w ?res k) sizes0 ?res =
      Some (rev (sort t),
        (sz ! 0 + sum_list (map ((!) sz) (filter (\<lambda>i. \<not> keep (ws_size_thold w) sz ob i) [1..<k]))) #
          map ((!) sz) (filter (keep (ws_size_thold w) sz ob) [1..<k]),
        map (\<lambda>r. new_id (ws_size_thold w) sz ob (ds_rep (ds_p d) r)) ?res)"
    and mg: "merging k sizes0 (ws_border w ?res k) d sz ob"
    and tree: "\<forall>e \<in> set t. tree_edge (ws_low w) (map (new_id (ws_size_thold w) sz ob) [0..<k]) (ws_graph w ?res) e" by blast
  have "region_state w lab k d sz ob" using mg N dim lk by (simp add: region_state_def sizes0)
  moreover have "map (\<lambda>r. new_id (ws_size_thold w) sz ob (ds_rep (ds_p d) r)) ?res = map (region_of w lab d sz ob) [0..<?N]"
    by (simp add: region_of_def)
  ultimately show ?thesis
    using b fin k32(1) l0 eq gr tree
    by (intro exI [of _ lab] exI [of _ k] exI [of _ t] exI [of _ d] exI [of _ sz] exI [of _ ob]) (simp add: doit_def resn)
qed

text \<open>C5: On an empty volume with at least two voxels in each direction \<open>doit\<close> returns. Joined voxels get the
  same region; the sizes count the voxels of every region, the background 0 included; every region has
  voxels, and it has at least \<open>size_thold_\<close> of them or touches one of the outer slices; no basin that
  touches an outer slice ends in the background and every voxel without a basin does; the dendrogram is
  sorted, largest affinity first, and each of its edges joins two different regions with an affinity of
  at least \<open>low_thold_\<close>.\<close>
theorem doit_regions:
  assumes "ws_ok w" and N: "ws_size w < 2 ^ 31" and dim: "2 \<le> ws_x w" "2 \<le> ws_y w" "2 \<le> ws_z w"
  shows "\<exists>dendr sizes res. doit w (replicate (ws_size w) 0) [] = Some (dendr, sizes, res) \<and> length res = ws_size w \<and>
    (\<forall>v < ws_size w. res ! v < length sizes) \<and>
    (\<forall>r < length sizes. sizes ! r = of_nat (card {v. v < ws_size w \<and> res ! v = r})) \<and>
    (\<forall>u v. joined w u v \<longrightarrow> res ! u = res ! v) \<and>
    (\<forall>r. 1 \<le> r \<and> r < length sizes \<longrightarrow> (\<exists>v < ws_size w. res ! v = r) \<and>
      (ws_size_thold w \<le> card {v. v < ws_size w \<and> res ! v = r} \<or> (\<exists>v. border_voxel w v \<and> res ! v = r))) \<and>
    (\<forall>v. border_voxel w v \<and> (alone w v \<or> (\<exists>u. joined w v u)) \<longrightarrow> res ! v \<noteq> 0) \<and>
    (\<forall>v < ws_size w. \<not> alone w v \<and> (\<forall>u. \<not> joined w v u) \<longrightarrow> res ! v = 0) \<and>
    sorted (rev dendr) \<and>
    (\<forall>(c, a, b) \<in> set dendr. ws_low w \<le> c \<and> 1 \<le> a \<and> a < length sizes \<and> 1 \<le> b \<and> b < length sizes \<and> a \<noteq> b)"
proof -
  obtain lab k t d sz ob where S: "region_state w lab k d sz ob"
    and D: "doit w (replicate (ws_size w) 0) [] =
      Some (rev (sort t),
        (sz ! 0 + sum_list (map ((!) sz) (filter (\<lambda>i. \<not> keep (ws_size_thold w) sz ob i) [1..<k]))) #
          map ((!) sz) (filter (keep (ws_size_thold w) sz ob) [1..<k]),
        map (region_of w lab d sz ob) [0..<ws_size w])"
    and l0: "\<forall>v < ws_size w. lab v = 0 \<longleftrightarrow> (\<forall>u. \<not> joined w v u) \<and> \<not> alone w v"
    and eq: "\<forall>u < ws_size w. \<forall>v < ws_size w. lab u \<noteq> 0 \<longrightarrow> (lab u = lab v \<longleftrightarrow> (u, v) \<in> linked w)"
    and gr: "between_basins k (ws_graph w (map lab [0..<ws_size w]))"
    and tree: "\<forall>e \<in> set t. tree_edge (ws_low w) (map (new_id (ws_size_thold w) sz ob) [0..<k]) (ws_graph w (map lab [0..<ws_size w])) e"
    using doit_state [OF N dim] by blast
  let ?L = "filter (keep (ws_size_thold w) sz ob) [1..<k]"
  define R where "R = region_of w lab d sz ob"
  have same: "R u = R v \<and> u < ws_size w \<and> v < ws_size w" if "joined w u v" for u v
  proof -
    have "u < ws_size w" "v < ws_size w" "lab u \<noteq> 0" "(u, v) \<in> linked w" using joined_less [OF that] l0 that by auto
    moreover from this have "lab u = lab v" using eq by blast
    ultimately show ?thesis by (simp add: R_def region_of_def)
  qed
  have bN: "v < ws_size w" if "border_voxel w v" for v by (rule border_voxel_less [OF dim that])
  have less: "R v \<le> length ?L" if "v < ws_size w" for v
    using new_id_iff(1) [OF region_rep(1) [OF S that], of "ws_size_thold w" sz ob] by (simp add: R_def region_of_def)
  have bg0: "R v = 0" if "v < ws_size w" "lab v = 0" for v
    using region_rep(3) [OF S that(1)] that(2) by (simp add: R_def region_of_def new_id_def)
  have edges: "ws_low w \<le> c \<and> 1 \<le> a \<and> a \<le> length ?L \<and> 1 \<le> b \<and> b \<le> length ?L \<and> a \<noteq> b" if e: "(c, a, b) \<in> set t" for c a b
    by (rule tree_edge_ids [OF gr bspec [OF tree e]])
  have loop: "(c, a, a) \<notin> set t" for c a using edges by blast
  have set: "{v. v < ws_size w \<and> map R [0..<ws_size w] ! v = r} = {v. v < ws_size w \<and> R v = r}" for r by auto
  have ex: "(\<exists>v < ws_size w. map R [0..<ws_size w] ! v = r) \<longleftrightarrow> (\<exists>v < ws_size w. R v = r)" for r by auto
  have exb: "(\<exists>v. border_voxel w v \<and> map R [0..<ws_size w] ! v = r) \<longleftrightarrow> (\<exists>v. border_voxel w v \<and> R v = r)" for r
    using bN by (metis diff_zero add_0 nth_map_upt)
  note counts = region_counts [OF S, folded R_def] and large = region_large [OF S, folded R_def]
    and border = region_border [OF S, folded R_def]
  show ?thesis
    unfolding D R_def [symmetric]
  proof (intro exI conjI, rule refl)
    show "\<forall>u v. joined w u v \<longrightarrow> map R [0..<ws_size w] ! u = map R [0..<ws_size w] ! v" using same by simp
    show "\<forall>v. border_voxel w v \<and> (alone w v \<or> (\<exists>u. joined w v u)) \<longrightarrow> map R [0..<ws_size w] ! v \<noteq> 0"
      using border bN l0 by auto
    show "\<forall>v < ws_size w. \<not> alone w v \<and> (\<forall>u. \<not> joined w v u) \<longrightarrow> map R [0..<ws_size w] ! v = 0" using bg0 l0 by simp
  qed (use less counts large edges loop in \<open>auto simp: set ex exb less_Suc_eq_le\<close>)
qed

theorem doit_regions_witness:
  "\<exists>dendr sizes res. doit (fst (ws_new 3 3 3 (replicate 81 1) 1 2 (0 :: int) 4)) (replicate 27 0) [] =
    Some (dendr, sizes, res) \<and> length res = 27 \<and> sorted (rev dendr)"
proof -
  let ?w = "fst (ws_new 3 3 3 (replicate 81 1) 1 2 (0 :: int) 4)"
  have "ws_ok ?w" "ws_size ?w < 2 ^ 31" "2 \<le> ws_x ?w" "2 \<le> ws_y ?w" "2 \<le> ws_z ?w" and n: "ws_size ?w = 27"
    by (simp_all add: ws_ok_def ws_size_def ws_new_def)
  from doit_regions [OF this(1-5)] show ?thesis
    unfolding n by (elim exE conjE) (intro exI conjI; assumption)
qed

section \<open>Edges that are lost\<close>

text \<open>The dendrogram is built from \<open>remaps[ id ]\<close> without looking up the representative of \<open>id\<close>: a basin
  that was merged into another one has \<open>remaps\<close> 0 and its edges are dropped. Here basin 2 (one voxel) is
  merged into basin 1; the edge between basins 2 and 3, well above the thresholds, disappears, and the
  dendrogram of the two remaining regions is empty.\<close>
theorem merged_basin_loses_edges:
  "ws_finish \<lparr>ws_x = 3, ws_y = 1, ws_z = 1, ws_conn = [], ws_low = 1, ws_hi = 9, ws_min = 1, ws_size_thold = 2\<rparr>
    [(3 :: int, 2, 3), (4, 1, 2)] [False, False, False, False] [0, 5, 1, 5] [1, 2, 3] = Some ([], [0, 6, 5], [1, 1, 2])"
  by code_simp

end
