(* ===== verification/Zi_Tasks.thy ===== *)
theory Zi_Tasks
  imports Zi_Prelude
begin

text \<open>
  The containers a task manager keeps its tasks in: \<^verbatim>\<open>concurrency/detail/simple_task_container.hpp\<close>,
  \<^verbatim>\<open>randomized_task_container.hpp\<close>, \<^verbatim>\<open>priority_task_container.hpp\<close> and
  \<^verbatim>\<open>priority_map_task_container.hpp\<close>, behind the record of operations the manager calls, and the contract
  (a locale) they all keep: what is pushed comes out exactly once. Tasks are values of any type;
  the value of \<open>std::rand\<close> is an argument of the pop. Keys and the counter are integers, with the bounds
  of \<open>int64_t\<close> in the invariant.
\<close>

section \<open>The interface\<close>

text \<open>The parameter \<open>'p\<close> of a push says where: an end of the deque, or a priority.\<close>

record ('c, 'p, 'a) task_ops =
  tc_size :: "'c \<Rightarrow> nat"
  tc_clear :: "'c \<Rightarrow> 'c"
  tc_push :: "'p \<Rightarrow> 'a \<Rightarrow> 'c \<Rightarrow> 'c"
  tc_get_pop_front :: "nat \<Rightarrow> 'c \<Rightarrow> ('a \<times> 'c) option"

locale task_container =
  fixes K :: "('c, 'p, 'a) task_ops" and valid :: "'c \<Rightarrow> bool" and contents :: "'c \<Rightarrow> 'a multiset"
    and may_push :: "'p \<Rightarrow> 'a \<Rightarrow> 'c \<Rightarrow> bool"
  assumes size_contents: "valid c \<Longrightarrow> tc_size K c = size (contents c)"
    and clear_contents: "valid c \<Longrightarrow> valid (tc_clear K c) \<and> contents (tc_clear K c) = {#}"
    and push_contents: "valid c \<Longrightarrow> may_push p t c \<Longrightarrow> valid (tc_push K p t c) \<and> contents (tc_push K p t c) = add_mset t (contents c)"
    and pop_none: "valid c \<Longrightarrow> tc_get_pop_front K r c = None \<longleftrightarrow> contents c = {#}"
    and pop_some: "valid c \<Longrightarrow> tc_get_pop_front K r c = Some (t, c') \<Longrightarrow> valid c' \<and> contents c = add_mset t (contents c')"
begin

text \<open>Taking out all tasks ends and yields each of them once.\<close>

fun drain :: "nat list \<Rightarrow> 'c \<Rightarrow> 'a list \<times> 'c" where
  "drain [] c = ([], c)"
| "drain (r # rs) c = (case tc_get_pop_front K r c of None \<Rightarrow> ([], c) | Some (t, c) \<Rightarrow> let (ts, c) = drain rs c in (t # ts, c))"

lemma drain_contents:
  "valid c \<Longrightarrow> drain rs c = (ts, c') \<Longrightarrow> valid c' \<and> contents c = mset ts + contents c' \<and> (tc_size K c \<le> length rs \<longrightarrow> contents c' = {#})"
proof (induction rs arbitrary: c ts)
  case Nil
  then show ?case by (auto simp: size_contents)
next
  case (Cons r rs)
  show ?case
  proof (cases "tc_get_pop_front K r c")
    case None
    then show ?thesis using Cons.prems pop_none [of c r] by simp
  next
    case (Some x)
    obtain t c1 where x: "x = (t, c1)" by (cases x)
    obtain ts1 where d: "drain rs c1 = (ts1, c')" "ts = t # ts1" using Cons.prems(2) by (auto simp: Some x split: prod.splits)
    note p = pop_some [OF Cons.prems(1) Some [unfolded x]]
    from Cons.IH [OF _ d(1)] p show ?thesis
      using size_contents [OF Cons.prems(1)] size_contents [of c1] by (simp add: d(2))
  qed
qed

end

section \<open>The deque\<close>

definition simple_push :: "bool \<Rightarrow> 'a \<Rightarrow> 'a list \<Rightarrow> 'a list" where
  "simple_push front t c = (if front then t # c else c @ [t])"

definition simple_get_pop_front :: "nat \<Rightarrow> 'a list \<Rightarrow> ('a \<times> 'a list) option" where
  "simple_get_pop_front r c = (case c of [] \<Rightarrow> None | t # c \<Rightarrow> Some (t, c))"

definition simple_tasks :: "('a list, bool, 'a) task_ops" where
  "simple_tasks = \<lparr>tc_size = length, tc_clear = (\<lambda>_. []), tc_push = simple_push, tc_get_pop_front = simple_get_pop_front\<rparr>"

interpretation simple: task_container simple_tasks "\<lambda>_. True" mset "\<lambda>_ _ _. True"
  by unfold_locales (auto simp: simple_tasks_def simple_push_def simple_get_pop_front_def split: list.splits)

section \<open>The vector with random access\<close>

definition randomized_push :: "bool \<Rightarrow> 'a \<Rightarrow> 'a list \<Rightarrow> 'a list" where
  "randomized_push front t c = c @ [t]"

text \<open>\<open>None\<close>: the assertion on an empty container fails.\<close>

definition randomized_get_pop_front :: "nat \<Rightarrow> 'a list \<Rightarrow> ('a \<times> 'a list) option" where
  "randomized_get_pop_front rand c =
     (if length c > 0
      then let idx = rand mod length c; ret = c ! idx in Some (ret, butlast (c[idx := c ! (length c - 1)]))
      else None)"

definition randomized_tasks :: "('a list, bool, 'a) task_ops" where
  "randomized_tasks =
     \<lparr>tc_size = length, tc_clear = (\<lambda>_. []), tc_push = randomized_push, tc_get_pop_front = randomized_get_pop_front\<rparr>"

lemma randomized_pop_mset:
  assumes "0 < length c"
  shows "mset c = add_mset (c ! (r mod length c)) (mset (butlast (c[r mod length c := c ! (length c - 1)])))"
proof -
  let ?i = "r mod length c" and ?n = "length c - 1"
  have i: "?i < length c" using assms by simp
  let ?d = "swap_nth c ?i ?n"
  have "mset c = mset ?d" using assms i by simp
  also have "?d = butlast ?d @ [?d ! ?n]"
    using assms by (metis append_butlast_last_id last_conv_nth length_greater_0_conv length_swap_nth)
  also have "?d ! ?n = c ! ?i" using assms i by (simp add: nth_swap_nth)
  also have "butlast ?d = butlast (c[?i := c ! ?n])"
    using assms by (simp add: swap_nth_def butlast_list_update)
  finally show ?thesis by simp
qed

interpretation randomized: task_container randomized_tasks "\<lambda>_. True" mset "\<lambda>_ _ _. True"
proof
  fix c c' :: "'a list" and t r
  assume "tc_get_pop_front randomized_tasks r c = Some (t, c')"
  then show "True \<and> mset c = add_mset t (mset c')"
    using randomized_pop_mset [of c r] by (auto simp: randomized_tasks_def randomized_get_pop_front_def Let_def split: if_splits)
qed (auto simp: randomized_tasks_def randomized_push_def randomized_get_pop_front_def Let_def)

section \<open>Priorities\<close>

definition priority_highest :: int where "priority_highest = 8"
definition priority_high :: int where "priority_high = 6"
definition priority_normal :: int where "priority_normal = 4"
definition priority_low :: int where "priority_low = 2"
definition priority_lowest :: int where "priority_lowest = 0"

record 'a priority_container =
  pq_queue :: "(int \<times> 'a) list"
  pq_counter :: int

definition priority_new :: "'a priority_container" where
  "priority_new = \<lparr>pq_queue = [], pq_counter = 0\<rparr>"

text \<open>\<open>std::map::insert\<close> on the sorted list of the map's pairs: an existing key stays as it is.\<close>

fun map_insert :: "int \<times> 'a \<Rightarrow> (int \<times> 'a) list \<Rightarrow> (int \<times> 'a) list" where
  "map_insert x [] = [x]"
| "map_insert x (y # ys) = (if fst x < fst y then x # y # ys else if fst x = fst y then y # ys else y # map_insert x ys)"

definition priority_push :: "int \<Rightarrow> 'a \<Rightarrow> 'a priority_container \<Rightarrow> 'a priority_container" where
  "priority_push value task c =
     (let c = c\<lparr>pq_counter := pq_counter c + 1\<rparr>
      in c\<lparr>pq_queue := map_insert (- (value * 2 ^ 56) - pq_counter c, task) (pq_queue c)\<rparr>)"

definition priority_front :: "'a priority_container \<Rightarrow> 'a option" where
  "priority_front c = (case pq_queue c of [] \<Rightarrow> None | x # q \<Rightarrow> Some (snd x))"

definition priority_get_pop_front :: "nat \<Rightarrow> 'a priority_container \<Rightarrow> ('a \<times> 'a priority_container) option" where
  "priority_get_pop_front r c = (case pq_queue c of [] \<Rightarrow> None | x # q \<Rightarrow> Some (snd x, c\<lparr>pq_queue := q\<rparr>))"

definition priority_pop_front :: "'a priority_container \<Rightarrow> 'a priority_container" where
  "priority_pop_front c = c\<lparr>pq_queue := tl (pq_queue c)\<rparr>"

definition priority_tasks :: "('a priority_container, int, 'a) task_ops" where
  "priority_tasks =
     \<lparr>tc_size = (\<lambda>c. length (pq_queue c)), tc_clear = (\<lambda>c. c\<lparr>pq_queue := []\<rparr>), tc_push = priority_push,
      tc_get_pop_front = priority_get_pop_front\<rparr>"

text \<open>The keys are sorted and tell the priority and the counter at the insertion; they fit \<open>int64_t\<close>.\<close>

definition task_key :: "int \<Rightarrow> int \<Rightarrow> int" where
  "task_key value n = - (value * 2 ^ 56) - n"

definition priority_valid :: "'a priority_container \<Rightarrow> bool" where
  "priority_valid c \<longleftrightarrow> sorted_wrt (<) (map fst (pq_queue c)) \<and> 0 \<le> pq_counter c \<and> pq_counter c < 2 ^ 56 \<and>
     (\<forall>(k, t) \<in> set (pq_queue c). \<exists>v n. k = task_key v n \<and> -127 \<le> v \<and> v \<le> 126 \<and> 1 \<le> n \<and> n \<le> pq_counter c)"

definition priority_may :: "int \<Rightarrow> 'a \<Rightarrow> 'a priority_container \<Rightarrow> bool" where
  "priority_may v t c \<longleftrightarrow> -127 \<le> v \<and> v \<le> 126 \<and> pq_counter c + 1 < 2 ^ 56"

lemma task_key_eq:
  assumes "task_key v n = task_key w m" "0 \<le> n" "n < 2 ^ 56" "0 \<le> m" "m < 2 ^ 56"
  shows "v = w \<and> n = m"
  using assms by (cases v w rule: linorder_cases) (simp_all add: task_key_def)

lemma task_key_less:
  assumes "0 \<le> n" "n < 2 ^ 56" "0 \<le> m" "m < 2 ^ 56"
  shows "task_key v n < task_key w m \<longleftrightarrow> w < v \<or> w = v \<and> m < n"
  using assms by (cases v w rule: linorder_cases) (simp_all add: task_key_def)

text \<open>The computation of the key does not overflow.\<close>

lemma task_key_int64:
  assumes "-127 \<le> v" "v \<le> 126" "0 \<le> n" "n < 2 ^ 56"
  shows "- (2 ^ 63) \<le> v * 2 ^ 56" "v * 2 ^ 56 < 2 ^ 63" "- (2 ^ 63) \<le> task_key v n" "task_key v n < 2 ^ 63"
  using assms by (simp_all add: task_key_def)

lemma map_insert_new:
  assumes "sorted_wrt (<) (map fst ys)" "fst x \<notin> fst ` set ys"
  shows "sorted_wrt (<) (map fst (map_insert x ys))" "mset (map_insert x ys) = add_mset x (mset ys)"
proof -
  have set: "set (map_insert x ys) \<subseteq> insert x (set ys)" for ys :: "(int \<times> 'a) list" by (induction ys) auto
  show "mset (map_insert x ys) = add_mset x (mset ys)" using assms(2) by (induction ys) auto
  show "sorted_wrt (<) (map fst (map_insert x ys))"
    using assms
  proof (induction ys)
    case (Cons y ys)
    then show ?case using set [of ys] by (auto simp: not_less)
  qed simp
qed

lemma priority_push_ok:
  assumes c: "priority_valid c" and m: "priority_may v t c"
  shows "priority_valid (priority_push v t c)"
    "mset (pq_queue (priority_push v t c)) = add_mset (task_key v (pq_counter c + 1), t) (mset (pq_queue c))"
proof -
  let ?n = "pq_counter c + 1" and ?x = "(task_key v (pq_counter c + 1), t)"
  have s: "sorted_wrt (<) (map fst (pq_queue c))" and n: "0 \<le> pq_counter c" "?n < 2 ^ 56"
    and q: "\<And>k t. (k, t) \<in> set (pq_queue c) \<Longrightarrow> \<exists>w m. k = task_key w m \<and> -127 \<le> w \<and> w \<le> 126 \<and> 1 \<le> m \<and> m \<le> pq_counter c"
    and v: "-127 \<le> v" "v \<le> 126"
    using c m by (auto simp: priority_valid_def priority_may_def)
  have P: "priority_push v t c = c\<lparr>pq_counter := ?n, pq_queue := map_insert ?x (pq_queue c)\<rparr>"
    by (simp add: priority_push_def task_key_def)
  have "fst ?x \<notin> fst ` set (pq_queue c)"
  proof
    assume "fst ?x \<in> fst ` set (pq_queue c)"
    then obtain s where "(task_key v ?n, s) \<in> set (pq_queue c)" by auto
    from q [OF this] obtain w m where "task_key v ?n = task_key w m" "1 \<le> m" "m \<le> pq_counter c" by blast
    with task_key_eq [of v ?n w m] n show False by simp
  qed
  note I = map_insert_new [OF s this]
  show "mset (pq_queue (priority_push v t c)) = add_mset ?x (mset (pq_queue c))" using I(2) by (simp add: P)
  have set: "set (map_insert ?x (pq_queue c)) = insert ?x (set (pq_queue c))"
    using arg_cong [OF I(2), of set_mset] by simp
  show "priority_valid (priority_push v t c)"
    unfolding priority_valid_def P
    using I(1) n v q by (fastforce simp: set)
qed

interpretation priority: task_container priority_tasks priority_valid "\<lambda>c. mset (map snd (pq_queue c))" priority_may
proof
  fix c :: "'a priority_container" and v t
  assume c: "priority_valid c" "priority_may v t c"
  have "mset (map snd (pq_queue (priority_push v t c))) = image_mset snd (mset (pq_queue (priority_push v t c)))" by simp
  also have "\<dots> = add_mset t (mset (map snd (pq_queue c)))" using priority_push_ok(2) [OF c] by simp
  finally show "priority_valid (tc_push priority_tasks v t c) \<and>
      mset (map snd (pq_queue (tc_push priority_tasks v t c))) = add_mset t (mset (map snd (pq_queue c)))"
    using priority_push_ok(1) [OF c] by (simp add: priority_tasks_def)
next
  fix c c' :: "'a priority_container" and r t
  assume "priority_valid c" "tc_get_pop_front priority_tasks r c = Some (t, c')"
  then show "priority_valid c' \<and> mset (map snd (pq_queue c)) = add_mset t (mset (map snd (pq_queue c')))"
    by (auto simp: priority_tasks_def priority_get_pop_front_def priority_valid_def split: list.splits)
qed (auto simp: priority_tasks_def priority_get_pop_front_def priority_valid_def split: list.splits)

section \<open>The set of numbered tasks\<close>

text \<open>\<open>std::set\<close> of pairs of a priority and a pointer, as the sorted list of its elements; the pointers
  are compared like the values of \<open>'a\<close>. An equal pair is not inserted again.\<close>

fun set_insert :: "nat \<times> 'a::linorder \<Rightarrow> (nat \<times> 'a) list \<Rightarrow> (nat \<times> 'a) list" where
  "set_insert x [] = [x]"
| "set_insert x (y # ys) =
     (if fst x < fst y \<or> fst x = fst y \<and> snd x < snd y then x # y # ys
      else if x = y then y # ys else y # set_insert x ys)"

definition prio_map_push :: "nat \<Rightarrow> 'a::linorder \<Rightarrow> (nat \<times> 'a) list \<Rightarrow> (nat \<times> 'a) list" where
  "prio_map_push prio task tasks = set_insert (prio, task) tasks"

definition prio_map_get_pop_front :: "nat \<Rightarrow> (nat \<times> 'a::linorder) list \<Rightarrow> ('a \<times> (nat \<times> 'a) list) option" where
  "prio_map_get_pop_front r tasks = (case tasks of [] \<Rightarrow> None | x # tasks \<Rightarrow> Some (snd x, tasks))"

definition prio_map_tasks :: "((nat \<times> 'a::linorder) list, nat, 'a) task_ops" where
  "prio_map_tasks =
     \<lparr>tc_size = length, tc_clear = (\<lambda>_. []), tc_push = prio_map_push, tc_get_pop_front = prio_map_get_pop_front\<rparr>"

lemma mset_set_insert: "x \<notin> set ys \<Longrightarrow> mset (set_insert x ys) = add_mset x (mset ys)"
  by (induction ys) auto

interpretation prio_map: task_container prio_map_tasks "\<lambda>_. True" "\<lambda>c. mset (map snd c)" "\<lambda>p t c. (p, t) \<notin> set c"
proof
  fix c :: "(nat \<times> 'a) list" and p t
  assume "(p, t) \<notin> set c"
  then have "image_mset snd (mset (set_insert (p, t) c)) = add_mset t (image_mset snd (mset c))" by (simp add: mset_set_insert)
  then show "True \<and> mset (map snd (tc_push prio_map_tasks p t c)) = add_mset t (mset (map snd c))"
    by (simp add: prio_map_tasks_def prio_map_push_def)
qed (auto simp: prio_map_tasks_def prio_map_get_pop_front_def split: list.splits)

section \<open>The order of the priorities\<close>

lemma map_insert_at:
  "\<forall>y \<in> set A. fst y < fst x \<Longrightarrow> \<forall>y \<in> set B. fst x < fst y \<Longrightarrow> map_insert x (A @ B) = A @ x # B"
proof (induction A)
  case Nil
  then show ?case by (cases B) auto
qed auto

text \<open>A stable sort puts a last element behind all that are not larger.\<close>

lemma sort_key_snoc:
  assumes "sort_key f xs = A @ B" "\<forall>y \<in> set A. f y \<le> f x" "\<forall>y \<in> set B. f x < f y"
  shows "sort_key f (xs @ [x]) = A @ x # B"
proof (rule properties_for_sort_key)
  have m: "mset xs = mset A + mset B" using assms(1) by (metis mset_append mset_sort)
  then show "mset (A @ x # B) = mset (xs @ [x])" by simp
  have "sorted (map f (A @ B))" using assms(1) by (metis sorted_sort_key)
  then show "sorted (map f (A @ x # B))" using assms(2,3) by (auto simp: sorted_append order.strict_implies_order)
  show "filter (\<lambda>y. f k = f y) (A @ x # B) = filter (\<lambda>y. f k = f y) (xs @ [x])" for k
  proof -
    have "filter (\<lambda>y. f k = f y) (A @ B) = filter (\<lambda>y. f k = f y) xs"
      using sort_key_stable [of f "f k" xs] unfolding assms(1) by (simp add: eq_commute)
    moreover have "f k = f x \<Longrightarrow> filter (\<lambda>y. f k = f y) B = []" using assms(3) by (auto simp: filter_empty_conv)
    ultimately show ?thesis by auto
  qed
qed

lemma sort_key_map_fst: "map fst (sort_key (\<lambda>y. fst (fst y)) xs) = sort_key fst (map fst xs)"
proof (rule properties_for_sort_key [symmetric])
  let ?S = "sort_key (\<lambda>y. fst (fst y)) xs"
  show "mset (map fst ?S) = mset (map fst xs)" by simp
  show "sorted (map fst (map fst ?S))" using sorted_sort_key [of "\<lambda>y. fst (fst y)" xs] by (simp add: comp_def)
  show "filter (\<lambda>y. fst k = fst y) (map fst ?S) = filter (\<lambda>y. fst k = fst y) (map fst xs)" for k
    using sort_key_stable [of "\<lambda>y. fst (fst y)" "fst k" xs] by (simp add: filter_map comp_def eq_commute)
qed

text \<open>The queue after a sequence of pushes, with the number of every push.\<close>

definition push_all :: "(int \<times> 'a) list \<Rightarrow> 'a priority_container" where
  "push_all ps = fold (\<lambda>(v, t). tc_push priority_tasks v t) ps priority_new"

definition stamped :: "(int \<times> 'a) list \<Rightarrow> ((int \<times> 'a) \<times> int) list" where
  "stamped ps = zip ps (map (\<lambda>i. int i + 1) [0..<length ps])"

lemma length_stamped [simp]: "length (stamped ps) = length ps"
  by (simp add: stamped_def)

lemma fst_stamped: "map fst (stamped ps) = ps"
  by (simp add: stamped_def)

lemma stamped_snoc: "stamped (ps @ [x]) = stamped ps @ [(x, int (length ps + 1))]"
  by (simp add: stamped_def)

lemma dropWhile_sorted: "sorted (map f xs) \<Longrightarrow> y \<in> set (dropWhile (\<lambda>y. f y \<le> v) xs) \<Longrightarrow> v < f y"
  by (induction xs) (auto split: if_splits)

lemma stamped_bound: "((v, t), n) \<in> set (stamped ps) \<Longrightarrow> (v, t) \<in> set ps \<and> 1 \<le> n \<and> n \<le> int (length ps)"
  by (auto simp: stamped_def set_zip)

lemma push_all_queue:
  assumes "length ps < 2 ^ 56"
  shows "pq_queue (push_all ps) = map (\<lambda>((v, t), n). (task_key v n, t)) (rev (sort_key (\<lambda>y. fst (fst y)) (stamped ps))) \<and>
    pq_counter (push_all ps) = int (length ps)"
  using assms
proof (induction ps rule: rev_induct)
  case Nil
  then show ?case by (simp add: push_all_def priority_new_def stamped_def)
next
  case (snoc x ps)
  obtain v t where x: "x = (v, t)" by (cases x)
  let ?k = "\<lambda>((v, t), n). (task_key v n, t)" and ?n = "int (length ps + 1)"
  let ?S = "sort_key (\<lambda>y. fst (fst y)) (stamped ps)"
  let ?A = "takeWhile (\<lambda>y. fst (fst y) \<le> v) ?S" and ?B = "dropWhile (\<lambda>y. fst (fst y) \<le> v) ?S"
  have S: "?S = ?A @ ?B" by simp
  have sorted: "sorted (map (\<lambda>y. fst (fst y)) ?S)" by simp
  have A: "\<forall>y \<in> set ?A. fst (fst y) \<le> v" by (auto dest: set_takeWhileD)
  have B: "\<forall>y \<in> set ?B. v < fst (fst y)"
    using dropWhile_sorted [OF sorted] by simp
  have in_S: "set ?A \<subseteq> set (stamped ps)" "set ?B \<subseteq> set (stamped ps)"
    by (auto dest: set_takeWhileD set_dropWhileD)
  have bound: "1 \<le> snd y \<and> snd y \<le> int (length ps)" if "y \<in> set (stamped ps)" for y
    using stamped_bound [of "fst (fst y)" "snd (fst y)" "snd y" ps] that by simp
  have nn: "?n < 2 ^ 56" using snoc.prems by simp
  have hi: "\<forall>y \<in> set (map ?k (rev ?B)). fst y < task_key v ?n"
  proof
    fix y assume "y \<in> set (map ?k (rev ?B))"
    then obtain z where z: "z \<in> set ?B" "y = ?k z" by auto
    then have "task_key (fst (fst z)) (snd z) < task_key v ?n"
      using B bound [of z] in_S(2) nn task_key_less [of "snd z" ?n "fst (fst z)" v] by auto
    then show "fst y < task_key v ?n" by (simp add: z(2) case_prod_beta)
  qed
  have lo: "\<forall>y \<in> set (map ?k (rev ?A)). task_key v ?n < fst y"
  proof
    fix y assume "y \<in> set (map ?k (rev ?A))"
    then obtain z where z: "z \<in> set ?A" "y = ?k z" by auto
    have v: "fst (fst z) \<le> v" using z(1) A by blast
    have n: "1 \<le> snd z" "snd z \<le> int (length ps)" using z(1) in_S(1) bound [of z] by (blast, blast)
    then have "task_key v ?n < task_key (fst (fst z)) (snd z)"
      using v nn by (subst task_key_less) auto
    then show "task_key v ?n < fst y" by (simp add: z(2) case_prod_beta)
  qed
  have "length ps < 2 ^ 56" using snoc.prems by simp
  note IH0 = snoc.IH [OF this]
  have "map ?k (rev ?S) = map ?k (rev ?B) @ map ?k (rev ?A)" by (subst S) (simp only: rev_append map_append)
  note IH = trans [OF conjunct1 [OF IH0] this] conjunct2 [OF IH0]
  have "pq_queue (push_all (ps @ [x])) = map_insert (task_key v ?n, t) (pq_queue (push_all ps))"
    "pq_counter (push_all (ps @ [x])) = ?n"
    using IH(2) by (simp_all add: push_all_def x priority_tasks_def priority_push_def task_key_def Let_def add.commute)
  moreover have "map_insert (task_key v ?n, t) (pq_queue (push_all ps)) = map ?k (rev ?B) @ (task_key v ?n, t) # map ?k (rev ?A)"
    unfolding IH(1) by (rule map_insert_at) (use hi lo in auto)
  moreover have "sort_key (\<lambda>y. fst (fst y)) (stamped (ps @ [x])) = ?A @ (x, ?n) # ?B"
    unfolding stamped_snoc by (rule sort_key_snoc) (use A B in \<open>auto simp: x\<close>)
  ultimately show ?case by (simp add: x)
qed

text \<open>Emptying a priority container yields the tasks by falling priority, and among equal priorities
  the last one pushed first, whichever end \<open>push_front\<close> or \<open>push_back\<close> names (priorities and counters
  whose keys fit \<open>int64_t\<close>). The tests of the task manager expect another order.\<close>
theorem priority_tasks_order:
  assumes "length ps < 2 ^ 56" "\<forall>(v, t) \<in> set ps. -127 \<le> v \<and> v \<le> 126"
  shows "fst (priority.drain (replicate (length ps) 0) (push_all ps)) = map snd (rev (sort_key fst ps))"
proof -
  have drain: "fst (priority.drain (replicate (length (pq_queue c)) 0) c) = map snd (pq_queue c)" for c :: "'a priority_container"
  proof (induction "pq_queue c" arbitrary: c)
    case Nil
    then show ?case by (simp flip: Nil)
  next
    case (Cons x q)
    have "tc_get_pop_front priority_tasks 0 c = Some (snd x, c\<lparr>pq_queue := q\<rparr>)"
      using Cons(2) by (simp add: priority_tasks_def priority_get_pop_front_def flip: Cons(2))
    then show ?case using Cons(1) [of "c\<lparr>pq_queue := q\<rparr>"] by (simp add: case_prod_beta flip: Cons(2))
  qed
  let ?S = "sort_key (\<lambda>y. fst (fst y)) (stamped ps)"
  note Q = push_all_queue [OF assms(1)]
  have "length (pq_queue (push_all ps)) = length ps" using Q by simp
  then have "fst (priority.drain (replicate (length ps) 0) (push_all ps)) = map snd (pq_queue (push_all ps))"
    using drain [of "push_all ps"] by simp
  also have "\<dots> = map snd (rev (map fst ?S))" using Q by (simp add: rev_map comp_def case_prod_beta)
  also have "map fst ?S = sort_key fst (map fst (stamped ps))" by (rule sort_key_map_fst)
  also have "map fst (stamped ps) = ps" by (rule fst_stamped)
  finally show ?thesis .
qed

theorem priority_tasks_order_witness:
  "fst (priority.drain [0, 0, 0] (push_all [(priority_low, ''a''), (priority_high, ''b''), (priority_high, ''c'')])) = [''c'', ''b'', ''a'']"
  using priority_tasks_order [of "[(priority_low, ''a''), (priority_high, ''b''), (priority_high, ''c'')]"]
  by (simp add: priority_low_def priority_high_def numeral_3_eq_3)

end
