(* ===== verification/Zi_Task_Manager.thy ===== *)
theory Zi_Task_Manager
  imports Zi_Monitor Zi_Tasks
begin

text \<open>
  The task manager, \<^verbatim>\<open>zi/concurrency/detail/task_manager_impl.hpp\<close>, over any of the containers of
  \<^verbatim>\<open>Zi_Tasks\<close>: its member functions as critical sections of a monitor, with the worker threads it creates.
  \<^verbatim>\<open>priority_task_manager_impl.hpp\<close> and the class of the same name in \<^verbatim>\<open>thread_pool.hpp\<close> have the same
  sections, with the push of their container.

  \<open>tm_spawned\<close> is the number of the threads that \<open>thread::start\<close> has created and that have not entered
  \<open>run\<close> yet; \<open>tm_history\<close> records what was pushed and what was handed to the workers. The assertions of
  \<open>start\<close> are those of a release build, that is none; counts are natural numbers. A function without a
  result returns \<open>True\<close>.
\<close>

section \<open>The class\<close>

datatype tm_state = IDLE | STARTING | RUNNING | STOPPING

record 'a history =
  h_pushed :: "'a list"
  h_handed :: "'a list"
  h_cleared :: bool
  h_early :: bool

record ('c, 'a) task_manager =
  worker_count :: nat
  worker_limit :: nat
  idle_workers :: nat
  active_workers :: nat
  max_size :: nat
  tm_state :: tm_state
  tm_tasks :: 'c
  tm_spawned :: nat
  tm_history :: "'a history"

datatype tm_cv = Workers_Cv | Manager_Cv

datatype ('p, 'a) tm_op =
  Push 'p 'a | Clear | Add_Workers nat | Remove_Workers nat | Start | Stop bool | Enter | Work nat

type_synonym ('c, 'p, 'a) tm_section = "(('c, 'a) task_manager, tm_cv, ('p, 'a) tm_op) critical"

definition tm_new :: "nat \<Rightarrow> nat \<Rightarrow> nat \<Rightarrow> 'c \<Rightarrow> ('c, 'a) task_manager" where
  "tm_new cpu_count limit bound tasks =
     \<lparr>worker_count = 0, worker_limit = (if limit > 0 then limit else cpu_count), idle_workers = 0, active_workers = 0,
      max_size = bound, tm_state = IDLE, tm_tasks = tasks, tm_spawned = 0,
      tm_history = \<lparr>h_pushed = [], h_handed = [], h_cleared = False, h_early = False\<rparr>\<rparr>"

text \<open>The loop that creates threads, and whether the caller then waits.\<close>

fun start_workers :: "nat \<Rightarrow> ('c, 'a) task_manager \<Rightarrow> ('c, 'a) task_manager" where
  "start_workers 0 m = m"
| "start_workers (Suc cnt) m =
     (if active_workers m \<le> worker_limit m
      then start_workers cnt (m\<lparr>tm_spawned := tm_spawned m + 1, active_workers := active_workers m + 1\<rparr>)
      else m)"

definition create_workers_nl :: "nat \<Rightarrow> ('c, 'a) task_manager \<Rightarrow> bool \<times> ('c, 'a) task_manager" where
  "create_workers_nl cnt m =
     (if cnt \<le> 0 \<or> active_workers m \<ge> worker_limit m then (False, m) else (True, start_workers cnt m))"

text \<open>The loop \<open>while ( worker_count_ != active_workers_ ) manager_cv_.wait( mutex_ )\<close> tests before every wait.\<close>

definition kill_workers_nl ::
  "nat \<Rightarrow> ('c, 'a) task_manager \<Rightarrow> bool \<times> ('c, 'a) task_manager \<times> tm_cv notify list" where
  "kill_workers_nl cnt m =
     (if cnt \<le> 0 \<or> active_workers m \<le> 0 then (False, m, [])
      else let m = m\<lparr>active_workers := (if cnt > active_workers m then 0 else active_workers m - cnt)\<rparr>
           in (worker_count m \<noteq> active_workers m, m, [All Workers_Cv]))"

definition add_workers :: "nat \<Rightarrow> ('c, 'a) task_manager \<Rightarrow> ('c, 'p, 'a) tm_section" where
  "add_workers cnt m =
     (if cnt \<le> 0 then (Return True, m, [])
      else let m = m\<lparr>worker_limit := worker_limit m + cnt\<rparr>
           in if tm_state m = IDLE \<or> tm_state m = STOPPING then (Return True, m, [])
              else let (wait, m) = create_workers_nl cnt m
                   in (if wait then Wait Manager_Cv (Add_Workers cnt) else Return True, m, []))"

definition remove_workers_check :: "nat \<Rightarrow> ('c, 'a) task_manager \<Rightarrow> ('c, 'p, 'a) tm_section" where
  "remove_workers_check cnt m =
     (if worker_count m \<noteq> active_workers m then (Wait Manager_Cv (Remove_Workers cnt), m, []) else (Return True, m, []))"

definition remove_workers :: "nat \<Rightarrow> ('c, 'a) task_manager \<Rightarrow> ('c, 'p, 'a) tm_section" where
  "remove_workers cnt m =
     (if cnt \<le> 0 \<or> worker_limit m \<le> 0 then (Return True, m, [])
      else let cnt = (if cnt > worker_limit m then worker_limit m else cnt);
               m = m\<lparr>worker_limit := worker_limit m - cnt\<rparr>
           in if tm_state m = IDLE \<or> tm_state m = STOPPING then (Return True, m, [])
              else let (wait, m, ns) = kill_workers_nl cnt m
                   in (if wait then Wait Manager_Cv (Remove_Workers cnt) else Return True, m, ns))"

definition start_after :: "('c, 'a) task_manager \<Rightarrow> ('c, 'p, 'a) tm_section" where
  "start_after m = (Return True, m\<lparr>tm_state := RUNNING\<rparr>, [])"

definition tm_start :: "('c, 'a) task_manager \<Rightarrow> ('c, 'p, 'a) tm_section" where
  "tm_start m =
     (if tm_state m \<noteq> IDLE then (Return False, m, [])
      else let (wait, m) = create_workers_nl (worker_limit m) (m\<lparr>tm_state := STARTING\<rparr>)
           in if wait then (Wait Manager_Cv Start, m, []) else start_after m)"

definition stop_check :: "bool \<Rightarrow> ('c, 'a) task_manager \<Rightarrow> ('c, 'p, 'a) tm_section" where
  "stop_check and_join m =
     (if worker_count m \<noteq> active_workers m then (Wait Manager_Cv (Stop and_join), m, [])
      else (Return True, m\<lparr>tm_state := IDLE\<rparr>, []))"

definition clear_tasks :: "('c, 'p, 'a) task_ops \<Rightarrow> ('c, 'a) task_manager \<Rightarrow> ('c, 'a) task_manager" where
  "clear_tasks K m = m\<lparr>tm_tasks := tc_clear K (tm_tasks m), tm_history := (tm_history m)\<lparr>h_cleared := True\<rparr>\<rparr>"

definition tm_stop :: "('c, 'p, 'a) task_ops \<Rightarrow> bool \<Rightarrow> ('c, 'a) task_manager \<Rightarrow> ('c, 'p, 'a) tm_section" where
  "tm_stop K and_join m =
     (if tm_state m \<noteq> RUNNING then (Return True, m, [])
      else let m = m\<lparr>tm_state := STOPPING\<rparr>;
               m = (if \<not> and_join then clear_tasks K m else m);
               (wait, m, ns) = kill_workers_nl (active_workers m) m
           in if wait then (Wait Manager_Cv (Stop and_join), m, ns) else (Return True, m\<lparr>tm_state := IDLE\<rparr>, ns))"

definition tm_push :: "('c, 'p, 'a) task_ops \<Rightarrow> 'p \<Rightarrow> 'a \<Rightarrow> ('c, 'a) task_manager \<Rightarrow> ('c, 'p, 'a) tm_section" where
  "tm_push K p task m =
     (Return True,
      m\<lparr>tm_tasks := tc_push K p task (tm_tasks m),
        tm_history := (tm_history m)\<lparr>h_pushed := task # h_pushed (tm_history m),
          h_early := h_early (tm_history m) \<or> tm_state m = STARTING\<rparr>\<rparr>,
      if tm_state m = RUNNING \<and> idle_workers m > 0 then [All Workers_Cv] else [])"

definition tm_clear :: "('c, 'p, 'a) task_ops \<Rightarrow> ('c, 'a) task_manager \<Rightarrow> ('c, 'p, 'a) tm_section" where
  "tm_clear K m = (Return True, clear_tasks K m, [])"

text \<open>\<open>run\<close>: the first section, and the section of the loop. \<open>Return True\<close> of the loop: the worker leaves
  the section and executes the task it has, if any.\<close>

definition run_enter :: "('c, 'a) task_manager \<Rightarrow> ('c, 'p, 'a) tm_section" where
  "run_enter m =
     (let m = m\<lparr>worker_count := worker_count m + 1, tm_spawned := tm_spawned m - 1\<rparr>
      in (Return True, m, if worker_count m = active_workers m then [One Manager_Cv] else []))"

definition run_loop :: "('c, 'p, 'a) task_ops \<Rightarrow> nat \<Rightarrow> ('c, 'a) task_manager \<Rightarrow> ('c, 'p, 'a) tm_section" where
  "run_loop K rand m =
     (if worker_count m \<le> active_workers m \<and> tc_size K (tm_tasks m) = 0
      then (Wait Workers_Cv (Work rand), m\<lparr>idle_workers := idle_workers m + 1\<rparr>, [])
      else if worker_count m \<le> active_workers m \<or> tm_state m = STOPPING \<and> tc_size K (tm_tasks m) \<noteq> 0
      then (case tc_get_pop_front K rand (tm_tasks m) of
              Some (task, tasks) \<Rightarrow>
                (Return True, m\<lparr>tm_tasks := tasks, tm_history := (tm_history m)\<lparr>h_handed := task # h_handed (tm_history m)\<rparr>\<rparr>, [])
            | None \<Rightarrow> (Return True, m, []))
      else let m = m\<lparr>worker_count := worker_count m - 1\<rparr>
           in (Return False, m, if worker_count m = active_workers m then [One Manager_Cv] else []))"

definition run_loop_awake :: "('c, 'p, 'a) task_ops \<Rightarrow> nat \<Rightarrow> ('c, 'a) task_manager \<Rightarrow> ('c, 'p, 'a) tm_section" where
  "run_loop_awake K rand m = run_loop K rand (m\<lparr>idle_workers := idle_workers m - 1\<rparr>)"

section \<open>The threads\<close>

text \<open>Clients push and clear, managers start, stop and change the number of workers; a fresh thread runs
  \<open>run\<close> once the manager has created it.\<close>

datatype tm_hold = Client | Manager | Fresh | Worker | Finished

fun tm_may :: "('p \<Rightarrow> 'a \<Rightarrow> 'c \<Rightarrow> bool) \<Rightarrow> ('p, 'a) tm_op \<Rightarrow> tm_hold \<Rightarrow> ('c, 'a) task_manager \<Rightarrow> bool" where
  "tm_may may (Push p t) h m = (h = Client \<and> may p t (tm_tasks m))"
| "tm_may may Clear h m = (h = Client)"
| "tm_may may Enter h m = (h = Fresh \<and> 0 < tm_spawned m)"
| "tm_may may (Work r) h m = (h = Worker)"
| "tm_may may op h m = (h = Manager)"

fun tm_call :: "('c, 'p, 'a) task_ops \<Rightarrow> ('p, 'a) tm_op \<Rightarrow> ('c, 'a) task_manager \<Rightarrow> ('c, 'p, 'a) tm_section" where
  "tm_call K (Push p t) m = tm_push K p t m"
| "tm_call K Clear m = tm_clear K m"
| "tm_call K (Add_Workers n) m = add_workers n m"
| "tm_call K (Remove_Workers n) m = remove_workers n m"
| "tm_call K Start m = tm_start m"
| "tm_call K (Stop j) m = tm_stop K j m"
| "tm_call K Enter m = run_enter m"
| "tm_call K (Work r) m = run_loop K r m"

text \<open>What follows the wait: the creation of workers tests nothing, the other loops test again.\<close>

fun tm_resume :: "('c, 'p, 'a) task_ops \<Rightarrow> ('p, 'a) tm_op \<Rightarrow> ('c, 'a) task_manager \<Rightarrow> ('c, 'p, 'a) tm_section" where
  "tm_resume K (Remove_Workers n) m = remove_workers_check n m"
| "tm_resume K Start m = start_after m"
| "tm_resume K (Stop j) m = stop_check j m"
| "tm_resume K (Work r) m = run_loop_awake K r m"
| "tm_resume K op m = (Return True, m, [])"

fun tm_after :: "('p, 'a) tm_op \<Rightarrow> bool \<Rightarrow> tm_hold" where
  "tm_after (Push p t) b = Client"
| "tm_after Clear b = Client"
| "tm_after Enter b = Worker"
| "tm_after (Work r) b = (if b then Worker else Finished)"
| "tm_after op b = Manager"

definition tm_monitor ::
  "('c, 'p, 'a) task_ops \<Rightarrow> ('p \<Rightarrow> 'a \<Rightarrow> 'c \<Rightarrow> bool) \<Rightarrow> (('c, 'a) task_manager, tm_hold, tm_cv, ('p, 'a) tm_op) monitor" where
  "tm_monitor K may = \<lparr>mo_may = tm_may may, mo_call = \<lambda>op late. tm_call K op, mo_resume = \<lambda>op late. tm_resume K op,
     mo_timed = \<lambda>op. False, mo_expire = \<lambda>op m. (Return False, m, []), mo_after = tm_after\<rparr>"

type_synonym ('p, 'a) tm_phase = "(tm_hold, tm_cv, ('p, 'a) tm_op) phase"

section \<open>The invariant\<close>

fun working :: "('p, 'a) tm_phase \<Rightarrow> bool" where
  "working (Run h) = (h = Worker)"
| "working (Parked cv op) = (cv = Workers_Cv)"
| "working (Woken (Work r)) = True"
| "working _ = False"

fun idling :: "('p, 'a) tm_phase \<Rightarrow> bool" where
  "idling (Parked cv op) = (cv = Workers_Cv)"
| "idling (Woken (Work r)) = True"
| "idling _ = False"

fun managing :: "('p, 'a) tm_phase \<Rightarrow> bool" where
  "managing (Run h) = (h = Manager)"
| "managing (Parked cv op) = (cv = Manager_Cv)"
| "managing (Woken (Work r)) = False"
| "managing (Woken op) = True"
| "managing _ = False"

fun starting :: "('p, 'a) tm_phase \<Rightarrow> bool" where
  "starting (Parked cv op) = (op = Start)"
| "starting (Woken op) = (op = Start)"
| "starting _ = False"

fun stopping :: "('p, 'a) tm_phase \<Rightarrow> bool" where
  "stopping (Parked cv (Stop j)) = True"
| "stopping (Woken (Stop j)) = True"
| "stopping _ = False"

fun tm_waits_on :: "('p, 'a) tm_op \<Rightarrow> tm_cv option" where
  "tm_waits_on (Work r) = Some Workers_Cv"
| "tm_waits_on Start = Some Manager_Cv"
| "tm_waits_on (Stop j) = Some Manager_Cv"
| "tm_waits_on (Add_Workers n) = Some Manager_Cv"
| "tm_waits_on (Remove_Workers n) = Some Manager_Cv"
| "tm_waits_on op = None"

fun tm_phase_ok :: "('p, 'a) tm_phase \<Rightarrow> bool" where
  "tm_phase_ok (Run h) = True"
| "tm_phase_ok (Parked cv op) = (tm_waits_on op = Some cv)"
| "tm_phase_ok (Woken op) = (tm_waits_on op \<noteq> None)"
| "tm_phase_ok (Timed_Out op) = False"

text \<open>The numbers of the workers, of the idle ones, of the managers, and of the threads asleep on either
  variable.\<close>

definition tm_counts :: "('c, 'a) task_manager \<Rightarrow> nat \<Rightarrow> nat \<Rightarrow> nat \<Rightarrow> nat \<Rightarrow> nat \<Rightarrow> bool" where
  "tm_counts m w i g pw pm \<longleftrightarrow>
     worker_count m = w \<and> idle_workers m = i \<and> active_workers m \<le> w + tm_spawned m \<and> pw \<le> active_workers m \<and>
     (tm_state m = IDLE \<or> tm_state m = STOPPING \<longrightarrow> active_workers m = 0) \<and>
     (g = 1 \<and> 0 < pm \<longrightarrow> worker_count m \<noteq> active_workers m \<or> 0 < tm_spawned m)"

lemma tm_waits_on_cases:
  assumes "tm_waits_on op \<noteq> None"
  obtains r where "op = Work r" | "op = Start" | j where "op = Stop j" | n where "op = Add_Workers n" | n where "op = Remove_Workers n"
  using assms by (cases op) auto

lemma wake_roles:
  assumes "tm_phase_ok p"
  shows "working (wake p) = working p" "idling (wake p) = idling p" "managing (wake p) = managing p" "tm_phase_ok (wake p)"
proof -
  have "working (wake p) = working p \<and> idling (wake p) = idling p \<and> managing (wake p) = managing p \<and> tm_phase_ok (wake p)"
  proof (cases p)
    case (Parked cv op)
    with assms show ?thesis by (cases op) auto
  qed (use assms in auto)
  then show "working (wake p) = working p" "idling (wake p) = idling p" "managing (wake p) = managing p" "tm_phase_ok (wake p)"
    by simp_all
qed

lemma notified_roles:
  assumes "notified ns ps ps'" "\<forall>p \<in> set ps. tm_phase_ok p"
  shows "(\<forall>p \<in> set ps'. tm_phase_ok p) \<and> num_of working ps' = num_of working ps \<and> num_of idling ps' = num_of idling ps \<and>
    num_of managing ps' = num_of managing ps"
  using assms
proof induction
  case (all ns cv ps ps')
  have "\<forall>p \<in> set (notify_all cv ps). tm_phase_ok p"
    using all.prems by (auto simp: notify_all_def wake_roles)
  note IH = all.IH [OF this]
  have Q: "num_of Q (notify_all cv ps) = num_of Q ps"
    if "\<And>p. tm_phase_ok p \<Longrightarrow> Q (wake p) = Q p" for Q
    unfolding num_of_def notify_all_def using all.prems by (induction ps) (auto simp: that)
  have "num_of working (notify_all cv ps) = num_of working ps" "num_of idling (notify_all cv ps) = num_of idling ps"
    "num_of managing (notify_all cv ps) = num_of managing ps"
    by (rule Q, erule wake_roles)+
  with IH show ?case by simp
next
  case (one t ps cv ns ps')
  have t: "tm_phase_ok (ps ! t)" using one by simp
  then have "\<forall>p \<in> set (ps[t := wake (ps ! t)]). tm_phase_ok p"
    using one.prems set_update_subset_insert [of ps t "wake (ps ! t)"] wake_roles(4) by blast
  moreover have "num_of Q (ps[t := wake (ps ! t)]) = num_of Q ps" if "Q (wake (ps ! t)) = Q (ps ! t)" for Q
    using num_of_update [OF one(1), of Q "wake (ps ! t)"] that by simp
  ultimately show ?case using one.IH wake_roles [OF t] by simp
qed auto

lemma parked_roles:
  assumes "\<forall>p \<in> set ps. tm_phase_ok p"
  shows "num_of (parked_on Workers_Cv) ps \<le> num_of idling ps" "num_of (parked_on Manager_Cv) ps \<le> num_of managing ps"
    "num_of idling ps \<le> num_of working ps"
proof -
  have "parked_on Workers_Cv p \<Longrightarrow> idling p" "parked_on Manager_Cv p \<Longrightarrow> managing p" "idling p \<Longrightarrow> working p" for p :: "('a, 'b) tm_phase"
    by (auto elim: parked_on.elims idling.elims)
  then show "num_of (parked_on Workers_Cv) ps \<le> num_of idling ps" "num_of (parked_on Manager_Cv) ps \<le> num_of managing ps"
    "num_of idling ps \<le> num_of working ps"
    by (auto intro!: num_of_mono)
qed

lemma tm_transition:
  assumes ok: "\<forall>p \<in> set ps. tm_phase_ok p" and t: "t < length ps" "ps ! t = p" and n: "notified ns (ps[t := q]) ps'"
    and q: "tm_phase_ok q"
  obtains w i g pw pm where "num_of working ps' = w" "num_of idling ps' = i" "num_of managing ps' = g"
    "num_of (parked_on Workers_Cv) ps' = pw" "num_of (parked_on Manager_Cv) ps' = pm" "\<forall>p \<in> set ps'. tm_phase_ok p"
    "w + of_bool (working p) = num_of working ps + of_bool (working q)"
    "i + of_bool (idling p) = num_of idling ps + of_bool (idling q)"
    "g + of_bool (managing p) = num_of managing ps + of_bool (managing q)"
    "pw + of_bool (parked_on Workers_Cv p) \<le> num_of (parked_on Workers_Cv) ps + of_bool (parked_on Workers_Cv q)"
    "pm + of_bool (parked_on Manager_Cv p) \<le> num_of (parked_on Manager_Cv) ps + of_bool (parked_on Manager_Cv q)"
    "All Workers_Cv \<in> set ns \<Longrightarrow> pw = 0"
    "One Manager_Cv \<in> set ns \<Longrightarrow> pm \<le> num_of (parked_on Manager_Cv) (ps[t := q]) - 1"
    "pm + of_bool (managing q) \<le> g + of_bool (parked_on Manager_Cv q)" "pw \<le> i" "i \<le> w"
    "of_bool (idling p) \<le> num_of idling ps"
proof -
  have ok': "\<forall>p \<in> set (ps[t := q]). tm_phase_ok p" using ok q set_update_subset_insert [of ps t q] by blast
  note R = notified_roles [OF n ok']
  note U = num_of_update [OF t(1), unfolded t(2)]
  have "\<forall>p \<in> set (ps[t := Run Finished]). tm_phase_ok p"
    using ok set_update_subset_insert [of ps t "Run Finished"] by auto
  from parked_roles(2) [OF this]
  have M: "num_of (parked_on Manager_Cv) (ps[t := q]) + of_bool (managing q) \<le>
      num_of managing (ps[t := q]) + of_bool (parked_on Manager_Cv q)"
    using U [of "parked_on Manager_Cv" q] U [of "parked_on Manager_Cv" "Run Finished"]
      U [of managing q] U [of managing "Run Finished"] by simp
  show ?thesis
  proof (rule that [OF refl refl refl refl refl])
    show "num_of (parked_on Manager_Cv) ps' + of_bool (managing q) \<le> num_of managing ps' + of_bool (parked_on Manager_Cv q)"
      using M R notified_parked_le [OF n, of Manager_Cv] by simp
    show "num_of (parked_on Workers_Cv) ps' + of_bool (parked_on Workers_Cv p)
        \<le> num_of (parked_on Workers_Cv) ps + of_bool (parked_on Workers_Cv q)"
      using notified_parked_le [OF n, of Workers_Cv] U [of "parked_on Workers_Cv" q] by simp
    show "num_of (parked_on Manager_Cv) ps' + of_bool (parked_on Manager_Cv p)
        \<le> num_of (parked_on Manager_Cv) ps + of_bool (parked_on Manager_Cv q)"
      using notified_parked_le [OF n, of Manager_Cv] U [of "parked_on Manager_Cv" q] by simp
    show "of_bool (idling p) \<le> num_of idling ps" using num_of_pos [OF t(1), of idling] by (simp add: t(2) Suc_le_eq)
  qed (use R U [of working q] U [of idling q] U [of managing q] notified_all_none [OF n] notified_one_less [OF n]
      parked_roles [of ps'] in auto)
qed

section \<open>The sections keep the counts\<close>

lemma start_workers_eq:
  "\<exists>k. start_workers n m = m\<lparr>tm_spawned := tm_spawned m + k, active_workers := active_workers m + k\<rparr> \<and>
     (0 < n \<and> active_workers m \<le> worker_limit m \<longrightarrow> 0 < k)"
proof (induction n m rule: start_workers.induct)
  case (1 m)
  show ?case by (intro exI [of _ 0]) simp
next
  case (2 n m)
  show ?case
  proof (cases "active_workers m \<le> worker_limit m")
    case True
    from 2 [OF True] obtain k where "start_workers n (m\<lparr>tm_spawned := tm_spawned m + 1, active_workers := active_workers m + 1\<rparr>) =
        m\<lparr>tm_spawned := tm_spawned m + 1 + k, active_workers := active_workers m + 1 + k\<rparr>" by auto
    with True show ?thesis by (intro exI [of _ "Suc k"]) simp
  next
    case False
    then show ?thesis by (intro exI [of _ 0]) simp
  qed
qed

lemma create_workers_eq:
  assumes "create_workers_nl n m = (b, m')"
  obtains k where "m' = m\<lparr>tm_spawned := tm_spawned m + k, active_workers := active_workers m + k\<rparr>" "b \<Longrightarrow> 0 < k" "\<not> b \<Longrightarrow> k = 0"
proof (cases b)
  case True
  then have "m' = start_workers n m" "0 < n" "active_workers m < worker_limit m"
    using assms by (auto simp: create_workers_nl_def split: if_splits)
  with start_workers_eq [of n m] True show ?thesis by (auto intro: that)
next
  case False
  then have "m' = m" using assms by (auto simp: create_workers_nl_def split: if_splits)
  with False show ?thesis by (intro that [of 0]) simp_all
qed

text \<open>What changes in the number of threads when thread \<open>p\<close> becomes \<open>q\<close>, with the notifications \<open>ns\<close>.\<close>

definition tm_delta :: "('p, 'a) tm_phase \<Rightarrow> ('p, 'a) tm_phase \<Rightarrow> tm_cv notify list \<Rightarrow> nat \<Rightarrow> nat \<Rightarrow> nat \<Rightarrow> nat \<Rightarrow> nat \<Rightarrow>
    nat \<Rightarrow> nat \<Rightarrow> nat \<Rightarrow> nat \<Rightarrow> nat \<Rightarrow> bool" where
  "tm_delta p q ns w i g pw pm w' i' g' pw' pm' \<longleftrightarrow>
     w' + of_bool (working p) = w + of_bool (working q) \<and> i' + of_bool (idling p) = i + of_bool (idling q) \<and>
     g' + of_bool (managing p) = g + of_bool (managing q) \<and>
     pw' + of_bool (parked_on Workers_Cv p) \<le> pw + of_bool (parked_on Workers_Cv q) \<and>
     pm' + of_bool (parked_on Manager_Cv p) \<le> pm + of_bool (parked_on Manager_Cv q) \<and>
     (All Workers_Cv \<in> set ns \<longrightarrow> pw' = 0) \<and>
     (One Manager_Cv \<in> set ns \<longrightarrow> \<not> managing q \<longrightarrow> g' = 1 \<longrightarrow> pm' = 0) \<and>
     pm' + of_bool (managing q) \<le> g' + of_bool (parked_on Manager_Cv q) \<and> pw' \<le> i' \<and> i' \<le> w' \<and> of_bool (idling p) \<le> i"

lemmas tm_op_defs = tm_push_def tm_clear_def clear_tasks_def add_workers_def remove_workers_def remove_workers_check_def
  start_after_def tm_start_def stop_check_def tm_stop_def run_enter_def run_loop_def run_loop_awake_def kill_workers_nl_def

lemma tm_monitor_simps [simp]:
  "mo_may (tm_monitor K may) = tm_may may" "mo_call (tm_monitor K may) op late = tm_call K op"
  "mo_resume (tm_monitor K may) op late = tm_resume K op" "mo_timed (tm_monitor K may) op = False"
  "mo_after (tm_monitor K may) = tm_after"
  by (simp_all add: tm_monitor_def)

lemma create_counts:
  assumes "create_workers_nl n m = (b, m')" "tm_counts m w i g pw pm" "tm_state m = STARTING \<or> tm_state m = RUNNING"
    "tm_delta (Run Manager) q ns w i g pw pm w' i' g' pw' pm'" "ns = []"
    "q = (if b then Parked Manager_Cv op else Run Manager)"
  shows "tm_counts m' w' i' g' pw' pm'"
  using assms by (cases rule: create_workers_eq [OF assms(1)]) (auto simp: tm_counts_def tm_delta_def)

lemma kill_counts:
  assumes "kill_workers_nl n m = (b, m', ns)" "tm_counts m w i g pw pm"
    "tm_delta (Run Manager) q ns w i g pw pm w' i' g' pw' pm'"
    "q = (if b then Parked Manager_Cv op else Run Manager)"
  shows "tm_counts m' w' i' g' pw' pm'"
  using assms by (auto simp: tm_counts_def tm_delta_def kill_workers_nl_def Let_def split: if_splits)

text \<open>The three ways out of the section of a worker.\<close>

lemma run_loop_cases:
  assumes "run_loop K rand m = (r, m', ns)"
  obtains (sleep) "tc_size K (tm_tasks m) = 0" "r = Wait Workers_Cv (Work rand)" "m' = m\<lparr>idle_workers := idle_workers m + 1\<rparr>"
      "ns = []" "worker_count m \<le> active_workers m"
    | (work) "r = Return True" "ns = []" "tc_size K (tm_tasks m) \<noteq> 0"
      "case tc_get_pop_front K rand (tm_tasks m) of None \<Rightarrow> m' = m | Some (task, tasks) \<Rightarrow>
        m' = m\<lparr>tm_tasks := tasks, tm_history := (tm_history m)\<lparr>h_handed := task # h_handed (tm_history m)\<rparr>\<rparr>"
    | (leave) "active_workers m < worker_count m" "r = Return False" "m' = m\<lparr>worker_count := worker_count m - 1\<rparr>"
      "ns = (if worker_count m - 1 = active_workers m then [One Manager_Cv] else [])"
      "tm_state m = STOPPING \<Longrightarrow> tc_size K (tm_tasks m) = 0"
proof -
  consider "worker_count m \<le> active_workers m" "tc_size K (tm_tasks m) = 0"
    | "worker_count m \<le> active_workers m \<or> tm_state m = STOPPING" "tc_size K (tm_tasks m) \<noteq> 0"
    | "active_workers m < worker_count m" "tm_state m \<noteq> STOPPING \<or> tc_size K (tm_tasks m) = 0"
    by linarith
  then show ?thesis
  proof cases
    case 1
    with assms show ?thesis by (intro sleep) (auto simp: run_loop_def)
  next
    case 2
    with assms show ?thesis by (intro work) (auto simp: run_loop_def split: option.splits prod.splits)
  next
    case 3
    with assms show ?thesis by (intro leave) (auto simp: run_loop_def Let_def)
  qed
qed

lemma run_loop_counts:
  assumes c: "run_loop K rand m = (r, m', ns)" and m: "tm_counts m w i g pw pm" and p: "p = Run Worker"
    and d: "tm_delta p (phase_after (tm_monitor K may) (Work rand) r) ns w i g pw pm w' i' g' pw' pm'"
  shows "tm_counts m' w' i' g' pw' pm'"
  using c
proof (cases rule: run_loop_cases)
  case sleep
  with m d show ?thesis by (auto simp: tm_counts_def tm_delta_def p)
next
  case work
  then have "worker_count m' = worker_count m" "idle_workers m' = idle_workers m"
    "active_workers m' = active_workers m" "tm_spawned m' = tm_spawned m" "tm_state m' = tm_state m"
    by (auto split: option.splits)
  with m d work(1,2) show ?thesis by (auto simp: tm_counts_def tm_delta_def p)
next
  case leave
  with m d show ?thesis by (auto simp: tm_counts_def tm_delta_def p split: if_splits)
qed

lemma tm_call_counts:
  assumes c: "tm_call K op m = (r, m', ns)" "tm_may may op h m" and m: "tm_counts m w i g pw pm"
    and d: "tm_delta (Run h) (phase_after (tm_monitor K may) op r) ns w i g pw pm w' i' g' pw' pm'"
  shows "tm_counts m' w' i' g' pw' pm'"
proof (cases op)
  case (Push p t)
  with c have e: "r = Return True" "h = Client" "worker_count m' = worker_count m" "idle_workers m' = idle_workers m"
    "active_workers m' = active_workers m" "tm_spawned m' = tm_spawned m" "tm_state m' = tm_state m"
    by (auto simp: tm_push_def)
  with m d show ?thesis by (auto simp: tm_counts_def tm_delta_def Push)
next
  case Clear
  with c have e: "r = Return True" "h = Client" "worker_count m' = worker_count m" "idle_workers m' = idle_workers m"
    "active_workers m' = active_workers m" "tm_spawned m' = tm_spawned m" "tm_state m' = tm_state m"
    by (auto simp: tm_clear_def clear_tasks_def)
  with m d show ?thesis by (auto simp: tm_counts_def tm_delta_def Clear)
next
  case (Add_Workers n)
  let ?m = "m\<lparr>worker_limit := worker_limit m + n\<rparr>"
  have h: "h = Manager" using c Add_Workers by simp
  obtain b m1 where cr: "create_workers_nl n ?m = (b, m1)" by (cases "create_workers_nl n ?m")
  show ?thesis
  proof (cases "0 < n \<and> tm_state m \<noteq> IDLE \<and> tm_state m \<noteq> STOPPING")
    case True
    then have e: "r = (if b then Wait Manager_Cv (Add_Workers n) else Return True)" "m' = m1" "ns = []"
      using c(1) cr by (auto simp: Add_Workers add_workers_def Let_def)
    have s: "tm_state ?m = STARTING \<or> tm_state ?m = RUNNING" using True by (cases "tm_state m") auto
    have "tm_counts ?m w i g pw pm" using m by (simp add: tm_counts_def)
    from create_counts [where op = "Add_Workers n", OF cr this s d [unfolded h] e(3)] show ?thesis unfolding e(1,2) by (simp add: Add_Workers)
  next
    case False
    with c(1) have e: "m' = m \<or> m' = ?m" "r = Return True" "ns = []"
      by (auto simp: Add_Workers add_workers_def Let_def split: if_splits)
    with m d show ?thesis by (auto simp: Add_Workers h tm_counts_def tm_delta_def)
  qed
next
  case (Remove_Workers n)
  have h: "h = Manager" using c Remove_Workers by simp
  let ?n = "if n > worker_limit m then worker_limit m else n"
  let ?m = "m\<lparr>worker_limit := worker_limit m - ?n\<rparr>"
  obtain b m1 ns1 where k: "kill_workers_nl ?n ?m = (b, m1, ns1)" by (cases "kill_workers_nl ?n ?m")
  show ?thesis
  proof (cases "0 < n \<and> 0 < worker_limit m \<and> tm_state m \<noteq> IDLE \<and> tm_state m \<noteq> STOPPING")
    case True
    then have e: "r = (if b then Wait Manager_Cv (Remove_Workers ?n) else Return True)" "m' = m1" "ns = ns1"
      using c(1) k by (auto simp: Remove_Workers remove_workers_def Let_def)
    have "tm_counts ?m w i g pw pm" using m by (simp add: tm_counts_def)
    from kill_counts [where op = "Remove_Workers ?n", OF k this d [unfolded h e(3)]] show ?thesis unfolding e(1,2) by (simp add: Remove_Workers)
  next
    case False
    with c(1) have e: "m' = m \<or> m' = ?m" "r = Return True" "ns = []"
      by (auto simp: Remove_Workers remove_workers_def Let_def split: if_splits)
    with m d show ?thesis by (auto simp: Remove_Workers h tm_counts_def tm_delta_def)
  qed
next
  case Start
  have h: "h = Manager" using c Start by simp
  let ?m = "m\<lparr>tm_state := STARTING\<rparr>"
  obtain b m1 where cr: "create_workers_nl (worker_limit m) ?m = (b, m1)" by (cases "create_workers_nl (worker_limit m) ?m")
  show ?thesis
  proof (cases "tm_state m = IDLE")
    case True
    then have e: "r = (if b then Wait Manager_Cv Start else Return True)" "m' = (if b then m1 else m1\<lparr>tm_state := RUNNING\<rparr>)" "ns = []"
      using c(1) cr by (auto simp: Start tm_start_def start_after_def split: if_splits)
    have "tm_counts ?m w i g pw pm" using m by (auto simp: tm_counts_def)
    from create_counts [where op = Start, OF cr this _ d [unfolded h] e(3)] have "tm_counts m1 w' i' g' pw' pm'" unfolding e(1) by (simp add: Start)
    then show ?thesis unfolding e(2) by (auto simp: tm_counts_def)
  next
    case False
    with c(1) m d show ?thesis by (auto simp: Start h tm_start_def tm_counts_def tm_delta_def)
  qed
next
  case (Stop j)
  have h: "h = Manager" using c Stop by simp
  let ?m = "if \<not> j then clear_tasks K (m\<lparr>tm_state := STOPPING\<rparr>) else m\<lparr>tm_state := STOPPING\<rparr>"
  obtain b m1 ns1 where k: "kill_workers_nl (active_workers ?m) ?m = (b, m1, ns1)" by (cases "kill_workers_nl (active_workers ?m) ?m")
  show ?thesis
  proof (cases "tm_state m = RUNNING")
    case True
    then have e: "r = (if b then Wait Manager_Cv (Stop j) else Return True)" "m' = (if b then m1 else m1\<lparr>tm_state := IDLE\<rparr>)" "ns = ns1"
      using c(1) k by (auto simp: Stop tm_stop_def Let_def split: if_splits)
    show ?thesis using k m d
      by (auto simp: e Stop h kill_workers_nl_def clear_tasks_def Let_def tm_counts_def tm_delta_def split: if_splits)
  next
    case False
    with c(1) m d show ?thesis by (auto simp: Stop h tm_stop_def tm_counts_def tm_delta_def)
  qed
next
  case Enter
  with c have e: "r = Return True" "h = Fresh" "m' = m\<lparr>worker_count := worker_count m + 1, tm_spawned := tm_spawned m - 1\<rparr>"
    "ns = (if worker_count m + 1 = active_workers m then [One Manager_Cv] else [])" "0 < tm_spawned m"
    by (simp_all add: run_enter_def Let_def)
  have n: "w' = w + 1" "i' = i" "g' = g" "pw' \<le> pw" "pm' \<le> pm"
    "worker_count m + 1 = active_workers m \<Longrightarrow> g = 1 \<Longrightarrow> pm' = 0"
    using d e(4) unfolding tm_delta_def Enter e(1,2) by simp_all
  have mm: "worker_count m = w" "idle_workers m = i" "active_workers m \<le> w + tm_spawned m" "pw \<le> active_workers m"
    "tm_state m = IDLE \<or> tm_state m = STOPPING \<Longrightarrow> active_workers m = 0"
    using m unfolding tm_counts_def by blast+
  show ?thesis
    unfolding tm_counts_def e(3)
  proof (intro conjI impI)
    assume "g' = 1 \<and> 0 < pm'"
    then show "worker_count (m\<lparr>worker_count := worker_count m + 1, tm_spawned := tm_spawned m - 1\<rparr>) \<noteq>
        active_workers (m\<lparr>worker_count := worker_count m + 1, tm_spawned := tm_spawned m - 1\<rparr>) \<or>
        0 < tm_spawned (m\<lparr>worker_count := worker_count m + 1, tm_spawned := tm_spawned m - 1\<rparr>)"
      using n by auto
  qed (use n mm e(5) in auto)
next
  case (Work rand)
  with c have rl: "run_loop K rand m = (r, m', ns)" and h: "h = Worker" by simp_all
  show ?thesis by (rule run_loop_counts [OF rl m refl d [unfolded h Work]])
qed

lemma tm_resume_counts:
  assumes c: "tm_resume K op m = (r, m', ns)" "tm_waits_on op \<noteq> None" and m: "tm_counts m w i g pw pm"
    and st: "stopping (Woken op) \<Longrightarrow> tm_state m = STOPPING"
    and d: "tm_delta (Woken op) (phase_after (tm_monitor K may) op r) ns w i g pw pm w' i' g' pw' pm'"
  shows "tm_counts m' w' i' g' pw' pm'"
  using c(2)
proof (cases rule: tm_waits_on_cases)
  case (1 rand)
  have "tm_counts (m\<lparr>idle_workers := idle_workers m - 1\<rparr>) w (i - 1) g pw pm" using m by (simp add: tm_counts_def)
  moreover have "tm_delta (Run Worker) (phase_after (tm_monitor K may) (Work rand) r) ns w (i - 1) g pw pm w' i' g' pw' pm'"
    using d unfolding 1 tm_delta_def by (cases "idling (phase_after (tm_monitor K may) (Work rand) r)") auto
  moreover have "run_loop K rand (m\<lparr>idle_workers := idle_workers m - 1\<rparr>) = (r, m', ns)"
    using c(1) unfolding 1 by (simp add: run_loop_awake_def)
  ultimately show ?thesis using run_loop_counts [OF _ _ refl] by metis
next
  case 2
  have "m' = m\<lparr>tm_state := RUNNING\<rparr>" "r = Return True" "ns = []" using c(1) by (simp_all add: 2 start_after_def)
  with m d show ?thesis unfolding 2 by (auto simp: tm_counts_def tm_delta_def)
next
  case (3 j)
  show ?thesis
  proof (cases "worker_count m = active_workers m")
    case True
    with c(1) have "r = Return True" "m' = m\<lparr>tm_state := IDLE\<rparr>" "ns = []" by (simp_all add: 3 stop_check_def)
    moreover have "active_workers m = 0" using m st by (simp add: tm_counts_def 3)
    ultimately show ?thesis using m d unfolding 3 by (auto simp: tm_counts_def tm_delta_def)
  next
    case False
    with c(1) have "r = Wait Manager_Cv (Stop j)" "m' = m" "ns = []" by (simp_all add: 3 stop_check_def)
    with m d False show ?thesis unfolding 3 by (auto simp: tm_counts_def tm_delta_def)
  qed
next
  case (4 n)
  have "m' = m" "r = Return True" "ns = []" using c(1) by (simp_all add: 4)
  with m d show ?thesis unfolding 4 by (auto simp: tm_counts_def tm_delta_def)
next
  case (5 n)
  have "m' = m" "ns = []" "r = (if worker_count m = active_workers m then Return True else Wait Manager_Cv (Remove_Workers n))"
    using c(1) by (auto simp: 5 remove_workers_check_def split: if_splits)
  with m d show ?thesis unfolding 5 by (auto simp: tm_counts_def tm_delta_def split: if_splits)
qed

section \<open>Starting and stopping\<close>

definition tm_state_ok :: "('c, 'a) task_manager \<Rightarrow> nat \<Rightarrow> nat \<Rightarrow> bool" where
  "tm_state_ok m s z \<longleftrightarrow> s = of_bool (tm_state m = STARTING) \<and> z = of_bool (tm_state m = STOPPING)"

lemma create_workers_same:
  assumes "create_workers_nl n m = (b, m')"
  shows "tm_state m' = tm_state m" "tm_tasks m' = tm_tasks m" "tm_history m' = tm_history m"
  by (cases rule: create_workers_eq [OF assms]; simp)+

lemma kill_workers_same:
  assumes "kill_workers_nl n m = (b, m', ns)"
  shows "tm_state m' = tm_state m" "tm_tasks m' = tm_tasks m" "tm_history m' = tm_history m"
  using assms by (auto simp: kill_workers_nl_def Let_def split: if_splits)

lemma tm_call_state:
  assumes c: "tm_call K op m = (r, m', ns)" and m: "tm_state_ok m s z"
    and d: "s' = s + of_bool (starting (phase_after (tm_monitor K may) op r))"
      "z' = z + of_bool (stopping (phase_after (tm_monitor K may) op r))"
  shows "tm_state_ok m' s' z'"
proof (cases op)
  case (Push p t)
  with c m d show ?thesis by (auto simp: tm_push_def tm_state_ok_def)
next
  case Clear
  with c m d show ?thesis by (auto simp: tm_clear_def clear_tasks_def tm_state_ok_def)
next
  case (Add_Workers n)
  obtain b m1 where cr: "create_workers_nl n (m\<lparr>worker_limit := worker_limit m + n\<rparr>) = (b, m1)" by force
  have "tm_state m' = tm_state m" "r = Return True \<or> r = Wait Manager_Cv (Add_Workers n)"
    using c create_workers_same(1) [OF cr] cr by (auto simp: Add_Workers add_workers_def Let_def split: if_splits)
  with m d show ?thesis by (auto simp: tm_state_ok_def Add_Workers)
next
  case (Remove_Workers n)
  let ?n = "if n > worker_limit m then worker_limit m else n"
  obtain b m1 ns1 where k: "kill_workers_nl ?n (m\<lparr>worker_limit := worker_limit m - ?n\<rparr>) = (b, m1, ns1)"
    by (rule prod_cases3)
  have "tm_state m' = tm_state m" "r = Return True \<or> r = Wait Manager_Cv (Remove_Workers ?n)"
    using c kill_workers_same(1) [OF k] k by (auto simp: Remove_Workers remove_workers_def Let_def split: if_splits)
  with m d show ?thesis by (auto simp: tm_state_ok_def Remove_Workers)
next
  case Start
  obtain b m1 where cr: "create_workers_nl (worker_limit m) (m\<lparr>tm_state := STARTING\<rparr>) = (b, m1)" by force
  show ?thesis using c m d create_workers_same(1) [OF cr] cr
    by (auto simp: Start tm_start_def start_after_def tm_state_ok_def split: if_splits)
next
  case (Stop j)
  let ?m = "if \<not> j then clear_tasks K (m\<lparr>tm_state := STOPPING\<rparr>) else m\<lparr>tm_state := STOPPING\<rparr>"
  obtain b m1 ns1 where k: "kill_workers_nl (active_workers ?m) ?m = (b, m1, ns1)" by (rule prod_cases3)
  have "tm_state m1 = STOPPING" using kill_workers_same(1) [OF k] by (simp add: clear_tasks_def)
  then show ?thesis
    using c m d k by (auto simp: Stop tm_stop_def Let_def tm_state_ok_def split: if_splits)
next
  case Enter
  with c m d show ?thesis by (auto simp: run_enter_def Let_def tm_state_ok_def)
next
  case (Work rand)
  with c have "run_loop K rand m = (r, m', ns)" by simp
  then have "tm_state m' = tm_state m" "r = Wait Workers_Cv (Work rand) \<or> r = Return True \<or> r = Return False"
    by (cases rule: run_loop_cases; auto split: option.splits)+
  with m d show ?thesis by (auto simp: tm_state_ok_def Work)
qed

lemma tm_resume_state:
  assumes c: "tm_resume K op m = (r, m', ns)" "tm_waits_on op \<noteq> None" and m: "tm_state_ok m s z"
    and d: "s' + of_bool (starting (Woken op)) = s + of_bool (starting (phase_after (tm_monitor K may) op r))"
      "z' + of_bool (stopping (Woken op)) = z + of_bool (stopping (phase_after (tm_monitor K may) op r))"
      "of_bool (starting (Woken op)) \<le> s" "of_bool (stopping (Woken op)) \<le> z"
  shows "tm_state_ok m' s' z'"
  using c(2)
proof (cases rule: tm_waits_on_cases)
  case (1 rand)
  with c have "run_loop K rand (m\<lparr>idle_workers := idle_workers m - 1\<rparr>) = (r, m', ns)" by (simp add: run_loop_awake_def)
  then have "tm_state m' = tm_state m" "r = Wait Workers_Cv (Work rand) \<or> r = Return True \<or> r = Return False"
    by (cases rule: run_loop_cases; auto split: option.splits)+
  with m d show ?thesis by (auto simp: tm_state_ok_def 1)
qed (use c m d in \<open>auto simp: start_after_def stop_check_def remove_workers_check_def tm_state_ok_def of_bool_def split: if_splits\<close>)

section \<open>The tasks\<close>

text \<open>No task is handed out twice or made up; nothing is lost but by \<open>clear\<close> and \<open>stop\<close>; while there are tasks
  no worker sleeps, unless a task was pushed while the manager was starting.\<close>

definition tm_tasks_ok :: "('c \<Rightarrow> bool) \<Rightarrow> ('c \<Rightarrow> 'a multiset) \<Rightarrow> ('c, 'a) task_manager \<Rightarrow> nat \<Rightarrow> bool" where
  "tm_tasks_ok valid contents m pw \<longleftrightarrow>
     valid (tm_tasks m) \<and>
     mset (h_handed (tm_history m)) + contents (tm_tasks m) \<subseteq># mset (h_pushed (tm_history m)) \<and>
     (\<not> h_cleared (tm_history m) \<longrightarrow>
        mset (h_handed (tm_history m)) + contents (tm_tasks m) = mset (h_pushed (tm_history m))) \<and>
     (\<not> h_early (tm_history m) \<longrightarrow> contents (tm_tasks m) \<noteq> {#} \<longrightarrow> pw = 0)"

lemma tm_tasks_same:
  assumes "tm_tasks_ok valid contents m pw" "tm_tasks m' = tm_tasks m" "tm_history m' = tm_history m" "pw' \<le> pw \<or> pw' = 0"
  shows "tm_tasks_ok valid contents m' pw'"
  using assms by (auto simp: tm_tasks_ok_def)

context task_container
begin

lemma clear_tasks_ok:
  assumes "tm_tasks_ok valid contents m pw"
  shows "tm_tasks_ok valid contents (clear_tasks K m) pw'"
proof -
  have "mset (h_handed (tm_history m)) \<subseteq># mset (h_pushed (tm_history m))"
    using assms by (metis tm_tasks_ok_def mset_subset_eq_add_left subset_mset.order_trans)
  with assms show ?thesis using clear_contents [of "tm_tasks m"] by (simp add: tm_tasks_ok_def clear_tasks_def)
qed

lemma push_tasks_ok:
  assumes "tm_tasks_ok valid contents m pw" "may_push p t (tm_tasks m)"
    "\<not> h_early (tm_history m') \<Longrightarrow> pw' = 0" "tm_tasks m' = tc_push K p t (tm_tasks m)"
    "h_pushed (tm_history m') = t # h_pushed (tm_history m)" "h_handed (tm_history m') = h_handed (tm_history m)"
    "h_cleared (tm_history m') = h_cleared (tm_history m)"
  shows "tm_tasks_ok valid contents m' pw'"
  using assms push_contents [of "tm_tasks m" p t] by (simp add: tm_tasks_ok_def)

lemma run_loop_tasks:
  assumes "run_loop K rand m = (r, m', ns)" "tm_tasks_ok valid contents m pw"
    "pw' \<le> pw + of_bool (parked_on Workers_Cv (phase_after (tm_monitor K may) (Work rand) r))"
  shows "tm_tasks_ok valid contents m' pw'"
  using assms(1)
proof (cases rule: run_loop_cases)
  case sleep
  have "contents (tm_tasks m) = {#}" using sleep(1) assms(2) size_contents by (simp add: tm_tasks_ok_def)
  with assms(2) sleep(3) show ?thesis by (simp add: tm_tasks_ok_def)
next
  case work
  have v: "valid (tm_tasks m)" and ne: "contents (tm_tasks m) \<noteq> {#}"
    using work(3) assms(2) size_contents by (auto simp: tm_tasks_ok_def)
  have pw: "pw' \<le> pw" using assms(3) work(1) by simp
  show ?thesis
  proof (cases "tc_get_pop_front K rand (tm_tasks m)")
    case None
    with v ne pop_none show ?thesis by simp
  next
    case (Some x)
    obtain t c where x: "x = (t, c)" by force
    note P = pop_some [OF v Some [unfolded x]]
    from work(4) Some x have m': "m' = m\<lparr>tm_tasks := c, tm_history := (tm_history m)\<lparr>h_handed := t # h_handed (tm_history m)\<rparr>\<rparr>"
      by simp
    show ?thesis using assms(2) P pw ne by (auto simp: tm_tasks_ok_def m')
  qed
next
  case leave
  with assms(2,3) show ?thesis by (intro tm_tasks_same [OF assms(2)]) auto
qed

lemma tm_call_tasks:
  assumes c: "tm_call K op m = (r, m', ns)" "tm_may may_push op h m" and m: "tm_tasks_ok valid contents m pw"
    and n: "tm_counts m w i g pw pm"
    and d: "tm_delta (Run h) (phase_after (tm_monitor K may_push) op r) ns w i g pw pm w' i' g' pw' pm'"
  shows "tm_tasks_ok valid contents m' pw'"
proof (cases op)
  case (Push p t)
  with c have r: "r = Return True" "h = Client" and ns: "ns = (if tm_state m = RUNNING \<and> idle_workers m > 0 then [All Workers_Cv] else [])"
    by (auto simp: tm_push_def)
  have d': "pw' \<le> pw" "pw' \<le> i" "All Workers_Cv \<in> set ns \<Longrightarrow> pw' = 0" using d unfolding Push r tm_delta_def by auto
  have pw0: "\<not> h_early (tm_history m') \<Longrightarrow> pw' = 0"
  proof -
    assume "\<not> h_early (tm_history m')"
    then have "tm_state m \<noteq> STARTING" using c Push by (auto simp: tm_push_def)
    then consider "tm_state m = RUNNING" | "tm_state m = IDLE \<or> tm_state m = STOPPING" by (cases "tm_state m") auto
    then show "pw' = 0"
    proof cases
      case 1
      with ns d' n show ?thesis by (cases "idle_workers m") (simp_all add: tm_counts_def)
    next
      case 2
      with d' n show ?thesis by (simp add: tm_counts_def)
    qed
  qed
  show ?thesis by (rule push_tasks_ok [OF m _ pw0]) (use c Push in \<open>auto simp: tm_push_def\<close>)
next
  case Clear
  with c have "m' = clear_tasks K m" by (simp add: tm_clear_def)
  with clear_tasks_ok [OF m] show ?thesis by simp
next
  case (Add_Workers n)
  obtain b m1 where cr: "create_workers_nl n (m\<lparr>worker_limit := worker_limit m + n\<rparr>) = (b, m1)" by force
  have "tm_tasks m' = tm_tasks m" "tm_history m' = tm_history m" "r = Return True \<or> r = Wait Manager_Cv (Add_Workers n)"
    using c create_workers_same(2,3) [OF cr] cr by (auto simp: Add_Workers add_workers_def Let_def split: if_splits)
  with d show ?thesis by (intro tm_tasks_same [OF m]) (auto simp: tm_delta_def Add_Workers)
next
  case (Remove_Workers n)
  let ?n = "if n > worker_limit m then worker_limit m else n"
  obtain b m1 ns1 where k: "kill_workers_nl ?n (m\<lparr>worker_limit := worker_limit m - ?n\<rparr>) = (b, m1, ns1)"
    by (rule prod_cases3)
  have "tm_tasks m' = tm_tasks m" "tm_history m' = tm_history m" "r = Return True \<or> r = Wait Manager_Cv (Remove_Workers ?n)"
    using c kill_workers_same(2,3) [OF k] k by (auto simp: Remove_Workers remove_workers_def Let_def split: if_splits)
  with d show ?thesis by (intro tm_tasks_same [OF m]) (auto simp: tm_delta_def Remove_Workers)
next
  case Start
  obtain b m1 where cr: "create_workers_nl (worker_limit m) (m\<lparr>tm_state := STARTING\<rparr>) = (b, m1)" by force
  have "tm_tasks m' = tm_tasks m" "tm_history m' = tm_history m" "r = Return True \<or> r = Return False \<or> r = Wait Manager_Cv Start"
    using c create_workers_same(2,3) [OF cr] cr by (auto simp: Start tm_start_def start_after_def split: if_splits)
  with d show ?thesis by (intro tm_tasks_same [OF m]) (auto simp: tm_delta_def Start)
next
  case (Stop j)
  let ?m = "if \<not> j then clear_tasks K (m\<lparr>tm_state := STOPPING\<rparr>) else m\<lparr>tm_state := STOPPING\<rparr>"
  obtain b m1 ns1 where k: "kill_workers_nl (active_workers ?m) ?m = (b, m1, ns1)" by (rule prod_cases3)
  have r: "r = Return True \<or> r = Wait Manager_Cv (Stop j)"
    using c k by (auto simp: Stop tm_stop_def Let_def split: if_splits)
  with d have pw: "pw' \<le> pw" by (auto simp: tm_delta_def Stop)
  have "tm_tasks_ok valid contents (m\<lparr>tm_state := STOPPING\<rparr>) pw" by (rule tm_tasks_same [OF m]) simp_all
  then have "tm_tasks_ok valid contents ?m pw" using clear_tasks_ok by auto
  moreover have "m' = m \<or> tm_tasks m' = tm_tasks ?m \<and> tm_history m' = tm_history ?m"
  proof (cases "tm_state m = RUNNING")
    case True
    with c(1) k have "(if b then (Wait Manager_Cv (Stop j), m1, ns1) else (Return True, m1\<lparr>tm_state := IDLE\<rparr>, ns1)) = (r, m', ns)"
      by (simp add: Stop tm_stop_def Let_def)
    then have "tm_tasks m' = tm_tasks m1" "tm_history m' = tm_history m1" by (auto split: if_splits)
    then show ?thesis using kill_workers_same(2,3) [OF k] by simp
  next
    case False
    with c(1) show ?thesis by (simp add: Stop tm_stop_def)
  qed
  ultimately show ?thesis using tm_tasks_same [OF m] tm_tasks_same [of valid contents ?m pw m'] pw by blast
next
  case Enter
  with c have e: "tm_tasks m' = tm_tasks m" "tm_history m' = tm_history m" "r = Return True" by (auto simp: run_enter_def Let_def)
  have "pw' \<le> pw" using d unfolding tm_delta_def Enter e(3) by simp
  with e show ?thesis by (intro tm_tasks_same [OF m]) simp_all
next
  case (Work rand)
  with c have "run_loop K rand m = (r, m', ns)" by simp
  moreover have "pw' \<le> pw + of_bool (parked_on Workers_Cv (phase_after (tm_monitor K may_push) (Work rand) r))"
    using d unfolding Work tm_delta_def by simp
  ultimately show ?thesis by (rule run_loop_tasks [OF _ m])
qed

lemma tm_resume_tasks:
  assumes c: "tm_resume K op m = (r, m', ns)" "tm_waits_on op \<noteq> None" and m: "tm_tasks_ok valid contents m pw"
    and d: "pw' \<le> pw + of_bool (parked_on Workers_Cv (phase_after (tm_monitor K may_push) op r))"
  shows "tm_tasks_ok valid contents m' pw'"
  using c(2)
proof (cases rule: tm_waits_on_cases)
  case (1 rand)
  with c have l: "run_loop K rand (m\<lparr>idle_workers := idle_workers m - 1\<rparr>) = (r, m', ns)" by (simp add: run_loop_awake_def)
  have "tm_tasks_ok valid contents (m\<lparr>idle_workers := idle_workers m - 1\<rparr>) pw" by (rule tm_tasks_same [OF m]) simp_all
  from run_loop_tasks [OF l this d [unfolded 1]] show ?thesis .
next
  case 2
  with c(1) have "m' = m\<lparr>tm_state := RUNNING\<rparr>" "r = Return True" by (simp_all add: start_after_def)
  with d show ?thesis by (intro tm_tasks_same [OF m]) (auto simp: 2)
next
  case (3 j)
  with c(1) have "tm_tasks m' = tm_tasks m" "tm_history m' = tm_history m" "r = Return True \<or> r = Wait Manager_Cv (Stop j)"
    by (auto simp: stop_check_def split: if_splits)
  with d show ?thesis by (intro tm_tasks_same [OF m]) (auto simp: 3)
next
  case (4 n)
  with c(1) have "m' = m" "r = Return True" by simp_all
  with d show ?thesis by (intro tm_tasks_same [OF m]) (auto simp: 4)
next
  case (5 n)
  with c(1) have "m' = m" "r = Return True \<or> r = Wait Manager_Cv (Remove_Workers n)"
    by (auto simp: remove_workers_check_def split: if_splits)
  with d show ?thesis by (intro tm_tasks_same [OF m]) (auto simp: 5)
qed

end

section \<open>Reachable states\<close>

definition tm_inv :: "('c \<Rightarrow> bool) \<Rightarrow> ('c \<Rightarrow> 'a multiset) \<Rightarrow> nat \<Rightarrow> ('c, 'a) task_manager \<Rightarrow> ('p, 'a) tm_phase list \<Rightarrow> bool" where
  "tm_inv valid contents managers m ps \<longleftrightarrow>
     (\<forall>p \<in> set ps. tm_phase_ok p) \<and> num_of managing ps = managers \<and>
     tm_counts m (num_of working ps) (num_of idling ps) (num_of managing ps) (num_of (parked_on Workers_Cv) ps)
       (num_of (parked_on Manager_Cv) ps) \<and>
     tm_state_ok m (num_of starting ps) (num_of stopping ps) \<and>
     tm_tasks_ok valid contents m (num_of (parked_on Workers_Cv) ps)"

lemma tm_step_delta:
  assumes ok: "\<forall>p \<in> set ps. tm_phase_ok p" and t: "t < length ps" "ps ! t = p" and n: "notified ns (ps[t := q]) ps'"
    and q: "tm_phase_ok q"
  shows "\<forall>p \<in> set ps'. tm_phase_ok p"
    "tm_delta p q ns (num_of working ps) (num_of idling ps) (num_of managing ps) (num_of (parked_on Workers_Cv) ps)
       (num_of (parked_on Manager_Cv) ps) (num_of working ps') (num_of idling ps') (num_of managing ps')
       (num_of (parked_on Workers_Cv) ps') (num_of (parked_on Manager_Cv) ps')"
    "num_of starting ps' + of_bool (starting p) = num_of starting ps + of_bool (starting q)"
    "num_of stopping ps' + of_bool (stopping p) = num_of stopping ps + of_bool (stopping q)"
proof -
  have ok': "\<forall>p \<in> set (ps[t := q]). tm_phase_ok p" using ok q set_update_subset_insert [of ps t q] by blast
  have "num_of (parked_on Manager_Cv) (ps[t := q]) \<le> num_of managing ps'"
    using parked_roles(2) [OF ok'] notified_roles [OF n ok'] by simp
  then show "\<forall>p \<in> set ps'. tm_phase_ok p"
    "tm_delta p q ns (num_of working ps) (num_of idling ps) (num_of managing ps) (num_of (parked_on Workers_Cv) ps)
       (num_of (parked_on Manager_Cv) ps) (num_of working ps') (num_of idling ps') (num_of managing ps')
       (num_of (parked_on Workers_Cv) ps') (num_of (parked_on Manager_Cv) ps')"
    by (rule_tac tm_transition [OF assms]; auto simp: tm_delta_def)+
  have wake: "starting (wake p) = starting p" "stopping (wake p) = stopping p" for p :: "('a, 'b) tm_phase"
  proof -
    show "starting (wake p) = starting p" by (cases p) auto
    show "stopping (wake p) = stopping p"
    proof (cases p)
      case (Parked cv op)
      then show ?thesis by (cases op) auto
    qed auto
  qed
  show "num_of starting ps' + of_bool (starting p) = num_of starting ps + of_bool (starting q)"
    using notified_num_of [OF n, of starting] num_of_update [OF t(1), of starting q] t(2) by (simp add: wake)
  show "num_of stopping ps' + of_bool (stopping p) = num_of stopping ps + of_bool (stopping q)"
    using notified_num_of [OF n, of stopping] num_of_update [OF t(1), of stopping q] t(2) by (simp add: wake)
qed

lemma tm_call_phase_ok:
  assumes "tm_call K op m = (r, m', ns)"
  shows "tm_phase_ok (phase_after (tm_monitor K may) op r)"
proof (cases r)
  case (Wait cv op')
  with assms have "tm_waits_on op' = Some cv"
    by (cases op)
      (auto simp: tm_push_def tm_clear_def add_workers_def remove_workers_def tm_start_def start_after_def tm_stop_def
        run_enter_def run_loop_def Let_def split: if_splits prod.splits option.splits)
  with Wait show ?thesis by simp
qed simp

lemma tm_resume_phase_ok:
  assumes "tm_resume K op m = (r, m', ns)"
  shows "tm_phase_ok (phase_after (tm_monitor K may) op r)"
proof (cases r)
  case (Wait cv op')
  with assms have "tm_waits_on op' = Some cv"
    by (cases op)
      (auto simp: start_after_def stop_check_def remove_workers_check_def run_loop_awake_def run_loop_def Let_def
        split: if_splits prod.splits option.splits)
  with Wait show ?thesis by simp
qed simp

lemma tm_inv_new:
  assumes "valid tasks" "contents tasks = {#}" "\<forall>p \<in> set ps. \<exists>h. p = Run h \<and> h \<noteq> Worker"
  shows "tm_inv valid contents (num_of managing ps) (tm_new cpu limit bound tasks) ps"
proof -
  have *: "num_of Q ps = 0" if "\<And>h. h \<noteq> Worker \<Longrightarrow> \<not> Q (Run h)" for Q
    using assms(3) that by (fastforce simp: num_of_0)
  show ?thesis
    using assms by (auto simp: tm_inv_def tm_counts_def tm_state_ok_def tm_tasks_ok_def tm_new_def *)
qed

lemma tm_call_managing:
  assumes "tm_call K op m = (r, m', ns)" "tm_may may op h m"
  shows "managing (phase_after (tm_monitor K may) op r) = managing (Run h)"
  using assms
  by (cases op)
    (auto simp: tm_push_def tm_clear_def add_workers_def remove_workers_def tm_start_def start_after_def tm_stop_def
      run_enter_def run_loop_def Let_def split: if_splits prod.splits option.splits)

lemma tm_resume_managing:
  assumes "tm_resume K op m = (r, m', ns)" "tm_waits_on op \<noteq> None"
  shows "managing (phase_after (tm_monitor K may) op r) = managing (Woken op)"
  using assms
  by (cases op)
    (auto simp: start_after_def stop_check_def remove_workers_check_def run_loop_awake_def run_loop_def Let_def
      split: if_splits prod.splits option.splits)

sublocale task_container \<subseteq> tm: monitor_invariant "tm_monitor K may_push" "tm_inv valid contents managers" for managers
proof (unfold_locales, goal_cases)
  case (1 m ps t h op late r m' ns ps')
  have c: "tm_call K op m = (r, m', ns)" "tm_may may_push op h m" using 1(4,5) by simp_all
  have inv: "\<forall>p \<in> set ps. tm_phase_ok p" using 1(1) by (simp add: tm_inv_def)
  note D = tm_step_delta [OF inv 1(2,3,6) tm_call_phase_ok [OF c(1)]]
  have "tm_counts m' (num_of working ps') (num_of idling ps') (num_of managing ps') (num_of (parked_on Workers_Cv) ps')
       (num_of (parked_on Manager_Cv) ps')"
    by (rule tm_call_counts [OF c _ D(2)]) (use 1(1) in \<open>auto simp: tm_inv_def\<close>)
  moreover have "tm_state_ok m' (num_of starting ps') (num_of stopping ps')"
    by (rule tm_call_state [OF c(1)]) (use 1(1) D(3,4) in \<open>simp_all add: tm_inv_def\<close>)
  moreover have "tm_tasks_ok valid contents m' (num_of (parked_on Workers_Cv) ps')"
    by (rule tm_call_tasks [OF c _ _ D(2)]) (use 1(1) in \<open>auto simp: tm_inv_def\<close>)
  moreover have "num_of managing ps' = num_of managing ps" using D(2) tm_call_managing [OF c] by (simp add: tm_delta_def)
  ultimately show ?case using D(1) 1(1) by (simp add: tm_inv_def)
next
  case (2 m ps t op late r m' ns ps')
  have c: "tm_resume K op m = (r, m', ns)" using 2(4) by simp
  have inv: "\<forall>p \<in> set ps. tm_phase_ok p" using 2(1) by (simp add: tm_inv_def)
  then have w: "tm_waits_on op \<noteq> None" using 2(2,3) by (metis nth_mem tm_phase_ok.simps(3))
  note D = tm_step_delta [OF inv 2(2,3,5) tm_resume_phase_ok [OF c]]
  have st: "stopping (Woken op) \<Longrightarrow> tm_state m = STOPPING"
    using 2(1) num_of_pos [OF 2(2), of stopping] 2(3) by (auto simp: tm_inv_def tm_state_ok_def)
  have "tm_counts m' (num_of working ps') (num_of idling ps') (num_of managing ps') (num_of (parked_on Workers_Cv) ps')
       (num_of (parked_on Manager_Cv) ps')"
    by (rule tm_resume_counts [OF c w _ st D(2)]) (use 2(1) in \<open>auto simp: tm_inv_def\<close>)
  moreover have "tm_state_ok m' (num_of starting ps') (num_of stopping ps')"
    by (rule tm_resume_state [OF c w _ D(3,4)])
      (use 2(1,3) num_of_pos [OF 2(2), of starting] num_of_pos [OF 2(2), of stopping] in \<open>simp_all add: tm_inv_def Suc_le_eq\<close>)
  moreover have "tm_tasks_ok valid contents m' (num_of (parked_on Workers_Cv) ps')"
    by (rule tm_resume_tasks [OF c w, of "num_of (parked_on Workers_Cv) ps"])
      (use 2(1) D(2) in \<open>simp_all add: tm_inv_def tm_delta_def\<close>)
  moreover have "num_of managing ps' = num_of managing ps" using D(2) tm_resume_managing [OF c w] by (simp add: tm_delta_def)
  ultimately show ?case using D(1) 2(1) by (simp add: tm_inv_def)
next
  case (3 m ps t cv op)
  have inv: "\<forall>p \<in> set ps. tm_phase_ok p" using 3(1) by (simp add: tm_inv_def)
  then have w: "tm_waits_on op = Some cv" using 3(2,3) by (metis nth_mem tm_phase_ok.simps(2))
  note D = tm_step_delta [OF inv 3(2,3) notified.nothing, of "Woken op"]
  have "tm_phase_ok (Woken op)" "working (Woken op) = (cv = Workers_Cv)" "idling (Woken op) = (cv = Workers_Cv)"
    "managing (Woken op) = (cv = Manager_Cv)" "starting (Woken op) = (op = Start)" "stopping (Woken op) = stopping (Parked cv op)"
    using w by (cases op; auto)+
  then show ?case using 3(1) D by (auto simp: tm_inv_def tm_counts_def tm_delta_def tm_state_ok_def tm_tasks_ok_def)
next
  case 4
  then show ?case by simp
next
  case (5 m ps t op r m' ns ps')
  have "tm_phase_ok (ps ! t)" using 5(1) nth_mem [OF 5(2)] unfolding tm_inv_def by blast
  with 5 show ?case by simp
qed

context task_container
begin

lemma tm_reach:
  assumes "mo_reach (tm_monitor K may_push) (tm_new cpu limit bound tasks) ps0 m ps" "valid tasks" "contents tasks = {#}"
    "\<forall>p \<in> set ps0. \<exists>h. p = Run h \<and> h \<noteq> Worker"
  shows "tm_inv valid contents (num_of managing ps0) m ps"
  using tm.reach_invariant [OF assms(1)] tm_inv_new [of valid tasks contents ps0] assms(2-4) by blast

end

end
