(* ===== verification/Zi_Task_Manager_Props.thy ===== *)
theory Zi_Task_Manager_Props
  imports Zi_Task_Manager
begin

text \<open>
  What the task manager of \<^verbatim>\<open>Zi_Task_Manager\<close> guarantees in every reachable state, and executions in which it
  does not do what its callers expect.
\<close>

section \<open>Properties\<close>

text \<open>C11: A task manager hands every task out at most once and loses none: over any container that keeps its
  contract, in any interleaving of clients, managers and workers, the tasks handed to the workers and
  those still in the container are tasks that were pushed, each once; all of them, if nobody called
  \<open>clear\<close> or stopped the manager without joining.\<close>
theorem task_manager_conserves_tasks:
  assumes "task_container K valid contents may" "valid tasks" "contents tasks = {#}"
    "\<forall>p \<in> set ps0. \<exists>h. p = Run h \<and> h \<noteq> Worker"
    "mo_reach (tm_monitor K may) (tm_new cpu limit bound tasks) ps0 m ps"
  shows "mset (h_handed (tm_history m)) + contents (tm_tasks m) \<subseteq># mset (h_pushed (tm_history m)) \<and>
    (\<not> h_cleared (tm_history m) \<longrightarrow>
       mset (h_handed (tm_history m)) + contents (tm_tasks m) = mset (h_pushed (tm_history m)))"
  using task_container.tm_reach [OF assms(1,5,2,3,4)] by (simp add: tm_inv_def tm_tasks_ok_def)

text \<open>C19: The counters of a task manager are right in every reachable state: \<open>worker_count_\<close> counts the threads in
  \<open>run\<close>, \<open>idle_workers_\<close> those of them that wait for tasks, the workers asked for have been created, no
  more of them sleep than are wanted, and a manager that is idle or stopping wants none; \<open>STARTING\<close> and
  \<open>STOPPING\<close> are the states with exactly one thread inside \<open>start\<close> and \<open>stop\<close>.\<close>
theorem task_manager_counts:
  assumes "task_container K valid contents may" "valid tasks" "contents tasks = {#}"
    "\<forall>p \<in> set ps0. \<exists>h. p = Run h \<and> h \<noteq> Worker"
    "mo_reach (tm_monitor K may) (tm_new cpu limit bound tasks) ps0 m ps"
  shows "worker_count m = num_of working ps \<and> idle_workers m = num_of idling ps \<and>
    active_workers m \<le> worker_count m + tm_spawned m \<and> num_of (parked_on Workers_Cv) ps \<le> active_workers m \<and>
    (tm_state m = IDLE \<or> tm_state m = STOPPING \<longrightarrow> active_workers m = 0) \<and>
    num_of starting ps = of_bool (tm_state m = STARTING) \<and> num_of stopping ps = of_bool (tm_state m = STOPPING)"
  using task_container.tm_reach [OF assms(1,5,2,3,4)] by (simp add: tm_inv_def tm_counts_def tm_state_ok_def)

text \<open>C10: With one managing thread a task manager does not get stuck: while the manager sleeps in
  \<open>start\<close>, \<open>stop\<close>, \<open>add_workers\<close> or \<open>remove_workers\<close>, a worker is awake or a thread has still to enter
  \<open>run\<close>; and while there are tasks no worker sleeps, unless a task was pushed during \<open>start\<close>.\<close>
theorem task_manager_progress:
  assumes "task_container K valid contents may" "valid tasks" "contents tasks = {#}"
    "\<forall>p \<in> set ps0. \<exists>h. p = Run h \<and> h \<noteq> Worker"
    "mo_reach (tm_monitor K may) (tm_new cpu limit bound tasks) ps0 m ps" "num_of managing ps0 = 1"
  shows "(Parked Manager_Cv op \<in> set ps \<longrightarrow> 0 < tm_spawned m \<or> (\<exists>p \<in> set ps. p = Run Worker \<or> (\<exists>r. p = Woken (Work r)))) \<and>
    (contents (tm_tasks m) \<noteq> {#} \<and> \<not> h_early (tm_history m) \<longrightarrow> (\<forall>r. Parked Workers_Cv (Work r) \<notin> set ps))"
proof -
  have inv: "tm_inv valid contents 1 m ps" using task_container.tm_reach [OF assms(1,5,2,3,4)] assms(6) by simp
  have awake: "\<exists>p \<in> set ps. p = Run Worker \<or> (\<exists>r. p = Woken (Work r))" if "num_of (parked_on Workers_Cv) ps < num_of working ps"
  proof (rule ccontr)
    assume no: "\<not> ?thesis"
    have "working p \<Longrightarrow> parked_on Workers_Cv p" if "p \<in> set ps" for p
      using no that by (auto elim!: working.elims)
    then have "filter working ps = filter (\<lambda>p. working p \<and> parked_on Workers_Cv p) ps"
      by (intro filter_cong) auto
    then have "num_of working ps \<le> num_of (parked_on Workers_Cv) ps"
      unfolding num_of_def by (metis (no_types, lifting) num_of_def num_of_mono)
    with \<open>num_of (parked_on Workers_Cv) ps < num_of working ps\<close> show False by simp
  qed
  have parked: "0 < num_of (parked_on cv) ps" if "Parked cv op \<in> set ps" for cv op
    using that num_of_0 [of "parked_on cv" ps] by fastforce
  have c: "worker_count m = num_of working ps" "active_workers m \<le> num_of working ps + tm_spawned m"
    "num_of (parked_on Workers_Cv) ps \<le> active_workers m"
    "0 < num_of (parked_on Manager_Cv) ps \<Longrightarrow> worker_count m \<noteq> active_workers m \<or> 0 < tm_spawned m"
    and t: "\<not> h_early (tm_history m) \<Longrightarrow> contents (tm_tasks m) \<noteq> {#} \<Longrightarrow> num_of (parked_on Workers_Cv) ps = 0"
    using inv by (simp_all add: tm_inv_def tm_counts_def tm_tasks_ok_def)
  have "0 < tm_spawned m \<or> num_of (parked_on Workers_Cv) ps < num_of working ps" if "Parked Manager_Cv op \<in> set ps"
    using c parked [OF that] by linarith
  then show ?thesis using awake t parked [of Workers_Cv] by fastforce
qed

section \<open>Executions\<close>

abbreviation tm_demo :: "((nat list, nat) task_manager, tm_hold, tm_cv, (bool, nat) tm_op) monitor" where
  "tm_demo \<equiv> tm_monitor simple_tasks (\<lambda>_ _ _. True)"

abbreviation tm_demo_new :: "(nat list, nat) task_manager" where
  "tm_demo_new \<equiv> tm_new 1 1 0 []"

definition tm_at :: "nat \<Rightarrow> nat \<Rightarrow> nat \<Rightarrow> nat \<Rightarrow> tm_state \<Rightarrow> nat list \<Rightarrow> nat \<Rightarrow> nat list \<Rightarrow> bool \<Rightarrow> (nat list, nat) task_manager" where
  "tm_at wc limit idle active s tasks spawned pushed early =
     \<lparr>worker_count = wc, worker_limit = limit, idle_workers = idle, active_workers = active, max_size = 0, tm_state = s,
      tm_tasks = tasks, tm_spawned = spawned,
      tm_history = \<lparr>h_pushed = pushed, h_handed = [], h_cleared = False, h_early = early\<rparr>\<rparr>"

lemmas tm_demo_defs = tm_at_def tm_new_def tm_push_def add_workers_def create_workers_nl_def kill_workers_nl_def start_after_def
  tm_start_def tm_stop_def run_enter_def run_loop_def simple_tasks_def simple_push_def notified.nothing Let_def

lemma tm_demo_created:
  "mo_reach tm_demo tm_demo_new [Run Manager, Run Client, Run Fresh] (tm_at 0 1 0 1 STARTING [] 1 [] False)
     [Parked Manager_Cv Start, Run Client, Run Fresh]"
  by (rule mo_reach_call [where t = 0 and h = Manager and op = Start and late = False and r = "Wait Manager_Cv Start" and ns = "[]",
        OF mo_reach.start])
    (simp_all add: tm_demo_defs)

text \<open>One worker, asleep while the manager is still in \<open>start\<close>.\<close>

lemma tm_demo_starting:
  "mo_reach tm_demo tm_demo_new [Run Manager, Run Client, Run Fresh] (tm_at 1 1 1 1 STARTING [] 0 [] False)
     [Woken Start, Run Client, Parked Workers_Cv (Work 0)]"
proof -
  let ?ps = "[Run Manager, Run Client, Run Fresh] :: (bool, nat) tm_phase list"
  have n: "notified [One Manager_Cv] [Parked Manager_Cv Start, Run Client, Run Worker] [Woken Start, Run Client, Run Worker]"
    by (rule notified_wakes [of 0]) simp_all
  have 2: "mo_reach tm_demo tm_demo_new ?ps (tm_at 1 1 0 1 STARTING [] 0 [] False) [Woken Start, Run Client, Run Worker]"
    by (rule mo_reach_call [OF tm_demo_created, of 2 Fresh Enter False "Return True" _ "[One Manager_Cv]"])
      (use n in \<open>simp_all add: tm_demo_defs\<close>)
  show ?thesis
    by (rule mo_reach_call [OF 2, of 2 Worker "Work 0" False "Wait Workers_Cv (Work 0)" _ "[]"])
      (simp_all add: tm_demo_defs)
qed

lemma tm_demo_pushed:
  "mo_reach tm_demo tm_demo_new [Run Manager, Run Client, Run Fresh] (tm_at 1 1 1 1 STARTING [7] 0 [7] True)
     [Woken Start, Run Client, Parked Workers_Cv (Work 0)]"
  by (rule mo_reach_call [OF tm_demo_starting, of 1 Client "Push True 7" False "Return True" _ "[]"])
    (simp_all add: tm_demo_defs)

theorem task_manager_conserves_tasks_witness:
  "mset (h_handed (tm_history (tm_at 1 1 1 1 STARTING [7] 0 [7] True))) + mset (tm_tasks (tm_at 1 1 1 1 STARTING [7] 0 [7] True)) =
     mset (h_pushed (tm_history (tm_at 1 1 1 1 STARTING [7] 0 [7] True)))"
  using task_manager_conserves_tasks [OF simple.task_container_axioms _ _ _ tm_demo_pushed] by (simp add: tm_at_def)

theorem task_manager_counts_witness:
  "idle_workers (tm_at 1 1 1 1 STARTING [] 0 [] False) = num_of idling [Woken Start, Run Client, Parked Workers_Cv (Work 0) :: (bool, nat) tm_phase]"
  using task_manager_counts [OF simple.task_container_axioms _ _ _ tm_demo_starting] by simp

theorem task_manager_progress_witness:
  "Parked Manager_Cv Start \<in> set [Parked Manager_Cv Start, Run Client, Run Fresh :: (bool, nat) tm_phase] \<and>
     0 < tm_spawned (tm_at 0 1 0 1 STARTING [] 1 [] False)"
  using task_manager_progress [OF simple.task_container_axioms _ _ _ tm_demo_created, of Start] by (simp add: num_of_def)

text \<open>C39: A task pushed while the manager is starting can be left lying: the push notifies nobody before the state is
  \<open>RUNNING\<close>, and \<open>start\<close> does not notify when it sets it, so the only worker sleeps on although a task waits and
  every other thread is outside of the manager.\<close>
theorem task_manager_start_loses_wakeup:
  "\<exists>m. mo_reach tm_demo tm_demo_new [Run Manager, Run Client, Run Fresh] m [Run Manager, Run Client, Parked Workers_Cv (Work 0)] \<and>
     tm_state m = RUNNING \<and> tm_tasks m = [7] \<and> worker_count m = 1 \<and> tm_spawned m = 0 \<and> h_handed (tm_history m) = []"
proof (intro exI conjI)
  let ?ps = "[Run Manager, Run Client, Run Fresh] :: (bool, nat) tm_phase list"
  show "mo_reach tm_demo tm_demo_new ?ps (tm_at 1 1 1 1 RUNNING [7] 0 [7] True) [Run Manager, Run Client, Parked Workers_Cv (Work 0)]"
    by (rule mo_reach_resume [OF tm_demo_pushed, of 0 Start False "Return True" _ "[]"]) (simp_all add: tm_demo_defs)
qed (simp_all add: tm_at_def)

text \<open>\<open>join\<close> can return with tasks left: \<open>create_workers_nl\<close> waits once instead of in a loop, so that after a
  spurious wake-up \<open>start\<close> returns before any worker has entered \<open>run\<close>; \<open>join\<close> then finds as many workers as it
  wants, none, and the worker that enters later leaves at once.\<close>
theorem task_manager_join_skips_tasks:
  "\<exists>m. mo_reach tm_demo tm_demo_new [Run Manager, Run Client, Run Fresh] m [Run Manager, Run Client, Run Finished] \<and>
     tm_state m = IDLE \<and> tm_tasks m = [7] \<and> tm_spawned m = 0 \<and> h_handed (tm_history m) = [] \<and> \<not> h_cleared (tm_history m)"
proof (intro exI conjI)
  let ?ps = "[Run Manager, Run Client, Run Fresh] :: (bool, nat) tm_phase list"
  have 0: "mo_reach tm_demo tm_demo_new ?ps tm_demo_new ?ps" by (rule mo_reach.start)
  have 1: "mo_reach tm_demo tm_demo_new ?ps (tm_at 0 1 0 0 IDLE [7] 0 [7] False) ?ps"
    by (rule mo_reach_call [OF 0, of 1 Client "Push True 7" False "Return True" _ "[]"]) (simp_all add: tm_demo_defs)
  have 2: "mo_reach tm_demo tm_demo_new ?ps (tm_at 0 1 0 1 STARTING [7] 1 [7] False) [Parked Manager_Cv Start, Run Client, Run Fresh]"
    by (rule mo_reach_call [OF 1, of 0 Manager Start False "Wait Manager_Cv Start" _ "[]"]) (simp_all add: tm_demo_defs)
  have 3: "mo_reach tm_demo tm_demo_new ?ps (tm_at 0 1 0 1 STARTING [7] 1 [7] False) [Woken Start, Run Client, Run Fresh]"
    using mo_reach_spurious [OF 2, of 0 Manager_Cv Start] by simp
  have 4: "mo_reach tm_demo tm_demo_new ?ps (tm_at 0 1 0 1 RUNNING [7] 1 [7] False) ?ps"
    by (rule mo_reach_resume [OF 3, of 0 Start False "Return True" _ "[]"]) (simp_all add: tm_demo_defs)
  have n: "notified [All Workers_Cv] ?ps ?ps" by (rule notified.all) (simp add: notify_all_def notified.nothing)
  have 5: "mo_reach tm_demo tm_demo_new ?ps (tm_at 0 1 0 0 IDLE [7] 1 [7] False) ?ps"
    by (rule mo_reach_call [OF 4, of 0 Manager "Stop True" False "Return True" _ "[All Workers_Cv]"])
      (use n in \<open>simp_all add: tm_demo_defs\<close>)
  have 6: "mo_reach tm_demo tm_demo_new ?ps (tm_at 1 1 0 0 IDLE [7] 0 [7] False) [Run Manager, Run Client, Run Worker]"
    by (rule mo_reach_call [OF 5, of 2 Fresh Enter False "Return True" _ "[]"]) (simp_all add: tm_demo_defs)
  have n': "notified [One Manager_Cv] [Run Manager, Run Client, Run Finished] [Run Manager, Run Client, Run Finished]"
    by (rule notified.nobody) (simp_all add: notified.nothing)
  show "mo_reach tm_demo tm_demo_new ?ps (tm_at 0 1 0 0 IDLE [7] 0 [7] False) [Run Manager, Run Client, Run Finished]"
    by (rule mo_reach_call [OF 6, of 2 Worker "Work 0" False "Return False" _ "[One Manager_Cv]"])
      (use n' in \<open>simp_all add: tm_demo_defs\<close>)
qed (simp_all add: tm_at_def)

text \<open>Two managing threads can lock the manager up: both wait on \<open>manager_cv_\<close> and the last worker to leave
  notifies one of them, so that the thread in \<open>add_workers\<close>, which waits for nothing in particular, takes the
  notification of the one in \<open>stop\<close>, whose condition holds and whom nobody will wake.\<close>
theorem task_manager_two_managers_stuck:
  "\<exists>m. mo_reach tm_demo tm_demo_new [Run Manager, Run Manager, Run Fresh, Run Fresh] m
       [Run Manager, Parked Manager_Cv (Stop True), Run Finished, Run Finished] \<and>
     tm_state m = STOPPING \<and> worker_count m = active_workers m \<and> tm_spawned m = 0"
proof (intro exI conjI)
  let ?ps = "[Run Manager, Run Manager, Run Fresh, Run Fresh] :: (bool, nat) tm_phase list"
  let ?A = "Parked Manager_Cv (Add_Workers 1) :: (bool, nat) tm_phase" and ?S = "Parked Manager_Cv (Stop True) :: (bool, nat) tm_phase"
  have 0: "mo_reach tm_demo tm_demo_new ?ps tm_demo_new ?ps" by (rule mo_reach.start)
  have 1: "mo_reach tm_demo tm_demo_new ?ps (tm_at 0 1 0 1 STARTING [] 1 [] False) [Parked Manager_Cv Start, Run Manager, Run Fresh, Run Fresh]"
    by (rule mo_reach_call [OF 0, of 0 Manager Start False "Wait Manager_Cv Start" _ "[]"]) (simp_all add: tm_demo_defs)
  have n: "notified [One Manager_Cv] [Parked Manager_Cv Start, Run Manager, Run Worker, Run Fresh] [Woken Start, Run Manager, Run Worker, Run Fresh]"
    by (rule notified_wakes [of 0]) simp_all
  have 2: "mo_reach tm_demo tm_demo_new ?ps (tm_at 1 1 0 1 STARTING [] 0 [] False) [Woken Start, Run Manager, Run Worker, Run Fresh]"
    by (rule mo_reach_call [OF 1, of 2 Fresh Enter False "Return True" _ "[One Manager_Cv]"])
      (use n in \<open>simp_all add: tm_demo_defs\<close>)
  have 3: "mo_reach tm_demo tm_demo_new ?ps (tm_at 1 1 0 1 RUNNING [] 0 [] False) [Run Manager, Run Manager, Run Worker, Run Fresh]"
    by (rule mo_reach_resume [OF 2, of 0 Start False "Return True" _ "[]"]) (simp_all add: tm_demo_defs)
  have 4: "mo_reach tm_demo tm_demo_new ?ps (tm_at 1 2 0 2 RUNNING [] 1 [] False) [?A, Run Manager, Run Worker, Run Fresh]"
    by (rule mo_reach_call [OF 3, of 0 Manager "Add_Workers 1" False "Wait Manager_Cv (Add_Workers 1)" _ "[]"])
      (simp_all add: tm_demo_defs)
  have n: "notified [All Workers_Cv] [?A, ?S, Run Worker, Run Fresh] [?A, ?S, Run Worker, Run Fresh]"
    by (rule notified.all) (simp add: notify_all_def notified.nothing)
  have 5: "mo_reach tm_demo tm_demo_new ?ps (tm_at 1 2 0 0 STOPPING [] 1 [] False) [?A, ?S, Run Worker, Run Fresh]"
    by (rule mo_reach_call [OF 4, of 1 Manager "Stop True" False "Wait Manager_Cv (Stop True)" _ "[All Workers_Cv]"])
      (use n in \<open>simp_all add: tm_demo_defs\<close>)
  have 6: "mo_reach tm_demo tm_demo_new ?ps (tm_at 2 2 0 0 STOPPING [] 0 [] False) [?A, ?S, Run Worker, Run Worker]"
    by (rule mo_reach_call [OF 5, of 3 Fresh Enter False "Return True" _ "[]"]) (simp_all add: tm_demo_defs)
  have 7: "mo_reach tm_demo tm_demo_new ?ps (tm_at 1 2 0 0 STOPPING [] 0 [] False) [?A, ?S, Run Finished, Run Worker]"
    by (rule mo_reach_call [OF 6, of 2 Worker "Work 0" False "Return False" _ "[]"]) (simp_all add: tm_demo_defs)
  have n: "notified [One Manager_Cv] [?A, ?S, Run Finished, Run Finished] [Woken (Add_Workers 1), ?S, Run Finished, Run Finished]"
    by (rule notified_wakes [of 0]) simp_all
  have 8: "mo_reach tm_demo tm_demo_new ?ps (tm_at 0 2 0 0 STOPPING [] 0 [] False) [Woken (Add_Workers 1), ?S, Run Finished, Run Finished]"
    by (rule mo_reach_call [OF 7, of 3 Worker "Work 0" False "Return False" _ "[One Manager_Cv]"])
      (use n in \<open>simp_all add: tm_demo_defs\<close>)
  show "mo_reach tm_demo tm_demo_new ?ps (tm_at 0 2 0 0 STOPPING [] 0 [] False) [Run Manager, ?S, Run Finished, Run Finished]"
    by (rule mo_reach_resume [OF 8, of 0 "Add_Workers 1" False "Return True" _ "[]"]) (simp_all add: tm_demo_defs)
qed (simp_all add: tm_at_def)

end
