(* ===== verification/Zi_Periodic.thy ===== *)
theory Zi_Periodic
  imports Zi_Sync "HOL-Library.Infinite_Set"
begin

text \<open>
  \<^verbatim>\<open>zi/concurrency/periodic_function.hpp\<close>: \<open>periodic_function_adapter\<close>, which calls a function again and
  again, with a pause in between, until the function returns false or \<open>stop\<close> is called. The function is
  arbitrary: each call ends with either result. The classes of the constructors only build the adapter.
\<close>

section \<open>The class\<close>

datatype pf_state = PF_IDLE | PF_RUNNING | PF_SLEEPING | PF_STOPPING

record periodic =
  pf_state :: pf_state
  pf_count :: u64
  pf_timeout :: int

datatype pf_cv = Running_Cv | State_Cv

text \<open>The sections of \<open>run\<close>: its test, the head of the loop, what follows a call of the function (with its
  result) up to the pause, what follows the pause, and the end; the sections of \<open>stop\<close>; the other members.\<close>

datatype pf_op = Pf_Enter | Pf_Begin | Pf_End bool | Pf_Slept | Pf_Leave
  | Pf_Stop | Pf_Stopped | Pf_Cycles | Pf_Set_Timeout int | Pf_Get_Timeout

text \<open>Where a thread stands: outside, about to call \<open>run\<close>, at the head of its loop, inside the function, after
  the loop.\<close>

datatype pf_hold = Pf_Out | Pf_Start | Pf_Loop | Pf_Calling | Pf_Leaving

type_synonym pf_section = "(periodic, pf_cv, pf_op) critical"

definition pf_new :: "int \<Rightarrow> periodic" where
  "pf_new msecs = \<lparr>pf_state = PF_IDLE, pf_count = 0, pf_timeout = msecs\<rparr>"

definition pf_run_enter :: "periodic \<Rightarrow> pf_section" where
  "pf_run_enter m = (Return (pf_state m = PF_IDLE), m, [])"

definition pf_run_begin :: "periodic \<Rightarrow> pf_section" where
  "pf_run_begin m = (Return True, m\<lparr>pf_state := PF_RUNNING\<rparr>, [])"

text \<open>The value that is returned is the \<open>ok\<close> of the loop condition.\<close>

definition pf_run_end :: "bool \<Rightarrow> periodic \<Rightarrow> pf_section" where
  "pf_run_end ok m =
     (let m = m\<lparr>pf_count := pf_count m + 1\<rparr>
      in if ok \<and> pf_state m = PF_RUNNING
         then (Wait Running_Cv Pf_Slept, m\<lparr>pf_state := PF_SLEEPING\<rparr>, [])
         else (Return ok, m, []))"

definition pf_slept :: "bool \<Rightarrow> periodic \<Rightarrow> pf_section" where
  "pf_slept awaken m = (Return (\<not> awaken), m, [])"

definition pf_run_leave :: "periodic \<Rightarrow> pf_section" where
  "pf_run_leave m =
     (Return True, m\<lparr>pf_state := PF_IDLE\<rparr>, if pf_state m = PF_STOPPING then [All State_Cv] else [])"

definition pf_stop_check :: "periodic \<Rightarrow> pf_section" where
  "pf_stop_check m = (if pf_state m \<noteq> PF_IDLE then (Wait State_Cv Pf_Stopped, m, []) else (Return True, m, []))"

definition pf_stop :: "periodic \<Rightarrow> pf_section" where
  "pf_stop m =
     (case pf_state m of
        PF_IDLE \<Rightarrow> (Return True, m, [])
      | PF_RUNNING \<Rightarrow> pf_stop_check (m\<lparr>pf_state := PF_STOPPING\<rparr>)
      | PF_SLEEPING \<Rightarrow> (let (r, m, ns) = pf_stop_check (m\<lparr>pf_state := PF_STOPPING\<rparr>) in (r, m, One Running_Cv # ns))
      | PF_STOPPING \<Rightarrow> pf_stop_check m)"

definition pf_cycles :: "periodic \<Rightarrow> u64" where
  "pf_cycles m = pf_count m"

definition pf_set_timeout :: "int \<Rightarrow> periodic \<Rightarrow> pf_section" where
  "pf_set_timeout msecs m = (Return True, m\<lparr>pf_timeout := msecs\<rparr>, [])"

fun pf_call :: "pf_op \<Rightarrow> periodic \<Rightarrow> pf_section" where
  "pf_call Pf_Enter m = pf_run_enter m"
| "pf_call Pf_Begin m = pf_run_begin m"
| "pf_call (Pf_End ok) m = pf_run_end ok m"
| "pf_call Pf_Slept m = pf_slept True m"
| "pf_call Pf_Leave m = pf_run_leave m"
| "pf_call Pf_Stop m = pf_stop m"
| "pf_call Pf_Stopped m = pf_stop_check m"
| "pf_call Pf_Cycles m = (Return True, m, [])"
| "pf_call (Pf_Set_Timeout msecs) m = pf_set_timeout msecs m"
| "pf_call Pf_Get_Timeout m = (Return True, m, [])"

fun pf_may :: "pf_op \<Rightarrow> pf_hold \<Rightarrow> bool" where
  "pf_may Pf_Enter h = (h = Pf_Start)"
| "pf_may Pf_Begin h = (h = Pf_Loop)"
| "pf_may (Pf_End ok) h = (h = Pf_Calling)"
| "pf_may Pf_Slept h = False"
| "pf_may Pf_Leave h = (h = Pf_Leaving)"
| "pf_may Pf_Stopped h = False"
| "pf_may op h = (h = Pf_Out)"

fun pf_after :: "pf_op \<Rightarrow> bool \<Rightarrow> pf_hold" where
  "pf_after Pf_Enter b = (if b then Pf_Loop else Pf_Out)"
| "pf_after Pf_Begin b = Pf_Calling"
| "pf_after (Pf_End ok) b = (if b then Pf_Loop else Pf_Leaving)"
| "pf_after Pf_Slept b = (if b then Pf_Loop else Pf_Leaving)"
| "pf_after op b = Pf_Out"

definition pf_monitor :: "(periodic, pf_hold, pf_cv, pf_op) monitor" where
  "pf_monitor = \<lparr>mo_may = \<lambda>op h m. pf_may op h, mo_call = \<lambda>op late. pf_call op, mo_resume = \<lambda>op late. pf_call op,
     mo_timed = \<lambda>op. op = Pf_Slept, mo_expire = \<lambda>op. pf_slept False, mo_after = pf_after\<rparr>"

lemma pf_monitor_simps:
  "mo_may pf_monitor op h m = pf_may op h" "mo_call pf_monitor op late m = pf_call op m"
  "mo_resume pf_monitor op late m = pf_call op m" "mo_timed pf_monitor op = (op = Pf_Slept)"
  "mo_expire pf_monitor op m = pf_slept False m" "mo_after pf_monitor op b = pf_after op b"
  by (simp_all add: pf_monitor_def)

lemmas pf_sections = pf_run_enter_def pf_run_begin_def pf_run_end_def pf_slept_def pf_run_leave_def
  pf_stop_def pf_stop_check_def pf_set_timeout_def

section \<open>One thread runs it\<close>

fun runner :: "(pf_hold, pf_cv, pf_op) phase \<Rightarrow> bool" where
  "runner (Run h) = (h \<noteq> Pf_Out)"
| "runner (Parked cv op) = (op = Pf_Slept)"
| "runner (Woken op) = (op = Pf_Slept)"
| "runner (Timed_Out op) = (op = Pf_Slept)"

text \<open>The state the adapter is in while a thread stands at a given place; an idle adapter is not being run.\<close>

fun pf_fits :: "pf_state \<Rightarrow> (pf_hold, pf_cv, pf_op) phase \<Rightarrow> bool" where
  "pf_fits s (Run h) =
     (case h of Pf_Out \<Rightarrow> True | Pf_Start \<Rightarrow> s = PF_IDLE | Pf_Loop \<Rightarrow> s \<noteq> PF_RUNNING
      | Pf_Calling \<Rightarrow> s = PF_RUNNING \<or> s = PF_STOPPING | Pf_Leaving \<Rightarrow> s \<noteq> PF_IDLE)"
| "pf_fits s (Parked cv op) =
     (if op = Pf_Slept then cv = Running_Cv \<and> s = PF_SLEEPING else cv = State_Cv \<and> op = Pf_Stopped)"
| "pf_fits s (Woken op) = (op = Pf_Slept \<and> (s = PF_SLEEPING \<or> s = PF_STOPPING) \<or> op = Pf_Stopped)"
| "pf_fits s (Timed_Out op) = (op = Pf_Slept \<and> (s = PF_SLEEPING \<or> s = PF_STOPPING))"

definition pf_inv :: "periodic \<Rightarrow> (pf_hold, pf_cv, pf_op) phase list \<Rightarrow> bool" where
  "pf_inv m ps \<longleftrightarrow> num_of runner ps \<le> 1 \<and> (\<forall>p \<in> set ps. pf_fits (pf_state m) p) \<and>
     (num_of runner ps = 0 \<longrightarrow> pf_state m = PF_IDLE)"

lemma runner_wake [simp]: "runner (wake p) = runner p"
  by (cases p) auto

lemma pf_fits_other: "\<not> runner p \<Longrightarrow> pf_fits s p \<Longrightarrow> pf_fits s' p"
  by (cases p) auto

lemma pf_fits_woken: "pf_fits s (Parked cv op) \<Longrightarrow> pf_fits s (Woken op)"
  by (auto split: if_splits)

lemma pf_fits_stop:
  "pf_fits s p \<Longrightarrow> s = PF_RUNNING \<or> s = PF_SLEEPING \<Longrightarrow> \<not> parked_on Running_Cv p \<Longrightarrow> pf_fits PF_STOPPING p"
  by (cases p) (auto split: pf_hold.splits if_splits)

lemma pf_parked_runner:
  "\<forall>p \<in> set ps. pf_fits s p \<Longrightarrow> num_of (parked_on Running_Cv) ps \<le> num_of runner ps"
proof (induction ps)
  case (Cons p ps)
  then have "parked_on Running_Cv p \<Longrightarrow> runner p" by (cases p) (auto split: if_splits)
  with Cons show ?case by (auto simp: num_of_def)
qed (simp add: num_of_def)

lemma pf_fits_notified:
  "notified ns qs ps' \<Longrightarrow> \<forall>x \<in> set qs. pf_fits s x \<Longrightarrow> \<forall>x \<in> set ps'. pf_fits s x"
  by (rule notified_ball [where P = "pf_fits s"]) (use pf_fits_woken in blast)+

lemma pf_update:
  assumes inv: "pf_inv m ps" and t: "t < length ps" "ps ! t = p" and n: "notified ns (ps[t := q]) ps'"
    and q: "pf_fits (pf_state m') q" "runner q \<longrightarrow> runner p" "runner p \<and> \<not> runner q \<longrightarrow> pf_state m' = PF_IDLE"
    and s: "runner p \<or> pf_state m' = pf_state m"
  shows "pf_inv m' ps'"
proof -
  have le: "num_of runner ps \<le> 1" and fits: "\<forall>x \<in> set ps. pf_fits (pf_state m) x" using inv by (auto simp: pf_inv_def)
  have c: "num_of runner ps' + of_bool (runner p) = num_of runner ps + of_bool (runner q)"
    using notified_num_of [OF n, of runner] num_of_update [OF t(1), of runner q] t(2) by simp
  have "\<forall>x \<in> set (ps[t := q]). pf_fits (pf_state m') x"
  proof
    fix x assume x: "x \<in> set (ps[t := q])"
    from s show "pf_fits (pf_state m') x"
    proof
      assume "runner p"
      with others_not [of runner, OF le t(1) _ x] t(2) have "x = q \<or> x \<in> set ps \<and> \<not> runner x" by simp
      with q(1) fits pf_fits_other show ?thesis by blast
    next
      assume "pf_state m' = pf_state m"
      with x set_update_subset_insert [of ps t q] fits q(1) show ?thesis by auto
    qed
  qed
  then have "\<forall>x \<in> set ps'. pf_fits (pf_state m') x" by (rule pf_fits_notified [OF n])
  moreover have "num_of runner ps' \<le> 1" using c q(2) le by (cases "runner p"; cases "runner q") auto
  moreover have "pf_state m' = PF_IDLE" if "num_of runner ps' = 0"
    using c that q(2,3) s inv num_of_pos [OF t(1), of runner] t(2)
    by (cases "runner p"; cases "runner q") (auto simp: pf_inv_def)
  ultimately show ?thesis by (simp add: pf_inv_def)
qed

lemma pf_stop_update:
  assumes inv: "pf_inv m ps" and t: "t < length ps" "ps ! t = Run Pf_Out"
    and c: "pf_call Pf_Stop m = (r, m', ns)" and n: "notified ns (ps[t := phase_after pf_monitor Pf_Stop r]) ps'"
  shows "pf_inv m' ps'"
proof (cases "pf_state m = PF_RUNNING \<or> pf_state m = PF_SLEEPING")
  case False
  then show ?thesis using c
    by (intro pf_update [OF inv t n]) (cases "pf_state m"; auto simp: pf_sections pf_monitor_simps)+
next
  case True
  let ?q = "Parked State_Cv Pf_Stopped"
  have s: "pf_state m' = PF_STOPPING" and r: "r = Wait State_Cv Pf_Stopped"
    and ns: "pf_state m = PF_SLEEPING \<longrightarrow> ns = [One Running_Cv]"
    using True c by (auto simp: pf_sections Let_def)
  have n': "notified ns (ps[t := ?q]) ps'" using n r by simp
  have le: "num_of runner ps \<le> 1" and fits: "\<forall>x \<in> set ps. pf_fits (pf_state m) x" using inv by (auto simp: pf_inv_def)
  have num: "num_of runner (ps[t := ?q]) = num_of runner ps"
    using num_of_update [OF t(1), of runner ?q] t(2) by simp
  with notified_num_of [OF n', of runner] have num': "num_of runner ps' = num_of runner ps" by simp
  have fq: "\<forall>x \<in> set (ps[t := ?q]). pf_fits (pf_state m) x"
    using fits set_update_subset_insert [of ps t ?q] by auto
  have "\<not> parked_on Running_Cv x" if "x \<in> set ps'" for x
  proof (cases "pf_state m = PF_SLEEPING")
    case True
    with notified_one_less [OF n', of Running_Cv] ns pf_parked_runner [OF fq] num le
    have "num_of (parked_on Running_Cv) ps' = 0" by simp
    with that show ?thesis by (simp add: num_of_0)
  next
    case False
    have "pf_fits (pf_state m) x" using pf_fits_notified [OF n' fq] that by blast
    with False show ?thesis by (cases x) (auto split: if_splits)
  qed
  then have "\<forall>x \<in> set ps'. pf_fits PF_STOPPING x"
    using pf_fits_notified [OF n' fq] pf_fits_stop [OF _ True] by blast
  moreover have "num_of runner ps \<noteq> 0" using True inv by (auto simp: pf_inv_def)
  ultimately show ?thesis using num' le s by (simp add: pf_inv_def)
qed

interpretation pf: monitor_invariant pf_monitor pf_inv
proof (unfold_locales, goal_cases)
  case (1 m ps t h op late r m' ns ps')
  then have inv: "pf_inv m ps" and t: "t < length ps" "ps ! t = Run h" by simp_all
  have fits: "pf_fits (pf_state m) (Run h)" using inv t by (metis nth_mem pf_inv_def)
  have c: "pf_call op m = (r, m', ns)" "pf_may op h" using 1 by (simp_all add: pf_monitor_simps)
  show ?case
  proof (cases "op = Pf_Stop")
    case True
    then show ?thesis using pf_stop_update [OF inv] c t 1(6) by simp
  next
    case False
    show ?thesis
      by (rule pf_update [OF inv t 1(6)])
        (use c False fits in \<open>cases op; auto simp: pf_monitor_simps pf_sections Let_def split: if_splits\<close>)+
  qed
next
  case (2 m ps t op late r m' ns ps')
  then have inv: "pf_inv m ps" and t: "t < length ps" "ps ! t = Woken op" by simp_all
  have fits: "pf_fits (pf_state m) (Woken op)" using inv t by (metis nth_mem pf_inv_def)
  show ?case
    by (rule pf_update [OF inv t 2(5)])
      (use 2(4) fits in \<open>auto simp: pf_monitor_simps pf_sections split: if_splits\<close>)
next
  case (3 m ps t cv op)
  have fits: "pf_fits (pf_state m) (Parked cv op)" using 3 by (metis nth_mem pf_inv_def)
  show ?case
    by (rule pf_update [OF 3 notified.nothing]) (use fits in \<open>auto split: if_splits\<close>)
next
  case (4 m ps t cv op)
  have fits: "pf_fits (pf_state m) (Parked cv op)" using 4 by (metis nth_mem pf_inv_def)
  show ?case
    by (rule pf_update [OF 4(1-3) notified.nothing])
      (use fits 4(4) in \<open>auto simp: pf_monitor_simps split: if_splits\<close>)
next
  case (5 m ps t op r m' ns ps')
  then have inv: "pf_inv m ps" and t: "t < length ps" "ps ! t = Timed_Out op" by simp_all
  have fits: "pf_fits (pf_state m) (Timed_Out op)" using inv t by (metis nth_mem pf_inv_def)
  show ?case
    by (rule pf_update [OF inv t 5(5)])
      (use 5(4) fits in \<open>auto simp: pf_monitor_simps pf_sections split: if_splits\<close>)
qed

lemma pf_start_inv: "pf_inv (pf_new msecs) (Run Pf_Start # replicate n (Run Pf_Out))"
  by (auto simp: pf_inv_def pf_new_def num_of_def)

text \<open>One thread runs a periodic function and any number of threads stop it, read or change it. In every state
  they reach, the field \<open>state_\<close> says where the runner stands: before and after \<open>run\<close> it is idle, the function
  is called only in the states running and stopping, the pause is slept in only while the state is
  sleeping, and a runner on its way out has not been declared idle. At most one thread is inside \<open>run\<close>.\<close>

theorem periodic_state_sound:
  assumes "mo_reach pf_monitor (pf_new msecs) (Run Pf_Start # replicate n (Run Pf_Out)) m ps"
  shows "num_of runner ps \<le> 1 \<and> (\<forall>p \<in> set ps. pf_fits (pf_state m) p) \<and>
    (num_of runner ps = 0 \<longrightarrow> pf_state m = PF_IDLE)"
  using pf.reach_invariant [OF assms pf_start_inv] by (simp add: pf_inv_def)

section \<open>When a stop is heard\<close>

text \<open>The runner knows of the stop: it was woken from its pause, or it is past the loop.\<close>

definition heard :: "periodic \<Rightarrow> (pf_hold, pf_cv, pf_op) phase list \<Rightarrow> bool" where
  "heard m ps \<longleftrightarrow> pf_state m = PF_STOPPING \<and> (Woken Pf_Slept \<in> set ps \<or> Run Pf_Leaving \<in> set ps)"

lemma only_runner:
  assumes "num_of runner ps \<le> 1" "t < length ps" "runner (ps ! t)" "x \<in> set ps" "runner x"
  shows "x = ps ! t"
  using others_not [of runner, OF assms(1-3), of x "ps ! t"] assms(4,5) by simp

lemma set_update_keep: "x \<in> set ps \<Longrightarrow> t < length ps \<Longrightarrow> ps ! t \<noteq> x \<Longrightarrow> x \<in> set (ps[t := q])"
  by (metis in_set_conv_nth length_list_update nth_list_update_neq)

lemma heard_runner:
  assumes "pf_inv m ps" "heard m ps" "t < length ps" "runner (ps ! t)"
  shows "ps ! t = Woken Pf_Slept \<or> ps ! t = Run Pf_Leaving"
  using only_runner [OF _ assms(3,4)] assms(1,2) by (force simp: heard_def pf_inv_def)

lemma heard_other:
  assumes "heard m ps" "t < length ps" "\<not> runner (ps ! t)" "pf_state m' = PF_STOPPING" "notified [] (ps[t := q]) ps'"
  shows "heard m' ps'"
proof -
  have "x \<in> set (ps[t := q])" if "x \<in> set ps" "runner x" for x
    using that assms(2,3) by (intro set_update_keep) auto
  moreover have "ps' = ps[t := q]" using assms(5) by (auto elim: notified_Nil)
  ultimately show ?thesis using assms(1,4) by (auto simp: heard_def)
qed

lemma heard_call:
  assumes inv: "pf_inv m ps" "heard m ps" and t: "t < length ps" "ps ! t = Run h"
    and c: "pf_may op h" "pf_call op m = (r, m', ns)"
    and n: "notified ns (ps[t := phase_after pf_monitor op r]) ps'"
  shows "pf_count m' = pf_count m \<and> (heard m' ps' \<or> pf_state m' = PF_IDLE \<and> num_of (parked_on State_Cv) ps' = 0)"
proof (cases "h = Pf_Out")
  case True
  have st: "pf_state m = PF_STOPPING" using inv by (simp add: heard_def)
  with True c have "ns = []" "pf_state m' = PF_STOPPING" "pf_count m' = pf_count m"
    by (cases op; auto simp: pf_sections)+
  with True t n heard_other [OF inv(2) t(1)] show ?thesis by simp
next
  case False
  with heard_runner [OF inv t(1)] t(2) have h: "h = Pf_Leaving" by simp
  with c(1) have op: "op = Pf_Leave" by (cases op) auto
  have "ns = [All State_Cv]" "pf_state m' = PF_IDLE" "pf_count m' = pf_count m"
    using op c(2) inv by (auto simp: pf_sections heard_def)
  with notified_all_none [OF n] show ?thesis by simp
qed

lemma heard_resume:
  assumes inv: "pf_inv m ps" "heard m ps" and t: "t < length ps" "ps ! t = Woken op"
    and c: "pf_call op m = (r, m', ns)" and n: "notified ns (ps[t := phase_after pf_monitor op r]) ps'"
  shows "pf_count m' = pf_count m \<and> heard m' ps'"
proof (cases "op = Pf_Slept")
  case True
  then have e: "m' = m" "ps' = ps[t := Run Pf_Leaving]" using c n
    by (auto simp: pf_sections pf_monitor_simps elim: notified_Nil)
  with inv(2) t(1) show ?thesis by (simp add: heard_def set_update_memI)
next
  case False
  have "pf_fits (pf_state m) (Woken op)" using inv(1) t by (metis nth_mem pf_inv_def)
  with False have op: "op = Pf_Stopped" by simp
  have "ns = []" "m' = m" using op c inv(2) by (auto simp: pf_sections heard_def)
  with op t n inv(2) heard_other [OF inv(2) t(1), of m'] show ?thesis by (simp add: heard_def)
qed

lemma heard_step:
  assumes inv: "pf_inv m ps" "heard m ps" and st: "mo_step pf_monitor m ps m' ps'"
  shows "pf_count m' = pf_count m \<and> (heard m' ps' \<or> pf_state m' = PF_IDLE \<and> num_of (parked_on State_Cv) ps' = 0)"
  using st
proof cases
  case (call t h op late r ns)
  then show ?thesis by (intro heard_call [OF inv]) (simp_all add: pf_monitor_simps)
next
  case (resume t op late r ns)
  then have "pf_count m' = pf_count m \<and> heard m' ps'"
    by (intro heard_resume [OF inv]) (simp_all add: pf_monitor_simps)
  then show ?thesis by simp
next
  case (spurious t cv op)
  have "\<not> runner (ps ! t)" using heard_runner [OF inv spurious(3)] spurious(4) by auto
  from heard_other [OF inv(2) spurious(3) this _ notified.nothing, of m "Woken op"] spurious(1,2) inv(2)
  show ?thesis by (simp add: heard_def)
next
  case (timeout t cv op)
  have "\<not> runner (ps ! t)" using heard_runner [OF inv timeout(3)] timeout(4) by auto
  with timeout show ?thesis by (simp add: pf_monitor_simps)
next
  case (expire t op r ns)
  have "pf_fits (pf_state m) (Timed_Out op)" using inv(1) expire(1,2) by (metis nth_mem pf_inv_def)
  then have "runner (ps ! t)" using expire by simp
  with heard_runner [OF inv expire(1)] expire show ?thesis by simp
qed

lemma stop_asleep_heard:
  assumes inv: "pf_inv m ps" and t: "t < length ps" "ps ! t = Run Pf_Out" and sl: "Parked Running_Cv Pf_Slept \<in> set ps"
    and c: "pf_stop m = (r, m', ns)" and n: "notified ns (ps[t := phase_after pf_monitor Pf_Stop r]) ps'"
  shows "heard m' ps'"
proof -
  let ?qs = "ps[t := Parked State_Cv Pf_Stopped]"
  have st: "pf_state m = PF_SLEEPING" using inv sl by (fastforce simp: pf_inv_def)
  then have m': "pf_state m' = PF_STOPPING" and r: "r = Wait State_Cv Pf_Stopped"
    using c by (auto simp: pf_sections)
  have n': "notified ns ?qs ps'" using n r by simp
  have inv': "pf_inv m' ps'" by (rule pf_stop_update [OF inv t _ n]) (use c in simp)
  have "num_of runner ps' \<noteq> 0" using inv' m' by (auto simp: pf_inv_def)
  then obtain x where x: "x \<in> set ps'" "runner x" by (auto simp: num_of_0)
  obtain u where u: "u < length ps" "ps ! u = Parked Running_Cv Pf_Slept" using sl by (auto simp: in_set_conv_nth)
  have only: "y = Parked Running_Cv Pf_Slept" if "y \<in> set ps" "runner y" for y
    using only_runner [OF _ u(1) _ that] u(2) inv by (simp add: pf_inv_def)
  have "x \<noteq> Parked Running_Cv Pf_Slept" using inv' x(1) m' by (auto simp: pf_inv_def)
  moreover have "y = Parked State_Cv Pf_Stopped \<or> y \<in> set ps" if "y \<in> set ?qs" for y
    using that set_update_subset_insert [of ps t] by auto
  ultimately obtain op where "x = Woken op" using notified_in [OF n' x(1)] only x(2) by fastforce
  with x m' show ?thesis by (simp add: heard_def)
qed

text \<open>C23: A stop that finds the runner asleep in its pause is heard: the runner is woken and the state is stopping. From
  then on, whatever the other threads do, the function is not called again and the runner stays on its way
  out until it declares the adapter idle, and at that moment nobody is left asleep in \<open>stop\<close>.\<close>

theorem periodic_stop_heard:
  assumes "mo_reach pf_monitor (pf_new msecs) (Run Pf_Start # replicate n (Run Pf_Out)) m ps"
  shows "(\<forall>t r m' ns ps'. t < length ps \<and> ps ! t = Run Pf_Out \<and> Parked Running_Cv Pf_Slept \<in> set ps \<and>
      pf_stop m = (r, m', ns) \<and> notified ns (ps[t := phase_after pf_monitor Pf_Stop r]) ps' \<longrightarrow> heard m' ps') \<and>
    (\<forall>m' ps'. heard m ps \<and> mo_step pf_monitor m ps m' ps' \<longrightarrow>
      pf_count m' = pf_count m \<and>
      (heard m' ps' \<or> pf_state m' = PF_IDLE \<and> num_of (parked_on State_Cv) ps' = 0))"
proof -
  have inv: "pf_inv m ps" by (rule pf.reach_invariant [OF assms pf_start_inv])
  show ?thesis
    using stop_asleep_heard [OF inv] heard_step [OF inv] by blast
qed

section \<open>Stops that are lost\<close>

text \<open>Executions with the runner as thread 0 and one thread that stops it, step by step.\<close>

lemma pf_reach_call:
  assumes "mo_reach pf_monitor m0 ps0 m ps" "t < length ps" "ps ! t = Run h" "pf_may op h"
    "snd (pf_call op m) = (m', [])" "ps' = ps[t := phase_after pf_monitor op (fst (pf_call op m))]"
  shows "mo_reach pf_monitor m0 ps0 m' ps'"
  by (rule mo_reach_call [OF assms(1-3), of op False "fst (pf_call op m)" m' "[]"])
    (use assms(4-6) in \<open>auto simp: pf_monitor_simps notified.nothing prod_eq_iff\<close>)

lemma pf_reach_pause_over:
  assumes "mo_reach pf_monitor m0 ps0 m ps" "t < length ps" "ps ! t = Timed_Out Pf_Slept" "ps' = ps[t := Run Pf_Loop]"
  shows "mo_reach pf_monitor m0 ps0 m ps'"
  by (rule mo_reach_expire [OF assms(1-3), of "Return True" m "[]"])
    (use assms(4) in \<open>auto simp: pf_monitor_simps pf_slept_def notified.nothing\<close>)

lemma pf_reach_pause_ends:
  "mo_reach pf_monitor m0 ps0 m ps \<Longrightarrow> t < length ps \<Longrightarrow> ps ! t = Parked Running_Cv Pf_Slept \<Longrightarrow>
    ps' = ps[t := Timed_Out Pf_Slept] \<Longrightarrow> mo_reach pf_monitor m0 ps0 m ps'"
  using mo_reach_timeout [of pf_monitor m0 ps0 m ps t Running_Cv Pf_Slept] by (simp add: pf_monitor_simps)

lemma pf_reach_calling:
  "mo_reach pf_monitor (pf_new msecs) [Run Pf_Start, Run Pf_Out] ((pf_new msecs)\<lparr>pf_state := PF_RUNNING\<rparr>)
     [Run Pf_Calling, Run Pf_Out]"
proof -
  have "mo_reach pf_monitor (pf_new msecs) [Run Pf_Start, Run Pf_Out] (pf_new msecs) [Run Pf_Loop, Run Pf_Out]"
    by (rule pf_reach_call [OF mo_reach.start, where t = 0 and h = Pf_Start and op = Pf_Enter])
      (simp_all add: pf_sections pf_monitor_simps pf_new_def)
  then show ?thesis
    by (rule pf_reach_call [where t = 0 and h = Pf_Loop and op = Pf_Begin]) (simp_all add: pf_sections pf_monitor_simps)
qed

lemma pf_reach_sleeping:
  "mo_reach pf_monitor (pf_new msecs) [Run Pf_Start, Run Pf_Out] ((pf_new msecs)\<lparr>pf_state := PF_SLEEPING, pf_count := 1\<rparr>)
     [Parked Running_Cv Pf_Slept, Run Pf_Out]"
  by (rule pf_reach_call [OF pf_reach_calling, where t = 0 and h = Pf_Calling and op = "Pf_End True"])
    (simp_all add: pf_sections pf_monitor_simps pf_new_def)

theorem periodic_stop_heard_witness:
  "heard \<lparr>pf_state = PF_STOPPING, pf_count = 1, pf_timeout = 5\<rparr> [Woken Pf_Slept, Parked State_Cv Pf_Stopped]"
proof -
  let ?m = "(pf_new 5)\<lparr>pf_state := PF_SLEEPING, pf_count := 1\<rparr>"
  have r: "mo_reach pf_monitor (pf_new 5) (Run Pf_Start # replicate 1 (Run Pf_Out)) ?m [Parked Running_Cv Pf_Slept, Run Pf_Out]"
    using pf_reach_sleeping by simp
  have "notified [One Running_Cv] ([Parked Running_Cv Pf_Slept, Run Pf_Out][1 := phase_after pf_monitor Pf_Stop (Wait State_Cv Pf_Stopped)])
      [Woken Pf_Slept, Parked State_Cv Pf_Stopped]"
    by (rule notified_wakes [of 0]) simp_all
  moreover have "pf_stop ?m = (Wait State_Cv Pf_Stopped, \<lparr>pf_state = PF_STOPPING, pf_count = 1, pf_timeout = 5\<rparr>, [One Running_Cv])"
    by (simp add: pf_sections pf_new_def)
  ultimately show ?thesis using periodic_stop_heard [OF r, THEN conjunct1, rule_format, of 1] by simp
qed

text \<open>The runner when the function always returns true and nobody notifies it: its next state.\<close>

fun pf_spin :: "periodic \<times> (pf_hold, pf_cv, pf_op) phase \<Rightarrow> periodic \<times> (pf_hold, pf_cv, pf_op) phase" where
  "pf_spin (m, Run Pf_Loop) = (m\<lparr>pf_state := PF_RUNNING\<rparr>, Run Pf_Calling)"
| "pf_spin (m, Run h) =
     (if pf_state m = PF_RUNNING then (m\<lparr>pf_count := pf_count m + 1, pf_state := PF_SLEEPING\<rparr>, Parked Running_Cv Pf_Slept)
      else (m\<lparr>pf_count := pf_count m + 1\<rparr>, Run Pf_Loop))"
| "pf_spin (m, Parked cv op) = (m, Timed_Out op)"
| "pf_spin (m, Woken op) = (m, Run Pf_Loop)"
| "pf_spin (m, Timed_Out op) = (m, Run Pf_Loop)"

definition pf_spinning :: "(pf_hold, pf_cv, pf_op) phase \<Rightarrow> bool" where
  "pf_spinning p \<longleftrightarrow> p \<in> {Run Pf_Loop, Run Pf_Calling, Parked Running_Cv Pf_Slept, Timed_Out Pf_Slept}"

lemma pf_spin_step:
  assumes "pf_spinning p" "pf_spin (m, p) = (m', p')"
  shows "mo_step pf_monitor m [p, q] m' [p', q] \<and> pf_spinning p'"
proof -
  consider "p = Run Pf_Loop" | "p = Run Pf_Calling" | "p = Parked Running_Cv Pf_Slept" | "p = Timed_Out Pf_Slept"
    using assms(1) by (auto simp: pf_spinning_def)
  then show ?thesis
  proof cases
    case 1
    have "mo_step pf_monitor m [p, q] m' [p', q]"
      by (rule mo_step.call [of 0 _ Pf_Loop _ Pf_Begin _ False "Return True" _ "[]"])
        (use 1 assms(2) in \<open>auto simp: pf_monitor_simps pf_sections notified.nothing\<close>)
    then show ?thesis using 1 assms(2) by (auto simp: pf_spinning_def)
  next
    case 2
    have "mo_step pf_monitor m [p, q] m' [p', q]"
      by (rule mo_step.call [of 0 _ Pf_Calling _ "Pf_End True" _ False "fst (pf_run_end True m)" _ "[]"])
        (use 2 assms(2) in \<open>auto simp: pf_monitor_simps pf_sections notified.nothing split: if_splits\<close>)
    then show ?thesis using 2 assms(2) by (auto simp: pf_spinning_def split: if_splits)
  next
    case 3
    have "mo_step pf_monitor m [p, q] m ([p, q][0 := Timed_Out Pf_Slept])"
      by (rule mo_step.timeout) (use 3 in \<open>simp_all add: pf_monitor_simps\<close>)
    then show ?thesis using 3 assms(2) by (auto simp: pf_spinning_def)
  next
    case 4
    have "mo_step pf_monitor m [p, q] m' [p', q]"
      by (rule mo_step.expire [of 0 _ Pf_Slept _ _ "Return True" _ "[]"])
        (use 4 assms(2) in \<open>auto simp: pf_monitor_simps pf_sections notified.nothing\<close>)
    then show ?thesis using 4 assms(2) by (auto simp: pf_spinning_def)
  qed
qed

lemma pf_spin_calls:
  assumes "pf_spinning (snd s)"
  shows "\<exists>j. snd ((pf_spin ^^ j) s) = Run Pf_Calling"
proof -
  obtain m p where s: "s = (m, p)" by (cases s)
  consider "p = Run Pf_Loop" | "p = Run Pf_Calling" | "p = Parked Running_Cv Pf_Slept" | "p = Timed_Out Pf_Slept"
    using assms s by (auto simp: pf_spinning_def)
  then show ?thesis
  proof cases
    case 1
    then show ?thesis by (intro exI [of _ 1]) (simp add: s)
  next
    case 2
    then show ?thesis by (intro exI [of _ 0]) (simp add: s)
  next
    case 3
    then show ?thesis by (intro exI [of _ 3]) (simp add: s eval_nat_numeral)
  next
    case 4
    then show ?thesis by (intro exI [of _ 2]) (simp add: s eval_nat_numeral)
  qed
qed

text \<open>C40: A stop that comes while the function is being called is not heard as long as the function returns true.
  There is a run that never ends and begins, in a state that a runner and one other thread reach, right after
  \<open>stop\<close> was called: the state is stopping, the runner is inside its first call of the function and \<open>stop\<close> sleeps.
  In it \<open>stop\<close> sleeps for ever, and the function is called again infinitely often, because the head of
  the loop sets the state back to running.\<close>

theorem periodic_stop_ignored:
  "\<exists>m ps. mo_reach pf_monitor (pf_new msecs) [Run Pf_Start, Run Pf_Out] (m 0) (ps 0) \<and>
     pf_state (m 0) = PF_STOPPING \<and> pf_count (m 0) = 0 \<and> ps 0 = [Run Pf_Calling, Parked State_Cv Pf_Stopped] \<and>
     (\<forall>i. mo_step pf_monitor (m i) (ps i) (m (Suc i)) (ps (Suc i)) \<and> ps i ! 1 = Parked State_Cv Pf_Stopped) \<and>
     infinite {i :: nat. ps i ! 0 = Run Pf_Calling}"
proof -
  let ?q = "Parked State_Cv Pf_Stopped" and ?s0 = "((pf_new msecs)\<lparr>pf_state := PF_STOPPING\<rparr>, Run Pf_Calling)"
  define s where "s i = (pf_spin ^^ i) ?s0" for i
  let ?m = "\<lambda>i. fst (s i)" and ?ps = "\<lambda>i. [snd (s i), ?q]"
  have suc: "pf_spin (s i) = s (Suc i)" for i by (simp add: s_def)
  have spinning: "pf_spinning (snd (s i))" for i
  proof (induction i)
    case 0
    show ?case by (simp add: s_def pf_spinning_def)
  next
    case (Suc i)
    then show ?case using pf_spin_step [of "snd (s i)" "fst (s i)" "fst (s (Suc i))" "snd (s (Suc i))"] suc by simp
  qed
  have "mo_step pf_monitor (?m i) (?ps i) (?m (Suc i)) (?ps (Suc i))" for i
    using pf_spin_step [OF spinning [of i], of "fst (s i)" "fst (s (Suc i))" "snd (s (Suc i))" ?q] suc by simp
  moreover have "mo_reach pf_monitor (pf_new msecs) [Run Pf_Start, Run Pf_Out] (?m 0) (?ps 0)"
    unfolding s_def
    by (rule pf_reach_call [OF pf_reach_calling, where t = 1 and h = Pf_Out and op = Pf_Stop]) (simp_all add: pf_sections pf_monitor_simps)
  moreover have "infinite {i. ?ps i ! 0 = Run Pf_Calling}"
  proof (unfold infinite_nat_iff_unbounded_le, intro allI)
    fix k
    obtain j where "snd ((pf_spin ^^ j) (s k)) = Run Pf_Calling" using pf_spin_calls [OF spinning] by blast
    then have "snd (s (j + k)) = Run Pf_Calling" by (simp add: s_def funpow_add)
    then show "\<exists>i \<ge> k. i \<in> {i. ?ps i ! 0 = Run Pf_Calling}" by (intro exI [of _ "j + k"]) simp
  qed
  ultimately show ?thesis
    by (intro exI [of _ ?m] exI [of _ ?ps]) (simp add: s_def pf_new_def)
qed

text \<open>A stop can be lost altogether: the pause has timed out and the runner is about to take the mutex when
  \<open>stop\<close> comes, notifies nobody and goes to sleep; the runner sets the state back to running, and when the
  function then returns false it ends without a notification. Nobody is left to wake \<open>stop\<close>.\<close>

theorem periodic_stop_lost:
  "\<exists>m. mo_reach pf_monitor (pf_new msecs) [Run Pf_Start, Run Pf_Out] m [Run Pf_Out, Parked State_Cv Pf_Stopped] \<and>
     pf_state m = PF_IDLE"
proof -
  let ?R = "mo_reach pf_monitor (pf_new msecs) [Run Pf_Start, Run Pf_Out]"
  let ?m = "(pf_new msecs)\<lparr>pf_state := PF_SLEEPING, pf_count := 1\<rparr>"
  have "?R ?m [Timed_Out Pf_Slept, Run Pf_Out]"
    by (rule pf_reach_pause_ends [OF pf_reach_sleeping, where t = 0]) simp_all
  then have "?R (?m\<lparr>pf_state := PF_STOPPING\<rparr>) [Timed_Out Pf_Slept, Parked State_Cv Pf_Stopped]"
    by (rule mo_reach_call [where t = 1 and h = Pf_Out and op = Pf_Stop and late = False and r = "Wait State_Cv Pf_Stopped" and ns = "[One Running_Cv]"])
      (simp_all add: pf_sections pf_monitor_simps notified.nobody notified.nothing)
  then have "?R (?m\<lparr>pf_state := PF_STOPPING\<rparr>) [Run Pf_Loop, Parked State_Cv Pf_Stopped]"
    by (rule pf_reach_pause_over [where t = 0]) simp_all
  then have "?R (?m\<lparr>pf_state := PF_RUNNING\<rparr>) [Run Pf_Calling, Parked State_Cv Pf_Stopped]"
    by (rule pf_reach_call [where t = 0 and h = Pf_Loop and op = Pf_Begin]) (simp_all add: pf_sections pf_monitor_simps)
  then have "?R (?m\<lparr>pf_state := PF_RUNNING, pf_count := 2\<rparr>) [Run Pf_Leaving, Parked State_Cv Pf_Stopped]"
    by (rule pf_reach_call [where t = 0 and h = Pf_Calling and op = "Pf_End False"]) (simp_all add: pf_sections pf_monitor_simps)
  then have "?R (?m\<lparr>pf_state := PF_IDLE, pf_count := 2\<rparr>) [Run Pf_Out, Parked State_Cv Pf_Stopped]"
    by (rule pf_reach_call [where t = 0 and h = Pf_Leaving and op = Pf_Leave]) (simp_all add: pf_sections pf_monitor_simps)
  then show ?thesis by (intro exI conjI) auto
qed

end
