(* ===== verification/Zi_Thread_Info.thy ===== *)
theory Zi_Thread_Info
  imports Zi_Sync
begin

text \<open>
  The life of one thread: \<^verbatim>\<open>zi/concurrency/detail/thread_info.hpp\<close> as a monitor, and the function \<open>ENTRY\<close> of
  \<^verbatim>\<open>zi/concurrency/pthread/thread.hpp\<close>, which a new thread runs and whose calls ignore their results. The
  runnable is arbitrary; it may sleep through \<open>this_thread::sleep\<close>, any number of times. Identifiers and
  handles are numbers. \<open>self_\<close> is a flag: whether the object keeps itself alive.
\<close>

section \<open>The class\<close>

datatype ti_state = TI_CREATED | TI_INITIALIZED | TI_STARTING | TI_RUNNING | TI_SLEEPING | TI_JOINING | TI_JOINED

record thread_info =
  ti_state :: ti_state
  ti_detached :: bool
  ti_self :: bool
  ti_handle :: nat
  ti_id :: nat
  ti_parent :: nat

text \<open>\<open>state_cv_\<close> and \<open>sleep_cv_\<close>; \<open>join_cv_\<close> is not used.\<close>

datatype ti_cv = Ti_State_Cv | Ti_Sleep_Cv

datatype ti_op = Ti_Initialize nat bool | Ti_Get_Ptr | Ti_Before_Start nat nat | Ti_Run | Ti_Run_End
  | Ti_Before_Join | Ti_Detach | Ti_Sleep | Ti_Slept | Ti_Join | Ti_Join_Wait | Ti_Wake

text \<open>Where a thread stands: a client of the object; the thread made for it, before \<open>get_ptr\<close>, before
  \<open>on_before_start\<close>, before \<open>run\<close>, inside the runnable, before \<open>on_before_join\<close>, at its end.\<close>

datatype ti_hold = Ti_Client | Ti_Entry | Ti_Starting | Ti_Running | Ti_Executing | Ti_Finishing | Ti_Ended

type_synonym ti_section = "(thread_info, ti_cv, ti_op) critical"

definition ti_new :: thread_info where
  "ti_new = \<lparr>ti_state = TI_CREATED, ti_detached = False, ti_self = False, ti_handle = 0, ti_id = 0, ti_parent = 0\<rparr>"

definition ti_initialize :: "nat \<Rightarrow> bool \<Rightarrow> thread_info \<Rightarrow> ti_section" where
  "ti_initialize parent detached m =
     (if ti_state m \<noteq> TI_CREATED then (Return False, m, [])
      else (Return True, m\<lparr>ti_self := True, ti_parent := parent, ti_detached := detached, ti_state := TI_INITIALIZED\<rparr>, []))"

text \<open>The result is the pointer: false when it is null and the assertion fails.\<close>

definition ti_get_ptr :: "thread_info \<Rightarrow> ti_section" where
  "ti_get_ptr m = (Return (ti_self m), m, [])"

definition ti_on_before_start :: "nat \<Rightarrow> nat \<Rightarrow> thread_info \<Rightarrow> ti_section" where
  "ti_on_before_start i handle m =
     (if ti_state m \<noteq> TI_INITIALIZED then (Return False, m, [])
      else (Return True, m\<lparr>ti_id := i, ti_handle := handle, ti_state := TI_STARTING\<rparr>, []))"

definition ti_run :: "thread_info \<Rightarrow> ti_section" where
  "ti_run m = (if ti_state m \<noteq> TI_STARTING then (Return False, m, []) else (Return True, m\<lparr>ti_state := TI_RUNNING\<rparr>, []))"

definition ti_run_end :: "thread_info \<Rightarrow> ti_section" where
  "ti_run_end m = (if ti_state m \<noteq> TI_RUNNING then (Return False, m, []) else (Return True, m\<lparr>ti_state := TI_JOINING\<rparr>, []))"

definition ti_on_before_join :: "thread_info \<Rightarrow> ti_section" where
  "ti_on_before_join m =
     (if ti_state m \<noteq> TI_JOINING then (Return False, m, [])
      else (Return True, m\<lparr>ti_state := TI_JOINED, ti_self := False\<rparr>, [All Ti_State_Cv]))"

definition ti_detach :: "thread_info \<Rightarrow> ti_section" where
  "ti_detach m = (Return True, m\<lparr>ti_detached := True\<rparr>, [All Ti_State_Cv])"

definition ti_sleep :: "thread_info \<Rightarrow> ti_section" where
  "ti_sleep m =
     (if ti_state m = TI_RUNNING then (Wait Ti_Sleep_Cv Ti_Slept, m\<lparr>ti_state := TI_SLEEPING\<rparr>, [])
      else (Return False, m, []))"

definition ti_slept :: "bool \<Rightarrow> thread_info \<Rightarrow> ti_section" where
  "ti_slept awaken m =
     (Return (\<not> awaken), if ti_state m = TI_SLEEPING then m\<lparr>ti_state := TI_RUNNING\<rparr> else m, [])"

definition ti_join_wait :: "thread_info \<Rightarrow> ti_section" where
  "ti_join_wait m =
     (if ti_state m \<noteq> TI_JOINED
      then if ti_detached m then (Return False, m, []) else (Wait Ti_State_Cv Ti_Join_Wait, m, [])
      else (Return True, m, []))"

definition ti_join :: "thread_info \<Rightarrow> ti_section" where
  "ti_join m = (if ti_detached m then (Return False, m, []) else ti_join_wait m)"

definition ti_wake :: "thread_info \<Rightarrow> ti_section" where
  "ti_wake m = (Return True, m, if ti_state m = TI_SLEEPING then [One Ti_Sleep_Cv] else [])"

fun ti_call :: "ti_op \<Rightarrow> thread_info \<Rightarrow> ti_section" where
  "ti_call (Ti_Initialize parent detached) m = ti_initialize parent detached m"
| "ti_call Ti_Get_Ptr m = ti_get_ptr m"
| "ti_call (Ti_Before_Start i handle) m = ti_on_before_start i handle m"
| "ti_call Ti_Run m = ti_run m"
| "ti_call Ti_Run_End m = ti_run_end m"
| "ti_call Ti_Before_Join m = ti_on_before_join m"
| "ti_call Ti_Detach m = ti_detach m"
| "ti_call Ti_Sleep m = ti_sleep m"
| "ti_call Ti_Slept m = ti_slept True m"
| "ti_call Ti_Join m = ti_join m"
| "ti_call Ti_Join_Wait m = ti_join_wait m"
| "ti_call Ti_Wake m = ti_wake m"

text \<open>\<open>start\<close> initializes the object before it creates the thread; \<open>pthread_self\<close> is not null.\<close>

fun ti_may :: "ti_op \<Rightarrow> ti_hold \<Rightarrow> thread_info \<Rightarrow> bool" where
  "ti_may Ti_Get_Ptr h m = (h = Ti_Entry \<and> ti_state m \<noteq> TI_CREATED)"
| "ti_may (Ti_Before_Start i handle) h m = (h = Ti_Starting \<and> i \<noteq> 0)"
| "ti_may Ti_Run h m = (h = Ti_Running)"
| "ti_may Ti_Run_End h m = (h = Ti_Executing)"
| "ti_may Ti_Sleep h m = (h = Ti_Executing)"
| "ti_may Ti_Before_Join h m = (h = Ti_Finishing)"
| "ti_may Ti_Slept h m = False"
| "ti_may Ti_Join_Wait h m = False"
| "ti_may op h m = (h = Ti_Client)"

text \<open>What \<open>ENTRY\<close> does next; a null pointer ends it.\<close>

fun ti_entry_after :: "ti_op \<Rightarrow> bool \<Rightarrow> ti_hold" where
  "ti_entry_after Ti_Get_Ptr b = (if b then Ti_Starting else Ti_Ended)"
| "ti_entry_after (Ti_Before_Start i handle) b = Ti_Running"
| "ti_entry_after Ti_Run b = (if b then Ti_Executing else Ti_Finishing)"
| "ti_entry_after Ti_Run_End b = Ti_Finishing"
| "ti_entry_after Ti_Before_Join b = Ti_Ended"
| "ti_entry_after Ti_Sleep b = Ti_Executing"
| "ti_entry_after Ti_Slept b = Ti_Executing"
| "ti_entry_after op b = Ti_Client"

definition ti_monitor :: "(thread_info, ti_hold, ti_cv, ti_op) monitor" where
  "ti_monitor = \<lparr>mo_may = ti_may, mo_call = \<lambda>op late. ti_call op, mo_resume = \<lambda>op late. ti_call op,
     mo_timed = \<lambda>op. op = Ti_Slept, mo_expire = \<lambda>op. ti_slept False, mo_after = ti_entry_after\<rparr>"

lemma ti_monitor_simps:
  "mo_may ti_monitor op h m = ti_may op h m" "mo_call ti_monitor op late m = ti_call op m"
  "mo_resume ti_monitor op late m = ti_call op m" "mo_timed ti_monitor op = (op = Ti_Slept)"
  "mo_expire ti_monitor op m = ti_slept False m" "mo_after ti_monitor op b = ti_entry_after op b"
  by (simp_all add: ti_monitor_def)

lemmas ti_sections = ti_initialize_def ti_get_ptr_def ti_on_before_start_def ti_run_def ti_run_end_def
  ti_on_before_join_def ti_detach_def ti_sleep_def ti_slept_def ti_join_wait_def ti_join_def ti_wake_def

section \<open>Invariants\<close>

text \<open>Threads inside the runnable, awake or asleep.\<close>

fun executing :: "(ti_hold, ti_cv, ti_op) phase \<Rightarrow> bool" where
  "executing (Run h) = (h = Ti_Executing)"
| "executing (Parked cv op) = (op = Ti_Slept)"
| "executing (Woken op) = (op = Ti_Slept)"
| "executing (Timed_Out op) = (op = Ti_Slept)"

definition ti_active :: "ti_state \<Rightarrow> bool" where
  "ti_active s \<longleftrightarrow> s = TI_RUNNING \<or> s = TI_SLEEPING"

fun ti_fits :: "ti_state \<Rightarrow> (ti_hold, ti_cv, ti_op) phase \<Rightarrow> bool" where
  "ti_fits s (Run h) = (h = Ti_Executing \<longrightarrow> s = TI_RUNNING)"
| "ti_fits s (Parked cv op) =
     (op = Ti_Slept \<and> cv = Ti_Sleep_Cv \<and> s = TI_SLEEPING \<or> op = Ti_Join_Wait \<and> cv = Ti_State_Cv \<and> s \<noteq> TI_JOINED)"
| "ti_fits s (Woken op) = (op = Ti_Slept \<and> s = TI_SLEEPING \<or> op = Ti_Join_Wait)"
| "ti_fits s (Timed_Out op) = (op = Ti_Slept \<and> s = TI_SLEEPING)"

definition ti_inv :: "thread_info \<Rightarrow> (ti_hold, ti_cv, ti_op) phase list \<Rightarrow> bool" where
  "ti_inv m ps \<longleftrightarrow> num_of executing ps = of_bool (ti_active (ti_state m)) \<and>
     (\<forall>p \<in> set ps. ti_fits (ti_state m) p) \<and>
     ti_self m = (ti_state m \<noteq> TI_CREATED \<and> ti_state m \<noteq> TI_JOINED)"

lemma executing_wake [simp]: "executing (wake p) = executing p"
  by (cases p) auto

lemma ti_fits_woken: "ti_fits s (Parked cv op) \<Longrightarrow> ti_fits s (Woken op)"
  by auto

lemma ti_fits_other: "ti_fits s p \<Longrightarrow> \<not> executing p \<Longrightarrow> ti_fits s' p \<or> p = Parked Ti_State_Cv Ti_Join_Wait"
  by (cases p) auto

lemma ti_fits_notified:
  assumes n: "notified ns qs ps'" and q: "\<forall>x \<in> set qs. ti_fits s x \<or> x = Parked Ti_State_Cv Ti_Join_Wait"
    and j: "s = TI_JOINED \<longrightarrow> All Ti_State_Cv \<in> set ns"
  shows "\<forall>x \<in> set ps'. ti_fits s x"
proof
  fix x assume x: "x \<in> set ps'"
  have "ti_fits s x \<or> x = Parked Ti_State_Cv Ti_Join_Wait"
    using notified_in [OF n x] q ti_fits_woken by fastforce
  moreover have "\<not> parked_on Ti_State_Cv x" if "s = TI_JOINED"
    using notified_all_none [OF n, of Ti_State_Cv] j x that by (simp add: num_of_0)
  ultimately show "ti_fits s x" by auto
qed

lemma ti_update:
  assumes inv: "ti_inv m ps" and t: "t < length ps" "ps ! t = p" and n: "notified ns (ps[t := q]) ps'"
    and q: "ti_fits (ti_state m') q"
    and s: "ti_state m' = ti_state m \<or> executing p \<or> \<not> ti_active (ti_state m)"
    and j: "ti_state m' = TI_JOINED \<longrightarrow> ti_state m = TI_JOINED \<or> All Ti_State_Cv \<in> set ns \<and> \<not> executing q"
    and c: "of_bool (ti_active (ti_state m')) + of_bool (executing p) =
      of_bool (ti_active (ti_state m)) + (of_bool (executing q) :: nat)"
    and self: "ti_self m' = (ti_state m' \<noteq> TI_CREATED \<and> ti_state m' \<noteq> TI_JOINED)"
  shows "ti_inv m' ps'"
proof -
  have num: "num_of executing ps = of_bool (ti_active (ti_state m))" and fits: "\<forall>x \<in> set ps. ti_fits (ti_state m) x"
    using inv by (auto simp: ti_inv_def)
  have "num_of executing ps' + of_bool (executing p) = num_of executing ps + of_bool (executing q)"
    using notified_num_of [OF n, of executing] num_of_update [OF t(1), of executing q] t(2) by simp
  with c num have "num_of executing ps' = of_bool (ti_active (ti_state m'))" by linarith
  moreover have "\<forall>x \<in> set ps'. ti_fits (ti_state m') x"
  proof (cases "ti_state m' = ti_state m")
    case True
    have "\<forall>x \<in> set (ps[t := q]). ti_fits (ti_state m) x"
      using fits q True set_update_subset_insert [of ps t q] by auto
    with True show ?thesis
      using notified_ball [where P = "ti_fits (ti_state m)", OF n] ti_fits_woken by metis
  next
    case False
    show ?thesis
    proof (rule ti_fits_notified [OF n])
      show "ti_state m' = TI_JOINED \<longrightarrow> All Ti_State_Cv \<in> set ns" using j False by auto
      show "\<forall>x \<in> set (ps[t := q]). ti_fits (ti_state m') x \<or> x = Parked Ti_State_Cv Ti_Join_Wait"
      proof
        fix x assume x: "x \<in> set (ps[t := q])"
        have "x = q \<or> x \<in> set ps \<and> \<not> executing x"
        proof (cases "executing p")
          case True
          then show ?thesis using others_not [of executing, OF _ t(1) _ x] num t(2) by simp
        next
          case no: False
          with s False num have "num_of executing ps = 0" by simp
          with x set_update_subset_insert [of ps t q] show ?thesis by (auto simp: num_of_0)
        qed
        with q fits ti_fits_other show "ti_fits (ti_state m') x \<or> x = Parked Ti_State_Cv Ti_Join_Wait" by blast
      qed
    qed
  qed
  ultimately show ?thesis using self by (simp add: ti_inv_def)
qed

lemma ti_phase:
  assumes "ti_inv m ps" "t < length ps" "ps ! t = p"
  shows "ti_fits (ti_state m) p" "executing p \<longrightarrow> ti_active (ti_state m)"
    "ti_self m = (ti_state m \<noteq> TI_CREATED \<and> ti_state m \<noteq> TI_JOINED)"
proof -
  show fits: "ti_fits (ti_state m) p" using assms by (metis nth_mem ti_inv_def)
  then show "executing p \<longrightarrow> ti_active (ti_state m)" by (cases p) (auto simp: ti_active_def)
  show "ti_self m = (ti_state m \<noteq> TI_CREATED \<and> ti_state m \<noteq> TI_JOINED)" using assms(1) by (simp add: ti_inv_def)
qed

interpretation ti: monitor_invariant ti_monitor ti_inv
proof (unfold_locales, goal_cases)
  case (1 m ps t h op late r m' ns ps')
  note ph = ti_phase [OF 1(1-3)]
  show ?case
    by (rule ti_update [OF 1(1-3) 1(6)])
      (use 1(4,5) ph in \<open>cases op; auto simp: ti_monitor_simps ti_sections ti_active_def split: if_splits\<close>)+
next
  case (2 m ps t op late r m' ns ps')
  note ph = ti_phase [OF 2(1-3)]
  show ?case
    by (rule ti_update [OF 2(1-3) 2(5)])
      (use 2(4) ph in \<open>auto simp: ti_monitor_simps ti_sections ti_active_def split: if_splits\<close>)
next
  case (3 m ps t cv op)
  show ?case
    by (rule ti_update [OF 3 notified.nothing]) (use ti_phase [OF 3] in auto)
next
  case (4 m ps t cv op)
  show ?case
    by (rule ti_update [OF 4(1-3) notified.nothing]) (use ti_phase [OF 4(1-3)] 4(4) in \<open>auto simp: ti_monitor_simps\<close>)
next
  case (5 m ps t op r m' ns ps')
  note ph = ti_phase [OF 5(1-3)]
  show ?case
    by (rule ti_update [OF 5(1-3) 5(5)])
      (use 5(4) ph in \<open>auto simp: ti_monitor_simps ti_sections ti_active_def split: if_splits\<close>)
qed

text \<open>The states of a thread only go forward; asleep counts as running.\<close>

fun ti_rank :: "ti_state \<Rightarrow> nat" where
  "ti_rank TI_CREATED = 0"
| "ti_rank TI_INITIALIZED = 1"
| "ti_rank TI_STARTING = 2"
| "ti_rank TI_RUNNING = 3"
| "ti_rank TI_SLEEPING = 3"
| "ti_rank TI_JOINING = 4"
| "ti_rank TI_JOINED = 5"

lemma ti_call_rank: "ti_call op m = (r, m', ns) \<Longrightarrow> ti_rank (ti_state m) \<le> ti_rank (ti_state m')"
  by (cases op) (auto simp: ti_sections split: if_splits)

lemma ti_step_rank: "mo_step ti_monitor m ps m' ps' \<Longrightarrow> ti_rank (ti_state m) \<le> ti_rank (ti_state m')"
  by (induction rule: mo_step.induct)
    (auto simp: ti_monitor_simps ti_slept_def split: if_splits dest: ti_call_rank)

lemma ti_reach_rank: "mo_reach ti_monitor m ps m' ps' \<Longrightarrow> ti_rank (ti_state m) \<le> ti_rank (ti_state m')"
  by (induction rule: mo_reach.induct) (auto dest: ti_step_rank)

text \<open>Threads running \<open>ENTRY\<close>, and where one stands in each state when it is the only one.\<close>

fun entering :: "(ti_hold, ti_cv, ti_op) phase \<Rightarrow> bool" where
  "entering (Run h) = (h \<noteq> Ti_Client)"
| "entering (Parked cv op) = (op = Ti_Slept)"
| "entering (Woken op) = (op = Ti_Slept)"
| "entering (Timed_Out op) = (op = Ti_Slept)"

fun entry_fits :: "ti_state \<Rightarrow> (ti_hold, ti_cv, ti_op) phase \<Rightarrow> bool" where
  "entry_fits s (Run h) =
     (case h of Ti_Client \<Rightarrow> True | Ti_Entry \<Rightarrow> s = TI_CREATED \<or> s = TI_INITIALIZED | Ti_Starting \<Rightarrow> s = TI_INITIALIZED
      | Ti_Running \<Rightarrow> s = TI_STARTING | Ti_Executing \<Rightarrow> s = TI_RUNNING | Ti_Finishing \<Rightarrow> s = TI_JOINING | Ti_Ended \<Rightarrow> s = TI_JOINED)"
| "entry_fits s p = (entering p \<longrightarrow> s = TI_SLEEPING)"

definition entry_inv :: "thread_info \<Rightarrow> (ti_hold, ti_cv, ti_op) phase list \<Rightarrow> bool" where
  "entry_inv m ps \<longleftrightarrow> ti_inv m ps \<and> num_of entering ps \<le> 1 \<and> (\<forall>p \<in> set ps. entry_fits (ti_state m) p)"

lemma entering_wake [simp]: "entering (wake p) = entering p"
  by (cases p) auto

lemma entry_fits_other: "\<not> entering p \<Longrightarrow> entry_fits s p"
  by (cases p) auto

lemma entry_update:
  assumes inv: "entry_inv m ps" and inv': "ti_inv m' ps'"
    and t: "t < length ps" "ps ! t = p" and n: "notified ns (ps[t := q]) ps'"
    and q: "entry_fits (ti_state m') q" "entering q \<longrightarrow> entering p"
    and s: "ti_state m' = ti_state m \<or> entering p \<or> ti_state m = TI_CREATED \<and> ti_state m' = TI_INITIALIZED"
  shows "entry_inv m' ps'"
proof -
  have le: "num_of entering ps \<le> 1" and fits: "\<forall>x \<in> set ps. entry_fits (ti_state m) x" using inv by (auto simp: entry_inv_def)
  have "num_of entering ps' + of_bool (entering p) = num_of entering ps + of_bool (entering q)"
    using notified_num_of [OF n, of entering] num_of_update [OF t(1), of entering q] t(2) by simp
  then have "num_of entering ps' \<le> 1" using le q(2) by (cases "entering p"; cases "entering q") auto
  moreover have "\<forall>x \<in> set (ps[t := q]). entry_fits (ti_state m') x"
  proof
    fix x assume x: "x \<in> set (ps[t := q])"
    show "entry_fits (ti_state m') x"
    proof (cases "entering p")
      case True
      with others_not [of entering, OF le t(1) _ x] t(2) have "x = q \<or> x \<in> set ps \<and> \<not> entering x" by simp
      with q(1) entry_fits_other show ?thesis by blast
    next
      case False
      have "entry_fits TI_CREATED y \<Longrightarrow> entry_fits TI_INITIALIZED y" for y
        by (cases y) (auto split: ti_hold.splits)
      with False s x set_update_subset_insert [of ps t q] fits q(1) show ?thesis by fastforce
    qed
  qed
  then have "\<forall>x \<in> set ps'. entry_fits (ti_state m') x" by (rule notified_ball [where P = "entry_fits (ti_state m')", OF n]) auto
  ultimately show ?thesis using inv' by (simp add: entry_inv_def)
qed

lemma entry_phase: "entry_inv m ps \<Longrightarrow> t < length ps \<Longrightarrow> ps ! t = p \<Longrightarrow> entry_fits (ti_state m) p"
  by (metis nth_mem entry_inv_def)

interpretation entry: monitor_invariant ti_monitor entry_inv
proof (unfold_locales, goal_cases)
  case (1 m ps t h op late r m' ns ps')
  have inv: "ti_inv m ps" using 1(1) by (simp add: entry_inv_def)
  note ph = entry_phase [OF 1(1-3)] ti_phase(3) [OF inv 1(2,3)]
  show ?case
    by (rule entry_update [OF 1(1) ti.I_call [OF inv 1(2-6)] 1(2,3,6)])
      (use 1(4,5) ph in \<open>cases op; auto simp: ti_monitor_simps ti_sections split: if_splits\<close>)+
next
  case (2 m ps t op late r m' ns ps')
  have inv: "ti_inv m ps" using 2(1) by (simp add: entry_inv_def)
  note ph = entry_phase [OF 2(1-3)] ti_phase(1) [OF inv 2(2,3)]
  show ?case
    by (rule entry_update [OF 2(1) ti.I_resume [OF inv 2(2-5)] 2(2,3,5)])
      (use 2(4) ph in \<open>auto simp: ti_monitor_simps ti_sections split: if_splits\<close>)
next
  case (3 m ps t cv op)
  have inv: "ti_inv m ps" using 3(1) by (simp add: entry_inv_def)
  show ?case
    by (rule entry_update [OF 3(1) ti.I_spurious [OF inv 3(2,3)] 3(2,3) notified.nothing])
      (use entry_phase [OF 3] in auto)
next
  case (4 m ps t cv op)
  have inv: "ti_inv m ps" using 4(1) by (simp add: entry_inv_def)
  show ?case
    by (rule entry_update [OF 4(1) ti.I_timeout [OF inv 4(2-4)] 4(2,3) notified.nothing])
      (use entry_phase [OF 4(1-3)] in auto)
next
  case (5 m ps t op r m' ns ps')
  have inv: "ti_inv m ps" using 5(1) by (simp add: entry_inv_def)
  note ph = entry_phase [OF 5(1-3)] ti_phase(1) [OF inv 5(2,3)]
  show ?case
    by (rule entry_update [OF 5(1) ti.I_expire [OF inv 5(2-5)] 5(2,3,5)])
      (use 5(4) ph in \<open>auto simp: ti_monitor_simps ti_sections split: if_splits\<close>)
qed

section \<open>What a thread goes through\<close>

lemma ti_start_inv: "ti_inv ti_new (replicate k (Run Ti_Entry) @ replicate n (Run Ti_Client))"
  by (auto simp: ti_inv_def ti_new_def ti_active_def num_of_def)

lemma entry_start_inv: "entry_inv ti_new (Run Ti_Entry # replicate n (Run Ti_Client))"
  using ti_start_inv [of 1 n] by (auto simp: entry_inv_def ti_new_def num_of_def)

text \<open>C21: Any number of clients join, wake and detach a thread, and any number of threads run \<open>ENTRY\<close> for it (\<open>start\<close>
  may be called again). In every state they reach, the runnable is executed by one thread exactly while the
  state is running or sleeping, and by none otherwise, so a join that returns true comes after it; nobody
  is left asleep in \<open>join\<close> once the thread has ended; the object keeps itself alive from \<open>initialize\<close> to its
  end and no longer; and the state never goes back.\<close>

theorem thread_life:
  assumes "mo_reach ti_monitor ti_new (replicate k (Run Ti_Entry) @ replicate n (Run Ti_Client)) m ps"
  shows "num_of executing ps = of_bool (ti_active (ti_state m)) \<and>
    (ti_state m = TI_JOINED \<longrightarrow> num_of (parked_on Ti_State_Cv) ps = 0) \<and>
    (ti_join_wait m = (Return True, m, []) \<longrightarrow> num_of executing ps = 0) \<and>
    ti_self m = (ti_state m \<noteq> TI_CREATED \<and> ti_state m \<noteq> TI_JOINED) \<and>
    (\<forall>m' ps'. mo_reach ti_monitor m ps m' ps' \<longrightarrow> ti_rank (ti_state m) \<le> ti_rank (ti_state m'))"
proof -
  have inv: "ti_inv m ps" by (rule ti.reach_invariant [OF assms ti_start_inv])
  have "\<not> parked_on Ti_State_Cv p" if "ti_state m = TI_JOINED" "p \<in> set ps" for p
  proof -
    have "ti_fits TI_JOINED p" using inv that by (auto simp: ti_inv_def)
    then show ?thesis by (cases p) auto
  qed
  moreover have "ti_join_wait m = (Return True, m, []) \<longrightarrow> \<not> ti_active (ti_state m)"
    by (auto simp: ti_join_wait_def ti_active_def split: if_splits)
  ultimately show ?thesis using inv ti_reach_rank by (auto simp: ti_inv_def num_of_0)
qed

text \<open>C20: When \<open>start\<close> is called once, the thread it creates gets through: whatever the clients do, no call of \<open>ENTRY\<close>
  finds the object in the wrong state (none returns false, although \<open>ENTRY\<close> would not notice), and the thread
  stands where the state says; in particular it has ended exactly in the state joined.\<close>

theorem thread_entry_succeeds:
  assumes "mo_reach ti_monitor ti_new (Run Ti_Entry # replicate n (Run Ti_Client)) m ps"
  shows "(\<forall>p \<in> set ps. entry_fits (ti_state m) p) \<and>
    (\<forall>h op. Run h \<in> set ps \<and> h \<noteq> Ti_Client \<and> ti_may op h m \<longrightarrow> fst (ti_call op m) \<noteq> Return False)"
proof -
  have "entry_inv m ps" by (rule entry.reach_invariant [OF assms entry_start_inv])
  then have fits: "\<forall>p \<in> set ps. entry_fits (ti_state m) p" and "ti_inv m ps" by (auto simp: entry_inv_def)
  then have self: "ti_self m = (ti_state m \<noteq> TI_CREATED \<and> ti_state m \<noteq> TI_JOINED)" by (simp add: ti_inv_def)
  have "fst (ti_call op m) \<noteq> Return False" if "Run h \<in> set ps" "h \<noteq> Ti_Client" "ti_may op h m" for h op
  proof -
    have "entry_fits (ti_state m) (Run h)" using fits that(1) by blast
    with that(2,3) self show ?thesis by (cases op) (auto simp: ti_sections)
  qed
  with fits show ?thesis by blast
qed

text \<open>Executions, step by step.\<close>

lemma ti_reach_call:
  assumes "mo_reach ti_monitor m0 ps0 m ps" "t < length ps" "ps ! t = Run h" "ti_may op h m"
    "snd (ti_call op m) = (m', ns)" "notified ns (ps[t := phase_after ti_monitor op (fst (ti_call op m))]) ps'"
  shows "mo_reach ti_monitor m0 ps0 m' ps'"
  by (rule mo_reach_call [OF assms(1-3), of op False "fst (ti_call op m)" m' ns])
    (use assms(4-6) in \<open>auto simp: ti_monitor_simps prod_eq_iff\<close>)

text \<open>The thread is detached when it is initialized, but that wakes nobody: a client that joined before the start
  stays asleep although \<open>join\<close> refuses detached threads, until the thread ends, and then \<open>join\<close> returns true.\<close>

theorem join_before_detached_start:
  "\<exists>m. mo_reach ti_monitor ti_new [Run Ti_Entry, Run Ti_Client, Run Ti_Client] m
      [Run Ti_Entry, Parked Ti_State_Cv Ti_Join_Wait, Run Ti_Client] \<and>
     ti_detached m \<and> fst (ti_join m) = Return False"
proof -
  let ?R = "mo_reach ti_monitor ti_new [Run Ti_Entry, Run Ti_Client, Run Ti_Client]"
  let ?m = "ti_new\<lparr>ti_self := True, ti_parent := 7, ti_detached := True, ti_state := TI_INITIALIZED\<rparr>"
  have "?R ti_new [Run Ti_Entry, Parked Ti_State_Cv Ti_Join_Wait, Run Ti_Client]"
    by (rule ti_reach_call [OF mo_reach.start, where t = 1 and h = Ti_Client and op = Ti_Join and ns = "[]"])
      (simp_all add: ti_sections ti_monitor_simps ti_new_def notified.nothing)
  then have "?R ?m [Run Ti_Entry, Parked Ti_State_Cv Ti_Join_Wait, Run Ti_Client]"
    by (rule ti_reach_call [where t = 2 and h = Ti_Client and op = "Ti_Initialize 7 True" and ns = "[]"])
      (simp_all add: ti_sections ti_monitor_simps ti_new_def notified.nothing)
  then show ?thesis by (intro exI [of _ ?m]) (simp add: ti_sections)
qed

lemma ti_reach_ended:
  "mo_reach ti_monitor ti_new [Run Ti_Entry, Run Ti_Entry, Run Ti_Client]
     \<lparr>ti_state = TI_JOINED, ti_detached = False, ti_self = False, ti_handle = 8, ti_id = 8, ti_parent = 7\<rparr>
     [Run Ti_Ended, Run Ti_Entry, Run Ti_Client]"
proof -
  let ?R = "mo_reach ti_monitor ti_new [Run Ti_Entry, Run Ti_Entry, Run Ti_Client]"
  let ?m = "ti_new\<lparr>ti_self := True, ti_parent := 7, ti_state := TI_INITIALIZED\<rparr>"
  let ?n = "?m\<lparr>ti_id := 8, ti_handle := 8\<rparr>"
  have "?R ?m [Run Ti_Entry, Run Ti_Entry, Run Ti_Client]"
    by (rule ti_reach_call [OF mo_reach.start, where t = 2 and h = Ti_Client and op = "Ti_Initialize 7 False" and ns = "[]"])
      (simp_all add: ti_sections ti_monitor_simps ti_new_def notified.nothing)
  then have "?R ?m [Run Ti_Starting, Run Ti_Entry, Run Ti_Client]"
    by (rule ti_reach_call [where t = 0 and h = Ti_Entry and op = Ti_Get_Ptr and ns = "[]"])
      (simp_all add: ti_sections ti_monitor_simps notified.nothing)
  then have "?R (?n\<lparr>ti_state := TI_STARTING\<rparr>) [Run Ti_Running, Run Ti_Entry, Run Ti_Client]"
    by (rule ti_reach_call [where t = 0 and h = Ti_Starting and op = "Ti_Before_Start 8 8" and ns = "[]"])
      (simp_all add: ti_sections ti_monitor_simps notified.nothing)
  then have "?R (?n\<lparr>ti_state := TI_RUNNING\<rparr>) [Run Ti_Executing, Run Ti_Entry, Run Ti_Client]"
    by (rule ti_reach_call [where t = 0 and h = Ti_Running and op = Ti_Run and ns = "[]"])
      (simp_all add: ti_sections ti_monitor_simps notified.nothing)
  then have "?R (?n\<lparr>ti_state := TI_JOINING\<rparr>) [Run Ti_Finishing, Run Ti_Entry, Run Ti_Client]"
    by (rule ti_reach_call [where t = 0 and h = Ti_Executing and op = Ti_Run_End and ns = "[]"])
      (simp_all add: ti_sections ti_monitor_simps notified.nothing)
  moreover have "notified [All Ti_State_Cv] [Run Ti_Ended, Run Ti_Entry, Run Ti_Client] [Run Ti_Ended, Run Ti_Entry, Run Ti_Client]"
    by (rule notified.all) (simp add: notify_all_def notified.nothing)
  ultimately show ?thesis
    by (elim ti_reach_call [where t = 0 and h = Ti_Finishing and op = Ti_Before_Join and ns = "[All Ti_State_Cv]"])
      (simp_all add: ti_sections ti_monitor_simps ti_new_def)
qed

text \<open>A second \<open>start\<close> creates a second thread although \<open>initialize\<close> refuses it; when the first has ended, \<open>get_ptr\<close>
  has no object to return to the second and its assertion fails.\<close>

theorem thread_started_twice:
  "\<exists>m. mo_reach ti_monitor ti_new [Run Ti_Entry, Run Ti_Entry, Run Ti_Client] m [Run Ti_Ended, Run Ti_Entry, Run Ti_Client] \<and>
     ti_may Ti_Get_Ptr Ti_Entry m \<and> fst (ti_get_ptr m) = Return False"
  using ti_reach_ended by (intro exI conjI) (auto simp: ti_sections)

theorem thread_life_witness:
  "num_of executing [Run Ti_Ended, Run Ti_Entry, Run Ti_Client :: (ti_hold, ti_cv, ti_op) phase] = 0"
proof -
  have e: "[Run Ti_Entry, Run Ti_Entry, Run Ti_Client] = replicate 2 (Run Ti_Entry) @ replicate 1 (Run Ti_Client)"
    by (simp add: numeral_2_eq_2)
  show ?thesis using thread_life [OF ti_reach_ended [unfolded e]] by (simp add: ti_active_def)
qed

theorem thread_entry_succeeds_witness:
  "fst (ti_call Ti_Get_Ptr (ti_new\<lparr>ti_self := True, ti_parent := 7, ti_state := TI_INITIALIZED\<rparr>)) \<noteq> Return False"
proof -
  let ?m = "ti_new\<lparr>ti_self := True, ti_parent := 7, ti_state := TI_INITIALIZED\<rparr>"
  have "mo_reach ti_monitor ti_new (Run Ti_Entry # replicate 1 (Run Ti_Client)) ?m [Run Ti_Entry, Run Ti_Client]"
    by (rule ti_reach_call [OF mo_reach.start, where t = 1 and h = Ti_Client and op = "Ti_Initialize 7 False" and ns = "[]"])
      (simp_all add: ti_sections ti_monitor_simps ti_new_def notified.nothing)
  from thread_entry_succeeds [OF this, THEN conjunct2, rule_format, of Ti_Entry Ti_Get_Ptr] show ?thesis by simp
qed

end
