(* ===== verification/Zi_All_Threads.thy ===== *)
theory Zi_All_Threads
  imports Zi_Sync
begin

text \<open>
  The table of all threads, \<^verbatim>\<open>zi/concurrency/detail/all_threads_data.hpp\<close> (with its front,
  \<^verbatim>\<open>all_threads.hpp\<close>), as a monitor. A thread is registered as pending by the thread that starts it, then as
  started and as finished by itself (\<^verbatim>\<open>pthread/thread.hpp\<close>); the three calls are attributed to the new thread. The
  counters are integers, shown to stay between zero and the number of threads. The constructor does not
  set \<open>pending_count_\<close>; the only object is static, so it starts at zero. The identifiers of live threads
  differ, as POSIX has it: a thread that starts has none of those in the table. The object a table
  maps an identifier to is a parameter \<open>'i\<close>.
\<close>

section \<open>The class\<close>

record 'i all_threads =
  at_pending :: int
  at_running :: int
  at_finished :: int
  at_dying :: bool
  at_threads :: "nat \<rightharpoonup> 'i"

datatype 'i at_op = At_Pending | At_Started nat 'i | At_Finished nat | At_Join_All | At_Join_Wait
  | At_Finished_Count | At_Started_Count | At_Active_Count

datatype at_hold = At_Client | At_New | At_Created | At_Live nat | At_Done

type_synonym 'i at_section = "('i all_threads, unit, 'i at_op) critical"

definition at_new :: "'i all_threads" where
  "at_new = \<lparr>at_pending = 0, at_running = 0, at_finished = 0, at_dying = False, at_threads = Map.empty\<rparr>"

definition at_join_wait :: "'i all_threads \<Rightarrow> 'i at_section" where
  "at_join_wait m = (if at_running m > 0 \<or> at_pending m > 0 then (Wait () At_Join_Wait, m, []) else (Return True, m, []))"

definition at_join_all :: "'i all_threads \<Rightarrow> 'i at_section" where
  "at_join_all m = at_join_wait (m\<lparr>at_dying := True\<rparr>)"

definition at_register_pending :: "'i all_threads \<Rightarrow> 'i at_section" where
  "at_register_pending m = (Return True, m\<lparr>at_pending := at_pending m + 1\<rparr>, [])"

definition at_register_started :: "nat \<Rightarrow> 'i \<Rightarrow> 'i all_threads \<Rightarrow> 'i at_section" where
  "at_register_started i info m =
     (Return True, m\<lparr>at_threads := (at_threads m)(i \<mapsto> info), at_running := at_running m + 1, at_pending := at_pending m - 1\<rparr>, [])"

text \<open>The result is what \<open>ZI_VERIFY\<close> checks: whether one entry was erased.\<close>

definition at_register_finished :: "nat \<Rightarrow> 'i all_threads \<Rightarrow> 'i at_section" where
  "at_register_finished i m =
     (let ok = i \<in> dom (at_threads m);
          m = m\<lparr>at_threads := (at_threads m)(i := None), at_running := at_running m - 1, at_finished := at_finished m + 1\<rparr>
      in (Return ok, m, if at_dying m \<and> at_running m = 0 then [All ()] else []))"

definition at_finished_count :: "'i all_threads \<Rightarrow> int" where
  "at_finished_count m = at_finished m"

definition at_started_count :: "'i all_threads \<Rightarrow> int" where
  "at_started_count m = at_finished m + at_running m"

definition at_active_count :: "'i all_threads \<Rightarrow> int" where
  "at_active_count m = at_running m"

definition at_get_thread :: "nat \<Rightarrow> 'i all_threads \<Rightarrow> 'i option" where
  "at_get_thread i m = at_threads m i"

text \<open>The assertions of the destructor, after its \<open>join_all\<close>.\<close>

definition at_valid_for_destruction :: "'i all_threads \<Rightarrow> bool" where
  "at_valid_for_destruction m \<longleftrightarrow> at_running m = 0 \<and> at_threads m = Map.empty"

fun at_call :: "'i at_op \<Rightarrow> 'i all_threads \<Rightarrow> 'i at_section" where
  "at_call At_Pending m = at_register_pending m"
| "at_call (At_Started i info) m = at_register_started i info m"
| "at_call (At_Finished i) m = at_register_finished i m"
| "at_call At_Join_All m = at_join_all m"
| "at_call At_Join_Wait m = at_join_wait m"
| "at_call At_Finished_Count m = (Return True, m, [])"
| "at_call At_Started_Count m = (Return True, m, [])"
| "at_call At_Active_Count m = (Return True, m, [])"

fun at_may :: "'i at_op \<Rightarrow> at_hold \<Rightarrow> 'i all_threads \<Rightarrow> bool" where
  "at_may At_Pending h m = (h = At_New)"
| "at_may (At_Started i info) h m = (h = At_Created \<and> at_threads m i = None)"
| "at_may (At_Finished i) h m = (h = At_Live i)"
| "at_may At_Join_Wait h m = False"
| "at_may op h m = (h = At_Client)"

fun at_after :: "'i at_op \<Rightarrow> at_hold" where
  "at_after At_Pending = At_Created"
| "at_after (At_Started i info) = At_Live i"
| "at_after (At_Finished i) = At_Done"
| "at_after op = At_Client"

definition at_monitor :: "('i all_threads, at_hold, unit, 'i at_op) monitor" where
  "at_monitor = \<lparr>mo_may = at_may, mo_call = \<lambda>op late. at_call op, mo_resume = \<lambda>op late. at_call op,
     mo_timed = \<lambda>op. False, mo_expire = \<lambda>op m. (Return False, m, []), mo_after = \<lambda>op b. at_after op\<rparr>"

lemma at_monitor_simps:
  "mo_may at_monitor op h m = at_may op h m" "mo_call at_monitor op late m = at_call op m"
  "mo_resume at_monitor op late m = at_call op m" "mo_timed at_monitor op = False"
  "mo_after at_monitor op b = at_after op"
  by (simp_all add: at_monitor_def)

lemmas at_sections = at_register_pending_def at_register_started_def at_register_finished_def at_join_all_def at_join_wait_def

section \<open>The counters count\<close>

fun at_live :: "(at_hold, unit, 'i at_op) phase \<Rightarrow> bool" where
  "at_live (Run h) = (\<exists>i. h = At_Live i)"
| "at_live _ = False"

abbreviation at_is :: "at_hold \<Rightarrow> (at_hold, unit, 'i at_op) phase \<Rightarrow> bool" where
  "at_is h p \<equiv> p = Run h"

fun at_phase_ok :: "bool \<Rightarrow> bool \<Rightarrow> (at_hold, unit, 'i at_op) phase \<Rightarrow> bool" where
  "at_phase_ok dying busy (Run h) = True"
| "at_phase_ok dying busy (Parked cv op) = (op = At_Join_Wait \<and> dying \<and> busy)"
| "at_phase_ok dying busy (Woken op) = (op = At_Join_Wait \<and> dying)"
| "at_phase_ok dying busy (Timed_Out op) = False"

definition at_busy :: "'i all_threads \<Rightarrow> bool" where
  "at_busy m \<longleftrightarrow> at_running m > 0 \<or> at_pending m > 0"

definition at_inv :: "'i all_threads \<Rightarrow> (at_hold, unit, 'i at_op) phase list \<Rightarrow> bool" where
  "at_inv m ps \<longleftrightarrow> at_pending m = int (num_of (at_is At_Created) ps) \<and> at_running m = int (num_of at_live ps) \<and>
     at_finished m = int (num_of (at_is At_Done) ps) \<and>
     (\<forall>i. num_of (at_is (At_Live i)) ps = of_bool (i \<in> dom (at_threads m))) \<and>
     (\<forall>p \<in> set ps. at_phase_ok (at_dying m) (at_busy m) p)"

lemma at_wake [simp]: "at_is h (wake p) = at_is h p" "at_live (wake p) = at_live p"
  by (cases p; simp)+

lemma at_phase_ok_any:
  "at_phase_ok d b p \<Longrightarrow> d \<longrightarrow> d' \<Longrightarrow> (b \<longrightarrow> b') \<or> \<not> parked_on () p \<Longrightarrow> at_phase_ok d' b' p"
  by (cases p) auto

lemma at_phases:
  assumes n: "notified ns qs ps'" and q: "\<forall>x \<in> set qs. at_phase_ok d b x" and b: "(b \<longrightarrow> b') \<or> All () \<in> set ns"
  shows "\<forall>x \<in> set ps'. at_phase_ok d b' x"
proof
  fix x assume x: "x \<in> set ps'"
  have "\<forall>x \<in> set ps'. at_phase_ok d b x" by (rule notified_ball [where P = "at_phase_ok d b", OF n q]) auto
  moreover have "\<not> parked_on () x" if "All () \<in> set ns"
    using notified_all_none [OF n that] x by (simp add: num_of_0)
  ultimately show "at_phase_ok d b' x" using at_phase_ok_any [of d b x d b'] b x by blast
qed

lemma at_count:
  assumes "t < length ps" "ps ! t = p" "notified ns (ps[t := q]) ps'" and Q: "\<And>p. Q (wake p) = Q p"
  shows "int (num_of Q ps') + of_bool (Q p) = int (num_of Q ps) + of_bool (Q q)"
proof -
  have "num_of Q ps' + of_bool (Q p) = num_of Q ps + of_bool (Q q)"
    using notified_num_of [of ns "ps[t := q]" ps' Q, OF assms(3) Q] num_of_update [OF assms(1), of Q q] assms(2) by simp
  from arg_cong [OF this, of int] show ?thesis by (simp only: of_nat_add of_nat_of_bool)
qed

lemma at_update:
  assumes inv: "at_inv m ps" and t: "t < length ps" "ps ! t = p" and n: "notified ns (ps[t := q]) ps'"
    and c: "at_pending m' + of_bool (at_is At_Created p) = at_pending m + of_bool (at_is At_Created q)"
      "at_running m' + of_bool (at_live p) = at_running m + of_bool (at_live q)"
      "at_finished m' + of_bool (at_is At_Done p) = at_finished m + of_bool (at_is At_Done q)"
    and d: "\<And>i. of_bool (i \<in> dom (at_threads m')) + of_bool (at_is (At_Live i) p) =
      of_bool (i \<in> dom (at_threads m)) + (of_bool (at_is (At_Live i) q) :: int)"
    and q: "at_phase_ok (at_dying m') (at_busy m') q"
    and b: "at_dying m \<longrightarrow> at_dying m'" "(at_busy m \<longrightarrow> at_busy m') \<or> All () \<in> set ns \<or> \<not> at_dying m \<and> \<not> at_dying m'"
  shows "at_inv m' ps'"
proof -
  let ?B = "at_busy m \<or> at_busy m'"
  note cnt = at_count [OF t n]
  have i: "at_pending m = int (num_of (at_is At_Created) ps)" "at_running m = int (num_of at_live ps)"
      "at_finished m = int (num_of (at_is At_Done) ps)"
      "int (num_of (at_is (At_Live i)) ps) = of_bool (i \<in> dom (at_threads m))" for i
    using inv by (simp_all add: at_inv_def)
  have "int (num_of (at_is (At_Live i)) ps') = of_bool (i \<in> dom (at_threads m'))" for i
    using cnt [of "at_is (At_Live i)", OF at_wake(1)] d [of i] i(4) [of i] by linarith
  then have "num_of (at_is (At_Live i)) ps' = of_bool (i \<in> dom (at_threads m'))" for i
    by (metis of_nat_eq_iff of_nat_of_bool)
  moreover have "\<forall>x \<in> set (ps[t := q]). at_phase_ok (at_dying m') ?B x"
  proof
    fix x assume "x \<in> set (ps[t := q])"
    with set_update_subset_insert [of ps t q] consider "x = q" | "x \<in> set ps" by auto
    then show "at_phase_ok (at_dying m') ?B x"
    proof cases
      case 1
      with at_phase_ok_any [OF q, of "at_dying m'" ?B] show ?thesis by simp
    next
      case 2
      with inv have "at_phase_ok (at_dying m) (at_busy m) x" by (simp add: at_inv_def)
      from at_phase_ok_any [OF this b(1), of ?B] show ?thesis by simp
    qed
  qed
  have "\<forall>x \<in> set ps'. at_phase_ok (at_dying m') (at_busy m') x"
  proof (cases "at_dying m \<or> at_dying m'")
    case True
    show ?thesis by (rule at_phases [OF n \<open>\<forall>x \<in> set (ps[t := q]). at_phase_ok (at_dying m') ?B x\<close>]) (use b True in blast)
  next
    case False
    have "at_phase_ok (at_dying m') b x \<Longrightarrow> \<not> at_dying m' \<Longrightarrow> at_phase_ok (at_dying m') b' x" for b b' x
      by (cases x) auto
    with at_phases [OF n \<open>\<forall>x \<in> set (ps[t := q]). at_phase_ok (at_dying m') ?B x\<close>, of ?B] False show ?thesis by blast
  qed
  moreover have "at_pending m' = int (num_of (at_is At_Created) ps')"
    using cnt [of "at_is At_Created", OF at_wake(1)] c(1) i(1) by linarith
  moreover have "at_running m' = int (num_of at_live ps')"
    using cnt [of at_live, OF at_wake(2)] c(2) i(2) by linarith
  moreover have "at_finished m' = int (num_of (at_is At_Done) ps')"
    using cnt [of "at_is At_Done", OF at_wake(1)] c(3) i(3) by linarith
  ultimately show ?thesis by (simp add: at_inv_def)
qed

lemma at_phase: 
  assumes "at_inv m ps" "t < length ps" "ps ! t = p"
  shows "at_phase_ok (at_dying m) (at_busy m) p" "0 \<le> at_pending m" "0 \<le> at_running m"
    "p = Run (At_Live i) \<Longrightarrow> i \<in> dom (at_threads m)" "at_live p \<Longrightarrow> 0 < at_running m"
proof -
  show "at_phase_ok (at_dying m) (at_busy m) p" "0 \<le> at_pending m" "0 \<le> at_running m"
    using assms by (auto simp: at_inv_def)
  show "i \<in> dom (at_threads m)" if "p = Run (At_Live i)"
    using num_of_pos [OF assms(2), of "at_is (At_Live i)"] assms that by (auto simp: at_inv_def)
  show "0 < at_running m" if "at_live p"
    using num_of_pos [OF assms(2), of at_live] assms that by (simp add: at_inv_def)
qed

interpretation at: monitor_invariant at_monitor at_inv
proof (unfold_locales, goal_cases)
  case (1 m ps t h op late r m' ns ps')
  note ph = at_phase [OF 1(1-3)]
  show ?case
    by (rule at_update [OF 1(1-3) 1(6)])
      (use 1(4,5) ph in \<open>cases op; auto simp: at_monitor_simps at_sections at_busy_def Let_def split: if_splits\<close>)+
next
  case (2 m ps t op late r m' ns ps')
  note ph = at_phase [OF 2(1-3)]
  show ?case
    by (rule at_update [OF 2(1-3) 2(5)])
      (use 2(4) ph in \<open>auto simp: at_monitor_simps at_sections at_busy_def split: if_splits\<close>)
next
  case (3 m ps t cv op)
  show ?case by (rule at_update [OF 3 notified.nothing]) (use at_phase(1) [OF 3] in auto)
next
  case (4 m ps t cv op)
  then show ?case by (simp add: at_monitor_simps)
next
  case (5 m ps t op r m' ns ps')
  with at_phase(1) [OF 5(1-3)] show ?case by simp
qed

section \<open>The table and the joiners\<close>

lemma at_start_inv: "at_inv at_new (replicate k (Run At_New) @ replicate n (Run At_Client))"
  by (auto simp: at_inv_def at_new_def num_of_def)

lemma at_live_dom:
  assumes "at_inv m ps"
  shows "Run (At_Live i) \<in> set ps \<longleftrightarrow> i \<in> dom (at_threads m)"
proof -
  have "num_of (at_is (At_Live i)) ps = 0 \<longleftrightarrow> Run (At_Live i) \<notin> set ps" unfolding num_of_0 by blast
  moreover have "num_of (at_is (At_Live i)) ps = of_bool (i \<in> dom (at_threads m))" using assms by (simp add: at_inv_def)
  ultimately show ?thesis by (cases "i \<in> dom (at_threads m)") auto
qed

text \<open>C22: Any number of threads are started, run and end while clients read the counters and wait in \<open>join_all\<close>. In every
  state they reach, the counts are those of the threads, the table holds exactly the live ones, the erasure
  in \<open>register_finished\<close> finds its entry, a client is asleep in \<open>join_all\<close> only while a thread is pending or
  live, and when \<open>join_all\<close> returns there is none and the assertions of the destructor hold.\<close>

theorem all_threads_sound:
  assumes "mo_reach at_monitor at_new (replicate k (Run At_New) @ replicate n (Run At_Client)) m ps"
  shows "at_finished_count m = int (num_of (at_is At_Done) ps) \<and> at_active_count m = int (num_of at_live ps) \<and>
    at_started_count m = at_finished_count m + at_active_count m \<and>
    (\<forall>i. Run (At_Live i) \<in> set ps \<longleftrightarrow> i \<in> dom (at_threads m)) \<and>
    (\<forall>i. Run (At_Live i) \<in> set ps \<longrightarrow> fst (at_register_finished i m) = Return True) \<and>
    (0 < num_of (parked_on ()) ps \<longrightarrow> 0 < num_of (at_is At_Created) ps + num_of at_live ps) \<and>
    (fst (at_join_wait m) = Return True \<longrightarrow>
      num_of (at_is At_Created) ps = 0 \<and> num_of at_live ps = 0 \<and> at_valid_for_destruction m)"
proof -
  have inv: "at_inv m ps" by (rule at.reach_invariant [OF assms at_start_inv])
  then have c: "at_pending m = int (num_of (at_is At_Created) ps)" "at_running m = int (num_of at_live ps)"
      "at_finished m = int (num_of (at_is At_Done) ps)" by (simp_all add: at_inv_def)
  note dom = at_live_dom [OF inv]
  have "0 < num_of (at_is At_Created) ps + num_of at_live ps" if "0 < num_of (parked_on ()) ps"
  proof -
    from that obtain p where p: "p \<in> set ps" "parked_on () p" using num_of_0 [of "parked_on ()" ps] by auto
    then have "at_phase_ok (at_dying m) (at_busy m) p" using inv by (simp add: at_inv_def)
    with p(2) have "at_busy m" by (cases p) auto
    with c show ?thesis by (auto simp: at_busy_def)
  qed
  moreover have "at_threads m = Map.empty" if "num_of at_live ps = 0"
  proof -
    have "Run (At_Live i) \<notin> set ps" for i using that unfolding num_of_0 by fastforce
    with dom have "dom (at_threads m) = {}" by blast
    then show ?thesis by simp
  qed
  ultimately show ?thesis using c dom
    by (auto simp: at_finished_count_def at_active_count_def at_started_count_def at_register_finished_def Let_def
        at_join_wait_def at_valid_for_destruction_def split: if_splits)
qed

theorem all_threads_sound_witness:
  "at_valid_for_destruction (at_new\<lparr>at_finished := 1, at_threads := Map.empty(5 \<mapsto> ''t'', 5 := None)\<rparr>)"
proof -
  let ?R = "mo_reach at_monitor (at_new :: string all_threads) [Run At_New]"
  have "?R (at_new\<lparr>at_pending := 1\<rparr>) [Run At_Created]"
    by (rule mo_reach_call [OF mo_reach.start, where t = 0 and h = At_New and op = At_Pending and late = False
          and r = "Return True" and ns = "[]"])
      (simp_all add: at_monitor_simps at_sections at_new_def notified.nothing)
  then have "?R (at_new\<lparr>at_running := 1, at_threads := [5 \<mapsto> ''t'']\<rparr>) [Run (At_Live 5)]"
    by (rule mo_reach_call [where t = 0 and h = At_Created and op = "At_Started 5 ''t''" and late = False
          and r = "Return True" and ns = "[]"])
      (simp_all add: at_monitor_simps at_sections at_new_def notified.nothing)
  then have "?R (at_new\<lparr>at_finished := 1, at_threads := Map.empty(5 \<mapsto> ''t'', 5 := None)\<rparr>) [Run At_Done]"
    by (rule mo_reach_call [where t = 0 and h = "At_Live 5" and op = "At_Finished 5" and late = False
          and r = "Return True" and ns = "[]"])
      (simp_all add: at_monitor_simps at_sections at_new_def Let_def notified.nothing)
  then have "mo_reach at_monitor at_new (replicate 1 (Run At_New) @ replicate 0 (Run At_Client))
      (at_new\<lparr>at_finished := 1, at_threads := Map.empty(5 \<mapsto> ''t'', 5 := None)\<rparr>) [Run At_Done]" by simp
  from all_threads_sound [OF this] show ?thesis by (simp add: at_join_wait_def at_new_def)
qed

end
