(* ===== verification/Zi_Vec.thy ===== *)
theory Zi_Vec
  imports Zi_Quat_Functions
begin

text \<open>
  \<^verbatim>\<open>zi/vl/vec.hpp\<close> and \<^verbatim>\<open>zi/vl/vec_functions.hpp\<close>: vectors of a fixed length over exact real
  numbers. The array \<open>d[ N ]\<close> is a list of \<open>N\<close> elements. A division by a length of zero, which
  yields an infinity in floating point, is \<open>None\<close>. The overloads for mixed element types do the same
  as the plain ones.
\<close>

type_synonym vec = "real list"

section \<open>The class\<close>

definition v_new :: "nat \<Rightarrow> real \<Rightarrow> vec" where
  "v_new n rcp = replicate n rcp"

definition v_append :: "vec \<Rightarrow> real \<Rightarrow> vec" where
  "v_append rcp append_value = map (\<lambda>i. rcp ! i) [0..<length rcp] @ [append_value]"

definition v_prepend :: "real \<Rightarrow> vec \<Rightarrow> vec" where
  "v_prepend prepend_value rcp = prepend_value # map (\<lambda>i. rcp ! i) [0..<length rcp]"

definition v_concat :: "vec \<Rightarrow> vec \<Rightarrow> vec" where
  "v_concat rcpl rcpr = map (\<lambda>j. rcpl ! j) [0..<length rcpl] @ map (\<lambda>j. rcpr ! j) [0..<length rcpr]"

definition v_at :: "vec \<Rightarrow> nat \<Rightarrow> real option" where
  "v_at v i = (if i < length v then Some (v ! i) else None)"

definition subvector :: "nat \<Rightarrow> nat \<Rightarrow> vec \<Rightarrow> vec option" where
  "subvector I J v = (if I + J \<le> length v then Some (map (\<lambda>di. v ! (J + di)) [0..<I]) else None)"

definition v_min :: "vec \<Rightarrow> real" where "v_min v = v ! min_element v"
definition v_min_index :: "vec \<Rightarrow> nat" where "v_min_index v = min_element v"
definition v_max :: "vec \<Rightarrow> real" where "v_max v = v ! max_element v"
definition v_max_index :: "vec \<Rightarrow> nat" where "v_max_index v = max_element v"

definition v_absmax :: "vec \<Rightarrow> real" where
  "v_absmax v = (let m = - v_min v in max (v_max v) m)"

definition v_absmax_index :: "vec \<Rightarrow> nat" where
  "v_absmax_index v = (let mini = v_min_index v; maxi = v_max_index v in if - (v ! mini) > v ! maxi then mini else maxi)"

definition v_fill :: "vec \<Rightarrow> real \<Rightarrow> vec" where
  "v_fill v val = replicate (length v) val"

text \<open>The macros of the compound assignments, for an operation of the elements.\<close>

definition v_compound_scalar :: "(real \<Rightarrow> real \<Rightarrow> real) \<Rightarrow> vec \<Rightarrow> real \<Rightarrow> vec" where
  "v_compound_scalar f v rhs = map (\<lambda>i. f (v ! i) rhs) [0..<length v]"

definition v_compound :: "(real \<Rightarrow> real \<Rightarrow> real) \<Rightarrow> vec \<Rightarrow> vec \<Rightarrow> vec" where
  "v_compound f v rhs = map (\<lambda>i. f (v ! i) (rhs ! i)) [0..<length v]"

abbreviation v_add :: "vec \<Rightarrow> vec \<Rightarrow> vec" where "v_add \<equiv> v_compound (+)"
abbreviation v_sub :: "vec \<Rightarrow> vec \<Rightarrow> vec" where "v_sub \<equiv> v_compound (-)"
abbreviation v_scale :: "vec \<Rightarrow> real \<Rightarrow> vec" where "v_scale \<equiv> v_compound_scalar (*)"

definition v_div_scalar :: "vec \<Rightarrow> real \<Rightarrow> vec" where
  "v_div_scalar v rhs = (let rinv = 1 / rhs in map (\<lambda>i. v ! i * rinv) [0..<length v])"

definition v_swap :: "vec \<Rightarrow> vec \<Rightarrow> vec \<times> vec" where
  "v_swap v rhs = fold (\<lambda>i (v, rhs). (v[i := rhs ! i], rhs[i := v ! i])) [0..<length v] (v, rhs)"

definition v_eq :: "vec \<Rightarrow> vec \<Rightarrow> bool" where
  "v_eq lhs rhs \<longleftrightarrow> list_all2 (=) lhs rhs"

definition v_neq :: "vec \<Rightarrow> vec \<Rightarrow> bool" where "v_neq lhs rhs \<longleftrightarrow> \<not> v_eq lhs rhs"
definition v_less :: "vec \<Rightarrow> vec \<Rightarrow> bool" where "v_less lhs rhs \<longleftrightarrow> lex_less lhs rhs"
definition v_greater :: "vec \<Rightarrow> vec \<Rightarrow> bool" where "v_greater lhs rhs \<longleftrightarrow> v_less rhs lhs"
definition v_less_eq :: "vec \<Rightarrow> vec \<Rightarrow> bool" where "v_less_eq lhs rhs \<longleftrightarrow> \<not> v_less rhs lhs"
definition v_greater_eq :: "vec \<Rightarrow> vec \<Rightarrow> bool" where "v_greater_eq lhs rhs \<longleftrightarrow> \<not> v_less lhs rhs"

text \<open>The macros of the binary operators. Unlike those of \<^verbatim>\<open>quat.hpp\<close>, a scalar on the left fills the
  vector that the compound assignment changes.\<close>

definition v_op_scalar_type :: "(vec \<Rightarrow> vec \<Rightarrow> vec) \<Rightarrow> real \<Rightarrow> vec \<Rightarrow> vec" where
  "v_op_scalar_type op lhs rhs = (let res = v_new (length rhs) lhs; res = op res rhs in res)"

definition v_op_type_scalar :: "(vec \<Rightarrow> real \<Rightarrow> vec) \<Rightarrow> vec \<Rightarrow> real \<Rightarrow> vec" where
  "v_op_type_scalar op lhs rhs = (let res = lhs; res = op res rhs in res)"

definition v_op_type_type :: "(vec \<Rightarrow> vec \<Rightarrow> vec) \<Rightarrow> vec \<Rightarrow> vec \<Rightarrow> vec" where
  "v_op_type_type op lhs rhs = (let res = lhs; res = op res rhs in res)"

definition v_uminus :: "vec \<Rightarrow> vec" where
  "v_uminus rhs = map (\<lambda>i. - (rhs ! i)) [0..<length rhs]"

section \<open>The functions\<close>

definition v_sqrlen :: "vec \<Rightarrow> real" where
  "v_sqrlen v = fold (\<lambda>i r. r + v ! i * v ! i) [0..<length v] 0"

definition v_len :: "vec \<Rightarrow> real" where
  "v_len v = sqrt (v_sqrlen v)"

text \<open>\<open>normalize\<close> returns the reciprocal of the length it has divided by.\<close>

definition v_normalize :: "vec \<Rightarrow> (real \<times> vec) option" where
  "v_normalize v = (if v_len v = 0 then None else (let r = 1 / v_len v; v = v_scale v r in Some (r, v)))"

definition v_norm :: "vec \<Rightarrow> vec option" where
  "v_norm v = do { (r, res) \<leftarrow> v_normalize v; Some res }"

definition v_squared_distance :: "vec \<Rightarrow> vec \<Rightarrow> real" where
  "v_squared_distance w1 w2 = fold (\<lambda>i r. let d = w1 ! i; d = d - w2 ! i in r + d * d) [0..<length w1] 0"

definition v_distance :: "vec \<Rightarrow> vec \<Rightarrow> real" where
  "v_distance w1 w2 = sqrt (v_squared_distance w1 w2)"

definition v_clamp :: "vec \<Rightarrow> real \<Rightarrow> real \<Rightarrow> vec" where
  "v_clamp v lo hi = map (\<lambda>i. if v ! i < lo then lo else if v ! i > hi then hi else v ! i) [0..<length v]"

definition v_cross2 :: "vec \<Rightarrow> vec" where
  "v_cross2 v = [v ! 1, - (v ! 0)]"

definition v_cross :: "vec \<Rightarrow> vec \<Rightarrow> vec" where
  "v_cross w1 w2 =
     [w1 ! 1 * w2 ! 2 - w1 ! 2 * w2 ! 1,
      w1 ! 2 * w2 ! 0 - w1 ! 0 * w2 ! 2,
      w1 ! 0 * w2 ! 1 - w1 ! 1 * w2 ! 0]"

definition v_cross3 :: "vec \<Rightarrow> vec \<Rightarrow> vec \<Rightarrow> vec" where
  "v_cross3 w0 w1 w2 =
     [w0 ! 1 * (w1 ! 2 * w2 ! 3 - w1 ! 3 * w2 ! 2) +
      w1 ! 1 * (w2 ! 2 * w0 ! 3 - w2 ! 3 * w0 ! 2) +
      w2 ! 1 * (w0 ! 2 * w1 ! 3 - w0 ! 3 * w1 ! 2),
      w0 ! 0 * (w1 ! 2 * w2 ! 3 - w1 ! 3 * w2 ! 2) +
      w1 ! 0 * (w2 ! 2 * w0 ! 3 - w2 ! 3 * w0 ! 2) +
      w2 ! 0 * (w0 ! 2 * w1 ! 3 - w0 ! 3 * w1 ! 2),
      w0 ! 0 * (w1 ! 1 * w2 ! 3 - w1 ! 3 * w2 ! 1) +
      w1 ! 0 * (w2 ! 1 * w0 ! 3 - w2 ! 3 * w0 ! 1) +
      w2 ! 0 * (w0 ! 1 * w1 ! 3 - w0 ! 3 * w1 ! 1),
      w0 ! 0 * (w1 ! 1 * w2 ! 2 - w1 ! 2 * w2 ! 1) +
      w1 ! 0 * (w2 ! 1 * w0 ! 2 - w2 ! 2 * w0 ! 1) +
      w2 ! 0 * (w0 ! 1 * w1 ! 2 - w0 ! 2 * w1 ! 1)]"

definition v_dot :: "vec \<Rightarrow> vec \<Rightarrow> real" where
  "v_dot w1 w2 = fold (\<lambda>i r. r + w1 ! i * w2 ! i) [0..<length w1] 0"

definition v_normal :: "vec \<Rightarrow> vec \<Rightarrow> vec \<Rightarrow> vec option" where
  "v_normal w1 w2 w3 = v_norm (v_cross (v_op_type_type v_sub w2 w1) (v_op_type_type v_sub w3 w1))"

definition v_slerp :: "real \<Rightarrow> vec \<Rightarrow> vec \<Rightarrow> real \<Rightarrow> vec option" where
  "v_slerp epsilon p q a =
     do {
       np \<leftarrow> v_norm p;
       nq \<leftarrow> v_norm q;
       let cosine = v_dot np nq;
       let b = q;
       let (cosine, b) = (if cosine < 0 then (- cosine, v_uminus b) else (cosine, b));
       if 1 - \<bar>cosine\<bar> > epsilon
       then
         (let sine = sqrt (1 - cosine * cosine);
              invsine = 1 / sine;
              angle = atan2 sine cosine;
              coeffp = sin ((1 - a) * angle) * invsine;
              coeffq = sin (a * angle) * invsine
          in Some (v_op_type_type v_add (v_op_scalar_type (v_compound (*)) coeffp p) (v_op_scalar_type (v_compound (*)) coeffq b)))
       else
         v_norm (v_op_type_type v_add (v_op_scalar_type (v_compound (*)) (1 - a) p) (v_op_scalar_type (v_compound (*)) a b))
     }"

definition iprod :: "vec \<Rightarrow> vec \<Rightarrow> vec" where
  "iprod w1 w2 = map (\<lambda>i. w1 ! i * w2 ! i) [0..<length w1]"

section \<open>Lengths and products\<close>

lemma length_v_ops [simp]:
  "length (v_compound f v w) = length v" "length (v_compound_scalar f v x) = length v"
  "length (v_uminus v) = length v" "length (v_new n x) = n" "length (v_fill v x) = length v"
  "length (v_clamp v lo hi) = length v" "length (iprod v w) = length v"
  "length (v_op_scalar_type (v_compound f) x v) = length v" "length (v_op_type_type (v_compound f) v w) = length v"
  by (simp_all add: v_compound_def v_compound_scalar_def v_uminus_def v_new_def v_fill_def v_clamp_def iprod_def
      v_op_scalar_type_def v_op_type_type_def)

lemma nth_v_ops [simp]:
  "i < length v \<Longrightarrow> v_compound f v w ! i = f (v ! i) (w ! i)"
  "i < length v \<Longrightarrow> v_compound_scalar f v x ! i = f (v ! i) x"
  "i < length v \<Longrightarrow> v_uminus v ! i = - (v ! i)"
  "i < n \<Longrightarrow> v_new n x ! i = x"
  "i < length v \<Longrightarrow> v_op_scalar_type (v_compound f) x v ! i = f x (v ! i)"
  "i < length v \<Longrightarrow> v_op_type_type (v_compound f) v w ! i = f (v ! i) (w ! i)"
  by (simp_all add: v_compound_def v_compound_scalar_def v_uminus_def v_new_def v_op_scalar_type_def v_op_type_type_def)

lemma v_dot_sum: "v_dot v w = (\<Sum>i = 0..<length v. v ! i * w ! i)"
  by (simp add: v_dot_def fold_sum_upt)

lemma v_sqrlen_dot: "v_sqrlen v = v_dot v v"
  by (simp add: v_dot_sum v_sqrlen_def fold_sum_upt)

lemma v_sqrlen_nonneg [simp]: "0 \<le> v_sqrlen v"
  by (simp add: v_sqrlen_dot v_dot_sum sum_nonneg)

lemma v_dot_combination:
  assumes "length w = length v" "length u = length v"
  shows "v_dot u (v_op_type_type v_add (v_op_scalar_type (v_compound (*)) a v) (v_op_scalar_type (v_compound (*)) b w)) =
    a * v_dot u v + b * v_dot u w"
  using assms by (simp add: v_dot_sum sum_distrib_left sum.distrib [symmetric] algebra_simps)

lemma v_dot_commute: "length v = length w \<Longrightarrow> v_dot v w = v_dot w v"
  by (simp add: v_dot_sum mult.commute)

lemma v_sqrlen_combination:
  assumes "length w = length v"
  shows "v_sqrlen (v_op_type_type v_add (v_op_scalar_type (v_compound (*)) a v) (v_op_scalar_type (v_compound (*)) b w)) =
    a * a * v_sqrlen v + b * b * v_sqrlen w + 2 * a * b * v_dot v w"
proof -
  let ?u = "v_op_type_type v_add (v_op_scalar_type (v_compound (*)) a v) (v_op_scalar_type (v_compound (*)) b w)"
  have "v_dot ?u ?u = a * v_dot ?u v + b * v_dot ?u w" using assms by (intro v_dot_combination) auto
  also have "v_dot ?u v = a * v_dot v v + b * v_dot v w"
    using v_dot_combination [of w v v a b] assms by (subst v_dot_commute) auto
  also have "v_dot ?u w = a * v_dot w v + b * v_dot w w"
    using v_dot_combination [of w v w a b] assms by (subst v_dot_commute) auto
  also have "v_dot w v = v_dot v w" using assms by (simp add: v_dot_commute)
  finally show ?thesis by (simp add: v_sqrlen_dot algebra_simps)
qed

lemma v_dot_uminus: "length v = length w \<Longrightarrow> v_dot v (v_uminus w) = - v_dot v w"
  by (simp add: v_dot_sum sum_negf)

lemma v_sqrlen_uminus: "v_sqrlen (v_uminus v) = v_sqrlen v"
  by (simp add: v_sqrlen_dot v_dot_sum)

lemma v_norm_unit: "v_sqrlen v = 1 \<Longrightarrow> v_norm v = Some v"
  by (simp add: v_norm_def v_normalize_def v_len_def Let_def list_eq_iff_nth_eq)

text \<open>Dividing a vector by its length leaves a vector of length one, and the reciprocal that
  \<open>normalize\<close> returns undoes it; only the zero vector has no direction.\<close>

lemma vec_normalize:
  "if v_len v = 0 then v_norm v = None
   else \<exists>r n. v_normalize v = Some (r, n) \<and> v_norm v = Some n \<and> v_sqrlen n = 1 \<and> v_scale n (1 / r) = v"
proof (cases "v_len v = 0")
  case False
  then have l: "v_len v \<noteq> 0" "v_len v * v_len v = v_sqrlen v" by (simp_all add: v_len_def)
  have "v_sqrlen (v_scale v (1 / v_len v)) = v_sqrlen v * (1 / v_len v) * (1 / v_len v)"
    by (simp add: v_sqrlen_dot v_dot_sum sum_distrib_left sum_distrib_right sum_divide_distrib algebra_simps)
  also have "\<dots> = 1" using l(1) by (simp add: l(2) [symmetric])
  finally have "v_sqrlen (v_scale v (1 / v_len v)) = 1" .
  moreover have "v_scale (v_scale v (1 / v_len v)) (1 / (1 / v_len v)) = v"
    using l(1) by (simp add: list_eq_iff_nth_eq)
  ultimately show ?thesis using l(1) by (auto simp: v_normalize_def v_norm_def Let_def)
qed (simp add: v_norm_def v_normalize_def)

text \<open>The cross product of two vectors of three elements is orthogonal to both, its squared length
  is the area of their parallelogram squared, and it changes sign with the order of the vectors.\<close>
theorem vec_cross_product:
  assumes "length v = 3" "length w = 3"
  shows "v_dot (v_cross v w) v = 0 \<and> v_dot (v_cross v w) w = 0 \<and>
    v_sqrlen (v_cross v w) = v_sqrlen v * v_sqrlen w - v_dot v w * v_dot v w \<and> v_cross w v = v_uminus (v_cross v w)"
proof -
  obtain a b c d e f where "v = [a, b, c]" "w = [d, e, f]"
    using assms by (auto simp: numeral_3_eq_3 length_Suc_conv)
  then show ?thesis
    by (simp add: v_dot_sum v_sqrlen_dot v_cross_def v_uminus_def numeral_eq_Suc algebra_simps)
qed

theorem vec_cross_product_witness: "v_dot (v_cross [1, 2, 3] [4, 5, 6]) [1, 2, 3] = 0"
  using vec_cross_product [of "[1, 2, 3]" "[4, 5, 6]"] by simp

text \<open>The product of three vectors of four elements is not orthogonal to them: all the minors are added.\<close>

lemma vec_cross3_not_orthogonal:
  "v_dot (v_cross3 [1, 1, 0, 0] [0, 0, 1, 0] [0, 0, 0, 1]) [1, 1, 0, 0] = 2"
  by (simp add: v_dot_sum v_cross3_def numeral_eq_Suc)

section \<open>Interpolation\<close>

text \<open>The end point slerp goes to.\<close>

definition v_nearer :: "vec \<Rightarrow> vec \<Rightarrow> vec" where
  "v_nearer p q = (if v_dot p q < 0 then v_uminus q else q)"

lemma v_slerp_unfold:
  assumes "v_sqrlen p = 1" "v_sqrlen q = 1" "length p = length q"
  shows "v_slerp epsilon p q a =
     (let c = v_dot p (v_nearer p q); s = sqrt (1 - c * c); angle = atan2 s c; x = sin ((1 - a) * angle) / s; y = sin (a * angle) / s
      in if 1 - c > epsilon
         then Some (v_op_type_type v_add (v_op_scalar_type (v_compound (*)) x p) (v_op_scalar_type (v_compound (*)) y (v_nearer p q)))
         else v_norm (v_op_type_type v_add (v_op_scalar_type (v_compound (*)) (1 - a) p)
           (v_op_scalar_type (v_compound (*)) a (v_nearer p q))))"
  using assms by (simp add: v_slerp_def v_norm_unit v_nearer_def Let_def v_dot_uminus)

text \<open>Spherical interpolation between unit vectors of any length that are not too close keeps to the
  unit sphere, starts at \<open>p\<close>, ends at the nearer of \<open>q\<close> and \<open>- q\<close>, and turns at a constant speed.\<close>
theorem vec_slerp_unit:
  assumes unit: "v_sqrlen p = 1" "v_sqrlen q = 1" "length p = length q" and eps: "0 \<le> epsilon" "\<bar>v_dot p q\<bar> < 1 - epsilon"
  shows "\<exists>r. v_slerp epsilon p q a = Some r \<and> v_sqrlen r = 1 \<and> v_dot p r = cos (a * arccos \<bar>v_dot p q\<bar>) \<and>
    (a = 0 \<longrightarrow> r = p) \<and> (a = 1 \<longrightarrow> r = v_nearer p q)"
proof -
  define t where "t = v_nearer p q"
  define c where "c = v_dot p t"
  have c: "c = \<bar>v_dot p q\<bar>" using unit(3) by (simp add: c_def t_def v_nearer_def v_dot_uminus)
  have t: "v_sqrlen t = 1" "length t = length p" using unit by (simp_all add: t_def v_nearer_def v_sqrlen_uminus)
  define x y where "x = sin ((1 - a) * atan2 (sqrt (1 - c * c)) c) / sqrt (1 - c * c)"
    and "y = sin (a * atan2 (sqrt (1 - c * c)) c) / sqrt (1 - c * c)"
  have bounds: "0 \<le> c" "c < 1" using eps c by simp_all
  note w = slerp_weights [OF bounds refl refl x_def y_def]
  let ?r = "v_op_type_type v_add (v_op_scalar_type (v_compound (*)) x p) (v_op_scalar_type (v_compound (*)) y t)"
  have "v_slerp epsilon p q a = Some ?r"
    using v_slerp_unfold [OF unit, of epsilon a] eps(2) c by (simp add: Let_def t_def [symmetric] c_def [symmetric] x_def y_def)
  moreover have "v_sqrlen ?r = 1" "v_dot p ?r = cos (a * arccos \<bar>v_dot p q\<bar>)"
    using w(2,3) c t(2) by (simp_all add: v_sqrlen_combination v_dot_combination v_sqrlen_dot [symmetric] unit t(1) c_def [symmetric])
  moreover have "a = 0 \<longrightarrow> ?r = p" "a = 1 \<longrightarrow> ?r = t"
    using w(4,5) t(2) by (auto simp: list_eq_iff_nth_eq)
  ultimately show ?thesis by (auto simp: t_def)
qed

theorem vec_slerp_unit_witness:
  "\<exists>r. v_slerp (1 / 1000) [1, 0, 0] [0, 0, - 1] (1 / 3) = Some r \<and> v_sqrlen r = 1"
proof -
  have "v_sqrlen [1, 0, 0] = 1" "v_sqrlen [0, 0, - 1] = 1" "v_dot [1, 0, 0] [0, 0, - 1] = 0"
    by (simp_all add: v_sqrlen_dot v_dot_sum numeral_eq_Suc)
  then show ?thesis using vec_slerp_unit [of "[1, 0, 0]" "[0, 0, - 1]" "1 / 1000" "1 / 3"] by auto
qed

end
