(* ===== verification/Zi_Matrix.thy ===== *)
theory Zi_Matrix
  imports Zi_Vec
begin

text \<open>
  \<^verbatim>\<open>zi/vl/mat.hpp\<close>, \<^verbatim>\<open>zi/vl/detail/mat_lookup_table.hpp\<close> and the elementary functions of
  \<^verbatim>\<open>zi/vl/mat_functions.hpp\<close>: square matrices over exact real numbers. The array \<open>d[ N*N ]\<close> is a list,
  row by row, and the template parameter \<open>N\<close> is the first argument of every operation. The positions
  are those of the lookup table. A matrix that the code leaves uninitialised before it fills it starts
  from zeros. The overloads for mixed element types do the same as the plain ones.
\<close>

type_synonym mat = "real list"

section \<open>The class\<close>

text \<open>The table of positions, filled by one running index.\<close>

definition lookup_table :: "nat \<Rightarrow> nat \<times> nat \<Rightarrow> nat" where
  "lookup_table N =
     snd (fold (\<lambda>r (idx, table). fold (\<lambda>c (idx, table). (idx + 1, table((r, c) := idx))) [0..<N] (idx, table))
       [0..<N] (0, \<lambda>_. 0))"

definition m_at :: "nat \<Rightarrow> mat \<Rightarrow> nat \<Rightarrow> nat \<Rightarrow> real" where
  "m_at N m i j = m ! lookup_table N (i, j)"

text \<open>The assignment \<open>m.at( i, j ) = x\<close>.\<close>

definition m_set :: "nat \<Rightarrow> mat \<Rightarrow> nat \<Rightarrow> nat \<Rightarrow> real \<Rightarrow> mat" where
  "m_set N m i j x = m[lookup_table N (i, j) := x]"

definition m_new :: "nat \<Rightarrow> real \<Rightarrow> mat" where
  "m_new N rcp = replicate (N * N) rcp"

text \<open>The loops \<open>for ( i = 0; i < num_elements; i += N + 1 )\<close> over the diagonal.\<close>

definition diagonal_indices :: "nat \<Rightarrow> nat list" where
  "diagonal_indices N = filter (\<lambda>i. i mod (N + 1) = 0) [0..<N * N]"

definition m_eye_of :: "nat \<Rightarrow> real \<Rightarrow> mat" where
  "m_eye_of N v = fold (\<lambda>i d. d[i := v]) (diagonal_indices N) (replicate (N * N) 0)"

definition m_eye :: "nat \<Rightarrow> mat" where "m_eye N = m_eye_of N 1"

definition m_diag :: "nat \<Rightarrow> vec \<Rightarrow> mat" where
  "m_diag N diag = fold (\<lambda>s d. d[s * (N + 1) := diag ! s]) [0..<N] (replicate (N * N) 0)"

definition m_trans :: "nat \<Rightarrow> mat \<Rightarrow> mat" where
  "m_trans N rcp = fold (\<lambda>i d. fold (\<lambda>j d. m_set N d i j (m_at N rcp j i)) [0..<N] d) [0..<N] (m_new N 0)"

text \<open>The minor of size \<open>N\<close> of a matrix of size \<open>N + 1\<close>, without row \<open>r\<close> and column \<open>c\<close>.\<close>

definition m_minor :: "nat \<Rightarrow> mat \<Rightarrow> nat \<Rightarrow> nat \<Rightarrow> mat" where
  "m_minor N rcp r c =
     snd (fold (\<lambda>dr (sr, d).
         let sr = (if dr = r then sr + 1 else sr);
             (sc, d) = fold (\<lambda>dc (sc, d).
                 let sc = (if dc = c then sc + 1 else sc)
                 in (sc + 1, m_set N d dr dc (m_at (N + 1) rcp sr sc))) [0..<N] (0, d)
         in (sr + 1, d)) [0..<N] (0, m_new N 0))"

definition m_min :: "mat \<Rightarrow> real" where "m_min m = m ! min_element m"
definition m_min_index :: "mat \<Rightarrow> nat" where "m_min_index m = min_element m"
definition m_max :: "mat \<Rightarrow> real" where "m_max m = m ! max_element m"
definition m_max_index :: "mat \<Rightarrow> nat" where "m_max_index m = max_element m"

definition m_absmax :: "mat \<Rightarrow> real" where
  "m_absmax m = (let x = - m_min m in max (m_max m) x)"

definition m_absmax_index :: "mat \<Rightarrow> nat" where
  "m_absmax_index m = (let mini = m_min_index m; maxi = m_max_index m in if - (m ! mini) > m ! maxi then mini else maxi)"

text \<open>The macros of the compound assignments.\<close>

definition m_compound_scalar :: "(real \<Rightarrow> real \<Rightarrow> real) \<Rightarrow> mat \<Rightarrow> real \<Rightarrow> mat" where
  "m_compound_scalar f m rhs = map (\<lambda>i. f (m ! i) rhs) [0..<length m]"

definition m_compound :: "(real \<Rightarrow> real \<Rightarrow> real) \<Rightarrow> mat \<Rightarrow> mat \<Rightarrow> mat" where
  "m_compound f m rhs = map (\<lambda>i. f (m ! i) (rhs ! i)) [0..<length m]"

text \<open>The loop of \<open>swap\<close> runs over the first \<open>N\<close> elements, not over all \<open>N * N\<close>.\<close>

definition m_swap :: "nat \<Rightarrow> mat \<Rightarrow> mat \<Rightarrow> mat \<times> mat" where
  "m_swap N d rhs = fold (\<lambda>i (d, rhs). (d[i := rhs ! i], rhs[i := d ! i])) [0..<N] (d, rhs)"

text \<open>The loops that copy a diagonal to a vector; \<open>None\<close> is the failed assertion of \<open>res.at( j )\<close>.\<close>

function diagonal_loop :: "mat \<Rightarrow> nat \<Rightarrow> nat \<Rightarrow> nat \<Rightarrow> vec \<Rightarrow> vec option" where
  "diagonal_loop d inc i j res =
     (if i < length d then (if j < length res then diagonal_loop d inc (i + inc) (j + 1) (res[j := d ! i]) else None)
      else Some res)"
  by auto
termination by (relation "measure (\<lambda>(d, inc, i, j, res). length res - j)") auto

declare diagonal_loop.simps [simp del]

definition m_diagonal :: "nat \<Rightarrow> mat \<Rightarrow> vec option" where
  "m_diagonal N d = diagonal_loop d (N + 1) 0 0 (v_new N 0)"

definition m_semimajor_diagonal :: "nat \<Rightarrow> mat \<Rightarrow> vec option" where
  "m_semimajor_diagonal N d = diagonal_loop d (N - 1) (N - 1) 0 (v_new N 0)"

definition m_equals :: "mat \<Rightarrow> mat \<Rightarrow> real \<Rightarrow> bool" where
  "m_equals d rhs epsilon \<longleftrightarrow> \<not> list_ex (\<lambda>i. \<bar>rhs ! i - d ! i\<bar> \<le> epsilon) [0..<length d]"

definition m_get_row :: "nat \<Rightarrow> mat \<Rightarrow> nat \<Rightarrow> vec" where
  "m_get_row N d r = map (\<lambda>di. d ! (r * N + di)) [0..<N]"

definition m_get_column :: "nat \<Rightarrow> mat \<Rightarrow> nat \<Rightarrow> vec" where
  "m_get_column N d c = map (\<lambda>di. d ! (c + di * N)) [0..<N]"

definition m_set_row :: "nat \<Rightarrow> mat \<Rightarrow> nat \<Rightarrow> vec \<Rightarrow> mat" where
  "m_set_row N d R r = fold (\<lambda>di d. d[R * N + di := r ! di]) [0..<N] d"

definition m_set_column :: "nat \<Rightarrow> mat \<Rightarrow> nat \<Rightarrow> vec \<Rightarrow> mat" where
  "m_set_column N d C c = fold (\<lambda>di d. d[C + di * N := c ! di]) [0..<N] d"

definition m_swap_columns :: "nat \<Rightarrow> mat \<Rightarrow> nat \<Rightarrow> nat \<Rightarrow> nat \<Rightarrow> nat \<Rightarrow> mat" where
  "m_swap_columns N d src_col target_col first_row last_row =
     (if src_col = target_col then d
      else fold (\<lambda>i d. swap_nth d (lookup_table N (i, src_col)) (lookup_table N (i, target_col))) [first_row..<last_row + 1] d)"

definition m_swap_rows :: "nat \<Rightarrow> mat \<Rightarrow> nat \<Rightarrow> nat \<Rightarrow> nat \<Rightarrow> nat \<Rightarrow> mat" where
  "m_swap_rows N d src_row target_row first_col last_col =
     (if src_row = target_row then d
      else fold (\<lambda>i d. swap_nth d (lookup_table N (src_row, i)) (lookup_table N (target_row, i))) [first_col..<last_col + 1] d)"

definition m_eq :: "mat \<Rightarrow> mat \<Rightarrow> bool" where "m_eq lhs rhs \<longleftrightarrow> list_all2 (=) lhs rhs"
definition m_neq :: "mat \<Rightarrow> mat \<Rightarrow> bool" where "m_neq lhs rhs \<longleftrightarrow> \<not> m_eq lhs rhs"
definition m_less :: "mat \<Rightarrow> mat \<Rightarrow> bool" where "m_less lhs rhs \<longleftrightarrow> lex_less lhs rhs"
definition m_greater :: "mat \<Rightarrow> mat \<Rightarrow> bool" where "m_greater lhs rhs \<longleftrightarrow> m_less rhs lhs"
definition m_less_eq :: "mat \<Rightarrow> mat \<Rightarrow> bool" where "m_less_eq lhs rhs \<longleftrightarrow> \<not> m_less rhs lhs"
definition m_greater_eq :: "mat \<Rightarrow> mat \<Rightarrow> bool" where "m_greater_eq lhs rhs \<longleftrightarrow> \<not> m_less lhs rhs"

section \<open>Products\<close>

definition m_mul :: "nat \<Rightarrow> mat \<Rightarrow> mat \<Rightarrow> mat" where
  "m_mul N lhs rhs =
     (if N = 1 then m_new 1 (lhs ! 0 * rhs ! 0)
      else snd (fold (\<lambda>r (i, res).
          fold (\<lambda>c (i, res).
              (i + 1, fold (\<lambda>j res. res[i := res ! i + m_at N lhs r j * m_at N rhs j c]) [0..<N] res)) [0..<N] (i, res))
          [0..<N] (0, m_new N 0)))"

definition m_mul_assign :: "nat \<Rightarrow> mat \<Rightarrow> mat \<Rightarrow> mat" where
  "m_mul_assign N m rhs = m_mul N m rhs"

definition v_mul_mat :: "nat \<Rightarrow> vec \<Rightarrow> mat \<Rightarrow> vec" where
  "v_mul_mat N lhs rhs =
     fold (\<lambda>r res. fold (\<lambda>c res. res[r := res ! r + lhs ! c * m_at N rhs r c]) [0..<N] (res[r := 0])) [0..<N] (v_new N 0)"

definition m_mul_vec :: "nat \<Rightarrow> mat \<Rightarrow> vec \<Rightarrow> vec" where
  "m_mul_vec N lhs rhs =
     fold (\<lambda>r res. fold (\<lambda>c res. res[r := res ! r + rhs ! c * m_at N lhs r c]) [0..<N] (res[r := 0])) [0..<N] (v_new N 0)"

text \<open>The macros of the binary operators: a scalar on the left fills the matrix that the compound
  assignment changes.\<close>

definition m_op_scalar_type :: "nat \<Rightarrow> (mat \<Rightarrow> mat \<Rightarrow> mat) \<Rightarrow> real \<Rightarrow> mat \<Rightarrow> mat" where
  "m_op_scalar_type N op lhs rhs = (let res = m_new N lhs; res = op res rhs in res)"

definition m_op_type_scalar :: "(mat \<Rightarrow> real \<Rightarrow> mat) \<Rightarrow> mat \<Rightarrow> real \<Rightarrow> mat" where
  "m_op_type_scalar op lhs rhs = (let res = lhs; res = op res rhs in res)"

definition m_op_type_type :: "(mat \<Rightarrow> mat \<Rightarrow> mat) \<Rightarrow> mat \<Rightarrow> mat \<Rightarrow> mat" where
  "m_op_type_type op lhs rhs = (let res = lhs; res = op res rhs in res)"

definition m_square :: "nat \<Rightarrow> mat \<Rightarrow> mat" where
  "m_square N m = (let tmp = m in m_mul N tmp tmp)"

definition oprod :: "nat \<Rightarrow> vec \<Rightarrow> vec \<Rightarrow> mat" where
  "oprod N w1 w2 = fold (\<lambda>i res. fold (\<lambda>j res. m_set N res i j (w1 ! i * w2 ! j)) [0..<N] res) [0..<N] (m_new N 0)"

section \<open>The functions\<close>

definition m_transpose :: "nat \<Rightarrow> mat \<Rightarrow> mat" where
  "m_transpose N rhs =
     fold (\<lambda>i rhs. fold (\<lambda>j rhs. swap_nth rhs (lookup_table N (i, j)) (lookup_table N (j, i))) [i + 1..<N] rhs) [0..<N] rhs"

definition m_trace :: "nat \<Rightarrow> mat \<Rightarrow> real" where
  "m_trace N rhs = (if N = 1 then rhs ! 0 else fold (\<lambda>i res. res * rhs ! i) (diagonal_indices N) 1)"

definition det1 :: "mat \<Rightarrow> real" where "det1 rhs = rhs ! 0"

definition det2 :: "mat \<Rightarrow> real" where
  "det2 rhs = rhs ! 0 * rhs ! 3 - rhs ! 2 * rhs ! 1"

definition det3 :: "mat \<Rightarrow> real" where
  "det3 rhs =
     rhs ! 0 * rhs ! 4 * rhs ! 8 -
     rhs ! 0 * rhs ! 5 * rhs ! 7 +
     rhs ! 1 * rhs ! 5 * rhs ! 6 -
     rhs ! 1 * rhs ! 3 * rhs ! 8 +
     rhs ! 2 * rhs ! 3 * rhs ! 7 -
     rhs ! 2 * rhs ! 4 * rhs ! 6"

definition det4 :: "mat \<Rightarrow> real" where
  "det4 rhs =
     (let m00 = rhs ! 0; m10 = rhs ! 1; m20 = rhs ! 2; m30 = rhs ! 3;
          m01 = rhs ! 4; m11 = rhs ! 5; m21 = rhs ! 6; m31 = rhs ! 7;
          m02 = rhs ! 8; m12 = rhs ! 9; m22 = rhs ! 10; m32 = rhs ! 11;
          m03 = rhs ! 12; m13 = rhs ! 13; m23 = rhs ! 14; m33 = rhs ! 15
      in m03 * m12 * m21 * m30
         - m02 * m13 * m21 * m30
         - m03 * m11 * m22 * m30
         + m01 * m13 * m22 * m30
         + m02 * m11 * m23 * m30
         - m01 * m12 * m23 * m30
         - m03 * m12 * m20 * m31
         + m02 * m13 * m20 * m31
         + m03 * m10 * m22 * m31
         - m00 * m13 * m22 * m31
         - m02 * m10 * m23 * m31
         + m00 * m12 * m23 * m31
         + m03 * m11 * m20 * m32
         - m01 * m13 * m20 * m32
         - m03 * m10 * m21 * m32
         + m00 * m13 * m21 * m32
         + m01 * m10 * m23 * m32
         - m00 * m11 * m23 * m32
         - m02 * m11 * m20 * m33
         + m01 * m12 * m20 * m33
         + m02 * m10 * m21 * m33
         - m00 * m12 * m21 * m33
         - m01 * m10 * m22 * m33
         + m00 * m11 * m22 * m33)"

text \<open>A rotation about an axis, in homogeneous coordinates. \<open>None\<close>: the axis has no direction.\<close>

definition make_rotation :: "vec \<Rightarrow> real \<Rightarrow> mat option" where
  "make_rotation ax theta =
     (let sine = sin theta;
          cosine = sqrt (sine * sine);
          v = v_append ax 0
      in do {
        (_, v) \<leftarrow> v_normalize v;
        let r1 = v_add [cosine, - (v ! 2) * sine, v ! 1 * sine, 0] (v_scale (v_scale v (v ! 0)) (1 - cosine));
        let r2 = v_add [v ! 2 * sine, cosine, - (v ! 0) * sine, 0] (v_scale (v_scale v (v ! 1)) (1 - cosine));
        let r3 = v_add [- (v ! 1) * sine, v ! 0 * sine, cosine, 0] (v_scale (v_scale v (v ! 2)) (1 - cosine));
        let res = m_new 4 0;
        let res = m_set_row 4 res 0 r1;
        let res = m_set_row 4 res 1 r2;
        let res = m_set_row 4 res 2 r3;
        let res = res[15 := 1];
        Some res
      })"

definition make_scale :: "real \<Rightarrow> real \<Rightarrow> real \<Rightarrow> mat" where
  "make_scale scalex scaley scalez =
     (let res = m_new 4 0; res = m_set 4 res 0 0 scalex; res = m_set 4 res 1 1 scaley; res = m_set 4 res 2 2 scalez in res)"

definition make_scale_vec :: "vec \<Rightarrow> mat" where
  "make_scale_vec x =
     (let res = m_new 4 0; res = m_set 4 res 0 0 (x ! 0); res = m_set 4 res 1 1 (x ! 1); res = m_set 4 res 2 2 (x ! 2) in res)"

end
