(* ===== verification/Zi_Matrix_Entries.thy ===== *)
theory Zi_Matrix_Entries
  imports Zi_Matrix
begin

text \<open>
  The loops of \<^verbatim>\<open>Zi_Matrix\<close> entry by entry: a matrix of size \<open>N\<close> is determined by its entries
  \<open>m_at N m r c\<close>, and each loop over positions changes the entries it visits to a known value. The
  matrix operations get their entries, products become sums.
\<close>

named_theorems m_entry "entries and lengths of the results of the matrix operations"

abbreviation m_ok :: "nat \<Rightarrow> mat \<Rightarrow> bool" where
  "m_ok N m \<equiv> length m = N * N"

section \<open>Positions\<close>

text \<open>A loop that keeps a running index next to its counter.\<close>

lemma fold_counter:
  "fold (\<lambda>c (i, x). (i + s, g c i x)) [0..<n] (i0, x) = (i0 + s * n, fold (\<lambda>c x. g c (i0 + s * c) x) [0..<n] x)"
  for s :: nat
  by (induction n) (auto simp: algebra_simps)

lemma position_less: "i < N \<Longrightarrow> j < N \<Longrightarrow> i * N + j < N * (N :: nat)"
proof -
  assume "i < N" "j < N"
  then have "i * N + j < Suc i * N" by simp
  also have "\<dots> \<le> N * N" using \<open>i < N\<close> by (intro mult_le_mono1) simp
  finally show ?thesis .
qed

lemma position_eq: "j < N \<Longrightarrow> j' < N \<Longrightarrow> i * N + j = i' * N + j' \<longleftrightarrow> i = i' \<and> j = (j' :: nat)"
proof
  assume lt: "j < N" "j' < N" and eq: "i * N + j = i' * N + j'"
  have "(i * N + j) div N = i" "(i' * N + j') div N = i'" using lt by auto
  with eq show "i = i' \<and> j = j'" by simp
qed simp

lemma position_cases: "k < N * N \<Longrightarrow> \<exists>i j. i < N \<and> j < N \<and> k = i * N + (j :: nat)"
proof -
  assume k: "k < N * N"
  then have "0 < N" by (cases N) auto
  with k have "k div N < N" "k mod N < N" by (auto simp: less_mult_imp_div_less)
  then show ?thesis by (metis div_mult_mod_eq)
qed

lemma fold_table_row:
  "fold (\<lambda>c t. t((r, c) := i0 + c)) [0..<n] t (r', c') = (if r' = r \<and> c' < n then i0 + c' else t (r', c') :: nat)"
  by (induction n) auto

lemma fold_table:
  "fold (\<lambda>r t. fold (\<lambda>c t. t((r, c) := s * r + c)) [0..<n] t) [0..<k] t (r', c') =
    (if r' < k \<and> c' < n then s * r' + c' else t (r', c') :: nat)"
proof (induction k)
  case (Suc k)
  have "fold (\<lambda>r t. fold (\<lambda>c t. t((r, c) := s * r + c)) [0..<n] t) [0..<Suc k] t (r', c') =
      fold (\<lambda>c t. t((k, c) := s * k + c)) [0..<n]
        (fold (\<lambda>r t. fold (\<lambda>c t. t((r, c) := s * r + c)) [0..<n] t) [0..<k] t) (r', c')" by simp
  also have "\<dots> = (if r' = k \<and> c' < n then s * k + c' else if r' < k \<and> c' < n then s * r' + c' else t (r', c'))"
    by (simp only: fold_table_row Suc.IH)
  finally show ?case by (auto simp del: fun_upd_apply simp: less_Suc_eq)
qed simp

text \<open>The table holds the positions row by row.\<close>

lemma lookup_table_position: "r < N \<Longrightarrow> c < N \<Longrightarrow> lookup_table N (r, c) = r * N + c"
proof -
  assume "r < N" "c < N"
  have *: "(\<lambda>r (idx, table). fold (\<lambda>c (idx, table). (idx + 1, table((r, c) := idx))) [0..<N] (idx, table)) =
      (\<lambda>r (i, t). (i + N, fold (\<lambda>c t. t((r, c) := i + c)) [0..<N] t))"
    using fold_counter [where s = 1 and g = "\<lambda>c i t. t((r, c) := i)" for r] by (intro ext) auto
  have eq: "lookup_table N = fold (\<lambda>r t. fold (\<lambda>c t. t((r, c) := N * r + c)) [0..<N] t) [0..<N] (\<lambda>_. 0)"
    unfolding lookup_table_def * by (subst fold_counter) simp
  show ?thesis using \<open>r < N\<close> \<open>c < N\<close> by (simp only: eq fold_table) (simp add: mult.commute)
qed

lemma m_at_position: "r < N \<Longrightarrow> c < N \<Longrightarrow> m_at N m r c = m ! (r * N + c)"
  by (simp add: m_at_def lookup_table_position)

lemma length_m_set [m_entry, simp]: "length (m_set N m i j x) = length m"
  by (simp add: m_set_def)

lemma m_at_set [m_entry]:
  "m_ok N m \<Longrightarrow> i < N \<Longrightarrow> j < N \<Longrightarrow> r < N \<Longrightarrow> c < N \<Longrightarrow>
    m_at N (m_set N m i j x) r c = (if r = i \<and> c = j then x else m_at N m r c)"
  by (auto simp: m_at_def m_set_def lookup_table_position position_eq nth_list_update position_less)

lemma m_eqI:
  assumes "m_ok N a" "m_ok N b" "\<And>r c. r < N \<Longrightarrow> c < N \<Longrightarrow> m_at N a r c = m_at N b r c"
  shows "a = b"
proof (rule nth_equalityI)
  fix k assume "k < length a"
  then have "k < N * N" using assms(1) by simp
  then obtain i j where "i < N" "j < N" "k = i * N + j" using position_cases by blast
  with assms(3) [of i j] show "a ! k = b ! k" by (simp add: m_at_position)
qed (simp add: assms)

section \<open>Loops over positions\<close>

text \<open>A loop that sets the positions \<open>(p k, q k)\<close>, each once, to a value that depends on no other
  position of the loop.\<close>

lemma fold_m_set:
  assumes ok: "m_ok N m" and pos: "\<And>k. k \<in> set ks \<Longrightarrow> p k < N \<and> q k < N"
    and inj: "distinct ks" "inj_on (\<lambda>k. (p k, q k)) (set ks)"
    and dep: "\<And>k m'. k \<in> set ks \<Longrightarrow> m_ok N m' \<Longrightarrow>
      (\<And>r c. r < N \<Longrightarrow> c < N \<Longrightarrow> (\<And>k'. k' \<in> set ks \<Longrightarrow> k' \<noteq> k \<Longrightarrow> (r, c) \<noteq> (p k', q k')) \<Longrightarrow>
        m_at N m' r c = m_at N m r c) \<Longrightarrow> F k m' = F k m"
  shows "m_ok N (fold (\<lambda>k m. m_set N m (p k) (q k) (F k m)) ks m) \<and>
    (\<forall>k \<in> set ks. m_at N (fold (\<lambda>k m. m_set N m (p k) (q k) (F k m)) ks m) (p k) (q k) = F k m) \<and>
    (\<forall>r < N. \<forall>c < N. (\<forall>k \<in> set ks. (p k, q k) \<noteq> (r, c)) \<longrightarrow>
      m_at N (fold (\<lambda>k m. m_set N m (p k) (q k) (F k m)) ks m) r c = m_at N m r c)"
  using pos inj dep
proof (induction ks rule: rev_induct)
  case (snoc k ks)
  let ?m = "fold (\<lambda>k m. m_set N m (p k) (q k) (F k m)) ks m"
  have IH: "m_ok N ?m" "\<And>k. k \<in> set ks \<Longrightarrow> m_at N ?m (p k) (q k) = F k m"
    "\<And>r c. r < N \<Longrightarrow> c < N \<Longrightarrow> (\<And>k. k \<in> set ks \<Longrightarrow> (p k, q k) \<noteq> (r, c)) \<Longrightarrow> m_at N ?m r c = m_at N m r c"
    using snoc.IH snoc.prems by (auto simp: inj_on_def)
  have new: "(p k', q k') \<noteq> (p k, q k)" if "k' \<in> set ks" for k'
    using snoc.prems(2,3) that unfolding inj_on_def by fastforce
  have "F k ?m = F k m"
  proof (rule snoc.prems(4))
    fix r c assume rc: "r < N" "c < N" and other: "\<And>k'. k' \<in> set (ks @ [k]) \<Longrightarrow> k' \<noteq> k \<Longrightarrow> (r, c) \<noteq> (p k', q k')"
    show "m_at N ?m r c = m_at N m r c"
    proof (rule IH(3) [OF rc])
      fix k' assume k': "k' \<in> set ks"
      with snoc.prems(2) have "k' \<noteq> k" by auto
      with other [of k'] k' show "(p k', q k') \<noteq> (r, c)" by auto
    qed
  qed (use IH in simp_all)
  with IH new snoc.prems(1) show ?case by (auto simp: m_at_set)
qed (simp add: ok)

lemma fold_row:
  assumes "m_ok N m" "i < N" "b \<le> N" "r < N" "c < N"
    and dep: "\<And>k m'. a \<le> k \<Longrightarrow> k < b \<Longrightarrow> m_ok N m' \<Longrightarrow>
      (\<And>r c. r < N \<Longrightarrow> c < N \<Longrightarrow> \<not> (r = i \<and> a \<le> c \<and> c < b \<and> c \<noteq> k) \<Longrightarrow> m_at N m' r c = m_at N m r c) \<Longrightarrow> F k m' = F k m"
  shows "m_ok N (fold (\<lambda>k m. m_set N m i k (F k m)) [a..<b] m) \<and>
    m_at N (fold (\<lambda>k m. m_set N m i k (F k m)) [a..<b] m) r c = (if r = i \<and> a \<le> c \<and> c < b then F c m else m_at N m r c)"
proof -
  have F: "F k m' = F k m" if "k \<in> set [a..<b]" "m_ok N m'"
    "\<And>r c. r < N \<Longrightarrow> c < N \<Longrightarrow> (\<And>k'. k' \<in> set [a..<b] \<Longrightarrow> k' \<noteq> k \<Longrightarrow> (r, c) \<noteq> (i, k')) \<Longrightarrow> m_at N m' r c = m_at N m r c" for k m'
    using that(1,2) by (intro dep that(3)) auto
  have inj: "inj_on (\<lambda>k. (i, k)) (set [a..<b])" by (auto simp: inj_on_def)
  have pos: "i < N \<and> k < N" if "k \<in> set [a..<b]" for k using that assms(2,3) by auto
  let ?m = "fold (\<lambda>k m. m_set N m i k (F k m)) [a..<b] m"
  have *: "m_ok N ?m" "\<forall>k \<in> set [a..<b]. m_at N ?m i k = F k m"
    "\<forall>r < N. \<forall>c < N. (\<forall>k \<in> set [a..<b]. (i, k) \<noteq> (r, c)) \<longrightarrow> m_at N ?m r c = m_at N m r c"
    using fold_m_set [where N = N and ks = "[a..<b]" and p = "\<lambda>k. i" and q = "\<lambda>k. k" and F = F, OF assms(1) pos distinct_upt inj F]
    by blast+
  show ?thesis
  proof (cases "r = i \<and> a \<le> c \<and> c < b")
    case True
    with *(1,2) show ?thesis by auto
  next
    case False
    with *(1) *(3) [rule_format, OF assms(4,5)] show ?thesis by auto
  qed
qed

lemma fold_column:
  assumes "m_ok N m" "j < N" "b \<le> N" "r < N" "c < N"
    and dep: "\<And>k m'. a \<le> k \<Longrightarrow> k < b \<Longrightarrow> m_ok N m' \<Longrightarrow>
      (\<And>r c. r < N \<Longrightarrow> c < N \<Longrightarrow> \<not> (c = j \<and> a \<le> r \<and> r < b \<and> r \<noteq> k) \<Longrightarrow> m_at N m' r c = m_at N m r c) \<Longrightarrow> F k m' = F k m"
  shows "m_ok N (fold (\<lambda>k m. m_set N m k j (F k m)) [a..<b] m) \<and>
    m_at N (fold (\<lambda>k m. m_set N m k j (F k m)) [a..<b] m) r c = (if c = j \<and> a \<le> r \<and> r < b then F r m else m_at N m r c)"
proof -
  have F: "F k m' = F k m" if "k \<in> set [a..<b]" "m_ok N m'"
    "\<And>r c. r < N \<Longrightarrow> c < N \<Longrightarrow> (\<And>k'. k' \<in> set [a..<b] \<Longrightarrow> k' \<noteq> k \<Longrightarrow> (r, c) \<noteq> (k', j)) \<Longrightarrow> m_at N m' r c = m_at N m r c" for k m'
    using that(1,2) by (intro dep that(3)) auto
  have inj: "inj_on (\<lambda>k. (k, j)) (set [a..<b])" by (auto simp: inj_on_def)
  have pos: "k < N \<and> j < N" if "k \<in> set [a..<b]" for k using that assms(2,3) by auto
  let ?m = "fold (\<lambda>k m. m_set N m k j (F k m)) [a..<b] m"
  have *: "m_ok N ?m" "\<forall>k \<in> set [a..<b]. m_at N ?m k j = F k m"
    "\<forall>r < N. \<forall>c < N. (\<forall>k \<in> set [a..<b]. (k, j) \<noteq> (r, c)) \<longrightarrow> m_at N ?m r c = m_at N m r c"
    using fold_m_set [where N = N and ks = "[a..<b]" and p = "\<lambda>k. k" and q = "\<lambda>k. j" and F = F, OF assms(1) pos distinct_upt inj F]
    by blast+
  show ?thesis
  proof (cases "c = j \<and> a \<le> r \<and> r < b")
    case True
    with *(1,2) show ?thesis by auto
  next
    case False
    with *(1) *(3) [rule_format, OF assms(4,5)] show ?thesis by auto
  qed
qed

text \<open>An outer loop whose body works on the entries of one row, and one that works on one column.\<close>

lemma fold_rows:
  assumes "m_ok N m" "distinct rs" "set rs \<subseteq> {..<N}" "r < N" "c < N"
    and step: "\<And>i m. i \<in> set rs \<Longrightarrow> m_ok N m \<Longrightarrow> m_ok N (G i m) \<and>
      (\<forall>r < N. \<forall>c < N. m_at N (G i m) r c = (if r = i then f r c (m_at N m r c) else m_at N m r c))"
  shows "m_ok N (fold G rs m) \<and> m_at N (fold G rs m) r c = (if r \<in> set rs then f r c (m_at N m r c) else m_at N m r c)"
  using assms(2,3) step
proof (induction rs rule: rev_induct)
  case (snoc i rs)
  have "m_ok N (fold G rs m)" "m_at N (fold G rs m) r c = (if r \<in> set rs then f r c (m_at N m r c) else m_at N m r c)"
    using snoc.IH snoc.prems by auto
  with snoc.prems(1,2) snoc.prems(3) [of i "fold G rs m"] assms(4,5) show ?case by auto
qed (simp add: assms(1))

lemma m_at_new [m_entry]: "r < N \<Longrightarrow> c < N \<Longrightarrow> m_at N (m_new N x) r c = x"
  by (simp add: m_at_position m_new_def position_less)

lemma length_m_new [m_entry, simp]: "length (m_new N x) = N * N"
  by (simp add: m_new_def)

section \<open>The entries of the operations\<close>

lemma diagonal_position: "r < N \<Longrightarrow> c < N \<Longrightarrow> (r * N + c) mod (N + 1) = 0 \<longleftrightarrow> r = (c :: nat)"
proof (cases "r \<le> c")
  case True
  assume "r < N" "c < N"
  have "r * N + c = (c - r) + r * (N + 1)" using True by (simp add: algebra_simps)
  then have "(r * N + c) mod (N + 1) = (c - r) mod (N + 1)" by (simp only: mod_mult_self1)
  with \<open>c < N\<close> True show ?thesis by auto
next
  case False
  assume "r < N" "c < N"
  obtain q where q: "r = Suc q" using False by (cases r) auto
  then have "r * N + c = (N + 1 + c - r) + (r - 1) * (N + 1)" using False \<open>r < N\<close> by (simp add: algebra_simps)
  then have "(r * N + c) mod (N + 1) = (N + 1 + c - r) mod (N + 1)" by (simp only: mod_mult_self1)
  also have "\<dots> = N + 1 + c - r" using False by (intro mod_less) simp
  finally show ?thesis using False \<open>r < N\<close> by simp
qed

lemma diagonal_indices_eq: "diagonal_indices N = map (\<lambda>k. k * N + k) [0..<N]"
proof (rule sorted_distinct_set_unique)
  show "sorted (map (\<lambda>k. k * N + k) [0..<N])"
    by (auto simp: sorted_iff_nth_mono intro!: add_mono mult_le_mono1)
  show "distinct (map (\<lambda>k. k * N + k) [0..<N])"
    by (auto simp: distinct_map inj_on_def position_eq)
  show "set (diagonal_indices N) = set (map (\<lambda>k. k * N + k) [0..<N])"
  proof (intro set_eqI iffI)
    fix x assume "x \<in> set (diagonal_indices N)"
    then have x: "x < N * N" "x mod (N + 1) = 0" by (auto simp: diagonal_indices_def)
    then obtain i j where "i < N" "j < N" "x = i * N + j" using position_cases by blast
    with x(2) diagonal_position [of i N j] show "x \<in> set (map (\<lambda>k. k * N + k) [0..<N])" by auto
  next
    fix x assume "x \<in> set (map (\<lambda>k. k * N + k) [0..<N])"
    then obtain k where "k < N" "x = k * N + k" by auto
    with diagonal_position [of k N k] position_less [of k N k] show "x \<in> set (diagonal_indices N)"
      by (auto simp: diagonal_indices_def)
  qed
qed (auto simp: diagonal_indices_def sorted_wrt_filter)

lemma fold_diagonal:
  "m_ok N m \<Longrightarrow> K \<le> N \<Longrightarrow> r < N \<Longrightarrow> c < N \<Longrightarrow>
    length (fold (\<lambda>k d. d[k * N + k := f k]) [0..<K] m) = N * N \<and>
    m_at N (fold (\<lambda>k d. d[k * N + k := f k]) [0..<K] m) r c = (if r = c \<and> r < K then f r else m_at N m r c)"
  by (induction K) (auto simp: m_at_position nth_list_update position_less position_eq)

lemma m_eye_of_entry [m_entry]:
  "r < N \<Longrightarrow> c < N \<Longrightarrow> m_at N (m_eye_of N v) r c = (if r = c then v else 0)"
  using fold_diagonal [of "replicate (N * N) 0" N N r c "\<lambda>_. v"]
  by (simp add: m_eye_of_def diagonal_indices_eq fold_map comp_def m_at_position position_less)

lemma length_m_eye_of [m_entry, simp]: "length (m_eye_of N v) = N * N"
proof -
  have "length (fold (\<lambda>i d. d[i := v]) xs d) = length d" for xs and d :: mat by (induction xs arbitrary: d) auto
  then show ?thesis by (simp add: m_eye_of_def)
qed

lemma m_eye_entry [m_entry]: "r < N \<Longrightarrow> c < N \<Longrightarrow> m_at N (m_eye N) r c = (if r = c then 1 else 0)"
  and length_m_eye [m_entry, simp]: "length (m_eye N) = N * N"
  by (simp_all add: m_eye_def m_entry)

lemma m_diag_entry:
  assumes "r < N" "c < N"
  shows "length (m_diag N w) = N * N \<and> m_at N (m_diag N w) r c = (if r = c then w ! r else 0)"
proof -
  have "m_diag N w = fold (\<lambda>s d. d[s * N + s := w ! s]) [0..<N] (replicate (N * N) 0)"
    by (simp add: m_diag_def algebra_simps)
  then show ?thesis using fold_diagonal [of "replicate (N * N) 0" N N r c "\<lambda>s. w ! s"] assms
    by (simp add: m_at_position position_less)
qed

text \<open>A matrix filled row by row.\<close>

lemma fill_row:
  assumes "i < N" "m_ok N m"
  shows "m_ok N (fold (\<lambda>j d. m_set N d i j (g i j)) [0..<N] m) \<and>
    (\<forall>r < N. \<forall>c < N. m_at N (fold (\<lambda>j d. m_set N d i j (g i j)) [0..<N] m) r c = (if r = i then g i c else m_at N m r c))"
  using fold_row [of m N i N _ _ 0 "\<lambda>j _. g i j"] assms by (cases N) auto

lemma fill_rows:
  assumes "m_ok N m" "r < N" "c < N"
  shows "m_ok N (fold (\<lambda>i d. fold (\<lambda>j d. m_set N d i j (g i j)) [0..<N] d) [0..<N] m) \<and>
    m_at N (fold (\<lambda>i d. fold (\<lambda>j d. m_set N d i j (g i j)) [0..<N] d) [0..<N] m) r c = g r c"
proof -
  let ?G = "\<lambda>i d. fold (\<lambda>j d. m_set N d i j (g i j)) [0..<N] d"
  have "m_ok N (fold ?G [0..<N] m) \<and>
      m_at N (fold ?G [0..<N] m) r c = (if r \<in> set [0..<N] then g r c else m_at N m r c)"
  proof (rule fold_rows [where f = "\<lambda>r c _. g r c"])
    fix i and m :: mat assume "i \<in> set [0..<N]" "m_ok N m"
    then show "m_ok N (?G i m) \<and> (\<forall>r < N. \<forall>c < N. m_at N (?G i m) r c = (if r = i then g r c else m_at N m r c))"
      using fill_row [of i N m g] by simp
  qed (use assms in auto)
  then show ?thesis using assms by simp
qed

lemma fold_length: "(\<And>k x. length (f k x) = length x) \<Longrightarrow> length (fold f ks x) = length x"
  by (induction ks arbitrary: x) auto

lemma m_trans_entry [m_entry]: "r < N \<Longrightarrow> c < N \<Longrightarrow> m_at N (m_trans N m) r c = m_at N m c r"
  using fill_rows [of "m_new N 0" N r c "\<lambda>i j. m_at N m j i"] by (simp add: m_trans_def)

lemma length_m_trans [m_entry, simp]: "length (m_trans N m) = N * N"
  by (simp add: m_trans_def fold_length)

lemma oprod_entry [m_entry]: "r < N \<Longrightarrow> c < N \<Longrightarrow> m_at N (oprod N v w) r c = v ! r * w ! c"
  using fill_rows [of "m_new N 0" N r c "\<lambda>i j. v ! i * w ! j"] by (simp add: oprod_def)

lemma length_oprod [m_entry, simp]: "length (oprod N v w) = N * N"
  by (simp add: oprod_def fold_length)

lemma m_compound_entry [m_entry]:
  "m_ok N m \<Longrightarrow> r < N \<Longrightarrow> c < N \<Longrightarrow> m_at N (m_compound f m w) r c = f (m_at N m r c) (m_at N w r c)"
  "m_ok N m \<Longrightarrow> r < N \<Longrightarrow> c < N \<Longrightarrow> m_at N (m_compound_scalar f m x) r c = f (m_at N m r c) x"
  by (simp_all add: m_at_position m_compound_def m_compound_scalar_def position_less)

lemma length_m_compound [m_entry, simp]:
  "length (m_compound f m w) = length m" "length (m_compound_scalar f m x) = length m"
  by (simp_all add: m_compound_def m_compound_scalar_def)

text \<open>Products are sums.\<close>

lemma fold_add_nth:
  "i < length res \<Longrightarrow> fold (\<lambda>j res. res[i := res ! i + f j]) [0..<n] res = res[i := res ! i + (\<Sum>j = 0..<n. f j)]"
  for res :: "real list"
  by (induction n) (auto simp: algebra_simps)

lemma m_mul_row:
  assumes "r < N" "m_ok N m" "n \<le> N"
  shows "m_ok N (fold (\<lambda>c res. fold (\<lambda>j res. res[N * r + c := res ! (N * r + c) + f c j]) [0..<N] res) [0..<n] m) \<and>
    (\<forall>i < N. \<forall>k < N. m_at N (fold (\<lambda>c res. fold (\<lambda>j res. res[N * r + c := res ! (N * r + c) + f c j]) [0..<N] res) [0..<n] m) i k =
      (if i = r \<and> k < n then m_at N m i k + (\<Sum>j = 0..<N. f k j) else m_at N m i k))"
  using assms(3)
proof (induction n)
  case (Suc n)
  let ?m = "fold (\<lambda>c res. fold (\<lambda>j res. res[N * r + c := res ! (N * r + c) + f c j]) [0..<N] res) [0..<n] m"
  have IH: "m_ok N ?m" "\<And>i k. i < N \<Longrightarrow> k < N \<Longrightarrow>
      m_at N ?m i k = (if i = r \<and> k < n then m_at N m i k + (\<Sum>j = 0..<N. f k j) else m_at N m i k)"
    using Suc by auto
  have "fold (\<lambda>c res. fold (\<lambda>j res. res[N * r + c := res ! (N * r + c) + f c j]) [0..<N] res) [0..<Suc n] m =
      m_set N ?m r n (m_at N ?m r n + (\<Sum>j = 0..<N. f n j))"
    using IH(1) Suc.prems assms(1) position_less [of r N n]
    by (simp add: fold_add_nth m_set_def m_at_def lookup_table_position mult.commute)
  then show ?case using IH Suc.prems assms(1) by (auto simp: m_at_set less_Suc_eq)
qed (simp add: assms(2))

lemma m_mul_loops:
  "N \<noteq> 1 \<Longrightarrow> m_mul N a b = fold (\<lambda>r res.
      fold (\<lambda>c res. fold (\<lambda>j res. res[N * r + c := res ! (N * r + c) + m_at N a r j * m_at N b j c]) [0..<N] res) [0..<N] res)
      [0..<N] (m_new N 0)"
proof -
  assume "N \<noteq> 1"
  have *: "(\<lambda>r (i, res). fold (\<lambda>c (i, res).
        (i + 1, fold (\<lambda>j res. res[i := res ! i + m_at N a r j * m_at N b j c]) [0..<N] res)) [0..<N] (i, res)) =
      (\<lambda>r (i, res). (i + N, fold (\<lambda>c res. fold (\<lambda>j res.
        res[i + c := res ! (i + c) + m_at N a r j * m_at N b j c]) [0..<N] res) [0..<N] res))"
    using fold_counter [where s = 1 and g = "\<lambda>c i res. fold (\<lambda>j res. res[i := res ! i + m_at N a r j * m_at N b j c]) [0..<N] res" for r]
    by (intro ext) auto
  show ?thesis unfolding m_mul_def * using \<open>N \<noteq> 1\<close> by (subst fold_counter) simp
qed

lemma m_mul_ok:
  assumes "r < N" "c < N"
  shows "length (m_mul N a b) = N * N \<and> m_at N (m_mul N a b) r c = (\<Sum>j = 0..<N. m_at N a r j * m_at N b j c)"
proof (cases "N = 1")
  case True
  then show ?thesis using assms by (simp add: m_mul_def m_at_position m_new_def)
next
  case False
  let ?G = "\<lambda>r res. fold (\<lambda>c res. fold (\<lambda>j res.
      res[N * r + c := res ! (N * r + c) + m_at N a r j * m_at N b j c]) [0..<N] res) [0..<N] res"
  have "m_ok N (fold ?G [0..<N] (m_new N 0)) \<and> m_at N (fold ?G [0..<N] (m_new N 0)) r c =
      (if r \<in> set [0..<N] then m_at N (m_new N 0) r c + (\<Sum>j = 0..<N. m_at N a r j * m_at N b j c) else m_at N (m_new N 0) r c)"
  proof (rule fold_rows [where f = "\<lambda>r c x. x + (\<Sum>j = 0..<N. m_at N a r j * m_at N b j c)"])
    fix i and m :: mat assume "i \<in> set [0..<N]" "m_ok N m"
    then show "m_ok N (?G i m) \<and> (\<forall>r < N. \<forall>c < N. m_at N (?G i m) r c =
        (if r = i then m_at N m r c + (\<Sum>j = 0..<N. m_at N a r j * m_at N b j c) else m_at N m r c))"
      using m_mul_row [of i N m N "\<lambda>c j. m_at N a i j * m_at N b j c"] by auto
  qed (use assms in auto)
  then show ?thesis using assms False by (simp add: m_mul_loops m_at_new)
qed

lemma m_mul_entry [m_entry]:
  "r < N \<Longrightarrow> c < N \<Longrightarrow> m_at N (m_mul N a b) r c = (\<Sum>j = 0..<N. m_at N a r j * m_at N b j c)"
  using m_mul_ok by blast

lemma length_m_mul [m_entry, simp]: "length (m_mul N a b) = N * N"
  by (cases "N = 0") (use m_mul_ok [of 0 N 0 a b] in \<open>auto simp: m_mul_loops\<close>)

section \<open>Exchanges\<close>

text \<open>A loop that exchanges disjoint pairs of positions.\<close>

lemma fold_swaps:
  assumes "\<And>k. k \<in> set ks \<Longrightarrow> p k < length xs \<and> q k < length xs \<and> p k \<noteq> q k \<and> \<sigma> (p k) = q k \<and> \<sigma> (q k) = p k"
    and "distinct ks" "inj_on (\<lambda>k. {p k, q k}) (set ks)" "x < length xs"
  shows "length (fold (\<lambda>k xs. swap_nth xs (p k) (q k)) ks xs) = length xs \<and>
    fold (\<lambda>k xs. swap_nth xs (p k) (q k)) ks xs ! x = (if \<exists>k \<in> set ks. x = p k \<or> x = q k then xs ! \<sigma> x else xs ! x)"
  using assms
proof (induction ks arbitrary: x rule: rev_induct)
  case (snoc k ks)
  let ?xs = "fold (\<lambda>k xs. swap_nth xs (p k) (q k)) ks xs"
  have len: "length ?xs = length xs" by (simp add: fold_length)
  have IH: "x < length xs \<Longrightarrow> ?xs ! x = (if \<exists>k \<in> set ks. x = p k \<or> x = q k then xs ! \<sigma> x else xs ! x)" for x
    using snoc.IH [of x] snoc.prems by (auto simp: inj_on_def)
  have k: "p k < length xs" "q k < length xs" "p k \<noteq> q k" "\<sigma> (p k) = q k" "\<sigma> (q k) = p k"
    using snoc.prems(1) [of k] by auto
  have new: "p k' \<noteq> p k \<and> p k' \<noteq> q k \<and> q k' \<noteq> p k \<and> q k' \<noteq> q k" if "k' \<in> set ks" for k'
  proof -
    have "{p k', q k'} \<noteq> {p k, q k}" using snoc.prems(2,3) that by (auto simp: inj_on_def)
    then show ?thesis using snoc.prems(1) [of k'] k that by (auto simp: doubleton_eq_iff)
  qed
  have "\<not> (\<exists>k' \<in> set ks. p k = p k' \<or> p k = q k')" "\<not> (\<exists>k' \<in> set ks. q k = p k' \<or> q k = q k')"
    using new by metis+
  then have "?xs ! p k = xs ! p k" "?xs ! q k = xs ! q k" using IH [of "p k"] IH [of "q k"] k by simp_all
  then have "swap_nth ?xs (p k) (q k) ! x =
      (if x = q k then xs ! p k else if x = p k then xs ! q k else ?xs ! x)" for x
    using k len by (simp add: nth_swap_nth)
  with IH [of x] k new snoc.prems(4) len show ?case by auto
qed simp

lemma m_swap_rows_ok:
  assumes "m_ok N m" "a < N" "b < N" "lo \<le> N" "hi < N" "r < N" "c < N"
  shows "m_ok N (m_swap_rows N m a b lo hi) \<and> m_at N (m_swap_rows N m a b lo hi) r c =
    (if lo \<le> c \<and> c \<le> hi then m_at N m (if r = a then b else if r = b then a else r) c else m_at N m r c)"
proof (cases "a = b")
  case False
  define \<sigma> where "\<sigma> x = (if x div N = a then b * N + x mod N else a * N + x mod N)" for x
  have pq: "lookup_table N (a, k) < length m \<and> lookup_table N (b, k) < length m \<and> lookup_table N (a, k) \<noteq> lookup_table N (b, k) \<and>
      \<sigma> (lookup_table N (a, k)) = lookup_table N (b, k) \<and> \<sigma> (lookup_table N (b, k)) = lookup_table N (a, k)"
    if "k \<in> set [lo..<hi + 1]" for k
  proof -
    have "k < N" using that assms(5) by auto
    then show ?thesis using assms False by (simp add: lookup_table_position position_less position_eq \<sigma>_def)
  qed
  have inj: "inj_on (\<lambda>k. {lookup_table N (a, k), lookup_table N (b, k)}) (set [lo..<hi + 1])"
    using assms by (auto simp: inj_on_def lookup_table_position doubleton_eq_iff position_eq)
  have x: "r * N + c < length m" using assms by (simp add: position_less)
  have ex: "(\<exists>k \<in> set [lo..<hi + 1]. r * N + c = lookup_table N (a, k) \<or> r * N + c = lookup_table N (b, k)) \<longleftrightarrow>
      (r = a \<or> r = b) \<and> lo \<le> c \<and> c \<le> hi"
    using assms by (auto simp: lookup_table_position position_eq)
  show ?thesis using fold_swaps [OF pq distinct_upt inj x] ex assms False
    by (auto simp: m_swap_rows_def m_at_position \<sigma>_def)
qed (use assms in \<open>simp add: m_swap_rows_def\<close>)

lemma m_swap_columns_ok:
  assumes "m_ok N m" "a < N" "b < N" "lo \<le> N" "hi < N" "r < N" "c < N"
  shows "m_ok N (m_swap_columns N m a b lo hi) \<and> m_at N (m_swap_columns N m a b lo hi) r c =
    (if lo \<le> r \<and> r \<le> hi then m_at N m r (if c = a then b else if c = b then a else c) else m_at N m r c)"
proof (cases "a = b")
  case False
  define \<sigma> where "\<sigma> x = x div N * N + (if x mod N = a then b else a)" for x
  have pq: "lookup_table N (k, a) < length m \<and> lookup_table N (k, b) < length m \<and> lookup_table N (k, a) \<noteq> lookup_table N (k, b) \<and>
      \<sigma> (lookup_table N (k, a)) = lookup_table N (k, b) \<and> \<sigma> (lookup_table N (k, b)) = lookup_table N (k, a)"
    if "k \<in> set [lo..<hi + 1]" for k
  proof -
    have "k < N" using that assms(5) by auto
    then show ?thesis using assms False by (simp add: lookup_table_position position_less position_eq \<sigma>_def)
  qed
  have inj: "inj_on (\<lambda>k. {lookup_table N (k, a), lookup_table N (k, b)}) (set [lo..<hi + 1])"
    using assms by (auto simp: inj_on_def lookup_table_position doubleton_eq_iff position_eq)
  have x: "r * N + c < length m" using assms by (simp add: position_less)
  have ex: "(\<exists>k \<in> set [lo..<hi + 1]. r * N + c = lookup_table N (k, a) \<or> r * N + c = lookup_table N (k, b)) \<longleftrightarrow>
      (c = a \<or> c = b) \<and> lo \<le> r \<and> r \<le> hi"
    using assms by (auto simp: lookup_table_position position_eq)
  show ?thesis using fold_swaps [OF pq distinct_upt inj x] ex assms False
    by (auto simp: m_swap_columns_def m_at_position \<sigma>_def)
qed (use assms in \<open>simp add: m_swap_columns_def\<close>)

lemma distinct_pairs: "distinct xs \<Longrightarrow> (\<And>x. distinct (f x)) \<Longrightarrow> distinct (concat (map (\<lambda>x. map (Pair x) (f x)) xs))"
  by (induction xs) (auto simp: distinct_map inj_on_def)

lemma m_transpose_ok:
  assumes "m_ok N m" "r < N" "c < N"
  shows "m_ok N (m_transpose N m) \<and> m_at N (m_transpose N m) r c = m_at N m c r"
proof -
  let ?ks = "concat (map (\<lambda>i. map (Pair i) [i + 1..<N]) [0..<N])"
  let ?p = "\<lambda>k. lookup_table N k" and ?q = "\<lambda>k. lookup_table N (snd k, fst k)"
  define \<sigma> where "\<sigma> x = x mod N * N + x div N" for x
  have set: "set ?ks = {(i, j). i < j \<and> j < N}" by (auto simp: image_iff)
  have eq: "m_transpose N m = fold (\<lambda>k xs. swap_nth xs (?p k) (?q k)) ?ks m"
    unfolding m_transpose_def by (intro fold_concat_map) (simp add: fold_map comp_def)
  have pq: "?p k < length m \<and> ?q k < length m \<and> ?p k \<noteq> ?q k \<and> \<sigma> (?p k) = ?q k \<and> \<sigma> (?q k) = ?p k"
    if "k \<in> set ?ks" for k
    using that unfolding set using assms(1) by (auto simp: lookup_table_position position_less position_eq \<sigma>_def)
  have inj: "inj_on (\<lambda>k. {?p k, ?q k}) (set ?ks)"
    unfolding set by (auto simp: inj_on_def lookup_table_position doubleton_eq_iff position_eq)
  have x: "r * N + c < length m" using assms by (simp add: position_less)
  have ex: "(\<exists>k \<in> set ?ks. r * N + c = ?p k \<or> r * N + c = ?q k) \<longleftrightarrow> r \<noteq> c"
  proof
    assume "r \<noteq> c"
    then have "(min r c, max r c) \<in> set ?ks" "r * N + c = ?p (min r c, max r c) \<or> r * N + c = ?q (min r c, max r c)"
      unfolding set using assms by (auto simp: lookup_table_position min_def max_def)
    then show "\<exists>k \<in> set ?ks. r * N + c = ?p k \<or> r * N + c = ?q k" by blast
  next
    assume "\<exists>k \<in> set ?ks. r * N + c = ?p k \<or> r * N + c = ?q k"
    then show "r \<noteq> c" unfolding set using assms by (auto simp: lookup_table_position position_eq)
  qed
  show ?thesis
    using fold_swaps [OF pq distinct_pairs [OF distinct_upt distinct_upt] inj x] assms unfolding eq ex
    by (auto simp: m_at_position \<sigma>_def)
qed

text \<open>The row and the column a minor leaves out.\<close>

definition skip :: "nat \<Rightarrow> nat \<Rightarrow> nat" where
  "skip r i = (if i < r then i else i + 1)"

lemma minor_row:
  assumes "n \<le> N" "dr < N" "m_ok N d"
  shows "\<exists>d'. fold (\<lambda>dc (sc, d). let sc = (if dc = c then sc + 1 else sc) in (sc + 1, m_set N d dr dc (g sc))) [0..<n] (0, d) =
      (if c < n then n + 1 else n, d') \<and> m_ok N d' \<and>
      (\<forall>i < N. \<forall>j < N. m_at N d' i j = (if i = dr \<and> j < n then g (skip c j) else m_at N d i j))"
  using assms(1)
proof (induction n)
  case (Suc n)
  then obtain d' where "fold (\<lambda>dc (sc, d). let sc = (if dc = c then sc + 1 else sc) in (sc + 1, m_set N d dr dc (g sc))) [0..<n] (0, d) =
      (if c < n then n + 1 else n, d')" "m_ok N d'"
    "\<forall>i < N. \<forall>j < N. m_at N d' i j = (if i = dr \<and> j < n then g (skip c j) else m_at N d i j)" by auto
  with Suc.prems assms(2) show ?case
    by (auto simp: Let_def m_at_set skip_def less_Suc_eq)
qed (simp add: assms(3))

lemma minor_rows:
  assumes "n \<le> N"
  shows "\<exists>d'. fold (\<lambda>dr (sr, d).
      let sr = (if dr = r then sr + 1 else sr);
          (sc, d) = fold (\<lambda>dc (sc, d). let sc = (if dc = c then sc + 1 else sc)
                       in (sc + 1, m_set N d dr dc (m_at (N + 1) m sr sc))) [0..<N] (0, d)
      in (sr + 1, d)) [0..<n] (0, m_new N 0) = (if r < n then n + 1 else n, d') \<and> m_ok N d' \<and>
      (\<forall>i < n. \<forall>j < N. m_at N d' i j = m_at (N + 1) m (skip r i) (skip c j))"
  using assms
proof (induction n)
  case (Suc n)
  let ?step = "\<lambda>dr (sr, d).
      let sr = (if dr = r then sr + 1 else sr);
          (sc, d) = fold (\<lambda>dc (sc, d). let sc = (if dc = c then sc + 1 else sc)
                       in (sc + 1, m_set N d dr dc (m_at (N + 1) m sr sc))) [0..<N] (0, d)
      in (sr + 1, d)"
  from Suc obtain d' where IH: "fold ?step [0..<n] (0, m_new N 0) = (if r < n then n + 1 else n, d')" "m_ok N d'"
    "\<forall>i < n. \<forall>j < N. m_at N d' i j = m_at (N + 1) m (skip r i) (skip c j)" by auto
  obtain d2 where d2: "fold (\<lambda>dc (sc, d). let sc = (if dc = c then sc + 1 else sc)
      in (sc + 1, m_set N d n dc (m_at (N + 1) m (skip r n) sc))) [0..<N] (0, d') = (if c < N then N + 1 else N, d2)"
    "m_ok N d2" "\<forall>i < N. \<forall>j < N. m_at N d2 i j = (if i = n \<and> j < N then m_at (N + 1) m (skip r n) (skip c j) else m_at N d' i j)"
    using minor_row [of N N n d' c "m_at (N + 1) m (skip r n)"] IH(2) Suc.prems by auto
  have "fold ?step [0..<Suc n] (0, m_new N 0) = ?step n (if r < n then n + 1 else n, d')"
    by (simp only: upt_Suc fold_append fold_simps if_True le0 comp_def IH(1))
  also have "\<dots> = (if r < Suc n then Suc n + 1 else Suc n, d2)"
    using d2(1) by (auto simp: Let_def skip_def split: if_splits)
  finally show ?case using d2(2,3) IH(3) Suc.prems by (auto simp: less_Suc_eq)
qed simp

lemma m_minor_ok:
  assumes "i < N" "j < N"
  shows "m_ok N (m_minor N m r c) \<and> m_at N (m_minor N m r c) i j = m_at (N + 1) m (skip r i) (skip c j)"
  using minor_rows [of N N r c m] assms by (auto simp: m_minor_def)

text \<open>A vector and a matrix: the product is the same from the left and from the right.\<close>

lemma fold_dot_rows:
  "n \<le> length res \<Longrightarrow> length (fold (\<lambda>r res. fold (\<lambda>c res. res[r := res ! r + f r c]) [0..<k] (res[r := 0])) [0..<n] res) = length res \<and>
    (\<forall>i < length res. fold (\<lambda>r res. fold (\<lambda>c res. res[r := res ! r + f r c]) [0..<k] (res[r := 0])) [0..<n] res ! i =
      (if i < n then \<Sum>c = 0..<k. f i c else res ! i :: real))"
  by (induction n) (auto simp: fold_add_nth nth_list_update less_Suc_eq)

lemma m_mul_vec_entry: "length (m_mul_vec N m v) = N \<and> (\<forall>i < N. m_mul_vec N m v ! i = (\<Sum>c = 0..<N. v ! c * m_at N m i c))"
  using fold_dot_rows [of N "v_new N 0" "\<lambda>r c. v ! c * m_at N m r c" N] by (simp add: m_mul_vec_def)

lemma v_mul_mat_eq: "v_mul_mat N v m = m_mul_vec N m v"
  by (simp add: v_mul_mat_def m_mul_vec_def)

lemma m_trace_prod: "m_trace N m = (\<Prod>k = 0..<N. m_at N m k k)"
proof -
  have *: "fold (\<lambda>i res. res * m ! i) (map (\<lambda>k. k * N + k) [0..<n]) x = x * (\<Prod>k = 0..<n. m_at N m k k)" if "n \<le> N" for n and x :: real
    using that by (induction n) (auto simp: m_at_position)
  show ?thesis using * [of N 1] by (cases "N = 1") (auto simp: m_trace_def diagonal_indices_eq m_at_position)
qed

end
