(* ===== verification/Zi_Matrix_Laws.thy ===== *)
theory Zi_Matrix_Laws
  imports Zi_Matrix_Entries
begin

text \<open>
  What the operations of \<^verbatim>\<open>Zi_Matrix\<close> compute: the ring of square matrices, transposition in place,
  determinants of small matrices, and the operations that do not do what their names say.
\<close>

section \<open>The ring of square matrices\<close>

lemma m_mul_assoc: "m_mul N (m_mul N a b) c = m_mul N a (m_mul N b c)"
proof (rule m_eqI)
  fix i j assume ij: "i < N" "j < N"
  have "m_at N (m_mul N (m_mul N a b) c) i j = (\<Sum>k = 0..<N. \<Sum>l = 0..<N. m_at N a i l * m_at N b l k * m_at N c k j)"
    using ij by (simp add: m_entry sum_distrib_right)
  also have "\<dots> = (\<Sum>l = 0..<N. \<Sum>k = 0..<N. m_at N a i l * m_at N b l k * m_at N c k j)" by (rule sum.swap)
  also have "\<dots> = m_at N (m_mul N a (m_mul N b c)) i j"
    using ij by (simp add: m_entry sum_distrib_left mult.assoc)
  finally show "m_at N (m_mul N (m_mul N a b) c) i j = m_at N (m_mul N a (m_mul N b c)) i j" .
qed (simp_all add: m_entry)

lemma sum_delta_mult [simp]:
  fixes f :: "nat \<Rightarrow> real"
  assumes "r < N"
  shows "(\<Sum>j = 0..<N. (if r = j then 1 else 0) * f j) = f r" "(\<Sum>j = 0..<N. f j * (if j = r then 1 else 0)) = f r"
proof -
  have "(\<Sum>j = 0..<N. (if r = j then 1 else 0) * f j) = (\<Sum>j = 0..<N. if j = r then f j else 0)"
    by (intro sum.cong) auto
  also have "\<dots> = f r" using assms by (subst sum.delta) auto
  finally show "(\<Sum>j = 0..<N. (if r = j then 1 else 0) * f j) = f r" .
  have "(\<Sum>j = 0..<N. f j * (if j = r then 1 else 0)) = (\<Sum>j = 0..<N. if j = r then f j else 0)"
    by (intro sum.cong) auto
  also have "\<dots> = f r" using assms by (subst sum.delta) auto
  finally show "(\<Sum>j = 0..<N. f j * (if j = r then 1 else 0)) = f r" .
qed

lemma m_mul_eye_left [simp]: "m_ok N a \<Longrightarrow> m_mul N (m_eye N) a = a"
  by (rule m_eqI [where N = N]) (simp_all add: m_entry)

lemma m_mul_eye_right [simp]: "m_ok N a \<Longrightarrow> m_mul N a (m_eye N) = a"
  by (rule m_eqI [where N = N]) (simp_all add: m_entry)

lemma m_trans_mul: "m_trans N (m_mul N a b) = m_mul N (m_trans N b) (m_trans N a)"
  by (rule m_eqI [where N = N]) (simp_all add: m_entry mult.commute)

lemma m_mul_vec_assoc: "m_mul_vec N (m_mul N a b) v = m_mul_vec N a (m_mul_vec N b v)"
proof (rule nth_equalityI)
  fix i assume "i < length (m_mul_vec N (m_mul N a b) v)"
  then have i: "i < N" by (simp add: m_mul_vec_entry)
  have "m_mul_vec N (m_mul N a b) v ! i = (\<Sum>k = 0..<N. \<Sum>l = 0..<N. v ! k * (m_at N a i l * m_at N b l k))"
    using i by (simp add: m_mul_vec_entry m_entry sum_distrib_left)
  also have "\<dots> = (\<Sum>l = 0..<N. \<Sum>k = 0..<N. v ! k * (m_at N a i l * m_at N b l k))" by (rule sum.swap)
  also have "\<dots> = m_mul_vec N a (m_mul_vec N b v) ! i"
    using i by (simp add: m_mul_vec_entry sum_distrib_left sum_distrib_right algebra_simps)
  finally show "m_mul_vec N (m_mul N a b) v ! i = m_mul_vec N a (m_mul_vec N b v) ! i" .
qed (simp add: m_mul_vec_entry)

text \<open>Products, sums and transposes of square matrices of any size obey the laws of a ring with an
  involution: the product is associative, the unit matrix is its unit, it distributes over the sum, a
  transpose reverses products, and a vector times a product is the composition of the two maps.\<close>
theorem matrix_ring:
  assumes "m_ok N a" "m_ok N b" "m_ok N c"
  shows "m_mul N (m_mul N a b) c = m_mul N a (m_mul N b c) \<and> m_mul N (m_eye N) a = a \<and> m_mul N a (m_eye N) = a \<and>
    m_mul N a (m_compound (+) b c) = m_compound (+) (m_mul N a b) (m_mul N a c) \<and>
    m_mul N (m_compound (+) a b) c = m_compound (+) (m_mul N a c) (m_mul N b c) \<and>
    m_trans N (m_mul N a b) = m_mul N (m_trans N b) (m_trans N a) \<and> m_trans N (m_trans N a) = a \<and>
    m_mul_vec N (m_mul N a b) v = m_mul_vec N a (m_mul_vec N b v)"
proof (intro conjI)
  show "m_mul N a (m_compound (+) b c) = m_compound (+) (m_mul N a b) (m_mul N a c)"
    using assms by (intro m_eqI [where N = N]) (simp_all add: m_entry sum.distrib algebra_simps)
  show "m_mul N (m_compound (+) a b) c = m_compound (+) (m_mul N a c) (m_mul N b c)"
    using assms by (intro m_eqI [where N = N]) (simp_all add: m_entry sum.distrib algebra_simps)
  show "m_trans N (m_trans N a) = a"
    using assms by (intro m_eqI [where N = N]) (simp_all add: m_entry)
qed (use assms in \<open>simp_all add: m_mul_assoc m_trans_mul m_mul_vec_assoc\<close>)

theorem matrix_ring_witness:
  "m_mul 2 (m_mul 2 [1, 2, 3, 4] [0, 1, 1, 0]) [2, 0, 0, 2] = m_mul 2 [1, 2, 3, 4] (m_mul 2 [0, 1, 1, 0] [2, 0, 0, 2])"
  using matrix_ring [of "[1, 2, 3, 4]" 2 "[0, 1, 1, 0]" "[2, 0, 0, 2]"] by simp

text \<open>Transposing in place, by exchanging the entries above the diagonal with those below it,
  gives the same matrix as the constructor of the transpose, and doing it twice gives the matrix back.\<close>
theorem transpose_in_place:
  assumes "m_ok N m"
  shows "m_transpose N m = m_trans N m \<and> m_transpose N (m_transpose N m) = m"
proof
  have ok: "m_ok N (m_transpose N m)" using m_transpose_ok [OF assms] assms by (cases N) (auto simp: m_transpose_def)
  show "m_transpose N m = m_trans N m"
    using m_transpose_ok [OF assms] ok by (intro m_eqI [where N = N]) (simp_all add: m_entry)
  show "m_transpose N (m_transpose N m) = m"
    using m_transpose_ok [OF ok] m_transpose_ok [OF assms] assms
    by (intro m_eqI [where N = N]) (cases N; auto simp: m_transpose_def)+
qed

theorem transpose_in_place_witness: "m_transpose 2 [1, 2, 3, 4] = m_trans 2 [1, 2, 3, 4]"
  using transpose_in_place [of "[1, 2, 3, 4]" 2] by simp

section \<open>Determinants\<close>

lemma m_elems2: "m_ok 2 m \<Longrightarrow> \<exists>a b c d. m = [a, b, c, d]"
  by (auto simp: length_Suc_conv numeral_eq_Suc)

lemma m_elems3: "m_ok 3 m \<Longrightarrow> \<exists>a b c d e f g h i. m = [a, b, c, d, e, f, g, h, i]"
  by (auto simp: length_Suc_conv numeral_eq_Suc)

lemma m_elems4: "m_ok 4 m \<Longrightarrow> \<exists>m0 m1 m2 m3 m4 m5 m6 m7 m8 m9 m10 m11 m12 m13 m14 m15.
    m = [m0, m1, m2, m3, m4, m5, m6, m7, m8, m9, m10, m11, m12, m13, m14, m15]"
  by (auto simp: length_Suc_conv numeral_eq_Suc)

lemma m_mul_list:
  "m_mul N a b = map (\<lambda>k. sum_list (map (\<lambda>j. a ! (k div N * N + j) * b ! (j * N + k mod N)) [0..<N])) [0..<N * N]"
proof (rule m_eqI [where N = N])
  fix r c assume "r < N" "c < N"
  then show "m_at N (m_mul N a b) r c =
      m_at N (map (\<lambda>k. sum_list (map (\<lambda>j. a ! (k div N * N + j) * b ! (j * N + k mod N)) [0..<N])) [0..<N * N]) r c"
    by (subst m_mul_entry) (simp_all add: m_at_position position_less interv_sum_list_conv_sum_set_nat)
qed simp_all

lemma det2_mul: "m_ok 2 a \<Longrightarrow> m_ok 2 b \<Longrightarrow> det2 (m_mul 2 a b) = det2 a * det2 b"
  by (drule m_elems2, drule m_elems2, elim exE)
    (simp add: m_mul_list det2_def upt_rec algebra_simps)

lemma det3_mul: "m_ok 3 a \<Longrightarrow> m_ok 3 b \<Longrightarrow> det3 (m_mul 3 a b) = det3 a * det3 b"
  by (drule m_elems3, drule m_elems3, elim exE)
    (simp add: m_mul_list det3_def upt_rec algebra_simps)

lemma det4_trans: "m_ok 4 m \<Longrightarrow> det4 (m_trans 4 m) = det4 m"
proof -
  assume ok: "m_ok 4 m"
  have *: "m_trans 4 m ! (r * 4 + c) = m ! (c * 4 + r)" if "r < 4" "c < 4" for r c
    using m_trans_entry [of r 4 c m] that by (simp add: m_at_position)
  note e = * [of 0 0] * [of 0 1] * [of 0 2] * [of 0 3] * [of 1 0] * [of 1 1] * [of 1 2] * [of 1 3]
    * [of 2 0] * [of 2 1] * [of 2 2] * [of 2 3] * [of 3 0] * [of 3 1] * [of 3 2] * [of 3 3]
  from e show ?thesis by (simp add: det4_def Let_def numeral_2_eq_2)
qed

section \<open>Diagonals\<close>

lemma diagonal_loop_major:
  assumes "m_ok N d" "k \<le> N" "length res = N"
  shows "diagonal_loop d (N + 1) (k * (N + 1)) k res = Some (map (\<lambda>i. if i < k then res ! i else m_at N d i i) [0..<N])"
  using assms(2,3)
proof (induction "N - k" arbitrary: k res)
  case 0
  then have "k = N" by simp
  with 0 assms(1) show ?case by (subst diagonal_loop.simps) (auto simp: list_eq_iff_nth_eq)
next
  case (Suc n)
  then have "k < N" by linarith
  then have k: "k < N" "k * (N + 1) < N * N" using position_less [of k N k] by (simp_all add: algebra_simps)
  have "diagonal_loop d (N + 1) (k * (N + 1)) k res =
      diagonal_loop d (N + 1) ((k + 1) * (N + 1)) (k + 1) (res[k := d ! (k * (N + 1))])"
    using k assms(1) Suc.prems by (subst diagonal_loop.simps) (simp add: algebra_simps)
  also have "\<dots> = Some (map (\<lambda>i. if i < k + 1 then res[k := d ! (k * (N + 1))] ! i else m_at N d i i) [0..<N])"
    using Suc.hyps k Suc.prems by (intro Suc.hyps(1)) auto
  finally show ?case using k Suc.prems by (auto simp: m_at_position algebra_simps nth_list_update less_Suc_eq)
qed

lemma diagonal_loop_semimajor:
  assumes "m_ok N d" "0 < N" "k \<le> N" "length res = N"
  shows "diagonal_loop d (N - 1) ((k + 1) * (N - 1)) k res = None"
  using assms(3,4)
proof (induction "N - k" arbitrary: k res)
  case 0
  then have "k = N" by simp
  moreover have "(N + 1) * (N - 1) < N * N" using assms(2) by (cases N) auto
  ultimately show ?case using 0 assms(1) by (subst diagonal_loop.simps) simp
next
  case (Suc n)
  have "k < N" using Suc.hyps(2) by linarith
  then have "(k + 1) * (N - 1) \<le> N * (N - 1)" by (intro mult_le_mono1) simp
  also have "\<dots> < N * N" using assms(2) by simp
  finally have i: "(k + 1) * (N - 1) < N * N" .
  have "diagonal_loop d (N - 1) ((k + 1) * (N - 1)) k res =
      diagonal_loop d (N - 1) ((k + 1 + 1) * (N - 1)) (k + 1) (res[k := d ! ((k + 1) * (N - 1))])"
    using i assms(1) \<open>k < N\<close> Suc.prems by (subst diagonal_loop.simps) (simp add: ac_simps)
  also have "\<dots> = None" using Suc.hyps(2) Suc.prems by (intro Suc.hyps(1)) auto
  finally show ?case .
qed

text \<open>\<open>diagonal\<close> yields the entries of the diagonal of a matrix of any size, but its companion
  \<open>get_semimajor_diagonal\<close> never returns: it walks one entry past the last one of its diagonal, the last
  element of the matrix, for which the vector has no room.\<close>
theorem matrix_diagonals:
  assumes "m_ok N d" "0 < N"
  shows "m_diagonal N d = Some (map (\<lambda>i. m_at N d i i) [0..<N]) \<and> m_semimajor_diagonal N d = None"
  using diagonal_loop_major [of d N 0 "v_new N 0"] diagonal_loop_semimajor [of d N 0 "v_new N 0"] assms
  by (simp add: m_diagonal_def m_semimajor_diagonal_def)

theorem matrix_diagonals_witness: "m_semimajor_diagonal 2 [1, 2, 3, 4] = None"
  using matrix_diagonals [of "[1, 2, 3, 4]" 2] by simp

section \<open>Operations that do something else\<close>

text \<open>A scalar on the left of a matrix does not scale it: the scalar fills a whole matrix, which is then
  multiplied with the operand, so that every row of the result is the scalar times the sums of the
  columns; twice the unit matrix is a matrix of twos.\<close>
theorem scalar_times_matrix:
  assumes "r < N" "c < N"
  shows "m_at N (m_op_scalar_type N (m_mul_assign N) s m) r c = s * (\<Sum>k = 0..<N. m_at N m k c) \<and>
    m_op_scalar_type N (m_mul_assign N) s (m_eye N) = m_new N s"
proof
  have entry: "m_at N (m_op_scalar_type N (m_mul_assign N) s m) r c = s * (\<Sum>k = 0..<N. m_at N m k c)"
    if "r < N" "c < N" for r c m
    using that by (simp add: m_op_scalar_type_def m_mul_assign_def m_entry sum_distrib_left)
  then show "m_at N (m_op_scalar_type N (m_mul_assign N) s m) r c = s * (\<Sum>k = 0..<N. m_at N m k c)" using assms .
  show "m_op_scalar_type N (m_mul_assign N) s (m_eye N) = m_new N s"
  proof (rule m_eqI [where N = N])
    fix r c assume rc: "r < N" "c < N"
    have "(\<Sum>k = 0..<N. m_at N (m_eye N) k c) = (\<Sum>k = 0..<N. if k = c then 1 else 0)"
      using rc by (intro sum.cong) (simp_all add: m_entry)
    with rc entry [of r c "m_eye N"]
    show "m_at N (m_op_scalar_type N (m_mul_assign N) s (m_eye N)) r c = m_at N (m_new N s) r c"
      by (simp add: m_at_new)
  qed (simp_all add: m_op_scalar_type_def m_mul_assign_def)
qed

theorem scalar_times_matrix_witness: "m_op_scalar_type 3 (m_mul_assign 3) 2 (m_eye 3) = replicate 9 2"
  using scalar_times_matrix [of 0 3 0 2 "[]"] by (simp add: m_new_def)

text \<open>A vector on the left of a matrix is multiplied as if it were on the right, so that products
  associate in the wrong order.\<close>

lemma vector_times_matrix: "v_mul_mat N (v_mul_mat N v a) b = v_mul_mat N v (m_mul N b a)"
  by (simp add: v_mul_mat_eq m_mul_vec_assoc)

text \<open>\<open>swap\<close> exchanges the first rows only.\<close>

lemma m_swap_2: "m_swap 2 [1, 2, 3, 4] [5, 6, 7, 8] = ([5, 6, 3, 4], [1, 2, 7, 8])"
  by (simp add: m_swap_def upt_rec numeral_2_eq_2)

text \<open>\<open>equals\<close> holds of matrices that differ everywhere: the test of the difference is inverted.\<close>

lemma m_equals_differ: "m_equals a b epsilon \<longleftrightarrow> (\<forall>i < length a. epsilon < \<bar>b ! i - a ! i\<bar>)"
  by (auto simp: m_equals_def list_ex_iff not_le)

lemma m_equals_self: "a \<noteq> [] \<Longrightarrow> 0 \<le> epsilon \<Longrightarrow> \<not> m_equals a a epsilon"
  by (auto simp: m_equals_differ)

text \<open>A rotation by the angle zero: the cosine is taken for the absolute value of the sine.\<close>

lemma make_rotation_zero: "make_rotation [0, 0, 1] 0 = Some [0, 0, 0, 0, 0, 0, 0, 0, 0, 0, 1, 0, 0, 0, 0, 1]"
proof -
  have list: "v_add [a, b, c, d] [e, f, g, h] = [a + e, b + f, c + g, d + h]"
    "v_scale [a, b, c, d] x = [a * x, b * x, c * x, d * x]" for a b c d e f g h x :: real
    by (simp_all add: v_compound_def v_compound_scalar_def upt_rec)
  have "v_len [0, 0, 1, 0] = 1" by (simp add: v_len_def v_sqrlen_dot v_dot_sum numeral_eq_Suc)
  then have unit: "v_normalize [0, 0, 1, 0] = Some (1, [0, 0, 1, 0])" by (simp add: v_normalize_def list)
  have new: "m_new 4 0 = [0, 0, 0, 0, 0, 0, 0, 0, 0, 0, 0, 0, 0, 0, 0, 0]"
    by (simp add: m_new_def numeral_eq_Suc)
  show ?thesis
    by (simp add: make_rotation_def v_append_def upt_rec unit list new m_set_row_def Let_def numeral_2_eq_2)
qed

text \<open>A scale has a zero for the homogeneous coordinate.\<close>

lemma make_scale_entries:
  "make_scale x y z = m_diag 4 [x, y, z, 0] \<and> make_scale_vec [x, y, z] = m_diag 4 [x, y, z, 0]"
proof -
  have "make_scale x y z = m_diag 4 [x, y, z, 0]"
  proof (rule m_eqI [where N = 4])
    fix r c :: nat assume "r < 4" "c < 4"
    then show "m_at 4 (make_scale x y z) r c = m_at 4 (m_diag 4 [x, y, z, 0]) r c"
      by (auto simp: make_scale_def Let_def m_at_set m_at_new m_diag_entry nth_Cons split: nat.splits)
  qed (use m_diag_entry [of 0 4 0 "[x, y, z, 0]"] in \<open>simp_all add: make_scale_def Let_def\<close>)
  then show ?thesis by (simp add: make_scale_vec_def make_scale_def numeral_2_eq_2)
qed

end
