(* ===== verification/Zi_Invert.thy ===== *)
theory Zi_Invert
  imports Zi_Matrix_Laws
begin

text \<open>
  \<^verbatim>\<open>zi/vl/detail/invert.hpp\<close> and the integral powers of \<^verbatim>\<open>zi/vl/mat_functions.hpp\<close>: closed formulas for
  sizes up to four, Gauss-Jordan elimination with row pivoting above. \<open>invert\<close> returns the determinant it
  has found, 0 when it gives up, next to the new value of the matrix. \<open>std::numeric_limits\<close>' epsilon is a
  parameter. The proofs keep the elimination's matrix in mind as \<open>gauss_view\<close>: the code neither writes
  the zeros below the diagonal nor the ones on it.
\<close>

section \<open>The code\<close>

definition m_invert1 :: "real \<Rightarrow> mat \<Rightarrow> real \<times> mat" where
  "m_invert1 epsilon m =
     (if \<bar>m ! 0\<bar> \<le> epsilon then (0, m) else (let r = m ! 0; m = m[0 := 1 / m ! 0] in (r, m)))"

definition m_invert2 :: "real \<Rightarrow> mat \<Rightarrow> real \<times> mat" where
  "m_invert2 epsilon m =
     (let det = m ! 0 * m ! 3 - m ! 2 * m ! 1
      in if \<bar>det\<bar> \<le> epsilon then (0, m)
         else
           (let m = swap_nth m 0 3;
                m = m[1 := - (m ! 1)];
                m = m[2 := - (m ! 2)];
                m = m_compound_scalar (/) m det
            in (det, m)))"

definition m_invert3 :: "real \<Rightarrow> mat \<Rightarrow> real \<times> mat" where
  "m_invert3 epsilon m =
     (let res = [m ! 4 * m ! 8 - m ! 5 * m ! 7,
                 m ! 2 * m ! 7 - m ! 1 * m ! 8,
                 m ! 1 * m ! 5 - m ! 2 * m ! 4,
                 m ! 5 * m ! 6 - m ! 3 * m ! 8,
                 m ! 0 * m ! 8 - m ! 2 * m ! 6,
                 m ! 2 * m ! 3 - m ! 0 * m ! 5,
                 m ! 3 * m ! 7 - m ! 4 * m ! 6,
                 m ! 1 * m ! 6 - m ! 0 * m ! 7,
                 m ! 0 * m ! 4 - m ! 1 * m ! 3];
          d = m ! 0 * res ! 0 + m ! 1 * res ! 3 + m ! 2 * res ! 6
      in if \<bar>d\<bar> \<le> epsilon then (0, m)
         else (let invd = 1 / d; m = res; m = m_compound_scalar (*) m invd in (d, m)))"

text \<open>The cofactors of a matrix of size four, from the minors of its rows in pairs.\<close>

definition cofactors4 :: "mat \<Rightarrow> mat" where
  "cofactors4 m =
     (let t1 = [m ! 2 * m ! 7 - m ! 6 * m ! 3,
                m ! 2 * m ! 11 - m ! 10 * m ! 3,
                m ! 2 * m ! 15 - m ! 14 * m ! 3,
                m ! 6 * m ! 11 - m ! 10 * m ! 7,
                m ! 6 * m ! 15 - m ! 14 * m ! 7,
                m ! 10 * m ! 15 - m ! 14 * m ! 11];
          t2 = [m ! 0 * m ! 5 - m ! 4 * m ! 1,
                m ! 0 * m ! 9 - m ! 8 * m ! 1,
                m ! 0 * m ! 13 - m ! 12 * m ! 1,
                m ! 4 * m ! 9 - m ! 8 * m ! 5,
                m ! 4 * m ! 13 - m ! 12 * m ! 5,
                m ! 8 * m ! 13 - m ! 12 * m ! 9]
      in [m ! 5 * t1 ! 5 - m ! 9 * t1 ! 4 + m ! 13 * t1 ! 3,
          m ! 9 * t1 ! 2 - m ! 13 * t1 ! 1 - m ! 1 * t1 ! 5,
          m ! 13 * t1 ! 0 - m ! 5 * t1 ! 2 + m ! 1 * t1 ! 4,
          m ! 5 * t1 ! 1 - m ! 1 * t1 ! 3 - m ! 9 * t1 ! 0,
          m ! 8 * t1 ! 4 - m ! 4 * t1 ! 5 - m ! 12 * t1 ! 3,
          m ! 0 * t1 ! 5 - m ! 8 * t1 ! 2 + m ! 12 * t1 ! 1,
          m ! 4 * t1 ! 2 - m ! 12 * t1 ! 0 - m ! 0 * t1 ! 4,
          m ! 0 * t1 ! 3 - m ! 4 * t1 ! 1 + m ! 8 * t1 ! 0,
          m ! 7 * t2 ! 5 - m ! 11 * t2 ! 4 + m ! 15 * t2 ! 3,
          m ! 11 * t2 ! 2 - m ! 15 * t2 ! 1 - m ! 3 * t2 ! 5,
          m ! 15 * t2 ! 0 - m ! 7 * t2 ! 2 + m ! 3 * t2 ! 4,
          m ! 7 * t2 ! 1 - m ! 3 * t2 ! 3 - m ! 11 * t2 ! 0,
          m ! 10 * t2 ! 4 - m ! 6 * t2 ! 5 - m ! 14 * t2 ! 3,
          m ! 2 * t2 ! 5 - m ! 10 * t2 ! 2 + m ! 14 * t2 ! 1,
          m ! 6 * t2 ! 2 - m ! 14 * t2 ! 0 - m ! 2 * t2 ! 4,
          m ! 2 * t2 ! 3 - m ! 6 * t2 ! 1 + m ! 10 * t2 ! 0])"

definition m_invert4 :: "real \<Rightarrow> mat \<Rightarrow> real \<times> mat" where
  "m_invert4 epsilon m =
     (let res = cofactors4 m;
          d = m ! 0 * res ! 0 + m ! 4 * res ! 1 + m ! 8 * res ! 2 + m ! 12 * res ! 3
      in if \<bar>d\<bar> \<le> epsilon then (0, m)
         else (let invd = 1 / d; m = res; m = m_compound_scalar (*) m invd in (d, m)))"

text \<open>The row of the largest entry of column \<open>i\<close> on or below the diagonal, with its absolute value.\<close>

definition gauss_pivot :: "nat \<Rightarrow> mat \<Rightarrow> nat \<Rightarrow> real \<times> nat" where
  "gauss_pivot N m i =
     fold (\<lambda>r (mn, min_index). let curr = \<bar>m_at N m r i\<bar> in if curr > mn then (curr, r) else (mn, min_index)) [i..<N] (- 1, 0)"

text \<open>\<open>m.at( i, k ) *= x\<close> and \<open>m.at( j, k ) -= m.at( i, k ) * v\<close> for the columns from \<open>a\<close> on.\<close>

definition scale_row :: "nat \<Rightarrow> nat \<Rightarrow> nat \<Rightarrow> real \<Rightarrow> mat \<Rightarrow> mat" where
  "scale_row N a i x m = fold (\<lambda>k m. m_set N m i k (m_at N m i k * x)) [a..<N] m"

definition add_row :: "nat \<Rightarrow> nat \<Rightarrow> nat \<Rightarrow> nat \<Rightarrow> real \<Rightarrow> mat \<Rightarrow> mat" where
  "add_row N a i j v m = fold (\<lambda>k m. m_set N m j k (m_at N m j k - m_at N m i k * v)) [a..<N] m"

text \<open>One round of the elimination; \<open>Inl\<close> is the early return, with the matrix as it is by then.\<close>

definition gauss_round :: "nat \<Rightarrow> real \<Rightarrow> nat \<Rightarrow> mat \<times> mat \<times> real \<Rightarrow> mat + mat \<times> mat \<times> real" where
  "gauss_round N epsilon i = (\<lambda>(m, res, det).
     let (mn, min_index) = gauss_pivot N m i
     in if mn \<le> epsilon then Inl m
        else
          (let (m, res, det) =
                 (if min_index \<noteq> i
                  then (m_swap_rows N m i min_index i (N - 1), m_swap_rows N res i min_index 0 (N - 1), - det)
                  else (m, res, det));
               pivot = m_at N m i i
           in if \<bar>pivot\<bar> \<le> epsilon then Inl m
              else
                (let det = det * pivot;
                     inv_pivot = 1 / pivot;
                     m = scale_row N (i + 1) i inv_pivot m;
                     res = scale_row N 0 i inv_pivot res;
                     (m, res) = fold (\<lambda>j (m, res).
                         let v = m_at N m j i in (add_row N (i + 1) i j v m, add_row N 0 i j v res)) [i + 1..<N] (m, res)
                 in Inr (m, res, det))))"

fun gauss_rounds :: "nat \<Rightarrow> real \<Rightarrow> nat list \<Rightarrow> mat \<times> mat \<times> real \<Rightarrow> mat + mat \<times> mat \<times> real" where
  "gauss_rounds N epsilon [] s = Inr s"
| "gauss_rounds N epsilon (i # rest) s =
     (case gauss_round N epsilon i s of Inl m \<Rightarrow> Inl m | Inr s \<Rightarrow> gauss_rounds N epsilon rest s)"

definition back_substitution :: "nat \<Rightarrow> mat \<Rightarrow> mat \<Rightarrow> mat" where
  "back_substitution N m res =
     fold (\<lambda>i res. fold (\<lambda>j res. let v = m_at N m j i in add_row N 0 i j v res) [0..<i] res) (rev [1..<N]) res"

definition m_invert_gauss :: "nat \<Rightarrow> real \<Rightarrow> mat \<Rightarrow> real \<times> mat" where
  "m_invert_gauss N epsilon m =
     (case gauss_rounds N epsilon [0..<N] (m, m_eye N, 1) of
        Inl m \<Rightarrow> (0, m)
      | Inr (m, res, det) \<Rightarrow> (det, back_substitution N m res))"

text \<open>The overloads, by the size.\<close>

definition m_invert :: "nat \<Rightarrow> real \<Rightarrow> mat \<Rightarrow> real \<times> mat" where
  "m_invert N epsilon m =
     (if N = 1 then m_invert1 epsilon m
      else if N = 2 then m_invert2 epsilon m
      else if N = 3 then m_invert3 epsilon m
      else if N = 4 then m_invert4 epsilon m
      else m_invert_gauss N epsilon m)"

definition m_inv_ok :: "nat \<Rightarrow> real \<Rightarrow> mat \<Rightarrow> mat \<times> bool" where
  "m_inv_ok N epsilon rhs = (let res = rhs; (d, res) = m_invert N epsilon res in (res, d \<noteq> 0))"

text \<open>The exception for a singular matrix is commented out.\<close>

definition m_inv :: "nat \<Rightarrow> real \<Rightarrow> mat \<Rightarrow> mat" where
  "m_inv N epsilon rhs = (let res = rhs; (d, res) = m_invert N epsilon res in res)"

definition m_div :: "nat \<Rightarrow> real \<Rightarrow> mat \<Rightarrow> mat \<Rightarrow> mat" where
  "m_div N epsilon m rhs = m_mul N m (m_inv N epsilon rhs)"

text \<open>\<open>None\<close>: \<open>- p\<close> overflows.\<close>

function m_pow :: "nat \<Rightarrow> real \<Rightarrow> mat \<Rightarrow> int \<Rightarrow> mat option" where
  "m_pow N epsilon m p =
     (if p < 0 then (if p = - (2 ^ 31) then None else map_option (m_inv N epsilon) (m_pow N epsilon m (- p)))
      else if p = 0 then Some (m_eye N)
      else if p = 1 then Some m
      else if p mod 2 = 1 then map_option (\<lambda>x. m_mul N x m) (m_pow N epsilon m (p - 1))
      else map_option (m_square N) (m_pow N epsilon m (p div 2)))"
  by auto
termination by (relation "measure (\<lambda>(N, epsilon, m, p). 2 * nat \<bar>p\<bar> + (if p < 0 then 1 else 0))") auto

declare m_pow.simps [simp del]

section \<open>Sizes up to four\<close>

definition small_det :: "nat \<Rightarrow> mat \<Rightarrow> real" where
  "small_det N m = (if N = 1 then det1 m else if N = 2 then det2 m else if N = 3 then det3 m else det4 m)"

lemma m_elems1: "m_ok 1 m \<Longrightarrow> \<exists>a. m = [a]"
  by (auto simp: length_Suc_conv)

lemma m_eye_of_list: "m_eye_of N v = map (\<lambda>k. if k div N = k mod N then v else 0) [0..<N * N]"
proof (rule m_eqI [where N = N])
  fix r c assume "r < N" "c < N"
  then show "m_at N (m_eye_of N v) r c = m_at N (map (\<lambda>k. if k div N = k mod N then v else 0) [0..<N * N]) r c"
    by (subst m_eye_of_entry) (simp_all add: m_at_position position_less)
qed simp_all

lemma m_mul_scaled:
  assumes "m_ok N a" "m_ok N b"
  shows "m_mul N (m_compound_scalar (*) a x) b = m_compound_scalar (*) (m_mul N a b) x"
    "m_mul N a (m_compound_scalar (*) b x) = m_compound_scalar (*) (m_mul N a b) x"
  using assms by (auto intro!: m_eqI [where N = N] sum.cong simp: m_entry sum_distrib_right)

text \<open>An adjugate divided by the determinant is the inverse.\<close>

lemma inverse_of_adjugate:
  assumes "m_ok N adj" "m_ok N m" "m_mul N adj m = m_eye_of N d" "m_mul N m adj = m_eye_of N d" "d \<noteq> 0"
    "r = m_compound_scalar (*) adj (1 / d)"
  shows "m_ok N r \<and> m_mul N r m = m_eye N \<and> m_mul N m r = m_eye N"
proof -
  have "m_compound_scalar (*) (m_eye_of N d) (1 / d) = m_eye N"
    using assms(5) by (intro m_eqI [where N = N]) (simp_all add: m_entry)
  then show ?thesis using assms by (simp add: m_mul_scaled)
qed

lemma invert1_ok:
  assumes "m_ok 1 m" "0 \<le> epsilon" "epsilon < \<bar>det1 m\<bar>"
  shows "\<exists>r. m_invert1 epsilon m = (det1 m, r) \<and> m_ok 1 r \<and> m_mul 1 r m = m_eye 1 \<and> m_mul 1 m r = m_eye 1"
proof -
  obtain a where "m = [a]" using m_elems1 [OF assms(1)] by blast
  with assms show ?thesis
    by (auto simp: m_invert1_def det1_def m_mul_list m_eye_def m_eye_of_list upt_rec)
qed

lemma invert2_ok:
  assumes "m_ok 2 m" "0 \<le> epsilon" "epsilon < \<bar>det2 m\<bar>"
  shows "\<exists>r. m_invert2 epsilon m = (det2 m, r) \<and> m_ok 2 r \<and> m_mul 2 r m = m_eye 2 \<and> m_mul 2 m r = m_eye 2"
proof -
  obtain a b c d where m: "m = [a, b, c, d]" using m_elems2 [OF assms(1)] by blast
  let ?adj = "[d, - b, - c, a]"
  have D: "epsilon < \<bar>det2 m\<bar>" "det2 m \<noteq> 0" using assms by auto
  have det: "det2 m = a * d - c * b" by (simp add: m det2_def)
  have r: "m_invert2 epsilon m = (det2 m, m_compound_scalar (*) ?adj (1 / det2 m))"
    using D(1) unfolding det
    by (simp add: m m_invert2_def Let_def swap_nth_def m_compound_scalar_def upt_rec numeral_2_eq_2)
  have "m_mul 2 ?adj m = m_eye_of 2 (det2 m)" "m_mul 2 m ?adj = m_eye_of 2 (det2 m)"
    unfolding det by (simp_all add: m m_mul_list m_eye_of_list upt_rec mult.commute)
  with r inverse_of_adjugate [where N = 2 and adj = ?adj, OF _ assms(1) _ _ D(2) refl] show ?thesis by simp
qed

lemma invert3_ok:
  assumes "m_ok 3 m" "0 \<le> epsilon" "epsilon < \<bar>det3 m\<bar>"
  shows "\<exists>r. m_invert3 epsilon m = (det3 m, r) \<and> m_ok 3 r \<and> m_mul 3 r m = m_eye 3 \<and> m_mul 3 m r = m_eye 3"
proof -
  obtain a b c d e f g h i where m: "m = [a, b, c, d, e, f, g, h, i]" using m_elems3 [OF assms(1)] by blast
  let ?adj = "[e * i - f * h, c * h - b * i, b * f - c * e, f * g - d * i, a * i - c * g, c * d - a * f, d * h - e * g, b * g - a * h, a * e - b * d]"
  have D: "epsilon < \<bar>det3 m\<bar>" "det3 m \<noteq> 0" using assms by auto
  have det: "det3 m = a * (e * i - f * h) + b * (f * g - d * i) + c * (d * h - e * g)"
    by (simp add: m det3_def algebra_simps)
  have r: "m_invert3 epsilon m = (det3 m, m_compound_scalar (*) ?adj (1 / det3 m))"
    using D(1) unfolding det by (simp add: m m_invert3_def Let_def numeral_2_eq_2)
  have "m_mul 3 ?adj m = m_eye_of 3 (det3 m)" "m_mul 3 m ?adj = m_eye_of 3 (det3 m)"
    unfolding det by (simp_all add: m m_mul_list m_eye_of_list upt_rec algebra_simps)
  with r inverse_of_adjugate [where N = 3 and adj = ?adj, OF _ assms(1) _ _ D(2) refl] show ?thesis by simp
qed

lemma det4_cofactors:
  assumes "m_ok 4 m"
  shows "m ! 0 * cofactors4 m ! 0 + m ! 4 * cofactors4 m ! 1 + m ! 8 * cofactors4 m ! 2 + m ! 12 * cofactors4 m ! 3 = det4 m"
proof -
  obtain m0 m1 m2 m3 m4 m5 m6 m7 m8 m9 m10 m11 m12 m13 m14 m15 where
    m: "m = [m0, m1, m2, m3, m4, m5, m6, m7, m8, m9, m10, m11, m12, m13, m14, m15]"
    using m_elems4 [OF assms] by blast
  show ?thesis by (simp add: m cofactors4_def det4_def numeral_2_eq_2 algebra_simps)
qed

lemma cofactors4_mul:
  assumes "m_ok 4 m"
  shows "m_ok 4 (cofactors4 m)" "m_mul 4 (cofactors4 m) m = m_eye_of 4 (det4 m)" "m_mul 4 m (cofactors4 m) = m_eye_of 4 (det4 m)"
proof -
  obtain m0 m1 m2 m3 m4 m5 m6 m7 m8 m9 m10 m11 m12 m13 m14 m15 where
    m: "m = [m0, m1, m2, m3, m4, m5, m6, m7, m8, m9, m10, m11, m12, m13, m14, m15]"
    using m_elems4 [OF assms] by blast
  show "m_ok 4 (cofactors4 m)" by (simp add: cofactors4_def Let_def)
  show "m_mul 4 (cofactors4 m) m = m_eye_of 4 (det4 m)"
    by (simp add: m cofactors4_def det4_def m_mul_list m_eye_of_list upt_rec numeral_2_eq_2 algebra_simps)
  show "m_mul 4 m (cofactors4 m) = m_eye_of 4 (det4 m)"
    by (simp add: m cofactors4_def det4_def m_mul_list m_eye_of_list upt_rec numeral_2_eq_2 algebra_simps)
qed

lemma invert4_ok:
  assumes "m_ok 4 m" "0 \<le> epsilon" "epsilon < \<bar>det4 m\<bar>"
  shows "\<exists>r. m_invert4 epsilon m = (det4 m, r) \<and> m_ok 4 r \<and> m_mul 4 r m = m_eye 4 \<and> m_mul 4 m r = m_eye 4"
proof -
  have D: "epsilon < \<bar>det4 m\<bar>" "det4 m \<noteq> 0" using assms by auto
  have "m_invert4 epsilon m = (det4 m, m_compound_scalar (*) (cofactors4 m) (1 / det4 m))"
    using D(1) unfolding m_invert4_def det4_cofactors [OF assms(1)] Let_def by simp
  with cofactors4_mul [OF assms(1)] inverse_of_adjugate [where N = 4 and adj = "cofactors4 m", OF _ assms(1) _ _ D(2) refl]
  show ?thesis by simp
qed

lemma invert_gives_up:
  "\<bar>det1 m\<bar> \<le> epsilon \<Longrightarrow> m_invert1 epsilon m = (0, m)"
  "\<bar>det2 m\<bar> \<le> epsilon \<Longrightarrow> m_invert2 epsilon m = (0, m)"
  "\<bar>det3 m\<bar> \<le> epsilon \<Longrightarrow> m_invert3 epsilon m = (0, m)"
  "m_ok 4 m \<Longrightarrow> \<bar>det4 m\<bar> \<le> epsilon \<Longrightarrow> m_invert4 epsilon m = (0, m)"
proof -
  have det3: "m ! 0 * (m ! 4 * m ! 8 - m ! 5 * m ! 7) + m ! 1 * (m ! 5 * m ! 6 - m ! 3 * m ! 8) +
      m ! 2 * (m ! 3 * m ! 7 - m ! 4 * m ! 6) = det3 m" by (simp add: det3_def algebra_simps)
  show "\<bar>det1 m\<bar> \<le> epsilon \<Longrightarrow> m_invert1 epsilon m = (0, m)" "\<bar>det2 m\<bar> \<le> epsilon \<Longrightarrow> m_invert2 epsilon m = (0, m)"
    by (simp_all add: m_invert1_def det1_def m_invert2_def det2_def)
  show "\<bar>det3 m\<bar> \<le> epsilon \<Longrightarrow> m_invert3 epsilon m = (0, m)"
    using det3 by (simp add: m_invert3_def Let_def numeral_2_eq_2)
  show "m_invert4 epsilon m = (0, m)" if "m_ok 4 m" "\<bar>det4 m\<bar> \<le> epsilon"
    using that(2) unfolding m_invert4_def Let_def det4_cofactors [OF that(1)] by simp
qed

text \<open>C28: Up to size four the closed formulas agree with the determinants of \<^verbatim>\<open>mat_functions.hpp\<close>:
  \<open>invert\<close> reports the determinant and leaves the inverse on both sides when the determinant is above
  epsilon, and otherwise reports 0 and leaves the matrix alone.\<close>
theorem invert_small:
  assumes "m_ok N m" "N \<in> {1, 2, 3, 4}" "0 \<le> epsilon"
  shows "if \<bar>small_det N m\<bar> \<le> epsilon then m_invert N epsilon m = (0, m)
    else \<exists>r. m_invert N epsilon m = (small_det N m, r) \<and> m_ok N r \<and> m_mul N r m = m_eye N \<and> m_mul N m r = m_eye N"
proof (cases "\<bar>small_det N m\<bar> \<le> epsilon")
  case True
  then have "m_invert N epsilon m = (0, m)"
    using assms(1,2) invert_gives_up [of m epsilon] by (auto simp: m_invert_def small_det_def split: if_splits)
  with True show ?thesis by simp
next
  case False
  then show ?thesis using assms invert1_ok [of m epsilon] invert2_ok [of m epsilon] invert3_ok [of m epsilon] invert4_ok [of m epsilon]
    by (auto simp: m_invert_def small_det_def)
qed

theorem invert_small_witness:
  "\<exists>r. m_invert 2 (1 / 1000) [1, 2, 3, 4] = (- 2, r) \<and> m_mul 2 r [1, 2, 3, 4] = m_eye 2"
  using invert_small [of "[1, 2, 3, 4]" 2 "1 / 1000"] by (auto simp: small_det_def det2_def numeral_2_eq_2)

end
