(* ===== verification/Zi_Gauss.thy ===== *)
theory Zi_Gauss
  imports Zi_Invert
begin

text \<open>
  Gauss-Jordan elimination of \<^verbatim>\<open>zi/vl/detail/invert.hpp\<close>: the invariant relates the matrix under
  construction, \<open>res\<close>, to the input \<open>A\<close> by \<open>res * A\<close>, which is the partly eliminated matrix, and keeps
  \<open>res\<close> invertible.
\<close>

section \<open>Row operations\<close>

definition mat_of :: "nat \<Rightarrow> (nat \<Rightarrow> nat \<Rightarrow> real) \<Rightarrow> mat" where
  "mat_of N f = map (\<lambda>k. f (k div N) (k mod N)) [0..<N * N]"

lemma mat_of_entry [m_entry]: "r < N \<Longrightarrow> c < N \<Longrightarrow> m_at N (mat_of N f) r c = f r c"
  by (simp add: mat_of_def m_at_position position_less)

lemma length_mat_of [m_entry, simp]: "length (mat_of N f) = N * N"
  by (simp add: mat_of_def)

lemma m_at_cong: "m_mul N a b = c \<Longrightarrow> r < N \<Longrightarrow> k < N \<Longrightarrow> (\<Sum>j = 0..<N. m_at N a r j * m_at N b j k) = m_at N c r k"
  using m_mul_entry by metis

lemma scale_row_ok:
  assumes "m_ok N m" "i < N" "r < N" "c < N"
  shows "m_ok N (scale_row N a i x m) \<and>
    m_at N (scale_row N a i x m) r c = (if r = i \<and> a \<le> c then m_at N m i c * x else m_at N m r c)"
  using fold_row [OF assms(1,2) order_refl assms(3,4), of a "\<lambda>k m. m_at N m i k * x"] assms
  by (simp add: scale_row_def)

lemma add_row_ok:
  assumes "m_ok N m" "i < N" "j < N" "i \<noteq> j" "r < N" "c < N"
  shows "m_ok N (add_row N a i j v m) \<and>
    m_at N (add_row N a i j v m) r c = (if r = j \<and> a \<le> c then m_at N m j c - m_at N m i c * v else m_at N m r c)"
  using fold_row [OF assms(1,3) order_refl assms(5,6), of a "\<lambda>k m. m_at N m j k - m_at N m i k * v"] assms
  by (simp add: add_row_def)

lemma length_row_ops [simp]: "length (scale_row N a i x m) = length m" "length (add_row N a i j v m) = length m"
  by (simp_all add: scale_row_def add_row_def fold_length)

lemma length_m_swap_rows [simp]: "length (m_swap_rows N m a b lo hi) = length m"
  by (simp add: m_swap_rows_def fold_length)

text \<open>\<open>res\<close> has a left inverse, and its product with \<open>A\<close> has the entries \<open>V\<close>.\<close>

definition row_equiv :: "nat \<Rightarrow> mat \<Rightarrow> mat \<Rightarrow> (nat \<Rightarrow> nat \<Rightarrow> real) \<Rightarrow> bool" where
  "row_equiv N A res V \<longleftrightarrow> m_ok N res \<and> (\<forall>r < N. \<forall>c < N. m_at N (m_mul N res A) r c = V r c) \<and>
     (\<exists>P. m_ok N P \<and> m_mul N P res = m_eye N)"

lemma row_equivD:
  assumes "row_equiv N A res V"
  shows "m_ok N res" "r < N \<Longrightarrow> c < N \<Longrightarrow> (\<Sum>k = 0..<N. m_at N res r k * m_at N A k c) = V r c"
    "\<exists>P. m_ok N P \<and> m_mul N P res = m_eye N"
  using assms by (auto simp: row_equiv_def m_mul_entry)

lemma row_equiv_start: "m_ok N A \<Longrightarrow> row_equiv N A (m_eye N) (m_at N A)"
  unfolding row_equiv_def by (auto intro!: exI [of _ "m_eye N"])

lemma row_equiv_cong: "row_equiv N A res V \<Longrightarrow> (\<And>r c. r < N \<Longrightarrow> c < N \<Longrightarrow> V r c = W r c) \<Longrightarrow> row_equiv N A res W"
  by (auto simp: row_equiv_def)

lemma row_equiv_scale:
  assumes R: "row_equiv N A res V" and i: "i < N" and x: "x \<noteq> 0"
  shows "row_equiv N A (scale_row N 0 i x res) (\<lambda>r c. if r = i then V i c * x else V r c)"
proof -
  let ?res = "scale_row N 0 i x res"
  have res: "m_ok N res" using row_equivD(1) [OF R] .
  have e: "m_at N ?res r c = (if r = i then m_at N res i c * x else m_at N res r c)" if "r < N" "c < N" for r c
    using scale_row_ok [OF res i that, of 0 x] by simp
  obtain P where P: "m_ok N P" "m_mul N P res = m_eye N" using row_equivD(3) [OF R] by blast
  let ?P = "mat_of N (\<lambda>r k. if k = i then m_at N P r k / x else m_at N P r k)"
  have "m_mul N ?P ?res = m_mul N P res"
    using x by (intro m_eqI [where N = N]) (auto simp: m_entry e intro!: sum.cong)
  moreover have "m_at N (m_mul N ?res A) r c = (if r = i then V i c * x else V r c)" if "r < N" "c < N" for r c
    using that row_equivD(2) [OF R, of _ c] by (simp add: m_mul_entry e sum_distrib_left [symmetric] mult.commute mult.left_commute)
  ultimately show ?thesis using res P by (auto simp: row_equiv_def intro!: exI [of _ ?P])
qed

lemma row_equiv_add:
  assumes R: "row_equiv N A res V" and ij: "i < N" "j < N" "i \<noteq> j"
  shows "row_equiv N A (add_row N 0 i j v res) (\<lambda>r c. if r = j then V j c - V i c * v else V r c)"
proof -
  let ?res = "add_row N 0 i j v res"
  have res: "m_ok N res" using row_equivD(1) [OF R] .
  have e: "m_at N ?res r c = (if r = j then m_at N res j c - m_at N res i c * v else m_at N res r c)" if "r < N" "c < N" for r c
    using add_row_ok [OF res ij that, of 0 v] by simp
  obtain P where P: "m_ok N P" "m_mul N P res = m_eye N" using row_equivD(3) [OF R] by blast
  let ?P = "mat_of N (\<lambda>r k. if k = i then m_at N P r i + v * m_at N P r j else m_at N P r k)"
  have "m_mul N ?P ?res = m_mul N P res"
  proof (rule m_eqI [where N = N])
    fix r c assume rc: "r < N" "c < N"
    have "m_at N (m_mul N ?P ?res) r c = (\<Sum>k = 0..<N. m_at N P r k * m_at N res k c +
        (if k = i then v * m_at N P r j * m_at N res i c else 0) - (if k = j then m_at N P r j * (m_at N res i c * v) else 0))"
      using rc ij by (auto simp: m_entry e algebra_simps intro!: sum.cong)
    also have "\<dots> = m_at N (m_mul N P res) r c"
      using rc ij by (simp add: m_mul_entry sum.distrib sum_subtractf)
    finally show "m_at N (m_mul N ?P ?res) r c = m_at N (m_mul N P res) r c" .
  qed simp_all
  moreover have "m_at N (m_mul N ?res A) r c = (if r = j then V j c - V i c * v else V r c)" if rc: "r < N" "c < N" for r c
  proof (cases "r = j")
    case True
    have "m_at N (m_mul N ?res A) j c =
        (\<Sum>k = 0..<N. m_at N res j k * m_at N A k c - m_at N res i k * m_at N A k c * v)"
      using rc ij by (simp add: m_mul_entry e algebra_simps)
    also have "\<dots> = V j c - V i c * v"
      using rc ij row_equivD(2) [OF R, of _ c] by (simp add: sum_subtractf sum_distrib_right [symmetric])
    finally show ?thesis using True by simp
  qed (use rc row_equivD(2) [OF R, of r c] in \<open>simp add: m_mul_entry e\<close>)
  ultimately show ?thesis using res P by (auto simp: row_equiv_def intro!: exI [of _ ?P])
qed

lemma row_equiv_swap:
  assumes R: "row_equiv N A res V" and ij: "i < N" "j < N"
  shows "row_equiv N A (m_swap_rows N res i j 0 (N - 1)) (\<lambda>r. V (if r = i then j else if r = j then i else r))"
proof -
  let ?res = "m_swap_rows N res i j 0 (N - 1)"
  define \<tau> where "\<tau> r = (if r = i then j else if r = j then i else r)" for r
  have \<tau>: "\<tau> (\<tau> r) = r" "r < N \<Longrightarrow> \<tau> r < N" for r using ij by (auto simp: \<tau>_def)
  have res: "m_ok N res" using row_equivD(1) [OF R] .
  have e: "m_at N ?res r c = m_at N res (\<tau> r) c" if "r < N" "c < N" for r c
    using m_swap_rows_ok [where N = N and m = res and a = i and b = j and lo = 0 and hi = "N - 1" and r = r and c = c] res ij that by (auto simp: \<tau>_def)
  obtain P where P: "m_ok N P" "m_mul N P res = m_eye N" using row_equivD(3) [OF R] by blast
  let ?P = "mat_of N (\<lambda>r k. m_at N P r (\<tau> k))"
  have "m_mul N ?P ?res = m_mul N P res"
  proof (rule m_eqI [where N = N])
    fix r c assume rc: "r < N" "c < N"
    have "m_at N (m_mul N ?P ?res) r c = (\<Sum>k = 0..<N. m_at N P r (\<tau> k) * m_at N res (\<tau> k) c)"
      using rc by (simp add: m_mul_entry mat_of_entry e [unfolded One_nat_def])
    also have "\<dots> = (\<Sum>k = 0..<N. m_at N P r k * m_at N res k c)"
      by (rule sum.reindex_bij_witness [of _ \<tau> \<tau>]) (auto simp: \<tau>)
    finally show "m_at N (m_mul N ?P ?res) r c = m_at N (m_mul N P res) r c" using rc by (simp add: m_mul_entry)
  qed simp_all
  moreover have "m_at N (m_mul N ?res A) r c = V (\<tau> r) c" if "r < N" "c < N" for r c
    using that row_equivD(2) [OF R, of "\<tau> r" c] \<tau> by (simp add: m_mul_entry e [unfolded One_nat_def])
  ultimately show ?thesis using res P unfolding \<tau>_def [symmetric] by (auto simp: row_equiv_def intro!: exI [of _ ?P])
qed

text \<open>A left inverse of an invertible product is a right inverse, too.\<close>

lemma row_equiv_inverse:
  assumes "row_equiv N A res (\<lambda>r c. if r = c then 1 else 0)" "m_ok N A"
  shows "m_mul N res A = m_eye N \<and> m_mul N A res = m_eye N"
proof -
  have *: "m_mul N res A = m_eye N"
    using assms by (intro m_eqI [where N = N]) (auto simp: row_equiv_def m_eye_entry)
  obtain P where P: "m_ok N P" "m_mul N P res = m_eye N" using row_equivD(3) [OF assms(1)] by blast
  have "A = m_mul N (m_mul N P res) A" using P(2) assms(2) by simp
  also have "\<dots> = P" by (simp add: m_mul_assoc * P(1))
  finally show ?thesis using * P by simp
qed

section \<open>The elimination\<close>

text \<open>The partly eliminated matrix after the columns below \<open>i\<close>: ones on the diagonal and zeros below it,
  whatever the code has left there.\<close>

definition gauss_view :: "nat \<Rightarrow> nat \<Rightarrow> mat \<Rightarrow> nat \<Rightarrow> nat \<Rightarrow> real" where
  "gauss_view N i m r c = (if c < i \<and> c \<le> r then (if r = c then 1 else 0) else m_at N m r c)"

lemma gauss_pivot_ok:
  assumes "i < N" "gauss_pivot N m i = (mn, k)"
  shows "i \<le> k \<and> k < N \<and> mn = \<bar>m_at N m k i\<bar> \<and> (\<forall>r. i \<le> r \<longrightarrow> r < N \<longrightarrow> \<bar>m_at N m r i\<bar> \<le> mn)"
proof -
  let ?f = "\<lambda>r (mn, k). let curr = \<bar>m_at N m r i\<bar> in if curr > mn then (curr, r) else (mn, k)"
  have "\<exists>mn k. fold ?f [i..<n] (- 1, 0) = (mn, k) \<and> i \<le> k \<and> k < n \<and> mn = \<bar>m_at N m k i\<bar> \<and>
      (\<forall>r. i \<le> r \<longrightarrow> r < n \<longrightarrow> \<bar>m_at N m r i\<bar> \<le> mn)" if "i < n" for n
    using that
  proof (induction n)
    case (Suc n)
    show ?case
    proof (cases "i = n")
      case False
      with Suc obtain mn k where "fold ?f [i..<n] (- 1, 0) = (mn, k)" "i \<le> k" "k < n" "mn = \<bar>m_at N m k i\<bar>"
        "\<forall>r. i \<le> r \<longrightarrow> r < n \<longrightarrow> \<bar>m_at N m r i\<bar> \<le> mn" by auto
      with Suc.prems False show ?thesis
        by (cases "\<bar>m_at N m n i\<bar> > mn") (force simp: Let_def less_Suc_eq)+
    next
      case True
      have "- 1 < \<bar>m_at N m n n\<bar>" by (rule less_le_trans [of _ 0]) auto
      with True show ?thesis by (auto simp: Let_def less_Suc_eq)
    qed
  qed simp
  from this [OF assms(1)] assms(2) show ?thesis by (auto simp: gauss_pivot_def)
qed

lemma gauss_pivot_row:
  assumes "row_equiv N A res (gauss_view N i m)" "m_ok N m" "i \<le> k" "k < N" "i < N"
  shows "row_equiv N A (m_swap_rows N res i k 0 (N - 1)) (gauss_view N i (m_swap_rows N m i k i (N - 1)))"
  using row_equiv_swap [OF assms(1) assms(5,4)]
proof (rule row_equiv_cong)
  fix r c assume "r < N" "c < N"
  with m_swap_rows_ok [OF assms(2) assms(5,4), of i "N - 1" r c] assms(3-5)
  show "gauss_view N i m (if r = i then k else if r = k then i else r) c = gauss_view N i (m_swap_rows N m i k i (N - 1)) r c"
    by (auto simp: gauss_view_def)
qed

text \<open>While the rows below the diagonal are eliminated, those up to \<open>j\<close> are done.\<close>

definition gauss_part :: "nat \<Rightarrow> nat \<Rightarrow> nat \<Rightarrow> mat \<Rightarrow> nat \<Rightarrow> nat \<Rightarrow> real" where
  "gauss_part N i j m r c = (if c = i \<and> r = i then 1 else if c = i \<and> i < r \<and> r < j then 0 else gauss_view N i m r c)"

lemma gauss_scale:
  assumes "row_equiv N A res (gauss_view N i m)" "m_ok N m" "i < N" "m_at N m i i \<noteq> 0"
  shows "row_equiv N A (scale_row N 0 i (1 / m_at N m i i) res) (gauss_part N i (i + 1) (scale_row N (i + 1) i (1 / m_at N m i i) m))"
proof (rule row_equiv_cong [OF row_equiv_scale [OF assms(1,3)]])
  show "1 / m_at N m i i \<noteq> 0" using assms(4) by simp
  fix r c assume "r < N" "c < N"
  with scale_row_ok [OF assms(2,3), of r c "i + 1" "1 / m_at N m i i"] assms(3,4)
  show "(if r = i then gauss_view N i m i c * (1 / m_at N m i i) else gauss_view N i m r c) =
      gauss_part N i (i + 1) (scale_row N (i + 1) i (1 / m_at N m i i) m) r c"
    by (auto simp: gauss_view_def gauss_part_def)
qed

lemma gauss_eliminate:
  assumes "row_equiv N A res (gauss_part N i j m)" "m_ok N m" "i < j" "j < N"
  shows "row_equiv N A (add_row N 0 i j (m_at N m j i) res) (gauss_part N i (j + 1) (add_row N (i + 1) i j (m_at N m j i) m))"
proof (rule row_equiv_cong [OF row_equiv_add [OF assms(1)]])
  show "i < N" "j < N" "i \<noteq> j" using assms(3,4) by auto
  fix r c assume "r < N" "c < N"
  with add_row_ok [OF assms(2), of i j r c "i + 1" "m_at N m j i"] assms(3,4)
  show "(if r = j then gauss_part N i j m j c - gauss_part N i j m i c * m_at N m j i else gauss_part N i j m r c) =
      gauss_part N i (j + 1) (add_row N (i + 1) i j (m_at N m j i) m) r c"
    by (auto simp: gauss_view_def gauss_part_def)
qed

lemma gauss_column:
  assumes "row_equiv N A res (gauss_part N i (i + 1) m)" "m_ok N m" "i < N" "i < n" "n \<le> N"
  shows "\<exists>m' res'. fold (\<lambda>j (m, res). let v = m_at N m j i in (add_row N (i + 1) i j v m, add_row N 0 i j v res)) [i + 1..<n] (m, res) =
      (m', res') \<and> m_ok N m' \<and> row_equiv N A res' (gauss_part N i n m')"
  using assms(4,5)
proof (induction n)
  case (Suc n)
  show ?case
  proof (cases "i = n")
    case False
    then obtain m' res' where IH: "fold (\<lambda>j (m, res). let v = m_at N m j i in (add_row N (i + 1) i j v m, add_row N 0 i j v res))
        [i + 1..<n] (m, res) = (m', res')" "m_ok N m'" "row_equiv N A res' (gauss_part N i n m')"
      using Suc by auto
    with gauss_eliminate [OF IH(3,2)] Suc.prems False show ?thesis by (auto simp: Let_def)
  qed (use assms in simp)
qed simp

text \<open>One round finds a pivot above epsilon and keeps the invariant, or gives up on a column that has
  none.\<close>

definition gauss_inv :: "nat \<Rightarrow> mat \<Rightarrow> nat \<Rightarrow> mat \<times> mat \<times> real \<Rightarrow> bool" where
  "gauss_inv N A i = (\<lambda>(m, res, det). m_ok N m \<and> row_equiv N A res (gauss_view N i m) \<and> det \<noteq> 0)"

lemma gauss_start: "m_ok N A \<Longrightarrow> gauss_inv N A 0 (A, m_eye N, 1)"
  using row_equiv_cong [OF row_equiv_start] by (auto simp: gauss_inv_def gauss_view_def)

lemma gauss_round_ok:
  assumes inv: "gauss_inv N A i (m, res, det)" and i: "i < N" and eps: "0 \<le> epsilon"
  shows "case gauss_round N epsilon i (m, res, det) of
      Inr s \<Rightarrow> gauss_inv N A (i + 1) s
    | Inl m' \<Rightarrow> m_ok N m' \<and> (\<forall>r. i \<le> r \<longrightarrow> r < N \<longrightarrow> \<bar>m_at N m r i\<bar> \<le> epsilon)"
proof -
  obtain mn k where piv: "gauss_pivot N m i = (mn, k)" by fastforce
  have k: "i \<le> k" "k < N" "mn = \<bar>m_at N m k i\<bar>" "\<And>r. i \<le> r \<Longrightarrow> r < N \<Longrightarrow> \<bar>m_at N m r i\<bar> \<le> mn"
    using gauss_pivot_ok [OF i piv] by auto
  have m: "m_ok N m" "row_equiv N A res (gauss_view N i m)" "det \<noteq> 0" using inv by (auto simp: gauss_inv_def)
  show ?thesis
  proof (cases "mn \<le> epsilon")
    case True
    with piv m(1) k(4) show ?thesis by (fastforce simp: gauss_round_def)
  next
    case False
    obtain m1 res1 det1 where s1: "(if k \<noteq> i then (m_swap_rows N m i k i (N - 1), m_swap_rows N res i k 0 (N - 1), - det)
        else (m, res, det)) = (m1, res1, det1)" by (metis prod_cases3)
    have m1: "m_ok N m1" "row_equiv N A res1 (gauss_view N i m1)" "det1 \<noteq> 0" "\<bar>m_at N m1 i i\<bar> = mn"
      using s1 m k gauss_pivot_row [OF m(2,1) k(1,2) i] m_swap_rows_ok [OF m(1) i k(2), of i "N - 1" i i] i
      by (auto split: if_splits)
    then have piv0: "m_at N m1 i i \<noteq> 0" using False eps by auto
    let ?p = "m_at N m1 i i"
    note scaled = gauss_scale [OF m1(2,1) i piv0]
    have "m_ok N (scale_row N (i + 1) i (1 / ?p) m1)" using m1(1) by simp
    from gauss_column [OF scaled this i i order_refl] obtain m2 res2 where
      f: "fold (\<lambda>j (m, res). let v = m_at N m j i in (add_row N (i + 1) i j v m, add_row N 0 i j v res)) [i + 1..<N]
        (scale_row N (i + 1) i (1 / ?p) m1, scale_row N 0 i (1 / ?p) res1) = (m2, res2)"
      "m_ok N m2" "row_equiv N A res2 (gauss_part N i N m2)" by auto
    have "row_equiv N A res2 (gauss_view N (i + 1) m2)"
      using f(3) by (rule row_equiv_cong) (auto simp: gauss_part_def gauss_view_def)
    moreover have "gauss_round N epsilon i (m, res, det) = Inr (m2, res2, det1 * ?p)"
      using piv s1 f(1) False m1(4) by (simp add: gauss_round_def Let_def)
    ultimately show ?thesis using f(2) m1(3) piv0 by (simp add: gauss_inv_def)
  qed
qed

lemma gauss_rounds_ok:
  assumes "gauss_inv N A i s" "i \<le> N" "0 \<le> epsilon" "gauss_rounds N epsilon [i..<N] s = Inr s'"
  shows "gauss_inv N A N s'"
  using assms
proof (induction "N - i" arbitrary: i s)
  case (Suc n)
  then have i: "i < N" "[i..<N] = i # [i + 1..<N]" by (simp_all add: upt_conv_Cons)
  obtain m res det where s: "s = (m, res, det)" by (cases s)
  with Suc.prems(4) i obtain s2 where s2: "gauss_round N epsilon i s = Inr s2" "gauss_rounds N epsilon [i + 1..<N] s2 = Inr s'"
    by (auto split: sum.splits)
  have "gauss_inv N A (i + 1) s2" using gauss_round_ok [OF Suc.prems(1) [unfolded s] i(1) Suc.prems(3)] s2(1) s by simp
  with Suc.hyps(2) i s2(2) Suc.prems(3) show ?case by (intro Suc.hyps(1) [of "i + 1" s2]) auto
qed auto

section \<open>Back substitution\<close>

definition back_view :: "nat \<Rightarrow> nat \<Rightarrow> nat \<Rightarrow> mat \<Rightarrow> nat \<Rightarrow> nat \<Rightarrow> real" where
  "back_view N i j m r c = (if i < c \<or> c = i \<and> r < j then (if r = c then 1 else 0) else gauss_view N N m r c)"

lemma back_column:
  assumes "row_equiv N A res (back_view N i 0 m)" "i < N" "n \<le> i"
  shows "row_equiv N A (fold (\<lambda>j res. let v = m_at N m j i in add_row N 0 i j v res) [0..<n] res) (back_view N i n m)"
  using assms(3)
proof (induction n)
  case (Suc n)
  let ?res = "fold (\<lambda>j res. let v = m_at N m j i in add_row N 0 i j v res) [0..<n] res"
  have IH: "row_equiv N A ?res (back_view N i n m)" using Suc by simp
  have "row_equiv N A (add_row N 0 i n (m_at N m n i) ?res) (back_view N i (Suc n) m)"
  proof (rule row_equiv_cong [OF row_equiv_add [OF IH]])
    show "i < N" "n < N" "i \<noteq> n" using Suc.prems assms(2) by auto
    fix r c assume "r < N" "c < N"
    with Suc.prems assms(2)
    show "(if r = n then back_view N i n m n c - back_view N i n m i c * m_at N m n i else back_view N i n m r c) =
        back_view N i (Suc n) m r c"
      by (auto simp: back_view_def gauss_view_def)
  qed
  then show ?case by (simp add: Let_def)
qed (use assms in simp)

lemma back_substitution_ok:
  assumes "row_equiv N A res (gauss_view N N m)"
  shows "row_equiv N A (back_substitution N m res) (\<lambda>r c. if r = c then 1 else 0)"
proof -
  let ?step = "\<lambda>i res. fold (\<lambda>j res. let v = m_at N m j i in add_row N 0 i j v res) [0..<i] res"
  have "row_equiv N A (fold ?step (rev [1..<n + 1]) res) (back_view N 0 0 m)"
    if "row_equiv N A res (back_view N n 0 m)" "n + 1 \<le> N" for n res
    using that
  proof (induction n arbitrary: res)
    case (Suc n)
    have "row_equiv N A (?step (Suc n) res) (back_view N (Suc n) (Suc n) m)"
      using back_column [OF Suc.prems(1), of "Suc n"] Suc.prems(2) by simp
    then have "row_equiv N A (?step (Suc n) res) (back_view N n 0 m)"
      by (rule row_equiv_cong) (auto simp: back_view_def gauss_view_def)
    with Suc.IH Suc.prems(2) show ?case by simp
  qed simp
  note * = this
  show ?thesis
  proof (cases N)
    case 0
    then show ?thesis using assms by (auto simp: back_substitution_def row_equiv_def)
  next
    case (Suc n)
    have "row_equiv N A res (back_view N n 0 m)"
      using assms by (rule row_equiv_cong) (auto simp: Suc back_view_def)
    from * [OF this] have "row_equiv N A (back_substitution N m res) (back_view N 0 0 m)"
      by (simp add: Suc back_substitution_def)
    then show ?thesis by (rule row_equiv_cong) (auto simp: Suc back_view_def gauss_view_def)
  qed
qed

lemma gauss_inverse_ok:
  assumes "m_ok N m" "0 \<le> epsilon" "m_invert_gauss N epsilon m = (d, r)" "d \<noteq> 0"
  shows "m_ok N r \<and> m_mul N r m = m_eye N \<and> m_mul N m r = m_eye N"
proof -
  obtain m' res where g: "gauss_rounds N epsilon [0..<N] (m, m_eye N, 1) = Inr (m', res, d)" "r = back_substitution N m' res"
    using assms(3,4) by (auto simp: m_invert_gauss_def split: sum.splits)
  from gauss_rounds_ok [OF gauss_start [OF assms(1)] _ assms(2) g(1)] have "row_equiv N m res (gauss_view N N m')" by (simp add: gauss_inv_def)
  then have "row_equiv N m r (\<lambda>r c. if r = c then 1 else 0)" unfolding g(2) by (rule back_substitution_ok)
  with row_equiv_inverse [OF this assms(1)] row_equivD(1) show ?thesis by blast
qed

text \<open>C15: Gauss-Jordan elimination of a matrix of any size either reports 0, or reports a number other than 0
  and leaves a matrix that is the inverse of the input on both sides.\<close>
theorem gauss_inverse:
  assumes "m_ok N m" "0 \<le> epsilon" "m_invert_gauss N epsilon m = (d, r)" "d \<noteq> 0"
  shows "m_ok N r \<and> m_mul N r m = m_eye N \<and> m_mul N m r = m_eye N"
  using gauss_inverse_ok [OF assms] .

theorem gauss_inverse_witness:
  "\<exists>r. m_invert_gauss 2 0 [0, 2, 1, 0] = (- 2, r) \<and> m_mul 2 [0, 2, 1, 0] r = m_eye 2"
proof -
  have "m_invert_gauss 2 0 [0, 2, 1, 0] = (- 2, [0, 1, 1 / 2, 0])"
    by (simp add: m_invert_gauss_def gauss_round_def gauss_pivot_def m_at_position m_eye_def m_eye_of_list upt_rec
        m_swap_rows_def lookup_table_position swap_nth_def scale_row_def add_row_def m_set_def back_substitution_def Let_def)
  then show ?thesis using gauss_inverse [of "[0, 2, 1, 0]" 2 0 "- 2" "[0, 1, 1 / 2, 0]"] by simp
qed

section \<open>Giving up\<close>

lemma gauss_rounds_Inl:
  assumes "gauss_inv N A i s" "i \<le> N" "0 \<le> epsilon" "gauss_rounds N epsilon [i..<N] s = Inl m'"
  shows "\<exists>j m res det. j < N \<and> gauss_inv N A j (m, res, det) \<and> (\<forall>r. j \<le> r \<longrightarrow> r < N \<longrightarrow> \<bar>m_at N m r j\<bar> \<le> epsilon)"
  using assms
proof (induction "N - i" arbitrary: i s)
  case (Suc n)
  then have i: "i < N" "[i..<N] = i # [i + 1..<N]" by (simp_all add: upt_conv_Cons)
  obtain m res det where s: "s = (m, res, det)" by (cases s)
  note round = gauss_round_ok [OF Suc.prems(1) [unfolded s] i(1) Suc.prems(3)]
  show ?case
  proof (cases "gauss_round N epsilon i s")
    case (Inl a)
    with round s have "\<forall>r. i \<le> r \<longrightarrow> r < N \<longrightarrow> \<bar>m_at N m r i\<bar> \<le> epsilon" by simp
    with i(1) Suc.prems(1) s show ?thesis by blast
  next
    case (Inr s2)
    with round s have "gauss_inv N A (i + 1) s2" by simp
    moreover have "gauss_rounds N epsilon [i + 1..<N] s2 = Inl m'" using Suc.prems(4) Inr i(2) by simp
    ultimately show ?thesis using Suc.hyps(2) i(1) Suc.prems(3) by (intro Suc.hyps(1) [of "i + 1" s2]) auto
  qed
qed simp

lemma sum_update:
  "r0 < N \<Longrightarrow> (\<Sum>c = 0..<N. f c * (x (r0 := y)) c) = (\<Sum>c = 0..<N. f c * x c) + f r0 * (y - x r0)" for f x :: "nat \<Rightarrow> real"
proof -
  assume "r0 < N"
  have "(\<Sum>c = 0..<N. f c * (x (r0 := y)) c) = (\<Sum>c = 0..<N. f c * x c + (if c = r0 then f r0 * (y - x r0) else 0))"
    by (intro sum.cong) (auto simp: algebra_simps)
  then show ?thesis using \<open>r0 < N\<close> by (simp add: sum.distrib)
qed

text \<open>A column without a pivot: the partly eliminated matrix has a vector other than 0 in its kernel.\<close>

lemma gauss_kernel:
  assumes "i < N" "\<And>r. i \<le> r \<Longrightarrow> r < N \<Longrightarrow> m_at N m r i = 0"
  shows "\<exists>x. x i = 1 \<and> (\<forall>r < N. (\<Sum>c = 0..<N. gauss_view N i m r c * x c) = 0)"
proof -
  have "\<exists>x. x i = 1 \<and> (\<forall>c. c < i - k \<longrightarrow> x c = 0) \<and> (\<forall>r < N. i - k \<le> r \<longrightarrow> (\<Sum>c = 0..<N. gauss_view N i m r c * x c) = 0)"
    if "k \<le> i" for k
    using that
  proof (induction k)
    case 0
    have "(\<Sum>c = 0..<N. gauss_view N i m r c * ((\<lambda>_. 0) (i := 1)) c) = 0" if "r < N" "i \<le> r" for r
      using assms that by (subst sum_update) (auto simp: gauss_view_def)
    then show ?case by (intro exI [of _ "(\<lambda>_. 0) (i := 1)"]) simp
  next
    case (Suc k)
    then obtain x where x: "x i = 1" "\<And>c. c < i - k \<Longrightarrow> x c = 0"
      "\<And>r. r < N \<Longrightarrow> i - k \<le> r \<Longrightarrow> (\<Sum>c = 0..<N. gauss_view N i m r c * x c) = 0" by auto
    let ?r = "i - Suc k"
    let ?x = "x (?r := - (\<Sum>c = 0..<N. gauss_view N i m ?r c * x c))"
    have r: "?r < i" "?r < N" "x ?r = 0" "i - k = Suc ?r" using Suc.prems assms(1) x(2) by auto
    have "(\<Sum>c = 0..<N. gauss_view N i m r c * ?x c) = 0" if "r < N" "?r \<le> r" for r
    proof (cases "r = ?r")
      case True
      then show ?thesis using r by (subst sum_update) (auto simp: gauss_view_def)
    next
      case False
      then have "gauss_view N i m r ?r = 0" "i - k \<le> r" using r that by (auto simp: gauss_view_def)
      then show ?thesis using r that x(3) by (subst sum_update) auto
    qed
    moreover have "?x i = 1" "\<And>c. c < ?r \<Longrightarrow> ?x c = 0" using r x(1,2) by auto
    ultimately show ?case by (intro exI [of _ ?x]) auto
  qed
  from this [OF order_refl] show ?thesis by auto
qed

lemma m_mul_vec_eye: "length v = N \<Longrightarrow> m_mul_vec N (m_eye N) v = v"
proof (rule nth_equalityI)
  fix i assume v: "length v = N" and "i < length (m_mul_vec N (m_eye N) v)"
  then have i: "i < N" by (simp add: m_mul_vec_entry)
  have "m_mul_vec N (m_eye N) v ! i = (\<Sum>c = 0..<N. (if i = c then 1 else 0) * v ! c)"
    using i by (simp add: m_mul_vec_entry m_eye_entry mult.commute)
  also have "\<dots> = v ! i" using i by (rule sum_delta_mult)
  finally show "m_mul_vec N (m_eye N) v ! i = v ! i" .
qed (simp add: m_mul_vec_entry)

lemma m_mul_vec_zero: "m_mul_vec N a (replicate N 0) = replicate N 0"
  by (rule nth_equalityI) (simp_all add: m_mul_vec_entry)

text \<open>C29: With exact arithmetic and no tolerance, Gauss-Jordan elimination gives up only on a matrix that
  has no inverse: whenever some matrix times the input is the unit matrix, it reports a number other than
  0.\<close>
theorem gauss_complete:
  assumes "m_ok N m" "m_mul N C m = m_eye N"
  shows "fst (m_invert_gauss N 0 m) \<noteq> 0"
proof (cases "gauss_rounds N 0 [0..<N] (m, m_eye N, 1)")
  case (Inr s)
  from gauss_rounds_ok [OF gauss_start [OF assms(1)] _ _ Inr] Inr show ?thesis
    by (auto simp: m_invert_gauss_def gauss_inv_def split: prod.splits)
next
  case (Inl m')
  from gauss_rounds_Inl [OF gauss_start [OF assms(1)] _ _ Inl] obtain j m2 res det where
    j: "j < N" "gauss_inv N m j (m2, res, det)" "\<And>r. j \<le> r \<Longrightarrow> r < N \<Longrightarrow> m_at N m2 r j = 0" by auto
  then obtain x where x: "x j = 1" "\<And>r. r < N \<Longrightarrow> (\<Sum>c = 0..<N. gauss_view N j m2 r c * x c) = 0"
    using gauss_kernel [of j N m2] by auto
  let ?x = "map x [0..<N]" and ?z = "replicate N (0 :: real)"
  have R: "row_equiv N m res (gauss_view N j m2)" using j(2) by (simp add: gauss_inv_def)
  obtain P where P: "m_mul N P res = m_eye N" using row_equivD(3) [OF R] by blast
  have "m_mul_vec N (m_mul N res m) ?x = ?z"
    using R x(2) by (intro nth_equalityI) (auto simp: m_mul_vec_entry row_equiv_def mult.commute)
  then have "m_mul_vec N P (m_mul_vec N res (m_mul_vec N m ?x)) = ?z"
    by (simp add: m_mul_vec_assoc m_mul_vec_zero)
  then have "m_mul_vec N (m_mul N P res) (m_mul_vec N m ?x) = ?z" by (simp only: m_mul_vec_assoc)
  then have "m_mul_vec N m ?x = ?z" by (simp add: P m_mul_vec_eye m_mul_vec_entry)
  then have "m_mul_vec N (m_mul N C m) ?x = ?z" by (simp add: m_mul_vec_assoc m_mul_vec_zero)
  then have "?x = ?z" by (simp add: assms(2) m_mul_vec_eye)
  then have "?x ! j = ?z ! j" by simp
  with x(1) j(1) show ?thesis by simp
qed

theorem gauss_complete_witness: "fst (m_invert_gauss 2 0 [0, 1, 1, 0]) \<noteq> 0"
proof (rule gauss_complete)
  show "m_mul 2 [0, 1, 1, 0] [0, 1, 1, 0] = m_eye 2" by (simp add: m_mul_list m_eye_def m_eye_of_list upt_rec)
qed simp

section \<open>Division and powers\<close>

lemma m_invert_ok:
  assumes "m_ok N m" "0 < N" "0 \<le> epsilon" "m_invert N epsilon m = (d, r)" "d \<noteq> 0"
  shows "m_ok N r \<and> m_mul N r m = m_eye N \<and> m_mul N m r = m_eye N"
proof -
  consider "N = 1" | "N = 2" | "N = 3" | "N = 4" | "4 < N" using assms(2) by linarith
  then show ?thesis
  proof cases
    case 1
    then show ?thesis using assms invert1_ok [of m epsilon] invert_gives_up(1) [of m epsilon]
      by (cases "\<bar>det1 m\<bar> \<le> epsilon") (auto simp: m_invert_def)
  next
    case 2
    then show ?thesis using assms invert2_ok [of m epsilon] invert_gives_up(2) [of m epsilon]
      by (cases "\<bar>det2 m\<bar> \<le> epsilon") (auto simp: m_invert_def)
  next
    case 3
    then show ?thesis using assms invert3_ok [of m epsilon] invert_gives_up(3) [of m epsilon]
      by (cases "\<bar>det3 m\<bar> \<le> epsilon") (auto simp: m_invert_def)
  next
    case 4
    then show ?thesis using assms invert4_ok [of m epsilon] invert_gives_up(4) [of m epsilon]
      by (cases "\<bar>det4 m\<bar> \<le> epsilon") (auto simp: m_invert_def)
  next
    case 5
    then show ?thesis using assms gauss_inverse_ok [of m N epsilon d r] by (auto simp: m_invert_def)
  qed
qed

primrec m_power :: "nat \<Rightarrow> mat \<Rightarrow> nat \<Rightarrow> mat" where
  "m_power N m 0 = m_eye N"
| "m_power N m (Suc n) = m_mul N (m_power N m n) m"

lemma length_m_power [simp]: "length (m_power N m n) = N * N"
  by (cases n) simp_all

lemma m_power_add: "m_power N m (a + b) = m_mul N (m_power N m a) (m_power N m b)"
  by (induction b) (simp_all add: m_mul_assoc)

lemma m_pow_nonneg: "m_ok N m \<Longrightarrow> 0 \<le> p \<Longrightarrow> m_pow N epsilon m p = Some (m_power N m (nat p))"
proof (induction N epsilon m p rule: m_pow.induct)
  case (1 N epsilon m p)
  consider "p = 0" | "p = 1" | "1 < p" "p mod 2 = 1" | "1 < p" "p mod 2 = 0" using \<open>0 \<le> p\<close> by linarith
  then show ?case
  proof cases
    case 3
    then have "m_pow N epsilon m (p - 1) = Some (m_power N m (nat (p - 1)))" using 1 by simp
    moreover have "nat p = Suc (nat (p - 1))" using 3 by simp
    ultimately show ?thesis using 3 by (simp add: m_pow.simps [of N epsilon m p])
  next
    case 4
    then have "m_pow N epsilon m (p div 2) = Some (m_power N m (nat (p div 2)))" using 1 by simp
    moreover have "p = p div 2 + p div 2" using 4(2) by presburger
    then have "nat p = nat (p div 2 + p div 2)" by (rule arg_cong)
    then have "nat p = nat (p div 2) + nat (p div 2)" using 4(1) by (simp add: nat_add_distrib)
    ultimately show ?thesis using 4 by (simp add: m_pow.simps [of N epsilon m p] m_square_def m_power_add Let_def)
  qed (use 1 in \<open>simp_all add: m_pow.simps [of N epsilon m 0] m_pow.simps [of N epsilon m 1]\<close>)
qed

text \<open>C30: The integral power of a matrix, by repeated squaring, is the repeated product for an exponent
  that is not negative; for a negative exponent it is the inverse of the power on both sides when
  \<open>invert\<close> accepts the power, and dividing by an accepted matrix undoes the product with it. The exponent
  whose negation overflows is not supported.\<close>
theorem matrix_powers:
  assumes "m_ok N m" "0 < N" "0 \<le> epsilon"
  shows "(0 \<le> p \<longrightarrow> m_pow N epsilon m p = Some (m_power N m (nat p))) \<and>
    (p < 0 \<and> p \<noteq> - (2 ^ 31) \<and> fst (m_invert N epsilon (m_power N m (nat (- p)))) \<noteq> 0 \<longrightarrow>
      (\<exists>r. m_pow N epsilon m p = Some r \<and> m_mul N r (m_power N m (nat (- p))) = m_eye N \<and>
        m_mul N (m_power N m (nat (- p))) r = m_eye N)) \<and>
    m_pow N epsilon m (- (2 ^ 31)) = None \<and>
    (m_ok N a \<and> fst (m_invert N epsilon m) \<noteq> 0 \<longrightarrow> m_div N epsilon (m_mul N a m) m = a)"
proof (intro conjI impI)
  show "0 \<le> p \<Longrightarrow> m_pow N epsilon m p = Some (m_power N m (nat p))" using m_pow_nonneg [OF assms(1)] .
  show "m_pow N epsilon m (- (2 ^ 31)) = None" by (simp add: m_pow.simps)
next
  assume p: "p < 0 \<and> p \<noteq> - (2 ^ 31) \<and> fst (m_invert N epsilon (m_power N m (nat (- p)))) \<noteq> 0"
  obtain d r where dr: "m_invert N epsilon (m_power N m (nat (- p))) = (d, r)" by fastforce
  have "m_pow N epsilon m p = map_option (m_inv N epsilon) (m_pow N epsilon m (- p))"
    using p by (subst m_pow.simps) simp
  also have "\<dots> = Some r" using p dr m_pow_nonneg [OF assms(1), of "- p"] by (simp add: m_inv_def)
  finally show "\<exists>r. m_pow N epsilon m p = Some r \<and> m_mul N r (m_power N m (nat (- p))) = m_eye N \<and>
      m_mul N (m_power N m (nat (- p))) r = m_eye N"
    using m_invert_ok [OF length_m_power assms(2,3) dr] p dr by auto
next
  assume a: "m_ok N a \<and> fst (m_invert N epsilon m) \<noteq> 0"
  obtain d r where dr: "m_invert N epsilon m = (d, r)" by fastforce
  then show "m_div N epsilon (m_mul N a m) m = a"
    using m_invert_ok [OF assms dr] a by (simp add: m_div_def m_inv_def m_mul_assoc)
qed

theorem matrix_powers_witness:
  "m_pow 2 (1 / 1000) [1, 1, 0, 1] 3 = Some (m_power 2 [1, 1, 0, 1] 3) \<and>
    (\<exists>r. m_pow 2 (1 / 1000) [1, 1, 0, 1] (- 1) = Some r \<and> m_mul 2 r (m_power 2 [1, 1, 0, 1] 1) = m_eye 2)"
proof -
  have "fst (m_invert 2 (1 / 1000) [1, 1, 0, 1]) \<noteq> 0" by (simp add: m_invert_def m_invert2_def Let_def)
  then show ?thesis
    using matrix_powers [of "[1, 1, 0, 1]" 2 "1 / 1000" 3] matrix_powers [of "[1, 1, 0, 1]" 2 "1 / 1000" "- 1"] by auto
qed

text \<open>An inverse that \<open>inv\<close> could not compute is still returned: in sizes above four, the matrix as the
  elimination has left it.\<close>

lemma m_inv_singular: "m_inv_ok N epsilon rhs = (m_inv N epsilon rhs, fst (m_invert N epsilon rhs) \<noteq> 0)"
  by (simp add: m_inv_ok_def m_inv_def Let_def split: prod.splits)

end
