(* ===== verification/Zi_Householder.thy ===== *)
theory Zi_Householder
  imports Zi_Gauss
begin

text \<open>
  \<^verbatim>\<open>zi/vl/detail/householder.hpp\<close>: factorisations by Householder reflections, and the determinant and
  adjugate of \<^verbatim>\<open>zi/vl/mat_functions.hpp\<close> that rest on them. The vector \<open>d\<close> of the code is a list whose
  elements below \<open>i\<close> are never read; the output to \<open>std::cout\<close> is left out.
\<close>

section \<open>The code\<close>

text \<open>The double loops that reflect the columns from \<open>j0\<close> on, or the rows, along the elements of \<open>d\<close> from
  \<open>i\<close> on; \<open>f\<close> is the compound assignment.\<close>

definition reflect_columns :: "(real \<Rightarrow> real \<Rightarrow> real) \<Rightarrow> nat \<Rightarrow> vec \<Rightarrow> real \<Rightarrow> nat \<Rightarrow> nat \<Rightarrow> mat \<Rightarrow> mat" where
  "reflect_columns f N d l i j0 A =
     fold (\<lambda>j A.
         let dr = fold (\<lambda>k dr. dr + d ! k * m_at N A k j) [i..<N] 0;
             dr = dr * l
         in fold (\<lambda>k A. m_set N A k j (f (m_at N A k j) (dr * d ! k))) [i..<N] A) [j0..<N] A"

definition reflect_rows :: "(real \<Rightarrow> real \<Rightarrow> real) \<Rightarrow> nat \<Rightarrow> vec \<Rightarrow> real \<Rightarrow> nat \<Rightarrow> nat \<Rightarrow> mat \<Rightarrow> mat" where
  "reflect_rows f N d l i j0 A =
     fold (\<lambda>j A.
         let dr = fold (\<lambda>k dr. dr + d ! k * m_at N A j k) [i..<N] 0;
             dr = dr * l
         in fold (\<lambda>k A. m_set N A j k (f (m_at N A j k) (dr * d ! k))) [i..<N] A) [j0..<N] A"

text \<open>\<open>householder\<close>: one round, \<open>Inl\<close> being the early return of \<open>false\<close>. The argument \<open>init_q_to_eye\<close>
  changes nothing, since \<open>Q\<close> is set to the unit matrix first in any case.\<close>

definition hh_round :: "nat \<Rightarrow> real \<Rightarrow> nat \<Rightarrow> vec \<times> mat \<times> mat \<Rightarrow> mat \<times> mat + vec \<times> mat \<times> mat" where
  "hh_round N epsilon i = (\<lambda>(d, Q, R).
     let (d, l) = fold (\<lambda>j (d, l). let d = d[j := m_at N R j i] in (d, l + d ! j * d ! j)) [i..<N] (d, 0)
     in if l \<le> epsilon then Inl (Q, R)
        else
          (let dl = sqrt l;
               l = l + (l - d ! i * dl * 2);
               d = d[i := d ! i - dl]
           in if l \<le> epsilon then Inl (Q, R)
              else
                (let l = 2 / l;
                     R = reflect_columns (-) N d l i i R;
                     Q = reflect_rows (-) N d l i 0 Q
                 in Inr (d, Q, R))))"

fun hh_rounds :: "nat \<Rightarrow> real \<Rightarrow> nat list \<Rightarrow> vec \<times> mat \<times> mat \<Rightarrow> bool \<times> mat \<times> mat" where
  "hh_rounds N epsilon [] (d, Q, R) = (True, Q, R)"
| "hh_rounds N epsilon (i # rest) s =
     (case hh_round N epsilon i s of Inl (Q, R) \<Rightarrow> (False, Q, R) | Inr s \<Rightarrow> hh_rounds N epsilon rest s)"

definition householder :: "nat \<Rightarrow> real \<Rightarrow> mat \<Rightarrow> bool \<times> mat \<times> mat" where
  "householder N epsilon R = (let Q = m_eye N in hh_rounds N epsilon [0..<N - 1] (v_new N 0, Q, R))"

text \<open>\<open>householder_just_R\<close> skips the columns on which \<open>householder\<close> gives up.\<close>

definition just_R_round :: "nat \<Rightarrow> real \<Rightarrow> nat \<Rightarrow> vec \<times> mat \<Rightarrow> vec \<times> mat" where
  "just_R_round N epsilon i = (\<lambda>(d, R).
     let (d, l) = fold (\<lambda>j (d, l). let d = d[j := m_at N R j i] in (d, l + d ! j * d ! j)) [i..<N] (d, 0)
     in if l > epsilon
        then
          (let dl = sqrt l;
               l = l + (l - d ! i * dl * 2);
               d = d[i := d ! i - dl]
           in if l > epsilon then (let l = 2 / l in (d, reflect_columns (-) N d l i i R)) else (d, R))
        else (d, R))"

definition householder_just_R :: "nat \<Rightarrow> real \<Rightarrow> mat \<Rightarrow> mat" where
  "householder_just_R N epsilon R = snd (fold (just_R_round N epsilon) [0..<N - 1] (v_new N 0, R))"

definition m_det :: "nat \<Rightarrow> real \<Rightarrow> mat \<Rightarrow> real" where
  "m_det N epsilon rhs =
     (if N = 1 then det1 rhs
      else if N = 2 then det2 rhs
      else if N = 3 then det3 rhs
      else if N = 4 then det4 rhs
      else (let tmp = rhs; tmp = householder_just_R N epsilon tmp in m_trace N tmp))"

text \<open>\<open>adj\<close> for sizes above two.\<close>

definition m_adj :: "nat \<Rightarrow> real \<Rightarrow> mat \<Rightarrow> mat" where
  "m_adj N epsilon rhs =
     snd (fold (\<lambda>r (i, res).
         fold (\<lambda>c (i, res).
             let res = res[i := m_det (N - 1) epsilon (m_minor (N - 1) rhs c r)];
                 res = (if (r + c) mod 2 = 1 then res[i := - (res ! i)] else res)
             in (i + 1, res)) [0..<N] (i, res)) [0..<N] (0, m_new N 0))"

text \<open>\<open>left_householder\<close>: the same from the other side.\<close>

definition lh_round :: "nat \<Rightarrow> real \<Rightarrow> nat \<Rightarrow> vec \<times> mat \<times> mat \<Rightarrow> mat \<times> mat + vec \<times> mat \<times> mat" where
  "lh_round N epsilon i = (\<lambda>(d, R, Q).
     let (d, l) = fold (\<lambda>j (d, l). let d = d[j := m_at N R i j] in (d, l + d ! j * d ! j)) [i..<N] (d, 0)
     in if l \<le> epsilon then Inl (R, Q)
        else
          (let dl = sqrt l;
               l = l - d ! i * dl;
               d = d[i := d ! i - dl]
           in if l \<le> epsilon then Inl (R, Q)
              else
                (let l = 1 / l;
                     R = reflect_rows (-) N d l i i R;
                     Q = reflect_columns (-) N d l i 0 Q
                 in Inr (d, R, Q))))"

fun lh_rounds :: "nat \<Rightarrow> real \<Rightarrow> nat list \<Rightarrow> vec \<times> mat \<times> mat \<Rightarrow> bool \<times> mat \<times> mat" where
  "lh_rounds N epsilon [] (d, R, Q) = (True, R, Q)"
| "lh_rounds N epsilon (i # rest) s =
     (case lh_round N epsilon i s of Inl (R, Q) \<Rightarrow> (False, R, Q) | Inr s \<Rightarrow> lh_rounds N epsilon rest s)"

definition left_householder :: "nat \<Rightarrow> real \<Rightarrow> mat \<Rightarrow> mat \<Rightarrow> bool \<Rightarrow> bool \<times> mat \<times> mat" where
  "left_householder N epsilon R Q init_q_to_eye =
     (let Q = (if init_q_to_eye then m_eye N else Q) in lh_rounds N epsilon [0..<N - 1] (v_new N 0, R, Q))"

section \<open>Reflections\<close>

definition tail :: "nat \<Rightarrow> vec \<Rightarrow> nat \<Rightarrow> real" where
  "tail i d k = (if i \<le> k then d ! k else 0)"

text \<open>The matrix of a reflection along \<open>e\<close>; a reflection when \<open>l\<close> is two over the squared length.\<close>

definition refl_mat :: "nat \<Rightarrow> real \<Rightarrow> (nat \<Rightarrow> real) \<Rightarrow> mat" where
  "refl_mat N l e = mat_of N (\<lambda>r c. (if r = c then 1 else 0) - l * e r * e c)"

lemma length_refl_mat [simp]: "length (refl_mat N l e) = N * N"
  by (simp add: refl_mat_def)

lemma refl_mat_left:
  assumes "r < N" "c < N"
  shows "m_at N (m_mul N (refl_mat N l e) A) r c = m_at N A r c - (\<Sum>k = 0..<N. e k * m_at N A k c) * l * e r"
proof -
  have "m_at N (m_mul N (refl_mat N l e) A) r c =
      (\<Sum>k = 0..<N. (if r = k then 1 else 0) * m_at N A k c - (l * e r) * (e k * m_at N A k c))"
    using assms by (simp add: m_mul_entry refl_mat_def mat_of_entry algebra_simps)
  also have "\<dots> = m_at N A r c - (l * e r) * (\<Sum>k = 0..<N. e k * m_at N A k c)"
    using assms by (simp add: sum_subtractf sum_distrib_left)
  finally show ?thesis by (simp add: mult.commute mult.left_commute)
qed

lemma refl_mat_trans: "m_trans N (refl_mat N l e) = refl_mat N l e"
  by (rule m_eqI [where N = N]) (auto simp: m_trans_entry refl_mat_def mat_of_entry)

lemma refl_mat_right:
  assumes "r < N" "c < N"
  shows "m_at N (m_mul N A (refl_mat N l e)) r c = m_at N A r c - (\<Sum>k = 0..<N. e k * m_at N A r k) * l * e c"
proof -
  have "m_at N (m_mul N A (refl_mat N l e)) r c = m_at N (m_mul N (refl_mat N l e) (m_trans N A)) c r"
    using assms m_trans_entry [of c N r "m_mul N A (refl_mat N l e)"] by (simp add: m_trans_mul refl_mat_trans)
  then show ?thesis using assms by (simp add: refl_mat_left m_trans_entry)
qed

lemma refl_mat_square:
  assumes "l * (\<Sum>k = 0..<N. e k * e k) = 2"
  shows "m_mul N (refl_mat N l e) (refl_mat N l e) = m_eye N"
proof (rule m_eqI [where N = N])
  fix r c assume rc: "r < N" "c < N"
  have "(\<Sum>k = 0..<N. e k * m_at N (refl_mat N l e) k c) = (\<Sum>k = 0..<N. e k * (if k = c then 1 else 0) - (e k * e k) * (l * e c))"
    using rc by (auto simp: refl_mat_def mat_of_entry algebra_simps intro!: sum.cong)
  also have "\<dots> = e c - (\<Sum>k = 0..<N. e k * e k) * (l * e c)"
    using rc by (simp add: sum_subtractf sum_distrib_right)
  also have "\<dots> = e c - (l * (\<Sum>k = 0..<N. e k * e k)) * e c" by simp
  also have "\<dots> = - e c" unfolding assms by simp
  finally show "m_at N (m_mul N (refl_mat N l e) (refl_mat N l e)) r c = m_at N (m_eye N) r c"
    using rc by (simp add: refl_mat_left m_eye_entry) (simp add: refl_mat_def mat_of_entry)
qed simp_all

lemma sum_tail: "i \<le> N \<Longrightarrow> (\<Sum>k = i..<N. d ! k * g k) = (\<Sum>k = 0..<N. tail i d k * g k)"
  by (rule sum.mono_neutral_cong_left) (auto simp: tail_def)

lemma sum_tail_square: "i \<le> N \<Longrightarrow> (\<Sum>k = i..<N. d ! k * d ! k) = (\<Sum>k = 0..<N. tail i d k * tail i d k)"
  by (rule sum.mono_neutral_cong_left) (auto simp: tail_def)

lemma fold_dot_tail: "i \<le> N \<Longrightarrow> fold (\<lambda>k dr. dr + d ! k * g k) [i..<N] 0 = (\<Sum>k = 0..<N. tail i d k * g k)"
  by (simp add: fold_sum_upt sum_tail)

lemma reflect_columns_ok:
  assumes f: "\<And>x y. f x y = x - s * y" and A: "m_ok N A" and i: "i \<le> N" and rc: "r < N" "c < N"
  shows "m_ok N (reflect_columns f N d l i j0 A) \<and> m_at N (reflect_columns f N d l i j0 A) r c =
    (if j0 \<le> c then m_at N (m_mul N (refl_mat N (s * l) (tail i d)) A) r c else m_at N A r c)"
proof -
  let ?step = "\<lambda>j A. let dr = fold (\<lambda>k dr. dr + d ! k * m_at N A k j) [i..<N] 0; dr = dr * l
         in fold (\<lambda>k A. m_set N A k j (f (m_at N A k j) (dr * d ! k))) [i..<N] A"
  let ?v = "\<lambda>A r c. m_at N A r c - (\<Sum>k = 0..<N. tail i d k * m_at N A k c) * (s * l) * tail i d r"
  have step: "m_ok N (?step j A) \<and> m_at N (?step j A) r c = (if c = j then ?v A r c else m_at N A r c)"
    if "m_ok N A" "j < N" "r < N" "c < N" for A j r c
  proof -
    define dr where "dr = fold (\<lambda>k dr. dr + d ! k * m_at N A k j) [i..<N] 0 * l"
    have "dr = (\<Sum>k = 0..<N. tail i d k * m_at N A k j) * l" using i by (simp add: dr_def fold_dot_tail)
    with fold_column [OF that(1,2) order_refl that(3,4), of i "\<lambda>k A. f (m_at N A k j) (dr * d ! k)"] that
    show ?thesis by (simp add: Let_def dr_def [symmetric] f tail_def)
  qed
  have "m_ok N (fold ?step [j0..<n] A) \<and> (\<forall>r < N. \<forall>c < N. m_at N (fold ?step [j0..<n] A) r c =
      (if j0 \<le> c \<and> c < n then ?v A r c else m_at N A r c))" if "n \<le> N" for n
    using that
  proof (induction n)
    case (Suc n)
    then have IH: "m_ok N (fold ?step [j0..<n] A)" "\<And>r c. r < N \<Longrightarrow> c < N \<Longrightarrow> m_at N (fold ?step [j0..<n] A) r c =
      (if j0 \<le> c \<and> c < n then ?v A r c else m_at N A r c)" by auto
    have v: "?v (fold ?step [j0..<n] A) r n = ?v A r n" if "r < N" for r
      using that Suc.prems IH(2) by simp
    show ?case
    proof (cases "j0 \<le> n")
      case True
      then have "fold ?step [j0..<Suc n] A = ?step n (fold ?step [j0..<n] A)" by simp
      then show ?thesis using step [OF IH(1), of n] IH v Suc.prems True by (auto simp: less_Suc_eq)
    qed (use IH in auto)
  qed (simp add: A)
  from this [OF order_refl] rc show ?thesis by (simp add: reflect_columns_def refl_mat_left)
qed

lemma reflect_rows_ok:
  assumes f: "\<And>x y. f x y = x - s * y" and A: "m_ok N A" and i: "i \<le> N" and rc: "r < N" "c < N"
  shows "m_ok N (reflect_rows f N d l i j0 A) \<and> m_at N (reflect_rows f N d l i j0 A) r c =
    (if j0 \<le> r then m_at N (m_mul N A (refl_mat N (s * l) (tail i d))) r c else m_at N A r c)"
proof -
  let ?step = "\<lambda>j A. let dr = fold (\<lambda>k dr. dr + d ! k * m_at N A j k) [i..<N] 0; dr = dr * l
         in fold (\<lambda>k A. m_set N A j k (f (m_at N A j k) (dr * d ! k))) [i..<N] A"
  let ?v = "\<lambda>A r c. m_at N A r c - (\<Sum>k = 0..<N. tail i d k * m_at N A r k) * (s * l) * tail i d c"
  have step: "m_ok N (?step j A) \<and> m_at N (?step j A) r c = (if r = j then ?v A r c else m_at N A r c)"
    if "m_ok N A" "j < N" "r < N" "c < N" for A j r c
  proof -
    define dr where "dr = fold (\<lambda>k dr. dr + d ! k * m_at N A j k) [i..<N] 0 * l"
    have "dr = (\<Sum>k = 0..<N. tail i d k * m_at N A j k) * l" using i by (simp add: dr_def fold_dot_tail)
    with fold_row [OF that(1,2) order_refl that(3,4), of i "\<lambda>k A. f (m_at N A j k) (dr * d ! k)"] that
    show ?thesis by (simp add: Let_def dr_def [symmetric] f tail_def)
  qed
  have "m_ok N (fold ?step [j0..<n] A) \<and> (\<forall>r < N. \<forall>c < N. m_at N (fold ?step [j0..<n] A) r c =
      (if j0 \<le> r \<and> r < n then ?v A r c else m_at N A r c))" if "n \<le> N" for n
    using that
  proof (induction n)
    case (Suc n)
    then have IH: "m_ok N (fold ?step [j0..<n] A)" "\<And>r c. r < N \<Longrightarrow> c < N \<Longrightarrow> m_at N (fold ?step [j0..<n] A) r c =
      (if j0 \<le> r \<and> r < n then ?v A r c else m_at N A r c)" by auto
    have v: "?v (fold ?step [j0..<n] A) n c = ?v A n c" if "c < N" for c
      using that Suc.prems IH(2) by simp
    show ?case
    proof (cases "j0 \<le> n")
      case True
      then have "fold ?step [j0..<Suc n] A = ?step n (fold ?step [j0..<n] A)" by simp
      then show ?thesis using step [OF IH(1), of n] IH v Suc.prems True by (auto simp: less_Suc_eq)
    qed (use IH in auto)
  qed (simp add: A)
  from this [OF order_refl] rc show ?thesis by (simp add: reflect_rows_def refl_mat_right)
qed

text \<open>The vector of a Householder reflection: reflecting \<open>x\<close> along \<open>e\<close> leaves its length in position
  \<open>i\<close> and zeros elsewhere.\<close>

lemma reflect_vector:
  fixes x :: "nat \<Rightarrow> real"
  assumes i: "i < N" and dl: "dl * dl = (\<Sum>k = 0..<N. x k * x k)" and e: "e = x(i := x i - dl)"
  shows "(\<Sum>k = 0..<N. e k * e k) = 2 * (dl * dl - x i * dl)" "(\<Sum>k = 0..<N. e k * x k) = dl * dl - x i * dl"
    "l * (dl * dl - x i * dl) = 1 \<Longrightarrow> x r - (\<Sum>k = 0..<N. e k * x k) * l * e r = (if r = i then dl else 0)"
proof -
  have "(\<Sum>k = 0..<N. e k * e k) = (\<Sum>k = 0..<N. x k * x k + (if k = i then dl * dl - 2 * x i * dl else 0))"
    by (intro sum.cong) (auto simp: e algebra_simps)
  then show "(\<Sum>k = 0..<N. e k * e k) = 2 * (dl * dl - x i * dl)"
    using i by (simp add: sum.distrib dl)
  have "(\<Sum>k = 0..<N. e k * x k) = (\<Sum>k = 0..<N. x k * x k - (if k = i then x i * dl else 0))"
    by (intro sum.cong) (auto simp: e algebra_simps)
  then show ex: "(\<Sum>k = 0..<N. e k * x k) = dl * dl - x i * dl"
    using i by (simp add: sum_subtractf dl)
  assume "l * (dl * dl - x i * dl) = 1"
  then have "(\<Sum>k = 0..<N. e k * x k) * l = 1" unfolding ex by (simp add: mult.commute)
  then show "x r - (\<Sum>k = 0..<N. e k * x k) * l * e r = (if r = i then dl else 0)" by (simp add: e)
qed

text \<open>A loop that replaces the elements of \<open>d\<close> from \<open>i\<close> on and adds up a function of them.\<close>

lemma fold_fill:
  fixes d :: vec
  assumes "length d = N" "i \<le> n" "n \<le> N"
  shows "\<exists>d'. fold (\<lambda>j (d, l). let d = d[j := u j (d ! j)] in (d, l + w (d ! j))) [i..<n] (d, 0) =
      (d', \<Sum>k = i..<n. w (d' ! k) :: real) \<and> length d' = N \<and>
      (\<forall>k < N. d' ! k = (if i \<le> k \<and> k < n then u k (d ! k) else d ! k))"
  using assms(2,3)
proof (induction n)
  case (Suc n)
  show ?case
  proof (cases "i = Suc n")
    case False
    with Suc obtain d' where "fold (\<lambda>j (d, l). let d = d[j := u j (d ! j)] in (d, l + w (d ! j))) [i..<n] (d, 0) =
        (d', \<Sum>k = i..<n. w (d' ! k))" "length d' = N" "\<forall>k < N. d' ! k = (if i \<le> k \<and> k < n then u k (d ! k) else d ! k)"
      by auto
    with Suc.prems False show ?thesis
      by (intro exI [of _ "d'[n := u n (d ! n)]"]) (auto simp: Let_def nth_list_update less_Suc_eq)
  qed (use assms(1) in auto)
qed (use assms(1) in auto)

text \<open>The loop that copies a column or a row to \<open>d\<close> and adds up its squares.\<close>

lemma fill_vector:
  assumes "length d = N" "i < N"
  shows "\<exists>d'. fold (\<lambda>j (d, l). let d = d[j := g j] in (d, l + d ! j * d ! j)) [i..<N] (d, 0) =
      (d', \<Sum>k = 0..<N. tail i d' k * tail i d' k) \<and> length d' = N \<and> (\<forall>k. i \<le> k \<longrightarrow> k < N \<longrightarrow> d' ! k = (g k :: real))"
proof -
  obtain d' where "fold (\<lambda>j (d, l). let d = d[j := g j] in (d, l + d ! j * d ! j)) [i..<N] (d, 0) =
      (d', \<Sum>k = i..<N. d' ! k * d' ! k)" "length d' = N"
    "\<forall>k < N. d' ! k = (if i \<le> k \<and> k < N then g k else d ! k)"
    using fold_fill [OF assms(1) _ order_refl, of i "\<lambda>j _. g j" "\<lambda>x. x * x"] assms(2) by auto
  then show ?thesis using assms(2) by (intro exI [of _ d']) (simp add: sum_tail_square [of i N d', symmetric])
qed

section \<open>QR factorisation\<close>

definition orthogonal :: "nat \<Rightarrow> mat \<Rightarrow> bool" where
  "orthogonal N Q \<longleftrightarrow> m_ok N Q \<and> m_mul N Q (m_trans N Q) = m_eye N \<and> m_mul N (m_trans N Q) Q = m_eye N"

lemma orthogonal_eye: "orthogonal N (m_eye N)"
proof -
  have "m_trans N (m_eye N) = m_eye N" by (rule m_eqI [where N = N]) (auto simp: m_trans_entry m_eye_entry)
  then show ?thesis by (simp add: orthogonal_def)
qed

lemma orthogonal_mul: "orthogonal N P \<Longrightarrow> orthogonal N Q \<Longrightarrow> orthogonal N (m_mul N P Q)"
proof -
  assume P: "orthogonal N P" and Q: "orthogonal N Q"
  have "m_mul N (m_mul N P Q) (m_trans N (m_mul N P Q)) = m_mul N P (m_mul N (m_mul N Q (m_trans N Q)) (m_trans N P))"
    "m_mul N (m_trans N (m_mul N P Q)) (m_mul N P Q) = m_mul N (m_trans N Q) (m_mul N (m_mul N (m_trans N P) P) Q)"
    by (simp_all add: m_trans_mul m_mul_assoc)
  with P Q show ?thesis by (simp add: orthogonal_def)
qed

lemma orthogonal_refl: "l * (\<Sum>k = 0..<N. e k * e k) = 2 \<Longrightarrow> orthogonal N (refl_mat N l e)"
  by (simp add: orthogonal_def refl_mat_trans refl_mat_square)

lemma orthogonal_cancel: "orthogonal N Q \<Longrightarrow> m_ok N A \<Longrightarrow> m_mul N (m_trans N Q) (m_mul N Q A) = A"
  by (simp add: orthogonal_def m_mul_assoc [symmetric])

text \<open>The columns below \<open>i\<close> have been brought to triangular form.\<close>

definition triangular_upto :: "nat \<Rightarrow> nat \<Rightarrow> mat \<Rightarrow> bool" where
  "triangular_upto N i R \<longleftrightarrow> (\<forall>c < i. \<forall>r < N. c < r \<longrightarrow> m_at N R r c = 0)"

lemma reflect_round:
  assumes R: "m_ok N R" "triangular_upto N i R" and i: "i < N" and d: "length d = N" "\<forall>k. i \<le> k \<longrightarrow> k < N \<longrightarrow> d ! k = m_at N R k i"
    and dl: "dl * dl = (\<Sum>k = 0..<N. tail i d k * tail i d k)" and l: "l * (dl * dl - d ! i * dl) = 1"
  defines "H \<equiv> refl_mat N l (tail i (d[i := d ! i - dl]))"
  shows "reflect_columns (-) N (d[i := d ! i - dl]) l i i R = m_mul N H R" "orthogonal N H"
    "m_ok N Q \<Longrightarrow> reflect_rows (-) N (d[i := d ! i - dl]) l i 0 Q = m_mul N Q H"
    "triangular_upto N (i + 1) (m_mul N H R)" "m_at N (m_mul N H R) i i = dl"
    "r < N \<Longrightarrow> c < i \<Longrightarrow> m_at N (m_mul N H R) r c = m_at N R r c"
proof -
  let ?x = "tail i d" and ?e = "tail i (d[i := d ! i - dl])"
  have e: "?e = ?x(i := ?x i - dl)" using i d(1) by (auto simp: tail_def fun_eq_iff nth_list_update)
  have xi: "?x i = d ! i" by (simp add: tail_def)
  note vec = reflect_vector [OF i dl e]
  have "l * (\<Sum>k = 0..<N. ?e k * ?e k) = 2 * (l * (dl * dl - d ! i * dl))" unfolding vec(1) xi by simp
  then have "l * (\<Sum>k = 0..<N. ?e k * ?e k) = 2" using l by simp
  then show "orthogonal N H" unfolding H_def by (rule orthogonal_refl)
  have below: "m_at N (m_mul N H R) r c = m_at N R r c" if "r < N" "c < i" for r c
  proof -
    have "(\<Sum>k = 0..<N. ?e k * m_at N R k c) = 0"
      using that R(2) by (intro sum.neutral) (auto simp: tail_def triangular_upto_def)
    then show ?thesis using that i by (simp add: H_def refl_mat_left)
  qed
  then show "r < N \<Longrightarrow> c < i \<Longrightarrow> m_at N (m_mul N H R) r c = m_at N R r c" .
  have cols: "m_ok N (reflect_columns (-) N (d[i := d ! i - dl]) l i i R) \<and>
      m_at N (reflect_columns (-) N (d[i := d ! i - dl]) l i i R) r c = (if i \<le> c then m_at N (m_mul N H R) r c else m_at N R r c)"
    if "r < N" "c < N" for r c
    using reflect_columns_ok [where f = "(-)" and s = 1 and N = N and A = R and i = i and r = r and c = c] R(1) i that by (simp add: H_def)
  show "reflect_columns (-) N (d[i := d ! i - dl]) l i i R = m_mul N H R"
    using cols below i by (intro m_eqI [where N = N]) auto
  show "reflect_rows (-) N (d[i := d ! i - dl]) l i 0 Q = m_mul N Q H" if "m_ok N Q"
    using reflect_rows_ok [where f = "(-)" and s = 1 and N = N and A = Q and i = i] that i by (intro m_eqI [where N = N]) (auto simp: H_def)
  have col: "m_at N (m_mul N H R) r i = (if r = i then dl else 0)" if "r < N" "i \<le> r" for r
  proof -
    have "(\<Sum>k = 0..<N. ?e k * m_at N R k i) = (\<Sum>k = 0..<N. ?e k * ?x k)"
      using d(2) by (intro sum.cong) (auto simp: tail_def)
    moreover have "m_at N R r i = ?x r" using that d(2) by (simp add: tail_def)
    ultimately show ?thesis using vec(3) [of l r] l that i by (simp add: H_def refl_mat_left xi)
  qed
  then show "m_at N (m_mul N H R) i i = dl" using i by simp
  show "triangular_upto N (i + 1) (m_mul N H R)"
    using col below R(2) by (auto simp: triangular_upto_def less_Suc_eq)
qed

text \<open>The numbers of one round: the length of the column, and the factor of the reflection.\<close>

lemma reflect_factor:
  assumes "epsilon < L" "0 \<le> epsilon" "epsilon < L + (L - x * sqrt L * 2)"
  shows "sqrt L * sqrt L = L" "2 / (L + (L - x * sqrt L * 2)) * (sqrt L * sqrt L - x * sqrt L) = 1"
proof -
  show s: "sqrt L * sqrt L = L" using assms by simp
  have "L + (L - x * sqrt L * 2) \<noteq> 0" using assms by simp
  moreover have "2 * (sqrt L * sqrt L - x * sqrt L) = L + (L - x * sqrt L * 2)" unfolding s by (simp add: algebra_simps)
  ultimately show "2 / (L + (L - x * sqrt L * 2)) * (sqrt L * sqrt L - x * sqrt L) = 1" by (metis divide_self_if times_divide_eq_left)
qed

text \<open>The input is the product of \<open>Q\<close> and \<open>R\<close>, and \<open>R\<close> is triangular in the columns below \<open>i\<close>, with
  positive entries on the diagonal.\<close>

definition hh_inv :: "nat \<Rightarrow> mat \<Rightarrow> nat \<Rightarrow> mat \<Rightarrow> mat \<Rightarrow> bool" where
  "hh_inv N A i Q R \<longleftrightarrow> m_ok N R \<and> orthogonal N Q \<and> m_mul N Q R = A \<and> triangular_upto N i R \<and> (\<forall>c < i. 0 < m_at N R c c)"

lemma hh_round_ok:
  assumes inv: "hh_inv N A i Q R" and i: "i < N" and d: "length d = N" and eps: "0 \<le> epsilon"
  shows "case hh_round N epsilon i (d, Q, R) of
      Inl s \<Rightarrow> s = (Q, R)
    | Inr (d', Q', R') \<Rightarrow> length d' = N \<and> hh_inv N A (i + 1) Q' R'"
proof -
  from fill_vector [OF d i, of "\<lambda>j. m_at N R j i"] obtain d2 where
    d2: "fold (\<lambda>j (d, l). let d = d[j := m_at N R j i] in (d, l + d ! j * d ! j)) [i..<N] (d, 0) =
      (d2, \<Sum>k = 0..<N. tail i d2 k * tail i d2 k)" "length d2 = N" "\<forall>k. i \<le> k \<longrightarrow> k < N \<longrightarrow> d2 ! k = m_at N R k i" by auto
  define L where "L = (\<Sum>k = 0..<N. tail i d2 k * tail i d2 k)"
  show ?thesis
  proof (cases "L \<le> epsilon \<or> L + (L - d2 ! i * sqrt L * 2) \<le> epsilon")
    case True
    then show ?thesis using d2(1) by (auto simp: hh_round_def L_def [symmetric] Let_def)
  next
    case False
    let ?l = "2 / (L + (L - d2 ! i * sqrt L * 2))"
    have num: "sqrt L * sqrt L = L" "?l * (sqrt L * sqrt L - d2 ! i * sqrt L) = 1"
      using reflect_factor [of epsilon L "d2 ! i"] False eps by auto
    have ok: "m_ok N R" "orthogonal N Q" "m_mul N Q R = A" "triangular_upto N i R" "m_ok N Q" "\<And>c. c < i \<Longrightarrow> 0 < m_at N R c c"
      using inv by (auto simp: hh_inv_def orthogonal_def)
    define H where "H = refl_mat N ?l (tail i (d2[i := d2 ! i - sqrt L]))"
    have dl: "sqrt L * sqrt L = (\<Sum>k = 0..<N. tail i d2 k * tail i d2 k)" using num(1) by (simp add: L_def)
    note step = reflect_round [OF ok(1,4) i d2(2,3) dl num(2), folded H_def]
    have r: "hh_round N epsilon i (d, Q, R) = Inr (d2[i := d2 ! i - sqrt L], m_mul N Q H, m_mul N H R)"
      using False d2(1) step(1) step(3) [OF ok(5)] by (simp add: hh_round_def L_def [symmetric] Let_def)
    have "m_mul N (m_mul N Q H) (m_mul N H R) = m_mul N Q (m_mul N (m_trans N H) (m_mul N H R))"
      by (simp add: m_mul_assoc H_def refl_mat_trans)
    also have "\<dots> = A" using orthogonal_cancel [OF step(2) ok(1)] ok(3) by simp
    finally have "m_mul N (m_mul N Q H) (m_mul N H R) = A" .
    moreover have "0 < sqrt L" using False eps by simp
    then have "\<forall>c < i + 1. 0 < m_at N (m_mul N H R) c c" using step(5,6) ok(6) i by (auto simp: less_Suc_eq)
    ultimately have "hh_inv N A (i + 1) (m_mul N Q H) (m_mul N H R)"
      using step(4) orthogonal_mul [OF ok(2) step(2)] by (simp add: hh_inv_def)
    then show ?thesis using r d2(2) by simp
  qed
qed

lemma hh_rounds_ok:
  assumes "hh_inv N A i Q R" "length d = N" "0 \<le> epsilon" "i \<le> n" "n \<le> N" "hh_rounds N epsilon [i..<n] (d, Q, R) = (ok, Q', R')"
  shows "\<exists>j \<le> n. hh_inv N A j Q' R' \<and> (ok \<longrightarrow> j = n)"
  using assms
proof (induction "n - i" arbitrary: i d Q R)
  case (Suc m)
  then have i: "i < n" "[i..<n] = i # [i + 1..<n]" by (simp_all add: upt_conv_Cons)
  note step = hh_round_ok [OF Suc.prems(1) _ Suc.prems(2,3)]
  show ?case
  proof (cases "hh_round N epsilon i (d, Q, R)")
    case (Inl s)
    with step i Suc.prems(5) have "s = (Q, R)" by simp
    with Inl i Suc.prems show ?thesis by (auto intro!: exI [of _ i])
  next
    case (Inr s)
    obtain d2 Q2 R2 where s: "s = (d2, Q2, R2)" by (cases s)
    with Inr step i Suc.prems(5) have "length d2 = N" "hh_inv N A (i + 1) Q2 R2" by simp_all
    moreover have "hh_rounds N epsilon [i + 1..<n] (d2, Q2, R2) = (ok, Q', R')" using Suc.prems(6) Inr s i(2) by simp
    ultimately show ?thesis using Suc.hyps i(1) Suc.prems(3,5) by (intro Suc.hyps(1) [of "i + 1"]) auto
  qed
qed auto

lemma hh_inv_start: "m_ok N A \<Longrightarrow> hh_inv N A 0 (m_eye N) A"
  by (simp add: hh_inv_def orthogonal_eye triangular_upto_def)

text \<open>C16: \<open>householder\<close> factors a matrix of any size: \<open>Q\<close> is orthogonal and the product of \<open>Q\<close> and \<open>R\<close> is
  the input, whether it finishes or gives up half way; when it reports success, \<open>R\<close> is upper
  triangular and its diagonal is positive but for the last entry.\<close>
theorem householder_qr:
  assumes "m_ok N A" "0 \<le> epsilon" "householder N epsilon A = (ok, Q, R)"
  shows "m_mul N Q R = A \<and> m_mul N Q (m_trans N Q) = m_eye N \<and> m_mul N (m_trans N Q) Q = m_eye N \<and>
    (ok \<longrightarrow> (\<forall>r < N. \<forall>c < r. m_at N R r c = 0) \<and> (\<forall>c < N - 1. 0 < m_at N R c c))"
proof -
  have "hh_rounds N epsilon [0..<N - 1] (v_new N 0, m_eye N, A) = (ok, Q, R)"
    using assms(3) by (simp add: householder_def Let_def)
  from hh_rounds_ok [OF hh_inv_start [OF assms(1)] _ assms(2) _ _ this] obtain j where
    j: "hh_inv N A j Q R" "ok \<longrightarrow> j = N - 1" by auto
  have "ok \<longrightarrow> (\<forall>r < N. \<forall>c < r. m_at N R r c = 0)"
    using j by (auto simp: hh_inv_def triangular_upto_def)
  with j show ?thesis by (auto simp: hh_inv_def orthogonal_def)
qed

theorem householder_qr_witness:
  "\<exists>ok Q R. householder 2 (1 / 1000) [0, 1, 1, 0] = (ok, Q, R) \<and> m_mul 2 Q R = [0, 1, 1, 0]"
proof -
  obtain ok Q R where "householder 2 (1 / 1000) [0, 1, 1, 0] = (ok, Q, R)" by (metis prod_cases3)
  then show ?thesis using householder_qr [of "[0, 1, 1, 0]" 2 "1 / 1000" ok Q R] by auto
qed

text \<open>A column that is already a positive multiple of the unit vector needs no reflection, but the code
  takes it for a failure: the factorisation of the unit matrix is refused.\<close>

lemma householder_eye: "1 < N \<Longrightarrow> 0 \<le> epsilon \<Longrightarrow> householder N epsilon (m_eye N) = (False, m_eye N, m_eye N)"
proof -
  assume N: "1 < N" and eps: "0 \<le> epsilon"
  have first: "[0..<N - 1] = 0 # [1..<N - 1]" using N by (simp add: upt_conv_Cons)
  from fill_vector [of "v_new N 0" N 0 "\<lambda>j. m_at N (m_eye N) j 0"] N obtain d2 where
    d2: "fold (\<lambda>j (d, l). let d = d[j := m_at N (m_eye N) j 0] in (d, l + d ! j * d ! j)) [0..<N] (v_new N 0, 0) =
      (d2, \<Sum>k = 0..<N. tail 0 d2 k * tail 0 d2 k)" "length d2 = N" "\<And>k. k < N \<Longrightarrow> d2 ! k = m_at N (m_eye N) k 0" by auto
  have "(\<Sum>k = 0..<N. tail 0 d2 k * tail 0 d2 k) = (\<Sum>k = 0..<N. if k = 0 then 1 else 0)"
    using d2(3) N by (intro sum.cong) (auto simp: tail_def m_eye_entry)
  also have "\<dots> = 1" using N by simp
  finally have "hh_round N epsilon 0 (v_new N 0, m_eye N, m_eye N) = Inl (m_eye N, m_eye N)"
    using d2(1,3) N eps by (simp add: hh_round_def Let_def m_eye_entry)
  then show ?thesis by (simp only: householder_def Let_def first) simp
qed

section \<open>Determinants of sizes above four\<close>

lemma just_R_round_ok:
  assumes R: "m_ok N R" "triangular_upto N i R" "orthogonal N Q" "m_mul N Q R = A" "\<And>c. c < i \<Longrightarrow> 0 \<le> m_at N R c c"
    and i: "i < N" and d: "length d = N"
  shows "\<exists>d' R' Q'. just_R_round N 0 i (d, R) = (d', R') \<and> length d' = N \<and> m_ok N R' \<and> triangular_upto N (i + 1) R' \<and>
    orthogonal N Q' \<and> m_mul N Q' R' = A \<and> (\<forall>c < i + 1. 0 \<le> m_at N R' c c)"
proof -
  from fill_vector [OF d i, of "\<lambda>j. m_at N R j i"] obtain d2 where
    d2: "fold (\<lambda>j (d, l). let d = d[j := m_at N R j i] in (d, l + d ! j * d ! j)) [i..<N] (d, 0) =
      (d2, \<Sum>k = 0..<N. tail i d2 k * tail i d2 k)" "length d2 = N" "\<forall>k. i \<le> k \<longrightarrow> k < N \<longrightarrow> d2 ! k = m_at N R k i" by auto
  define L where "L = (\<Sum>k = 0..<N. tail i d2 k * tail i d2 k)"
  have L: "0 \<le> L" "\<And>k. k < N \<Longrightarrow> L = 0 \<Longrightarrow> tail i d2 k = 0"
    by (auto simp: L_def sum_nonneg sum_nonneg_eq_0_iff)
  let ?e = "(tail i d2)(i := tail i d2 i - sqrt L)"
  have dl: "sqrt L * sqrt L = (\<Sum>k = 0..<N. tail i d2 k * tail i d2 k)" using L(1) by (simp add: L_def)
  have l2: "(\<Sum>k = 0..<N. ?e k * ?e k) = L + (L - d2 ! i * sqrt L * 2)"
  proof -
    have "(\<Sum>k = 0..<N. ?e k * ?e k) = 2 * (sqrt L * sqrt L - tail i d2 i * sqrt L)"
      by (rule reflect_vector(1) [OF i dl refl])
    then show ?thesis using L(1) by (simp only: real_sqrt_mult_self) (simp add: tail_def algebra_simps)
  qed
  have keep: "triangular_upto N (i + 1) R \<and> (\<forall>c < i + 1. 0 \<le> m_at N R c c)"
    if "\<And>k. k < N \<Longrightarrow> k \<noteq> i \<Longrightarrow> tail i d2 k = 0" "0 \<le> tail i d2 i"
  proof -
    have "m_at N R r i = 0" if "i < r" "r < N" for r
      using \<open>\<And>k. k < N \<Longrightarrow> k \<noteq> i \<Longrightarrow> tail i d2 k = 0\<close> [of r] d2(3) that by (simp add: tail_def)
    moreover have "0 \<le> m_at N R i i" using that(2) d2(3) i by (simp add: tail_def)
    ultimately show ?thesis using R(2,5) by (auto simp: triangular_upto_def less_Suc_eq)
  qed
  consider "L \<le> 0" | "0 < L" "L + (L - d2 ! i * sqrt L * 2) \<le> 0" | "0 < L" "0 < L + (L - d2 ! i * sqrt L * 2)"
    by linarith
  then show ?thesis
  proof cases
    case 1
    then have "just_R_round N 0 i (d, R) = (d2, R)" using d2(1) by (simp add: just_R_round_def L_def [symmetric])
    with keep L 1 d2(2) R i show ?thesis by (intro exI [of _ d2] exI [of _ R] exI [of _ Q]) auto
  next
    case 2
    have "(\<Sum>k = 0..<N. ?e k * ?e k) \<le> 0" unfolding l2 by (rule 2(2))
    moreover have "0 \<le> (\<Sum>k = 0..<N. ?e k * ?e k)" by (rule sum_nonneg) simp
    ultimately have "(\<Sum>k = 0..<N. ?e k * ?e k) = 0" by (rule order_antisym)
    then have z: "\<And>k. k < N \<Longrightarrow> ?e k = 0" by (simp only: sum_nonneg_eq_0_iff finite_atLeastLessThan zero_le_square) auto
    have "tail i d2 i = sqrt L" using z [OF i] by simp
    moreover have "tail i d2 k = 0" if "k < N" "k \<noteq> i" for k using z [OF that(1)] that(2) by simp
    moreover have "just_R_round N 0 i (d, R) = (d2[i := d2 ! i - sqrt L], R)"
      using d2(1) 2 by (simp add: just_R_round_def L_def [symmetric] Let_def)
    ultimately show ?thesis using keep L(1) d2(2) R by auto
  next
    case 3
    let ?l = "2 / (L + (L - d2 ! i * sqrt L * 2))"
    have num: "?l * (sqrt L * sqrt L - d2 ! i * sqrt L) = 1" using reflect_factor(2) [of 0 L "d2 ! i"] 3 by simp
    define H where "H = refl_mat N ?l (tail i (d2[i := d2 ! i - sqrt L]))"
    note step = reflect_round [OF R(1,2) i d2(2,3) dl num, folded H_def]
    have r: "just_R_round N 0 i (d, R) = (d2[i := d2 ! i - sqrt L], m_mul N H R)"
      using 3 d2(1) step(1) by (simp add: just_R_round_def L_def [symmetric] Let_def)
    have "m_mul N (m_mul N Q H) (m_mul N H R) = m_mul N Q (m_mul N (m_trans N H) (m_mul N H R))"
      by (simp add: m_mul_assoc H_def refl_mat_trans)
    also have "\<dots> = A" using orthogonal_cancel [OF step(2) R(1)] R(4) by simp
    finally have "m_mul N (m_mul N Q H) (m_mul N H R) = A" .
    moreover have "\<forall>c < i + 1. 0 \<le> m_at N (m_mul N H R) c c" using step(5,6) R(5) i L(1) by (auto simp: less_Suc_eq)
    ultimately show ?thesis using r d2(2) step(4) orthogonal_mul [OF R(3) step(2)]
      by (intro exI [of _ "d2[i := d2 ! i - sqrt L]"] exI [of _ "m_mul N H R"] exI [of _ "m_mul N Q H"]) simp
  qed
qed

text \<open>With no tolerance \<open>householder_just_R\<close> leaves an upper triangular matrix that an orthogonal matrix
  turns back into the input, whatever the input; its diagonal is not negative but for the last entry, so
  that the determinant of a matrix larger than four, the product of the diagonal, has the sign of that
  entry.\<close>
theorem just_R_triangular:
  assumes "m_ok N A" "R = householder_just_R N 0 A"
  shows "(\<forall>r < N. \<forall>c < r. m_at N R r c = 0) \<and> (\<forall>c < N - 1. 0 \<le> m_at N R c c) \<and>
    (\<exists>Q. m_mul N Q (m_trans N Q) = m_eye N \<and> m_mul N (m_trans N Q) Q = m_eye N \<and> m_mul N Q R = A) \<and>
    (4 < N \<longrightarrow> m_det N 0 A = (\<Prod>k = 0..<N. m_at N R k k))"
proof -
  have "\<exists>d R Q. fold (just_R_round N 0) [0..<n] (v_new N 0, A) = (d, R) \<and> length d = N \<and> m_ok N R \<and> triangular_upto N n R \<and>
      orthogonal N Q \<and> m_mul N Q R = A \<and> (\<forall>c < n. 0 \<le> m_at N R c c)" if "n \<le> N" for n
    using that
  proof (induction n)
    case 0
    show ?case using assms(1) orthogonal_eye by (auto simp: triangular_upto_def intro!: exI [of _ "m_eye N"])
  next
    case (Suc n)
    then obtain d R Q where IH: "fold (just_R_round N 0) [0..<n] (v_new N 0, A) = (d, R)" "length d = N" "m_ok N R"
      "triangular_upto N n R" "orthogonal N Q" "m_mul N Q R = A" "\<And>c. c < n \<Longrightarrow> 0 \<le> m_at N R c c" by auto
    obtain d' R' Q' where "just_R_round N 0 n (d, R) = (d', R')" "length d' = N" "m_ok N R'" "triangular_upto N (n + 1) R'"
      "orthogonal N Q'" "m_mul N Q' R' = A" "\<forall>c < n + 1. 0 \<le> m_at N R' c c"
      using just_R_round_ok [OF IH(3-7) _ IH(2)] Suc.prems by auto
    then show ?case using IH(1) by (intro exI [of _ d'] exI [of _ R'] exI [of _ Q']) simp
  qed
  from this [of "N - 1"] obtain d Q where
    R: "triangular_upto N (N - 1) R" "orthogonal N Q" "m_mul N Q R = A" "\<forall>c < N - 1. 0 \<le> m_at N R c c"
    by (auto simp: assms(2) householder_just_R_def)
  have "m_det N 0 A = (\<Prod>k = 0..<N. m_at N R k k)" if "4 < N"
    using that by (simp add: m_det_def assms(2) Let_def m_trace_prod)
  with R show ?thesis by (auto simp: triangular_upto_def orthogonal_def)
qed

theorem just_R_triangular_witness: "m_at 2 (householder_just_R 2 0 [0, 1, 1, 0]) 1 0 = 0"
  using just_R_triangular [of "[0, 1, 1, 0]" 2 "householder_just_R 2 0 [0, 1, 1, 0]"] by simp

section \<open>The adjugate\<close>

lemma m_adj_row:
  assumes "r < N" "m_ok N m" "n \<le> N"
  shows "\<exists>m'. fold (\<lambda>c (i, res).
      let res = res[i := g c]; res = (if (r + c) mod 2 = 1 then res[i := - (res ! i)] else res) in (i + 1, res)) [0..<n] (r * N, m) =
      (r * N + n, m') \<and> m_ok N m' \<and>
      (\<forall>i < N. \<forall>j < N. m_at N m' i j = (if i = r \<and> j < n then if (r + j) mod 2 = 1 then - g j else g j else m_at N m i j))"
  using assms(3)
proof (induction n)
  case (Suc n)
  then obtain m' where IH: "fold (\<lambda>c (i, res).
      let res = res[i := g c]; res = (if (r + c) mod 2 = 1 then res[i := - (res ! i)] else res) in (i + 1, res)) [0..<n] (r * N, m) =
      (r * N + n, m')" "m_ok N m'"
    "\<forall>i < N. \<forall>j < N. m_at N m' i j = (if i = r \<and> j < n then if (r + j) mod 2 = 1 then - g j else g j else m_at N m i j)" by auto
  have n: "n < N" "r * N + n < length m'" using Suc.prems assms(1) IH(2) position_less [of r N n] by auto
  let ?m = "m_set N m' r n (if (r + n) mod 2 = 1 then - g n else g n)"
  have "fold (\<lambda>c (i, res).
      let res = res[i := g c]; res = (if (r + c) mod 2 = 1 then res[i := - (res ! i)] else res) in (i + 1, res)) [0..<Suc n] (r * N, m) =
      (r * N + Suc n, ?m)"
    using IH(1) n assms(1) by (auto simp: Let_def m_set_def lookup_table_position)
  moreover have "\<forall>i < N. \<forall>j < N. m_at N ?m i j =
      (if i = r \<and> j < Suc n then if (r + j) mod 2 = 1 then - g j else g j else m_at N m i j)"
    using IH(2,3) n assms(1) by (auto simp: m_at_set less_Suc_eq)
  ultimately show ?case using IH(2) by auto
qed (simp add: assms(2))

lemma m_adj_ok:
  assumes "r < N" "c < N"
  shows "m_ok N (m_adj N epsilon m) \<and> m_at N (m_adj N epsilon m) r c =
    (if (r + c) mod 2 = 1 then - m_det (N - 1) epsilon (m_minor (N - 1) m c r) else m_det (N - 1) epsilon (m_minor (N - 1) m c r))"
proof -
  let ?step = "\<lambda>r (i, res). fold (\<lambda>c (i, res).
             let res = res[i := m_det (N - 1) epsilon (m_minor (N - 1) m c r)];
                 res = (if (r + c) mod 2 = 1 then res[i := - (res ! i)] else res)
             in (i + 1, res)) [0..<N] (i, res)"
  have "\<exists>m'. fold ?step [0..<n] (0, m_new N 0) = (n * N, m') \<and> m_ok N m' \<and> (\<forall>i < n. \<forall>j < N. m_at N m' i j =
      (if (i + j) mod 2 = 1 then - m_det (N - 1) epsilon (m_minor (N - 1) m j i) else m_det (N - 1) epsilon (m_minor (N - 1) m j i)))"
    if "n \<le> N" for n
    using that
  proof (induction n)
    case (Suc n)
    then obtain m' where IH: "fold ?step [0..<n] (0, m_new N 0) = (n * N, m')" "m_ok N m'" "\<forall>i < n. \<forall>j < N. m_at N m' i j =
      (if (i + j) mod 2 = 1 then - m_det (N - 1) epsilon (m_minor (N - 1) m j i) else m_det (N - 1) epsilon (m_minor (N - 1) m j i))" by auto
    have "fold ?step [0..<Suc n] (0, m_new N 0) = ?step n (n * N, m')"
      by (simp only: upt_Suc fold_append fold_simps if_True le0 comp_def IH(1))
    with m_adj_row [OF _ IH(2) order_refl, of n "\<lambda>c. m_det (N - 1) epsilon (m_minor (N - 1) m c n)"] IH(3) Suc.prems
    show ?case by (auto simp: less_Suc_eq add.commute)
  qed simp
  from this [OF order_refl] assms show ?thesis by (auto simp: m_adj_def)
qed

end
