(* ===== verification/Zi_Adjugate.thy ===== *)
theory Zi_Adjugate
  imports Zi_Householder
begin

text \<open>
  The adjugate of \<^verbatim>\<open>zi/vl/mat_functions.hpp\<close>, computed from the determinants of the minors, against the
  closed formulas of \<^verbatim>\<open>zi/vl/detail/invert.hpp\<close>; the sign of the determinant above size four; and the
  factorisation from the other side, \<open>left_householder\<close>.
\<close>

section \<open>Adjugates of small matrices\<close>

lemma m_minor_list:
  "m_minor N m r c = map (\<lambda>k. m ! (skip r (k div N) * (N + 1) + skip c (k mod N))) [0..<N * N]"
proof (cases "N = 0")
  case False
  show ?thesis
  proof (rule m_eqI [where N = N])
    show "m_ok N (m_minor N m r c)" using m_minor_ok [of 0 N 0 m r c] False by simp
    fix i j assume "i < N" "j < N"
    then show "m_at N (m_minor N m r c) i j =
        m_at N (map (\<lambda>k. m ! (skip r (k div N) * (N + 1) + skip c (k mod N))) [0..<N * N]) i j"
      using m_minor_ok [of i N j m r c] by (simp add: m_at_position position_less skip_def)
  qed simp
qed (simp add: m_minor_def m_new_def)

lemma m_adj_list:
  "0 < N \<Longrightarrow> m_adj N epsilon m = map (\<lambda>k. if (k div N + k mod N) mod 2 = 1
     then - m_det (N - 1) epsilon (m_minor (N - 1) m (k mod N) (k div N))
     else m_det (N - 1) epsilon (m_minor (N - 1) m (k mod N) (k div N))) [0..<N * N]"
proof (rule m_eqI [where N = N])
  assume "0 < N"
  then show "m_ok N (m_adj N epsilon m)" using m_adj_ok [of 0 N 0] by simp
  fix r c assume "r < N" "c < N"
  then show "m_at N (m_adj N epsilon m) r c = m_at N (map (\<lambda>k. if (k div N + k mod N) mod 2 = 1
     then - m_det (N - 1) epsilon (m_minor (N - 1) m (k mod N) (k div N))
     else m_det (N - 1) epsilon (m_minor (N - 1) m (k mod N) (k div N))) [0..<N * N]) r c"
    using m_adj_ok [of r N c epsilon m] by (simp only: m_at_position) (simp add: position_less)
qed simp

lemma adj4_cofactors:
  assumes "m_ok 4 m"
  shows "m_adj 4 epsilon m = cofactors4 m"
proof -
  obtain m0 m1 m2 m3 m4 m5 m6 m7 m8 m9 m10 m11 m12 m13 m14 m15 where
    m: "m = [m0, m1, m2, m3, m4, m5, m6, m7, m8, m9, m10, m11, m12, m13, m14, m15]"
    using m_elems4 [OF assms] by blast
  show ?thesis
    by (simp add: m m_adj_list m_minor_list m_det_def det3_def cofactors4_def upt_rec skip_def algebra_simps)
qed

text \<open>C31: The adjugate, computed from the determinants of the minors, times the matrix is the determinant
  times the unit matrix, on both sides, for sizes three and four; for size four it is the same matrix as
  the cofactors that the closed formula of \<open>invert\<close> computes.\<close>
theorem adjugate_small:
  assumes "m_ok N m" "N \<in> {3, 4}"
  shows "m_mul N (m_adj N epsilon m) m = m_eye_of N (m_det N epsilon m) \<and>
    m_mul N m (m_adj N epsilon m) = m_eye_of N (m_det N epsilon m) \<and> (N = 4 \<longrightarrow> m_adj N epsilon m = cofactors4 m)"
proof (cases "N = 3")
  case True
  then obtain a b c d e f g h i where m: "m = [a, b, c, d, e, f, g, h, i]" using m_elems3 assms(1) by blast
  have adj: "m_adj 3 epsilon m = [e * i - f * h, c * h - b * i, b * f - c * e, f * g - d * i, a * i - c * g, c * d - a * f,
      d * h - e * g, b * g - a * h, a * e - b * d]"
    by (simp add: m m_adj_list m_minor_list m_det_def det2_def upt_rec skip_def algebra_simps)
  have det: "m_det 3 epsilon m = a * (e * i - f * h) + b * (f * g - d * i) + c * (d * h - e * g)"
    by (simp add: m_det_def m det3_def algebra_simps)
  show ?thesis unfolding True adj det by (simp add: m m_mul_list m_eye_of_list upt_rec algebra_simps)
next
  case False
  then show ?thesis using assms adj4_cofactors [of m epsilon] cofactors4_mul [of m] by (simp add: m_det_def)
qed

theorem adjugate_small_witness: "m_adj 4 0 (m_eye 4) = cofactors4 (m_eye 4)"
  using adjugate_small [of "m_eye 4" 4 0] by simp

section \<open>The sign of the determinant\<close>

text \<open>Each reflection changes the sign of the determinant, which nothing undoes: a diagonal matrix with
  one negative entry has the determinant of the unit matrix.\<close>

lemma just_R_round_diag:
  assumes "length d = N" "i < N" "\<And>r. i \<le> r \<Longrightarrow> r < N \<Longrightarrow> m_at N R r i = (if r = i then x else 0)" "m_ok N R" "triangular_upto N i R"
  shows "\<exists>d'. just_R_round N 0 i (d, R) = (d', mat_of N (\<lambda>r c. if r = i \<and> x < 0 then - m_at N R r c else m_at N R r c)) \<and> length d' = N"
proof -
  from fill_vector [OF assms(1,2), of "\<lambda>j. m_at N R j i"] obtain d2 where
    d2: "fold (\<lambda>j (d, l). let d = d[j := m_at N R j i] in (d, l + d ! j * d ! j)) [i..<N] (d, 0) =
      (d2, \<Sum>k = 0..<N. tail i d2 k * tail i d2 k)" "length d2 = N" "\<forall>k. i \<le> k \<longrightarrow> k < N \<longrightarrow> d2 ! k = m_at N R k i" by auto
  have t: "tail i d2 k = (if k = i then x else 0)" if "k < N" for k using d2(3) assms(3) that by (auto simp: tail_def)
  have L: "(\<Sum>k = 0..<N. tail i d2 k * tail i d2 k) = x * x"
  proof -
    have "(\<Sum>k = 0..<N. tail i d2 k * tail i d2 k) = (\<Sum>k = 0..<N. if k = i then x * x else 0)" by (intro sum.cong) (auto simp: t)
    then show ?thesis using assms(2) by simp
  qed
  have di: "d2 ! i = x" using d2(3) assms(2,3) by simp
  show ?thesis
  proof (cases "x < 0")
    case False
    then have "just_R_round N 0 i (d, R) = (if x = 0 then d2 else d2[i := d2 ! i - x], R)"
      using d2(1) by (simp add: just_R_round_def L di Let_def zero_less_mult_iff)
    moreover have "mat_of N (\<lambda>r c. if r = i \<and> x < 0 then - m_at N R r c else m_at N R r c) = R"
      using assms(4) False by (intro m_eqI [where N = N]) (auto simp: mat_of_entry)
    ultimately show ?thesis using d2(2) by simp
  next
    case True
    then have x: "x \<noteq> 0" "0 < x * x" by (auto simp: zero_less_mult_iff)
    let ?l = "2 / (4 * (x * x))"
    have dl: "- x * - x = (\<Sum>k = 0..<N. tail i d2 k * tail i d2 k)" by (simp add: L)
    have l: "?l * (- x * - x - d2 ! i * - x) = 1" using x(1) by (simp add: di)
    define e where "e = tail i (d2[i := d2 ! i - - x])"
    note step = reflect_round [OF assms(4,5,2) d2(2,3) dl l, folded e_def]
    let ?H = "refl_mat N ?l e"
    have r: "just_R_round N 0 i (d, R) = (d2[i := d2 ! i - - x], m_mul N ?H R)"
      using d2(1) x(2) True step(1) by (simp add: just_R_round_def L di Let_def)
    have e: "e k = (if k = i then 2 * x else 0)" if "k < N" for k
      using t [OF that] d2(2) that assms(2) by (auto simp: e_def tail_def nth_list_update di)
    have "m_mul N ?H R = mat_of N (\<lambda>r c. if r = i \<and> x < 0 then - m_at N R r c else m_at N R r c)"
    proof (rule m_eqI [where N = N])
      fix r c assume rc: "r < N" "c < N"
      have "(\<Sum>k = 0..<N. e k * m_at N R k c) = (\<Sum>k = 0..<N. if k = i then 2 * x * m_at N R i c else 0)"
        by (intro sum.cong) (auto simp: e)
      also have "\<dots> = 2 * x * m_at N R i c" using assms(2) by simp
      finally show "m_at N (m_mul N ?H R) r c = m_at N (mat_of N (\<lambda>r c. if r = i \<and> x < 0 then - m_at N R r c else m_at N R r c)) r c"
        using rc x(1) True e [OF rc(1)] by (simp add: refl_mat_left mat_of_entry)
    qed simp_all
    then show ?thesis using r d2(2) by simp
  qed
qed

text \<open>Above size four \<open>det\<close> loses signs: each reflection changes the sign of the determinant, and nothing
  undoes it, so that the determinant of a diagonal matrix comes out as the product of the absolute values
  of its entries, only the last one with its sign.\<close>
theorem det_diagonal_loses_sign:
  assumes "4 < N" "length xs = N"
  shows "m_det N 0 (m_diag N xs) = (\<Prod>k = 0..<N - 1. \<bar>xs ! k\<bar>) * xs ! (N - 1)"
proof -
  let ?D = "\<lambda>n. mat_of N (\<lambda>r c. if r = c then if r < n then \<bar>xs ! r\<bar> else xs ! r else 0)"
  have start: "m_diag N xs = ?D 0"
    using m_diag_entry [of _ N _ xs] assms(1) by (intro m_eqI [where N = N]) (auto simp: mat_of_entry)
  have "\<exists>d. fold (just_R_round N 0) [0..<n] (v_new N 0, ?D 0) = (d, ?D n) \<and> length d = N" if "n \<le> N" for n
    using that
  proof (induction n)
    case (Suc n)
    then obtain d where IH: "fold (just_R_round N 0) [0..<n] (v_new N 0, ?D 0) = (d, ?D n)" "length d = N" by auto
    have "\<exists>d'. just_R_round N 0 n (d, ?D n) =
        (d', mat_of N (\<lambda>r c. if r = n \<and> xs ! n < 0 then - m_at N (?D n) r c else m_at N (?D n) r c)) \<and> length d' = N"
      using IH(2) Suc.prems by (intro just_R_round_diag) (auto simp: mat_of_entry triangular_upto_def)
    moreover have "mat_of N (\<lambda>r c. if r = n \<and> xs ! n < 0 then - m_at N (?D n) r c else m_at N (?D n) r c) = ?D (Suc n)"
      by (rule m_eqI [where N = N]) (auto simp: mat_of_entry less_Suc_eq)
    ultimately show ?case using IH(1) by auto
  qed simp
  from this [of "N - 1"] have "householder_just_R N 0 (m_diag N xs) = ?D (N - 1)"
    by (auto simp: householder_just_R_def start)
  then have "m_det N 0 (m_diag N xs) = (\<Prod>k = 0..<N. m_at N (?D (N - 1)) k k)"
    using assms(1) by (simp add: m_det_def m_trace_prod)
  also have "\<dots> = (\<Prod>k = 0..<Suc (N - 1). if k < N - 1 then \<bar>xs ! k\<bar> else xs ! k)"
    using assms(1) by (intro prod.cong) (auto simp: mat_of_entry)
  also have "\<dots> = (\<Prod>k = 0..<N - 1. \<bar>xs ! k\<bar>) * xs ! (N - 1)"
    by (simp only: prod.atLeast0_lessThan_Suc) simp
  finally show ?thesis .
qed

theorem det_diagonal_loses_sign_witness: "m_det 5 0 (m_diag 5 [- 1, 1, 1, 1, 1]) = 1"
  using det_diagonal_loses_sign [of 5 "[- 1, 1, 1, 1, 1]"] by (simp add: numeral_eq_Suc)

section \<open>From the other side\<close>

text \<open>\<open>left_householder\<close> works on the rows of the transposed matrix.\<close>

definition lh_inv :: "nat \<Rightarrow> mat \<Rightarrow> nat \<Rightarrow> mat \<Rightarrow> mat \<Rightarrow> bool" where
  "lh_inv N A i R Q \<longleftrightarrow> m_ok N R \<and> orthogonal N Q \<and> m_mul N R Q = A \<and> triangular_upto N i (m_trans N R)"

lemma lh_round_ok:
  assumes inv: "lh_inv N A i R Q" and i: "i < N" and d: "length d = N" and eps: "0 \<le> epsilon"
  shows "case lh_round N epsilon i (d, R, Q) of
      Inl s \<Rightarrow> s = (R, Q)
    | Inr (d', R', Q') \<Rightarrow> length d' = N \<and> lh_inv N A (i + 1) R' Q'"
proof -
  let ?T = "m_trans N R"
  from fill_vector [OF d i, of "\<lambda>j. m_at N R i j"] obtain d2 where
    d2: "fold (\<lambda>j (d, l). let d = d[j := m_at N R i j] in (d, l + d ! j * d ! j)) [i..<N] (d, 0) =
      (d2, \<Sum>k = 0..<N. tail i d2 k * tail i d2 k)" "length d2 = N" "\<forall>k. i \<le> k \<longrightarrow> k < N \<longrightarrow> d2 ! k = m_at N R i k" by auto
  then have d2': "\<forall>k. i \<le> k \<longrightarrow> k < N \<longrightarrow> d2 ! k = m_at N ?T k i" using i by (simp add: m_trans_entry)
  define L where "L = (\<Sum>k = 0..<N. tail i d2 k * tail i d2 k)"
  show ?thesis
  proof (cases "L \<le> epsilon \<or> L - d2 ! i * sqrt L \<le> epsilon")
    case True
    then show ?thesis using d2(1) by (auto simp: lh_round_def L_def [symmetric] Let_def)
  next
    case False
    let ?l = "1 / (L - d2 ! i * sqrt L)"
    have L: "sqrt L * sqrt L = L" using False eps by simp
    have l: "?l * (sqrt L * sqrt L - d2 ! i * sqrt L) = 1" unfolding L using False eps by simp
    have ok: "m_ok N R" "m_ok N ?T" "orthogonal N Q" "m_mul N R Q = A" "triangular_upto N i ?T" "m_ok N Q"
      using inv by (auto simp: lh_inv_def orthogonal_def)
    define e where "e = d2[i := d2 ! i - sqrt L]"
    define H where "H = refl_mat N ?l (tail i e)"
    have dl: "sqrt L * sqrt L = (\<Sum>k = 0..<N. tail i d2 k * tail i d2 k)" using L by (simp add: L_def)
    note step = reflect_round [OF ok(2,5) i d2(2) d2' dl l, folded e_def, folded H_def]
    have T: "m_trans N (m_mul N R H) = m_mul N H ?T" by (simp add: m_trans_mul H_def refl_mat_trans)
    have above: "m_at N (m_mul N R H) r c = m_at N R r c" if "r < i" "c < N" for r c
      using step(6) [OF that(2,1)] m_trans_entry [of c N r "m_mul N R H"] m_trans_entry [of c N r R] that i by (simp add: T)
    have R': "reflect_rows (-) N e ?l i i R = m_mul N R H"
      using reflect_rows_ok [where f = "(-)" and s = 1 and N = N and A = R and i = i and d = e and l = ?l and ?j0.0 = i] ok(1) i above
      by (intro m_eqI [where N = N]) (auto simp: H_def)
    have Q': "reflect_columns (-) N e ?l i 0 Q = m_mul N H Q"
      using reflect_columns_ok [where f = "(-)" and s = 1 and N = N and A = Q and i = i and d = e and l = ?l and ?j0.0 = 0] ok(6) i
      by (intro m_eqI [where N = N]) (auto simp: H_def)
    have r: "lh_round N epsilon i (d, R, Q) = Inr (e, m_mul N R H, m_mul N H Q)"
      using False d2(1) R' Q' by (simp add: lh_round_def L_def [symmetric] e_def Let_def)
    have "m_mul N (m_mul N R H) (m_mul N H Q) = m_mul N R (m_mul N (m_trans N H) (m_mul N H Q))"
      by (simp add: m_mul_assoc H_def refl_mat_trans)
    also have "\<dots> = A" using orthogonal_cancel [OF step(2) ok(6)] ok(4) by simp
    finally have "lh_inv N A (i + 1) (m_mul N R H) (m_mul N H Q)"
      using step(4) orthogonal_mul [OF step(2) ok(3)] by (simp add: lh_inv_def T)
    then show ?thesis using r d2(2) by (simp add: e_def)
  qed
qed

lemma lh_rounds_ok:
  assumes "lh_inv N A i R Q" "length d = N" "0 \<le> epsilon" "i \<le> n" "n \<le> N" "lh_rounds N epsilon [i..<n] (d, R, Q) = (ok, R', Q')"
  shows "\<exists>j \<le> n. lh_inv N A j R' Q' \<and> (ok \<longrightarrow> j = n)"
  using assms
proof (induction "n - i" arbitrary: i d Q R)
  case (Suc m)
  then have i: "i < n" "[i..<n] = i # [i + 1..<n]" by (simp_all add: upt_conv_Cons)
  note step = lh_round_ok [OF Suc.prems(1) _ Suc.prems(2,3)]
  show ?case
  proof (cases "lh_round N epsilon i (d, R, Q)")
    case (Inl s)
    with step i Suc.prems(5) have "s = (R, Q)" by simp
    with Inl i Suc.prems show ?thesis by (auto intro!: exI [of _ i])
  next
    case (Inr s)
    obtain d2 R2 Q2 where s: "s = (d2, R2, Q2)" by (cases s)
    with Inr step i Suc.prems(5) have "length d2 = N" "lh_inv N A (i + 1) R2 Q2" by simp_all
    moreover have "lh_rounds N epsilon [i + 1..<n] (d2, R2, Q2) = (ok, R', Q')" using Suc.prems(6) Inr s i(2) by simp
    ultimately show ?thesis using Suc.hyps i(1) Suc.prems(3,5) by (intro Suc.hyps(1) [of "i + 1"]) auto
  qed
qed auto

text \<open>The factorisation from the other side: \<open>R\<close> is lower triangular and stands on the left.\<close>

lemma left_householder_lq:
  assumes "m_ok N A" "0 \<le> epsilon" "left_householder N epsilon A Q0 True = (ok, R, Q)"
  shows "m_ok N R \<and> m_mul N R Q = A \<and> orthogonal N Q \<and> (ok \<longrightarrow> (\<forall>r < N. \<forall>c < N. r < c \<longrightarrow> m_at N R r c = 0))"
proof -
  have start: "lh_inv N A 0 A (m_eye N)" using assms(1) by (simp add: lh_inv_def orthogonal_eye triangular_upto_def)
  have "lh_rounds N epsilon [0..<N - 1] (v_new N 0, A, m_eye N) = (ok, R, Q)"
    using assms(3) by (simp add: left_householder_def Let_def)
  from lh_rounds_ok [OF start _ assms(2) _ _ this] obtain j where "lh_inv N A j R Q" "ok \<longrightarrow> j = N - 1" by auto
  then show ?thesis by (auto simp: lh_inv_def triangular_upto_def m_trans_entry)
qed

end
