(* ===== verification/Zi_Bidiagonal.thy ===== *)
theory Zi_Bidiagonal
  imports Zi_Adjugate
begin

text \<open>
  The bidiagonalisation of \<^verbatim>\<open>zi/vl/detail/householder.hpp\<close>: one reflection of the columns and one of the rows in
  turn, on scaled vectors. The vectors \<open>d\<close> are static in the code and passed on here; their elements below \<open>i\<close>
  are never read. \<open>householder_inverse\<close>, which gets half way, is here as well. The output to \<open>std::cout\<close> is left
  out.
\<close>

section \<open>The code\<close>

text \<open>The result is the new diagonal element; column \<open>i\<close> of \<open>A\<close> itself is left as it was.\<close>

definition left_iteration :: "nat \<Rightarrow> real \<Rightarrow> nat \<Rightarrow> vec \<times> mat \<times> mat \<Rightarrow> real \<times> vec \<times> mat \<times> mat" where
  "left_iteration N epsilon i = (\<lambda>(d, A, U).
     let (d, s) = fold (\<lambda>j (d, s). let d = d[j := m_at N A j i] in (d, s + \<bar>d ! j\<bar>)) [i..<N] (d, 0)
     in if s \<le> epsilon then (0, d, A, U)
        else
          (let sinv = 1 / s;
               (d, l) = fold (\<lambda>j (d, l). let d = d[j := d ! j * sinv] in (d, l + d ! j * d ! j)) [i..<N] (d, 0);
               dl = sqrt l;
               dl = (if d ! i > 0 then - dl else dl);
               l = l - d ! i * dl;
               d = d[i := d ! i - dl];
               l = 1 / l;
               A = reflect_columns (-) N d l i (i + 1) A;
               U = reflect_rows (-) N d l i 0 U
           in (s * dl, d, A, U)))"

text \<open>Here \<open>l\<close> has the other sign, and the reflections add.\<close>

definition right_iteration :: "nat \<Rightarrow> real \<Rightarrow> nat \<Rightarrow> vec \<times> mat \<times> mat \<Rightarrow> real \<times> vec \<times> mat \<times> mat" where
  "right_iteration N epsilon i = (\<lambda>(d, A, V).
     let (d, s) = fold (\<lambda>j (d, s). let d = d[j := m_at N A i j] in (d, s + \<bar>d ! j\<bar>)) [i + 1..<N] (d, 0)
     in if s \<le> epsilon then (0, d, A, V)
        else
          (let sinv = 1 / s;
               (d, l) = fold (\<lambda>j (d, l). let d = d[j := d ! j * sinv] in (d, l + d ! j * d ! j)) [i + 1..<N] (d, 0);
               dl = sqrt l;
               dl = (if d ! (i + 1) > 0 then - dl else dl);
               l = d ! (i + 1) * dl - l;
               d = d[i + 1 := d ! (i + 1) - dl];
               l = 1 / l;
               A = reflect_rows (+) N d l (i + 1) (i + 1) A;
               V = reflect_rows (+) N d l (i + 1) 0 V
           in (s * dl, d, A, V)))"

definition bd_round :: "nat \<Rightarrow> real \<Rightarrow> nat \<Rightarrow> vec \<times> vec \<times> mat \<times> mat \<times> mat \<times> vec \<times> vec \<Rightarrow>
    vec \<times> vec \<times> mat \<times> mat \<times> mat \<times> vec \<times> vec" where
  "bd_round N epsilon i = (\<lambda>(dl, dr, A, U, V, diagonal, super).
     let (x, dl, A, U) = left_iteration N epsilon i (dl, A, U);
         diagonal = diagonal[i := x]
     in if i < N - 1
        then (let (y, dr, A, V) = right_iteration N epsilon i (dr, A, V) in (dl, dr, A, U, V, diagonal, super[i := y]))
        else (dl, dr, A, U, V, diagonal, super))"

definition bidiagonalize :: "nat \<Rightarrow> real \<Rightarrow> mat \<Rightarrow> vec \<Rightarrow> vec \<Rightarrow> bool \<times> mat \<times> mat \<times> mat \<times> vec \<times> vec" where
  "bidiagonalize N epsilon A diagonal super =
     (let U = m_eye N; V = m_eye N;
          (dl, dr, A, U, V, diagonal, super) =
            fold (bd_round N epsilon) [0..<N] (v_new N 0, v_new N 0, A, U, V, diagonal, super);
          A = m_new N 0;
          A = fold (\<lambda>i A. let A = m_set N A i i (diagonal ! i)
                in if i < N - 1 then m_set N A i (i + 1) (super ! i) else A) [0..<N] A
      in (True, A, U, V, diagonal, super))"

text \<open>Two fragments of the same, for trying them out.\<close>

definition householder2 :: "nat \<Rightarrow> real \<Rightarrow> mat \<Rightarrow> bool \<times> mat \<times> mat" where
  "householder2 N epsilon R =
     (let Q = m_eye N; (x, d, R, Q) = fold (\<lambda>i (x, d, R, Q). left_iteration N epsilon i (d, R, Q)) [0..<1] (0, v_new N 0, R, Q)
      in (True, Q, R))"

definition householder3 :: "nat \<Rightarrow> real \<Rightarrow> mat \<Rightarrow> bool \<times> mat \<times> mat" where
  "householder3 N epsilon R =
     (let Q = m_eye N; (x, d, R, Q) = fold (\<lambda>i (x, d, R, Q). right_iteration N epsilon i (d, R, Q)) [0..<N - 1] (0, v_new N 0, R, Q)
      in (True, Q, R))"

text \<open>\<open>householder_inverse\<close>: \<open>Q1\<close> and \<open>Q2\<close> are local to it.\<close>

fun hi_rounds :: "nat \<Rightarrow> real \<Rightarrow> nat list \<Rightarrow> mat \<times> mat \<Rightarrow> bool \<times> mat" where
  "hi_rounds N epsilon [] (A, Q2) = (True, A)"
| "hi_rounds N epsilon (i # rest) (A, Q2) =
     (let l = m_at N A i i
      in if \<bar>l\<bar> \<le> epsilon then (False, A)
         else
           (let l = 1 / l in
            hi_rounds N epsilon rest
              (fold (\<lambda>j (A, Q2).
                 let dq = m_at N A j i * l;
                     A = m_set N A j i 0
                 in (A, fold (\<lambda>k Q2. m_set N Q2 k j (m_at N Q2 k j + m_at N Q2 k i * dq)) [0..<N] Q2)) [i + 1..<N] (A, Q2))))"

definition householder_inverse :: "nat \<Rightarrow> real \<Rightarrow> mat \<Rightarrow> bool \<times> mat" where
  "householder_inverse N epsilon A =
     (let Q2 = m_eye N; A = m_transpose N A; (ok, A, Q1) = left_householder N epsilon A (m_new N 0) True
      in if \<not> ok then (False, A) else hi_rounds N epsilon [0..<N - 1] (A, Q2))"

section \<open>One reflection\<close>

text \<open>What the two loops leave that read and scale a column or a row \<open>g\<close>.\<close>

lemma read_and_scale:
  fixes g :: "nat \<Rightarrow> real"
  assumes d: "length d = N" and i: "i < N"
  defines "s \<equiv> \<Sum>k = i..<N. \<bar>g k\<bar>"
  shows "\<exists>d1. fold (\<lambda>j (d, s). let d = d[j := g j] in (d, s + \<bar>d ! j\<bar>)) [i..<N] (d, 0) = (d1, s) \<and> length d1 = N \<and>
    (0 < s \<longrightarrow> (\<exists>d2 L. fold (\<lambda>j (d, l). let d = d[j := d ! j * (1 / s)] in (d, l + d ! j * d ! j)) [i..<N] (d1, 0) = (d2, L) \<and>
      length d2 = N \<and> (\<forall>k. i \<le> k \<longrightarrow> k < N \<longrightarrow> g k = s * d2 ! k) \<and> 0 < L \<and> L = (\<Sum>k = 0..<N. tail i d2 k * tail i d2 k)))"
proof -
  obtain d1 where d1: "fold (\<lambda>j (d, s). let d = d[j := g j] in (d, s + \<bar>d ! j\<bar>)) [i..<N] (d, 0) = (d1, \<Sum>k = i..<N. \<bar>d1 ! k\<bar>)"
    "length d1 = N" "\<And>k. i \<le> k \<Longrightarrow> k < N \<Longrightarrow> d1 ! k = g k"
    using fold_fill [OF d less_imp_le [OF i] order_refl, of "\<lambda>j _. g j" abs] by auto
  have s: "(\<Sum>k = i..<N. \<bar>d1 ! k\<bar>) = s" unfolding s_def using d1(3) by (intro sum.cong) auto
  have "\<exists>d2 L. fold (\<lambda>j (d, l). let d = d[j := d ! j * (1 / s)] in (d, l + d ! j * d ! j)) [i..<N] (d1, 0) = (d2, L) \<and>
      length d2 = N \<and> (\<forall>k. i \<le> k \<longrightarrow> k < N \<longrightarrow> g k = s * d2 ! k) \<and> 0 < L \<and> L = (\<Sum>k = 0..<N. tail i d2 k * tail i d2 k)"
    if pos: "0 < s"
  proof -
    obtain d2 where d2: "fold (\<lambda>j (d, l). let d = d[j := d ! j * (1 / s)] in (d, l + d ! j * d ! j)) [i..<N] (d1, 0) =
        (d2, \<Sum>k = i..<N. d2 ! k * d2 ! k)" "length d2 = N" "\<And>k. i \<le> k \<Longrightarrow> k < N \<Longrightarrow> d2 ! k = d1 ! k * (1 / s)"
      using fold_fill [OF d1(2) less_imp_le [OF i] order_refl, of "\<lambda>j x. x * (1 / s)" "\<lambda>x. x * x"] by auto
    have g: "g k = s * d2 ! k" if "i \<le> k" "k < N" for k using d2(3) [OF that] d1(3) [OF that] pos by simp
    have "\<not> (\<forall>k \<in> {i..<N}. \<bar>g k\<bar> = 0)" using pos unfolding s_def by (metis sum.neutral less_irrefl)
    then obtain k where k: "k \<in> {i..<N}" "d2 ! k \<noteq> 0" using g by auto
    have "0 < (\<Sum>k = i..<N. d2 ! k * d2 ! k)" by (rule sum_pos2 [OF _ k(1)]) (use k(2) in \<open>auto simp: not_square_less_zero zero_less_mult_iff\<close>)
    then have "0 < (\<Sum>k = 0..<N. tail i d2 k * tail i d2 k)" using i by (simp only: sum_tail_square less_imp_le)
    moreover have "fold (\<lambda>j (d, l). let d = d[j := d ! j * (1 / s)] in (d, l + d ! j * d ! j)) [i..<N] (d1, 0) =
        (d2, \<Sum>k = 0..<N. tail i d2 k * tail i d2 k)" using d2(1) i by (simp only: sum_tail_square less_imp_le)
    ultimately show ?thesis using d2(2) g by blast
  qed
  with d1(1,2) s show ?thesis by auto
qed

text \<open>The choice of the sign keeps the factor away from zero.\<close>

lemma sign_choice:
  assumes "0 < (L :: real)" "dl = (if 0 < x then - sqrt L else sqrt L)"
  shows "dl * dl = L" "0 < L - x * dl"
proof -
  show "dl * dl = L" using assms by auto
  show "0 < L - x * dl"
  proof (cases "0 < x")
    case True
    then have "0 \<le> x * sqrt L" using assms(1) by simp
    with True assms show ?thesis by (simp add: add_pos_nonneg)
  next
    case False
    then have "x * sqrt L \<le> 0" using assms(1) by (simp add: mult_nonpos_nonneg)
    with False assms show ?thesis by simp
  qed
qed

lemma scaled_reflection:
  assumes i: "i < N" and d: "length d = N" and L: "0 < L" "L = (\<Sum>k = 0..<N. tail i d k * tail i d k)"
    and dl: "dl = (if 0 < d ! i then - sqrt L else sqrt L)"
    and y: "\<And>k. i \<le> k \<Longrightarrow> k < N \<Longrightarrow> y k = s * d ! k" and r: "i \<le> r" "r < N"
  defines "e \<equiv> tail i (d[i := d ! i - dl])" and "l \<equiv> 1 / (L - d ! i * dl)"
  shows "l * (\<Sum>k = 0..<N. e k * e k) = 2" "y r - (\<Sum>k = 0..<N. e k * y k) * l * e r = (if r = i then s * dl else 0)"
proof -
  let ?x = "tail i d"
  note sg = sign_choice [OF L(1) dl]
  have e: "e = ?x(i := ?x i - dl)" using i d by (auto simp: e_def tail_def fun_eq_iff nth_list_update)
  have xi: "?x i = d ! i" by (simp add: tail_def)
  have dd: "dl * dl = (\<Sum>k = 0..<N. ?x k * ?x k)" using sg(1) L(2) by simp
  note vec = reflect_vector [OF i dd e]
  have l1: "l * (dl * dl - ?x i * dl) = 1" unfolding xi using sg by (simp add: l_def)
  have "l * (\<Sum>k = 0..<N. e k * e k) = 2 * (l * (dl * dl - ?x i * dl))" unfolding vec(1) by simp
  then show "l * (\<Sum>k = 0..<N. e k * e k) = 2" unfolding l1 by simp
  have "(\<Sum>k = 0..<N. e k * y k) = s * (\<Sum>k = 0..<N. e k * ?x k)"
    unfolding sum_distrib_left using y by (intro sum.cong) (auto simp: e_def tail_def)
  then have "y r - (\<Sum>k = 0..<N. e k * y k) * l * e r = s * (?x r - (\<Sum>k = 0..<N. e k * ?x k) * l * e r)"
    using y [OF r] r by (simp add: tail_def algebra_simps)
  also have "\<dots> = (if r = i then s * dl else 0)" using vec(3) [OF l1, of r] by simp
  finally show "y r - (\<Sum>k = 0..<N. e k * y k) * l * e r = (if r = i then s * dl else 0)" .
qed

lemma refl_mat_0: "refl_mat N 0 e = m_eye N"
  by (rule m_eqI [where N = N]) (auto simp: refl_mat_def mat_of_entry m_eye_entry)

text \<open>A reflection that only touches indices from \<open>i\<close> on; one of factor zero is none.\<close>

definition reflection_from :: "nat \<Rightarrow> nat \<Rightarrow> mat \<Rightarrow> bool" where
  "reflection_from N i H \<longleftrightarrow> (\<exists>l d. H = refl_mat N l (tail i d)) \<and> orthogonal N H \<and> m_trans N H = H"

lemma reflection_fromI: "l * (\<Sum>k = 0..<N. tail i d k * tail i d k) = 2 \<Longrightarrow> reflection_from N i (refl_mat N l (tail i d))"
  by (auto simp: reflection_from_def orthogonal_refl refl_mat_trans)

lemma reflection_from_eye: "reflection_from N i (m_eye N)"
proof -
  have "m_eye N = refl_mat N 0 (tail i [])" by (simp add: refl_mat_0)
  moreover have "m_trans N (m_eye N) = m_eye N" by (metis refl_mat_0 refl_mat_trans)
  ultimately show ?thesis unfolding reflection_from_def using orthogonal_eye by metis
qed

lemma left_iteration_ok:
  assumes A: "m_ok N A" and U: "m_ok N U" and i: "i < N" and d: "length d = N"
  shows "\<exists>x d' A' H. left_iteration N 0 i (d, A, U) = (x, d', A', m_mul N U H) \<and> length d' = N \<and> m_ok N A' \<and>
    reflection_from N i H \<and> (\<forall>r < N. \<forall>c < N. i < c \<longrightarrow> m_at N A' r c = m_at N (m_mul N H A) r c) \<and>
    (\<forall>r < N. i \<le> r \<longrightarrow> m_at N (m_mul N H A) r i = (if r = i then x else 0))"
proof -
  let ?s = "\<Sum>k = i..<N. \<bar>m_at N A k i\<bar>"
  obtain d1 where d1: "fold (\<lambda>j (d, s). let d = d[j := m_at N A j i] in (d, s + \<bar>d ! j\<bar>)) [i..<N] (d, 0) = (d1, ?s)" "length d1 = N"
    and pos: "0 < ?s \<longrightarrow> (\<exists>d2 L. fold (\<lambda>j (d, l). let d = d[j := d ! j * (1 / ?s)] in (d, l + d ! j * d ! j)) [i..<N] (d1, 0) = (d2, L) \<and>
      length d2 = N \<and> (\<forall>k. i \<le> k \<longrightarrow> k < N \<longrightarrow> m_at N A k i = ?s * d2 ! k) \<and> 0 < L \<and> L = (\<Sum>k = 0..<N. tail i d2 k * tail i d2 k))"
    using read_and_scale [OF d i, of "\<lambda>k. m_at N A k i"] by blast
  show ?thesis
  proof (cases "0 < ?s")
    case False
    moreover have "0 \<le> ?s" by (simp add: sum_nonneg)
    ultimately have "?s = 0" by linarith
    then have "m_at N A r i = 0" if "i \<le> r" "r < N" for r using that by (auto simp: sum_nonneg_eq_0_iff)
    moreover have "left_iteration N 0 i (d, A, U) = (0, d1, A, m_mul N U (m_eye N))"
      using False d1(1) U by (simp add: left_iteration_def)
    ultimately show ?thesis using d1(2) A reflection_from_eye [of N i]
      by (intro exI [of _ 0] exI [of _ d1] exI [of _ A] exI [of _ "m_eye N"]) auto
  next
    case True
    with pos obtain d2 L where d2: "fold (\<lambda>j (d, l). let d = d[j := d ! j * (1 / ?s)] in (d, l + d ! j * d ! j)) [i..<N] (d1, 0) = (d2, L)"
      "length d2 = N" "\<And>k. i \<le> k \<Longrightarrow> k < N \<Longrightarrow> m_at N A k i = ?s * d2 ! k" "0 < L" "L = (\<Sum>k = 0..<N. tail i d2 k * tail i d2 k)" by blast
    define s dl where "s = ?s" and "dl = (if 0 < d2 ! i then - sqrt L else sqrt L)"
    define e l where "e = d2[i := d2 ! i - dl]" and "l = 1 / (L - d2 ! i * dl)"
    note sr = scaled_reflection [OF i d2(2,4,5) dl_def d2(3), folded e_def l_def s_def]
    let ?H = "refl_mat N l (tail i e)"
    let ?A = "reflect_columns (-) N e l i (i + 1) A"
    have it: "left_iteration N 0 i (d, A, U) = (s * dl, e, ?A, reflect_rows (-) N e l i 0 U)"
      using True d1(1) d2(1) by (simp add: left_iteration_def Let_def s_def dl_def e_def l_def split del: if_split)
    have U': "reflect_rows (-) N e l i 0 U = m_mul N U ?H"
      using reflect_rows_ok [where f = "(-)" and s = 1 and N = N and A = U and i = i and ?j0.0 = 0] U i
      by (intro m_eqI [where N = N]) auto
    have A': "m_ok N ?A \<and> (i < c \<longrightarrow> m_at N ?A r c = m_at N (m_mul N ?H A) r c)" if "r < N" "c < N" for r c
      using reflect_columns_ok [where f = "(-)" and s = 1 and N = N and A = A and i = i and r = r and c = c and ?j0.0 = "i + 1"] A i that by auto
    have "reflection_from N i ?H" by (rule reflection_fromI) (use sr(1) i in blast)
    moreover have "m_at N (m_mul N ?H A) r i = (if r = i then s * dl else 0)" if "r < N" "i \<le> r" for r
      using sr(2) [of r] that i by (simp add: refl_mat_left)
    ultimately show ?thesis using A' i it U' d2(2)
      by (intro exI [of _ "s * dl"] exI [of _ e] exI [of _ ?A] exI [of _ ?H]) (auto simp: e_def)
  qed
qed

lemma right_iteration_ok:
  assumes A: "m_ok N A" and V: "m_ok N V" and i: "i + 1 < N" and d: "length d = N"
  shows "\<exists>y d' A' G. right_iteration N 0 i (d, A, V) = (y, d', A', m_mul N V G) \<and> length d' = N \<and> m_ok N A' \<and>
    reflection_from N (i + 1) G \<and> (\<forall>r < N. \<forall>c < N. i < r \<longrightarrow> m_at N A' r c = m_at N (m_mul N A G) r c) \<and>
    (\<forall>c < N. i < c \<longrightarrow> m_at N (m_mul N A G) i c = (if c = i + 1 then y else 0))"
proof -
  let ?s = "\<Sum>k = i + 1..<N. \<bar>m_at N A i k\<bar>"
  obtain d1 where d1: "fold (\<lambda>j (d, s). let d = d[j := m_at N A i j] in (d, s + \<bar>d ! j\<bar>)) [i + 1..<N] (d, 0) = (d1, ?s)" "length d1 = N"
    and pos: "0 < ?s \<longrightarrow> (\<exists>d2 L. fold (\<lambda>j (d, l). let d = d[j := d ! j * (1 / ?s)] in (d, l + d ! j * d ! j)) [i + 1..<N] (d1, 0) = (d2, L) \<and>
      length d2 = N \<and> (\<forall>k. i + 1 \<le> k \<longrightarrow> k < N \<longrightarrow> m_at N A i k = ?s * d2 ! k) \<and> 0 < L \<and> L = (\<Sum>k = 0..<N. tail (i + 1) d2 k * tail (i + 1) d2 k))"
    using read_and_scale [OF d i, of "\<lambda>k. m_at N A i k"] by blast
  show ?thesis
  proof (cases "0 < ?s")
    case False
    moreover have "0 \<le> ?s" by (simp add: sum_nonneg)
    ultimately have "?s = 0" by linarith
    then have "m_at N A i c = 0" if "i < c" "c < N" for c using that by (auto simp: sum_nonneg_eq_0_iff)
    moreover have "right_iteration N 0 i (d, A, V) = (0, d1, A, m_mul N V (m_eye N))"
      using False d1(1) V by (simp add: right_iteration_def)
    ultimately show ?thesis using d1(2) A reflection_from_eye [of N "i + 1"]
      by (intro exI [of _ 0] exI [of _ d1] exI [of _ A] exI [of _ "m_eye N"]) auto
  next
    case True
    with pos obtain d2 L where d2: "fold (\<lambda>j (d, l). let d = d[j := d ! j * (1 / ?s)] in (d, l + d ! j * d ! j)) [i + 1..<N] (d1, 0) = (d2, L)"
      "length d2 = N" "\<And>k. i + 1 \<le> k \<Longrightarrow> k < N \<Longrightarrow> m_at N A i k = ?s * d2 ! k" "0 < L"
      "L = (\<Sum>k = 0..<N. tail (i + 1) d2 k * tail (i + 1) d2 k)" by blast
    define s dl where "s = ?s" and "dl = (if 0 < d2 ! (i + 1) then - sqrt L else sqrt L)"
    define e l where "e = d2[i + 1 := d2 ! (i + 1) - dl]" and "l = 1 / (L - d2 ! (i + 1) * dl)"
    note sr = scaled_reflection [OF i d2(2,4,5) dl_def d2(3), folded e_def l_def s_def]
    let ?G = "refl_mat N l (tail (i + 1) e)"
    let ?A = "reflect_rows (+) N e (- l) (i + 1) (i + 1) A"
    have neg: "1 / (d2 ! (i + 1) * dl - L) = - l" unfolding l_def by (metis minus_diff_eq minus_divide_right)
    have it: "right_iteration N 0 i (d, A, V) = (s * dl, e, ?A, reflect_rows (+) N e (- l) (i + 1) 0 V)"
      using True d1(1) d2(1) neg by (simp add: right_iteration_def Let_def s_def dl_def e_def split del: if_split)
    have V': "reflect_rows (+) N e (- l) (i + 1) 0 V = m_mul N V ?G"
      using reflect_rows_ok [where f = "(+)" and s = "-1" and N = N and A = V and i = "i + 1" and ?j0.0 = 0] V i
      by (intro m_eqI [where N = N]) auto
    have A': "m_ok N ?A \<and> (i < r \<longrightarrow> m_at N ?A r c = m_at N (m_mul N A ?G) r c)" if "r < N" "c < N" for r c
      using reflect_rows_ok [where f = "(+)" and s = "-1" and N = N and A = A and i = "i + 1" and r = r and c = c and ?j0.0 = "i + 1"] A i that by auto
    have "reflection_from N (i + 1) ?G" by (rule reflection_fromI) (use sr(1) i in blast)
    moreover have "m_at N (m_mul N A ?G) i c = (if c = i + 1 then s * dl else 0)" if "c < N" "i < c" for c
      using sr(2) [of c] that i by (simp add: refl_mat_right)
    ultimately show ?thesis using A' i it V' d2(2)
      by (intro exI [of _ "s * dl"] exI [of _ e] exI [of _ ?A] exI [of _ ?G]) (auto simp: e_def)
  qed
qed

section \<open>The whole\<close>

text \<open>The matrix the algorithm stands for before round \<open>i\<close>: finished rows, columns of zeros, and what is left of \<open>A\<close>;
  and the same between the two reflections of the round.\<close>

definition bd_view :: "nat \<Rightarrow> nat \<Rightarrow> vec \<Rightarrow> vec \<Rightarrow> mat \<Rightarrow> mat" where
  "bd_view N i diagonal super A = mat_of N (\<lambda>r c.
     if r < i then (if c = r then diagonal ! r else if c = r + 1 then super ! r else 0)
     else if c < i then 0 else m_at N A r c)"

definition bd_mid :: "nat \<Rightarrow> nat \<Rightarrow> vec \<Rightarrow> vec \<Rightarrow> mat \<Rightarrow> mat" where
  "bd_mid N i diagonal super A = mat_of N (\<lambda>r c.
     if r < i then (if c = r then diagonal ! r else if c = r + 1 then super ! r else 0)
     else if c < i then 0 else if c = i then (if r = i then diagonal ! i else 0) else m_at N A r c)"

lemma sum_tail_cong:
  "(\<And>k. i \<le> k \<Longrightarrow> k < N \<Longrightarrow> f k = g k) \<Longrightarrow> (\<Sum>k = 0..<N. tail i d k * f k) = (\<Sum>k = 0..<N. tail i d k * (g k :: real))"
  by (rule sum.cong) (auto simp: tail_def)

lemma left_view:
  assumes H: "reflection_from N i H" and i: "i < N" "length diagonal = N"
    and A': "\<forall>r < N. \<forall>c < N. i < c \<longrightarrow> m_at N A' r c = m_at N (m_mul N H A) r c"
    and x: "\<forall>r < N. i \<le> r \<longrightarrow> m_at N (m_mul N H A) r i = (if r = i then x else 0)"
  shows "m_mul N H (bd_view N i diagonal super A) = bd_mid N i (diagonal[i := x]) super A'"
proof (rule m_eqI [where N = N])
  fix r c assume rc: "r < N" "c < N"
  obtain l d where Hd: "H = refl_mat N l (tail i d)" using H by (auto simp: reflection_from_def)
  let ?V = "bd_view N i diagonal super A"
  have V: "m_at N ?V k c = (if c < i then 0 else m_at N A k c)" if "i \<le> k" "k < N" for k
    using that rc by (simp add: bd_view_def mat_of_entry)
  have m: "m_at N (m_mul N H ?V) r c = m_at N ?V r c - (\<Sum>k = 0..<N. tail i d k * m_at N ?V k c) * l * tail i d r"
    using rc by (simp add: Hd refl_mat_left)
  have "(\<Sum>k = 0..<N. tail i d k * m_at N ?V k c) = (\<Sum>k = 0..<N. tail i d k * (if c < i then 0 else m_at N A k c))"
    by (rule sum_tail_cong) (rule V)
  then have m2: "m_at N (m_mul N H ?V) r c = (if c < i then 0 else m_at N (m_mul N H A) r c)" if "i \<le> r"
    using m V [OF that rc(1)] rc by (simp add: Hd refl_mat_left)
  show "m_at N (m_mul N H ?V) r c = m_at N (bd_mid N i (diagonal[i := x]) super A') r c"
  proof (cases "r < i")
    case True
    then have "m_at N (m_mul N H ?V) r c = m_at N ?V r c" using m by (simp add: tail_def)
    with True rc show ?thesis by (simp add: bd_view_def bd_mid_def mat_of_entry)
  next
    case False
    with m2 A' x rc i show ?thesis by (auto simp: bd_mid_def mat_of_entry)
  qed
qed (simp_all add: bd_mid_def)

lemma right_view:
  assumes G: "reflection_from N (i + 1) G" and i: "i + 1 < N" "length super = N - 1"
    and A': "\<forall>r < N. \<forall>c < N. i < r \<longrightarrow> m_at N A' r c = m_at N (m_mul N A G) r c"
    and y: "\<forall>c < N. i < c \<longrightarrow> m_at N (m_mul N A G) i c = (if c = i + 1 then y else 0)"
  shows "m_mul N (bd_mid N i diagonal super A) G = bd_view N (i + 1) diagonal (super[i := y]) A'"
proof (rule m_eqI [where N = N])
  fix r c assume rc: "r < N" "c < N"
  obtain l d where Gd: "G = refl_mat N l (tail (i + 1) d)" using G by (auto simp: reflection_from_def)
  let ?M = "bd_mid N i diagonal super A"
  have M: "m_at N ?M r k = (if r < i then 0 else m_at N A r k)" if "i + 1 \<le> k" "k < N" for k
    using that rc by (simp add: bd_mid_def mat_of_entry)
  have m: "m_at N (m_mul N ?M G) r c = m_at N ?M r c - (\<Sum>k = 0..<N. tail (i + 1) d k * m_at N ?M r k) * l * tail (i + 1) d c"
    using rc by (simp add: Gd refl_mat_right)
  have "(\<Sum>k = 0..<N. tail (i + 1) d k * m_at N ?M r k) = (\<Sum>k = 0..<N. tail (i + 1) d k * (if r < i then 0 else m_at N A r k))"
    by (rule sum_tail_cong) (rule M)
  then have m2: "m_at N (m_mul N ?M G) r c = (if r < i then 0 else m_at N (m_mul N A G) r c)" if "i < c"
    using m M [of c] that rc by (simp add: Gd refl_mat_right)
  show "m_at N (m_mul N ?M G) r c = m_at N (bd_view N (i + 1) diagonal (super[i := y]) A') r c"
  proof (cases "i < c")
    case False
    then have "m_at N (m_mul N ?M G) r c = m_at N ?M r c" using m by (simp add: tail_def)
    with False rc show ?thesis by (auto simp: bd_view_def bd_mid_def mat_of_entry)
  next
    case True
    consider "r < i" | "r = i" | "i < r" by linarith
    then show ?thesis using True m2 A' y rc i by cases (simp_all add: bd_view_def mat_of_entry)
  qed
qed (simp_all add: bd_view_def)

lemma last_view: "0 < N \<Longrightarrow> bd_mid N (N - 1) diagonal super A = bd_view N N diagonal super A"
  by (rule m_eqI [where N = N]) (auto simp: bd_view_def bd_mid_def mat_of_entry)

definition bd_inv :: "nat \<Rightarrow> mat \<Rightarrow> nat \<Rightarrow> vec \<times> vec \<times> mat \<times> mat \<times> mat \<times> vec \<times> vec \<Rightarrow> bool" where
  "bd_inv N A0 i = (\<lambda>(dl, dr, A, U, V, diagonal, super).
     length dl = N \<and> length dr = N \<and> m_ok N A \<and> orthogonal N U \<and> orthogonal N V \<and> length diagonal = N \<and> length super = N - 1 \<and>
     m_mul N U (m_mul N (bd_view N i diagonal super A) (m_trans N V)) = A0)"

lemma reflection_cancel: "reflection_from N i H \<Longrightarrow> m_ok N B \<Longrightarrow> m_mul N H (m_mul N H B) = B"
  by (auto simp: reflection_from_def orthogonal_def m_mul_assoc [symmetric])

lemma bd_round_ok:
  assumes inv: "bd_inv N A0 i st" and i: "i < N"
  shows "bd_inv N A0 (i + 1) (bd_round N 0 i st)"
proof -
  obtain dl dr A U V diagonal super where st: "st = (dl, dr, A, U, V, diagonal, super)" by (cases st)
  have ok: "length dl = N" "length dr = N" "m_ok N A" "orthogonal N U" "orthogonal N V" "length diagonal = N" "length super = N - 1"
    "m_ok N U" "m_ok N V" and eq: "m_mul N U (m_mul N (bd_view N i diagonal super A) (m_trans N V)) = A0"
    using inv by (auto simp: st bd_inv_def orthogonal_def)
  obtain x dl' A' H where left: "left_iteration N 0 i (dl, A, U) = (x, dl', A', m_mul N U H)" "length dl' = N" "m_ok N A'"
    "reflection_from N i H" "\<forall>r < N. \<forall>c < N. i < c \<longrightarrow> m_at N A' r c = m_at N (m_mul N H A) r c"
    "\<forall>r < N. i \<le> r \<longrightarrow> m_at N (m_mul N H A) r i = (if r = i then x else 0)"
    using left_iteration_ok [OF ok(3,8) i ok(1)] by blast
  let ?mid = "bd_mid N i (diagonal[i := x]) super A'" and ?U = "m_mul N U H"
  note view = left_view [OF left(4) i ok(6) left(5,6), of super]
  have U: "orthogonal N ?U" using orthogonal_mul [OF ok(4)] left(4) by (simp add: reflection_from_def)
  have mid: "m_mul N ?U (m_mul N ?mid (m_trans N V)) = A0"
    unfolding view [symmetric] using eq reflection_cancel [OF left(4)] by (simp add: m_mul_assoc)
  show ?thesis
  proof (cases "i < N - 1")
    case False
    then have "i = N - 1" using i by simp
    with last_view [of N "diagonal[i := x]" super A'] i mid have
      "m_mul N ?U (m_mul N (bd_view N (i + 1) (diagonal[i := x]) super A') (m_trans N V)) = A0" by simp
    then show ?thesis using False left ok U by (simp add: bd_inv_def bd_round_def st)
  next
    case True
    then have i1: "i + 1 < N" by simp
    obtain y dr' A2 G where right: "right_iteration N 0 i (dr, A', V) = (y, dr', A2, m_mul N V G)" "length dr' = N" "m_ok N A2"
      "reflection_from N (i + 1) G" "\<forall>r < N. \<forall>c < N. i < r \<longrightarrow> m_at N A2 r c = m_at N (m_mul N A' G) r c"
      "\<forall>c < N. i < c \<longrightarrow> m_at N (m_mul N A' G) i c = (if c = i + 1 then y else 0)"
      using right_iteration_ok [OF left(3) ok(9) i1 ok(2)] by blast
    note view2 = right_view [OF right(4) i1 ok(7) right(5,6), of "diagonal[i := x]"]
    have V: "orthogonal N (m_mul N V G)" using orthogonal_mul [OF ok(5)] right(4) by (simp add: reflection_from_def)
    have G: "m_trans N G = G" using right(4) by (simp add: reflection_from_def)
    have "m_mul N ?U (m_mul N (bd_view N (i + 1) (diagonal[i := x]) (super[i := y]) A2) (m_trans N (m_mul N V G))) = A0"
      unfolding view2 [symmetric] using mid reflection_cancel [OF right(4)] by (simp add: m_mul_assoc m_trans_mul G)
    then show ?thesis using True left right ok U V by (simp add: bd_inv_def bd_round_def st)
  qed
qed

lemma bd_rounds_ok: "bd_inv N A0 0 st \<Longrightarrow> n \<le> N \<Longrightarrow> bd_inv N A0 n (fold (bd_round N 0) [0..<n] st)"
proof (induction n)
  case (Suc n)
  then have "bd_inv N A0 n (fold (bd_round N 0) [0..<n] st)" by simp
  from bd_round_ok [OF this] Suc.prems show ?case by simp
qed simp

text \<open>The last loop writes the two diagonals.\<close>

lemma bd_fill:
  assumes "n \<le> N" "length diagonal = N" "length super = N - 1" "r < N" "c < N"
  shows "m_ok N (fold (\<lambda>i A. let A = m_set N A i i (diagonal ! i) in if i < N - 1 then m_set N A i (i + 1) (super ! i) else A) [0..<n] (m_new N 0)) \<and>
    m_at N (fold (\<lambda>i A. let A = m_set N A i i (diagonal ! i) in if i < N - 1 then m_set N A i (i + 1) (super ! i) else A) [0..<n] (m_new N 0)) r c =
      (if r < n then if c = r then diagonal ! r else if c = r + 1 then super ! r else 0 else 0)"
  using assms(1)
proof (induction n)
  case (Suc n)
  then show ?case using assms(4,5) by (auto simp: Let_def m_at_set less_Suc_eq)
qed (use assms(4,5) in \<open>simp add: m_at_new\<close>)

text \<open>C17: With no tolerance \<open>bidiagonalize\<close> turns any square matrix into an upper bidiagonal one by orthogonal matrices on
  both sides: the input is \<open>U B\<close> times the transpose of \<open>V\<close>, and \<open>B\<close> has the returned vectors on its diagonal
  and above it and zeros elsewhere.\<close>

theorem bidiagonalize_correct:
  assumes "m_ok N A" "length diagonal = N" "length super = N - 1"
    "bidiagonalize N 0 A diagonal super = (ok, B, U, V, diagonal', super')"
  shows "ok \<and> m_mul N U (m_mul N B (m_trans N V)) = A \<and>
    m_mul N U (m_trans N U) = m_eye N \<and> m_mul N (m_trans N U) U = m_eye N \<and>
    m_mul N V (m_trans N V) = m_eye N \<and> m_mul N (m_trans N V) V = m_eye N \<and>
    (\<forall>r < N. \<forall>c < N. m_at N B r c = (if c = r then diagonal' ! r else if c = r + 1 then super' ! r else 0))"
proof -
  obtain dl dr A' where f: "fold (bd_round N 0) [0..<N] (v_new N 0, v_new N 0, A, m_eye N, m_eye N, diagonal, super) =
      (dl, dr, A', U, V, diagonal', super')"
    and ok: ok and B: "B = fold (\<lambda>i A. let A = m_set N A i i (diagonal' ! i) in if i < N - 1 then m_set N A i (i + 1) (super' ! i) else A) [0..<N] (m_new N 0)"
    using assms(4) by (auto simp: bidiagonalize_def Let_def split: prod.splits)
  have e: "bd_view N 0 diagonal super A = A"
    by (rule m_eqI [where N = N]) (use assms(1) in \<open>auto simp: bd_view_def mat_of_entry\<close>)
  have "m_trans N (m_eye N) = m_eye N" by (metis refl_mat_0 refl_mat_trans)
  then have "bd_inv N A 0 (v_new N 0, v_new N 0, A, m_eye N, m_eye N, diagonal, super)"
    using assms(1-3) orthogonal_eye by (simp add: bd_inv_def e)
  from bd_rounds_ok [OF this order_refl] have inv: "bd_inv N A N (dl, dr, A', U, V, diagonal', super')" using f by simp
  have len: "length diagonal' = N" "length super' = N - 1" using inv by (auto simp: bd_inv_def)
  note fill = bd_fill [OF order_refl len, folded B]
  have "B = bd_view N N diagonal' super' A'"
    by (rule m_eqI [where N = N]) (use fill in \<open>cases "N = 0"; auto simp: bd_view_def mat_of_entry B\<close>)+
  with inv ok fill show ?thesis by (auto simp: bd_inv_def orthogonal_def)
qed

theorem bidiagonalize_correct_witness:
  "\<exists>B U V d s. bidiagonalize 2 0 [1, 2, 3, 4] [0, 0] [0] = (True, B, U, V, d, s) \<and>
     m_mul 2 U (m_mul 2 B (m_trans 2 V)) = [1, 2, 3, 4] \<and> m_at 2 B 1 0 = 0"
proof -
  obtain ok B U V d s where r: "bidiagonalize 2 0 [1, 2, 3, 4] [0, 0] [0] = (ok, B, U, V, d, s)" by (metis prod_cases6)
  from bidiagonalize_correct [OF _ _ _ r] have "ok \<and> m_mul 2 U (m_mul 2 B (m_trans 2 V)) = [1, 2, 3, 4] \<and> m_at 2 B 1 0 = 0" by simp
  with r show ?thesis by auto
qed

section \<open>The unfinished inverse\<close>

lemma hi_columns:
  assumes "m_ok N A" "i < n" "n \<le> N"
  shows "\<exists>A' Q'. fold (\<lambda>j (A, Q2).
      let dq = m_at N A j i * l;
          A = m_set N A j i 0
      in (A, fold (\<lambda>k Q2. m_set N Q2 k j (m_at N Q2 k j + m_at N Q2 k i * dq)) [0..<N] Q2)) [i + 1..<n] (A, Q2) = (A', Q') \<and>
    m_ok N A' \<and> (\<forall>r < N. \<forall>c < N. m_at N A' r c = (if c = i \<and> i < r \<and> r < n then 0 else m_at N A r c))"
  using assms(2,3)
proof (induction n)
  case (Suc n)
  show ?case
  proof (cases "i = n")
    case False
    with Suc obtain A' Q' where "fold (\<lambda>j (A, Q2).
        let dq = m_at N A j i * l; A = m_set N A j i 0
        in (A, fold (\<lambda>k Q2. m_set N Q2 k j (m_at N Q2 k j + m_at N Q2 k i * dq)) [0..<N] Q2)) [i + 1..<n] (A, Q2) = (A', Q')"
      "m_ok N A'" "\<forall>r < N. \<forall>c < N. m_at N A' r c = (if c = i \<and> i < r \<and> r < n then 0 else m_at N A r c)" by auto
    with False Suc.prems show ?thesis by (auto simp: Let_def m_at_set less_Suc_eq)
  qed (use assms(1) in auto)
qed simp

lemma hi_rounds_diagonal:
  assumes "m_ok N A" "hi_rounds N epsilon [i..<n] (A, Q2) = (True, A')" "n \<le> N"
  shows "m_ok N A' \<and> (\<forall>r < N. \<forall>c < N. m_at N A' r c = (if i \<le> c \<and> c < n \<and> c < r then 0 else m_at N A r c))"
  using assms
proof (induction "n - i" arbitrary: i A Q2)
  case (Suc m)
  then have i: "i < n" "[i..<n] = i # [i + 1..<n]" by (simp_all add: upt_conv_Cons)
  then have piv: "\<not> \<bar>m_at N A i i\<bar> \<le> epsilon" using Suc.prems(2) by auto
  define l where "l = 1 / m_at N A i i"
  obtain A1 Q1 where step: "fold (\<lambda>j (A, Q2).
      let dq = m_at N A j i * l; A = m_set N A j i 0
      in (A, fold (\<lambda>k Q2. m_set N Q2 k j (m_at N Q2 k j + m_at N Q2 k i * dq)) [0..<N] Q2)) [i + 1..<N] (A, Q2) = (A1, Q1)"
    "m_ok N A1" "\<forall>r < N. \<forall>c < N. m_at N A1 r c = (if c = i \<and> i < r \<and> r < N then 0 else m_at N A r c)"
    using hi_columns [OF Suc.prems(1) less_le_trans [OF i(1) Suc.prems(3)] order_refl, of l Q2] by blast
  have "hi_rounds N epsilon [i..<n] (A, Q2) = hi_rounds N epsilon [i + 1..<n] (fold (\<lambda>j (A, Q2).
      let dq = m_at N A j i * l; A = m_set N A j i 0
      in (A, fold (\<lambda>k Q2. m_set N Q2 k j (m_at N Q2 k j + m_at N Q2 k i * dq)) [0..<N] Q2)) [i + 1..<N] (A, Q2))"
    using piv unfolding i(2) l_def by (simp only: hi_rounds.simps Let_def if_False)
  then have "hi_rounds N epsilon [i + 1..<n] (A1, Q1) = (True, A')" using Suc.prems(2) unfolding step(1) by simp
  from Suc.hyps(1) [OF _ step(2) this Suc.prems(3)] Suc.hyps(2) step(3) i(1) Suc.prems(3)
  show ?case by (auto simp: Suc_le_eq)
qed (use assms(1) in auto)

text \<open>\<open>householder_inverse\<close> reports success with a diagonal matrix in its argument, not the inverse: the number
  two is left as it is.\<close>

lemma householder_inverse_diagonal:
  assumes "m_ok N A" "0 \<le> epsilon" "householder_inverse N epsilon A = (True, A')"
  shows "\<forall>r < N. \<forall>c < N. r \<noteq> c \<longrightarrow> m_at N A' r c = 0"
proof (intro allI impI)
  fix r c assume rc: "r < N" "c < N" "r \<noteq> c"
  obtain ok R Q1 where l: "left_householder N epsilon (m_transpose N A) (m_new N 0) True = (ok, R, Q1)" by (metis prod_cases3)
  with assms(3) have ok: ok and r: "hi_rounds N epsilon [0..<N - 1] (R, m_eye N) = (True, A')"
    by (auto simp: householder_inverse_def split: if_splits)
  have t: "m_ok N (m_transpose N A)" using m_transpose_ok [OF assms(1) rc(1,2)] by blast
  from left_householder_lq [OF t assms(2) l] ok have R: "m_ok N R" "\<forall>r < N. \<forall>c < N. r < c \<longrightarrow> m_at N R r c = 0"
    by auto
  from hi_rounds_diagonal [OF R(1) r] have "m_at N A' r c = (if c < N - 1 \<and> c < r then 0 else m_at N R r c)"
    using rc by simp
  moreover have "r < c" if "\<not> (c < N - 1 \<and> c < r)" using that rc by linarith
  ultimately show "m_at N A' r c = 0" using R(2) rc by (cases "c < N - 1 \<and> c < r") simp_all
qed

lemma householder_inverse_two: "householder_inverse 1 epsilon [2] = (True, [2])"
  by (simp add: householder_inverse_def left_householder_def m_transpose_def)

end
