(* ===== verification/Spec2Isabelle.thy ===== *)
theory Spec2Isabelle
  imports Zi_Dendrogram Zi_Simple_Heap Zi_Binary_Heap_Props Zi_Bits Zi_FFT Zi_Args Zi_Natural
    Zi_RWMutex Zi_Sync Zi_Quat_Functions Zi_Matching Zi_SCC Zi_Watershed_Props
    Zi_Task_Manager_Props Zi_Periodic Zi_Thread_Info Zi_All_Threads
    Zi_Vec Zi_Matrix_Laws Zi_Gauss Zi_Bidiagonal
begin

text \<open>
  A verification library for \<^verbatim>\<open>zi_lib\<close>, the C++ header library under \<^verbatim>\<open>src/zi\<close>. The headers are
  small and mostly independent: containers and graph structures, bit tricks and Fourier transforms,
  vectors and quaternions, the watershed segmentation built on the containers, threads and their
  monitors, command line arguments. Everything else under \<^verbatim>\<open>src\<close> is a copy of Boost.

  \<^bold>\<open>Conventions\<close> (\<^verbatim>\<open>Zi_Prelude\<close>). An object is a record of its fields and a member function a
  function that yields the new record. Vectors and C arrays are lists updated by index. \<open>None\<close> is an
  operation that does not return normally (a failed assertion, an access out of range, an iterator past
  its end, a loop that does not end), \<open>Inl\<close> an exception. Integers whose wrap-around matters are words of
  their width; sizes and indices bounded by memory are natural numbers; floating point numbers are
  exact reals or complex numbers. Template parameters, comparison functions and \<open>lexical_cast\<close> are
  arguments of the definitions.

  \<^bold>\<open>Containers.\<close>
  \<^item> \<^verbatim>\<open>Zi_Disjoint_Sets\<close>: \<^verbatim>\<open>disjoint_sets/disjoint_sets.hpp\<close>. \<open>ds_find_set\<close> climbs to the representative and
    compresses the path; climbing is a partial function (a cycle would not end), and on well-formed
    structures it returns, keeps the partition and unites by rank with ranks that fit their byte. The
    component theorem: merging edges yields the connected components.
  \<^item> \<^verbatim>\<open>Zi_Dendrogram\<close>: \<open>apply_dendrogram\<close> and \<open>run_dendrogram\<close> of \<^verbatim>\<open>watershed/basic_watershed.hpp\<close>, every loop,
    on top of the disjoint sets: sizes, compaction, relabelling of voxels and of the remaining edges.
  \<^item> \<^verbatim>\<open>Zi_Heap_Order\<close>: generic facts on sift-up and sift-down in an array and the locale of an erasable
    queue that both heaps interpret. \<^verbatim>\<open>Zi_Simple_Heap\<close>: \<^verbatim>\<open>heap/simple_binary_heap.hpp\<close>.
    \<^verbatim>\<open>Zi_Binary_Heap\<close>, \<^verbatim>\<open>Zi_Binary_Heap_Correct\<close>, \<^verbatim>\<open>Zi_Binary_Heap_Props\<close>: \<^verbatim>\<open>heap/detail/binary_heap_impl.hpp\<close>
    with its arrays \<open>heap_\<close>, \<open>map_\<close>, \<open>store_\<close> and their growing and shrinking copies, refined to an abstract
    multiset with keys.
  \<^item> \<^verbatim>\<open>Zi_Matching\<close>: \<^verbatim>\<open>graph/bipartite_matching.hpp\<close>: the constructor, both searches and the phases of
    Hopcroft and Karp; the searches and phases are partial functions that are shown to return, and the
    result is a maximum matching (the last search gives a cover of the same size).
  \<^item> \<^verbatim>\<open>Zi_SCC\<close>: \<^verbatim>\<open>graph/strongly_connected_components.hpp\<close>: Tarjan's recursion, shown to return; the vertices with one
    number are the strongly connected components, numbered against the edges.

  \<^bold>\<open>Watershed\<close> (\<^verbatim>\<open>watershed/basic_watershed.hpp\<close>, on the volumes of \<^verbatim>\<open>chunk.hpp\<close> and
  \<^verbatim>\<open>affinity_matrix.hpp\<close>).
  \<^item> \<^verbatim>\<open>Zi_Watershed\<close>: \<open>add_edges\<close>: which neighbour a voxel is joined to, bit by bit; the bits mean a
    symmetric relation \<open>joined\<close> between voxels (thresholds and the first steepest direction).
  \<^item> \<^verbatim>\<open>Zi_Basins\<close>: the flooding of \<open>doit\<close>: its queue is a partial function shown to end, its basins are the
    connected components of \<open>joined\<close>, with their sizes.
  \<^item> \<^verbatim>\<open>Zi_Regions\<close>: the rest of \<open>doit\<close>: the graph of basins with the largest affinities, the border marks,
    the merging on the disjoint sets, the removal of small regions, the dendrogram.
    \<^verbatim>\<open>Zi_Watershed_Props\<close>: what a run of \<open>doit\<close> guarantees, for fewer than \<open>2 ^ 31\<close> voxels.

  \<^bold>\<open>Numbers.\<close>
  \<^item> \<^verbatim>\<open>Zi_Bits\<close>: \<^verbatim>\<open>math/bit_reverse.hpp\<close>, \<^verbatim>\<open>math/integral_log2.hpp\<close>, \<^verbatim>\<open>utility/binary_printer.hpp\<close>, bit by bit on
    words. \<^verbatim>\<open>Zi_Size_Log2\<close>, \<^verbatim>\<open>Zi_Permuter\<close>, \<^verbatim>\<open>Zi_FFT\<close>: \<^verbatim>\<open>math/transforms/detail\<close>: the rounded logarithm, the
    cached bit-reversal permutation, the table of roots and the four radix-2 transforms, which compute
    the discrete Fourier transform of the padded data.
  \<^item> \<^verbatim>\<open>Zi_Quat\<close>, \<^verbatim>\<open>Zi_Quat_Functions\<close>: \<^verbatim>\<open>vl/quat.hpp\<close> and \<^verbatim>\<open>vl/quat_functions.hpp\<close>: the class, its operators,
    the product with eight multiplications against Hamilton's, inverses, interpolation, and the
    conversion from a rotation matrix.

  \<^bold>\<open>Vectors and matrices\<close> (\<^verbatim>\<open>vl\<close>; a vector is the list of its elements, an \<open>N\<close> by \<open>N\<close> matrix the list of
  its rows one after the other, as \<^verbatim>\<open>mat.hpp\<close> stores it, with the entry \<open>m_at N m i j\<close> as the view the laws use).
  \<^item> \<^verbatim>\<open>Zi_Vec\<close>: \<^verbatim>\<open>vl/vec.hpp\<close>, \<^verbatim>\<open>vl/vec_functions.hpp\<close>: the class, its operators, norms, products, interpolation.
  \<^item> \<^verbatim>\<open>Zi_Matrix\<close>: \<^verbatim>\<open>vl/mat.hpp\<close>, \<^verbatim>\<open>vl/detail/mat_lookup_table.hpp\<close>, \<^verbatim>\<open>vl/mat_functions.hpp\<close>, loop by loop.
    \<^verbatim>\<open>Zi_Matrix_Entries\<close>: what each loop leaves in each entry. \<^verbatim>\<open>Zi_Matrix_Laws\<close>: the ring laws, transposition
    in place, and the operations that do not do what their names say.
  \<^item> \<^verbatim>\<open>Zi_Invert\<close>, \<^verbatim>\<open>Zi_Gauss\<close>: \<^verbatim>\<open>vl/detail/invert.hpp\<close>: the closed inverses, the elimination of Gauss and Jordan with
    its pivots (what it returns is the inverse, and it finds one when there is one), division and integer powers.
  \<^item> \<^verbatim>\<open>Zi_Householder\<close>, \<^verbatim>\<open>Zi_Adjugate\<close>: \<^verbatim>\<open>vl/detail/householder.hpp\<close> and the determinants and adjugates of
    \<^verbatim>\<open>vl/mat_functions.hpp\<close>: reflections, the factorisations \<open>Q R\<close> and \<open>L Q\<close>.
    \<^verbatim>\<open>Zi_Bidiagonal\<close>: the bidiagonalisation of the same header.

  \<^bold>\<open>Threads.\<close>
  \<^item> \<^verbatim>\<open>Zi_Monitor\<close>: the step relation of threads that call the member functions of a class on one mutex
    and its condition variables: a critical section is one step, a wait parks the thread, notifications
    wake, waits may also end early or time out. The locale \<open>monitor_invariant\<close> states what the sections
    of a class have to keep and gives invariants of all reachable states; every class interprets it.
  \<^item> \<^verbatim>\<open>Zi_RWMutex\<close>: \<^verbatim>\<open>concurrency/detail/rwmutex_impl.hpp\<close>: mutual exclusion and no lost wake-up for all
    sixteen operations. \<^verbatim>\<open>Zi_Sync\<close>: \<^verbatim>\<open>semaphore.hpp\<close>, \<^verbatim>\<open>barrier.hpp\<close>, \<^verbatim>\<open>state.hpp\<close>, \<^verbatim>\<open>trigger.hpp\<close>.
  \<^item> \<^verbatim>\<open>Zi_Tasks\<close>: the four task containers of \<^verbatim>\<open>concurrency/detail\<close> behind one interface, a locale that says that
    what is pushed comes out exactly once, and the order of the priorities. \<^verbatim>\<open>Zi_Task_Manager\<close>,
    \<^verbatim>\<open>Zi_Task_Manager_Props\<close>: \<^verbatim>\<open>concurrency/detail/task_manager_impl.hpp\<close> over any container: the contract of the
    container gives the invariant of the manager (a \<open>sublocale\<close>), from which counts, conservation of tasks and
    progress follow; three executions show where it gets stuck or leaves tasks.
  \<^item> \<^verbatim>\<open>Zi_Thread_Info\<close>: \<^verbatim>\<open>concurrency/detail/thread_info.hpp\<close> and \<open>ENTRY\<close> of \<^verbatim>\<open>pthread/thread.hpp\<close>: the life of a thread
    from its creation to its join. \<^verbatim>\<open>Zi_All_Threads\<close>: \<^verbatim>\<open>concurrency/detail/all_threads_data.hpp\<close>: the table of all
    threads. \<^verbatim>\<open>Zi_Periodic\<close>: \<^verbatim>\<open>concurrency/periodic_function.hpp\<close>: which stops a periodic function hears, and
    executions in which it does not.

  \<^bold>\<open>Text.\<close>
  \<^item> \<^verbatim>\<open>Zi_Args\<close>: \<^verbatim>\<open>zargs\<close>: string helpers, matchers, parsers and the loop of \<open>parse_arguments\<close>, on command lines
    of the documented forms and on their equivalents with \<open>--key=\<close>.
  \<^item> \<^verbatim>\<open>Zi_Natural\<close>: \<^verbatim>\<open>utility/natural_compare.hpp\<close>.

  \<^bold>\<open>Bounds.\<close> No operation is cut off by fuel: loops are structural, have a termination measure, or are
  partial functions whose returning is proved where it is claimed. The only numeric assumptions are
  the ones the theorems name: ids and counts that fit their 32 bits, at most \<open>2 ^ 32\<close> edges of a directed graph,
  fewer than \<open>2 ^ 32\<close> threads, fewer than \<open>2 ^ 31\<close> rounds of a barrier, credits of a semaphore within
  \<open>int64_t\<close>, an epsilon that is not negative.

  \<^bold>\<open>Not modelled.\<close> Rounding of floating point numbers; the allocation of memory; the calls of POSIX
  behind the condition variable; of \<^verbatim>\<open>vl\<close> the real powers and the Jacobi rotations; \<^verbatim>\<open>fft_splitradix.hpp\<close>, \<^verbatim>\<open>mesh\<close>, \<^verbatim>\<open>cache\<close>
  and \<^verbatim>\<open>ai\<close>; events and synchronized objects of \<^verbatim>\<open>concurrency\<close>. Left aside: files and sockets (\<^verbatim>\<open>zlog\<close>, \<^verbatim>\<open>system\<close>, the
  memory-mapped files of the large watershed), OpenGL bindings (\<^verbatim>\<open>gl\<close>), template metaprogramming without
  run-time behaviour (\<^verbatim>\<open>meta\<close>, \<^verbatim>\<open>zpp\<close>, \<^verbatim>\<open>config\<close>), the test framework (\<^verbatim>\<open>zunit\<close>) and the vendored Boost.
\<close>

end
